(* ===== verification/Esm_Prelude.thy ===== *)
theory Esm_Prelude
  imports Main "HOL-Library.Word"
begin

text \<open>
  Shared vocabulary of the development: the machine integer and byte types, the outcome type of
  fallible operations (an error value or a panic), the conversions of the Rust standard library
  between words and byte arrays, and the generic list and word lemmas the components use.

  A signed integer \<open>i64\<close> is kept as the 64-bit word that holds it; \<open>sint\<close> and the signed
  orders \<open><s\<close>, \<open>\<le>s\<close> read it, and a cast between \<open>i64\<close> and \<open>u64\<close> is the identity.
\<close>

unbundle bit_operations_syntax

named_theorems codec_simps \<open>evaluation rules of encoders and decoders\<close>
named_theorems res_simps \<open>evaluation rules of the outcome type\<close>

section \<open>Machine types\<close>

type_synonym u8 = "8 word"
type_synonym u16 = "16 word"
type_synonym u32 = "32 word"
type_synonym u64 = "64 word"
type_synonym i16 = "16 word"
type_synonym i64 = "64 word"
type_synonym bytes = "u8 list"

section \<open>Outcomes: an error value, a panic or a result\<close>

datatype 'e fault = Panic | Err 'e

type_synonym ('e, 'a) res = "'e fault + 'a"

definition rbind :: "('e, 'a) res \<Rightarrow> ('a \<Rightarrow> ('e, 'b) res) \<Rightarrow> ('e, 'b) res" where
  "rbind m f = (case m of Inl e \<Rightarrow> Inl e | Inr x \<Rightarrow> f x)"

definition map_err :: "('e \<Rightarrow> 'f) \<Rightarrow> ('e, 'a) res \<Rightarrow> ('f, 'a) res" where
  "map_err g m = (case m of Inl Panic \<Rightarrow> Inl Panic | Inl (Err e) \<Rightarrow> Inl (Err (g e)) | Inr x \<Rightarrow> Inr x)"

definition or_panic :: "'a option \<Rightarrow> ('e, 'a) res" where
  "or_panic m = (case m of None \<Rightarrow> Inl Panic | Some x \<Rightarrow> Inr x)"

definition ok_or :: "'e \<Rightarrow> 'a option \<Rightarrow> ('e, 'a) res" where
  "ok_or e m = (case m of None \<Rightarrow> Inl (Err e) | Some x \<Rightarrow> Inr x)"

lemma rbind_simps [simp, res_simps]:
  "rbind (Inl e) f = Inl e"
  "rbind (Inr x) f = f x"
  by (simp_all add: rbind_def)

lemma map_err_simps [simp, res_simps]:
  "map_err g (Inl Panic) = Inl Panic"
  "map_err g (Inl (Err e)) = Inl (Err (g e))"
  "map_err g (Inr x) = Inr x"
  by (simp_all add: map_err_def)

lemma or_panic_simps [simp, res_simps]:
  "or_panic None = Inl Panic"
  "or_panic (Some x) = Inr x"
  by (simp_all add: or_panic_def)

lemma ok_or_simps [simp, res_simps]:
  "ok_or e None = Inl (Err e)"
  "ok_or e (Some x) = Inr x"
  by (simp_all add: ok_or_def)

lemma rbind_eq_Inr: "rbind m f = Inr y \<longleftrightarrow> (\<exists>x. m = Inr x \<and> f x = Inr y)"
  by (cases m) simp_all

lemma map_err_eq_Inr [simp]: "map_err g m = Inr x \<longleftrightarrow> m = Inr x"
  by (simp add: map_err_def split: sum.splits fault.splits)

lemma or_panic_eq_Inr [simp]: "or_panic m = Inr x \<longleftrightarrow> m = Some x"
  by (cases m) simp_all

lemma ok_or_eq_Inr [simp]: "ok_or e m = Inr x \<longleftrightarrow> m = Some x"
  by (cases m) simp_all

section \<open>Word conversions of the Rust standard library\<close>

text \<open>\<open>uN::to_be_bytes\<close> and \<open>uN::from_be_bytes\<close>, \<open>u64::from_le_bytes\<close>.\<close>

definition to_be_bytes :: "'a::len word \<Rightarrow> bytes" where
  "to_be_bytes u = map (\<lambda>k. ucast (drop_bit (8 * k) u)) (rev [0..<LENGTH('a) div 8])"

definition from_be_bytes :: "bytes \<Rightarrow> 'a::len word" where
  "from_be_bytes bs = foldl (\<lambda>acc b. push_bit 8 acc OR ucast b) 0 bs"

fun from_le_bytes :: "bytes \<Rightarrow> 'a::len word" where
  "from_le_bytes [] = 0"
| "from_le_bytes (b # bs) = ucast b OR push_bit 8 (from_le_bytes bs)"

lemma length_to_be_bytes [simp]: "length (to_be_bytes (u :: 'a::len word)) = LENGTH('a) div 8"
  by (simp add: to_be_bytes_def)

lemma ucast_ucast_byte: "(ucast (ucast (w :: 'a::len word) :: u8) :: 'a word) = take_bit 8 w"
  by (rule bit_word_eqI) (auto simp: bit_simps)

lemma foldl_be_bytes:
  "foldl (\<lambda>acc b. push_bit 8 acc OR ucast b) (acc :: 'a::len word)
     (map (\<lambda>k. ucast (drop_bit (8 * k) u) :: u8) (rev [0..<n]))
   = push_bit (8 * n) acc OR take_bit (8 * n) u"
proof (induction n arbitrary: acc)
  case 0
  show ?case by simp
next
  case (Suc n)
  have "push_bit (8 * n) (push_bit 8 acc OR take_bit 8 (drop_bit (8 * n) u)) OR take_bit (8 * n) u
     = push_bit (8 * Suc n) acc OR take_bit (8 * Suc n) u"
    by (rule bit_word_eqI) (auto simp: bit_simps algebra_simps)
  then show ?case by (simp add: Suc ucast_ucast_byte)
qed

lemma from_be_to_be_bytes:
  assumes "8 dvd LENGTH('a)"
  shows "from_be_bytes (to_be_bytes (u :: 'a::len word)) = u"
  using foldl_be_bytes [of "0 :: 'a word" u "LENGTH('a) div 8"] assms
  by (simp add: from_be_bytes_def to_be_bytes_def)

section \<open>Counting bits\<close>

text \<open>\<open>u64::trailing_zeros\<close>, \<open>u64::leading_zeros\<close> and \<open>u64::count_ones\<close>.\<close>

definition trailing_zeros :: "u64 \<Rightarrow> nat" where
  "trailing_zeros w = length (takeWhile (\<lambda>n. \<not> bit w n) [0..<64])"

definition leading_zeros :: "u64 \<Rightarrow> nat" where
  "leading_zeros w = length (takeWhile (\<lambda>n. \<not> bit w n) (rev [0..<64]))"

definition count_ones :: "u64 \<Rightarrow> nat" where
  "count_ones w = length (filter (bit w) [0..<64])"

lemma word64_eqI: "(\<And>n. n < 64 \<Longrightarrow> bit v n = bit w n) \<Longrightarrow> v = (w :: u64)"
  by (rule bit_word_eqI) simp

lemma takeWhile_upt_eq:
  assumes "k < n" "\<not> P k" "\<And>i. i < k \<Longrightarrow> P i"
  shows "takeWhile P [0..<n] = [0..<k]"
proof -
  have "[0..<n] = [0..<k] @ k # [Suc k..<n]"
    using assms(1) upt_add_eq_append [of 0 k "n - k"] by (simp add: upt_conv_Cons)
  then show ?thesis using assms(2,3) takeWhile_append2 [of "[0..<k]" P "k # [Suc k..<n]"] by simp
qed

lemma trailing_zeros_eqI:
  assumes "k < 64" "bit w k" "\<And>i. i < k \<Longrightarrow> \<not> bit w i"
  shows "trailing_zeros w = k"
  using takeWhile_upt_eq [of k 64 "\<lambda>n. \<not> bit w n"] assms by (simp add: trailing_zeros_def)

lemma trailing_zeros_nonzero:
  assumes "w \<noteq> 0"
  shows "trailing_zeros w < 64" "bit w (trailing_zeros w)" "i < trailing_zeros w \<Longrightarrow> \<not> bit w i"
proof -
  obtain n where n: "bit w n" using assms by (auto simp: bit_eq_iff)
  define k where "k = (LEAST n. bit w n)"
  have k: "bit w k" "\<And>i. i < k \<Longrightarrow> \<not> bit w i"
    using n unfolding k_def by (auto intro: LeastI dest: not_less_Least)
  then have "k < 64" using bit_imp_le_length by fastforce
  with k have "trailing_zeros w = k" by (rule_tac trailing_zeros_eqI) auto
  with k \<open>k < 64\<close> show "trailing_zeros w < 64" "bit w (trailing_zeros w)"
    "i < trailing_zeros w \<Longrightarrow> \<not> bit w i" by auto
qed

lemma trailing_zeros_0 [simp]: "trailing_zeros 0 = 64"
  by (simp add: trailing_zeros_def takeWhile_eq_all_conv [THEN iffD2])

lemma trailing_zeros_eq_64 [simp]: "64 \<le> trailing_zeros w \<longleftrightarrow> w = 0"
  using trailing_zeros_nonzero(1) [of w] by (cases "w = 0") auto

lemma leading_zeros_alt: "leading_zeros w = length (takeWhile (\<lambda>i. \<not> bit w (63 - i)) [0..<64])"
proof -
  have "rev [0..<64] = map (\<lambda>i. 63 - i) [0..<64 :: nat]"
    by (rule nth_equalityI) (simp_all add: rev_nth)
  then show ?thesis by (simp add: leading_zeros_def takeWhile_map comp_def)
qed

lemma leading_zeros_nonzero:
  assumes "w \<noteq> 0"
  shows "leading_zeros w < 64" "2 ^ (63 - leading_zeros w) \<le> uint w" "uint w < 2 ^ (64 - leading_zeros w)"
proof -
  obtain n where n: "bit w n" "n < 64" using assms bit_imp_le_length by (fastforce simp: bit_eq_iff)
  define k where "k = (LEAST i. i < 64 \<and> bit w (63 - i))"
  have "63 - n < 64 \<and> bit w (63 - (63 - n))" using n by simp
  then have k: "k < 64" "bit w (63 - k)" and "\<And>i. i < k \<Longrightarrow> \<not> (i < 64 \<and> bit w (63 - i))"
    unfolding k_def by (auto intro: LeastI2 dest: not_less_Least)
  then have low: "\<not> bit w (63 - i)" if "i < k" for i using that by auto
  have lz: "leading_zeros w = k"
    unfolding leading_zeros_alt using takeWhile_upt_eq [of k 64 "\<lambda>i. \<not> bit w (63 - i)"] k low by simp
  have "take_bit (64 - k) w = w"
  proof (rule word64_eqI)
    fix n :: nat assume "n < 64"
    then show "bit (take_bit (64 - k) w) n = bit w n"
      using low [of "63 - n"] k(1) by (cases "n < 64 - k") (auto simp: bit_take_bit_iff)
  qed
  then have "uint w = take_bit (64 - k) (uint w)" by (metis unsigned_take_bit_eq)
  then show "uint w < 2 ^ (64 - leading_zeros w)" unfolding lz by (metis take_bit_int_less_exp)
  have "bit (uint w) (63 - k)" using k by (simp add: bit_uint_iff)
  then have "uint w div 2 ^ (63 - k) \<noteq> 0" by (auto simp: bit_iff_odd)
  then show "2 ^ (63 - leading_zeros w) \<le> uint w" unfolding lz
    by (meson div_pos_pos_trivial not_less uint_ge_0)
  show "leading_zeros w < 64" using lz k by simp
qed

lemma leading_zeros_0 [simp]: "leading_zeros 0 = 64"
  by (simp add: leading_zeros_def takeWhile_eq_all_conv [THEN iffD2])

section \<open>Powers of two\<close>

lemma unat_exp: "n < LENGTH('a) \<Longrightarrow> unat (2 ^ n :: 'a::len word) = 2 ^ n"
  by transfer (simp add: nat_power_eq take_bit_eq_mod)

lemma unat_drop_bit: "unat (drop_bit n w) = unat w div 2 ^ n"
  by (simp add: unat_drop_bit_eq) (simp add: drop_bit_eq_div)

section \<open>Slices\<close>

definition subslice :: "'a list \<Rightarrow> nat \<Rightarrow> nat \<Rightarrow> 'a list" where
  "subslice xs i j = take (j - i) (drop i xs)"

lemma length_subslice [simp]: "j \<le> length xs \<Longrightarrow> length (subslice xs i j) = j - i"
  by (simp add: subslice_def)

lemma nth_subslice: "k < j - i \<Longrightarrow> j \<le> length xs \<Longrightarrow> subslice xs i j ! k = xs ! (i + k)"
  by (simp add: subslice_def)

section \<open>Partition points\<close>

text \<open>\<open>slice::partition_point\<close>: the number of leading elements that satisfy the predicate, which the standard
  library finds by binary search in a slice where they come first.\<close>

definition partition_point :: "('a \<Rightarrow> bool) \<Rightarrow> 'a list \<Rightarrow> nat" where
  "partition_point P xs = length (takeWhile P xs)"

lemma partition_point_le: "partition_point P xs \<le> length xs"
  by (simp add: partition_point_def length_takeWhile_le)

lemma partition_point_before: "i < partition_point P xs \<Longrightarrow> P (xs ! i)"
  unfolding partition_point_def by (metis nth_mem set_takeWhileD takeWhile_nth)

lemma partition_point_at: "partition_point P xs < length xs \<Longrightarrow> \<not> P (xs ! partition_point P xs)"
  unfolding partition_point_def by (rule nth_length_takeWhile)

end
