(* ===== verification/Varint.thy ===== *)
theory Varint
  imports Esm_Prelude
begin

text \<open>
  The integer encodings of \<open>crates/esm-encoding/src/int.rs\<close>: fixed-width big-endian and zig-zag
  integers and the encoders of variable-length integers. The decoders of the same file are in
  \<open>Varint_Decode\<close>.

  Every encoder appends to the buffer it is given, as the source does. A decoder that indexes its
  input without a check of its own (the fixed-width ones) returns \<open>None\<close> where the index would
  panic. The reference functions \<open>leb128\<close> and \<open>varval\<close> state what a varint is; the branch
  cascade of \<open>append_var_uint64\<close> is proved equal to them.
\<close>

section \<open>Fixed-width integers\<close>

definition marshal_uint16 :: "bytes \<Rightarrow> u16 \<Rightarrow> bytes" where
  "marshal_uint16 dst u = dst @ to_be_bytes u"

definition unmarshal_uint16 :: "bytes \<Rightarrow> u16 option" where
  "unmarshal_uint16 src = (if length src < 2 then None else Some (from_be_bytes (take 2 src)))"

definition marshal_uint32 :: "bytes \<Rightarrow> u32 \<Rightarrow> bytes" where
  "marshal_uint32 dst u = dst @ to_be_bytes u"

definition unmarshal_uint32 :: "bytes \<Rightarrow> u32 option" where
  "unmarshal_uint32 src = (if length src < 4 then None else Some (from_be_bytes (take 4 src)))"

definition marshal_uint64 :: "bytes \<Rightarrow> u64 \<Rightarrow> bytes" where
  "marshal_uint64 dst u = dst @ to_be_bytes u"

definition unmarshal_uint64 :: "bytes \<Rightarrow> u64 option" where
  "unmarshal_uint64 src = (if length src < 8 then None else Some (from_be_bytes (take 8 src)))"

definition marshal_int16 :: "bytes \<Rightarrow> i16 \<Rightarrow> bytes" where
  "marshal_int16 dst v = marshal_uint16 dst (push_bit 1 v XOR signed_drop_bit 15 v)"

definition unmarshal_int16 :: "bytes \<Rightarrow> i16 option" where
  "unmarshal_int16 src = map_option
     (\<lambda>u. drop_bit 1 u XOR signed_drop_bit 15 (push_bit 15 u)) (unmarshal_uint16 src)"

definition zigzag_encode :: "i64 \<Rightarrow> u64" where
  "zigzag_encode v = push_bit 1 v XOR signed_drop_bit 63 v"

definition zigzag_decode :: "u64 \<Rightarrow> i64" where
  "zigzag_decode u = drop_bit 1 u XOR signed_drop_bit 63 (push_bit 63 u)"

definition marshal_int64 :: "bytes \<Rightarrow> i64 \<Rightarrow> bytes" where
  "marshal_int64 dst v = marshal_uint64 dst (push_bit 1 v XOR signed_drop_bit 63 v)"

definition unmarshal_int64 :: "bytes \<Rightarrow> i64 option" where
  "unmarshal_int64 src = map_option
     (\<lambda>u. drop_bit 1 u XOR signed_drop_bit 63 (push_bit 63 u)) (unmarshal_uint64 src)"

section \<open>Variable-length integers: encoders\<close>

text \<open>The byte \<open>((u >> (k * 7)) | 0x80) as u8\<close> and the closing byte \<open>(u >> (k * 7)) as u8\<close>.\<close>

definition cont7 :: "nat \<Rightarrow> u64 \<Rightarrow> u8" where
  "cont7 k u = ucast (drop_bit (k * 7) u OR 0x80)"

definition last7 :: "nat \<Rightarrow> u64 \<Rightarrow> u8" where
  "last7 k u = ucast (drop_bit (k * 7) u)"

definition append_var_uint64 :: "bytes \<Rightarrow> u64 \<Rightarrow> bytes" where
  "append_var_uint64 dst u =
    (if u < 2 ^ 7 then dst @ [last7 0 u]
     else if u < 2 ^ (2 * 7) then dst @ [cont7 0 u, last7 1 u]
     else if u < 2 ^ (3 * 7) then dst @ [cont7 0 u, cont7 1 u, last7 2 u]
     else if u \<ge> 2 ^ (8 * 7) then
       (if u < 2 ^ (9 * 7) then
          dst @ [cont7 0 u, cont7 1 u, cont7 2 u, cont7 3 u, cont7 4 u, cont7 5 u, cont7 6 u,
                 cont7 7 u, last7 8 u]
        else
          dst @ [cont7 0 u, cont7 1 u, cont7 2 u, cont7 3 u, cont7 4 u, cont7 5 u, cont7 6 u,
                 cont7 7 u, cont7 8 u, 1])
     else if u < 2 ^ (4 * 7) then dst @ [cont7 0 u, cont7 1 u, cont7 2 u, last7 3 u]
     else if u < 2 ^ (5 * 7) then dst @ [cont7 0 u, cont7 1 u, cont7 2 u, cont7 3 u, last7 4 u]
     else if u < 2 ^ (6 * 7) then
       dst @ [cont7 0 u, cont7 1 u, cont7 2 u, cont7 3 u, cont7 4 u, last7 5 u]
     else if u < 2 ^ (7 * 7) then
       dst @ [cont7 0 u, cont7 1 u, cont7 2 u, cont7 3 u, cont7 4 u, cont7 5 u, last7 6 u]
     else
       dst @ [cont7 0 u, cont7 1 u, cont7 2 u, cont7 3 u, cont7 4 u, cont7 5 u, cont7 6 u,
              last7 7 u])"

definition marshal_var_int64 :: "bytes \<Rightarrow> i64 \<Rightarrow> bytes" where
  "marshal_var_int64 dst v =
    (let u = zigzag_encode v in
     if v <s 2 ^ 6 \<and> - (2 ^ 6) <s v then dst @ [ucast u]
     else if u < 2 ^ (2 * 7) then dst @ [cont7 0 u, last7 1 u]
     else if u < 2 ^ (3 * 7) then dst @ [cont7 0 u, cont7 1 u, last7 2 u]
     else append_var_uint64 dst u)"

fun marshal_var_int64s_slow :: "bytes \<Rightarrow> i64 list \<Rightarrow> bytes" where
  "marshal_var_int64s_slow dst [] = dst"
| "marshal_var_int64s_slow dst (v # vs) =
     marshal_var_int64s_slow (append_var_uint64 dst (zigzag_encode v)) vs"

text \<open>
  The one-byte loop of \<open>marshal_var_int64s\<close>. On the first value that needs more bytes the source
  truncates the buffer to its first length and encodes all of the values with the slow loop: the
  first two arguments remember both.
\<close>

fun marshal_var_int64s_loop :: "nat \<Rightarrow> i64 list \<Rightarrow> bytes \<Rightarrow> i64 list \<Rightarrow> bytes" where
  "marshal_var_int64s_loop dst_len vs dst [] = dst"
| "marshal_var_int64s_loop dst_len vs dst (v # rest) =
     (if 2 ^ 6 \<le>s v \<or> v \<le>s - (2 ^ 6) then marshal_var_int64s_slow (take dst_len dst) vs
      else marshal_var_int64s_loop dst_len vs (dst @ [ucast (zigzag_encode v)]) rest)"

definition marshal_var_int64s :: "bytes \<Rightarrow> i64 list \<Rightarrow> bytes" where
  "marshal_var_int64s dst vs = marshal_var_int64s_loop (length dst) vs dst vs"

definition marshal_var_uint64 :: "bytes \<Rightarrow> u64 \<Rightarrow> bytes" where
  "marshal_var_uint64 dst u = append_var_uint64 dst u"

fun marshal_var_uint64s_slow :: "bytes \<Rightarrow> u64 list \<Rightarrow> bytes" where
  "marshal_var_uint64s_slow dst [] = dst"
| "marshal_var_uint64s_slow dst (u # us) = marshal_var_uint64s_slow (append_var_uint64 dst u) us"

fun marshal_var_uint64s_loop :: "nat \<Rightarrow> u64 list \<Rightarrow> bytes \<Rightarrow> u64 list \<Rightarrow> bytes" where
  "marshal_var_uint64s_loop dst_len us dst [] = dst"
| "marshal_var_uint64s_loop dst_len us dst (u # rest) =
     (if u \<ge> 2 ^ 7 then marshal_var_uint64s_slow (take dst_len dst) us
      else marshal_var_uint64s_loop dst_len us (dst @ [ucast u]) rest)"

definition marshal_var_uint64s :: "bytes \<Rightarrow> u64 list \<Rightarrow> bytes" where
  "marshal_var_uint64s dst us = marshal_var_uint64s_loop (length dst) us dst us"

section \<open>What a varint is\<close>

function leb128 :: "u64 \<Rightarrow> bytes" where
  "leb128 u = (if u < 0x80 then [ucast u] else ucast (u OR 0x80) # leb128 (drop_bit 7 u))"
  by pat_completeness auto
termination
proof (relation "measure unat")
  fix u :: u64
  assume "\<not> u < 0x80"
  then have "unat u div 128 < unat u"
    by (simp add: word_less_nat_alt)
  then show "(drop_bit 7 u, u) \<in> measure unat"
    by (simp add: drop_bit_eq_div unat_div)
qed simp

declare leb128.simps [simp del]

fun varval :: "bytes \<Rightarrow> u64" where
  "varval [] = 0"
| "varval (b # bs) = ucast (b AND 0x7f) OR push_bit 7 (varval bs)"

definition conts :: "bytes \<Rightarrow> bool" where
  "conts p \<longleftrightarrow> list_all (\<lambda>b. 0x80 \<le> b) p"

section \<open>Bits of varint bytes\<close>

lemma mask7: "(0x7f :: 'a::len word) = mask 7"
  by (simp add: mask_eq_exp_minus_1)

lemma byte_less_80_iff: "(b :: u8) < 0x80 \<longleftrightarrow> \<not> bit b 7"
proof -
  have "bit b 7 \<longleftrightarrow> bit (unat b) 7"
    by (simp add: bit_unsigned_iff)
  also have "\<dots> \<longleftrightarrow> odd (unat b div 128)"
    by (simp add: bit_iff_odd)
  also have "\<dots> \<longleftrightarrow> \<not> unat b < 128"
  proof (cases "unat b < 128")
    case False
    moreover have "unat b < 256" using unsigned_less [of b, where ?'a = nat] by simp
    ultimately have "unat b div 128 = 1" by (intro div_nat_eqI) auto
    with False show ?thesis by simp
  qed simp
  finally show ?thesis by (simp add: word_less_nat_alt)
qed

lemma u64_less_80_iff: "(u :: u64) < 0x80 \<longleftrightarrow> drop_bit 7 u = 0"
  by (simp add: word_less_nat_alt word_unat_eq_iff drop_bit_eq_div unat_div div_eq_0_iff)

lemma low7_small: "(b :: u8) < 0x80 \<Longrightarrow> b AND 0x7f = b"
  unfolding byte_less_80_iff mask7
proof (rule bit_word_eqI)
  fix n assume "\<not> bit b 7" "n < LENGTH(8)"
  then show "bit (b AND mask 7) n = bit b n"
    by (cases "n = 7") (auto simp: bit_simps)
qed

lemma low7_cast: "ucast ((b :: u8) AND 0x7f) = (take_bit 7 (ucast b) :: u64)"
  unfolding mask7 by (rule bit_word_eqI) (auto simp: bit_simps)

lemma ucast_small_byte: "(u :: u64) < 0x80 \<Longrightarrow> (ucast u :: u8) < 0x80"
  unfolding byte_less_80_iff u64_less_80_iff
  using bit_drop_bit_eq [of 7 u] by (auto simp: bit_simps fun_eq_iff dest: spec [of _ 0])

lemma cont_byte_ge: "0x80 \<le> (ucast (u OR 0x80 :: u64) :: u8)"
  unfolding not_less [symmetric] byte_less_80_iff by (simp add: bit_simps)

lemma take_drop_7: "take_bit 7 u OR push_bit 7 (drop_bit 7 u) = (u :: u64)"
  by (rule bit_word_eqI, rename_tac n, case_tac "n < 7") (auto simp: bit_simps)

lemma low7_or_high: "ucast ((ucast (u OR push_bit 7 v :: u64) :: u8) AND 0x7f) = take_bit 7 u"
  unfolding mask7 by (rule bit_word_eqI) (auto simp: bit_simps)

lemma cont_byte_low7: "ucast ((ucast (u OR 0x80 :: u64) :: u8) AND 0x7f) = take_bit 7 u"
  using low7_or_high [of u 1] by simp

lemma varval_leb128: "varval (leb128 u) = u"
proof (induction u rule: leb128.induct)
  case (1 u)
  show ?case
  proof (cases "u < 0x80")
    case True
    then have "ucast ((ucast u :: u8) AND 0x7f) = take_bit 7 u"
      unfolding mask7 by (intro bit_word_eqI) (auto simp: bit_simps)
    with True show ?thesis
      using take_drop_7 [of u] by (simp add: leb128.simps [of u] u64_less_80_iff)
  next
    case False
    with 1 show ?thesis
      by (simp add: leb128.simps [of u] cont_byte_low7 take_drop_7)
  qed
qed

lemma leb128_split: "\<exists>p b. leb128 u = p @ [b] \<and> conts p \<and> b < 0x80"
proof (induction u rule: leb128.induct)
  case (1 u)
  show ?case
  proof (cases "u < 0x80")
    case True
    then show ?thesis by (auto simp: leb128.simps [of u] conts_def ucast_small_byte)
  next
    case False
    with 1 obtain p b where "leb128 (drop_bit 7 u) = p @ [b]" "conts p" "b < 0x80" by auto
    with False show ?thesis
      by (intro exI [of _ "ucast (u OR 0x80) # p"] exI [of _ b])
         (simp add: leb128.simps [of u] conts_def cont_byte_ge)
  qed
qed

lemma drop_small_iff:
  assumes "k * 7 + 7 < 64"
  shows "drop_bit (k * 7) (u :: u64) < 0x80 \<longleftrightarrow> u < 2 ^ (k * 7 + 7)"
  using assms unat_exp [of "k * 7 + 7", where ?'a = 64] power_add [of "2 :: nat" "k * 7" 7]
  by (simp add: word_less_nat_alt unat_drop_bit div_less_iff_less_mult mult.commute)

lemma leb128_last: "drop_bit (k * 7) u < 0x80 \<Longrightarrow> leb128 (drop_bit (k * 7) u) = [last7 k u]"
  by (simp add: leb128.simps last7_def)

lemma leb128_cont: "\<not> drop_bit (k * 7) u < 0x80 \<Longrightarrow>
   leb128 (drop_bit (k * 7) u) = cont7 k u # leb128 (drop_bit (Suc k * 7) u)"
  by (simp add: leb128.simps [of "drop_bit (k * 7) u"] cont7_def)

lemma leb128_from:
  assumes "drop_bit (k * 7) u < 0x80" "\<And>j. j < k \<Longrightarrow> \<not> drop_bit (j * 7) u < 0x80" "j \<le> k"
  shows "leb128 (drop_bit (j * 7) u) = map (\<lambda>i. cont7 i u) [j..<k] @ [last7 k u]"
  using \<open>j \<le> k\<close>
proof (induction "k - j" arbitrary: j)
  case 0
  with assms(1) show ?case by (simp add: leb128_last)
next
  case (Suc n)
  then have j: "j < k" "n = k - Suc j" "Suc j \<le> k" by auto
  with assms(2) Suc.hyps(1) [of "Suc j"] show ?case
    by (simp add: leb128_cont upt_conv_Cons)
qed

lemma leb128_length:
  assumes "k \<le> 8" "u < 2 ^ (k * 7 + 7)" "k = 0 \<or> 2 ^ (k * 7) \<le> u"
  shows "leb128 u = map (\<lambda>i. cont7 i u) [0..<k] @ [last7 k u]"
proof -
  have "\<not> drop_bit (j * 7) u < 0x80" if "j < k" for j
  proof -
    have "(2 :: u64) ^ (j * 7 + 7) \<le> 2 ^ (k * 7)"
      using that assms(1) by (simp add: word_le_nat_alt unat_exp)
    with that assms(3) have "2 ^ (j * 7 + 7) \<le> u" by auto
    with that assms(1) show ?thesis by (simp add: drop_small_iff not_less)
  qed
  with assms(1,2) leb128_from [of k u 0] show ?thesis by (simp add: drop_small_iff)
qed

lemma leb128_length_10:
  assumes "2 ^ 63 \<le> u"
  shows "leb128 u = map (\<lambda>i. cont7 i u) [0..<9] @ [1]"
proof -
  have d: "drop_bit 63 u = 1"
  proof -
    have "unat u div 2 ^ 63 = 1"
      using assms unsigned_less [of u, where ?'a = nat]
      by (intro div_nat_eqI) (auto simp: word_le_nat_alt)
    then show ?thesis by (simp add: word_unat_eq_iff unat_drop_bit)
  qed
  have "\<not> drop_bit (j * 7) u < 0x80" if "j < 9" for j
  proof (cases "j = 8")
    case True
    with assms show ?thesis by (simp add: word_less_nat_alt word_le_nat_alt unat_drop_bit)
  next
    case False
    have "(2 :: nat) ^ (j * 7 + 7) \<le> 2 ^ 63"
      using that by (intro power_increasing) auto
    with that have "(2 :: u64) ^ (j * 7 + 7) \<le> 2 ^ 63"
      using False by (simp add: word_le_nat_alt unat_exp)
    with assms have "2 ^ (j * 7 + 7) \<le> u" by auto
    with that False show ?thesis by (simp add: drop_small_iff not_less)
  qed
  with d leb128_from [of 9 u 0] show ?thesis by (simp add: last7_def)
qed

lemma upt_lists:
  "[0..<1] = [0]" "[0..<2] = [0, 1]" "[0..<3] = [0, 1, 2]" "[0..<4] = [0, 1, 2, 3]"
  "[0..<5] = [0, 1, 2, 3, 4]" "[0..<6] = [0, 1, 2, 3, 4, 5]" "[0..<7] = [0, 1, 2, 3, 4, 5, 6]"
  "[0..<8] = [0, 1, 2, 3, 4, 5, 6, 7]" "[0..<9] = [0, 1, 2, 3, 4, 5, 6, 7, 8 :: nat]"
  by (simp_all add: upt_rec eval_nat_numeral)

lemma append_leb128: "append_var_uint64 dst u = dst @ leb128 u"
  using leb128_length [of 0 u] leb128_length [of 1 u] leb128_length [of 2 u] leb128_length [of 3 u]
    leb128_length [of 4 u] leb128_length [of 5 u] leb128_length [of 6 u] leb128_length [of 7 u]
    leb128_length [of 8 u] leb128_length_10 [of u]
  unfolding append_var_uint64_def upt_lists by (auto simp: not_less not_le)

section \<open>Zig-zag\<close>

lemma signed_drop_bit_63: "signed_drop_bit 63 (v :: i64) = (if bit v 63 then -1 else 0)"
  by (rule bit_word_eqI) (auto simp: bit_simps not_le)

lemma bit_63_sless: "bit (v :: i64) 63 \<longleftrightarrow> v <s 0"
  by (simp add: word_sless_alt bit_last_iff [of v, simplified])

lemma zigzag_encode_alt: "zigzag_encode v = (if v <s 0 then - (2 * v) - 1 else 2 * v)"
  by (simp add: zigzag_encode_def signed_drop_bit_63 bit_63_sless not_eq_complement
      push_bit_eq_mult mult.commute)

lemma bit_zigzag_encode:
  "bit (zigzag_encode v) n \<longleftrightarrow> n < 64 \<and> ((0 < n \<and> bit v (n - 1)) \<noteq> bit v 63)"
  unfolding zigzag_encode_def bit_xor_iff bit_push_bit_iff signed_drop_bit_63
  by (cases n) (auto dest: bit_imp_le_length)

lemma zigzag_decode_encode [simp]: "zigzag_decode (zigzag_encode v) = v"
proof (rule word64_eqI)
  fix n :: nat assume "n < 64"
  then show "bit (zigzag_decode (zigzag_encode v)) n = bit v n"
    unfolding zigzag_decode_def bit_xor_iff bit_drop_bit_eq signed_drop_bit_63 bit_push_bit_iff o_def
      bit_zigzag_encode
    by (cases "n = 63") auto
qed

lemma uint_zigzag: "uint (zigzag_encode v) = (if sint v < 0 then - 2 * sint v - 1 else 2 * sint v)"
proof -
  have b: "- (2 ^ 63) \<le> sint v" "sint v < 2 ^ 63"
    using sint_range_size [of v] by (simp_all add: word_size)
  define k where "k = (if sint v < 0 then - 2 * sint v - 1 else 2 * sint v)"
  have "zigzag_encode v = word_of_int k"
    by (simp add: zigzag_encode_alt word_sless_alt k_def)
  then have "uint (zigzag_encode v) = k mod 2 ^ 64"
    by (simp add: uint_word_of_int)
  also have "\<dots> = k" using b by (simp add: k_def)
  finally show ?thesis by (simp only: k_def)
qed

section \<open>Encoding arrays\<close>

lemma int64_one_byte: "2 ^ 6 \<le>s v \<or> v \<le>s - (2 ^ 6) \<longleftrightarrow> \<not> (v <s 2 ^ 6 \<and> - (2 ^ 6) <s (v :: i64))"
  by (auto simp: word_sless_alt word_sle_eq)

lemma zigzag_one_byte:
  assumes "v <s 2 ^ 6" "- (2 ^ 6) <s (v :: i64)"
  shows "zigzag_encode v < 0x80"
proof -
  have "sint v < 64" "- 64 < sint v" using assms by (simp_all add: word_sless_alt)
  then have "uint (zigzag_encode v) < 128" by (simp add: uint_zigzag)
  then show ?thesis by (simp add: word_less_def)
qed

lemma leb128_one_byte: "u < 0x80 \<Longrightarrow> leb128 u = [ucast u]"
  by (simp add: leb128.simps)

lemma marshal_int64s_slow_eq:
  "marshal_var_int64s_slow dst vs = dst @ concat (map (\<lambda>v. leb128 (zigzag_encode v)) vs)"
  by (induction dst vs rule: marshal_var_int64s_slow.induct) (simp_all add: append_leb128)

lemma marshal_int64s_loop_eq:
  assumes "vs = done @ rest" "dst = base @ concat (map (\<lambda>v. leb128 (zigzag_encode v)) done)"
    "dst_len = length base"
  shows "marshal_var_int64s_loop dst_len vs dst rest
    = base @ concat (map (\<lambda>v. leb128 (zigzag_encode v)) vs)"
  using assms
proof (induction rest arbitrary: "done" dst)
  case (Cons v rest)
  show ?case
  proof (cases "v <s 2 ^ 6 \<and> - (2 ^ 6) <s v")
    case True
    then have "leb128 (zigzag_encode v) = [ucast (zigzag_encode v)]"
      by (simp add: leb128_one_byte zigzag_one_byte del: One_nat_def)
    with True Cons.IH [of "done @ [v]" "dst @ [ucast (zigzag_encode v)]"] Cons.prems
    show ?thesis by (simp only: marshal_var_int64s_loop.simps int64_one_byte) simp
  next
    case False
    with Cons.prems show ?thesis
      by (simp only: marshal_var_int64s_loop.simps int64_one_byte) (simp add: marshal_int64s_slow_eq)
  qed
qed simp

lemma marshal_int64s_eq:
  "marshal_var_int64s dst vs = dst @ concat (map (\<lambda>v. leb128 (zigzag_encode v)) vs)"
  unfolding marshal_var_int64s_def by (rule marshal_int64s_loop_eq [of _ "[]"]) simp_all

lemma marshal_uint64s_slow_eq:
  "marshal_var_uint64s_slow dst us = dst @ concat (map leb128 us)"
  by (induction dst us rule: marshal_var_uint64s_slow.induct) (simp_all add: append_leb128)

lemma marshal_uint64s_loop_eq:
  assumes "us = done @ rest" "dst = base @ concat (map leb128 done)" "dst_len = length base"
  shows "marshal_var_uint64s_loop dst_len us dst rest = base @ concat (map leb128 us)"
  using assms
proof (induction rest arbitrary: "done" dst)
  case (Cons u rest)
  with Cons.IH [of "done @ [u]" "dst @ [ucast u]"] show ?case
    by (cases "u < 0x80") (simp_all add: marshal_uint64s_slow_eq leb128_one_byte not_le)
qed simp

lemma marshal_uint64s_eq: "marshal_var_uint64s dst us = dst @ concat (map leb128 us)"
  unfolding marshal_var_uint64s_def by (rule marshal_uint64s_loop_eq [of _ "[]"]) simp_all

lemma marshal_var_int64_eq:
  "marshal_var_int64 dst v = dst @ (if v = -64 then [0xff, 0] else leb128 (zigzag_encode v))"
proof -
  define u where "u = zigzag_encode v"
  consider (small) "v <s 2 ^ 6" "- (2 ^ 6) <s v" | (m64) "v = - 64"
    | (big) "\<not> (v <s 2 ^ 6 \<and> - (2 ^ 6) <s v)" "v \<noteq> - 64" by blast
  then show ?thesis
  proof cases
    case small
    then have "u < 0x80" "v \<noteq> -64" by (auto simp: u_def zigzag_one_byte)
    with small show ?thesis by (simp add: marshal_var_int64_def u_def leb128_one_byte)
  next
    case m64
    then show ?thesis
      by (simp add: marshal_var_int64_def zigzag_encode_alt cont7_def last7_def word_sless_alt)
  next
    case big
    have "sint v \<noteq> sint (-64 :: i64)" using big(2) signed_word_eqI [of v "- 64"] by blast
    then have nb: "\<not> u < 2 ^ 7"
      using big uint_zigzag [of v] by (auto simp: u_def word_less_def word_sless_alt)
    then have "append_var_uint64 dst u = marshal_var_int64 dst v"
      using big(1) by (simp only: append_var_uint64_def marshal_var_int64_def Let_def
          u_def [symmetric] if_False if_cancel split: if_splits) simp
    with big show ?thesis by (simp add: append_leb128 u_def)
  qed
qed



end
