(* ===== verification/Codec.thy ===== *)
theory Codec
  imports Esm_Prelude
begin

text \<open>
  The contract the on-disk formats share. An encoder of one value and a decoder that returns the
  value and the unread rest of its input form a prefix codec when the decoder inverts the encoder
  in front of any following bytes. What a reader of concatenated records relies on follows from
  that alone: encodings are prefix-free, and a sequence of records decodes to the sequence.

  The codecs of the integer, header and row formats are interpretations of this contract.
\<close>

text \<open>Decoding a given number of records one after another, as the readers of index blocks do.\<close>

fun dec_n :: "(bytes \<Rightarrow> 'f + 'a \<times> bytes) \<Rightarrow> nat \<Rightarrow> bytes \<Rightarrow> 'f + 'a list \<times> bytes" where
  "dec_n dec 0 src = Inr ([], src)"
| "dec_n dec (Suc n) src =
     (case dec src of
        Inl e \<Rightarrow> Inl e
      | Inr (x, rest) \<Rightarrow>
          (case dec_n dec n rest of Inl e \<Rightarrow> Inl e | Inr (xs, rest) \<Rightarrow> Inr (x # xs, rest)))"

text \<open>A decoder that returns the consumed size, read as one that returns the rest.\<close>

definition sized :: "(bytes \<Rightarrow> ('a \<times> nat) option) \<Rightarrow> bytes \<Rightarrow> unit + 'a \<times> bytes" where
  "sized f src = (case f src of None \<Rightarrow> Inl () | Some (x, n) \<Rightarrow> Inr (x, drop n src))"

text \<open>A decoder of exactly \<open>k\<close> bytes, read as one that returns the rest.\<close>

definition fixed :: "nat \<Rightarrow> (bytes \<Rightarrow> 'a option) \<Rightarrow> bytes \<Rightarrow> unit + 'a \<times> bytes" where
  "fixed k f src = (case f src of None \<Rightarrow> Inl () | Some x \<Rightarrow> Inr (x, drop k src))"

locale prefix_codec =
  fixes enc :: "'a \<Rightarrow> bytes"
    and dec :: "bytes \<Rightarrow> 'f + 'a \<times> bytes"
    and wf :: "'a \<Rightarrow> bool"
  assumes dec_enc: "wf x \<Longrightarrow> dec (enc x @ t) = Inr (x, t)"
begin

lemma enc_prefix_free:
  assumes "wf x" "wf y" "enc x @ s = enc y @ t"
  shows "x = y \<and> s = t"
proof -
  have "Inr (x, s) = (Inr (y, t) :: 'f + 'a \<times> bytes)"
    unfolding dec_enc [OF assms(1), symmetric] dec_enc [OF assms(2), symmetric] assms(3) ..
  then show ?thesis by simp
qed

lemma enc_inj: "wf x \<Longrightarrow> wf y \<Longrightarrow> enc x = enc y \<Longrightarrow> x = y"
  using enc_prefix_free [of x y "[]" "[]"] by simp

lemma dec_n_enc:
  "list_all wf xs \<Longrightarrow> dec_n dec (length xs) (concat (map enc xs) @ t) = Inr (xs, t)"
  by (induction xs) (simp_all add: dec_enc)

lemma concat_enc_inj:
  assumes "list_all wf xs" "list_all wf ys" "length xs = length ys"
    "concat (map enc xs) @ s = concat (map enc ys) @ t"
  shows "xs = ys \<and> s = t"
proof -
  have "Inr (xs, s) = (Inr (ys, t) :: 'f + 'a list \<times> bytes)"
    unfolding dec_n_enc [OF assms(1), symmetric] dec_n_enc [OF assms(2), symmetric] assms(3,4) ..
  then show ?thesis by simp
qed

end

end
