(* ===== verification/Varint_Decode.thy ===== *)
theory Varint_Decode
  imports Varint Codec
begin

text \<open>
  The decoders of \<open>crates/esm-encoding/src/int.rs\<close>: the byte-at-a-time reader, the word-at-a-time
  reader that takes its place on long inputs, the array decoders with their one-byte fast path,
  the decoder of single integers, booleans and length-prefixed byte strings.

  All of them are shown to read the reference format of \<open>Varint\<close>; the fast readers equal the
  slow one on every input, and each encoder with its decoder is a prefix codec.
\<close>

section \<open>Variable-length integers: decoders\<close>

text \<open>\<open>uvarint\<close> returns the value and its size; size 0 is a short input, a negative one overflow.\<close>

fun uvarint_loop :: "bytes \<Rightarrow> nat \<Rightarrow> u64 \<Rightarrow> nat \<Rightarrow> u64 \<times> int" where
  "uvarint_loop [] i x s = (0, 0)"
| "uvarint_loop (b # bs) i x s =
    (if i = 10 then (0, - (int i + 1))
     else if b < 0x80 then
       (if i = 9 \<and> b > 1 then (0, - (int i + 1))
        else (x OR push_bit s (ucast b), int i + 1))
     else uvarint_loop bs (i + 1) (x OR push_bit s (ucast (b AND 0x7f))) (s + 7))"

definition uvarint :: "bytes \<Rightarrow> u64 \<times> int" where
  "uvarint src = uvarint_loop src 0 0 0"

definition unmarshal_var_int64 :: "bytes \<Rightarrow> (i64 \<times> nat) option" where
  "unmarshal_var_int64 src =
    (case uvarint src of (u, n_size) \<Rightarrow>
       if n_size \<le> 0 then None else Some (zigzag_decode u, nat n_size))"

definition unmarshal_var_uint64 :: "bytes \<Rightarrow> (u64 \<times> nat) option" where
  "unmarshal_var_uint64 src =
    (if src = [] then None
     else if src ! 0 < 0x80 then Some (ucast (src ! 0), 1)
     else if length src = 1 then None
     else if src ! 1 < 0x80 then
       Some (ucast (src ! 0 AND 0x7f) OR push_bit 7 (ucast (src ! 1)), 2)
     else (case uvarint src of (u, n_size) \<Rightarrow>
       if n_size \<le> 0 then None else Some (u, nat n_size)))"

datatype varint_err =
    TooSmallSrc nat nat
  | EmptyVarint
  | UnexpectedEndAt nat
  | UnexpectedEnd
  | TooBigVarint
  | TooLongVarint nat

text \<open>The inner loop of the byte-at-a-time reader: the index after the first closing byte.\<close>

function varint_scan :: "bytes \<Rightarrow> nat \<Rightarrow> nat option" where
  "varint_scan src idx =
    (if idx \<ge> length src then None
     else if src ! idx < 0x80 then Some (idx + 1)
     else varint_scan src (idx + 1))"
  by pat_completeness auto
termination
  by (relation "measure (\<lambda>(src, idx). length src - idx)") auto

declare varint_scan.simps [simp del]

text \<open>The \<open>match b.len()\<close> over the bytes that follow the first three.\<close>

definition varint_tail :: "bytes \<Rightarrow> (varint_err, u64) res" where
  "varint_tail b =
    (let m = (\<lambda>k. ucast (b ! k AND 0x7f)); t = (\<lambda>k. ucast (b ! k)) in
     if length b = 1 then Inr (push_bit (3 * 7) (t 0))
     else if length b = 2 then Inr (push_bit (3 * 7) (m 0) OR push_bit (4 * 7) (t 1))
     else if length b = 3 then
       Inr (push_bit (3 * 7) (m 0) OR push_bit (4 * 7) (m 1) OR push_bit (5 * 7) (t 2))
     else if length b = 4 then
       Inr (push_bit (3 * 7) (m 0) OR push_bit (4 * 7) (m 1) OR push_bit (5 * 7) (m 2)
            OR push_bit (6 * 7) (t 3))
     else if length b = 5 then
       Inr (push_bit (3 * 7) (m 0) OR push_bit (4 * 7) (m 1) OR push_bit (5 * 7) (m 2)
            OR push_bit (6 * 7) (m 3) OR push_bit (7 * 7) (t 4))
     else if length b = 6 then
       Inr (push_bit (3 * 7) (m 0) OR push_bit (4 * 7) (m 1) OR push_bit (5 * 7) (m 2)
            OR push_bit (6 * 7) (m 3) OR push_bit (7 * 7) (m 4) OR push_bit (8 * 7) (t 5))
     else if length b = 7 then
       (if b ! 6 > 1 then Inl (Err TooBigVarint) else
        Inr (push_bit (3 * 7) (m 0) OR push_bit (4 * 7) (m 1) OR push_bit (5 * 7) (m 2)
             OR push_bit (6 * 7) (m 3) OR push_bit (7 * 7) (m 4) OR push_bit (8 * 7) (m 5)
             OR push_bit (9 * 7) 1))
     else Inl (Err (TooLongVarint (length b + 3))))"

definition read_var_uint64_slow :: "bytes \<Rightarrow> nat \<Rightarrow> (varint_err, u64 \<times> nat) res" where
  "read_var_uint64_slow src idx =
    (if idx \<ge> length src then Inl (Err EmptyVarint) else
     let c = src ! idx; idx = idx + 1 in
     if c < 0x80 then Inr (ucast c, idx) else
     if idx \<ge> length src then Inl (Err (UnexpectedEndAt 1)) else
     let d = src ! idx; idx = idx + 1 in
     if d < 0x80 then Inr (ucast (c AND 0x7f) OR push_bit 7 (ucast d), idx) else
     if idx \<ge> length src then Inl (Err (UnexpectedEndAt 2)) else
     let e = src ! idx; idx = idx + 1 in
     if e < 0x80 then
       Inr (ucast (c AND 0x7f) OR push_bit 7 (ucast (d AND 0x7f)) OR push_bit (2 * 7) (ucast e), idx)
     else
     let u = ucast (c AND 0x7f) OR push_bit 7 (ucast (d AND 0x7f))
               OR push_bit (2 * 7) (ucast (e AND 0x7f));
         j = idx in
     case varint_scan src idx of
       None \<Rightarrow> Inl (Err UnexpectedEnd)
     | Some idx \<Rightarrow> rbind (varint_tail (subslice src j idx)) (\<lambda>t. Inr (u OR t, idx)))"

text \<open>The word-at-a-time reader: the loop gathers seven bits of each of the first \<open>nbytes\<close> bytes.\<close>

function swar_loop :: "u64 \<Rightarrow> nat \<Rightarrow> nat \<Rightarrow> u64 \<Rightarrow> u64" where
  "swar_loop w nbytes k u =
    (if k < nbytes
     then swar_loop w nbytes (k + 1) (u OR push_bit (7 * k) (drop_bit (8 * k) w AND 0x7f))
     else u)"
  by pat_completeness auto
termination
  by (relation "measure (\<lambda>(w, nbytes, k, u). nbytes - k)") auto

declare swar_loop.simps [simp del]

definition read_var_uint64_fast :: "bytes \<Rightarrow> nat \<Rightarrow> (varint_err, u64 \<times> nat) res" where
  "read_var_uint64_fast src start =
    (if start + 8 \<le> length src then
       (let w = from_le_bytes (subslice src start (start + 8)) :: u64;
            stop = NOT w AND 0x8080808080808080 in
        if stop \<noteq> 0 then
          (let nbytes = drop_bit 3 (trailing_zeros stop) + 1
           in Inr (swar_loop w nbytes 1 (w AND 0x7f), start + nbytes))
        else read_var_uint64_slow src start)
     else read_var_uint64_slow src start)"

text \<open>
  The array decoders. The output slice of length \<open>n\<close> is returned as the list of decoded values
  together with the unread tail. The first loop reads one-byte varints, the second continues from
  the first longer one.
\<close>

function int64s_fast_loop :: "nat \<Rightarrow> bytes \<Rightarrow> nat \<Rightarrow> i64 list \<Rightarrow> nat \<times> i64 list" where
  "int64s_fast_loop n src i dst =
    (if i < n \<and> \<not> src ! i \<ge> 0x80
     then int64s_fast_loop n src (i + 1)
            (dst @ [scast (drop_bit 1 (src ! i) XOR signed_drop_bit 7 (push_bit 7 (src ! i)))])
     else (i, dst))"
  by pat_completeness auto
termination
  by (relation "measure (\<lambda>(n, src, i, dst). n - i)") auto

declare int64s_fast_loop.simps [simp del]

fun int64s_mixed_loop :: "nat \<Rightarrow> bytes \<Rightarrow> nat \<Rightarrow> i64 list \<Rightarrow> (varint_err, i64 list \<times> nat) res" where
  "int64s_mixed_loop 0 src idx dst = Inr (dst, idx)"
| "int64s_mixed_loop (Suc k) src idx dst =
     rbind (read_var_uint64_fast src idx)
       (\<lambda>(u, idx). int64s_mixed_loop k src idx (dst @ [zigzag_decode u]))"

definition unmarshal_var_int64s :: "nat \<Rightarrow> bytes \<Rightarrow> (varint_err, i64 list \<times> bytes) res" where
  "unmarshal_var_int64s n src =
    (if length src < n then Inl (Err (TooSmallSrc (length src) n)) else
     case int64s_fast_loop n src 0 [] of (i, dst) \<Rightarrow>
       if i = n then Inr (dst, drop n src)
       else rbind (int64s_mixed_loop (n - i) src i dst) (\<lambda>(dst, idx). Inr (dst, drop idx src)))"

function uint64s_fast_loop :: "nat \<Rightarrow> bytes \<Rightarrow> nat \<Rightarrow> u64 list \<Rightarrow> nat \<times> u64 list" where
  "uint64s_fast_loop n src i dst =
    (if i < n \<and> \<not> src ! i \<ge> 0x80
     then uint64s_fast_loop n src (i + 1) (dst @ [ucast (src ! i)])
     else (i, dst))"
  by pat_completeness auto
termination
  by (relation "measure (\<lambda>(n, src, i, dst). n - i)") auto

declare uint64s_fast_loop.simps [simp del]

fun uint64s_mixed_loop :: "nat \<Rightarrow> bytes \<Rightarrow> nat \<Rightarrow> u64 list \<Rightarrow> (varint_err, u64 list \<times> nat) res" where
  "uint64s_mixed_loop 0 src idx dst = Inr (dst, idx)"
| "uint64s_mixed_loop (Suc k) src idx dst =
     rbind (read_var_uint64_fast src idx)
       (\<lambda>(u, idx). uint64s_mixed_loop k src idx (dst @ [u]))"

definition unmarshal_var_uint64s :: "nat \<Rightarrow> bytes \<Rightarrow> (varint_err, u64 list \<times> bytes) res" where
  "unmarshal_var_uint64s n src =
    (if length src < n then Inl (Err (TooSmallSrc (length src) n)) else
     case uint64s_fast_loop n src 0 [] of (i, dst) \<Rightarrow>
       if i = n then Inr (dst, drop n src)
       else rbind (uint64s_mixed_loop (n - i) src i dst) (\<lambda>(dst, idx). Inr (dst, drop idx src)))"

section \<open>Booleans and byte strings\<close>

definition marshal_bool :: "bytes \<Rightarrow> bool \<Rightarrow> bytes" where
  "marshal_bool dst v = dst @ [if v then 1 else 0]"

definition unmarshal_bool :: "bytes \<Rightarrow> bool option" where
  "unmarshal_bool src = (if src = [] then None else Some (src ! 0 \<noteq> 0))"

definition marshal_bytes :: "bytes \<Rightarrow> bytes \<Rightarrow> bytes" where
  "marshal_bytes dst b = marshal_var_uint64 dst (of_nat (length b)) @ b"

definition unmarshal_bytes :: "bytes \<Rightarrow> (bytes \<times> nat) option" where
  "unmarshal_bytes src =
    (case unmarshal_var_uint64 src of
       None \<Rightarrow> None
     | Some (n, n_size) \<Rightarrow>
       if unat n > length src - n_size then None
       else Some (subslice src n_size (n_size + unat n), n_size + unat n))"

text \<open>The closing byte \<open>b\<close> after the continuation bytes \<open>p\<close> of a varint that fits 64 bits.\<close>

definition varint_fits :: "bytes \<Rightarrow> u8 \<Rightarrow> bool" where
  "varint_fits p b \<longleftrightarrow> conts p \<and> b < 0x80 \<and> (length p < 9 \<or> length p = 9 \<and> b = 1)"

section \<open>The byte-at-a-time reader\<close>

lemma conts_simps [simp]:
  "conts []" "conts (b # p) \<longleftrightarrow> 0x80 \<le> b \<and> conts p" "conts (p @ q) \<longleftrightarrow> conts p \<and> conts q"
  by (simp_all add: conts_def)

lemma drop_nth_facts:
  assumes "drop i src = x # xs"
  shows "i < length src" "src ! i = x" "drop (Suc i) src = xs"
proof -
  show i: "i < length src" using assms by (metis drop_all linorder_not_le list.distinct(1))
  show "src ! i = x" "drop (Suc i) src = xs"
    using Cons_nth_drop_Suc [OF i] assms by simp_all
qed

lemma varint_scan_some:
  assumes "drop i src = q @ b # r" "conts q" "b < 0x80"
  shows "varint_scan src i = Some (i + length q + 1)"
  using assms
proof (induction q arbitrary: i)
  case Nil
  with drop_nth_facts [of i src b r] show ?case by (simp add: varint_scan.simps)
next
  case (Cons c q)
  with drop_nth_facts [of i src c "q @ b # r"] show ?case
    by (simp add: varint_scan.simps [of src i] not_less)
qed

lemma varint_scan_none:
  assumes "conts (drop i src)"
  shows "varint_scan src i = None"
  using assms
proof (induction "drop i src" arbitrary: i)
  case Nil
  then show ?case by (simp add: varint_scan.simps)
next
  case (Cons c q)
  from Cons.prems Cons.hyps(2) [symmetric] have "0x80 \<le> c" "conts q" by simp_all
  with Cons.hyps(1) [of "Suc i"] drop_nth_facts [OF Cons.hyps(2) [symmetric]] show ?case
    by (simp add: varint_scan.simps [of src i] not_less)
qed

lemma slice_drop: "drop i src = q @ r \<Longrightarrow> subslice src i (i + length q) = q"
  by (simp add: subslice_def)

lemma push_bit_or: "push_bit n (a OR b) = push_bit n a OR push_bit n (b :: u64)"
  by (rule bit_word_eqI) (auto simp: bit_simps)

lemmas varval_eval = push_bit_or push_bit_push_bit or.assoc low7_small

lemma read_slow_short:
  assumes "drop i src = p @ b # r" "conts p" "b < 0x80" "length p < 3"
  shows "read_var_uint64_slow src i = Inr (varval (p @ [b]), i + length p + 1)"
proof -
  consider "p = []" | c where "p = [c]" | c d where "p = [c, d]"
    using assms(4) by (cases p; cases "tl p"; cases "tl (tl p)") auto
  then show ?thesis
  proof cases
    case 1
    with assms drop_nth_facts [of i src b r] show ?thesis
      by (simp add: read_var_uint64_slow_def low7_small)
  next
    case 2
    with assms drop_nth_facts [of i src c "b # r"] drop_nth_facts [of "Suc i" src b r]
    show ?thesis by (simp add: read_var_uint64_slow_def Let_def varval_eval not_less)
  next
    case 3
    with assms drop_nth_facts [of i src c "d # b # r"] drop_nth_facts [of "Suc i" src d "b # r"]
      drop_nth_facts [of "Suc (Suc i)" src b r]
    show ?thesis by (simp add: read_var_uint64_slow_def Let_def varval_eval not_less)
  qed
qed

lemma length_cases_7:
  "q = [] \<or> (\<exists>a. q = [a]) \<or> (\<exists>a b. q = [a, b]) \<or> (\<exists>a b c. q = [a, b, c]) \<or>
   (\<exists>a b c d. q = [a, b, c, d]) \<or> (\<exists>a b c d e. q = [a, b, c, d, e]) \<or>
   (\<exists>a b c d e f. q = [a, b, c, d, e, f]) \<or> length q > 6"
proof (cases "length q > 6")
  case False
  then have "length q = 0 \<or> length q = 1 \<or> length q = 2 \<or> length q = 3 \<or> length q = 4 \<or>
     length q = 5 \<or> length q = 6" by linarith
  then show ?thesis by (simp add: length_Suc_conv eval_nat_numeral) blast
qed simp

lemma varint_tail_eq:
  assumes "b < 0x80"
  shows "varint_tail (q @ [b]) =
    (if length q < 6 then Inr (push_bit 21 (varval (q @ [b])))
     else if length q = 6 then
       (if b > 1 then Inl (Err TooBigVarint) else Inr (push_bit 21 (varval (q @ [1]))))
     else Inl (Err (TooLongVarint (length q + 4))))"
proof -
  consider (0) "q = []" | (1) a where "q = [a]" | (2) a1 a2 where "q = [a1, a2]"
    | (3) a1 a2 a3 where "q = [a1, a2, a3]" | (4) a1 a2 a3 a4 where "q = [a1, a2, a3, a4]"
    | (5) a1 a2 a3 a4 a5 where "q = [a1, a2, a3, a4, a5]"
    | (6) a1 a2 a3 a4 a5 a6 where "q = [a1, a2, a3, a4, a5, a6]" | (7) "length q > 6"
    by (metis (no_types) length_cases_7)
  then show ?thesis
      proof cases
    case 7
    then have "q \<noteq> []" by auto
    with 7 show ?thesis by (simp add: varint_tail_def Let_def)
  qed (use assms in \<open>simp_all add: varint_tail_def Let_def varval_eval\<close>)
qed

text \<open>The continuation of the reader after three continuation bytes.\<close>

lemma read_slow_long:
  assumes d: "drop i src = c # d # e # q @ b # r" "conts [c, d, e]" "conts q" "b < 0x80"
  shows "read_var_uint64_slow src i =
    (if length q < 6 then Inr (varval (c # d # e # q @ [b]), i + length q + 4)
     else if length q = 6 then
       (if b > 1 then Inl (Err TooBigVarint)
        else Inr (varval (c # d # e # q @ [1]), i + length q + 4))
     else Inl (Err (TooLongVarint (length q + 4))))"
proof -
  note f0 = drop_nth_facts [OF d(1)]
  note f1 = drop_nth_facts [OF f0(3)]
  note f2 = drop_nth_facts [OF f1(3)]
  define n where "n = i + length q + 4"
  have n: "n = Suc (Suc (Suc i)) + length (q @ [b])" by (simp add: n_def)
  have sc: "varint_scan src (Suc (Suc (Suc i))) = Some n"
    using varint_scan_some [OF f2(3) d(3,4)] by (simp add: n_def)
  have sl: "subslice src (Suc (Suc (Suc i))) n = q @ [b]"
    unfolding n
    using slice_drop [of "Suc (Suc (Suc i))" src "q @ [b]" r] f2(3) by (simp only: append.assoc append.simps)
  have tail: "rbind (varint_tail (q @ [b])) (\<lambda>t. Inr (u OR t, n)) =
    (if length q < 6 then Inr (u OR push_bit 21 (varval (q @ [b])), n)
     else if length q = 6 then
       (if b > 1 then Inl (Err TooBigVarint) else Inr (u OR push_bit 21 (varval (q @ [1])), n))
     else Inl (Err (TooLongVarint (length q + 4))))" for u
    unfolding varint_tail_eq [OF d(4)] by (simp split: if_splits)
  have nc: "\<not> c < 0x80" "\<not> d < 0x80" "\<not> e < 0x80" using d(2) by (simp_all add: not_less)
  have "read_var_uint64_slow src i = rbind (varint_tail (q @ [b]))
     (\<lambda>t. Inr ((ucast (c AND 0x7f) OR push_bit 7 (ucast (d AND 0x7f))
               OR push_bit (2 * 7) (ucast (e AND 0x7f))) OR t, n))"
    using nc f0(1,2) f1(1,2) f2(1,2) sc sl by (simp add: read_var_uint64_slow_def)
  then show ?thesis
    unfolding n_def [symmetric] tail by (simp add: push_bit_or push_bit_push_bit or.assoc)
qed


lemma three_or_more:
  assumes "3 \<le> length p"
  obtains c d e q where "p = c # d # e # q"
  using assms by (metis (no_types, lifting) Suc_le_length_iff numeral_3_eq_3)

lemma read_slow_ok:
  assumes "drop i src = p @ b # r" "varint_fits p b"
  shows "read_var_uint64_slow src i = Inr (varval (p @ [b]), i + length p + 1)"
proof (cases "length p < 3")
  case True
  with assms show ?thesis by (intro read_slow_short) (auto simp: varint_fits_def)
next
  case False
  then obtain c d e q where p: "p = c # d # e # q" by (rule_tac three_or_more [of p]) auto
  with assms have f: "conts [c, d, e]" "conts q" "b < 0x80" "length q < 6 \<or> length q = 6 \<and> b = 1"
    by (auto simp: varint_fits_def)
  with assms(1) p read_slow_long [of i src c d e q b r] show ?thesis by auto
qed

lemma read_slow_unclosed:
  assumes "conts (drop i src)"
  shows "\<exists>e. read_var_uint64_slow src i = Inl (Err e)"
proof (cases "length (drop i src) < 3")
  case True
  then consider "drop i src = []" | c where "drop i src = [c]" | c d where "drop i src = [c, d]"
    by (cases "drop i src"; cases "tl (drop i src)"; cases "tl (tl (drop i src))") auto
  then show ?thesis
  proof cases
    case 1
    then show ?thesis by (simp add: read_var_uint64_slow_def)
  next
    case 2
    with assms drop_nth_facts [OF 2] show ?thesis
      by (simp add: read_var_uint64_slow_def not_less [symmetric])
  next
    case 3
    with assms drop_nth_facts [OF 3] drop_nth_facts [OF drop_nth_facts(3) [OF 3]] show ?thesis
      by (simp add: read_var_uint64_slow_def not_less [symmetric])
  qed
next
  case False
  then obtain c d e q where p: "drop i src = c # d # e # q"
    by (rule_tac three_or_more [of "drop i src"]) auto
  note f0 = drop_nth_facts [OF p]
  note f1 = drop_nth_facts [OF f0(3)]
  note f2 = drop_nth_facts [OF f1(3)]
  have nc: "\<not> c < 0x80" "\<not> d < 0x80" "\<not> e < 0x80" and "conts q"
    using assms p by (simp_all add: not_less)
  then have "varint_scan src (Suc (Suc (Suc i))) = None"
    using varint_scan_none [of "Suc (Suc (Suc i))" src] f2(3) by simp
  with nc f0(1,2) f1(1,2) f2(1,2) show ?thesis by (simp add: read_var_uint64_slow_def)
qed

section \<open>The word-at-a-time reader\<close>

lemma bit_from_le_bytes:
  "length bs \<le> 8 \<Longrightarrow> k < length bs \<Longrightarrow> m < 8 \<Longrightarrow>
   bit (from_le_bytes bs :: u64) (8 * k + m) \<longleftrightarrow> bit (bs ! k) m"
proof (induction bs arbitrary: k)
  case (Cons b bs)
  show ?case
  proof (cases k)
    case 0
    with Cons.prems show ?thesis by (auto simp: bit_simps)
  next
    case (Suc j)
    with Cons have "bit (from_le_bytes bs :: u64) (8 * j + m) \<longleftrightarrow> bit (bs ! j) m" by simp
    moreover have "\<not> bit b (8 * k + m)"
      using Suc bit_imp_le_length [of b "8 * k + m"] by auto
    ultimately show ?thesis using Suc Cons.prems by (simp add: bit_simps)
  qed
qed simp

lemma swar_digit:
  assumes "length bs = 8" "k < 8"
  shows "drop_bit (8 * k) (from_le_bytes bs :: u64) AND 0x7f = ucast (bs ! k AND 0x7f)"
  unfolding mask7
proof (rule word64_eqI)
  fix n :: nat
  show "bit (drop_bit (8 * k) (from_le_bytes bs :: u64) AND mask 7) n
      \<longleftrightarrow> bit (ucast (bs ! k AND mask 7) :: u64) n"
    using assms bit_from_le_bytes [of bs k n]
    by (cases "n < 7") (auto simp: bit_simps add.commute)
qed

lemma varval_snoc: "varval (p @ [b]) = varval p OR push_bit (7 * length p) (ucast (b AND 0x7f))"
  by (induction p) (simp_all add: push_bit_or push_bit_push_bit or.assoc)

lemma swar_loop_varval:
  assumes "length bs = 8" "n \<le> 8" "k \<le> n"
  shows "swar_loop (from_le_bytes bs) n k (varval (take k bs)) = varval (take n bs)"
  using \<open>k \<le> n\<close>
proof (induction "n - k" arbitrary: k)
  case 0
  then show ?case by (simp add: swar_loop.simps)
next
  case (Suc m)
  then have k: "k < n" "m = n - Suc k" "Suc k \<le> n" by auto
  with assms have "varval (take (Suc k) bs)
      = varval (take k bs) OR push_bit (7 * k) (ucast (bs ! k AND 0x7f))"
    by (simp add: take_Suc_conv_app_nth varval_snoc)
  with k assms Suc.hyps(1) [of "Suc k"] show ?case
    by (simp add: swar_loop.simps [of _ n k] swar_digit)
qed

lemma bit_stop:
  "bit (0x8080808080808080 :: u64) n \<longleftrightarrow> n < 64 \<and> n mod 8 = 7"
proof -
  have "\<forall>n \<in> set [0..<64]. bit (0x8080808080808080 :: u64) n \<longleftrightarrow> n mod 8 = 7"
    unfolding upt_conv_Cons_Cons
    by (simp add: upt_rec)
  then show ?thesis by (auto dest: bit_imp_le_length)
qed


lemma stop_bit:
  assumes "length bs = 8" "k < 8"
  shows "bit (NOT (from_le_bytes bs :: u64) AND 0x8080808080808080) (8 * k + 7) \<longleftrightarrow> bs ! k < 0x80"
  using assms bit_from_le_bytes [of bs k 7]
  unfolding bit_and_iff bit_not_iff bit_stop byte_less_80_iff by simp

lemma stop_bit_only:
  assumes "bit (w AND 0x8080808080808080 :: u64) n"
  obtains k where "k < 8" "n = 8 * k + 7"
proof
  have "n < 64" "n mod 8 = 7" using assms unfolding bit_and_iff bit_stop by simp_all
  then show "n div 8 < 8" "n = 8 * (n div 8) + 7" by presburger+
qed

lemma first_closing_byte:
  assumes "length bs = 8" "NOT (from_le_bytes bs :: u64) AND 0x8080808080808080 \<noteq> 0"
  obtains k where "k < 8" "conts (take k bs)" "bs ! k < 0x80"
    "trailing_zeros (NOT (from_le_bytes bs :: u64) AND 0x8080808080808080) = 8 * k + 7"
proof -
  define stop where "stop = NOT (from_le_bytes bs :: u64) AND 0x8080808080808080"
  have tz: "bit stop (trailing_zeros stop)" "\<And>i. i < trailing_zeros stop \<Longrightarrow> \<not> bit stop i"
    using assms(2) trailing_zeros_nonzero [of stop] by (auto simp: stop_def)
  then obtain k where k: "k < 8" "trailing_zeros stop = 8 * k + 7"
    using stop_bit_only [of "NOT (from_le_bytes bs)" "trailing_zeros stop"]
    by (auto simp: stop_def)
  have "bs ! k < 0x80" using stop_bit [OF assms(1) k(1)] tz(1) k(2) by (simp add: stop_def)
  moreover have "\<not> bs ! j < 0x80" if "j < k" for j
    using stop_bit [OF assms(1), of j] tz(2) [of "8 * j + 7"] k that by (simp add: stop_def)
  then have "conts (take k bs)"
    using assms(1) k(1) by (auto simp: conts_def list_all_length not_less)
  ultimately show ?thesis using k that by (auto simp: stop_def)
qed

lemma read_fast_eq_slow: "read_var_uint64_fast src i = read_var_uint64_slow src i"
proof (cases "i + 8 \<le> length src")
  case win: True
  define bs where "bs = subslice src i (i + 8)"
  have len: "length bs = 8" using win by (simp add: bs_def)
  have dr: "drop i src = bs @ drop (i + 8) src"
    using append_take_drop_id [of 8 "drop i src"] by (simp add: bs_def subslice_def add.commute)
  show ?thesis
  proof (cases "NOT (from_le_bytes bs :: u64) AND 0x8080808080808080 = 0")
    case True
    with win show ?thesis by (simp add: read_var_uint64_fast_def bs_def Let_def)
  next
    case False
    then obtain k where k: "k < 8" "conts (take k bs)" "bs ! k < 0x80"
      "trailing_zeros (NOT (from_le_bytes bs :: u64) AND 0x8080808080808080) = 8 * k + 7"
      by (rule first_closing_byte [OF len])
    have "drop_bit 3 (8 * k + 7) = k" by (simp add: drop_bit_eq_div)
    moreover have "from_le_bytes bs AND 0x7f = varval (take 1 bs)"
      using swar_digit [OF len, of 0] len by (cases bs) simp_all
    ultimately have fast: "read_var_uint64_fast src i = Inr (varval (take (Suc k) bs), i + Suc k)"
      using win False k(1,4) swar_loop_varval [OF len, of "Suc k" 1]
      by (simp add: read_var_uint64_fast_def bs_def [symmetric] Let_def)
    have "drop i src = take k bs @ bs ! k # drop (Suc k) bs @ drop (i + 8) src"
      using dr id_take_nth_drop [of k bs] k(1) len by (metis append.assoc append_Cons)
    then have "read_var_uint64_slow src i = Inr (varval (take k bs @ [bs ! k]), i + k + 1)"
      using read_slow_ok [of i src "take k bs" "bs ! k"] k len by (simp add: varint_fits_def)
    with fast k(1) len show ?thesis by (simp add: take_Suc_conv_app_nth)
  qed
qed (simp add: read_var_uint64_fast_def)

section \<open>The Go-style decoder\<close>

lemma uvarint_loop_ok:
  assumes "conts p" "b < 0x80" "i + length p < 9 \<or> i + length p = 9 \<and> b \<le> 1"
  shows "uvarint_loop (p @ b # r) i x (7 * i)
    = (x OR push_bit (7 * i) (varval (p @ [b])), int (i + length p + 1))"
  using assms
proof (induction p arbitrary: i x)
  case Nil
  then show ?case by (auto simp: low7_small)
next
  case (Cons c p)
  then have "i < 9" "\<not> c < 0x80" by (auto simp: not_less)
  with Cons.IH [of "Suc i" "x OR push_bit (7 * i) (ucast (c AND 0x7f))"] Cons.prems
  show ?case by (auto simp: push_bit_or push_bit_push_bit or.assoc add.commute)
qed

lemma uvarint_ok:
  assumes "varint_fits p b"
  shows "uvarint (p @ b # r) = (varval (p @ [b]), int (length p + 1))"
  using assms uvarint_loop_ok [of p b 0 r 0] by (auto simp: uvarint_def varint_fits_def)

lemma unmarshal_var_uint64_ok:
  assumes "varint_fits p b"
  shows "unmarshal_var_uint64 (p @ b # r) = Some (varval (p @ [b]), length p + 1)"
proof -
  consider "p = []" | c where "p = [c]" | c d q where "p = c # d # q"
    by (metis neq_Nil_conv)
  then show ?thesis
  proof cases
    case 1
    with assms show ?thesis by (simp add: unmarshal_var_uint64_def varint_fits_def low7_small)
  next
    case 2
    with assms show ?thesis
      by (simp add: unmarshal_var_uint64_def varint_fits_def low7_small not_less [symmetric])
  next
    case 3
    with assms uvarint_ok [OF assms, of r] show ?thesis
      by (simp add: unmarshal_var_uint64_def varint_fits_def not_less [symmetric])
  qed
qed

lemma unmarshal_var_int64_ok:
  assumes "varint_fits p b"
  shows "unmarshal_var_int64 (p @ b # r) = Some (zigzag_decode (varval (p @ [b])), length p + 1)"
  using uvarint_ok [OF assms, of r] by (simp add: unmarshal_var_int64_def)

lemma leb128_fits: "\<exists>p b. leb128 u = p @ [b] \<and> varint_fits p b"
proof -
  obtain p b where pb: "leb128 u = p @ [b]" "conts p" "b < 0x80" using leb128_split by blast
  show ?thesis
  proof (cases "2 ^ 63 \<le> u")
    case True
    then have "p = map (\<lambda>i. cont7 i u) [0..<9]" "b = 1"
      using leb128_length_10 [of u] pb(1) by (simp_all del: upt_Suc)
    with pb show ?thesis by (auto simp: varint_fits_def)
  next
    case False
    then have small: "u < 2 ^ (8 * 7 + 7)" by (simp add: not_le)
    define k where "k = (LEAST k. u < 2 ^ (k * 7 + 7))"
    have k: "k \<le> 8" "u < 2 ^ (k * 7 + 7)"
      unfolding k_def using small by (rule Least_le, rule LeastI)
    have "k = 0 \<or> 2 ^ (k * 7) \<le> u"
    proof (cases k)
      case (Suc j)
      then have "\<not> u < 2 ^ (j * 7 + 7)" unfolding k_def by (metis lessI not_less_Least)
      with Suc show ?thesis by (simp add: add.commute not_less)
    qed simp
    with k have "leb128 u = map (\<lambda>i. cont7 i u) [0..<k] @ [last7 k u]" by (intro leb128_length)
    with pb k(1) show ?thesis by (auto simp: varint_fits_def)
  qed
qed

lemma i8_zigzag:
  assumes "(c :: u8) < 0x80"
  shows "scast (drop_bit 1 c XOR signed_drop_bit 7 (push_bit 7 c)) = zigzag_decode (ucast c)"
proof (rule word64_eqI)
  fix n :: nat
  assume "n < 64"
  have "\<not> bit c 7" using assms by (simp add: byte_less_80_iff)
  moreover have "\<not> bit c m" if "7 \<le> m" for m
    using calculation that bit_imp_le_length [of c m] by (cases "m = 7") auto
  ultimately show "bit (scast (drop_bit 1 c XOR signed_drop_bit 7 (push_bit 7 c)) :: i64) n
     = bit (zigzag_decode (ucast c)) n"
    using \<open>n < 64\<close>
    unfolding zigzag_decode_def signed_drop_bit_63
    by (cases "n < 7") (auto simp: bit_simps min_def)
qed

lemma read_slow_one_byte:
  "i < length src \<Longrightarrow> src ! i < 0x80 \<Longrightarrow> read_var_uint64_slow src i = Inr (ucast (src ! i), i + 1)"
  by (simp add: read_var_uint64_slow_def)

lemma int64s_fast_then_mixed:
  assumes "i \<le> n" "n \<le> length src"
  shows "int64s_mixed_loop (n - i) src i dst =
    (case int64s_fast_loop n src i dst of (j, dst) \<Rightarrow> int64s_mixed_loop (n - j) src j dst)"
  using assms
proof (induction n src i dst rule: int64s_fast_loop.induct)
  case (1 n src i dst)
  show ?case
  proof (cases "i < n \<and> \<not> src ! i \<ge> 0x80")
    case True
    then have "n - i = Suc (n - Suc i)" by (simp add: Suc_diff_Suc)
    with True 1 show ?thesis
      by (simp add: int64s_fast_loop.simps [of n src i] read_fast_eq_slow read_slow_one_byte
          i8_zigzag [simplified] not_le)
  qed (auto simp: int64s_fast_loop.simps [of n src i])
qed

lemma unmarshal_int64s_eq:
  assumes "n \<le> length src"
  shows "unmarshal_var_int64s n src =
    rbind (int64s_mixed_loop n src 0 []) (\<lambda>(dst, idx). Inr (dst, drop idx src))"
  using int64s_fast_then_mixed [of 0 n src "[]"] assms
  by (auto simp: unmarshal_var_int64s_def split: prod.splits)

lemma uint64s_fast_then_mixed:
  assumes "i \<le> n" "n \<le> length src"
  shows "uint64s_mixed_loop (n - i) src i dst =
    (case uint64s_fast_loop n src i dst of (j, dst) \<Rightarrow> uint64s_mixed_loop (n - j) src j dst)"
  using assms
proof (induction n src i dst rule: uint64s_fast_loop.induct)
  case (1 n src i dst)
  show ?case
  proof (cases "i < n \<and> \<not> src ! i \<ge> 0x80")
    case True
    then have "n - i = Suc (n - Suc i)" by (simp add: Suc_diff_Suc)
    with True 1 show ?thesis
      by (simp add: uint64s_fast_loop.simps [of n src i] read_fast_eq_slow read_slow_one_byte not_le)
  qed (auto simp: uint64s_fast_loop.simps [of n src i])
qed

lemma unmarshal_uint64s_eq:
  assumes "n \<le> length src"
  shows "unmarshal_var_uint64s n src =
    rbind (uint64s_mixed_loop n src 0 []) (\<lambda>(dst, idx). Inr (dst, drop idx src))"
  using uint64s_fast_then_mixed [of 0 n src "[]"] assms
  by (auto simp: unmarshal_var_uint64s_def split: prod.splits)

text \<open>Reading a canonical varint, and a run of them.\<close>

lemma read_leb128:
  assumes "drop i src = leb128 u @ t"
  shows "read_var_uint64_slow src i = Inr (u, i + length (leb128 u))"
proof -
  obtain p b where "leb128 u = p @ [b]" "varint_fits p b" using leb128_fits by blast
  with assms read_slow_ok [of i src p b t] varval_leb128 [of u] show ?thesis by simp
qed

lemma drop_append_length: "drop i src = p @ q \<Longrightarrow> drop (i + length p) src = q"
  by (metis add.commute append_eq_conv_conj drop_drop)

lemma int64s_mixed_run:
  assumes "drop i src = concat (map (\<lambda>v. leb128 (zigzag_encode v)) vs) @ t"
  shows "int64s_mixed_loop (length vs) src i dst
    = Inr (dst @ vs, i + length (concat (map (\<lambda>v. leb128 (zigzag_encode v)) vs)))"
  using assms
proof (induction vs arbitrary: i dst)
  case (Cons v vs)
  with Cons.IH [of "i + length (leb128 (zigzag_encode v))" "dst @ [v]"] show ?case
    by (simp add: read_fast_eq_slow read_leb128 drop_append_length)
qed simp

lemma uint64s_mixed_run:
  assumes "drop i src = concat (map leb128 us) @ t"
  shows "uint64s_mixed_loop (length us) src i dst = Inr (dst @ us, i + length (concat (map leb128 us)))"
  using assms
proof (induction us arbitrary: i dst)
  case (Cons u us)
  with Cons.IH [of "i + length (leb128 u)" "dst @ [u]"] show ?case
    by (simp add: read_fast_eq_slow read_leb128 drop_append_length)
qed simp

lemma leb128_not_Nil [simp]: "leb128 u \<noteq> []"
  using leb128_split [of u] by auto

lemma length_concat_leb128: "length us \<le> length (concat (map leb128 us))"
proof (induction us)
  case (Cons u us)
  have "0 < length (leb128 u)" by simp
  with Cons show ?case unfolding list.map concat.simps length_append list.size by linarith
qed simp

lemma int64s_roundtrip:
  "unmarshal_var_int64s (length vs) (marshal_var_int64s [] vs @ t) = Inr (vs, t)"
proof -
  have "length vs \<le> length (concat (map (\<lambda>v. leb128 (zigzag_encode v)) vs) @ t)"
    using length_concat_leb128 [of "map zigzag_encode vs"] by (simp add: comp_def)
  then show ?thesis
    using int64s_mixed_run [of 0 _ vs t "[]"] by (simp add: marshal_int64s_eq unmarshal_int64s_eq)
qed

lemma uint64s_roundtrip:
  "unmarshal_var_uint64s (length us) (marshal_var_uint64s [] us @ t) = Inr (us, t)"
  using uint64s_mixed_run [of 0 _ us t "[]"] length_concat_leb128 [of us]
  by (simp add: marshal_uint64s_eq unmarshal_uint64s_eq)

section \<open>Agreement of the decoders\<close>

lemma uvarint_loop_bad:
  assumes "conts p" "i \<le> 10"
    "r = [] \<or> 10 \<le> i + length p \<or> (i + length p = 9 \<and> (\<exists>b t. r = b # t \<and> 1 < b \<and> b < 0x80))"
  shows "snd (uvarint_loop (p @ r) i x s) \<le> 0"
  using assms
proof (induction p arbitrary: i x s)
  case Nil
  then show ?case by (cases r) auto
next
  case (Cons c p)
  show ?case
  proof (cases "i = 10")
    case False
    with Cons.prems have "i + 1 \<le> 10" "\<not> c < 0x80" by (auto simp: not_less)
    with False Cons.IH [of "i + 1"] Cons.prems show ?thesis by simp
  qed simp
qed

lemma conts_split:
  obtains "conts xs" | p b r where "xs = p @ b # r" "conts p" "b < 0x80"
proof (cases "conts xs")
  case False
  then have "\<exists>b \<in> set xs. b < 0x80" by (auto simp: conts_def list_all_iff not_le)
  then obtain p b r where x: "xs = p @ b # r" "b < 0x80" "\<forall>c \<in> set p. \<not> c < 0x80"
    using split_list_first_prop [of xs "\<lambda>b. b < 0x80"] by auto
  then have "conts p" by (simp add: conts_def list_all_iff not_less)
  with x show ?thesis by (intro that(2))
qed (rule that(1))

lemma varval_bit_63:
  assumes "length p = 9"
  shows "varval (p @ [1]) = varval (p @ [0]) OR 2 ^ 63"
  unfolding varval_snoc assms by simp

lemma read_slow_iff_uvarint:
  "case uvarint (drop i src) of (u, n) \<Rightarrow>
     if n \<le> 0 then \<exists>e. read_var_uint64_slow src i = Inl (Err e)
     else read_var_uint64_slow src i = Inr (if n = 10 then u OR 2 ^ 63 else u, i + nat n)"
proof (rule conts_split [of "drop i src"])
  assume c: "conts (drop i src)"
  with uvarint_loop_bad [of "drop i src" 0 "[]" 0 0] read_slow_unclosed [OF c] show ?thesis
    by (auto simp: uvarint_def split: prod.splits)
next
  fix p b r assume d: "drop i src = p @ b # r" "conts p" "b < 0x80"
  consider (ok) "length p < 9" | (ten) "length p = 9" "b \<le> 1" | (bad) "9 \<le> length p" "\<not> (length p = 9 \<and> b \<le> 1)"
    by linarith
  then show ?thesis
  proof cases
    case ok
    with d have "varint_fits p b" by (simp add: varint_fits_def)
    with d ok show ?thesis using uvarint_ok [of p b r] read_slow_ok [of i src p b r] by (auto simp: nat_add_distrib)
  next
    case ten
    then obtain c d e q where p: "p = c # d # e # q" by (rule_tac three_or_more [of p]) auto
    have b: "b = 0 \<or> b = 1"
    proof -
      have "unat b \<le> 1" using ten(2) by (simp add: word_le_nat_alt)
      then have "unat b = 0 \<or> unat b = 1" by linarith
      then show ?thesis by (simp add: word_unat_eq_iff)
    qed
    have "varval (p @ [b]) OR 2 ^ 63 = varval (p @ [1])"
      using b varval_bit_63 [OF ten(1)] by (auto simp: or.assoc)
    moreover have "uvarint (p @ b # r) = (varval (p @ [b]), 10)"
      using uvarint_loop_ok [of p b 0 r 0] d ten by (simp add: uvarint_def)
    moreover have "read_var_uint64_slow src i = Inr (varval (p @ [1]), i + 10)"
      using read_slow_long [of i src c d e q b r] d p ten by (simp add: not_less [symmetric])
    ultimately show ?thesis using d(1) by simp
  next
    case bad
    then obtain c d e q where p: "p = c # d # e # q" by (rule_tac three_or_more [of p]) auto
    then have "\<exists>er. read_var_uint64_slow src i = Inl (Err er)"
      using read_slow_long [of i src c d e q b r] d bad by auto
    moreover have "10 \<le> length p \<or> (length p = 9 \<and> (\<exists>c t. b # r = c # t \<and> 1 < c \<and> c < 0x80))"
      using bad d(3) by (auto simp: not_le)
    then have "snd (uvarint (p @ b # r)) \<le> 0"
      using uvarint_loop_bad [of p 0 "b # r" 0 0] d(2) by (auto simp: uvarint_def)
    ultimately show ?thesis using d(1) by (auto split: prod.splits)
  qed
qed

section \<open>Round trips and interpretations of the codec contract\<close>

lemma minus_64_fits: "varint_fits [0xff] 0" "varval [0xff, 0] = zigzag_encode (-64)"
  by (simp_all add: varint_fits_def zigzag_encode_alt word_sless_alt)

lemma marshal_var_int64_fits:
  "\<exists>p b. marshal_var_int64 dst v = dst @ p @ [b] \<and> varint_fits p b
      \<and> varval (p @ [b]) = zigzag_encode v"
proof (cases "v = -64")
  case True
  with minus_64_fits show ?thesis
    by (intro exI [of _ "[0xff]"] exI [of _ 0]) (simp add: marshal_var_int64_eq)
next
  case False
  obtain p b where "leb128 (zigzag_encode v) = p @ [b]" "varint_fits p b" using leb128_fits by blast
  with False varval_leb128 [of "zigzag_encode v"] show ?thesis
    by (intro exI [of _ p] exI [of _ b]) (simp add: marshal_var_int64_eq)
qed

lemma var_int64_roundtrip:
  "unmarshal_var_int64 (marshal_var_int64 [] v @ t) = Some (v, length (marshal_var_int64 [] v))"
proof -
  obtain p b where "marshal_var_int64 [] v = p @ [b]" "varint_fits p b"
    "varval (p @ [b]) = zigzag_encode v" using marshal_var_int64_fits [of "[]" v] by auto
  with unmarshal_var_int64_ok [of p b t] show ?thesis by simp
qed

lemma var_int64_then_int64s:
  "unmarshal_var_int64s (Suc (length vs)) (marshal_var_int64 [] v @ marshal_var_int64s [] vs)
   = Inr (v # vs, [])"
proof -
  obtain p b where p: "marshal_var_int64 [] v = p @ [b]" "varint_fits p b"
    "varval (p @ [b]) = zigzag_encode v" using marshal_var_int64_fits [of "[]" v] by auto
  define m where "m = concat (map (\<lambda>v. leb128 (zigzag_encode v)) vs)"
  define src where "src = p @ b # m"
  have src: "marshal_var_int64 [] v @ marshal_var_int64s [] vs = src"
    by (simp add: p src_def m_def marshal_int64s_eq)
  have "read_var_uint64_slow src 0 = Inr (zigzag_encode v, length p + 1)"
    using read_slow_ok [of 0 src p b m] p by (simp add: src_def)
  moreover have "drop (length p + 1) src = m" by (simp add: src_def)
  then have "int64s_mixed_loop (length vs) src (length p + 1) [v] = Inr (v # vs, length src)"
    using int64s_mixed_run [of "length p + 1" src vs "[]" "[v]"] by (simp add: m_def src_def)
  moreover have "Suc (length vs) \<le> length src"
    using length_concat_leb128 [of "map zigzag_encode vs"] by (simp add: src_def m_def comp_def)
  ultimately show ?thesis by (simp add: src unmarshal_int64s_eq read_fast_eq_slow)
qed

lemma var_uint64_roundtrip:
  "unmarshal_var_uint64 (marshal_var_uint64 [] u @ t) = Some (u, length (marshal_var_uint64 [] u))"
proof -
  obtain p b where "leb128 u = p @ [b]" "varint_fits p b" using leb128_fits by blast
  with unmarshal_var_uint64_ok [of p b t] varval_leb128 [of u] show ?thesis
    by (simp add: marshal_var_uint64_def append_leb128)
qed

lemma marshal_var_uint64_app: "marshal_var_uint64 dst u = dst @ marshal_var_uint64 [] u"
  by (simp add: marshal_var_uint64_def append_leb128)

lemma bytes_roundtrip:
  assumes "length b < 2 ^ 64"
  shows "unmarshal_bytes (marshal_bytes [] b @ t) = Some (b, length (marshal_bytes [] b))"
proof -
  define h where "h = marshal_var_uint64 [] (of_nat (length b))"
  have b: "marshal_bytes [] b = h @ b" by (simp add: marshal_bytes_def h_def)
  have n: "unat (of_nat (length b) :: u64) = length b" using assms by (simp add: unat_of_nat)
  have "unmarshal_var_uint64 (h @ b @ t) = Some (of_nat (length b), length h)"
    using var_uint64_roundtrip [of "of_nat (length b)" "b @ t"] by (simp add: h_def)
  then show ?thesis
    by (simp add: unmarshal_bytes_def b n subslice_def)
qed

lemma signed_drop_bit_15: "signed_drop_bit 15 (v :: i16) = (if bit v 15 then -1 else 0)"
  by (rule bit_word_eqI) (auto simp: bit_simps not_le)

lemma int16_zigzag: "drop_bit 1 (push_bit 1 v XOR signed_drop_bit 15 v)
    XOR signed_drop_bit 15 (push_bit 15 (push_bit 1 v XOR signed_drop_bit 15 v)) = (v :: i16)"
proof (rule bit_word_eqI)
  fix n assume "n < LENGTH(16)"
  then show "bit (drop_bit 1 (push_bit 1 v XOR signed_drop_bit 15 v)
    XOR signed_drop_bit 15 (push_bit 15 (push_bit 1 v XOR signed_drop_bit 15 v))) n = bit v n"
    unfolding bit_xor_iff bit_drop_bit_eq bit_push_bit_iff o_def signed_drop_bit_15
    by (cases "n = 15") auto
qed

lemma take_to_be_bytes [simp]: "take (LENGTH('a) div 8) (to_be_bytes (u :: 'a::len word) @ t) = to_be_bytes u"
  by simp

interpretation uint16_codec: prefix_codec "marshal_uint16 []" "fixed 2 unmarshal_uint16" "\<lambda>_. True"
  by unfold_locales
     (simp add: fixed_def marshal_uint16_def unmarshal_uint16_def from_be_to_be_bytes)

interpretation uint32_codec: prefix_codec "marshal_uint32 []" "fixed 4 unmarshal_uint32" "\<lambda>_. True"
  by unfold_locales
     (simp add: fixed_def marshal_uint32_def unmarshal_uint32_def from_be_to_be_bytes)

interpretation uint64_codec: prefix_codec "marshal_uint64 []" "fixed 8 unmarshal_uint64" "\<lambda>_. True"
  by unfold_locales
     (simp add: fixed_def marshal_uint64_def unmarshal_uint64_def from_be_to_be_bytes)

interpretation int16_codec: prefix_codec "marshal_int16 []" "fixed 2 unmarshal_int16" "\<lambda>_. True"
  by unfold_locales
     (simp add: fixed_def marshal_int16_def unmarshal_int16_def marshal_uint16_def
       unmarshal_uint16_def from_be_to_be_bytes int16_zigzag [simplified])

interpretation int64_codec: prefix_codec "marshal_int64 []" "fixed 8 unmarshal_int64" "\<lambda>_. True"
  by unfold_locales
     (simp add: fixed_def marshal_int64_def unmarshal_int64_def marshal_uint64_def
       unmarshal_uint64_def from_be_to_be_bytes
       zigzag_encode_def [symmetric, simplified] zigzag_decode_def [symmetric, simplified])

interpretation var_uint64_codec: prefix_codec "marshal_var_uint64 []" "sized unmarshal_var_uint64" "\<lambda>_. True"
  by unfold_locales (simp add: sized_def var_uint64_roundtrip)

interpretation var_int64_codec: prefix_codec "marshal_var_int64 []" "sized unmarshal_var_int64" "\<lambda>_. True"
  by unfold_locales (simp add: sized_def var_int64_roundtrip)

interpretation bool_codec: prefix_codec "marshal_bool []" "fixed 1 unmarshal_bool" "\<lambda>_. True"
  by unfold_locales (simp add: fixed_def marshal_bool_def unmarshal_bool_def)

section \<open>Properties\<close>

text \<open>
  The encoder writes the base-128 encoding of its argument, for every 64-bit value: what it
  appends is the reference encoding, has at most ten bytes, and carries the value.
\<close>

theorem append_var_uint64_is_leb128:
  "append_var_uint64 dst u = dst @ leb128 u \<and> length (leb128 u) \<le> 10 \<and> varval (leb128 u) = u"
proof -
  obtain p b where "leb128 u = p @ [b]" "varint_fits p b" using leb128_fits by blast
  then have "length (leb128 u) \<le> 10" by (auto simp: varint_fits_def)
  then show ?thesis by (simp add: append_leb128 varval_leb128)
qed

text \<open>
  C31: The word-at-a-time reader returns the value, the new position and the error of the
  byte-at-a-time reader, for every input and every start position.
\<close>

theorem read_var_uint64_fast_correct:
  "read_var_uint64_fast src start = read_var_uint64_slow src start"
  by (rule read_fast_eq_slow)

text \<open>
  C36: The array reader and the single-value decoder accept the same inputs and consume the same
  number of bytes. They return the same value, except that the array reader sets bit 63 of every
  ten-byte varint, also of one whose tenth byte is 0.
\<close>

theorem slow_reader_agrees_with_uvarint:
  "case uvarint (drop i src) of (u, n) \<Rightarrow>
     if n \<le> 0 then \<exists>e. read_var_uint64_slow src i = Inl (Err e)
     else read_var_uint64_slow src i = Inr (if n = 10 then u OR 2 ^ 63 else u, i + nat n)"
  by (rule read_slow_iff_uvarint)

text \<open>
  Arrays of signed and of unsigned integers are decoded to the values that were encoded, with
  exactly the bytes that follow them left over, whichever of the one-byte and general paths the
  encoder and the decoder take.
\<close>

theorem var_arrays_roundtrip:
  "unmarshal_var_int64s (length vs) (drop (length dst) (marshal_var_int64s dst vs) @ t) = Inr (vs, t)
   \<and> unmarshal_var_uint64s (length us) (drop (length dst) (marshal_var_uint64s dst us) @ t) = Inr (us, t)"
  using int64s_roundtrip [of vs t] uint64s_roundtrip [of us t]
  by (simp add: marshal_int64s_eq marshal_uint64s_eq)

text \<open>
  A single encoded integer, signed or unsigned, decodes to itself and to its encoded size,
  whatever bytes follow.
\<close>

theorem var_integers_roundtrip:
  "unmarshal_var_uint64 (drop (length dst) (marshal_var_uint64 dst u) @ t)
     = Some (u, length (marshal_var_uint64 dst u) - length dst)
   \<and> unmarshal_var_int64 (drop (length dst) (marshal_var_int64 dst v) @ t)
     = Some (v, length (marshal_var_int64 dst v) - length dst)"
  using var_uint64_roundtrip [of u t] var_int64_roundtrip [of v t]
  by (simp add: marshal_var_uint64_def append_leb128 marshal_var_int64_eq)

text \<open>
  A length-prefixed byte string decodes to itself and its encoded size, as long as it has
  less than 2^64 bytes, whatever follows it.
\<close>

theorem marshal_bytes_roundtrip:
  assumes "length b < 2 ^ 64"
  shows "unmarshal_bytes (marshal_bytes [] b @ t) = Some (b, length (marshal_bytes [] b))"
  using assms by (rule bytes_roundtrip)

theorem marshal_bytes_roundtrip_witness:
  "unmarshal_bytes (marshal_bytes [] [1, 2, 3] @ [9]) = Some ([1, 2, 3], 4)"
proof -
  have "marshal_bytes [] [1, 2, 3] = [3, 1, 2, 3]"
    by (simp add: marshal_bytes_def marshal_var_uint64_def append_var_uint64_def last7_def)
  then show ?thesis using marshal_bytes_roundtrip [of "[1, 2, 3]" "[9]"] by simp
qed

text \<open>The padded ten-byte varint on which the two decoders differ.\<close>

lemma padded_varint_decoders_differ:
  "unmarshal_var_uint64 (replicate 9 0x80 @ [0]) = Some (0, 10)"
  "read_var_uint64_slow (replicate 9 0x80 @ [0]) 0 = Inr (2 ^ 63, 10)"
proof -
  have "replicate 9 0x80 = [0x80, 0x80, 0x80, 0x80, 0x80, 0x80, 0x80, 0x80, 0x80 :: u8]"
    by (simp add: eval_nat_numeral)
  then have u: "uvarint (replicate 9 0x80 @ [0]) = (0, 10)"
    and v: "unmarshal_var_uint64 (replicate 9 0x80 @ [0])
      = (case uvarint (replicate 9 0x80 @ [0]) of (u, n_size) \<Rightarrow>
           if n_size \<le> 0 then None else Some (u, nat n_size))"
    by (simp_all add: uvarint_def unmarshal_var_uint64_def)
  from u v show "unmarshal_var_uint64 (replicate 9 0x80 @ [0]) = Some (0, 10)" by simp
  from u show "read_var_uint64_slow (replicate 9 0x80 @ [0]) 0 = Inr (2 ^ 63, 10)"
    using read_slow_iff_uvarint [where i = 0 and src = "replicate 9 0x80 @ [0]"] by simp
qed

end
