(* ===== verification/Nearest_Delta.thy ===== *)
theory Nearest_Delta
  imports Varint_Decode
begin

text \<open>
  The delta encodings of \<open>crates/esm-encoding/src/nearest_delta.rs\<close> and \<open>nearest_delta2.rs\<close>.

  The encoder walks the values with the running value \<open>v\<close> the decoder will have and writes the
  difference to it, with low bits zeroed when \<open>precision_bits\<close> is less than 64. \<open>precision_bits\<close> and
  the count of zeroed bits are \<open>u8\<close> in the source and natural numbers here: the counts stay at most
  63 (lemma \<open>nearest_delta_bits\<close>), so that the additions of 2 and 4 in the source cannot
  overflow. An assertion that fails is the outcome \<open>Panic\<close>.
\<close>

section \<open>Rounding one delta\<close>

definition check_precision_bits :: "nat \<Rightarrow> bool" where
  "check_precision_bits precision_bits \<longleftrightarrow> 1 \<le> precision_bits \<and> precision_bits \<le> 64"

definition dec_if_non_zero :: "nat \<Rightarrow> nat" where
  "dec_if_non_zero n = n - 1"

text \<open>\<open>(64 - (v as u64).leading_zeros())\<close> of the magnitude of \<open>v\<close>, as \<open>wrapping_neg\<close> gives it.\<close>

definition wrapping_abs :: "i64 \<Rightarrow> u64" where
  "wrapping_abs v = (if v <s 0 then - v else v)"

definition abs_bits :: "i64 \<Rightarrow> nat" where
  "abs_bits v = 64 - leading_zeros (wrapping_abs v)"

definition get_trailing_zeros :: "i64 \<Rightarrow> nat \<Rightarrow> nat" where
  "get_trailing_zeros v precision_bits =
    (if abs_bits v \<le> precision_bits then 0 else abs_bits v - precision_bits)"

definition nearest_delta :: "i64 \<Rightarrow> i64 \<Rightarrow> nat \<Rightarrow> nat \<Rightarrow> i64 \<times> nat" where
  "nearest_delta nxt prev precision_bits prev_tz =
    (let d = nxt - prev in
     if d = 0 then (0, dec_if_non_zero prev_tz) else
     let origin_bits = abs_bits nxt in
     if origin_bits \<le> precision_bits then (d, dec_if_non_zero prev_tz) else
     let tz = origin_bits - precision_bits in
     if tz > prev_tz + 4 then (d, prev_tz + 2) else
     if tz + 4 < prev_tz then (d, prev_tz - 2) else
     let minus = d <s 0;
         d = (if minus then - d else d);
         nd = d AND push_bit tz (- 1);
         nd = (if minus then - nd else nd)
     in (nd, tz))"

section \<open>The first differences\<close>

fun delta_loop_fast :: "i64 \<Rightarrow> i64 list \<Rightarrow> i64 list" where
  "delta_loop_fast v [] = []"
| "delta_loop_fast v (nxt # src) = (let d = nxt - v in d # delta_loop_fast (v + d) src)"

fun delta_loop :: "nat \<Rightarrow> i64 \<Rightarrow> nat \<Rightarrow> i64 list \<Rightarrow> i64 list" where
  "delta_loop precision_bits v tz [] = []"
| "delta_loop precision_bits v tz (nxt # src) =
    (let (d, tzs) = nearest_delta nxt v precision_bits tz
     in d # delta_loop precision_bits (v + d) tzs src)"

definition marshal_int64_nearest_delta ::
  "bytes \<Rightarrow> i64 list \<Rightarrow> nat \<Rightarrow> (bytes \<times> i64) option" where
  "marshal_int64_nearest_delta dst src precision_bits =
    (if src = [] then None
     else if \<not> check_precision_bits precision_bits then None
     else
       let first_value = src ! 0; v = src ! 0; src = drop 1 src;
           is = (if precision_bits = 64 then delta_loop_fast v src
                 else delta_loop precision_bits v (get_trailing_zeros v precision_bits) src)
       in Some (marshal_var_int64s dst is, first_value))"

datatype delta_err = BadDeltas nat varint_err | UnexpectedTail nat nat nat

text \<open>The running sums the decoder pushes.\<close>

fun sum_loop :: "i64 \<Rightarrow> i64 list \<Rightarrow> i64 list" where
  "sum_loop v [] = []"
| "sum_loop v (d # is) = (let v = v + d in v # sum_loop v is)"

definition unmarshal_int64_nearest_delta ::
  "i64 list \<Rightarrow> bytes \<Rightarrow> i64 \<Rightarrow> nat \<Rightarrow> (delta_err, i64 list) res" where
  "unmarshal_int64_nearest_delta dst src first_value items_count =
    (if items_count < 1 then Inl Panic else
     rbind (map_err (BadDeltas (length src)) (unmarshal_var_int64s (items_count - 1) src))
       (\<lambda>(is, tail).
          if tail \<noteq> [] then Inl (Err (UnexpectedTail items_count (length src) (length tail)))
          else Inr (dst @ first_value # sum_loop first_value is)))"

section \<open>The second differences\<close>

fun delta2_loop_fast :: "i64 \<Rightarrow> i64 \<Rightarrow> i64 list \<Rightarrow> i64 list" where
  "delta2_loop_fast v d1 [] = []"
| "delta2_loop_fast v d1 (nxt # src) =
    (let d2 = nxt - v - d1; d1 = d1 + d2; v = v + d1 in d2 # delta2_loop_fast v d1 src)"

fun delta2_loop :: "nat \<Rightarrow> i64 \<Rightarrow> i64 \<Rightarrow> nat \<Rightarrow> i64 list \<Rightarrow> i64 list" where
  "delta2_loop precision_bits v d1 tz [] = []"
| "delta2_loop precision_bits v d1 tz (nxt # src) =
    (let (d2, tzs) = nearest_delta (nxt - v) d1 precision_bits tz;
         d1 = d1 + d2;
         v = v + d1
     in d2 # delta2_loop precision_bits v d1 tzs src)"

definition marshal_int64_nearest_delta2 ::
  "bytes \<Rightarrow> i64 list \<Rightarrow> nat \<Rightarrow> (bytes \<times> i64) option" where
  "marshal_int64_nearest_delta2 dst src precision_bits =
    (if length src < 2 then None
     else if \<not> check_precision_bits precision_bits then None
     else
       let first_value = src ! 0; d1 = src ! 1 - src ! 0;
           dst = marshal_var_int64 dst d1;
           v = src ! 1; src = drop 2 src;
           is = (if precision_bits = 64 then delta2_loop_fast v d1 src
                 else delta2_loop precision_bits v d1 (get_trailing_zeros v precision_bits) src)
       in Some (marshal_var_int64s dst is, first_value))"

fun sum2_loop :: "i64 \<Rightarrow> i64 \<Rightarrow> i64 list \<Rightarrow> i64 list" where
  "sum2_loop v d1 [] = []"
| "sum2_loop v d1 (d2 # is) = (let d1 = d1 + d2; v = v + d1 in v # sum2_loop v d1 is)"

definition unmarshal_int64_nearest_delta2 ::
  "i64 list \<Rightarrow> bytes \<Rightarrow> i64 \<Rightarrow> nat \<Rightarrow> (delta_err, i64 list) res" where
  "unmarshal_int64_nearest_delta2 dst src first_value items_count =
    (if items_count < 2 then Inl Panic else
     rbind (map_err (BadDeltas (length src)) (unmarshal_var_int64s (items_count - 1) src))
       (\<lambda>(is, tail).
          if tail \<noteq> [] then Inl (Err (UnexpectedTail items_count (length src) (length tail)))
          else let d1 = is ! 0; v = first_value + d1
               in Inr (dst @ first_value # v # sum2_loop v d1 (drop 1 is))))"

section \<open>Precision\<close>

text \<open>An error of less than \<open>2 ^ k\<close>, read as a signed number.\<close>

definition within :: "nat \<Rightarrow> i64 \<Rightarrow> bool" where
  "within k e \<longleftrightarrow> \<bar>sint e\<bar> < 2 ^ k"

text \<open>
  For second differences the precision is relative to the step from the previous decoded value.
\<close>

fun within2 :: "nat \<Rightarrow> i64 \<Rightarrow> i64 list \<Rightarrow> i64 list \<Rightarrow> bool" where
  "within2 pb prev [] ys \<longleftrightarrow> ys = []"
| "within2 pb prev (x # xs) ys \<longleftrightarrow>
     (case ys of [] \<Rightarrow> False | y # ys \<Rightarrow> within (abs_bits (x - prev) - pb) (x - y) \<and> within2 pb y xs ys)"

section \<open>The precision of one delta\<close>

lemma within_0_iff: "within 0 e \<longleftrightarrow> e = 0"
  using signed_word_eqI [of e 0] by (auto simp: within_def)

lemma within_zero [simp]: "within k 0"
  by (simp add: within_def)

lemma within_mask:
  assumes "k \<le> 63"
  shows "within k (e AND mask k)" "within k (- (e AND mask k))"
proof -
  have "uint (e AND mask k) < 2 ^ k"
    by (simp add: unsigned_take_bit_eq flip: take_bit_eq_mask)
  moreover have "(2 :: int) ^ k \<le> 2 ^ 63" using assms by (intro power_increasing) auto
  ultimately have u: "uint (e AND mask k) < 2 ^ k" "uint (e AND mask k) < 2 ^ 63" by linarith+
  have nn: "0 \<le> uint (e AND mask k)" by simp
  have "signed_take_bit 63 (uint (e AND mask k)) = uint (e AND mask k)"
    using u nn by (intro signed_take_bit_int_eq_self) linarith+
  then have s: "sint (e AND mask k) = uint (e AND mask k)" by (simp add: sint_uint)
  then show "within k (e AND mask k)" using u by (simp add: within_def)
  have "sint (- (e AND mask k)) = signed_take_bit 63 (- uint (e AND mask k))"
    using s by (simp add: sint_word_ariths)
  also have "\<dots> = - uint (e AND mask k)"
    using u nn by (intro signed_take_bit_int_eq_self) linarith+
  finally have "sint (- (e AND mask k)) = - uint (e AND mask k)" .
  then show "within k (- (e AND mask k))" using u by (simp add: within_def)
qed


lemma abs_bits_le: "abs_bits v \<le> 64"
  by (simp add: abs_bits_def)

lemma and_high_bits: "d - (d AND push_bit k (- 1)) = d AND mask k" for d :: u64
proof -
  have "d = (d AND push_bit k (- 1)) + (d AND mask k)"
  proof -
    have "(d AND push_bit k (- 1)) AND (d AND mask k) = 0"
      by (rule bit_word_eqI) (auto simp: bit_simps)
    moreover have "(d AND push_bit k (- 1)) OR (d AND mask k) = d"
      by (rule bit_word_eqI) (auto simp: bit_simps)
    ultimately show ?thesis by (simp add: disjunctive_add_eq_or)
  qed
  then show ?thesis by (simp add: algebra_simps)
qed

text \<open>
  What one step loses: the running value differs from the value encoded by less than
  \<open>2 ^ (abs_bits nxt - precision_bits)\<close>; the count of zeroed bits stays below 64.
\<close>

lemma nearest_delta_within:
  assumes "1 \<le> precision_bits"
  shows "within (abs_bits nxt - precision_bits)
    (nxt - (prev + fst (nearest_delta nxt prev precision_bits prev_tz)))"
proof -
  define k where "k = abs_bits nxt - precision_bits"
  define d where "d = nxt - prev"
  have k: "k \<le> 63" using assms abs_bits_le [of nxt] by (simp add: k_def)
  define r where "r = fst (nearest_delta nxt prev precision_bits prev_tz)"
  have "r = d \<or> r = (if d <s 0 then - (- d AND push_bit k (- 1)) else d AND push_bit k (- 1))"
    unfolding r_def nearest_delta_def Let_def d_def [symmetric] k_def [symmetric] by simp
  moreover have "d - - (- d AND push_bit k (- 1)) = - (- d - (- d AND push_bit k (- 1)))" by simp
  ultimately have "d - r = 0 \<or> d - r = - (- d AND mask k) \<or> d - r = d AND mask k"
    unfolding and_high_bits using and_high_bits [of d k] by (metis diff_self)
  moreover have "d - r = nxt - (prev + r)" by (simp add: d_def)
  ultimately show ?thesis using within_mask [OF k] unfolding r_def [symmetric] k_def [symmetric] by auto
qed

lemma nearest_delta_bits:
  assumes "1 \<le> precision_bits" "prev_tz \<le> 63"
  shows "snd (nearest_delta nxt prev precision_bits prev_tz) \<le> 63"
  using assms abs_bits_le [of nxt]
  by (auto simp: nearest_delta_def Let_def dec_if_non_zero_def)

lemma get_trailing_zeros_bits: "1 \<le> precision_bits \<Longrightarrow> get_trailing_zeros v precision_bits \<le> 63"
  using abs_bits_le [of v] by (simp add: get_trailing_zeros_def) linarith

lemma uint_wrapping_abs: "uint (wrapping_abs v) = \<bar>sint v\<bar>"
proof -
  have b: "- (2 ^ 63) \<le> sint v" "sint v < 2 ^ 63"
    using sint_range_size [of v] by (simp_all add: word_size)
  have "wrapping_abs v = word_of_int \<bar>sint v\<bar>"
    by (simp add: wrapping_abs_def word_sless_alt)
  then have "uint (wrapping_abs v) = \<bar>sint v\<bar> mod 2 ^ 64" by (simp add: uint_word_of_int)
  also have "\<dots> = \<bar>sint v\<bar>" using b by simp
  finally show ?thesis .
qed

lemma abs_bits_bounds:
  assumes "v \<noteq> 0"
  shows "2 ^ (abs_bits v - 1) \<le> \<bar>sint v\<bar>" "\<bar>sint v\<bar> < 2 ^ abs_bits v"
proof -
  have "wrapping_abs v \<noteq> 0" using assms by (simp add: wrapping_abs_def)
  from leading_zeros_nonzero [OF this] show "2 ^ (abs_bits v - 1) \<le> \<bar>sint v\<bar>" "\<bar>sint v\<bar> < 2 ^ abs_bits v"
    by (simp_all add: abs_bits_def uint_wrapping_abs)
qed

lemma within_relative:
  assumes "1 \<le> pb" "within (abs_bits x - pb) e"
  shows "\<bar>sint e\<bar> * 2 ^ (pb - 1) \<le> \<bar>sint x\<bar>"
proof (cases "abs_bits x \<le> pb")
  case True
  with assms(2) show ?thesis by (simp add: within_0_iff)
next
  case False
  then have "x \<noteq> 0" by (auto simp: abs_bits_def wrapping_abs_def)
  have "\<bar>sint e\<bar> * 2 ^ (pb - 1) \<le> 2 ^ (abs_bits x - pb) * 2 ^ (pb - 1)"
    using assms(2) by (intro mult_right_mono) (auto simp: within_def)
  also have "\<dots> = 2 ^ (abs_bits x - 1)"
    using False assms(1) by (simp flip: power_add)
  also have "\<dots> \<le> \<bar>sint x\<bar>" by (rule abs_bits_bounds(1) [OF \<open>x \<noteq> 0\<close>])
  finally show ?thesis .
qed

section \<open>What the decoder sees\<close>

lemma delta_loop_64: "delta_loop 64 v tz src = delta_loop_fast v src"
  by (induction v src arbitrary: tz rule: delta_loop_fast.induct)
     (auto simp: nearest_delta_def Let_def abs_bits_le)

lemma delta2_loop_64: "delta2_loop 64 v d1 tz src = delta2_loop_fast v d1 src"
  by (induction v d1 src arbitrary: tz rule: delta2_loop_fast.induct)
     (auto simp: nearest_delta_def Let_def abs_bits_le)

lemma delta_loop_length [simp]: "length (delta_loop pb v tz src) = length src"
  by (induction pb v tz src rule: delta_loop.induct) (auto simp: Let_def split: prod.splits)

lemma delta2_loop_length [simp]: "length (delta2_loop pb v d1 tz src) = length src"
  by (induction pb v d1 tz src rule: delta2_loop.induct) (auto simp: Let_def split: prod.splits)

lemma delta_loop_within:
  "1 \<le> pb \<Longrightarrow> list_all2 (\<lambda>x y. within (abs_bits x - pb) (x - y)) src (sum_loop v (delta_loop pb v tz src))"
proof (induction pb v tz src rule: delta_loop.induct)
  case (2 pb v tz nxt src)
  then show ?case
    using nearest_delta_within [of pb nxt v tz] by (auto simp: Let_def split: prod.splits)
qed simp

lemma delta2_loop_within:
  "1 \<le> pb \<Longrightarrow> within2 pb v src (sum2_loop v d1 (delta2_loop pb v d1 tz src))"
proof (induction pb v d1 tz src rule: delta2_loop.induct)
  case (2 pb v d1 tz nxt src)
  obtain d2 tzs where nd: "nearest_delta (nxt - v) d1 pb tz = (d2, tzs)" by fastforce
  have "nxt - v - (d1 + d2) = nxt - (v + (d1 + d2))" by simp
  then show ?case
    using 2 nearest_delta_within [of pb "nxt - v" d1 tz] by (simp add: nd Let_def diff_diff_eq)
qed simp

lemma within2_64: "within2 64 prev xs ys \<longleftrightarrow> ys = xs"
proof (induction "64 :: nat" prev xs ys rule: within2.induct)
  case (2 prev x xs ys)
  have "abs_bits (x - prev) - 64 = 0" using abs_bits_le [of "x - prev"] by simp
  with 2 show ?case by (cases ys) (auto simp: within_0_iff)
qed simp

lemma within_64: "list_all2 (\<lambda>x y. within (abs_bits x - 64) (x - y)) xs ys \<longleftrightarrow> ys = xs"
proof -
  have "abs_bits x - 64 = 0" for x using abs_bits_le [of x] by simp
  then have "(\<lambda>x y. within (abs_bits x - 64) (x - y)) = (=)" by (auto simp: within_0_iff fun_eq_iff)
  then show ?thesis by (auto simp: list.rel_eq)
qed

section \<open>Encode, then decode\<close>

lemma marshal_nearest_delta_decode:
  assumes "src \<noteq> []" "check_precision_bits pb"
  obtains m where "marshal_int64_nearest_delta dst src pb = Some (dst @ m, hd src)"
    "unmarshal_int64_nearest_delta out m (hd src) (length src) = Inr (out @ hd src #
       sum_loop (hd src) (delta_loop pb (hd src) (get_trailing_zeros (hd src) pb) (tl src)))"
proof -
  define ds where "ds = delta_loop pb (hd src) (get_trailing_zeros (hd src) pb) (tl src)"
  define m where "m = marshal_var_int64s [] ds"
  have "marshal_int64_nearest_delta dst src pb = Some (dst @ m, hd src)"
    using assms delta_loop_64 [of "hd src" "get_trailing_zeros (hd src) 64" "tl src"]
    by (simp add: marshal_int64_nearest_delta_def m_def ds_def hd_conv_nth drop_Suc
        marshal_int64s_eq Let_def)
  moreover have "length ds = length src - 1" by (simp add: ds_def)
  then have "unmarshal_var_int64s (length src - 1) m = Inr (ds, [])"
    using int64s_roundtrip [of ds "[]"] by (simp add: m_def)
  then have "unmarshal_int64_nearest_delta out m (hd src) (length src)
      = Inr (out @ hd src # sum_loop (hd src) ds)"
    using assms(1) by (simp add: unmarshal_int64_nearest_delta_def Suc_le_eq)
  ultimately show ?thesis using that by (simp add: ds_def)
qed

lemma marshal_nearest_delta2_decode:
  assumes "src = a # b # rest" "check_precision_bits pb"
  obtains m where "marshal_int64_nearest_delta2 dst src pb = Some (dst @ m, a)"
    "unmarshal_int64_nearest_delta2 out m a (length src) = Inr (out @ a # b #
       sum2_loop b (b - a) (delta2_loop pb b (b - a) (get_trailing_zeros b pb) rest))"
proof -
  define ds where "ds = delta2_loop pb b (b - a) (get_trailing_zeros b pb) rest"
  define m where "m = marshal_var_int64 [] (b - a) @ marshal_var_int64s [] ds"
  have "marshal_int64_nearest_delta2 dst src pb = Some (dst @ m, a)"
    using assms delta2_loop_64 [of b "b - a" "get_trailing_zeros b 64" rest]
    by (simp add: marshal_int64_nearest_delta2_def m_def ds_def marshal_int64s_eq
        marshal_var_int64_eq Let_def)
  moreover have len: "length ds = length rest" by (simp add: ds_def)
  have "unmarshal_var_int64s (Suc (length ds)) m = Inr ((b - a) # ds, [])"
    unfolding m_def by (rule var_int64_then_int64s)
  then have "unmarshal_int64_nearest_delta2 out m a (length src)
      = Inr (out @ a # b # sum2_loop b (b - a) ds)"
    using assms(1) by (simp add: unmarshal_int64_nearest_delta2_def len)
  ultimately show ?thesis using that by (simp add: ds_def)
qed

section \<open>Properties\<close>

text \<open>
  C29: The first-difference encoding keeps the promised precision. Encoding never fails on a
  non-empty array with a valid precision; decoding what was encoded succeeds and returns as many
  values, each of which differs from the original by less than 2 to the number of bits of the
  original beyond \<open>precision_bits\<close>, a relative error of at most 1 in 2 to the power
  \<open>precision_bits - 1\<close>. Errors do not add up along the array, and with 64 bits the
  values are the original ones.
\<close>

theorem nearest_delta_precision:
  assumes "src \<noteq> []" "check_precision_bits pb"
  shows "\<exists>m ys. marshal_int64_nearest_delta dst src pb = Some (dst @ m, hd src)
    \<and> unmarshal_int64_nearest_delta out m (hd src) (length src) = Inr (out @ ys)
    \<and> list_all2 (\<lambda>x y. within (abs_bits x - pb) (x - y)
         \<and> \<bar>sint (x - y)\<bar> * 2 ^ (pb - 1) \<le> \<bar>sint x\<bar>) src ys
    \<and> (pb = 64 \<longrightarrow> ys = src)"
proof -
  obtain m where m: "marshal_int64_nearest_delta dst src pb = Some (dst @ m, hd src)"
    "unmarshal_int64_nearest_delta out m (hd src) (length src) = Inr (out @ hd src #
       sum_loop (hd src) (delta_loop pb (hd src) (get_trailing_zeros (hd src) pb) (tl src)))"
    by (rule marshal_nearest_delta_decode [OF assms])
  have "list_all2 (\<lambda>x y. within (abs_bits x - pb) (x - y)) (hd src # tl src) (hd src #
       sum_loop (hd src) (delta_loop pb (hd src) (get_trailing_zeros (hd src) pb) (tl src)))"
    using delta_loop_within [of pb "tl src"] assms(2) by (simp add: check_precision_bits_def)
  then have c: "list_all2 (\<lambda>x y. within (abs_bits x - pb) (x - y)) src (hd src #
       sum_loop (hd src) (delta_loop pb (hd src) (get_trailing_zeros (hd src) pb) (tl src)))"
    using assms(1) by simp
  then have "list_all2 (\<lambda>x y. within (abs_bits x - pb) (x - y)
      \<and> \<bar>sint (x - y)\<bar> * 2 ^ (pb - 1) \<le> \<bar>sint x\<bar>) src (hd src #
       sum_loop (hd src) (delta_loop pb (hd src) (get_trailing_zeros (hd src) pb) (tl src)))"
    by (rule list_all2_mono) (use assms(2) in \<open>auto simp: check_precision_bits_def
        intro: within_relative [simplified]\<close>)
  with m c show ?thesis by (blast intro: within_64 [THEN iffD1])
qed

theorem nearest_delta_precision_witness:
  "\<exists>m ys. marshal_int64_nearest_delta [7] [100, 130, 90] 4 = Some ([7] @ m, 100)
    \<and> unmarshal_int64_nearest_delta [] m 100 3 = Inr ([] @ ys)
    \<and> list_all2 (\<lambda>x y. within (abs_bits x - 4) (x - y)
         \<and> \<bar>sint (x - y)\<bar> * 2 ^ (4 - 1) \<le> \<bar>sint x\<bar>) [100, 130, 90] ys"
  using nearest_delta_precision [of "[100, 130, 90]" 4 "[7]" "[]"]
  by (auto simp: check_precision_bits_def numeral_3_eq_3)

text \<open>
  C30: The second-difference encoding. The first two values are exact; every later one differs from
  the original by less than 2 to the number of bits, beyond \<open>precision_bits\<close>, of its step from the
  previous decoded value. With 64 bits the values are the original ones.
\<close>

theorem nearest_delta2_precision:
  assumes "check_precision_bits pb"
  shows "\<exists>m ys. marshal_int64_nearest_delta2 dst (a # b # rest) pb = Some (dst @ m, a)
    \<and> unmarshal_int64_nearest_delta2 out m a (length (a # b # rest)) = Inr (out @ a # b # ys)
    \<and> within2 pb b rest ys
    \<and> (pb = 64 \<longrightarrow> ys = rest)"
proof -
  obtain m where m: "marshal_int64_nearest_delta2 dst (a # b # rest) pb = Some (dst @ m, a)"
    "unmarshal_int64_nearest_delta2 out m a (length (a # b # rest)) = Inr (out @ a # b #
       sum2_loop b (b - a) (delta2_loop pb b (b - a) (get_trailing_zeros b pb) rest))"
    by (rule marshal_nearest_delta2_decode [OF refl assms])
  have "within2 pb b rest
      (sum2_loop b (b - a) (delta2_loop pb b (b - a) (get_trailing_zeros b pb) rest))"
    using assms by (intro delta2_loop_within) (simp add: check_precision_bits_def)
  with m show ?thesis by (blast intro: within2_64 [THEN iffD1])
qed

theorem nearest_delta2_precision_witness:
  "\<exists>m ys. marshal_int64_nearest_delta2 [] [10, 20, 33] 64 = Some ([] @ m, 10)
    \<and> unmarshal_int64_nearest_delta2 [] m 10 3 = Inr ([] @ 10 # 20 # ys) \<and> ys = [33]"
  using nearest_delta2_precision [of 64 "[]" 10 20 "[33]" "[]"]
  by (auto simp: check_precision_bits_def numeral_3_eq_3)

end
