(* ===== verification/Block_Encoding.thy ===== *)
theory Block_Encoding
  imports Nearest_Delta
begin

text \<open>
  Block-level encoding of \<open>i64\<close> arrays with automatic choice of the encoding
  (\<open>crates/esm-encoding/src/encoding.rs\<close>), the compression wrappers it calls
  (\<open>compress.rs\<close>) and the array fills of \<open>crates/esm-common/src/fastnum.rs\<close>.

  The zstd library is not part of the repository: its entry points are the fields of the record
  \<open>zstd_lib\<close>, an argument of every definition that compresses. \<open>zstd_ok\<close> states what the code
  relies on, that compression into a buffer of \<open>compress_bound\<close> bytes succeeds, that the frame
  records its content size, and that decompression inverts it.
\<close>

section \<open>Compression\<close>

text \<open>
  The entry points: \<open>zstd_safe::compress_bound\<close>, \<open>Compressor::compress_to_buffer\<close> (level, source,
  capacity), \<open>zstd_safe::get_frame_content_size\<close> (\<open>None\<close> when unknown or malformed),
  \<open>Decompressor::decompress_to_buffer\<close> (source, capacity), the streaming decoder read to its end,
  and the streaming decoder with a window limit and a cap on the bytes read.
\<close>

record zstd_lib =
  compress_bound :: "nat \<Rightarrow> nat"
  compress_to_buffer :: "int \<Rightarrow> bytes \<Rightarrow> nat \<Rightarrow> bytes option"
  get_frame_content_size :: "bytes \<Rightarrow> u64 option"
  decompress_to_buffer :: "bytes \<Rightarrow> nat \<Rightarrow> bytes option"
  stream_decode :: "bytes \<Rightarrow> bytes option"
  stream_decode_limited :: "nat \<Rightarrow> nat \<Rightarrow> bytes \<Rightarrow> bytes option"

definition zstd_ok :: "zstd_lib \<Rightarrow> bool" where
  "zstd_ok Z \<longleftrightarrow> (\<forall>level b. length b < 2 ^ 64 \<longrightarrow>
     (\<exists>c. compress_to_buffer Z level b (compress_bound Z (length b)) = Some c \<and> c \<noteq> []
        \<and> get_frame_content_size Z c = Some (of_nat (length b))
        \<and> decompress_to_buffer Z c (length b) = Some b))"

datatype zstd_err = ZstdFailed | TooBigContent u64 | TooBigData

definition compress_zstd_level :: "zstd_lib \<Rightarrow> bytes \<Rightarrow> bytes \<Rightarrow> int \<Rightarrow> bytes option" where
  "compress_zstd_level Z dst src compress_level =
    (case compress_to_buffer Z compress_level src (compress_bound Z (length src)) of
       None \<Rightarrow> None | Some c \<Rightarrow> Some (dst @ c))"

definition decompress_zstd_internal :: "zstd_lib \<Rightarrow> bytes \<Rightarrow> bytes \<Rightarrow> (zstd_err, bytes) res" where
  "decompress_zstd_internal Z dst src =
    (if src = [] then Inr dst else
     case get_frame_content_size Z src of
       Some content_size \<Rightarrow>
         (case decompress_to_buffer Z src (unat content_size) of
            Some out \<Rightarrow> Inr (dst @ out) | None \<Rightarrow> Inl (Err ZstdFailed))
     | None \<Rightarrow>
         (case stream_decode Z src of
            Some out \<Rightarrow> Inr (dst @ out) | None \<Rightarrow> Inl (Err ZstdFailed)))"

definition decompress_zstd :: "zstd_lib \<Rightarrow> bytes \<Rightarrow> bytes \<Rightarrow> (zstd_err, bytes) res" where
  "decompress_zstd Z dst src = decompress_zstd_internal Z dst src"

definition ceil_log2 :: "u64 \<Rightarrow> nat" where
  "ceil_log2 n = max (64 - leading_zeros (if n = 0 then 0 else n - 1)) 10"

definition decompress_zstd_limited_internal ::
  "zstd_lib \<Rightarrow> bytes \<Rightarrow> bytes \<Rightarrow> u64 \<Rightarrow> (zstd_err, bytes) res" where
  "decompress_zstd_limited_internal Z dst src max_data_size_bytes =
    (if src = [] then Inr dst else
     if max_data_size_bytes = 0 then decompress_zstd_internal Z dst src else
     case get_frame_content_size Z src of
       Some content_size \<Rightarrow>
         if content_size > max_data_size_bytes then Inl (Err (TooBigContent content_size))
         else decompress_zstd_internal Z dst src
     | None \<Rightarrow>
         (case stream_decode_limited Z (ceil_log2 max_data_size_bytes)
                 (unat (max_data_size_bytes + 1)) src of
            None \<Rightarrow> Inl (Err ZstdFailed)
          | Some out \<Rightarrow>
              if length out > unat max_data_size_bytes then Inl (Err TooBigData)
              else Inr (dst @ out)))"

definition decompress_zstd_limited ::
  "zstd_lib \<Rightarrow> bytes \<Rightarrow> bytes \<Rightarrow> u64 \<Rightarrow> (zstd_err, bytes) res" where
  "decompress_zstd_limited Z dst src max_data_size_bytes =
     decompress_zstd_limited_internal Z dst src max_data_size_bytes"

definition is_zstd :: "bytes \<Rightarrow> bool" where
  "is_zstd data \<longleftrightarrow> length data \<ge> 4 \<and> (from_le_bytes (take 4 data) :: u32) = 0xFD2FB528"

section \<open>Fills and checks of arrays\<close>

definition append_int64_zeros :: "i64 list \<Rightarrow> nat \<Rightarrow> i64 list" where
  "append_int64_zeros dst items = dst @ replicate items 0"

definition append_int64_ones :: "i64 list \<Rightarrow> nat \<Rightarrow> i64 list" where
  "append_int64_ones dst items = dst @ replicate items 1"

definition is_int64_zeros :: "i64 list \<Rightarrow> bool" where
  "is_int64_zeros a \<longleftrightarrow> list_all (\<lambda>x. x = 0) a"

definition is_int64_ones :: "i64 list \<Rightarrow> bool" where
  "is_int64_ones a \<longleftrightarrow> list_all (\<lambda>x. x = 1) a"

section \<open>Choice of the encoding\<close>

datatype MarshalType =
  ZstdNearestDelta2 | DeltaConst | Const | ZstdNearestDelta | NearestDelta2 | NearestDelta

definition needs_validation :: "MarshalType \<Rightarrow> bool" where
  "needs_validation mt \<longleftrightarrow> mt = NearestDelta2 \<or> mt = NearestDelta"

definition marshal_type_from_u8 :: "u8 \<Rightarrow> MarshalType option" where
  "marshal_type_from_u8 v =
    (if v = 1 then Some ZstdNearestDelta2
     else if v = 2 then Some DeltaConst
     else if v = 3 then Some Const
     else if v = 4 then Some ZstdNearestDelta
     else if v = 5 then Some NearestDelta2
     else if v = 6 then Some NearestDelta
     else None)"

fun marshal_type_as_u8 :: "MarshalType \<Rightarrow> u8" where
  "marshal_type_as_u8 ZstdNearestDelta2 = 1"
| "marshal_type_as_u8 DeltaConst = 2"
| "marshal_type_as_u8 Const = 3"
| "marshal_type_as_u8 ZstdNearestDelta = 4"
| "marshal_type_as_u8 NearestDelta2 = 5"
| "marshal_type_as_u8 NearestDelta = 6"

definition check_marshal_type :: "u8 \<Rightarrow> bool" where
  "check_marshal_type mt \<longleftrightarrow> \<not> mt > 6"

definition is_const :: "i64 list \<Rightarrow> bool" where
  "is_const a =
    (if a = [] then False
     else if is_int64_zeros a then True
     else if is_int64_ones a then True
     else let v1 = a ! 0 in list_all (\<lambda>v. v = v1) a)"

fun delta_const_loop :: "i64 \<Rightarrow> i64 \<Rightarrow> i64 list \<Rightarrow> bool" where
  "delta_const_loop d1 prev [] = True"
| "delta_const_loop d1 prev (nxt # rest) =
    (if nxt - prev \<noteq> d1 then False else delta_const_loop d1 nxt rest)"

definition is_delta_const :: "i64 list \<Rightarrow> bool" where
  "is_delta_const a =
    (if length a < 2 then False else delta_const_loop (a ! 1 - a ! 0) (a ! 1) (drop 2 a))"

text \<open>The loop of \<open>is_gauge\<close>: \<open>None\<close> is the early return of true, otherwise the count of resets.\<close>

fun gauge_loop :: "i64 \<Rightarrow> nat \<Rightarrow> i64 list \<Rightarrow> nat option" where
  "gauge_loop v_prev resets [] = Some resets"
| "gauge_loop v_prev resets (v # rest) =
    (if v <s v_prev then
       (if v <s 0 then None
        else if signed_drop_bit 3 v_prev <s v then None
        else gauge_loop v (resets + 1) rest)
     else gauge_loop v resets rest)"

definition is_gauge :: "i64 list \<Rightarrow> bool" where
  "is_gauge a =
    (if length a < 2 then False
     else if a ! 0 <s 0 then True
     else case gauge_loop (a ! 0) 0 (drop 1 a) of
       None \<Rightarrow> True
     | Some resets \<Rightarrow> if resets \<le> 2 then False else resets > drop_bit 3 (length a))"

definition get_compress_level :: "nat \<Rightarrow> int" where
  "get_compress_level items_count =
    (if items_count \<le> 2 ^ 6 then 1
     else if items_count \<le> 2 ^ 8 then 2
     else if items_count \<le> 2 ^ 10 then 3
     else if items_count \<le> 2 ^ 12 then 4
     else 5)"

text \<open>
  The comparison \<open>n as f64 > 0.9 * m as f64\<close>, exactly: an integer converts to the nearest number
  of 53 significant bits, ties to even; 0.9 is \<open>8106479329266893 * 2 ^ -53\<close> in binary64, and
  the product rounds the same way. Both sides are scaled by \<open>2 ^ 53\<close>.
\<close>

fun nat_bits :: "nat \<Rightarrow> nat" where
  "nat_bits n = (if n = 0 then 0 else Suc (nat_bits (n div 2)))"

declare nat_bits.simps [simp del]

definition f64_round53 :: "nat \<Rightarrow> nat" where
  "f64_round53 n =
    (let s = nat_bits n - 53; q = n div 2 ^ s; r = n mod 2 ^ s in
     if s = 0 then n
     else if 2 * r > 2 ^ s \<or> (2 * r = 2 ^ s \<and> odd q) then (q + 1) * 2 ^ s
     else q * 2 ^ s)"

definition exceeds_ninety_percent :: "nat \<Rightarrow> nat \<Rightarrow> bool" where
  "exceeds_ninety_percent n m \<longleftrightarrow>
     f64_round53 n * 2 ^ 53 > f64_round53 (8106479329266893 * f64_round53 m)"

definition MIN_COMPRESSIBLE_BLOCK_SIZE :: nat where
  "MIN_COMPRESSIBLE_BLOCK_SIZE = 128"

definition marshal_int64_array ::
  "zstd_lib \<Rightarrow> bytes \<Rightarrow> i64 list \<Rightarrow> nat \<Rightarrow> (bytes \<times> MarshalType \<times> i64) option" where
  "marshal_int64_array Z dst a precision_bits =
    (if a = [] then None
     else if is_const a then Some (dst, Const, a ! 0)
     else if is_delta_const a then
       Some (marshal_var_int64 dst (a ! 1 - a ! 0), DeltaConst, a ! 0)
     else
       case (if is_gauge a then
               map_option (\<lambda>(bb, first_value). (ZstdNearestDelta, bb, first_value))
                 (marshal_int64_nearest_delta [] a
                    (if precision_bits < 6 then precision_bits + 2 else precision_bits))
             else
               map_option (\<lambda>(bb, first_value). (ZstdNearestDelta2, bb, first_value))
                 (marshal_int64_nearest_delta2 [] a precision_bits)) of
         None \<Rightarrow> None
       | Some (mt, bb, first_value) \<Rightarrow>
         (case (if length bb \<ge> MIN_COMPRESSIBLE_BLOCK_SIZE
                then compress_zstd_level Z dst bb (get_compress_level (length a))
                else Some dst) of
            None \<Rightarrow> None
          | Some dst' \<Rightarrow>
            if length bb < MIN_COMPRESSIBLE_BLOCK_SIZE
               \<or> exceeds_ninety_percent (length dst' - length dst) (length bb)
            then Some (take (length dst) dst' @ bb,
                       (if mt = ZstdNearestDelta2 then NearestDelta2 else NearestDelta),
                       first_value)
            else Some (dst', mt, first_value)))"

datatype block_err =
    DecompressFailed zstd_err
  | DeltaFailed delta_err
  | ConstTail nat
  | BadDeltaConst
  | DeltaConstTail nat

fun delta_const_values :: "i64 \<Rightarrow> i64 \<Rightarrow> nat \<Rightarrow> i64 list" where
  "delta_const_values v d 0 = []"
| "delta_const_values v d (Suc n) = v # delta_const_values (v + d) d n"

definition unmarshal_int64_array ::
  "zstd_lib \<Rightarrow> i64 list \<Rightarrow> bytes \<Rightarrow> MarshalType \<Rightarrow> i64 \<Rightarrow> nat \<Rightarrow> (block_err, i64 list) res" where
  "unmarshal_int64_array Z dst src mt first_value items_count =
    (case mt of
       ZstdNearestDelta \<Rightarrow>
         rbind (map_err DecompressFailed (decompress_zstd Z [] src))
           (\<lambda>bb. map_err DeltaFailed (unmarshal_int64_nearest_delta dst bb first_value items_count))
     | ZstdNearestDelta2 \<Rightarrow>
         rbind (map_err DecompressFailed (decompress_zstd Z [] src))
           (\<lambda>bb. map_err DeltaFailed (unmarshal_int64_nearest_delta2 dst bb first_value items_count))
     | NearestDelta \<Rightarrow>
         map_err DeltaFailed (unmarshal_int64_nearest_delta dst src first_value items_count)
     | NearestDelta2 \<Rightarrow>
         map_err DeltaFailed (unmarshal_int64_nearest_delta2 dst src first_value items_count)
     | Const \<Rightarrow>
         if src \<noteq> [] then Inl (Err (ConstTail (length src)))
         else if first_value = 0 then Inr (append_int64_zeros dst items_count)
         else if first_value = 1 then Inr (append_int64_ones dst items_count)
         else Inr (dst @ replicate items_count first_value)
     | DeltaConst \<Rightarrow>
         rbind (ok_or BadDeltaConst (unmarshal_var_int64 src))
           (\<lambda>(d, n_len).
              if n_len < length src then Inl (Err (DeltaConstTail (length src - n_len)))
              else Inr (dst @ delta_const_values first_value d items_count)))"

definition marshal_timestamps ::
  "zstd_lib \<Rightarrow> bytes \<Rightarrow> i64 list \<Rightarrow> nat \<Rightarrow> (bytes \<times> MarshalType \<times> i64) option" where
  "marshal_timestamps Z dst timestamps precision_bits =
     marshal_int64_array Z dst timestamps precision_bits"

definition unmarshal_timestamps ::
  "zstd_lib \<Rightarrow> i64 list \<Rightarrow> bytes \<Rightarrow> MarshalType \<Rightarrow> i64 \<Rightarrow> nat \<Rightarrow> (block_err, i64 list) res" where
  "unmarshal_timestamps Z dst src mt first_timestamp items_count =
     unmarshal_int64_array Z dst src mt first_timestamp items_count"

definition marshal_values ::
  "zstd_lib \<Rightarrow> bytes \<Rightarrow> i64 list \<Rightarrow> nat \<Rightarrow> (bytes \<times> MarshalType \<times> i64) option" where
  "marshal_values Z dst values precision_bits = marshal_int64_array Z dst values precision_bits"

definition unmarshal_values ::
  "zstd_lib \<Rightarrow> i64 list \<Rightarrow> bytes \<Rightarrow> MarshalType \<Rightarrow> i64 \<Rightarrow> nat \<Rightarrow> (block_err, i64 list) res" where
  "unmarshal_values Z dst src mt first_value items_count =
     unmarshal_int64_array Z dst src mt first_value items_count"

section \<open>Repair of a sequence\<close>

fun raise_loop :: "i64 \<Rightarrow> i64 list \<Rightarrow> i64 list" where
  "raise_loop v_prev [] = []"
| "raise_loop v_prev (v # rest) =
    (let v = (if v <s v_prev then v_prev else v) in v # raise_loop v rest)"

function lower_loop :: "i64 list \<Rightarrow> nat \<Rightarrow> i64 \<Rightarrow> i64 list" where
  "lower_loop a i v_max =
    (if i > 0 \<and> v_max <s a ! (i - 1) then lower_loop (a[i - 1 := v_max]) (i - 1) v_max else a)"
  by pat_completeness auto
termination
  by (relation "measure (\<lambda>(a, i, v_max). i)") auto

declare lower_loop.simps [simp del]

definition ensure_non_decreasing_sequence :: "i64 list \<Rightarrow> i64 \<Rightarrow> i64 \<Rightarrow> i64 list option" where
  "ensure_non_decreasing_sequence a v_min v_max =
    (if \<not> v_min \<le>s v_max then None
     else if a = [] then Some a
     else
       let a = (if a ! 0 \<noteq> v_min then a[0 := v_min] else a);
           a = a ! 0 # raise_loop (a ! 0) (drop 1 a);
           i = length a - 1
       in if a ! i \<noteq> v_max then Some (lower_loop (a[i := v_max]) i v_max) else Some a)"

section \<open>What the properties speak about\<close>

definition keeps_precision :: "nat \<Rightarrow> i64 list \<Rightarrow> i64 list \<Rightarrow> bool" where
  "keeps_precision pb a ys \<longleftrightarrow>
     list_all2 (\<lambda>x y. within (abs_bits x - pb) (x - y)) a ys \<or>
     (\<exists>x y rest zs. a = x # y # rest \<and> ys = x # y # zs \<and> within2 pb y rest zs)"

definition non_decreasing :: "i64 list \<Rightarrow> bool" where
  "non_decreasing a \<longleftrightarrow> sorted (map sint a)"

definition lower_to :: "i64 \<Rightarrow> i64 \<Rightarrow> i64" where
  "lower_to v_max x = (if v_max <s x then v_max else x)"

text \<open>A stored format, one header byte and the data: an instance of the assumption on zstd.\<close>

definition stored_zstd :: zstd_lib where
  "stored_zstd = \<lparr>compress_bound = (\<lambda>n. n + 1),
     compress_to_buffer = (\<lambda>level b cap. if length b + 1 \<le> cap then Some (0x28 # b) else None),
     get_frame_content_size = (\<lambda>c. Some (of_nat (length c - 1))),
     decompress_to_buffer = (\<lambda>c cap. if length c - 1 \<le> cap then Some (tl c) else None),
     stream_decode = (\<lambda>c. Some (tl c)),
     stream_decode_limited = (\<lambda>w n c. Some (take n (tl c)))\<rparr>"

section \<open>Compression is transparent\<close>

lemma compress_decompress:
  assumes "zstd_ok Z" "length b < 2 ^ 64"
  obtains c where "compress_zstd_level Z dst b level = Some (dst @ c)"
    "decompress_zstd Z out c = Inr (out @ b)"
proof -
  obtain c where "compress_to_buffer Z level b (compress_bound Z (length b)) = Some c" "c \<noteq> []"
    "get_frame_content_size Z c = Some (of_nat (length b))"
    "decompress_to_buffer Z c (length b) = Some b"
    using assms unfolding zstd_ok_def by blast
  moreover have "unat (of_nat (length b) :: u64) = length b"
    using assms(2) by (simp add: unat_of_nat)
  ultimately show ?thesis
    by (intro that [of c])
       (simp_all add: compress_zstd_level_def decompress_zstd_def decompress_zstd_internal_def)
qed

lemma decompress_limited_ok:
  assumes "decompress_zstd_limited Z dst src limit = Inr out" "limit \<noteq> 0"
    "\<And>c n b. decompress_to_buffer Z c n = Some b \<Longrightarrow> length b \<le> n"
  shows "\<exists>b. out = dst @ b \<and> length b \<le> unat limit"
proof (cases "src = []")
  case True
  with assms(1) show ?thesis
    by (simp add: decompress_zstd_limited_def decompress_zstd_limited_internal_def)
next
  case False
  show ?thesis
  proof (cases "get_frame_content_size Z src")
    case None
    with assms(1,2) False show ?thesis
      by (auto simp: decompress_zstd_limited_def decompress_zstd_limited_internal_def
          split: option.splits if_splits)
  next
    case (Some n)
    with assms(1,2) False obtain b where "decompress_to_buffer Z src (unat n) = Some b"
      "out = dst @ b" "n \<le> limit"
      by (auto simp: decompress_zstd_limited_def decompress_zstd_limited_internal_def
          decompress_zstd_internal_def split: option.splits if_splits)
    with assms(3) [of src "unat n" b] show ?thesis by (auto simp: word_le_nat_alt)
  qed
qed

section \<open>Constant arrays\<close>

lemma is_const_replicate: "is_const a \<longleftrightarrow> a \<noteq> [] \<and> a = replicate (length a) (hd a)"
proof (cases a)
  case (Cons x xs)
  have "is_const a \<longleftrightarrow> list_all (\<lambda>v. v = x) xs"
    by (auto simp: Cons is_const_def is_int64_zeros_def is_int64_ones_def list_all_iff)
  also have "\<dots> \<longleftrightarrow> xs = replicate (length xs) x"
    by (auto simp: list_all_iff intro: replicate_eqI) (metis in_set_replicate)
  finally show ?thesis by (simp add: Cons)
qed (simp add: is_const_def)

lemma delta_const_loop_values:
  "delta_const_loop d prev xs \<Longrightarrow> delta_const_values (prev + d) d (length xs) = xs"
proof (induction xs arbitrary: prev)
  case (Cons x xs)
  then have "prev + d = x" by (auto simp: algebra_simps split: if_splits)
  with Cons show ?case by (auto split: if_splits)
qed simp

lemma is_delta_const_values:
  assumes "is_delta_const a"
  shows "delta_const_values (hd a) (a ! 1 - a ! 0) (length a) = a"
proof -
  obtain x y xs where a: "a = x # y # xs"
    using assms by (cases a; cases "tl a") (auto simp: is_delta_const_def)
  with assms delta_const_loop_values [of "y - x" y xs] show ?thesis by (simp add: is_delta_const_def)
qed

lemma three_items:
  assumes "a \<noteq> []" "\<not> is_const a" "\<not> is_delta_const a"
  obtains x y rest where "a = x # y # rest"
proof (cases a)
  case (Cons x xs)
  with assms(2) have "xs \<noteq> []" by (auto simp: is_const_replicate)
  then show ?thesis using that Cons by (cases xs) auto
qed (use assms in simp)

section \<open>Precision of a block\<close>

lemma within_mono: "within k e \<Longrightarrow> k \<le> l \<Longrightarrow> within l e"
  unfolding within_def by (meson less_le_trans one_le_numeral power_increasing)

lemma keeps_precision_refl [simp]: "keeps_precision pb a a"
  by (simp add: keeps_precision_def list_all2_same)

lemma keeps_precision_64: "keeps_precision 64 a ys \<longleftrightarrow> ys = a"
  by (auto simp: keeps_precision_def within_64 within2_64)

lemma within2_length: "within2 pb p xs ys \<Longrightarrow> length ys = length xs"
  by (induction pb p xs ys rule: within2.induct) (auto split: list.splits)

lemma keeps_precision_length: "keeps_precision pb a ys \<Longrightarrow> length ys = length a"
  by (auto simp: keeps_precision_def dest: list_all2_lengthD within2_length)

text \<open>The plain encodings chosen for a block that is neither constant nor linear.\<close>

lemma gauge_bytes:
  assumes "a \<noteq> []" "check_precision_bits pb"
    "pb' = (if pb < 6 then pb + 2 else pb)"
  obtains m ys where "marshal_int64_nearest_delta [] a pb' = Some (m, hd a)"
    "\<And>out. unmarshal_int64_nearest_delta out m (hd a) (length a) = Inr (out @ ys)"
    "keeps_precision pb a ys"
proof -
  define ys where "ys = hd a # sum_loop (hd a) (delta_loop pb' (hd a) (get_trailing_zeros (hd a) pb') (tl a))"
  have pb: "check_precision_bits pb'" "pb \<le> pb'" "1 \<le> pb'"
    using assms(2,3) by (auto simp: check_precision_bits_def)
  have dec: "\<exists>m. marshal_int64_nearest_delta [] a pb' = Some (m, hd a)
      \<and> unmarshal_int64_nearest_delta out m (hd a) (length a) = Inr (out @ ys)" for out
    using marshal_nearest_delta_decode [OF assms(1) pb(1), of "[]" out] unfolding ys_def by force
  then obtain m where m: "marshal_int64_nearest_delta [] a pb' = Some (m, hd a)" by blast
  moreover have "unmarshal_int64_nearest_delta out m (hd a) (length a) = Inr (out @ ys)" for out
    using dec [of out] m by auto
  moreover have "list_all2 (\<lambda>x y. within (abs_bits x - pb') (x - y)) (hd a # tl a) ys"
    using delta_loop_within [OF pb(3), of "tl a"] by (simp add: ys_def)
  then have "list_all2 (\<lambda>x y. within (abs_bits x - pb) (x - y)) a ys"
    using assms(1) pb(2) by (auto elim!: list_all2_mono within_mono)
  ultimately show ?thesis using that by (auto simp: keeps_precision_def)
qed

lemma counter_bytes:
  assumes "a = x # y # rest" "check_precision_bits pb"
  obtains m ys where "marshal_int64_nearest_delta2 [] a pb = Some (m, hd a)"
    "\<And>out. unmarshal_int64_nearest_delta2 out m (hd a) (length a) = Inr (out @ ys)"
    "keeps_precision pb a ys"
proof -
  define zs where "zs = sum2_loop y (y - x) (delta2_loop pb y (y - x) (get_trailing_zeros y pb) rest)"
  have dec: "\<exists>m. marshal_int64_nearest_delta2 [] a pb = Some (m, x)
      \<and> unmarshal_int64_nearest_delta2 out m x (length a) = Inr (out @ x # y # zs)" for out
    using marshal_nearest_delta2_decode [OF assms(1,2), of "[]" out] unfolding zs_def by force
  then obtain m where m: "marshal_int64_nearest_delta2 [] a pb = Some (m, x)" by blast
  moreover have "unmarshal_int64_nearest_delta2 out m x (length a) = Inr (out @ x # y # zs)" for out
    using dec [of out] m by auto
  moreover have "within2 pb y rest zs"
    using assms(2) unfolding zs_def by (intro delta2_loop_within) (simp add: check_precision_bits_def)
  ultimately show ?thesis using that [of m "x # y # zs"] assms(1) by (auto simp: keeps_precision_def)
qed


lemma leb128_size: "length (leb128 u) \<le> 10"
  using leb128_fits [of u] by (auto simp: varint_fits_def)

lemma marshal_int64s_size: "length (marshal_var_int64s dst vs) \<le> length dst + 10 * length vs"
  unfolding marshal_int64s_eq
proof (induction vs)
  case (Cons v vs)
  with leb128_size [of "zigzag_encode v"] show ?case by simp
qed simp

lemma marshal_var_int64_size: "length (marshal_var_int64 dst v) \<le> length dst + 10"
  using leb128_size [of "zigzag_encode v"] by (simp add: marshal_var_int64_eq)

lemma nearest_delta_size:
  "marshal_int64_nearest_delta [] a pb = Some (m, v) \<Longrightarrow> length m \<le> 10 * length a"
  "marshal_int64_nearest_delta2 [] a pb = Some (m, v) \<Longrightarrow> length m \<le> 10 * length a"
proof -
  have fast: "length (delta_loop_fast v xs) = length xs" "length (delta2_loop_fast v d xs) = length xs"
    for v d xs by (metis delta_loop_64 delta_loop_length, metis delta2_loop_64 delta2_loop_length)
  show "marshal_int64_nearest_delta [] a pb = Some (m, v) \<Longrightarrow> length m \<le> 10 * length a"
    using marshal_int64s_size [of "[]"]
    by (auto simp: marshal_int64_nearest_delta_def Let_def fast split: if_splits intro!: le_trans [OF marshal_int64s_size])
  assume a: "marshal_int64_nearest_delta2 [] a pb = Some (m, v)"
  then obtain ds where m: "m = marshal_var_int64s (marshal_var_int64 [] (a ! 1 - a ! 0)) ds"
    and ds: "length ds = length a - 2" "2 \<le> length a"
    by (auto simp: marshal_int64_nearest_delta2_def Let_def fast split: if_splits)
  with marshal_int64s_size [of "marshal_var_int64 [] (a ! 1 - a ! 0)" ds]
    marshal_var_int64_size [of "[]" "a ! 1 - a ! 0"]
  show "length m \<le> 10 * length a" by simp
qed

lemma pack_bytes:
  assumes "zstd_ok Z" "length bb < 2 ^ 64" "mt = ZstdNearestDelta \<or> mt = ZstdNearestDelta2"
  obtains m mt' where
    "(case (if length bb \<ge> MIN_COMPRESSIBLE_BLOCK_SIZE then compress_zstd_level Z dst bb level else Some dst) of
            None \<Rightarrow> None
          | Some dst' \<Rightarrow>
            if length bb < MIN_COMPRESSIBLE_BLOCK_SIZE
               \<or> exceeds_ninety_percent (length dst' - length dst) (length bb)
            then Some (take (length dst) dst' @ bb,
                       (if mt = ZstdNearestDelta2 then NearestDelta2 else NearestDelta), first_value)
            else Some (dst', mt, first_value)) = Some (dst @ m, mt', first_value)"
    "\<And>out v n. unmarshal_int64_array Z out m mt' v n = map_err DeltaFailed
       ((if mt = ZstdNearestDelta2 then unmarshal_int64_nearest_delta2
         else unmarshal_int64_nearest_delta) out bb v n)"
proof -
  obtain c where c: "compress_zstd_level Z dst bb level = Some (dst @ c)"
    "\<And>out. decompress_zstd Z out c = Inr (out @ bb)"
    using compress_decompress [OF assms(1,2)] by (metis append_same_eq option.inject same_append_eq)
  show ?thesis
  proof (cases "length bb < MIN_COMPRESSIBLE_BLOCK_SIZE \<or> exceeds_ninety_percent (length c) (length bb)")
    case True
    with assms(3) c show ?thesis
      by (intro that [of bb "if mt = ZstdNearestDelta2 then NearestDelta2 else NearestDelta"])
         (auto simp: unmarshal_int64_array_def)
  next
    case False
    with assms(3) c show ?thesis
      by (intro that [of c mt]) (auto simp: unmarshal_int64_array_def)
  qed
qed

lemma block_roundtrip:
  assumes "zstd_ok Z" "a \<noteq> []" "length a < 2 ^ 60" "check_precision_bits pb"
  shows "\<exists>m mt ys. marshal_int64_array Z dst a pb = Some (dst @ m, mt, hd a)
    \<and> unmarshal_int64_array Z out m mt (hd a) (length a) = Inr (out @ ys)
    \<and> keeps_precision pb a ys"
proof -
  have hd: "a ! 0 = hd a" using assms(2) by (simp add: hd_conv_nth)
  consider (const) "is_const a" | (delta) "\<not> is_const a" "is_delta_const a"
    | (gauge) "\<not> is_const a" "\<not> is_delta_const a" "is_gauge a"
    | (counter) "\<not> is_const a" "\<not> is_delta_const a" "\<not> is_gauge a" by blast
  then show ?thesis
  proof cases
    case const
    then have "unmarshal_int64_array Z out [] Const (hd a) (length a) = Inr (out @ a)"
      by (auto simp: is_const_replicate unmarshal_int64_array_def append_int64_zeros_def append_int64_ones_def)
    with const assms(2) show ?thesis
      by (intro exI [of _ "[]"] exI [of _ Const] exI [of _ a]) (simp add: marshal_int64_array_def hd)
  next
    case delta
    define m where "m = marshal_var_int64 [] (a ! 1 - a ! 0)"
    have "unmarshal_var_int64 m = Some (a ! 1 - a ! 0, length m)"
      using var_int64_roundtrip [of "a ! 1 - a ! 0" "[]"] by (simp add: m_def)
    then have "unmarshal_int64_array Z out m DeltaConst (hd a) (length a) = Inr (out @ a)"
      using is_delta_const_values [OF delta(2)] by (simp add: unmarshal_int64_array_def)
    moreover have "marshal_var_int64 dst (a ! 1 - a ! 0) = dst @ m"
      by (simp add: m_def marshal_var_int64_eq)
    ultimately show ?thesis using delta assms(2)
      by (intro exI [of _ m] exI [of _ DeltaConst] exI [of _ a]) (simp add: marshal_int64_array_def hd)
  next
    case gauge
    obtain bb ys where bb: "marshal_int64_nearest_delta [] a (if pb < 6 then pb + 2 else pb) = Some (bb, hd a)"
      "\<And>out. unmarshal_int64_nearest_delta out bb (hd a) (length a) = Inr (out @ ys)"
      "keeps_precision pb a ys"
      by (rule gauge_bytes [OF assms(2,4) refl]) blast
    have "length bb < 2 ^ 64" using nearest_delta_size(1) [OF bb(1)] assms(3) by simp
    then obtain m mt where "marshal_int64_array Z dst a pb = Some (dst @ m, mt, hd a)"
      "\<And>out v n. unmarshal_int64_array Z out m mt v n
         = map_err DeltaFailed (unmarshal_int64_nearest_delta out bb v n)"
      using gauge assms(2) bb(1)
        pack_bytes [OF assms(1), where bb = bb and mt = ZstdNearestDelta and dst = dst
          and level = "get_compress_level (length a)" and first_value = "hd a"]
      by (simp add: marshal_int64_array_def) blast
    with bb(2,3) show ?thesis by (metis map_err_simps(3))
  next
    case counter
    then obtain x y rest where a: "a = x # y # rest" using assms(2) by (rule_tac three_items [of a])
    obtain bb ys where bb: "marshal_int64_nearest_delta2 [] a pb = Some (bb, hd a)"
      "\<And>out. unmarshal_int64_nearest_delta2 out bb (hd a) (length a) = Inr (out @ ys)"
      "keeps_precision pb a ys"
      by (rule counter_bytes [OF a assms(4)]) blast
    have "length bb < 2 ^ 64" using nearest_delta_size(2) [OF bb(1)] assms(3) by simp
    then obtain m mt where "marshal_int64_array Z dst a pb = Some (dst @ m, mt, hd a)"
      "\<And>out v n. unmarshal_int64_array Z out m mt v n
         = map_err DeltaFailed (unmarshal_int64_nearest_delta2 out bb v n)"
      using counter assms(2) bb(1)
        pack_bytes [OF assms(1), where bb = bb and mt = ZstdNearestDelta2 and dst = dst
          and level = "get_compress_level (length a)" and first_value = "hd a"]
      by (simp add: marshal_int64_array_def) blast
    with bb(2,3) show ?thesis by (metis map_err_simps(3))
  qed
qed

section \<open>Repair of a sequence\<close>

lemmas signed_less = word_sless_alt word_sle_eq

lemma raise_loop_non_decreasing: "non_decreasing (v # raise_loop v xs)"
  by (induction v xs rule: raise_loop.induct)
     (fastforce simp: non_decreasing_def Let_def signed_less not_less)+

lemma raise_loop_id: "non_decreasing (v # xs) \<Longrightarrow> raise_loop v xs = xs"
  by (induction v xs rule: raise_loop.induct)
     (auto simp: non_decreasing_def Let_def signed_less)

lemma length_raise_loop [simp]: "length (raise_loop v xs) = length xs"
  by (induction v xs rule: raise_loop.induct) (simp_all add: Let_def)

lemma lower_loop_eq:
  "non_decreasing xs \<Longrightarrow> lower_loop (xs @ ys) (length xs) v_max = map (lower_to v_max) xs @ ys"
proof (induction xs arbitrary: ys rule: rev_induct)
  case Nil
  then show ?case by (simp add: lower_loop.simps)
next
  case (snoc x xs)
  then have sorted: "non_decreasing xs" "\<forall>y \<in> set xs. sint y \<le> sint x"
    by (auto simp: non_decreasing_def sorted_append)
  show ?case
  proof (cases "v_max <s x")
    case True
    with snoc.IH [OF sorted(1), of "v_max # ys"] show ?thesis
      by (simp add: lower_loop.simps [of "xs @ x # ys"] lower_to_def list_update_append)
  next
    case False
    then have "map (lower_to v_max) xs = xs" "lower_to v_max x = x"
      using sorted(2) by (auto intro!: map_idI simp: lower_to_def signed_less)
    with False show ?thesis by (simp add: lower_loop.simps [of "xs @ x # ys"])
  qed
qed

lemma lower_to_mono: "non_decreasing xs \<Longrightarrow> non_decreasing (map (lower_to v_max) xs)"
  unfolding non_decreasing_def by (induction xs) (auto simp: lower_to_def signed_less)

lemma lower_to_bounds: "sint (lower_to v_max x) \<le> sint v_max"
  by (simp add: lower_to_def signed_less)

lemma ensure_eq:
  assumes "v_min \<le>s v_max" "a \<noteq> []"
  defines "b \<equiv> v_min # raise_loop v_min (tl a)"
  shows "ensure_non_decreasing_sequence a v_min v_max
    = Some (if last b = v_max then b else map (lower_to v_max) (butlast b) @ [v_max])"
proof -
  have step: "(if a ! 0 \<noteq> v_min then a[0 := v_min] else a) = v_min # tl a"
    using assms(2) by (cases a) auto
  have b: "b \<noteq> []" "b = butlast b @ [last b]" "length b - 1 = length (butlast b)"
    by (simp_all only: length_butlast append_butlast_last_id b_def list.distinct not_False_eq_True)
  have "b[length b - 1 := v_max] = butlast b @ [v_max]"
    using b(1) by (metis b(2,3) list_update_length)
  moreover have "non_decreasing (butlast b)"
    using raise_loop_non_decreasing [of v_min "tl a"] b(2) sorted_append
    unfolding b_def [symmetric] non_decreasing_def by (metis map_append)
  ultimately show ?thesis
    using assms(1,2) b lower_loop_eq [of "butlast b" "[v_max]" v_max]
    unfolding ensure_non_decreasing_sequence_def Let_def step
    by (simp add: b_def [symmetric] last_conv_nth)
qed

lemma sorted_snoc_bound: "non_decreasing (xs @ [x]) \<longleftrightarrow> non_decreasing xs \<and> (\<forall>y \<in> set xs. sint y \<le> sint x)"
  by (auto simp: non_decreasing_def sorted_append)

lemma ensure_props:
  assumes "v_min \<le>s v_max" "a \<noteq> []"
  obtains c where "ensure_non_decreasing_sequence a v_min v_max = Some c"
    "length c = length a" "last c = v_max" "non_decreasing c"
    "2 \<le> length a \<Longrightarrow> hd c = v_min"
    "non_decreasing a \<Longrightarrow> hd a = v_min \<Longrightarrow> last a = v_max \<Longrightarrow> c = a"
proof -
  define b where "b = v_min # raise_loop v_min (tl a)"
  define c where "c = (if last b = v_max then b else map (lower_to v_max) (butlast b) @ [v_max])"
  have nd: "non_decreasing b" unfolding b_def by (rule raise_loop_non_decreasing)
  have b: "b = butlast b @ [last b]" by (simp add: b_def)
  have "ensure_non_decreasing_sequence a v_min v_max = Some c"
    using ensure_eq [OF assms] by (simp add: b_def c_def)
  moreover have "length b = length a" using assms(2) by (simp add: b_def Suc_diff_Suc)
  then have "length c = length a" using assms(2) by (simp add: c_def)
  moreover have "last c = v_max" by (simp add: c_def)
  moreover have "non_decreasing (map (lower_to v_max) (butlast b) @ [v_max])"
    using nd b lower_to_mono [of "butlast b" v_max] sorted_snoc_bound [of "butlast b" "last b"]
    by (auto simp: sorted_snoc_bound lower_to_bounds)
  then have "non_decreasing c" using nd by (simp add: c_def)
  moreover have "hd c = v_min" if "2 \<le> length a"
  proof -
    have "length (raise_loop v_min (tl a)) \<noteq> 0" using that by simp
    then obtain y ys where "raise_loop v_min (tl a) = y # ys"
      by (cases "raise_loop v_min (tl a)") simp_all
    then show ?thesis using assms(1) by (auto simp: c_def b_def lower_to_def signed_less)
  qed
  moreover have "c = a" if "non_decreasing a" "hd a = v_min" "last a = v_max"
  proof -
    have "b = a" using that assms(2) raise_loop_id [of v_min "tl a"] by (cases a) (auto simp: b_def)
    with that(3) show ?thesis by (simp add: c_def)
  qed
  ultimately show ?thesis using that by blast
qed

section \<open>Properties\<close>

text \<open>
  C18: A block of values decodes to what was encoded, whichever encoding was chosen and whether or
  not compression paid off. For every non-empty array and valid precision, encoding succeeds,
  decoding what it appended succeeds and yields the same number of values within the promised
  precision; with 64 bits of precision they are the original values. The zstd library is assumed
  to invert its own compression.
\<close>

theorem marshal_int64_array_roundtrip:
  assumes "zstd_ok Z" "a \<noteq> []" "length a < 2 ^ 60" "check_precision_bits pb"
  shows "\<exists>m mt ys. marshal_int64_array Z dst a pb = Some (dst @ m, mt, hd a)
    \<and> unmarshal_int64_array Z out m mt (hd a) (length a) = Inr (out @ ys)
    \<and> length ys = length a \<and> keeps_precision pb a ys \<and> (pb = 64 \<longrightarrow> ys = a)"
  using block_roundtrip [OF assms, of dst out] keeps_precision_length keeps_precision_64 by blast

lemma stored_zstd_ok: "zstd_ok stored_zstd"
  by (simp add: zstd_ok_def stored_zstd_def)

theorem marshal_int64_array_roundtrip_witness:
  "\<exists>m mt ys. marshal_int64_array stored_zstd [] [5, 1, 9, 9] 64 = Some ([] @ m, mt, 5)
    \<and> unmarshal_int64_array stored_zstd [] m mt 5 4 = Inr ([] @ ys) \<and> ys = [5, 1, 9, 9]"
proof -
  have "length [5, 1, 9, 9 :: i64] = 4" "check_precision_bits 64" "length [5, 1, 9, 9 :: i64] < 2 ^ 60"
    by (simp_all add: check_precision_bits_def)
  then show ?thesis
    using marshal_int64_array_roundtrip [OF stored_zstd_ok, of "[5, 1, 9, 9]" 64 "[]" "[]"]
    by (metis list.distinct(1) list.sel(1))
qed

text \<open>
  \<open>ensure_non_decreasing_sequence\<close> makes a non-empty array non-decreasing with the last item
  \<open>v_max\<close> and, from two items on, the first item \<open>v_min\<close>; it keeps the length, and it changes
  nothing in an array that already is so. It panics only when \<open>v_max\<close> is below \<open>v_min\<close>.
\<close>

theorem ensure_non_decreasing_sequence_correct:
  assumes "v_min \<le>s v_max" "a \<noteq> []"
  shows "\<exists>c. ensure_non_decreasing_sequence a v_min v_max = Some c
    \<and> length c = length a \<and> non_decreasing c \<and> last c = v_max
    \<and> (2 \<le> length a \<longrightarrow> hd c = v_min)
    \<and> (non_decreasing a \<and> hd a = v_min \<and> last a = v_max \<longrightarrow> c = a)"
  using ensure_props [OF assms] by metis

theorem ensure_non_decreasing_sequence_witness:
  "\<exists>c. ensure_non_decreasing_sequence [4, 9, 2, 7] 3 6 = Some c
    \<and> length c = 4 \<and> non_decreasing c \<and> last c = 6 \<and> hd c = 3"
  using ensure_non_decreasing_sequence_correct [of 3 6 "[4, 9, 2, 7]"]
  by (auto simp: signed_less eval_nat_numeral)

text \<open>
  Limited decompression never hands out more data than the limit: when it succeeds, what it
  appended has at most \<open>max_data_size_bytes\<close> bytes. The library is assumed to write no more than
  the capacity of the buffer it is given.
\<close>

theorem decompress_zstd_limited_bound:
  assumes "decompress_zstd_limited Z dst src limit = Inr out" "limit \<noteq> 0"
    "\<And>c n b. decompress_to_buffer Z c n = Some b \<Longrightarrow> length b \<le> n"
  shows "\<exists>b. out = dst @ b \<and> length b \<le> unat limit"
  using assms by (rule decompress_limited_ok)

theorem decompress_zstd_limited_witness:
  "\<exists>b. ([7, 1, 2] :: bytes) = [7] @ b \<and> length b \<le> unat (5 :: u64)"
  by (rule decompress_zstd_limited_bound [of stored_zstd "[7]" "[0x28, 1, 2]" 5])
     (auto simp: decompress_zstd_limited_def decompress_zstd_limited_internal_def
       decompress_zstd_internal_def stored_zstd_def split: if_splits)

end
