(* ===== verification/Set_Contract.thy ===== *)
theory Set_Contract
  imports Esm_Prelude
begin

text \<open>
  What the three levels of the set of \<open>u64\<close> promise to the level above. A representation of finite
  sets has an invariant, an abstraction to the set it stands for, and operations that add, delete
  and look up one item. At the lower levels adding and deleting also report whether the set
  changed, which is what the counters of the upper levels are built from.

  Bulk operations are loops over these; their effect is proved here once.
\<close>

text \<open>The counting loop of the bulk insertions.\<close>

fun add_all :: "('s \<Rightarrow> 'x \<Rightarrow> 's \<times> bool) \<Rightarrow> 's \<Rightarrow> nat \<Rightarrow> 'x list \<Rightarrow> 's \<times> nat" where
  "add_all add s n [] = (s, n)"
| "add_all add s n (x # xs) =
    (case add s x of (s, ok) \<Rightarrow> add_all add s (if ok then n + 1 else n) xs)"

locale set_rep =
  fixes invar :: "'s \<Rightarrow> bool"
    and elems :: "'s \<Rightarrow> 'x set"
    and add :: "'s \<Rightarrow> 'x \<Rightarrow> 's"
    and del :: "'s \<Rightarrow> 'x \<Rightarrow> 's"
    and has :: "'s \<Rightarrow> 'x \<Rightarrow> bool"
  assumes invar_add: "invar s \<Longrightarrow> invar (add s x)"
    and elems_add: "invar s \<Longrightarrow> elems (add s x) = insert x (elems s)"
    and invar_del: "invar s \<Longrightarrow> invar (del s x)"
    and elems_del: "invar s \<Longrightarrow> elems (del s x) = elems s - {x}"
    and has_iff: "invar s \<Longrightarrow> has s x \<longleftrightarrow> x \<in> elems s"
    and finite_elems: "invar s \<Longrightarrow> finite (elems s)"
begin

lemma foldl_add:
  "invar s \<Longrightarrow> invar (foldl add s xs) \<and> elems (foldl add s xs) = elems s \<union> set xs"
  by (induction xs arbitrary: s) (auto simp: invar_add elems_add)

lemma foldl_del:
  "invar s \<Longrightarrow> invar (foldl del s xs) \<and> elems (foldl del s xs) = elems s - set xs"
  by (induction xs arbitrary: s) (auto simp: invar_del elems_del)

lemma foldl_del_missing:
  "invar s \<Longrightarrow>
   invar (foldl (\<lambda>s x. if \<not> P x then del s x else s) s xs) \<and>
   elems (foldl (\<lambda>s x. if \<not> P x then del s x else s) s xs) = {x \<in> elems s. x \<in> set xs \<longrightarrow> P x}"
  by (induction xs arbitrary: s) (auto simp: invar_del elems_del)

lemma has_after:
  "invar s \<Longrightarrow> has (add s x) y \<longleftrightarrow> y = x \<or> has s y"
  "invar s \<Longrightarrow> has (del s x) y \<longleftrightarrow> y \<noteq> x \<and> has s y"
  by (auto simp: has_iff invar_add invar_del elems_add elems_del)

end

locale set_rep_flags =
  set_rep invar elems "\<lambda>s x. fst (addf s x)" "\<lambda>s x. fst (delf s x)" has
  for invar :: "'s \<Rightarrow> bool"
    and elems :: "'s \<Rightarrow> 'x set"
    and addf :: "'s \<Rightarrow> 'x \<Rightarrow> 's \<times> bool"
    and delf :: "'s \<Rightarrow> 'x \<Rightarrow> 's \<times> bool"
    and has :: "'s \<Rightarrow> 'x \<Rightarrow> bool" +
  assumes add_flag: "invar s \<Longrightarrow> snd (addf s x) \<longleftrightarrow> x \<notin> elems s"
    and del_flag: "invar s \<Longrightarrow> snd (delf s x) \<longleftrightarrow> x \<in> elems s"
begin

lemma card_add:
  "invar s \<Longrightarrow> card (elems (fst (addf s x))) = card (elems s) + (if snd (addf s x) then 1 else 0)"
  by (simp add: elems_add add_flag finite_elems card_insert_if)

lemma card_del:
  "invar s \<Longrightarrow> card (elems (fst (delf s x))) = card (elems s) - (if snd (delf s x) then 1 else 0)"
  by (simp add: elems_del del_flag finite_elems card_Diff_singleton)

lemma add_all_correct:
  assumes "invar s" "add_all addf s n xs = (s', n')"
  shows "invar s' \<and> elems s' = elems s \<union> set xs \<and> n' + card (elems s) = n + card (elems s')"
  using assms
proof (induction xs arbitrary: s n)
  case (Cons x xs)
  obtain t ok where t: "addf s x = (t, ok)" by fastforce
  with Cons.prems have i: "invar t" "elems t = insert x (elems s)" "ok \<longleftrightarrow> x \<notin> elems s"
    "card (elems t) = card (elems s) + (if ok then 1 else 0)"
    using invar_add [of s x] elems_add [of s x] add_flag [of s x] card_add [of s x] by simp_all
  from Cons.prems t have "add_all addf t (if ok then n + 1 else n) xs = (s', n')" by simp
  from Cons.IH [OF i(1) this] i show ?case by auto
qed simp

end

end
