(* ===== verification/Bucket16.thy ===== *)
theory Bucket16
  imports Set_Contract
begin

text \<open>
  The lowest level of the set of \<open>u64\<close> in \<open>crates/esm-common/src/uint64set.rs\<close>: a
  \<open>Bucket16\<close> holds 16-bit values, up to 56 of them in an unsorted pool, more in a bitmap of 1024
  words. The abstraction \<open>b16_set\<close> reads the values of either form.

  The source's \<open>add\<close>, \<open>add_to_small_pool\<close> and \<open>switch_small_pool_to_bits\<close> call each other; the
  call made after the switch always takes the bitmap branch, which is \<open>bits_add\<close> here.
\<close>

section \<open>The representation\<close>

definition WORDS_PER_BUCKET :: nat where "WORDS_PER_BUCKET = 1024"

definition SMALL_POOL_SIZE :: nat where "SMALL_POOL_SIZE = 56"

record bucket16 =
  bits :: "u64 list option"
  small_pool :: "u16 list"
  small_pool_len :: nat

definition bucket16_default :: bucket16 where
  "bucket16_default =
     \<lparr>bits = None, small_pool = replicate SMALL_POOL_SIZE 0, small_pool_len = 0\<rparr>"

definition get_word_num_bit_mask :: "u16 \<Rightarrow> nat \<times> u64" where
  "get_word_num_bit_mask x = (unat (x div 64), push_bit (unat (x AND 63)) 1)"

section \<open>Operations\<close>

definition bucket16_is_zero :: "bucket16 \<Rightarrow> bool" where
  "bucket16_is_zero b \<longleftrightarrow> bits b = None \<and> small_pool_len b = 0"

definition bucket16_get_len :: "bucket16 \<Rightarrow> nat" where
  "bucket16_get_len b =
    (case bits b of
       None \<Rightarrow> small_pool_len b
     | Some ws \<Rightarrow> foldl (\<lambda>n x. if x > 0 then n + count_ones x else n) 0 ws)"

definition has_in_small_pool :: "bucket16 \<Rightarrow> u16 \<Rightarrow> bool" where
  "has_in_small_pool b x \<longleftrightarrow> x \<in> set (take (small_pool_len b) (small_pool b))"

definition bits_add :: "u64 list \<Rightarrow> u16 \<Rightarrow> u64 list \<times> bool" where
  "bits_add ws x =
    (let (word_num, bit_mask) = get_word_num_bit_mask x;
         ok = (ws ! word_num AND bit_mask = 0)
     in (if ok then ws[word_num := ws ! word_num OR bit_mask] else ws, ok))"

definition switch_small_pool_to_bits :: "bucket16 \<Rightarrow> bucket16" where
  "switch_small_pool_to_bits b =
     b\<lparr>small_pool_len := 0,
       bits := Some (foldl (\<lambda>ws v. fst (bits_add ws v)) (replicate WORDS_PER_BUCKET 0)
                      (take (small_pool_len b) (small_pool b)))\<rparr>"

definition add_to_small_pool :: "bucket16 \<Rightarrow> u16 \<Rightarrow> bucket16 \<times> bool" where
  "add_to_small_pool b x =
    (if has_in_small_pool b x then (b, False)
     else if small_pool_len b < SMALL_POOL_SIZE then
       (b\<lparr>small_pool := (small_pool b)[small_pool_len b := x],
          small_pool_len := small_pool_len b + 1\<rparr>, True)
     else
       let b = switch_small_pool_to_bits b
       in (b\<lparr>bits := map_option (\<lambda>ws. fst (bits_add ws x)) (bits b)\<rparr>, True))"

definition bucket16_add :: "bucket16 \<Rightarrow> u16 \<Rightarrow> bucket16 \<times> bool" where
  "bucket16_add b x =
    (case bits b of
       None \<Rightarrow> add_to_small_pool b x
     | Some ws \<Rightarrow> (case bits_add ws x of (ws, ok) \<Rightarrow> (b\<lparr>bits := Some ws\<rparr>, ok)))"

fun pool_add_multi :: "bucket16 \<Rightarrow> nat \<Rightarrow> u64 list \<Rightarrow> bucket16 \<times> nat" where
  "pool_add_multi b count [] = (b, count)"
| "pool_add_multi b count (x # a) =
    (case add_to_small_pool b (ucast x) of
       (b, ok) \<Rightarrow> pool_add_multi b (if ok then count + 1 else count) a)"

fun bits_add_multi :: "u64 list \<Rightarrow> nat \<Rightarrow> u64 list \<Rightarrow> u64 list \<times> nat" where
  "bits_add_multi ws count [] = (ws, count)"
| "bits_add_multi ws count (x # a) =
    (case bits_add ws (ucast x) of
       (ws, ok) \<Rightarrow> bits_add_multi ws (if ok then count + 1 else count) a)"

definition bucket16_add_multi :: "bucket16 \<Rightarrow> u64 list \<Rightarrow> bucket16 \<times> nat" where
  "bucket16_add_multi b a =
    (if bits b = None \<and> small_pool_len b + length a \<le> SMALL_POOL_SIZE then pool_add_multi b 0 a
     else
       let b = (if bits b = None then switch_small_pool_to_bits b else b)
       in case bits b of
            None \<Rightarrow> (b, 0)
          | Some ws \<Rightarrow> (case bits_add_multi ws 0 a of (ws, n) \<Rightarrow> (b\<lparr>bits := Some ws\<rparr>, n)))"

definition bits_has :: "u64 list \<Rightarrow> u16 \<Rightarrow> bool" where
  "bits_has ws x =
    (case get_word_num_bit_mask x of (word_num, bit_mask) \<Rightarrow> ws ! word_num AND bit_mask \<noteq> 0)"

definition bucket16_has :: "bucket16 \<Rightarrow> u16 \<Rightarrow> bool" where
  "bucket16_has b x =
    (case bits b of
       None \<Rightarrow> has_in_small_pool b x
     | Some ws \<Rightarrow> bits_has ws x)"

text \<open>\<open>iter().position(..)\<close>: the index of the first match.\<close>

definition position :: "('a \<Rightarrow> bool) \<Rightarrow> 'a list \<Rightarrow> nat option" where
  "position P xs = (let i = length (takeWhile (\<lambda>x. \<not> P x) xs) in if i < length xs then Some i else None)"

definition del_from_small_pool :: "bucket16 \<Rightarrow> u16 \<Rightarrow> bucket16 \<times> bool" where
  "del_from_small_pool b x =
    (let n = small_pool_len b; p = small_pool b in
     case position (\<lambda>v. v = x) (take n p) of
       Some i \<Rightarrow>
         (b\<lparr>small_pool := take i p @ subslice p (i + 1) n @ drop (n - 1) p,
            small_pool_len := n - 1\<rparr>, True)
     | None \<Rightarrow> (b, False))"

definition bits_del :: "u64 list \<Rightarrow> u16 \<Rightarrow> u64 list \<times> bool" where
  "bits_del ws x =
    (let (word_num, bit_mask) = get_word_num_bit_mask x;
         ok = (ws ! word_num AND bit_mask \<noteq> 0)
     in (ws[word_num := ws ! word_num AND NOT bit_mask], ok))"

definition bucket16_del :: "bucket16 \<Rightarrow> u16 \<Rightarrow> bucket16 \<times> bool" where
  "bucket16_del b x =
    (case bits b of
       None \<Rightarrow> del_from_small_pool b x
     | Some ws \<Rightarrow> (case bits_del ws x of (ws, ok) \<Rightarrow> (b\<lparr>bits := Some ws\<rparr>, ok)))"

text \<open>The loop over the set bits of one word.\<close>

function word_bits :: "u64 \<Rightarrow> nat list" where
  "word_bits word =
    (let tzn = trailing_zeros word in
     if tzn \<ge> 64 then [] else tzn # word_bits (word AND NOT (push_bit tzn 1)))"
  by pat_completeness auto
termination
proof (relation "measure (\<lambda>w. card {n. bit w n})")
  fix word :: u64 and tzn
  assume tzn: "tzn = trailing_zeros word" "\<not> tzn \<ge> 64"
  then have "bit word tzn" using trailing_zeros_nonzero(2) [of word] by auto
  then have "{n. bit (word AND NOT (push_bit tzn 1)) n} \<subset> {n. bit word n}"
    by (auto simp: bit_simps)
  moreover have "finite {n. bit word n}"
    by (rule finite_subset [of _ "{..<64}"]) (auto dest: bit_imp_le_length)
  ultimately show "(word AND NOT (push_bit tzn 1), word) \<in> measure (\<lambda>w. card {n. bit w n})"
    by (simp add: psubset_card_mono)
qed simp

declare word_bits.simps [simp del]

fun bits_append_to :: "u64 \<Rightarrow> nat \<Rightarrow> u64 list \<Rightarrow> u64 list" where
  "bits_append_to hi64 word_num [] = []"
| "bits_append_to hi64 word_num (w # ws) =
    (if w = 0 then bits_append_to hi64 (word_num + 1) ws
     else
       let x64 = hi64 OR of_nat word_num * 64
       in map (\<lambda>tzn. x64 OR of_nat tzn) (word_bits w) @ bits_append_to hi64 (word_num + 1) ws)"

definition bucket16_append_to :: "bucket16 \<Rightarrow> u64 list \<Rightarrow> u32 \<Rightarrow> u16 \<Rightarrow> u64 list" where
  "bucket16_append_to b dst hi hi16 =
    (let hi64 = push_bit 32 (ucast hi) OR push_bit 16 (ucast hi16) in
     case bits b of
       None \<Rightarrow>
         (let a = take (small_pool_len b) (small_pool b);
              a = (if length a > 1 \<and> \<not> sorted a then sort a else a)
          in dst @ map (\<lambda>v. hi64 OR ucast v) a)
     | Some ws \<Rightarrow> dst @ bits_append_to hi64 0 ws)"

definition bucket16_union :: "bucket16 \<Rightarrow> bucket16 \<Rightarrow> bucket16" where
  "bucket16_union b a =
    (case (bits a, bits b) of
       (Some ab, Some bb) \<Rightarrow> b\<lparr>bits := Some (map2 (\<lambda>bx ax. bx OR ax) bb ab)\<rparr>
     | _ \<Rightarrow> foldl (\<lambda>b x. fst (bucket16_add b (ucast x))) b (bucket16_append_to a [] 0 0))"

definition bucket16_intersect :: "bucket16 \<Rightarrow> bucket16 \<Rightarrow> bucket16" where
  "bucket16_intersect b a =
    (case (bits a, bits b) of
       (Some ab, Some bb) \<Rightarrow> b\<lparr>bits := Some (map2 (\<lambda>bx ax. bx AND ax) bb ab)\<rparr>
     | _ \<Rightarrow>
         foldl (\<lambda>b x. let x16 = ucast x in
                   if \<not> bucket16_has a x16 then fst (bucket16_del b x16) else b)
           b (bucket16_append_to b [] 0 0))"

section \<open>Abstraction and invariant\<close>

definition bits_set :: "u64 list \<Rightarrow> u16 set" where
  "bits_set ws = {x. bit (ws ! (unat x div 64)) (unat x mod 64)}"

definition b16_set :: "bucket16 \<Rightarrow> u16 set" where
  "b16_set b =
    (case bits b of
       None \<Rightarrow> set (take (small_pool_len b) (small_pool b))
     | Some ws \<Rightarrow> bits_set ws)"

definition b16_invar :: "bucket16 \<Rightarrow> bool" where
  "b16_invar b \<longleftrightarrow>
     length (small_pool b) = SMALL_POOL_SIZE \<and> small_pool_len b \<le> SMALL_POOL_SIZE \<and>
     distinct (take (small_pool_len b) (small_pool b)) \<and>
     (\<forall>ws. bits b = Some ws \<longrightarrow> length ws = WORDS_PER_BUCKET)"

text \<open>The 64-bit value of which \<open>v\<close> is the low part.\<close>

definition compose64 :: "u32 \<Rightarrow> u16 \<Rightarrow> u16 \<Rightarrow> u64" where
  "compose64 hi hi16 v = (push_bit 32 (ucast hi) OR push_bit 16 (ucast hi16)) OR ucast v"

section \<open>The bitmap\<close>

lemma word_num_bit_mask:
  "get_word_num_bit_mask x = (unat x div 64, push_bit (unat x mod 64) 1)"
proof -
  have "x AND 63 = take_bit 6 x"
    by (simp add: take_bit_eq_mask mask_eq_exp_minus_1)
  then have "unat (x AND 63) = unat x mod 64"
    by (simp add: take_bit_eq_mod unat_mod)
  then show ?thesis by (simp add: get_word_num_bit_mask_def unat_div)
qed

lemma word_num_less: "unat (x :: u16) div 64 < 1024"
  using unsigned_less [of x, where ?'a = nat] by (simp add: less_mult_imp_div_less)

lemma and_bit_mask [simp]: "w AND 2 ^ n = 0 \<longleftrightarrow> \<not> bit w n" for w :: u64
  using bit_iff_and_push_bit_not_eq_0 [of w n] by simp

lemma bit_index_eq: "unat x div 64 = unat y div 64 \<Longrightarrow> unat x mod 64 = unat y mod 64 \<Longrightarrow> x = (y :: u16)"
  by (metis div_mod_decomp word_unat_eq_iff)

lemma bits_has_iff: "bits_has ws x \<longleftrightarrow> x \<in> bits_set ws"
  by (simp add: bits_has_def word_num_bit_mask bits_set_def)

lemma bits_add_flag: "snd (bits_add ws x) \<longleftrightarrow> x \<notin> bits_set ws"
  by (simp add: bits_add_def word_num_bit_mask bits_set_def Let_def)

lemma bits_add_eq: "fst (bits_add ws x)
   = ws[unat x div 64 := ws ! (unat x div 64) OR push_bit (unat x mod 64) 1]"
proof (cases "snd (bits_add ws x)")
  case False
  then have "bit (ws ! (unat x div 64)) (unat x mod 64)"
    by (simp add: bits_add_flag bits_set_def)
  then have "ws ! (unat x div 64) OR push_bit (unat x mod 64) 1 = ws ! (unat x div 64)"
    by (intro bit_word_eqI) (auto simp: bit_simps)
  then show ?thesis by (simp add: bits_add_def word_num_bit_mask Let_def)
qed (simp add: bits_add_def word_num_bit_mask Let_def)

lemma bits_set_add:
  assumes "length ws = WORDS_PER_BUCKET"
  shows "bits_set (fst (bits_add ws x)) = insert x (bits_set ws)"
  using assms word_num_less [of x] bit_index_eq
  by (auto simp: bits_add_eq bits_set_def nth_list_update bit_simps WORDS_PER_BUCKET_def)

lemma bits_set_del:
  assumes "length ws = WORDS_PER_BUCKET"
  shows "bits_set (fst (bits_del ws x)) = bits_set ws - {x}"
  using assms word_num_less [of x] bit_index_eq
  by (auto simp: bits_del_def word_num_bit_mask bits_set_def nth_list_update bit_simps
      WORDS_PER_BUCKET_def Let_def)

lemma bits_del_flag: "snd (bits_del ws x) \<longleftrightarrow> x \<in> bits_set ws"
  by (simp add: bits_del_def word_num_bit_mask bits_set_def Let_def)

lemma length_bits_ops [simp]:
  "length (fst (bits_add ws x)) = length ws" "length (fst (bits_del ws x)) = length ws"
  by (simp_all add: bits_add_eq bits_del_def Let_def split: prod.splits)

interpretation bitmap: set_rep_flags
  "\<lambda>ws. length ws = WORDS_PER_BUCKET" bits_set bits_add bits_del bits_has
  by unfold_locales (simp_all add: bits_set_add bits_set_del bits_has_iff bits_add_flag bits_del_flag)

lemma bits_set_empty: "bits_set (replicate WORDS_PER_BUCKET 0) = {}"
  using word_num_less by (auto simp: bits_set_def WORDS_PER_BUCKET_def)

section \<open>Pool and bitmap together\<close>

lemma switch_set:
  assumes "b16_invar b" "bits b = None"
  shows "\<exists>ws. bits (switch_small_pool_to_bits b) = Some ws \<and> length ws = WORDS_PER_BUCKET
    \<and> bits_set ws = b16_set b"
    "small_pool (switch_small_pool_to_bits b) = small_pool b"
    "small_pool_len (switch_small_pool_to_bits b) = 0"
proof -
  define ws where "ws = foldl (\<lambda>ws v. fst (bits_add ws v)) (replicate WORDS_PER_BUCKET 0)
      (take (small_pool_len b) (small_pool b))"
  have "length ws = WORDS_PER_BUCKET" "bits_set ws = b16_set b"
    using bitmap.foldl_add [of "replicate WORDS_PER_BUCKET 0" "take (small_pool_len b) (small_pool b)"]
      assms(2) unfolding ws_def bits_set_empty b16_set_def by auto
  moreover have "bits (switch_small_pool_to_bits b) = Some ws"
    by (simp add: switch_small_pool_to_bits_def ws_def)
  ultimately show "\<exists>ws. bits (switch_small_pool_to_bits b) = Some ws \<and> length ws = WORDS_PER_BUCKET
    \<and> bits_set ws = b16_set b" by blast
  show "small_pool (switch_small_pool_to_bits b) = small_pool b"
    "small_pool_len (switch_small_pool_to_bits b) = 0"
    by (simp_all add: switch_small_pool_to_bits_def)
qed

lemma switch_invar:
  assumes "b16_invar b" "bits b = None"
  shows "b16_invar (switch_small_pool_to_bits b)" "b16_set (switch_small_pool_to_bits b) = b16_set b"
proof -
  obtain ws where ws: "bits (switch_small_pool_to_bits b) = Some ws" "length ws = WORDS_PER_BUCKET"
    "bits_set ws = b16_set b" using switch_set(1) [OF assms] by blast
  then show "b16_set (switch_small_pool_to_bits b) = b16_set b"
    unfolding b16_set_def [of "switch_small_pool_to_bits b"] by simp
  show "b16_invar (switch_small_pool_to_bits b)"
    using assms(1) ws switch_set(2,3) [OF assms] unfolding b16_invar_def by simp
qed

lemma pool_snoc:
  "n < length p \<Longrightarrow> take (Suc n) (p[n := x]) = take n p @ [x]"
  by (simp add: take_Suc_conv_app_nth)

lemma add_to_small_pool_correct:
  assumes "b16_invar b" "bits b = None"
  shows "b16_invar (fst (add_to_small_pool b x)) \<and>
    b16_set (fst (add_to_small_pool b x)) = insert x (b16_set b) \<and>
    (snd (add_to_small_pool b x) \<longleftrightarrow> x \<notin> b16_set b)"
proof -
  consider (old) "has_in_small_pool b x"
    | (room) "\<not> has_in_small_pool b x" "small_pool_len b < SMALL_POOL_SIZE"
    | (full) "\<not> has_in_small_pool b x" "\<not> small_pool_len b < SMALL_POOL_SIZE" by blast
  then show ?thesis
  proof cases
    case old
    with assms show ?thesis
      by (auto simp: add_to_small_pool_def has_in_small_pool_def b16_set_def)
  next
    case room
    with assms show ?thesis
      by (auto simp: add_to_small_pool_def has_in_small_pool_def b16_set_def b16_invar_def pool_snoc)
  next
    case full
    obtain ws where "bits (switch_small_pool_to_bits b) = Some ws" "length ws = WORDS_PER_BUCKET"
      "bits_set ws = b16_set b" using switch_set(1) [OF assms] by blast
    with full assms switch_invar(1) [OF assms] show ?thesis
      by (auto simp: add_to_small_pool_def Let_def has_in_small_pool_def b16_set_def b16_invar_def
          bits_set_add)
  qed
qed

lemma position_split:
  "position P xs = Some i \<Longrightarrow> \<exists>y. i < length xs \<and> xs ! i = y \<and> P y \<and> xs = take i xs @ y # drop (Suc i) xs"
proof -
  assume p: "position P xs = Some i"
  then have i: "i = length (takeWhile (\<lambda>x. \<not> P x) xs)" "i < length xs"
    by (auto simp: position_def Let_def split: if_splits)
  with nth_length_takeWhile [of "\<lambda>x. \<not> P x" xs] id_take_nth_drop [of i xs] show ?thesis by auto
qed

lemma takeWhile_full: "length xs \<le> length (takeWhile P xs) \<Longrightarrow> x \<in> set xs \<Longrightarrow> P x"
  by (metis le_antisym length_takeWhile_le set_takeWhileD takeWhile_eq_take take_all)

lemma position_none: "position P xs = None \<longleftrightarrow> (\<forall>x \<in> set xs. \<not> P x)"
proof
  assume "position P xs = None"
  then have "\<not> length (takeWhile (\<lambda>x. \<not> P x) xs) < length xs"
    by (auto simp: position_def Let_def split: if_splits)
  then show "\<forall>x \<in> set xs. \<not> P x" by (auto simp: not_less dest: takeWhile_full)
next
  assume "\<forall>x \<in> set xs. \<not> P x"
  then have "takeWhile (\<lambda>x. \<not> P x) xs = xs" by (simp add: takeWhile_eq_all_conv)
  then show "position P xs = None" by (simp only: position_def Let_def less_irrefl if_False)
qed

lemma del_from_small_pool_correct:
  assumes "b16_invar b" "bits b = None"
  shows "b16_invar (fst (del_from_small_pool b x)) \<and>
    b16_set (fst (del_from_small_pool b x)) = b16_set b - {x} \<and>
    (snd (del_from_small_pool b x) \<longleftrightarrow> x \<in> b16_set b)"
proof (cases "position (\<lambda>v. v = x) (take (small_pool_len b) (small_pool b))")
  case None
  then have "del_from_small_pool b x = (b, False)" by (simp add: del_from_small_pool_def Let_def)
  with None assms show ?thesis by (auto simp: position_none b16_set_def)
next
  case (Some i)
  define n where "n = small_pool_len b"
  define p where "p = small_pool b"
  have len: "length p = SMALL_POOL_SIZE" "n \<le> SMALL_POOL_SIZE" "distinct (take n p)"
    using assms(1) by (auto simp: b16_invar_def n_def p_def)
  from position_split [OF Some] have i: "i < n" "take n p = take i (take n p) @ x # drop (Suc i) (take n p)"
    by (auto simp: n_def p_def)
  define q where "q = take i (take n p) @ drop (Suc i) (take n p)"
  have q: "distinct q" "set q = set (take n p) - {x}"
  proof -
    have "distinct (take i (take n p) @ x # drop (Suc i) (take n p))" using len(3) i(2) by simp
    then show "distinct q" by (auto simp: q_def)
    have "set (take n p) = insert x (set q)" "x \<notin> set q"
      using \<open>distinct (take i (take n p) @ x # drop (Suc i) (take n p))\<close>
      by (subst i(2), auto simp: q_def)
    then show "set q = set (take n p) - {x}" by auto
  qed
  have sub: "subslice p (i + 1) n = drop (Suc i) (take n p)"
    by (simp add: subslice_def drop_take)
  have "take (n - 1) (take i p @ subslice p (i + 1) n @ drop (n - 1) p) = q"
    using i(1) len unfolding sub q_def by (cases n) (auto simp: min_def le_less_Suc_eq)
  moreover have "length (take i p @ subslice p (i + 1) n @ drop (n - 1) p) = SMALL_POOL_SIZE"
    using i(1) len by simp
  moreover have "x \<in> set (take n p)" by (subst i(2)) simp
  moreover have "del_from_small_pool b x = (b\<lparr>small_pool := take i p @ subslice p (i + 1) n
      @ drop (n - 1) p, small_pool_len := n - 1\<rparr>, True)"
    using Some by (simp add: del_from_small_pool_def Let_def n_def p_def)
  ultimately show ?thesis
    using q len(2) assms by (simp add: b16_set_def b16_invar_def n_def p_def del: take_append)
qed

lemma b16_set_has: "bucket16_has b x \<longleftrightarrow> x \<in> b16_set b"
  by (simp add: bucket16_has_def b16_set_def has_in_small_pool_def bits_has_iff split: option.splits)

interpretation b16: set_rep_flags b16_invar b16_set bucket16_add bucket16_del bucket16_has
proof (unfold_locales, goal_cases)
  case (1 s x)
  then show ?case
    using add_to_small_pool_correct [of s x] length_bits_ops(1)
    by (cases "bits s") (auto simp: bucket16_add_def b16_invar_def split_beta)
next
  case (2 s x)
  then show ?case
    using add_to_small_pool_correct [of s x] bits_set_add
    by (cases "bits s") (auto simp: bucket16_add_def b16_invar_def b16_set_def split_beta)
next
  case (3 s x)
  then show ?case
    using del_from_small_pool_correct [of s x]
    by (cases "bits s") (auto simp: bucket16_del_def b16_invar_def split_beta)
next
  case (4 s x)
  then show ?case
    using del_from_small_pool_correct [of s x] bits_set_del
    by (cases "bits s") (auto simp: bucket16_del_def b16_invar_def b16_set_def split_beta)
next
  case (7 s x)
  then show ?case
    using add_to_small_pool_correct [of s x] bits_add_flag
    by (cases "bits s") (auto simp: bucket16_add_def b16_set_def split_beta)
next
  case (8 s x)
  then show ?case
    using del_from_small_pool_correct [of s x] bits_del_flag
    by (cases "bits s") (auto simp: bucket16_del_def b16_set_def split_beta)
qed (simp_all add: b16_set_has)


section \<open>Bulk insertion\<close>

lemma pool_add_multi_eq:
  assumes "bits b = None" "small_pool_len b + length a \<le> SMALL_POOL_SIZE"
  shows "pool_add_multi b n a = add_all bucket16_add b n (map ucast a)"
  using assms
proof (induction a arbitrary: b n)
  case (Cons x a)
  obtain c ok where c: "add_to_small_pool b (ucast x) = (c, ok)" by fastforce
  then have "bits c = None" "small_pool_len c \<le> small_pool_len b + 1"
    using Cons.prems by (auto simp: add_to_small_pool_def split: if_splits)
  with c Cons show ?case by (simp add: bucket16_add_def)
qed simp

lemma bits_add_multi_eq: "bits_add_multi ws n a = add_all bits_add ws n (map ucast a)"
  by (induction a arbitrary: ws n) (simp_all split: prod.splits)

lemma bucket16_add_multi_correct:
  assumes "b16_invar b" "bucket16_add_multi b a = (c, n)"
  shows "b16_invar c \<and> b16_set c = b16_set b \<union> ucast ` set a \<and> n + card (b16_set b) = card (b16_set c)"
proof (cases "bits b = None \<and> small_pool_len b + length a \<le> SMALL_POOL_SIZE")
  case True
  with assms(2) have "add_all bucket16_add b 0 (map ucast a) = (c, n)"
    by (simp add: bucket16_add_multi_def pool_add_multi_eq)
  from b16.add_all_correct [OF assms(1) this] show ?thesis by simp
next
  case False
  define d where "d = (if bits b = None then switch_small_pool_to_bits b else b)"
  obtain ws where ws: "bits d = Some ws" "length ws = WORDS_PER_BUCKET" "bits_set ws = b16_set b"
    using switch_set(1) [OF assms(1)] assms(1)
    by (cases "bits b") (auto simp: d_def b16_invar_def b16_set_def)
  have d: "b16_invar d" using switch_invar(1) [OF assms(1)] assms(1) by (simp add: d_def)
  obtain vs where vs: "add_all bits_add ws 0 (map ucast a) = (vs, n)" "c = d\<lparr>bits := Some vs\<rparr>"
    using assms(2) False ws
    by (auto simp: bucket16_add_multi_def d_def bits_add_multi_eq Let_def split: prod.splits if_splits)
  from bitmap.add_all_correct [OF ws(2) vs(1)] ws(3) d show ?thesis
    by (simp add: vs(2) b16_invar_def b16_set_def [of "d\<lparr>bits := Some vs\<rparr>"])
qed

section \<open>Reading the values\<close>

lemma word_bits_filter: "word_bits w = filter (bit w) [0..<64]"
proof (induction w rule: word_bits.induct)
  case (1 w)
  show ?case
  proof (cases "w = 0")
    case True
    then show ?thesis by (simp add: word_bits.simps)
  next
    case False
    define k where "k = trailing_zeros w"
    have k: "k < 64" "bit w k" "\<And>i. i < k \<Longrightarrow> \<not> bit w i"
      using trailing_zeros_nonzero [OF False] by (auto simp: k_def)
    have split: "[0..<64] = [0..<k] @ k # [Suc k..<64]"
      using k(1) upt_add_eq_append [of 0 k "64 - k"] by (simp add: upt_conv_Cons)
    have "filter (bit w) [0..<64] = k # filter (bit w) [Suc k..<64]"
      unfolding split using k(2,3) by (auto simp: filter_empty_conv)
    moreover have "filter (bit (w AND NOT (push_bit k 1))) [0..<64] = filter (bit w) [Suc k..<64]"
      unfolding split using k by (auto simp: filter_empty_conv bit_simps intro!: filter_cong)
    moreover have "word_bits (w AND NOT (push_bit k 1))
        = filter (bit (w AND NOT (push_bit k 1))) [0..<64]"
      using 1 k(1) False by (simp add: k_def)
    ultimately show ?thesis using k(1) False by (simp add: word_bits.simps [of w] k_def Let_def)
  qed
qed


lemma bit_small_nat: "k < 64 \<Longrightarrow> bit (of_nat k :: u64) n \<Longrightarrow> n < 6"
proof -
  assume k: "k < 64" "bit (of_nat k :: u64) n"
  have "take_bit 6 (of_nat k :: u64) = of_nat k"
    using k(1) by (simp add: take_bit_eq_mod word_unat_eq_iff unat_mod unat_of_nat)
  with k(2) have "bit (take_bit 6 (of_nat k :: u64)) n" by simp
  then show "n < 6" by (simp only: bit_take_bit_iff)
qed

lemma word_index: "k < 64 \<Longrightarrow> of_nat wn * 64 OR of_nat k = (of_nat (64 * wn + k) :: u64)"
proof -
  assume k: "k < 64"
  have eq: "of_nat wn * 64 = (push_bit 6 (of_nat wn) :: u64)"
    by (simp add: push_bit_eq_mult)
  have "push_bit 6 (of_nat wn) AND of_nat k = (0 :: u64)"
    by (intro bit_word_eqI) (auto simp: bit_and_iff bit_push_bit_iff dest: bit_small_nat [OF k])
  then have "push_bit 6 (of_nat wn) OR of_nat k = (push_bit 6 (of_nat wn) + of_nat k :: u64)"
    by (rule disjunctive_add_eq_or [symmetric])
  then show ?thesis unfolding eq by (simp add: push_bit_eq_mult mult.commute)
qed

lemma filter_upt_shift: "filter P [m..<m + n] = map (\<lambda>k. m + k) (filter (\<lambda>k. P (m + k)) [0..<n])"
  by (induction n) auto

lemma bits_append_to_eq:
  "bits_append_to hi64 wn ws = map (\<lambda>n. hi64 OR of_nat n)
     (filter (\<lambda>n. bit (ws ! (n div 64 - wn)) (n mod 64)) [64 * wn..<64 * wn + 64 * length ws])"
proof (induction ws arbitrary: wn)
  case (Cons w ws)
  have head: "filter (\<lambda>n. bit ((w # ws) ! (n div 64 - wn)) (n mod 64)) [64 * wn..<64 * wn + 64]
      = map (\<lambda>k. 64 * wn + k) (word_bits w)"
    unfolding filter_upt_shift word_bits_filter
    by (intro arg_cong [where f = "map _"] filter_cong) auto
  have tail: "filter (\<lambda>n. bit ((w # ws) ! (n div 64 - wn)) (n mod 64))
        [64 * wn + 64..<64 * wn + 64 + 64 * length ws]
      = filter (\<lambda>n. bit (ws ! (n div 64 - Suc wn)) (n mod 64))
        [64 * Suc wn..<64 * Suc wn + 64 * length ws]"
  proof (intro filter_cong)
    fix n assume "n \<in> set [64 * Suc wn..<64 * Suc wn + 64 * length ws]"
    then have "Suc wn \<le> n div 64" by (simp add: less_eq_div_iff_mult_less_eq)
    then show "bit ((w # ws) ! (n div 64 - wn)) (n mod 64)
        = bit (ws ! (n div 64 - Suc wn)) (n mod 64)"
      by (simp add: nth_Cons' )
  qed (simp add: add.commute)
  have upt: "[64 * wn..<64 * wn + 64 * length (w # ws)]
      = [64 * wn..<64 * wn + 64] @ [64 * wn + 64..<64 * wn + 64 + 64 * length ws]"
    using upt_add_eq_append [of "64 * wn" "64 * wn + 64" "64 * length ws"] by (simp add: add.assoc)
  have "map (\<lambda>tzn. (hi64 OR of_nat wn * 64) OR of_nat tzn) (word_bits w)
      = map (\<lambda>n. hi64 OR of_nat n) (map (\<lambda>k. 64 * wn + k) (word_bits w))"
    by (auto simp: word_bits_filter or.assoc word_index)
  moreover have "word_bits 0 = []" by (simp add: word_bits_filter)
  ultimately show ?case
    unfolding upt filter_append map_append head tail
    by (cases "w = 0") (simp_all add: Cons.IH Let_def)
qed simp

lemma ucast_of_nat_u16: "n < 65536 \<Longrightarrow> (ucast (of_nat n :: u16) :: u64) = of_nat n"
  by (simp add: word_unat_eq_iff unat_of_nat unsigned_ucast_eq take_bit_eq_mod)

lemma bits_append_to_sorted:
  assumes "length ws = WORDS_PER_BUCKET"
  shows "bits_append_to hi64 0 ws = map (\<lambda>v. hi64 OR ucast v) (sorted_list_of_set (bits_set ws))"
proof -
  define ns where "ns = filter (\<lambda>n. bit (ws ! (n div 64)) (n mod 64)) [0..<65536]"
  define vs where "vs = map (of_nat :: nat \<Rightarrow> u16) ns"
  have lt: "n < 65536" if "n \<in> set ns" for n using that by (simp add: ns_def)
  have "bits_append_to hi64 0 ws = map (\<lambda>n. hi64 OR of_nat n) ns"
    by (simp add: bits_append_to_eq assms WORDS_PER_BUCKET_def ns_def)
  also have "\<dots> = map (\<lambda>v. hi64 OR ucast v) vs"
    by (simp add: vs_def ucast_of_nat_u16 lt)
  also have "vs = sorted_list_of_set (bits_set ws)"
  proof (rule sorted_distinct_set_unique)
    have "sorted ns" by (simp add: ns_def sorted_wrt_filter)
    then show "sorted vs"
      using lt by (auto simp: vs_def sorted_iff_nth_mono word_le_nat_alt unat_of_nat)
    have "inj_on (of_nat :: nat \<Rightarrow> u16) (set ns)"
      using lt by (auto simp: inj_on_def word_unat_eq_iff unat_of_nat)
    then show "distinct vs" by (simp add: vs_def distinct_map ns_def)
    show "set vs = set (sorted_list_of_set (bits_set ws))"
    proof -
      have "of_nat n \<in> bits_set ws \<longleftrightarrow> n \<in> set ns" if "n < 65536" for n
        using that by (simp add: bits_set_def ns_def unat_of_nat)
      moreover have "x = of_nat (unat x) \<and> unat x < 65536" for x :: u16
        using unsigned_less [of x, where ?'a = nat] by simp
      ultimately have "x \<in> bits_set ws \<longleftrightarrow> unat x \<in> set ns" for x
        by (metis (no_types))
      moreover have "unat (of_nat n :: u16) = n" if "n \<in> set ns" for n
        using lt [OF that] by (simp add: unat_of_nat)
      ultimately have "set vs = bits_set ws"
        unfolding vs_def set_map by (force intro: image_eqI [of _ of_nat "unat _"])
      then show ?thesis by simp
    qed
  qed simp_all
  finally show ?thesis .
qed

lemma bucket16_append_to_eq:
  assumes "b16_invar b"
  shows "bucket16_append_to b dst hi hi16 = dst @ map (compose64 hi hi16) (sorted_list_of_set (b16_set b))"
proof (cases "bits b")
  case None
  define a where "a = take (small_pool_len b) (small_pool b)"
  have "distinct a" using assms by (simp add: a_def b16_invar_def)
  then have "sort a = sorted_list_of_set (set a)"
    by (simp add: sorted_list_of_set_sort_remdups distinct_remdups_id)
  moreover have "(if length a > 1 \<and> \<not> sorted a then sort a else a) = sort a"
    by (cases "sorted a") (auto simp: sorted_sort_id sorted01)
  moreover have "compose64 hi hi16
      = (\<lambda>v. (push_bit 32 (ucast hi) OR push_bit 16 (ucast hi16)) OR ucast v)"
    by (simp add: fun_eq_iff compose64_def)
  ultimately show ?thesis
    using None unfolding bucket16_append_to_def Let_def a_def [symmetric]
    by (simp add: b16_set_def a_def [symmetric])
next
  case (Some ws)
  with assms bits_append_to_sorted [of ws] show ?thesis
    by (simp add: bucket16_append_to_def b16_set_def b16_invar_def compose64_def Let_def)
qed


section \<open>Length, union and intersection\<close>

lemma length_bits_append_to:
  "length (bits_append_to h wn ws) = sum_list (map count_ones ws)"
  by (induction h wn ws rule: bits_append_to.induct)
     (auto simp: Let_def word_bits_filter count_ones_def)

lemma foldl_count_ones:
  "foldl (\<lambda>n x. if x > 0 then n + count_ones x else n) n ws = n + sum_list (map count_ones ws)"
proof (induction ws arbitrary: n)
  case (Cons w ws)
  have "count_ones w = 0" if "\<not> w > 0" using that by (simp add: count_ones_def word_gt_0)
  with Cons show ?case by simp
qed simp

lemma bucket16_get_len_card: "b16_invar b \<Longrightarrow> bucket16_get_len b = card (b16_set b)"
proof (cases "bits b")
  case None
  assume "b16_invar b"
  with None show ?thesis by (simp add: bucket16_get_len_def b16_set_def b16_invar_def distinct_card)
next
  case (Some ws)
  assume "b16_invar b"
  then have "length ws = WORDS_PER_BUCKET" using Some by (simp add: b16_invar_def)
  then have "sum_list (map count_ones ws) = card (bits_set ws)"
    using bits_append_to_sorted [of ws 0] length_bits_append_to [of 0 0 ws] by simp
  with Some show ?thesis by (simp add: bucket16_get_len_def b16_set_def foldl_count_ones)
qed

lemma ucast_compose64 [simp]: "ucast (compose64 hi hi16 v) = v"
  by (rule bit_word_eqI) (auto simp: compose64_def bit_simps)

lemma bits_set_map2:
  assumes "length bb = WORDS_PER_BUCKET" "length ab = WORDS_PER_BUCKET"
  shows "bits_set (map2 (\<lambda>bx ax. bx OR ax) bb ab) = bits_set bb \<union> bits_set ab"
    "bits_set (map2 (\<lambda>bx ax. bx AND ax) bb ab) = bits_set bb \<inter> bits_set ab"
  using assms word_num_less by (auto simp: bits_set_def bit_simps WORDS_PER_BUCKET_def)

lemma foldl_ucast_add:
  "foldl (\<lambda>b x. fst (bucket16_add b (ucast x))) b (map (compose64 hi hi16) vs)
   = foldl (\<lambda>b x. fst (bucket16_add b x)) b vs"
  by (simp add: foldl_map)

lemma bucket16_union_correct:
  assumes "b16_invar b" "b16_invar a"
  shows "b16_invar (bucket16_union b a) \<and> b16_set (bucket16_union b a) = b16_set b \<union> b16_set a"
proof (cases "\<exists>ab bb. bits a = Some ab \<and> bits b = Some bb")
  case True
  with assms show ?thesis
    by (auto simp: bucket16_union_def b16_invar_def b16_set_def bits_set_map2)
next
  case False
  then have "bucket16_union b a
      = foldl (\<lambda>b x. fst (bucket16_add b x)) b (sorted_list_of_set (b16_set a))"
    unfolding bucket16_union_def
    by (auto simp: bucket16_append_to_eq [OF assms(2)] foldl_ucast_add split: option.splits)
  with b16.foldl_add [OF assms(1)] b16.finite_elems [OF assms(2)] show ?thesis by simp
qed

lemma bucket16_intersect_correct:
  assumes "b16_invar b" "b16_invar a"
  shows "b16_invar (bucket16_intersect b a)
    \<and> b16_set (bucket16_intersect b a) = b16_set b \<inter> b16_set a"
proof (cases "\<exists>ab bb. bits a = Some ab \<and> bits b = Some bb")
  case True
  with assms show ?thesis
    by (auto simp: bucket16_intersect_def b16_invar_def b16_set_def bits_set_map2)
next
  case False
  then have "bucket16_intersect b a
      = foldl (\<lambda>b x. if \<not> bucket16_has a x then fst (bucket16_del b x) else b) b
          (sorted_list_of_set (b16_set b))"
    unfolding bucket16_intersect_def
    by (auto simp: bucket16_append_to_eq [OF assms(1)] foldl_map Let_def cong: if_cong
        split: option.splits)
  with b16.foldl_del_missing [OF assms(1), of "bucket16_has a" "sorted_list_of_set (b16_set b)"]
    b16.finite_elems [OF assms(1)]
  show ?thesis by (auto simp: b16_set_has)
qed

lemma bucket16_default_empty [simp]: "b16_invar bucket16_default" "b16_set bucket16_default = {}"
  by (simp_all add: b16_invar_def b16_set_def bucket16_default_def)

lemma bucket16_is_zero_empty: "bucket16_is_zero b \<Longrightarrow> b16_set b = {}"
  by (simp add: bucket16_is_zero_def b16_set_def)

end
