(* ===== verification/Keyed_List.thy ===== *)
theory Keyed_List
  imports Esm_Prelude
begin

text \<open>
  Lists of buckets with a key, each bucket standing for a set of items. Both upper levels of the
  set of \<open>u64\<close> in \<open>crates/esm-common/src/uint64set.rs\<close> keep such a list and run the same two-pointer
  loops over two of them; the loops are defined here once, over the key and the operation on two
  buckets of the same key.

  A list may hold several buckets of one key (the loop of \<open>Set::intersect\<close> resets buckets to the
  default, whose key is 0); then only the first of them may have items, which is \<open>firsts\<close>.
\<close>

section \<open>The loops\<close>

text \<open>
  The union loop walks the list \<open>xs\<close> of \<open>self\<close> with the index \<open>i\<close> and the list \<open>ys\<close> of the
  argument with \<open>j\<close>. It updates buckets of \<open>self\<close> in place and pushes copies of buckets of the
  argument at the end. The result is what becomes of \<open>self\<close> from \<open>i\<close> on, and what is pushed.
  Each equation is one turn of one of the source's inner loops.
\<close>

fun merge_union :: "('b \<Rightarrow> 'k::linorder) \<Rightarrow> ('b \<Rightarrow> 'b \<Rightarrow> 'b) \<Rightarrow> ('b \<Rightarrow> 'b) \<Rightarrow>
    'b list \<Rightarrow> 'b list \<Rightarrow> 'b list \<times> 'b list" where
  "merge_union key join copy [] ys = ([], map copy ys)"
| "merge_union key join copy (x # xs) [] = (x # xs, [])"
| "merge_union key join copy (x # xs) (y # ys) =
    (if key x < key y then
       (case merge_union key join copy xs (y # ys) of (xs, ps) \<Rightarrow> (x # xs, ps))
     else if key y < key x then
       (case merge_union key join copy (x # xs) ys of (xs, ps) \<Rightarrow> (xs, copy y # ps))
     else
       (case merge_union key join copy xs ys of (xs, ps) \<Rightarrow> (join x y # xs, ps)))"

text \<open>
  The intersection loop resets every bucket of \<open>self\<close> that has no partner.
\<close>

fun merge_intersect :: "('b \<Rightarrow> 'k::linorder) \<Rightarrow> ('b \<Rightarrow> 'b \<Rightarrow> 'b) \<Rightarrow> ('b \<Rightarrow> 'b) \<Rightarrow>
    'b list \<Rightarrow> 'b list \<Rightarrow> 'b list" where
  "merge_intersect key meet reset [] ys = []"
| "merge_intersect key meet reset (x # xs) [] = reset x # merge_intersect key meet reset xs []"
| "merge_intersect key meet reset (x # xs) (y # ys) =
    (if key x < key y then reset x # merge_intersect key meet reset xs (y # ys)
     else if key y < key x then merge_intersect key meet reset (x # xs) ys
     else meet x y # merge_intersect key meet reset xs ys)"

section \<open>The items of a list of buckets\<close>

definition items :: "('b \<Rightarrow> 'e set) \<Rightarrow> 'b list \<Rightarrow> 'e set" where
  "items el bs = (\<Union>b \<in> set bs. el b)"

fun firsts :: "('b \<Rightarrow> 'k) \<Rightarrow> ('b \<Rightarrow> 'e set) \<Rightarrow> 'b list \<Rightarrow> bool" where
  "firsts key el [] = True"
| "firsts key el (b # bs) \<longleftrightarrow> (\<forall>c \<in> set bs. key c = key b \<longrightarrow> el c = {}) \<and> firsts key el bs"

lemma items_simps [simp]:
  "items el [] = {}" "items el (b # bs) = el b \<union> items el bs"
  "items el (as @ bs) = items el as \<union> items el bs"
  by (auto simp: items_def)

lemma items_nth: "items el bs = (\<Union>m < length bs. el (bs ! m))"
  unfolding items_def set_conv_nth by auto

lemma items_update:
  assumes "n < length bs"
  shows "items el (bs[n := c]) = el c \<union> (\<Union>m \<in> {..<length bs} - {n}. el (bs ! m))"
proof -
  have "{..<length bs} = insert n ({..<length bs} - {n})" using assms by auto
  then have "(\<Union>m < length bs. el (bs[n := c] ! m))
      = el (bs[n := c] ! n) \<union> (\<Union>m \<in> {..<length bs} - {n}. el (bs[n := c] ! m))"
    by (metis UN_insert)
  also have "(\<Union>m \<in> {..<length bs} - {n}. el (bs[n := c] ! m)) = (\<Union>m \<in> {..<length bs} - {n}. el (bs ! m))"
    by (intro SUP_cong) auto
  finally show ?thesis using assms by (simp add: items_nth)
qed

lemma items_update_insert:
  assumes "n < length bs" "el c = el (bs ! n) \<union> A"
  shows "items el (bs[n := c]) = items el bs \<union> A"
  unfolding items_update [OF assms(1)] items_nth [of el bs] assms(2) using assms(1) by auto

lemma items_update_remove:
  assumes "n < length bs" "el c = el (bs ! n) - {x}"
    "\<And>m. m < length bs \<Longrightarrow> m \<noteq> n \<Longrightarrow> x \<notin> el (bs ! m)"
  shows "items el (bs[n := c]) = items el bs - {x}"
  unfolding items_update [OF assms(1)] items_nth [of el bs] assms(2) using assms(1,3) by auto

lemma items_mem: "x \<in> items el bs \<longleftrightarrow> (\<exists>m < length bs. x \<in> el (bs ! m))"
  by (auto simp: items_nth)

lemma firsts_distinct: "distinct (map key bs) \<Longrightarrow> firsts key el bs"
  by (induction bs) (auto simp: image_iff)

lemma firsts_append:
  "firsts key el (as @ bs) \<longleftrightarrow> firsts key el as \<and> firsts key el bs
     \<and> (\<forall>a \<in> set as. \<forall>b \<in> set bs. key b = key a \<longrightarrow> el b = {})"
  by (induction as) auto

lemma firsts_filter:
  "firsts key el bs \<longleftrightarrow> (\<forall>k. \<forall>c \<in> set (tl (filter (\<lambda>b. key b = k) bs)). el c = {})"
proof (induction bs)
  case (Cons b bs)
  define A where "A k \<longleftrightarrow> (\<forall>c \<in> set (tl (filter (\<lambda>b. key b = k) bs)). el c = {})" for k
  define Q where "Q \<longleftrightarrow> (\<forall>c \<in> set (filter (\<lambda>c. key c = key b) bs). el c = {})"
  have "(\<forall>k. \<forall>c \<in> set (tl (filter (\<lambda>b. key b = k) (b # bs))). el c = {})
      \<longleftrightarrow> Q \<and> (\<forall>k. key b \<noteq> k \<longrightarrow> A k)"
    by (auto simp: A_def Q_def split: if_splits)
  moreover have "A (key b)" if Q
    using that unfolding A_def Q_def by (cases "filter (\<lambda>c. key c = key b) bs") auto
  moreover have "Q \<longleftrightarrow> (\<forall>c \<in> set bs. key c = key b \<longrightarrow> el c = {})" by (auto simp: Q_def)
  moreover have "firsts key el bs \<longleftrightarrow> (\<forall>k. A k)" using Cons.IH by (simp only: A_def)
  ultimately show ?case unfolding firsts.simps by metis
qed simp

lemma firsts_sort_key: "firsts key el (sort_key key bs) \<longleftrightarrow> firsts key el bs"
  unfolding firsts_filter by (simp add: sort_key_stable)

lemma items_sort_key [simp]: "items el (sort_key key bs) = items el bs"
  by (simp add: items_def)

text \<open>
  In a list with \<open>firsts\<close>, the items of a key are those of the first bucket of that key.
\<close>

lemma firsts_first:
  assumes "firsts key el bs" "n < length bs" "\<And>m. m < n \<Longrightarrow> key (bs ! m) \<noteq> key (bs ! n)"
    "m < length bs" "m \<noteq> n" "key (bs ! m) = key (bs ! n)"
  shows "el (bs ! m) = {}"
  using assms
proof (induction bs arbitrary: n m)
  case (Cons b bs)
  show ?case
  proof (cases n)
    case 0
    with Cons.prems obtain k where "m = Suc k" by (cases m) auto
    with 0 Cons.prems show ?thesis by auto
  next
    case (Suc l)
    then have "m \<noteq> 0" using Cons.prems(3) [of 0] Cons.prems(6) by (auto intro: ccontr)
    then obtain k where k: "m = Suc k" by (cases m) auto
    have "key (bs ! i) \<noteq> key (bs ! l)" if "i < l" for i
      using Cons.prems(3) [of "Suc i"] Suc that by simp
    with Cons.IH [of l k] Cons.prems Suc k show ?thesis by simp
  qed
qed simp

section \<open>What the union loop gives\<close>

lemma two_lists_induct [case_names Nil1 Nil2 Cons]:
  assumes "\<And>ys. P [] ys" "\<And>x xs. P xs [] \<Longrightarrow> P (x # xs) []"
    "\<And>x xs y ys. P xs (y # ys) \<Longrightarrow> P (x # xs) ys \<Longrightarrow> P xs ys \<Longrightarrow> P (x # xs) (y # ys)"
  shows "P xs ys"
proof (induction "length xs + length ys" arbitrary: xs ys rule: less_induct)
  case less
  show ?case
    using less assms by (cases xs; cases ys) auto
qed

lemma merge_union_elem:
  "z \<in> set (fst (merge_union key join copy xs ys) @ snd (merge_union key join copy xs ys)) \<Longrightarrow>
   z \<in> set xs \<or> z \<in> copy ` set ys \<or>
     (\<exists>x \<in> set xs. \<exists>y \<in> set ys. key x = key y \<and> z = join x y)"
proof (induction xs ys rule: two_lists_induct)
  case (Cons x xs y ys)
  show ?case
  proof (cases "key x < key y \<or> key y < key x")
    case True
    with Cons show ?thesis by (auto simp: split_beta split: if_splits)
  next
    case False
    then have "key x = key y" by auto
    with Cons show ?thesis by (auto simp: split_beta split: if_splits)
  qed
qed auto

text \<open>Buckets of different keys have no item in common.\<close>

locale keyed =
  fixes key :: "'b \<Rightarrow> 'k::linorder"
    and el :: "'b \<Rightarrow> 'e set"
    and ok :: "'b \<Rightarrow> bool"
  assumes el_key: "z \<in> el x \<Longrightarrow> z \<in> el y \<Longrightarrow> key x = key y"
begin

lemma items_other_key:
  assumes "z \<in> el x" "\<And>y. y \<in> set ys \<Longrightarrow> key y = key x \<Longrightarrow> el y = {}"
  shows "z \<notin> items el ys"
proof
  assume "z \<in> items el ys"
  then obtain y where "y \<in> set ys" "z \<in> el y" by (auto simp: items_def)
  with assms(2) [of y] el_key [OF assms(1), of y] show False by auto
qed

end

locale joinable = keyed key el ok
  for key :: "'b \<Rightarrow> 'k::linorder" and el :: "'b \<Rightarrow> 'e set" and ok :: "'b \<Rightarrow> bool" +
  fixes join :: "'b \<Rightarrow> 'b \<Rightarrow> 'b"
    and copy :: "'b \<Rightarrow> 'b"
  assumes key_join: "key (join x y) = key x"
    and el_join: "ok x \<Longrightarrow> ok y \<Longrightarrow> key x = key y \<Longrightarrow> el (join x y) = el x \<union> el y"
    and ok_join: "ok x \<Longrightarrow> ok y \<Longrightarrow> key x = key y \<Longrightarrow> ok (join x y)"
    and key_copy: "key (copy x) = key x"
    and el_copy: "el (copy x) = el x"
    and ok_copy: "ok x \<Longrightarrow> ok (copy x)"
begin

lemma merge_union_ok:
  assumes "list_all ok xs" "list_all ok ys"
  shows "list_all ok (fst (merge_union key join copy xs ys) @ snd (merge_union key join copy xs ys))"
  using assms merge_union_elem [of _ key join copy xs ys] ok_join ok_copy
  unfolding list_all_iff by blast

lemma merge_union_keys: "map key (fst (merge_union key join copy xs ys)) = map key xs"
  by (induction xs ys rule: two_lists_induct) (auto simp: split_beta key_join)

lemma merge_union_pushed: "set (snd (merge_union key join copy xs ys)) \<subseteq> copy ` set ys"
  by (induction xs ys rule: two_lists_induct) (auto simp: split_beta)

lemma merge_union_items:
  assumes "list_all ok xs" "list_all ok ys"
  shows "items el (fst (merge_union key join copy xs ys)) \<union> items el (snd (merge_union key join copy xs ys))
    = items el xs \<union> items el ys"
  using assms
proof (induction xs ys rule: two_lists_induct)
  case (Nil1 ys)
  then show ?case by (simp add: items_def el_copy)
next
  case (Cons x xs y ys)
  consider "key x < key y" | "key y < key x" | "key x = key y" by (meson linorder_cases)
  then show ?case
  proof cases
    case 1
    with Cons show ?thesis by (auto simp: split_beta)
  next
    case 2
    then have "\<not> key x < key y" by auto
    with 2 Cons show ?thesis by (auto simp: split_beta el_copy)
  next
    case 3
    with Cons show ?thesis by (auto simp: split_beta el_join)
  qed
qed simp

text \<open>The relation of a bucket of the result to those it came from, for one key.\<close>

lemma merge_union_empty:
  assumes "z \<in> set (fst (merge_union key join copy xs ys) @ snd (merge_union key join copy xs ys))"
    "list_all ok xs" "list_all ok ys"
    "\<And>x. x \<in> set xs \<Longrightarrow> key x = key z \<Longrightarrow> el x = {}"
    "\<And>y. y \<in> set ys \<Longrightarrow> key y = key z \<Longrightarrow> el y = {}"
  shows "el z = {}"
proof -
  consider "z \<in> set xs" | y where "y \<in> set ys" "z = copy y"
    | x y where "x \<in> set xs" "y \<in> set ys" "key x = key y" "z = join x y"
    using merge_union_elem [OF assms(1)] by blast
  then show ?thesis
  proof cases
    case 2
    then show ?thesis using assms(5) [of y] by (simp add: key_copy el_copy)
  next
    case 3
    then have "key z = key x" by (simp add: key_join)
    then have "el x = {}" "el y = {}" using assms(4,5) 3 by auto
    then show ?thesis using 3 assms(2,3) el_join [of x y] by (auto simp: list_all_iff)
  qed (use assms(4) in simp)
qed

lemma merge_union_firsts:
  assumes "list_all ok xs" "list_all ok ys" "sorted (map key xs)" "sorted (map key ys)"
    "firsts key el xs" "firsts key el ys"
  shows "firsts key el (fst (merge_union key join copy xs ys) @ snd (merge_union key join copy xs ys))"
  using assms
proof (induction xs ys rule: two_lists_induct)
  case (Nil1 ys)
  then have "firsts key el (map copy ys)" by (induction ys) (auto simp: key_copy el_copy)
  then show ?case by simp
next
  case (Cons x xs y ys)
  consider (lt) "key x < key y" | (gt) "key y < key x" | (eq) "key x = key y" by (meson linorder_cases)
  then show ?case
  proof cases
    case lt
    define us ps where "us = fst (merge_union key join copy xs (y # ys))"
      and "ps = snd (merge_union key join copy xs (y # ys))"
    have "firsts key el (us @ ps)" using Cons unfolding us_def ps_def by simp
    moreover have "el z = {}" if "z \<in> set (us @ ps)" "key z = key x" for z
    proof (rule merge_union_empty [OF that(1) [unfolded us_def ps_def]])
      show "el w = {}" if "w \<in> set (y # ys)" "key w = key z" for w
        using that lt Cons.prems(4) \<open>key z = key x\<close> by fastforce
    qed (use Cons.prems that(2) in auto)
    ultimately show ?thesis using lt by (simp add: split_beta us_def ps_def)
  next
    case gt
    define us ps where "us = fst (merge_union key join copy (x # xs) ys)"
      and "ps = snd (merge_union key join copy (x # xs) ys)"
    have f: "firsts key el (us @ ps)" using Cons unfolding us_def ps_def by simp
    have "key u \<noteq> key y" if "u \<in> set us" for u
    proof -
      have "key u \<in> set (map key (x # xs))"
        using that merge_union_keys [of "x # xs" ys] unfolding us_def [symmetric]
        by (metis image_eqI list.set_map)
      with gt Cons.prems(3) show ?thesis by auto
    qed
    moreover have "el p = {}" if "p \<in> set ps" "key p = key y" for p
      using that merge_union_pushed [of "x # xs" ys] Cons.prems(6)
      unfolding ps_def [symmetric] by (auto simp: key_copy el_copy)
    ultimately have "firsts key el (us @ copy y # ps)"
      using f unfolding firsts_append firsts.simps by (fastforce simp: key_copy el_copy)
    moreover have "\<not> key x < key y" using gt by auto
    ultimately show ?thesis using gt by (simp add: split_beta us_def ps_def)
  next
    case eq
    define us ps where "us = fst (merge_union key join copy xs ys)"
      and "ps = snd (merge_union key join copy xs ys)"
    have "firsts key el (us @ ps)" using Cons unfolding us_def ps_def by simp
    moreover have "el z = {}" if "z \<in> set (us @ ps)" "key z = key x" for z
      by (rule merge_union_empty [OF that(1) [unfolded us_def ps_def]])
         (use Cons.prems that(2) eq in auto)
    ultimately show ?thesis using eq by (simp add: split_beta us_def ps_def key_join)
  qed
qed simp

lemma merge_union_pushed_keys:
  assumes "sorted (map key xs)" "sorted (map key ys)" "distinct (map key ys)"
  shows "distinct (map key (snd (merge_union key join copy xs ys)))
    \<and> (\<forall>p \<in> set (snd (merge_union key join copy xs ys)). \<forall>x \<in> set xs. key p \<noteq> key x)"
  using assms
proof (induction xs ys rule: two_lists_induct)
  case (Nil1 ys)
  then show ?case by (simp add: comp_def key_copy)
next
  case (Cons x xs y ys)
  consider (lt) "key x < key y" | (gt) "key y < key x" | (eq) "key x = key y" by (meson linorder_cases)
  then show ?case
  proof cases
    case lt
    have "key p \<noteq> key x" if "p \<in> set (snd (merge_union key join copy xs (y # ys)))" for p
      using that merge_union_pushed [of xs "y # ys"] lt Cons.prems(2) by (fastforce simp: key_copy)
    with lt Cons.IH(1) Cons.prems show ?thesis by (simp add: split_beta)
  next
    case gt
    then have n: "\<not> key x < key y" by auto
    have p: "key y \<noteq> key p" if "p \<in> set (snd (merge_union key join copy (x # xs) ys))" for p
      using that merge_union_pushed [of "x # xs" ys] Cons.prems(3) by (fastforce simp: key_copy)
    have "\<forall>z \<in> set (x # xs). key y \<noteq> key z" using gt Cons.prems(1) by auto
    with gt n p Cons.IH(2) Cons.prems show ?thesis by (auto simp: split_beta key_copy)
  next
    case eq
    have "key p \<noteq> key x" if pushed: "p \<in> set (snd (merge_union key join copy xs ys))" for p
    proof -
      obtain q where q: "q \<in> set ys" "p = copy q" using pushed merge_union_pushed [of xs ys] by blast
      then have "key q \<in> set (map key ys)" by simp
      moreover have "key y \<notin> set (map key ys)" using Cons.prems(3) by simp
      ultimately have "key q \<noteq> key y" by metis
      with q eq show ?thesis by (simp add: key_copy)
    qed
    with eq Cons.IH(3) Cons.prems show ?thesis by (simp add: split_beta)
  qed
qed simp

lemma merge_union_distinct:
  assumes "sorted (map key xs)" "sorted (map key ys)" "distinct (map key xs)" "distinct (map key ys)"
  shows "distinct (map key (fst (merge_union key join copy xs ys) @ snd (merge_union key join copy xs ys)))"
proof -
  have "set (map key (fst (merge_union key join copy xs ys))) = set (map key xs)"
    by (simp only: merge_union_keys)
  then show ?thesis
    using merge_union_pushed_keys [OF assms(1,2,4)] assms(3) merge_union_keys [of xs ys]
    unfolding map_append distinct_append by fastforce
qed

end

section \<open>What the intersection loop gives\<close>

locale meetable = keyed key el ok
  for key :: "'b \<Rightarrow> 'k::linorder" and el :: "'b \<Rightarrow> 'e set" and ok :: "'b \<Rightarrow> bool" +
  fixes meet :: "'b \<Rightarrow> 'b \<Rightarrow> 'b"
    and reset :: "'b \<Rightarrow> 'b"
  assumes key_meet: "key (meet x y) = key x"
    and el_meet: "ok x \<Longrightarrow> ok y \<Longrightarrow> key x = key y \<Longrightarrow> el (meet x y) = el x \<inter> el y"
    and ok_meet: "ok x \<Longrightarrow> ok y \<Longrightarrow> key x = key y \<Longrightarrow> ok (meet x y)"
    and key_reset: "key (reset x) \<le> key x"
    and el_reset: "el (reset x) = {}"
    and ok_reset: "ok (reset x)"
begin

lemma merge_intersect_elem:
  "z \<in> set (merge_intersect key meet reset xs ys) \<Longrightarrow>
   z \<in> reset ` set xs \<or> (\<exists>x \<in> set xs. \<exists>y \<in> set ys. key x = key y \<and> z = meet x y)"
proof (induction xs ys rule: two_lists_induct)
  case (Cons x xs y ys)
  show ?case
  proof (cases "key x < key y \<or> key y < key x")
    case True
    with Cons show ?thesis by (auto split: if_splits)
  next
    case False
    then have "key x = key y" by auto
    with Cons show ?thesis by auto
  qed
qed auto

lemma merge_intersect_ok:
  assumes "list_all ok xs" "list_all ok ys"
  shows "list_all ok (merge_intersect key meet reset xs ys)"
  using assms merge_intersect_elem [of _ xs ys] ok_meet ok_reset unfolding list_all_iff by blast

lemma merge_intersect_items:
  assumes "list_all ok xs" "list_all ok ys" "sorted (map key xs)" "sorted (map key ys)"
    "firsts key el xs" "firsts key el ys"
  shows "items el (merge_intersect key meet reset xs ys) = items el xs \<inter> items el ys"
  using assms
proof (induction xs ys rule: two_lists_induct)
  case (Nil2 x xs)
  then show ?case by (simp add: el_reset)
next
  case (Cons x xs y ys)
  consider (lt) "key x < key y" | (gt) "key y < key x" | (eq) "key x = key y" by (meson linorder_cases)
  then show ?case
  proof cases
    case lt
    have "z \<notin> items el (y # ys)" if "z \<in> el x" for z
      by (rule items_other_key [OF that]) (use lt Cons.prems(4) in fastforce)
    with lt Cons.IH(1) Cons.prems show ?thesis by (auto simp: el_reset)
  next
    case gt
    then have n: "\<not> key x < key y" by auto
    have "z \<notin> items el (x # xs)" if "z \<in> el y" for z
      by (rule items_other_key [OF that]) (use gt Cons.prems(3) in fastforce)
    with gt n Cons.IH(2) Cons.prems show ?thesis by auto
  next
    case eq
    have "z \<notin> items el ys" if "z \<in> el x" for z
      by (rule items_other_key [OF that]) (use eq Cons.prems(6) in auto)
    moreover have "z \<notin> items el xs" if "z \<in> el y" for z
      by (rule items_other_key [OF that]) (use eq Cons.prems(5) in auto)
    ultimately show ?thesis using eq Cons.IH(3) Cons.prems by (auto simp: el_meet)
  qed
qed simp

lemma merge_intersect_later_empty:
  assumes "z \<in> set (merge_intersect key meet reset xs ys)" "list_all ok xs" "list_all ok ys"
    "\<And>w. w \<in> set xs \<Longrightarrow> key w = key x \<Longrightarrow> el w = {}" "\<And>w. w \<in> set xs \<Longrightarrow> key x \<le> key w" "key z \<le> key x"
  shows "el z = {}"
proof -
  consider w where "z = reset w" | w y where "w \<in> set xs" "y \<in> set ys" "key w = key y" "z = meet w y"
    using merge_intersect_elem [OF assms(1)] by blast
  then show ?thesis
  proof cases
    case 2
    then have "key w = key x" using assms(5) [of w] assms(6) by (auto simp: key_meet)
    then show ?thesis using assms(2,3,4) 2 by (auto simp: list_all_iff el_meet)
  qed (simp add: el_reset)
qed

lemma merge_intersect_firsts:
  assumes "list_all ok xs" "list_all ok ys" "sorted (map key xs)" "firsts key el xs"
  shows "firsts key el (merge_intersect key meet reset xs ys)"
  using assms
proof (induction xs ys rule: two_lists_induct)
  case (Nil2 x xs)
  then show ?case
    using merge_intersect_later_empty [of _ xs "[]" x] key_reset [of x] by auto
next
  case (Cons x xs y ys)
  have later: "el z = {}" if "z \<in> set (merge_intersect key meet reset xs zs)" "key z \<le> key x" "list_all ok zs"
    for z zs
    by (rule merge_intersect_later_empty [OF that(1) _ that(3) _ _ that(2)]) (use Cons.prems in auto)
  consider (lt) "key x < key y" | (gt) "key y < key x" | (eq) "key x = key y" by (meson linorder_cases)
  then show ?case
  proof cases
    case lt
    with Cons.IH(1) Cons.prems later [of _ "y # ys"] key_reset [of x] show ?thesis by auto
  next
    case gt
    then have n: "\<not> key x < key y" by auto
    with gt Cons.IH(2) Cons.prems show ?thesis by simp
  next
    case eq
    with Cons.IH(3) Cons.prems later [of _ ys] show ?thesis by (auto simp: key_meet)
  qed
qed simp

end

end
