(* ===== verification/Bucket32.thy ===== *)
theory Bucket32
  imports Bucket16 Keyed_List
begin

text \<open>
  The middle level of the set of \<open>u64\<close> in \<open>crates/esm-common/src/uint64set.rs\<close>: a \<open>Bucket32\<close>
  holds 32-bit values in a list of \<open>Bucket16\<close> ordered by the high 16 bits, found by binary search,
  with the index of the last bucket used as a hint.

  A method that returns a reference to a bucket it found or made is modelled by the index of that
  bucket. The two parallel vectors \<open>b16his\<close> and \<open>buckets\<close> are kept as in the source; they have the
  same length in every state that satisfies the invariant, and the loops over both are loops over
  their \<open>zip\<close>.
\<close>

section \<open>Binary search\<close>

function binary_search_loop :: "u16 list \<Rightarrow> u16 \<Rightarrow> nat \<Rightarrow> nat \<Rightarrow> nat" where
  "binary_search_loop u16s x i j =
    (if i < j then
       (let h = drop_bit 1 (i + j) in
        if u16s ! h < x then binary_search_loop u16s x (h + 1) j
        else binary_search_loop u16s x i h)
     else i)"
  by pat_completeness auto
termination
  by (relation "measure (\<lambda>(u16s, x, i, j). j - i)") (auto simp: drop_bit_eq_div)

declare binary_search_loop.simps [simp del]

definition binary_search16 :: "u16 list \<Rightarrow> u16 \<Rightarrow> nat" where
  "binary_search16 u16s x =
    (let n = length u16s in
     if n > 0 \<and> u16s ! (n - 1) < x then n else binary_search_loop u16s x 0 n)"

section \<open>The representation\<close>

record bucket32 =
  b32_hi :: u32
  b32_hint :: u32
  b16his :: "u16 list"
  b32_buckets :: "bucket16 list"

definition bucket32_default :: bucket32 where
  "bucket32_default = \<lparr>b32_hi = 0, b32_hint = 0, b16his = [], b32_buckets = []\<rparr>"

definition bucket32_clone :: "bucket32 \<Rightarrow> bucket32" where
  "bucket32_clone b =
     \<lparr>b32_hi = b32_hi b, b32_hint = 0, b16his = b16his b, b32_buckets = b32_buckets b\<rparr>"

definition hi16 :: "u32 \<Rightarrow> u16" where
  "hi16 x = ucast (drop_bit 16 x)"

definition lo16 :: "u32 \<Rightarrow> u16" where
  "lo16 x = ucast x"

section \<open>Operations\<close>

definition bucket32_get_len :: "bucket32 \<Rightarrow> nat" where
  "bucket32_get_len b = foldl (\<lambda>n b16. n + bucket16_get_len b16) 0 (b32_buckets b)"

definition add_bucket_at_pos :: "bucket32 \<Rightarrow> u16 \<Rightarrow> nat \<Rightarrow> bucket32 \<times> nat" where
  "add_bucket_at_pos b h pos =
    (if pos \<ge> length (b16his b) then
       (b\<lparr>b16his := b16his b @ [h], b32_buckets := b32_buckets b @ [bucket16_default]\<rparr>,
        length (b32_buckets b))
     else
       (b\<lparr>b16his := take pos (b16his b) @ h # drop pos (b16his b),
          b32_buckets := take pos (b32_buckets b) @ bucket16_default # drop pos (b32_buckets b)\<rparr>,
        pos))"

text \<open>The call \<open>n < self.buckets.len() && self.buckets[n].op(lo)\<close>.\<close>

definition at_bucket ::
  "(bucket16 \<Rightarrow> u16 \<Rightarrow> bucket16 \<times> bool) \<Rightarrow> bucket32 \<Rightarrow> nat \<Rightarrow> u16 \<Rightarrow> bucket32 \<times> bool" where
  "at_bucket f b n lo =
    (if n < length (b32_buckets b) then
       (case f (b32_buckets b ! n) lo of
          (c, ok) \<Rightarrow> (b\<lparr>b32_buckets := (b32_buckets b)[n := c]\<rparr>, ok))
     else (b, False))"

definition bucket32_add_slow :: "bucket32 \<Rightarrow> u16 \<Rightarrow> u16 \<Rightarrow> bucket32 \<times> bool" where
  "bucket32_add_slow b h lo =
    (let n = binary_search16 (b16his b) h in
     if n \<ge> length (b16his b) \<or> b16his b ! n \<noteq> h then
       (case add_bucket_at_pos b h n of (b, i) \<Rightarrow> (fst (at_bucket bucket16_add b i lo), True))
     else at_bucket bucket16_add (b\<lparr>b32_hint := of_nat n\<rparr>) n lo)"

definition bucket32_add :: "bucket32 \<Rightarrow> u32 \<Rightarrow> bucket32 \<times> bool" where
  "bucket32_add b x =
    (let n = unat (b32_hint b) in
     if n < length (b16his b) \<and> b16his b ! n = hi16 x then at_bucket bucket16_add b n (lo16 x)
     else bucket32_add_slow b (hi16 x) (lo16 x))"

definition get_or_create_bucket16 :: "bucket32 \<Rightarrow> u16 \<Rightarrow> bucket32 \<times> nat" where
  "get_or_create_bucket16 b h =
    (let n = binary_search16 (b16his b) h in
     if n \<ge> length (b16his b) \<or> b16his b ! n \<noteq> h then add_bucket_at_pos b h n else (b, n))"

text \<open>
  The segments of \<open>add_multi\<close>: \<open>seg\<close> is the slice \<open>a[i..j]\<close> of items with the same high part
  \<open>hi_prev\<close>, and \<open>flush16\<close> the call that adds it.
\<close>

definition flush16 :: "bucket32 \<Rightarrow> u16 \<Rightarrow> u64 list \<Rightarrow> bucket32 \<times> nat" where
  "flush16 b hi_prev seg =
    (case get_or_create_bucket16 b hi_prev of (b, i) \<Rightarrow>
       (case bucket16_add_multi (b32_buckets b ! i) seg of (c, n) \<Rightarrow>
          (b\<lparr>b32_buckets := (b32_buckets b)[i := c]\<rparr>, n)))"

fun add_multi_loop32 :: "bucket32 \<Rightarrow> nat \<Rightarrow> u16 \<Rightarrow> u64 list \<Rightarrow> u64 list \<Rightarrow> bucket32 \<times> nat" where
  "add_multi_loop32 b count hi_prev seg [] =
    (case flush16 b hi_prev seg of (b, n) \<Rightarrow> (b, count + n))"
| "add_multi_loop32 b count hi_prev seg (x # rest) =
    (let h = ucast (drop_bit 16 x) in
     if h = hi_prev then add_multi_loop32 b count hi_prev (seg @ [x]) rest
     else (case flush16 b hi_prev seg of
             (b, n) \<Rightarrow> add_multi_loop32 b (count + n) h [x] rest))"

definition bucket32_add_multi :: "bucket32 \<Rightarrow> u64 list \<Rightarrow> bucket32 \<times> nat" where
  "bucket32_add_multi b a =
    (if a = [] then (b, 0) else add_multi_loop32 b 0 (ucast (drop_bit 16 (a ! 0))) [] a)"

definition bucket32_has :: "bucket32 \<Rightarrow> u32 \<Rightarrow> bool" where
  "bucket32_has b x =
    (let n = binary_search16 (b16his b) (hi16 x) in
     if n \<ge> length (b16his b) \<or> b16his b ! n \<noteq> hi16 x then False
     else n < length (b32_buckets b) \<and> bucket16_has (b32_buckets b ! n) (lo16 x))"

definition bucket32_del_slow :: "bucket32 \<Rightarrow> u16 \<Rightarrow> u16 \<Rightarrow> bucket32 \<times> bool" where
  "bucket32_del_slow b h lo =
    (let n = binary_search16 (b16his b) h in
     if n \<ge> length (b16his b) \<or> b16his b ! n \<noteq> h then (b, False)
     else at_bucket bucket16_del (b\<lparr>b32_hint := of_nat n\<rparr>) n lo)"

definition bucket32_del :: "bucket32 \<Rightarrow> u32 \<Rightarrow> bucket32 \<times> bool" where
  "bucket32_del b x =
    (let n = unat (b32_hint b) in
     if n < length (b16his b) \<and> b16his b ! n = hi16 x then at_bucket bucket16_del b n (lo16 x)
     else bucket32_del_slow b (hi16 x) (lo16 x))"

definition entries :: "bucket32 \<Rightarrow> (u16 \<times> bucket16) list" where
  "entries b = zip (b16his b) (b32_buckets b)"

definition set_entries :: "bucket32 \<Rightarrow> (u16 \<times> bucket16) list \<Rightarrow> bucket32" where
  "set_entries b es = b\<lparr>b16his := map fst es, b32_buckets := map snd es\<rparr>"

definition bucket32_union :: "bucket32 \<Rightarrow> bucket32 \<Rightarrow> bucket32" where
  "bucket32_union b a =
    (case merge_union fst (\<lambda>x y. (fst x, bucket16_union (snd x) (snd y))) id (entries b) (entries a) of
       (us, ps) \<Rightarrow>
         let es = us @ ps
         in set_entries b (if \<not> sorted (map fst es) then sort_key fst es else es))"

definition bucket32_intersect :: "bucket32 \<Rightarrow> bucket32 \<Rightarrow> bucket32" where
  "bucket32_intersect b a =
    (let es = merge_intersect fst (\<lambda>x y. (fst x, bucket16_intersect (snd x) (snd y)))
                (\<lambda>x. (fst x, bucket16_default)) (entries b) (entries a)
     in (set_entries b (filter (\<lambda>e. \<not> bucket16_is_zero (snd e)) es))\<lparr>b32_hint := 0\<rparr>)"

text \<open>
  \<open>for_each\<close> calls a closure with a state of its own for each bucket until it returns false.
\<close>

fun for_each_loop32 ::
  "('s \<Rightarrow> u64 list \<Rightarrow> 's \<times> bool) \<Rightarrow> u32 \<Rightarrow> 's \<Rightarrow> (u16 \<times> bucket16) list \<Rightarrow> 's \<times> bool" where
  "for_each_loop32 f h s [] = (s, True)"
| "for_each_loop32 f h s ((h16, b16) # es) =
    (case f s (bucket16_append_to b16 [] h h16) of
       (s, continue) \<Rightarrow> if \<not> continue then (s, False) else for_each_loop32 f h s es)"

definition bucket32_for_each ::
  "('s \<Rightarrow> u64 list \<Rightarrow> 's \<times> bool) \<Rightarrow> 's \<Rightarrow> bucket32 \<Rightarrow> 's \<times> bool" where
  "bucket32_for_each f s b = for_each_loop32 f (b32_hi b) s (entries b)"

fun append_loop32 :: "u32 \<Rightarrow> u64 list \<Rightarrow> (u16 \<times> bucket16) list \<Rightarrow> u64 list" where
  "append_loop32 h dst [] = dst"
| "append_loop32 h dst ((h16, b16) # es) = append_loop32 h (bucket16_append_to b16 dst h h16) es"

definition bucket32_append_to :: "bucket32 \<Rightarrow> u64 list \<Rightarrow> u64 list" where
  "bucket32_append_to b dst = append_loop32 (b32_hi b) dst (entries b)"

section \<open>Abstraction and invariant\<close>

definition entry_set :: "u16 \<times> bucket16 \<Rightarrow> u32 set" where
  "entry_set e = {x. hi16 x = fst e \<and> lo16 x \<in> b16_set (snd e)}"

definition b32_set :: "bucket32 \<Rightarrow> u32 set" where
  "b32_set b = items entry_set (entries b)"

definition b32_invar :: "bucket32 \<Rightarrow> bool" where
  "b32_invar b \<longleftrightarrow> length (b16his b) = length (b32_buckets b) \<and>
     sorted_wrt (<) (b16his b) \<and> list_all b16_invar (b32_buckets b)"

section \<open>Values and parts\<close>

definition combine32 :: "u16 \<Rightarrow> u16 \<Rightarrow> u32" where
  "combine32 h v = push_bit 16 (ucast h) OR ucast v"

definition compose32 :: "u32 \<Rightarrow> u32 \<Rightarrow> u64" where
  "compose32 h x = push_bit 32 (ucast h) OR ucast x"

text \<open>The parts a bucket hands to the closure of \<open>for_each\<close>, and the walk over them.\<close>

definition bucket32_parts :: "bucket32 \<Rightarrow> u64 list list" where
  "bucket32_parts b = map (\<lambda>e. bucket16_append_to (snd e) [] (b32_hi b) (fst e)) (entries b)"

fun walk_parts :: "('s \<Rightarrow> 'p \<Rightarrow> 's \<times> bool) \<Rightarrow> 's \<Rightarrow> 'p list \<Rightarrow> 's \<times> bool" where
  "walk_parts f s [] = (s, True)"
| "walk_parts f s (p # ps) =
    (case f s p of (s, continue) \<Rightarrow> if \<not> continue then (s, False) else walk_parts f s ps)"

text \<open>The values of the entries in order.\<close>

definition entry_values :: "(u16 \<times> bucket16) list \<Rightarrow> u32 list" where
  "entry_values es = concat (map (\<lambda>e. map (combine32 (fst e)) (sorted_list_of_set (b16_set (snd e)))) es)"

section \<open>Binary search\<close>

lemma binary_search_loop_correct:
  assumes "sorted xs" "i \<le> j" "j \<le> length xs"
    "\<forall>m < i. xs ! m < x" "\<forall>m. j \<le> m \<and> m < length xs \<longrightarrow> x \<le> xs ! m"
  shows "binary_search_loop xs x i j \<le> length xs
    \<and> (\<forall>m < binary_search_loop xs x i j. xs ! m < x)
    \<and> (\<forall>m. binary_search_loop xs x i j \<le> m \<and> m < length xs \<longrightarrow> x \<le> xs ! m)"
  using assms
proof (induction xs x i j rule: binary_search_loop.induct)
  case (1 xs x i j)
  define h where "h = drop_bit 1 (i + j)"
  show ?case
  proof (cases "i < j")
    case False
    then have "binary_search_loop xs x i j = i" by (simp add: binary_search_loop.simps [of xs x i j])
    with False "1.prems" show ?thesis by simp
  next
    case True
    then have h: "i \<le> h" "h < j" by (auto simp: h_def drop_bit_eq_div)
    show ?thesis
    proof (cases "xs ! h < x")
      case less: True
      have "\<forall>m < h + 1. xs ! m < x"
        using less h "1.prems"(1,3) by (auto simp: less_Suc_eq_le dest: sorted_nth_mono intro: le_less_trans)
      then have "binary_search_loop xs x (h + 1) j \<le> length xs
        \<and> (\<forall>m < binary_search_loop xs x (h + 1) j. xs ! m < x)
        \<and> (\<forall>m. binary_search_loop xs x (h + 1) j \<le> m \<and> m < length xs \<longrightarrow> x \<le> xs ! m)"
        using "1.IH"(1) [OF True h_def less "1.prems"(1) _ "1.prems"(3) _ "1.prems"(5)] h by simp
      moreover have "binary_search_loop xs x i j = binary_search_loop xs x (h + 1) j"
        using True less by (simp add: binary_search_loop.simps [of xs x i j] h_def)
      ultimately show ?thesis by simp
    next
      case ge: False
      have "\<forall>m. h \<le> m \<and> m < length xs \<longrightarrow> x \<le> xs ! m"
        using ge "1.prems"(1) by (meson not_less order_trans sorted_nth_mono)
      then have "binary_search_loop xs x i h \<le> length xs
        \<and> (\<forall>m < binary_search_loop xs x i h. xs ! m < x)
        \<and> (\<forall>m. binary_search_loop xs x i h \<le> m \<and> m < length xs \<longrightarrow> x \<le> xs ! m)"
        using "1.IH"(2) [OF True h_def ge "1.prems"(1) h(1) _ "1.prems"(4)] h(2) "1.prems"(3) by simp
      moreover have "binary_search_loop xs x i j = binary_search_loop xs x i h"
        using True ge by (simp add: binary_search_loop.simps [of xs x i j] h_def)
      ultimately show ?thesis by simp
    qed
  qed
qed

lemma binary_search16_correct:
  assumes "sorted xs"
  shows "binary_search16 xs x \<le> length xs \<and> (\<forall>m < binary_search16 xs x. xs ! m < x)
    \<and> (\<forall>m. binary_search16 xs x \<le> m \<and> m < length xs \<longrightarrow> x \<le> xs ! m)"
proof (cases "length xs > 0 \<and> xs ! (length xs - 1) < x")
  case True
  then have "xs ! m < x" if "m < length xs" for m
  proof -
    have "xs ! m \<le> xs ! (length xs - 1)" using that assms by (intro sorted_nth_mono) auto
    with True show ?thesis by auto
  qed
  with True show ?thesis by (auto simp: binary_search16_def)
next
  case False
  have "\<forall>m. length xs \<le> m \<and> m < length xs \<longrightarrow> x \<le> xs ! m" by auto
  with binary_search_loop_correct [OF assms, of 0 "length xs" x]
  have "binary_search_loop xs x 0 (length xs) \<le> length xs
    \<and> (\<forall>m < binary_search_loop xs x 0 (length xs). xs ! m < x)
    \<and> (\<forall>m. binary_search_loop xs x 0 (length xs) \<le> m \<and> m < length xs \<longrightarrow> x \<le> xs ! m)" by simp
  moreover have "binary_search16 xs x = binary_search_loop xs x 0 (length xs)"
    using False by (auto simp: binary_search16_def Let_def)
  ultimately show ?thesis by simp
qed

lemma binary_search16_found:
  assumes "sorted_wrt (<) xs" "n = binary_search16 xs x"
  shows "(n < length xs \<and> xs ! n = x) \<longleftrightarrow> x \<in> set xs"
proof -
  have s: "sorted xs" using assms(1) by (simp add: strict_sorted_imp_sorted)
  note b = binary_search16_correct [OF s, of x, folded assms(2)]
  have "n < length xs \<and> xs ! n = x" if "m < length xs" "xs ! m = x" for m
  proof -
    have "n \<le> m" using b that by (metis less_irrefl not_less)
    then have "xs ! n \<le> x" using s that sorted_nth_mono by blast
    moreover have "x \<le> xs ! n" using b \<open>n \<le> m\<close> that by simp
    ultimately show ?thesis using \<open>n \<le> m\<close> that by simp
  qed
  then show ?thesis by (auto simp: in_set_conv_nth)
qed

lemma set_drop_nth:
  assumes "y \<in> set (drop n xs)"
  obtains m where "n \<le> m" "m < length xs" "y = xs ! m"
proof -
  obtain k where k: "k < length (drop n xs)" "drop n xs ! k = y" using assms by (meson in_set_conv_nth)
  then show ?thesis by (intro that [of "n + k"]) auto
qed

lemma sorted_insert_at:
  assumes "sorted_wrt (<) xs" "x \<notin> set xs" "n = binary_search16 xs x"
  shows "sorted_wrt (<) (take n xs @ x # drop n xs)"
proof -
  have b: "n \<le> length xs" "\<forall>m < n. xs ! m < x" "\<forall>m. n \<le> m \<and> m < length xs \<longrightarrow> x \<le> xs ! m"
    using binary_search16_correct [of xs x] assms by (simp_all add: strict_sorted_imp_sorted)
  have "y < x" if "y \<in> set (take n xs)" for y
    using that b by (auto simp: in_set_conv_nth)
  moreover have "x < y" if y: "y \<in> set (drop n xs)" for y
  proof -
    obtain m where "n \<le> m" "m < length xs" "y = xs ! m"
      using set_drop_nth [OF y] by blast
    with b(3) assms(2) show ?thesis by (metis nth_mem order.not_eq_order_implies_strict)
  qed
  moreover have "sorted_wrt (<) (take n xs @ drop n xs)" using assms(1) by simp
  ultimately show ?thesis by (auto simp: sorted_wrt_append intro: less_trans)
qed

section \<open>Entries\<close>

lemma hi_lo_eq: "hi16 x = hi16 y \<Longrightarrow> lo16 x = lo16 y \<Longrightarrow> x = y"
proof (rule bit_word_eqI)
  fix n assume h: "hi16 x = hi16 y" "lo16 x = lo16 y" "n < LENGTH(32)"
  show "bit x n = bit y n"
  proof (cases "n < 16")
    case True
    with arg_cong [OF h(2), of "\<lambda>w. bit w n"] show ?thesis by (simp add: lo16_def bit_simps)
  next
    case False
    then have "n - 16 < 16" using h(3) by simp
    with False arg_cong [OF h(1), of "\<lambda>w. bit w (n - 16)"] show ?thesis
      by (simp add: hi16_def bit_simps)
  qed
qed

lemma keyed_entries: "z \<in> entry_set x \<Longrightarrow> z \<in> entry_set y \<Longrightarrow> fst x = fst y"
  by (simp add: entry_set_def)

lemma length_entries [simp]: "b32_invar b \<Longrightarrow> length (entries b) = length (b16his b)"
  by (simp add: entries_def b32_invar_def)

lemma nth_entries: "b32_invar b \<Longrightarrow> n < length (b16his b) \<Longrightarrow> entries b ! n = (b16his b ! n, b32_buckets b ! n)"
  by (simp add: entries_def b32_invar_def)

lemma map_fst_entries [simp]: "b32_invar b \<Longrightarrow> map fst (entries b) = b16his b"
  by (simp add: entries_def b32_invar_def)

lemma map_snd_entries [simp]: "b32_invar b \<Longrightarrow> map snd (entries b) = b32_buckets b"
  by (simp add: entries_def b32_invar_def)

lemma his_distinct: "b32_invar b \<Longrightarrow> distinct (b16his b)"
  by (simp add: b32_invar_def strict_sorted_iff)

lemma b32_mem_at:
  assumes "b32_invar b" "n < length (b16his b)" "b16his b ! n = hi16 x"
  shows "x \<in> b32_set b \<longleftrightarrow> lo16 x \<in> b16_set (b32_buckets b ! n)"
proof
  assume "x \<in> b32_set b"
  then obtain m where m: "m < length (b16his b)" "b16his b ! m = hi16 x"
    "lo16 x \<in> b16_set (b32_buckets b ! m)"
    using assms(1) by (auto simp: b32_set_def items_mem nth_entries entry_set_def)
  moreover have "m = n" using his_distinct [OF assms(1)] assms m nth_eq_iff_index_eq by metis
  ultimately show "lo16 x \<in> b16_set (b32_buckets b ! n)" by simp
next
  assume "lo16 x \<in> b16_set (b32_buckets b ! n)"
  with assms show "x \<in> b32_set b"
    by (auto simp: b32_set_def items_mem nth_entries entry_set_def)
qed

lemma b32_mem_his: "b32_invar b \<Longrightarrow> x \<in> b32_set b \<Longrightarrow> hi16 x \<in> set (b16his b)"
  by (auto simp: b32_set_def items_def entry_set_def entries_def dest: set_zip_leftD)

lemma bucket_invar: "b32_invar b \<Longrightarrow> n < length (b16his b) \<Longrightarrow> b16_invar (b32_buckets b ! n)"
  by (simp add: b32_invar_def list_all_length)

lemma update_bucket:
  assumes "b32_invar b" "n < length (b16his b)" "b16_invar c"
  shows "b32_invar (b\<lparr>b32_buckets := (b32_buckets b)[n := c]\<rparr>)"
    "entries (b\<lparr>b32_buckets := (b32_buckets b)[n := c]\<rparr>) = (entries b)[n := (b16his b ! n, c)]"
proof -
  show "b32_invar (b\<lparr>b32_buckets := (b32_buckets b)[n := c]\<rparr>)"
    using assms by (auto simp: b32_invar_def list_all_length nth_list_update)
  have "zip (b16his b) ((b32_buckets b)[n := c]) = zip ((b16his b)[n := b16his b ! n]) ((b32_buckets b)[n := c])"
    by simp
  also have "\<dots> = (entries b)[n := (b16his b ! n, c)]"
    unfolding entries_def by (rule zip_update)
  finally show "entries (b\<lparr>b32_buckets := (b32_buckets b)[n := c]\<rparr>) = (entries b)[n := (b16his b ! n, c)]"
    by (simp add: entries_def)
qed

text \<open>Replacing one bucket by one with more items, or with one item less.\<close>

lemma update_bucket_union:
  assumes "b32_invar b" "n < length (b16his b)" "b16_invar c"
    "b16_set c = b16_set (b32_buckets b ! n) \<union> A"
  shows "b32_set (b\<lparr>b32_buckets := (b32_buckets b)[n := c]\<rparr>)
    = b32_set b \<union> {x. hi16 x = b16his b ! n \<and> lo16 x \<in> A}"
  unfolding b32_set_def update_bucket(2) [OF assms(1-3)]
  using assms by (intro items_update_insert) (auto simp: nth_entries entry_set_def)

lemma update_bucket_remove:
  assumes "b32_invar b" "n < length (b16his b)" "b16_invar c" "b16his b ! n = hi16 x"
    "b16_set c = b16_set (b32_buckets b ! n) - {lo16 x}"
  shows "b32_set (b\<lparr>b32_buckets := (b32_buckets b)[n := c]\<rparr>) = b32_set b - {x}"
  unfolding b32_set_def update_bucket(2) [OF assms(1-3)]
proof (rule items_update_remove)
  show "entry_set (b16his b ! n, c) = entry_set (entries b ! n) - {x}"
    using assms hi_lo_eq by (auto simp: nth_entries entry_set_def)
  show "x \<notin> entry_set (entries b ! m)" if "m < length (entries b)" "m \<noteq> n" for m
  proof -
    have "m < length (b16his b)" using that(1) assms(1) by simp
    then have "b16his b ! m \<noteq> b16his b ! n"
      using that(2) assms(2) his_distinct [OF assms(1)] by (simp add: nth_eq_iff_index_eq)
    with assms(1,4) \<open>m < length (b16his b)\<close> show ?thesis by (simp add: nth_entries entry_set_def)
  qed
qed (use assms in simp)


section \<open>Adding, deleting and looking up\<close>

lemma b32_single: "{z. hi16 z = hi16 x \<and> lo16 z \<in> {lo16 x}} = {x}"
  using hi_lo_eq by auto

lemma at_bucket_add:
  assumes "b32_invar b" "n < length (b16his b)" "b16his b ! n = hi16 x"
  shows "b32_invar (fst (at_bucket bucket16_add b n (lo16 x)))"
    "b32_set (fst (at_bucket bucket16_add b n (lo16 x))) = insert x (b32_set b)"
    "snd (at_bucket bucket16_add b n (lo16 x)) \<longleftrightarrow> x \<notin> b32_set b"
proof -
  define c where "c = fst (bucket16_add (b32_buckets b ! n) (lo16 x))"
  note inv = bucket_invar [OF assms(1,2)]
  have len: "n < length (b32_buckets b)" using assms(1,2) by (simp add: b32_invar_def)
  have c: "b16_invar c" "b16_set c = b16_set (b32_buckets b ! n) \<union> {lo16 x}"
    using b16.invar_add [OF inv] b16.elems_add [OF inv] by (simp_all add: c_def)
  have at: "fst (at_bucket bucket16_add b n (lo16 x)) = b\<lparr>b32_buckets := (b32_buckets b)[n := c]\<rparr>"
    "snd (at_bucket bucket16_add b n (lo16 x)) = snd (bucket16_add (b32_buckets b ! n) (lo16 x))"
    using len by (simp_all add: at_bucket_def c_def split_beta)
  show "b32_invar (fst (at_bucket bucket16_add b n (lo16 x)))"
    unfolding at by (rule update_bucket(1) [OF assms(1,2) c(1)])
  show "b32_set (fst (at_bucket bucket16_add b n (lo16 x))) = insert x (b32_set b)"
    unfolding at update_bucket_union [OF assms(1,2) c] assms(3) b32_single by simp
  show "snd (at_bucket bucket16_add b n (lo16 x)) \<longleftrightarrow> x \<notin> b32_set b"
    unfolding at b32_mem_at [OF assms] b16.add_flag [OF inv] ..
qed

lemma at_bucket_del:
  assumes "b32_invar b" "n < length (b16his b)" "b16his b ! n = hi16 x"
  shows "b32_invar (fst (at_bucket bucket16_del b n (lo16 x)))"
    "b32_set (fst (at_bucket bucket16_del b n (lo16 x))) = b32_set b - {x}"
    "snd (at_bucket bucket16_del b n (lo16 x)) \<longleftrightarrow> x \<in> b32_set b"
proof -
  define c where "c = fst (bucket16_del (b32_buckets b ! n) (lo16 x))"
  note inv = bucket_invar [OF assms(1,2)]
  have len: "n < length (b32_buckets b)" using assms(1,2) by (simp add: b32_invar_def)
  have c: "b16_invar c" "b16_set c = b16_set (b32_buckets b ! n) - {lo16 x}"
    using b16.invar_del [OF inv] b16.elems_del [OF inv] by (simp_all add: c_def)
  have at: "fst (at_bucket bucket16_del b n (lo16 x)) = b\<lparr>b32_buckets := (b32_buckets b)[n := c]\<rparr>"
    "snd (at_bucket bucket16_del b n (lo16 x)) = snd (bucket16_del (b32_buckets b ! n) (lo16 x))"
    using len by (simp_all add: at_bucket_def c_def split_beta)
  show "b32_invar (fst (at_bucket bucket16_del b n (lo16 x)))"
    unfolding at by (rule update_bucket(1) [OF assms(1,2) c(1)])
  show "b32_set (fst (at_bucket bucket16_del b n (lo16 x))) = b32_set b - {x}"
    unfolding at by (rule update_bucket_remove [OF assms(1,2) c(1) assms(3) c(2)])
  show "snd (at_bucket bucket16_del b n (lo16 x)) \<longleftrightarrow> x \<in> b32_set b"
    unfolding at b32_mem_at [OF assms] b16.del_flag [OF inv] ..
qed

lemma set_hint [simp]:
  "b32_invar (b\<lparr>b32_hint := k\<rparr>) = b32_invar b" "b32_set (b\<lparr>b32_hint := k\<rparr>) = b32_set b"
  by (simp_all add: b32_invar_def b32_set_def entries_def)

lemma entry_set_default [simp]: "entry_set (h, bucket16_default) = {}"
  by (simp add: entry_set_def)

lemma add_bucket_at_pos_correct:
  assumes "b32_invar b" "h \<notin> set (b16his b)" "n = binary_search16 (b16his b) h"
    "add_bucket_at_pos b h n = (c, i)"
  shows "b32_invar c" "b32_set c = b32_set b" "i < length (b16his c)" "b16his c ! i = h"
proof -
  have len: "length (b16his b) = length (b32_buckets b)" "sorted_wrt (<) (b16his b)"
    using assms(1) by (simp_all add: b32_invar_def)
  have n: "n \<le> length (b16his b)"
    using binary_search16_correct [of "b16his b" h] len(2) assms(3) by (simp add: strict_sorted_imp_sorted)
  have c: "c = b\<lparr>b16his := take n (b16his b) @ h # drop n (b16his b),
      b32_buckets := take n (b32_buckets b) @ bucket16_default # drop n (b32_buckets b)\<rparr>" "i = n"
    using assms(4) n len(1) by (auto simp: add_bucket_at_pos_def split: if_splits)
  show "b32_invar c"
    using assms(1) sorted_insert_at [OF len(2) assms(2,3)] n len(1)
    by (auto simp: c b32_invar_def list_all_iff dest: in_set_dropD in_set_takeD)
  have "entries c = take n (entries b) @ (h, bucket16_default) # drop n (entries b)"
    using n len(1) by (simp add: c entries_def take_zip drop_zip)
  moreover have "entries b = take n (entries b) @ drop n (entries b)" by simp
  ultimately show "b32_set c = b32_set b"
    unfolding b32_set_def using items_simps(3) [of entry_set "take n (entries b)" "drop n (entries b)"]
    by simp
  show "i < length (b16his c)" "b16his c ! i = h" using n by (simp_all add: c nth_append)
qed

lemma bucket32_add_slow_correct:
  assumes "b32_invar b"
  shows "b32_invar (fst (bucket32_add_slow b (hi16 x) (lo16 x)))"
    "b32_set (fst (bucket32_add_slow b (hi16 x) (lo16 x))) = insert x (b32_set b)"
    "snd (bucket32_add_slow b (hi16 x) (lo16 x)) \<longleftrightarrow> x \<notin> b32_set b"
proof -
  define n where "n = binary_search16 (b16his b) (hi16 x)"
  have found: "n < length (b16his b) \<and> b16his b ! n = hi16 x \<longleftrightarrow> hi16 x \<in> set (b16his b)"
    using assms by (intro binary_search16_found) (simp_all add: b32_invar_def n_def)
  have "b32_invar (fst (bucket32_add_slow b (hi16 x) (lo16 x))) \<and>
    b32_set (fst (bucket32_add_slow b (hi16 x) (lo16 x))) = insert x (b32_set b) \<and>
    (snd (bucket32_add_slow b (hi16 x) (lo16 x)) \<longleftrightarrow> x \<notin> b32_set b)"
  proof (cases "hi16 x \<in> set (b16his b)")
    case True
    then have "bucket32_add_slow b (hi16 x) (lo16 x)
        = at_bucket bucket16_add (b\<lparr>b32_hint := of_nat n\<rparr>) n (lo16 x)"
      using found by (auto simp: bucket32_add_slow_def n_def Let_def)
    with True found at_bucket_add [of "b\<lparr>b32_hint := of_nat n\<rparr>" n x] assms show ?thesis by simp
  next
    case False
    obtain c i where c: "add_bucket_at_pos b (hi16 x) n = (c, i)" by fastforce
    then have "bucket32_add_slow b (hi16 x) (lo16 x) = (fst (at_bucket bucket16_add c i (lo16 x)), True)"
      using False found by (auto simp: bucket32_add_slow_def n_def Let_def)
    moreover have "x \<notin> b32_set b" using False b32_mem_his [OF assms] by blast
    ultimately show ?thesis
      using add_bucket_at_pos_correct [OF assms False n_def c] at_bucket_add [of c i x] by simp
  qed
  then show "b32_invar (fst (bucket32_add_slow b (hi16 x) (lo16 x)))"
    "b32_set (fst (bucket32_add_slow b (hi16 x) (lo16 x))) = insert x (b32_set b)"
    "snd (bucket32_add_slow b (hi16 x) (lo16 x)) \<longleftrightarrow> x \<notin> b32_set b" by blast+
qed

lemma bucket32_del_slow_correct:
  assumes "b32_invar b"
  shows "b32_invar (fst (bucket32_del_slow b (hi16 x) (lo16 x)))"
    "b32_set (fst (bucket32_del_slow b (hi16 x) (lo16 x))) = b32_set b - {x}"
    "snd (bucket32_del_slow b (hi16 x) (lo16 x)) \<longleftrightarrow> x \<in> b32_set b"
proof -
  define n where "n = binary_search16 (b16his b) (hi16 x)"
  have found: "n < length (b16his b) \<and> b16his b ! n = hi16 x \<longleftrightarrow> hi16 x \<in> set (b16his b)"
    using assms by (intro binary_search16_found) (simp_all add: b32_invar_def n_def)
  have "b32_invar (fst (bucket32_del_slow b (hi16 x) (lo16 x))) \<and>
    b32_set (fst (bucket32_del_slow b (hi16 x) (lo16 x))) = b32_set b - {x} \<and>
    (snd (bucket32_del_slow b (hi16 x) (lo16 x)) \<longleftrightarrow> x \<in> b32_set b)"
  proof (cases "hi16 x \<in> set (b16his b)")
    case True
    then have "bucket32_del_slow b (hi16 x) (lo16 x)
        = at_bucket bucket16_del (b\<lparr>b32_hint := of_nat n\<rparr>) n (lo16 x)"
      using found by (auto simp: bucket32_del_slow_def n_def Let_def)
    with True found at_bucket_del [of "b\<lparr>b32_hint := of_nat n\<rparr>" n x] assms show ?thesis by simp
  next
    case False
    then have "bucket32_del_slow b (hi16 x) (lo16 x) = (b, False)"
      using found by (auto simp: bucket32_del_slow_def n_def Let_def)
    moreover have "x \<notin> b32_set b" using False b32_mem_his [OF assms] by blast
    ultimately show ?thesis using assms by simp
  qed
  then show "b32_invar (fst (bucket32_del_slow b (hi16 x) (lo16 x)))"
    "b32_set (fst (bucket32_del_slow b (hi16 x) (lo16 x))) = b32_set b - {x}"
    "snd (bucket32_del_slow b (hi16 x) (lo16 x)) \<longleftrightarrow> x \<in> b32_set b" by blast+
qed

lemma bucket32_has_iff:
  assumes "b32_invar b"
  shows "bucket32_has b x \<longleftrightarrow> x \<in> b32_set b"
proof -
  define n where "n = binary_search16 (b16his b) (hi16 x)"
  have found: "n < length (b16his b) \<and> b16his b ! n = hi16 x \<longleftrightarrow> hi16 x \<in> set (b16his b)"
    using assms by (intro binary_search16_found) (simp_all add: b32_invar_def n_def)
  have len: "length (b16his b) = length (b32_buckets b)" using assms by (simp add: b32_invar_def)
  show ?thesis
  proof (cases "hi16 x \<in> set (b16his b)")
    case True
    with found len b32_mem_at [OF assms, of n x] show ?thesis
      by (auto simp: bucket32_has_def n_def [symmetric] Let_def b16_set_has)
  next
    case False
    with found b32_mem_his [OF assms, of x] show ?thesis
      by (auto simp: bucket32_has_def n_def [symmetric] Let_def)
  qed
qed

interpretation b32: set_rep_flags b32_invar b32_set bucket32_add bucket32_del bucket32_has
  by unfold_locales
     (auto simp: bucket32_add_def bucket32_del_def Let_def at_bucket_add at_bucket_del
       bucket32_add_slow_correct bucket32_del_slow_correct bucket32_has_iff)

section \<open>Number of items\<close>

lemma combine32_parts [simp]: "hi16 (combine32 h v) = h" "lo16 (combine32 h v) = v"
  by (rule bit_word_eqI, auto simp: combine32_def hi16_def lo16_def bit_simps
      dest: bit_imp_le_length)+

lemma combine32_hi_lo [simp]: "combine32 (hi16 x) (lo16 x) = x"
  by (rule hi_lo_eq) simp_all

lemma entry_set_image: "entry_set e = combine32 (fst e) ` b16_set (snd e)"
proof -
  have "x \<in> entry_set e \<longleftrightarrow> x \<in> combine32 (fst e) ` b16_set (snd e)" for x
    unfolding entry_set_def image_iff by (auto intro: hi_lo_eq) (metis combine32_hi_lo)
  then show ?thesis by blast
qed

lemma card_entry_set: "card (entry_set e) = card (b16_set (snd e))"
  unfolding entry_set_image by (intro card_image inj_onI) (metis combine32_parts(2))

lemma finite_entry_set: "b16_invar (snd e) \<Longrightarrow> finite (entry_set e)"
  unfolding entry_set_image by (simp add: b16.finite_elems)

lemma card_items_entries:
  assumes "distinct (map fst es)" "list_all (\<lambda>e. b16_invar (snd e)) es"
  shows "finite (items entry_set es) \<and>
    card (items entry_set es) = sum_list (map (\<lambda>e. card (b16_set (snd e))) es)"
  using assms
proof (induction es)
  case (Cons e es)
  have "entry_set e \<inter> items entry_set es = {}"
  proof -
    have "z \<notin> entry_set f" if "f \<in> set es" "z \<in> entry_set e" for f z
      using that Cons.prems(1) by (auto simp: entry_set_def image_iff)
    then show ?thesis by (auto simp: items_def)
  qed
  with Cons finite_entry_set [of e] show ?case by (simp add: card_Un_disjoint card_entry_set)
qed simp

lemma card_b32_set:
  assumes "b32_invar b"
  shows "card (b32_set b) = sum_list (map (\<lambda>c. card (b16_set c)) (b32_buckets b))"
proof -
  have "list_all (\<lambda>e. b16_invar (snd e)) (entries b)"
    using assms by (auto simp: b32_invar_def entries_def list_all_length)
  moreover have "map (\<lambda>e. card (b16_set (snd e))) (entries b) = map (\<lambda>c. card (b16_set c)) (b32_buckets b)"
    using map_snd_entries [OF assms] by (metis (no_types, lifting) list.map_comp comp_def map_eq_conv)
  ultimately show ?thesis
    using card_items_entries [of "entries b"] his_distinct [OF assms] assms by (simp add: b32_set_def)
qed

lemma foldl_get_len: "list_all b16_invar bs \<Longrightarrow>
   foldl (\<lambda>n b16. n + bucket16_get_len b16) n bs = n + sum_list (map (\<lambda>c. card (b16_set c)) bs)"
  by (induction bs arbitrary: n) (simp_all add: bucket16_get_len_card)

lemma bucket32_get_len_card: "b32_invar b \<Longrightarrow> bucket32_get_len b = card (b32_set b)"
  by (simp add: bucket32_get_len_def card_b32_set foldl_get_len b32_invar_def)

section \<open>Bulk insertion\<close>

lemma hi_lo_of_u64 [simp]:
  "hi16 (ucast (x :: u64)) = ucast (drop_bit 16 x)" "lo16 (ucast (x :: u64)) = ucast x"
  by (rule bit_word_eqI; auto simp: hi16_def lo16_def bit_simps)+

lemma get_or_create_correct:
  assumes "b32_invar b" "get_or_create_bucket16 b h = (c, i)"
  shows "b32_invar c" "b32_set c = b32_set b" "i < length (b16his c)" "b16his c ! i = h"
proof -
  define n where "n = binary_search16 (b16his b) h"
  have found: "n < length (b16his b) \<and> b16his b ! n = h \<longleftrightarrow> h \<in> set (b16his b)"
    using assms by (intro binary_search16_found) (simp_all add: b32_invar_def n_def)
  have "b32_invar c \<and> b32_set c = b32_set b \<and> i < length (b16his c) \<and> b16his c ! i = h"
  proof (cases "h \<in> set (b16his b)")
    case True
    with found assms show ?thesis by (auto simp: get_or_create_bucket16_def n_def Let_def)
  next
    case False
    with found assms(2) have "add_bucket_at_pos b h n = (c, i)"
      by (auto simp: get_or_create_bucket16_def n_def Let_def split: if_splits)
    from add_bucket_at_pos_correct [OF assms(1) False n_def this] show ?thesis by simp
  qed
  then show "b32_invar c" "b32_set c = b32_set b" "i < length (b16his c)" "b16his c ! i = h" by blast+
qed

lemma flush16_correct:
  assumes "b32_invar b" "flush16 b h seg = (c, n)" "\<forall>x \<in> set seg. ucast (drop_bit 16 x) = h"
  shows "b32_invar c \<and> b32_set c = b32_set b \<union> ucast ` set seg \<and> n + card (b32_set b) = card (b32_set c)"
proof -
  obtain d i where d: "get_or_create_bucket16 b h = (d, i)" by fastforce
  note g = get_or_create_correct [OF assms(1) d]
  obtain e where e: "bucket16_add_multi (b32_buckets d ! i) seg = (e, n)"
    "c = d\<lparr>b32_buckets := (b32_buckets d)[i := e]\<rparr>"
    using assms(2) d by (auto simp: flush16_def split: prod.splits)
  note a = bucket16_add_multi_correct [OF bucket_invar [OF g(1,3)] e(1)]
  have inv: "b32_invar c" unfolding e(2) using a by (intro update_bucket(1) g(1,3)) simp
  have "b32_set c = b32_set b \<union> {x. hi16 x = h \<and> lo16 x \<in> ucast ` set seg}"
    unfolding e(2) using update_bucket_union [OF g(1,3)] a g(2,4) by simp
  moreover have "{x. hi16 x = h \<and> lo16 x \<in> ucast ` set seg} = ucast ` set seg"
    using assms(3) by (auto intro!: image_eqI hi_lo_eq)
  moreover have "n + card (b32_set b) = card (b32_set c)"
  proof -
    have i: "i < length (b32_buckets d)" using g(1,3) by (simp add: b32_invar_def)
    define s where "s = map (\<lambda>c. card (b16_set c)) (b32_buckets d)"
    have "card (b32_set c) = sum_list (s[i := card (b16_set e)])"
      unfolding card_b32_set [OF inv] by (simp add: e(2) s_def map_update)
    also have "\<dots> = sum_list s + card (b16_set e) - s ! i"
      using i by (intro sum_list_update) (simp add: s_def)
    also have "card (b16_set e) = n + s ! i" using a i by (simp add: s_def)
    also have "sum_list s = card (b32_set b)"
      unfolding s_def card_b32_set [OF g(1), symmetric] g(2) ..
    finally show ?thesis by simp
  qed
  ultimately show ?thesis using inv by simp
qed

lemma add_multi_loop32_correct:
  assumes "b32_invar b" "add_multi_loop32 b count h seg rest = (c, n)"
    "\<forall>x \<in> set seg. ucast (drop_bit 16 x) = h"
  shows "b32_invar c \<and> b32_set c = b32_set b \<union> ucast ` set (seg @ rest)
    \<and> n + card (b32_set b) = count + card (b32_set c)"
  using assms
proof (induction b count h seg rest rule: add_multi_loop32.induct)
  case (1 b count h seg)
  then obtain k where "flush16 b h seg = (c, k)" "n = count + k" by (auto split: prod.splits)
  with flush16_correct [OF "1.prems"(1) _ "1.prems"(3)] show ?case by fastforce
next
  case (2 b count h seg x rest)
  show ?case
  proof (cases "ucast (drop_bit 16 x) = h")
    case True
    with 2 show ?thesis by (simp add: Let_def)
  next
    case False
    obtain d k where d: "flush16 b h seg = (d, k)" by fastforce
    note f = flush16_correct [OF "2.prems"(1) d "2.prems"(3)]
    have "add_multi_loop32 d (count + k) (ucast (drop_bit 16 x)) [x] rest = (c, n)"
      using "2.prems"(2) False d by (simp add: Let_def)
    from "2.IH"(2) [OF refl False d [symmetric] conjunct1 [OF f] this]
    have c: "b32_invar c" "b32_set c = b32_set d \<union> ucast ` set ([x] @ rest)"
      "n + card (b32_set d) = count + k + card (b32_set c)" by auto
    have "b32_set c = b32_set b \<union> ucast ` set (seg @ x # rest)"
      unfolding c(2) using f by auto
    moreover have "n + card (b32_set b) = count + card (b32_set c)" using f c(3) by linarith
    ultimately show ?thesis using c(1) by blast
  qed
qed

lemma bucket32_add_multi_correct:
  assumes "b32_invar b" "bucket32_add_multi b a = (c, n)"
  shows "b32_invar c \<and> b32_set c = b32_set b \<union> ucast ` set a \<and> n + card (b32_set b) = card (b32_set c)"
  using assms add_multi_loop32_correct [of b 0 "ucast (drop_bit 16 (a ! 0))" "[]" a c n]
  by (cases "a = []") (auto simp: bucket32_add_multi_def)


section \<open>Union and intersection\<close>

interpretation join32: joinable fst entry_set "\<lambda>e. b16_invar (snd e)"
  "\<lambda>x y. (fst x, bucket16_union (snd x) (snd y))" id
  by unfold_locales (auto simp: entry_set_def bucket16_union_correct)

interpretation meet32: meetable fst entry_set "\<lambda>e. b16_invar (snd e)"
  "\<lambda>x y. (fst x, bucket16_intersect (snd x) (snd y))" "\<lambda>x. (fst x, bucket16_default)"
  by unfold_locales (auto simp: entry_set_def bucket16_intersect_correct)

lemma entries_ok: "b32_invar b \<Longrightarrow> list_all (\<lambda>e. b16_invar (snd e)) (entries b)"
  by (auto simp: b32_invar_def entries_def list_all_length)

lemma entries_sorted: "b32_invar b \<Longrightarrow> sorted (map fst (entries b))"
  by (simp add: b32_invar_def strict_sorted_imp_sorted)

lemma entries_distinct: "b32_invar b \<Longrightarrow> distinct (map fst (entries b))"
  by (simp add: his_distinct)

lemma entries_firsts: "b32_invar b \<Longrightarrow> firsts fst entry_set (entries b)"
  by (intro firsts_distinct entries_distinct)

lemmas entries_facts = entries_ok entries_sorted entries_distinct entries_firsts

lemma set_entries_invar:
  assumes "sorted (map fst es)" "distinct (map fst es)" "list_all (\<lambda>e. b16_invar (snd e)) es"
  shows "b32_invar (set_entries b es)" "b32_set (set_entries b es) = items entry_set es"
  using assms
  by (simp_all add: b32_invar_def set_entries_def b32_set_def entries_def zip_map_fst_snd
      strict_sorted_iff list_all_iff)

lemma bucket32_union_correct:
  assumes "b32_invar b" "b32_invar a"
  shows "b32_invar (bucket32_union b a) \<and> b32_set (bucket32_union b a) = b32_set b \<union> b32_set a
    \<and> b32_hi (bucket32_union b a) = b32_hi b"
proof -
  define m where "m = merge_union fst (\<lambda>x y. (fst x, bucket16_union (snd x) (snd y))) id (entries b) (entries a)"
  define es where "es = fst m @ snd m"
  define fs where "fs = (if \<not> sorted (map fst es) then sort_key fst es else es)"
  have "list_all (\<lambda>e. b16_invar (snd e)) es" "items entry_set es = b32_set b \<union> b32_set a"
    "distinct (map fst es)"
    unfolding es_def m_def
    using join32.merge_union_ok join32.merge_union_items join32.merge_union_distinct
    by (simp_all add: assms entries_facts b32_set_def del: map_fst_entries)
  then have "sorted (map fst fs)" "distinct (map fst fs)" "list_all (\<lambda>e. b16_invar (snd e)) fs"
    "items entry_set fs = b32_set b \<union> b32_set a"
    by (auto simp: fs_def list_all_iff distinct_map)
  moreover have "bucket32_union b a = set_entries b fs"
    unfolding bucket32_union_def m_def [symmetric] split_beta es_def [symmetric] Let_def fs_def ..
  ultimately show ?thesis using set_entries_invar [of fs b] by (simp add: set_entries_def)
qed

lemma items_filter: "(\<And>e. \<not> P e \<Longrightarrow> el e = {}) \<Longrightarrow> items el (filter P es) = items el es"
  by (auto simp: items_def)

lemma merge_intersect_keys:
  "map fst (merge_intersect fst (\<lambda>x y. (fst x, f x y)) (\<lambda>x. (fst x, d)) xs ys) = map fst xs"
  by (induction xs ys rule: two_lists_induct) auto

lemma bucket32_intersect_correct:
  assumes "b32_invar b" "b32_invar a"
  shows "b32_invar (bucket32_intersect b a) \<and> b32_set (bucket32_intersect b a) = b32_set b \<inter> b32_set a
    \<and> b32_hi (bucket32_intersect b a) = b32_hi b"
proof -
  define es where "es = merge_intersect fst (\<lambda>x y. (fst x, bucket16_intersect (snd x) (snd y)))
                (\<lambda>x. (fst x, bucket16_default)) (entries b) (entries a)"
  define fs where "fs = filter (\<lambda>e. \<not> bucket16_is_zero (snd e)) es"
  have k: "map fst es = b16his b"
    unfolding es_def merge_intersect_keys by (simp add: assms)
  have "list_all (\<lambda>e. b16_invar (snd e)) es" "items entry_set es = b32_set b \<inter> b32_set a"
    unfolding es_def using meet32.merge_intersect_ok meet32.merge_intersect_items
    by (simp_all add: assms entries_facts b32_set_def del: map_fst_entries)
  moreover have "items entry_set fs = items entry_set es"
    unfolding fs_def by (rule items_filter) (simp add: entry_set_def bucket16_is_zero_empty)
  moreover have "sorted (map fst fs)" "distinct (map fst fs)"
    using k assms(1) unfolding fs_def
    by (auto simp: b32_invar_def strict_sorted_iff sorted_filter distinct_map_filter)
  ultimately have "b32_invar (set_entries b fs)" "b32_set (set_entries b fs) = b32_set b \<inter> b32_set a"
    using set_entries_invar [of fs b] by (auto simp: fs_def list_all_iff)
  moreover have "bucket32_intersect b a = (set_entries b fs)\<lparr>b32_hint := 0\<rparr>"
    by (simp add: bucket32_intersect_def es_def [symmetric] fs_def Let_def)
  ultimately show ?thesis by (simp add: set_entries_def)
qed

section \<open>Reading the values\<close>

lemma walk_parts_append:
  "walk_parts f s (ps @ qs) =
    (case walk_parts f s ps of (s, continue) \<Rightarrow> if continue then walk_parts f s qs else (s, False))"
  by (induction ps arbitrary: s) (auto split: prod.splits)

lemma walk_parts_all:
  "(\<And>s p. snd (f s p)) \<Longrightarrow> walk_parts f s ps = (foldl (\<lambda>s p. fst (f s p)) s ps, True)"
proof (induction ps arbitrary: s)
  case (Cons p ps)
  have "snd (f s p)" by (rule Cons.prems)
  with Cons show ?case by (simp add: split_beta)
qed simp

lemma for_each_loop32_walk:
  "for_each_loop32 f h s es = walk_parts f s (map (\<lambda>e. bucket16_append_to (snd e) [] h (fst e)) es)"
  by (induction f h s es rule: for_each_loop32.induct) (auto split: prod.splits)

lemma bucket32_for_each_walk: "bucket32_for_each f s b = walk_parts f s (bucket32_parts b)"
  by (simp add: bucket32_for_each_def for_each_loop32_walk bucket32_parts_def)

lemma compose64_combine: "compose64 h h16 v = compose32 h (combine32 h16 v)"
  by (rule bit_word_eqI) (auto simp: compose64_def compose32_def combine32_def bit_simps
      dest: bit_imp_le_length)

lemma unat_combine32: "unat (combine32 h v) = unat h * 65536 + unat v"
proof -
  have "push_bit 16 (ucast h :: u32) AND ucast v = 0"
    by (rule bit_word_eqI) (auto simp: bit_simps dest: bit_imp_le_length)
  then have "combine32 h v = push_bit 16 (ucast h) + ucast v"
    unfolding combine32_def by (rule disjunctive_add_eq_or [symmetric])
  also have "\<dots> = of_nat (unat h * 65536 + unat v)"
    by (simp add: push_bit_eq_mult mult.commute)
  finally have "unat (combine32 h v) = (unat h * 65536 + unat v) mod 2 ^ 32"
    by (simp only: unat_of_nat) simp
  moreover have "unat h < 65536" "unat v < 65536"
    using unsigned_less [of h, where ?'a = nat] unsigned_less [of v, where ?'a = nat] by simp_all
  ultimately show ?thesis by simp
qed

lemma combine32_less:
  "h < k \<Longrightarrow> combine32 h v < combine32 k w"
  "combine32 h v \<le> combine32 h w \<longleftrightarrow> v \<le> w"
proof -
  assume "h < k"
  then have "Suc (unat h) \<le> unat k" by (simp add: word_less_nat_alt)
  then have "Suc (unat h) * 65536 \<le> unat k * 65536" by (rule mult_le_mono1)
  moreover have "unat v < 65536" using unsigned_less [of v, where ?'a = nat] by simp
  ultimately show "combine32 h v < combine32 k w" by (simp add: word_less_nat_alt unat_combine32)
qed (simp add: word_le_nat_alt unat_combine32)

lemma entry_values_sorted:
  assumes "sorted_wrt (<) (map fst es)" "list_all (\<lambda>e. b16_invar (snd e)) es"
  shows "entry_values es = sorted_list_of_set (items entry_set es)"
proof (rule sorted_distinct_set_unique)
  have set: "set (entry_values es) = items entry_set es"
    using assms(2) by (auto simp: entry_values_def items_def entry_set_image list_all_iff b16.finite_elems)
  have "sorted (entry_values es) \<and> distinct (entry_values es)"
    using assms
  proof (induction es)
    case (Cons e es)
    define vs where "vs = map (combine32 (fst e)) (sorted_list_of_set (b16_set (snd e)))"
    have "sorted vs" unfolding vs_def sorted_map
      by (rule sorted_wrt_mono_rel [OF _ sorted_sorted_list_of_set]) (simp add: combine32_less)
    moreover have "distinct vs" unfolding vs_def distinct_map
      by (auto intro!: inj_onI) (metis combine32_parts(2))
    moreover have "x < y" if "x \<in> set vs" "y \<in> set (entry_values es)" for x y
      using that Cons.prems(1) by (auto simp: vs_def entry_values_def combine32_less)
    ultimately show ?case
      using Cons by (auto simp: entry_values_def vs_def [symmetric] sorted_append less_imp_le)
  qed (simp add: entry_values_def)
  then show "sorted (entry_values es)" "distinct (entry_values es)" by blast+
  have "finite (items entry_set es)" using set by (metis List.finite_set)
  then show "set (entry_values es) = set (sorted_list_of_set (items entry_set es))" by (simp add: set)
qed simp_all

lemma concat_bucket32_parts:
  assumes "b32_invar b"
  shows "concat (bucket32_parts b) = map (compose32 (b32_hi b)) (sorted_list_of_set (b32_set b))"
proof -
  have inv: "list_all (\<lambda>e. b16_invar (snd e)) (entries b)" using assms by (rule entries_ok)
  then have "concat (bucket32_parts b) = map (compose32 (b32_hi b)) (entry_values (entries b))"
    unfolding bucket32_parts_def entry_values_def map_concat map_map
    by (intro arg_cong [where f = concat])
       (auto simp: list_all_iff bucket16_append_to_eq compose64_combine)
  with entry_values_sorted [OF _ inv] assms show ?thesis by (simp add: b32_invar_def b32_set_def)
qed

lemma append_loop32_eq:
  "list_all (\<lambda>e. b16_invar (snd e)) es \<Longrightarrow>
   append_loop32 h dst es = dst @ concat (map (\<lambda>e. bucket16_append_to (snd e) [] h (fst e)) es)"
  by (induction h dst es rule: append_loop32.induct) (simp_all add: bucket16_append_to_eq)

lemma bucket32_append_to_eq:
  assumes "b32_invar b"
  shows "bucket32_append_to b dst = dst @ map (compose32 (b32_hi b)) (sorted_list_of_set (b32_set b))"
  using concat_bucket32_parts [OF assms] append_loop32_eq [OF entries_ok [OF assms]]
  by (simp add: bucket32_append_to_def bucket32_parts_def)

lemma bucket32_default_empty [simp]: "b32_invar bucket32_default" "b32_set bucket32_default = {}"
  by (simp_all add: b32_invar_def b32_set_def entries_def bucket32_default_def)

lemma bucket32_clone_same [simp]:
  "b32_invar (bucket32_clone b) = b32_invar b" "b32_set (bucket32_clone b) = b32_set b"
  "b32_hi (bucket32_clone b) = b32_hi b"
  by (simp_all add: b32_invar_def b32_set_def entries_def bucket32_clone_def)

lemma b32_hi_ops [simp]:
  "b32_hi (fst (bucket32_add b x)) = b32_hi b" "b32_hi (fst (bucket32_del b x)) = b32_hi b"
  by (simp_all add: bucket32_add_def bucket32_add_slow_def bucket32_del_def bucket32_del_slow_def
      at_bucket_def add_bucket_at_pos_def Let_def split_beta)

lemma b32_hi_merge [simp]:
  "b32_hi (bucket32_union b a) = b32_hi b" "b32_hi (bucket32_intersect b a) = b32_hi b"
  by (simp_all add: bucket32_union_def bucket32_intersect_def set_entries_def Let_def split_beta)

lemma b32_hi_flush16: "b32_hi (fst (flush16 b h seg)) = b32_hi b"
  by (simp add: flush16_def get_or_create_bucket16_def add_bucket_at_pos_def Let_def split_beta)

lemma b32_hi_add_multi_loop: "b32_hi (fst (add_multi_loop32 b count h seg rest)) = b32_hi b"
  by (induction b count h seg rest rule: add_multi_loop32.induct)
     (auto simp: Let_def split_beta b32_hi_flush16)

lemma b32_hi_add_multi [simp]: "b32_hi (fst (bucket32_add_multi b a)) = b32_hi b"
  by (simp add: bucket32_add_multi_def b32_hi_add_multi_loop)

end
