(* ===== verification/Uint64_Set.thy ===== *)
theory Uint64_Set
  imports Bucket32
begin

text \<open>
  The set of \<open>u64\<close> of \<open>crates/esm-common/src/uint64set.rs\<close>: a list of \<open>Bucket32\<close> keyed by the high
  32 bits, with a counter of items. All operations refine the operations on mathematical sets
  through \<open>uset_set\<close>; \<open>uset_invar\<close> is what they keep.

  Closures passed to \<open>for_each\<close> are functions of the state they capture. \<open>size_bytes\<close> estimates
  memory from struct sizes and is not modelled.
\<close>

section \<open>The representation\<close>

record uset =
  items_count :: nat
  s_buckets :: "bucket32 list"

definition uset_default :: uset where
  "uset_default = \<lparr>items_count = 0, s_buckets = []\<rparr>"

definition hi32 :: "u64 \<Rightarrow> u32" where
  "hi32 x = ucast (drop_bit 32 x)"

definition lo32 :: "u64 \<Rightarrow> u32" where
  "lo32 x = ucast x"

section \<open>Operations on single items\<close>

definition uset_clone :: "uset \<Rightarrow> uset" where
  "uset_clone s =
    (if items_count s = 0 then uset_default
     else \<lparr>items_count = items_count s, s_buckets = map bucket32_clone (s_buckets s)\<rparr>)"

definition uset_len :: "uset \<Rightarrow> nat" where
  "uset_len s = items_count s"

definition uset_is_empty :: "uset \<Rightarrow> bool" where
  "uset_is_empty s \<longleftrightarrow> items_count s = 0"

text \<open>Storing a bucket back together with the count of what was added.\<close>

definition put_bucket :: "uset \<Rightarrow> nat \<Rightarrow> bucket32 \<Rightarrow> nat \<Rightarrow> uset" where
  "put_bucket s i c n =
     s\<lparr>items_count := items_count s + n, s_buckets := (s_buckets s)[i := c]\<rparr>"

definition add_bucket32 :: "uset \<Rightarrow> uset \<times> nat" where
  "add_bucket32 s = (s\<lparr>s_buckets := s_buckets s @ [bucket32_default]\<rparr>, length (s_buckets s))"

definition get_or_create_bucket32 :: "uset \<Rightarrow> u32 \<Rightarrow> uset \<times> nat" where
  "get_or_create_bucket32 s h =
    (case position (\<lambda>b. b32_hi b = h) (s_buckets s) of
       Some pos \<Rightarrow> (s, pos)
     | None \<Rightarrow>
         (case add_bucket32 s of (s, i) \<Rightarrow>
            (s\<lparr>s_buckets := (s_buckets s)[i := (s_buckets s ! i)\<lparr>b32_hi := h\<rparr>]\<rparr>, i)))"

definition uset_add :: "uset \<Rightarrow> u64 \<Rightarrow> uset" where
  "uset_add s x =
    (if s_buckets s \<noteq> [] \<and> b32_hi (s_buckets s ! 0) = hi32 x then
       (let first = s_buckets s ! 0;
            h = hi16 (lo32 x);
            lo = lo16 (lo32 x);
            n = unat (b32_hint first);
            (first, added) =
              (if n < length (b16his first) \<and> b16his first ! n = h
               then at_bucket bucket16_add first n lo
               else bucket32_add_slow first h lo)
        in put_bucket s 0 first (if added then 1 else 0))
     else case position (\<lambda>b. b32_hi b = hi32 x) (s_buckets s) of
       Some i \<Rightarrow>
         (case bucket32_add (s_buckets s ! i) (lo32 x) of
            (c, added) \<Rightarrow> put_bucket s i c (if added then 1 else 0))
     | None \<Rightarrow>
         (case add_bucket32 s of (s, i) \<Rightarrow>
            put_bucket s i
              (fst (bucket32_add ((s_buckets s ! i)\<lparr>b32_hi := hi32 x\<rparr>) (lo32 x))) 1))"

definition flush32 :: "uset \<Rightarrow> u32 \<Rightarrow> u64 list \<Rightarrow> uset" where
  "flush32 s hi_prev seg =
    (case get_or_create_bucket32 s hi_prev of (s, i) \<Rightarrow>
       (case bucket32_add_multi (s_buckets s ! i) seg of (c, count) \<Rightarrow> put_bucket s i c count))"

fun add_multi_loop :: "uset \<Rightarrow> u32 \<Rightarrow> u64 list \<Rightarrow> u64 list \<Rightarrow> uset" where
  "add_multi_loop s hi_prev seg [] = flush32 s hi_prev seg"
| "add_multi_loop s hi_prev seg (x # rest) =
    (if hi32 x = hi_prev then add_multi_loop s hi_prev (seg @ [x]) rest
     else add_multi_loop (flush32 s hi_prev seg) (hi32 x) [x] rest)"

definition uset_add_multi :: "uset \<Rightarrow> u64 list \<Rightarrow> uset" where
  "uset_add_multi s a = (if a = [] then s else add_multi_loop s (hi32 (a ! 0)) [] a)"

definition uset_has :: "uset \<Rightarrow> u64 \<Rightarrow> bool" where
  "uset_has s x =
    (case position (\<lambda>b. b32_hi b = hi32 x) (s_buckets s) of
       Some i \<Rightarrow> bucket32_has (s_buckets s ! i) (lo32 x)
     | None \<Rightarrow> False)"

definition del_at :: "uset \<Rightarrow> nat \<Rightarrow> u32 \<Rightarrow> uset" where
  "del_at s i lo =
    (case bucket32_del (s_buckets s ! i) lo of
       (c, ok) \<Rightarrow> s\<lparr>items_count := (if ok then items_count s - 1 else items_count s),
                      s_buckets := (s_buckets s)[i := c]\<rparr>)"

definition uset_del :: "uset \<Rightarrow> u64 \<Rightarrow> uset" where
  "uset_del s x =
    (if s_buckets s \<noteq> [] \<and> b32_hi (s_buckets s ! 0) = hi32 x then del_at s 0 (lo32 x)
     else case position (\<lambda>b. b32_hi b = hi32 x) (s_buckets s) of
       Some i \<Rightarrow> del_at s i (lo32 x)
     | None \<Rightarrow> s)"

section \<open>Iteration\<close>

fun for_each_loop ::
  "('s \<Rightarrow> u64 list \<Rightarrow> 's \<times> bool) \<Rightarrow> 's \<Rightarrow> bucket32 list \<Rightarrow> 's" where
  "for_each_loop f st [] = st"
| "for_each_loop f st (b32 # bs) =
    (case bucket32_for_each f st b32 of
       (st, continue) \<Rightarrow> if \<not> continue then st else for_each_loop f st bs)"

definition uset_for_each :: "('s \<Rightarrow> u64 list \<Rightarrow> 's \<times> bool) \<Rightarrow> 's \<Rightarrow> uset \<Rightarrow> 's" where
  "uset_for_each f st s = for_each_loop f st (s_buckets s)"

definition uset_sort :: "uset \<Rightarrow> uset" where
  "uset_sort s =
    (if \<not> sorted (map b32_hi (s_buckets s)) then s\<lparr>s_buckets := sort_key b32_hi (s_buckets s)\<rparr>
     else s)"

definition uset_append_to :: "uset \<Rightarrow> u64 list \<Rightarrow> uset \<times> u64 list" where
  "uset_append_to s dst =
    (let s = uset_sort s in (s, foldl (\<lambda>dst b32. bucket32_append_to b32 dst) dst (s_buckets s)))"

definition sorted_bucket_order :: "uset \<Rightarrow> nat list" where
  "sorted_bucket_order a = sort_key (\<lambda>k. b32_hi (s_buckets a ! k)) [0..<length (s_buckets a)]"

definition fix_items_count :: "uset \<Rightarrow> uset" where
  "fix_items_count s =
     s\<lparr>items_count := foldl (\<lambda>n b32. n + bucket32_get_len b32) 0 (s_buckets s)\<rparr>"

section \<open>Operations on two sets\<close>

definition union_internal :: "uset \<Rightarrow> uset \<Rightarrow> uset" where
  "union_internal s a =
    (if uset_is_empty a then s
     else if uset_is_empty s then uset_clone a
     else
       let order = sorted_bucket_order a;
           s = uset_sort s
       in case merge_union b32_hi bucket32_union bucket32_clone (s_buckets s)
                 (map (\<lambda>k. s_buckets a ! k) order) of
            (us, ps) \<Rightarrow> fix_items_count (s\<lparr>s_buckets := us @ ps\<rparr>))"

definition uset_union :: "uset \<Rightarrow> uset \<Rightarrow> uset" where
  "uset_union s a = union_internal s a"

definition union_may_own :: "uset \<Rightarrow> uset \<Rightarrow> uset" where
  "union_may_own s a = union_internal s a"

definition uset_intersect :: "uset \<Rightarrow> uset \<Rightarrow> uset" where
  "uset_intersect s a =
    (if uset_is_empty s \<or> uset_is_empty a then uset_default
     else
       let order = sorted_bucket_order a;
           s = uset_sort s
       in fix_items_count
            (s\<lparr>s_buckets := merge_intersect b32_hi bucket32_intersect (\<lambda>_. bucket32_default)
                 (s_buckets s) (map (\<lambda>k. s_buckets a ! k) order)\<rparr>))"

definition uset_subtract :: "uset \<Rightarrow> uset \<Rightarrow> uset" where
  "uset_subtract s a =
    (if uset_is_empty s \<or> uset_is_empty a then s
     else if uset_len s \<ge> uset_len a then
       uset_for_each (\<lambda>s part. (foldl uset_del s part, True)) s a
     else
       let to_del = uset_for_each (\<lambda>acc part. (acc @ filter (uset_has a) part, True)) [] s
       in foldl uset_del s to_del)"

definition uset_equal :: "uset \<Rightarrow> uset \<Rightarrow> bool" where
  "uset_equal s a =
    (if uset_len s \<noteq> uset_len a then False
     else uset_for_each
            (\<lambda>equal part. if list_ex (\<lambda>x. \<not> uset_has s x) part then (False, False) else (equal, True))
            True a)"

section \<open>Encoding\<close>

definition uset_marshal :: "uset \<Rightarrow> bytes \<Rightarrow> bytes" where
  "uset_marshal s dst =
     uset_for_each (\<lambda>dst part. (foldl (\<lambda>dst e. dst @ to_be_bytes e) dst part, True))
       (dst @ to_be_bytes (of_nat (uset_len s) :: u64)) s"

datatype uset_err = SetNoLength nat | SetTruncated nat u64

fun unmarshal_loop :: "nat \<Rightarrow> uset \<Rightarrow> bytes \<Rightarrow> uset \<times> bytes" where
  "unmarshal_loop 0 s src = (s, src)"
| "unmarshal_loop (Suc n) s src =
     unmarshal_loop n (uset_add s (from_be_bytes (take 8 src))) (drop 8 src)"

definition uset_unmarshal :: "bytes \<Rightarrow> (uset_err, uset \<times> bytes) res" where
  "uset_unmarshal src =
    (if length src < 8 then Inl (Err (SetNoLength (length src)))
     else
       let s_len = from_be_bytes (take 8 src) :: u64;
           src = drop 8 src
       in if (of_nat (length src) :: u64) div 8 < s_len
          then Inl (Err (SetTruncated (length src) (8 * s_len)))
          else Inr (unmarshal_loop (unat s_len) uset_default src))"

section \<open>Abstraction and invariant\<close>

definition bucket_set :: "bucket32 \<Rightarrow> u64 set" where
  "bucket_set b = {x. hi32 x = b32_hi b \<and> lo32 x \<in> b32_set b}"

definition uset_set :: "uset \<Rightarrow> u64 set" where
  "uset_set s = items bucket_set (s_buckets s)"

definition buckets_ok :: "bucket32 list \<Rightarrow> bool" where
  "buckets_ok bs \<longleftrightarrow> list_all b32_invar bs \<and> firsts b32_hi bucket_set bs"

definition uset_invar :: "uset \<Rightarrow> bool" where
  "uset_invar s \<longleftrightarrow> buckets_ok (s_buckets s) \<and> items_count s = card (uset_set s)"

text \<open>The first bucket of a key, as the loops of the source find it.\<close>

definition first_at :: "bucket32 list \<Rightarrow> u32 \<Rightarrow> nat \<Rightarrow> bool" where
  "first_at bs h i \<longleftrightarrow> i < length bs \<and> b32_hi (bs ! i) = h \<and> (\<forall>m < i. b32_hi (bs ! m) \<noteq> h)"

section \<open>Programs over sets\<close>

text \<open>
  The parts handed to the closure of \<open>for_each\<close>, and programs built from the operations with
  the set each denotes.
\<close>

definition uset_parts :: "uset \<Rightarrow> u64 list list" where
  "uset_parts s = concat (map bucket32_parts (s_buckets s))"

datatype uset_prog =
    Empty
  | Add uset_prog u64
  | AddMulti uset_prog "u64 list"
  | Del uset_prog u64
  | Union uset_prog uset_prog
  | Intersect uset_prog uset_prog
  | Subtract uset_prog uset_prog
  | Clone uset_prog

primrec run_uset :: "uset_prog \<Rightarrow> uset" where
  "run_uset Empty = uset_default"
| "run_uset (Add e x) = uset_add (run_uset e) x"
| "run_uset (AddMulti e xs) = uset_add_multi (run_uset e) xs"
| "run_uset (Del e x) = uset_del (run_uset e) x"
| "run_uset (Union e f) = uset_union (run_uset e) (run_uset f)"
| "run_uset (Intersect e f) = uset_intersect (run_uset e) (run_uset f)"
| "run_uset (Subtract e f) = uset_subtract (run_uset e) (run_uset f)"
| "run_uset (Clone e) = uset_clone (run_uset e)"

primrec uset_meaning :: "uset_prog \<Rightarrow> u64 set" where
  "uset_meaning Empty = {}"
| "uset_meaning (Add e x) = insert x (uset_meaning e)"
| "uset_meaning (AddMulti e xs) = uset_meaning e \<union> set xs"
| "uset_meaning (Del e x) = uset_meaning e - {x}"
| "uset_meaning (Union e f) = uset_meaning e \<union> uset_meaning f"
| "uset_meaning (Intersect e f) = uset_meaning e \<inter> uset_meaning f"
| "uset_meaning (Subtract e f) = uset_meaning e - uset_meaning f"
| "uset_meaning (Clone e) = uset_meaning e"

section \<open>Lists of buckets\<close>

lemma hi32_lo32_eq: "hi32 x = hi32 y \<Longrightarrow> lo32 x = lo32 y \<Longrightarrow> x = y"
proof (rule word64_eqI)
  fix n :: nat assume h: "hi32 x = hi32 y" "lo32 x = lo32 y" "n < 64"
  show "bit x n = bit y n"
  proof (cases "n < 32")
    case True
    with arg_cong [OF h(2), of "\<lambda>w. bit w n"] show ?thesis by (simp add: lo32_def bit_simps)
  next
    case False
    then have "n - 32 < 32" using h(3) by simp
    with False arg_cong [OF h(1), of "\<lambda>w. bit w (n - 32)"] show ?thesis
      by (simp add: hi32_def bit_simps)
  qed
qed

lemma compose32_parts [simp]: "hi32 (compose32 h x) = h" "lo32 (compose32 h x) = x"
  by (rule bit_word_eqI, auto simp: compose32_def hi32_def lo32_def bit_simps
      dest: bit_imp_le_length)+

lemma compose32_hi_lo [simp]: "compose32 (hi32 x) (lo32 x) = x"
  by (rule hi32_lo32_eq) simp_all

lemma bucket_set_image: "bucket_set b = compose32 (b32_hi b) ` b32_set b"
proof -
  have "x \<in> bucket_set b \<longleftrightarrow> x \<in> compose32 (b32_hi b) ` b32_set b" for x
    unfolding bucket_set_def image_iff by (auto intro: hi32_lo32_eq) (metis compose32_hi_lo)
  then show ?thesis by blast
qed

lemma bucket_set_empty: "bucket_set b = {} \<longleftrightarrow> b32_set b = {}"
  by (simp add: bucket_set_image)

lemma finite_bucket_set: "b32_invar b \<Longrightarrow> finite (bucket_set b)"
  by (simp add: bucket_set_image b32.finite_elems)

lemma card_bucket_set: "card (bucket_set b) = card (b32_set b)"
  unfolding bucket_set_image by (intro card_image inj_onI) (metis compose32_parts(2))

lemma finite_items: "list_all b32_invar bs \<Longrightarrow> finite (items bucket_set bs)"
  by (induction bs) (simp_all add: finite_bucket_set)

lemma card_items_buckets:
  assumes "buckets_ok bs"
  shows "card (items bucket_set bs) = sum_list (map (\<lambda>b. card (b32_set b)) bs)"
  using assms
proof (induction bs)
  case (Cons b bs)
  then have ok: "b32_invar b" "buckets_ok bs" "\<forall>c \<in> set bs. b32_hi c = b32_hi b \<longrightarrow> bucket_set c = {}"
    by (auto simp: buckets_ok_def)
  have "z \<notin> bucket_set c" if "c \<in> set bs" "z \<in> bucket_set b" for c z
    using that ok(3) by (auto simp: bucket_set_def)
  then have "bucket_set b \<inter> items bucket_set bs = {}" by (auto simp: items_def)
  moreover have "finite (items bucket_set bs)" using ok(2) by (simp add: buckets_ok_def finite_items)
  ultimately show ?case
    using Cons ok finite_bucket_set [OF ok(1)] by (simp add: card_Un_disjoint card_bucket_set)
qed simp

lemma firsts_update:
  assumes "firsts key el bs" "n < length bs" "\<forall>m < n. key (bs ! m) \<noteq> key (bs ! n)"
    "key c = key (bs ! n)"
  shows "firsts key el (bs[n := c])"
  using assms
proof (induction bs arbitrary: n)
  case (Cons b bs)
  show ?case
  proof (cases n)
    case 0
    with Cons.prems show ?thesis by auto
  next
    case (Suc k)
    have "key b \<noteq> key (bs ! k)" using Cons.prems(3) Suc by auto
    moreover have "\<forall>m < k. key (bs ! m) \<noteq> key (bs ! k)" using Cons.prems(3) Suc by auto
    ultimately show ?thesis
      using Cons Suc by (auto dest: set_update_subset_insert [THEN subsetD])
  qed
qed simp

lemma firsts_shrink:
  assumes "firsts key el bs" "n < length bs" "el c \<subseteq> el (bs ! n)" "key c = key (bs ! n)"
  shows "firsts key el (bs[n := c])"
  using assms
proof (induction bs arbitrary: n)
  case (Cons b bs)
  show ?case
  proof (cases n)
    case 0
    with Cons.prems show ?thesis by auto
  next
    case (Suc k)
    with Cons.prems have "bs ! k \<in> set bs" by simp
    with Cons Suc show ?thesis by (auto dest!: set_update_subset_insert [THEN subsetD])
  qed
qed simp

lemma position_first:
  assumes "position P bs = Some i"
  shows "i < length bs" "P (bs ! i)" "\<forall>m < i. \<not> P (bs ! m)"
proof -
  have i: "i = length (takeWhile (\<lambda>x. \<not> P x) bs)" "i < length bs"
    using assms by (auto simp: position_def Let_def split: if_splits)
  then show "i < length bs" "P (bs ! i)" using nth_length_takeWhile [of "\<lambda>x. \<not> P x" bs] by auto
  show "\<forall>m < i. \<not> P (bs ! m)"
    using i by (metis nth_mem set_takeWhileD takeWhile_nth)
qed

lemma first_at_position: "position (\<lambda>b. b32_hi b = h) bs = Some i \<Longrightarrow> first_at bs h i"
  using position_first [of "\<lambda>b. b32_hi b = h" bs i] by (auto simp: first_at_def)

lemma first_at_0: "bs \<noteq> [] \<Longrightarrow> b32_hi (bs ! 0) = h \<Longrightarrow> first_at bs h 0"
  by (simp add: first_at_def)

lemma first_at_mem:
  assumes "buckets_ok bs" "first_at bs (hi32 x) i"
  shows "x \<in> items bucket_set bs \<longleftrightarrow> lo32 x \<in> b32_set (bs ! i)"
proof
  assume "x \<in> items bucket_set bs"
  then obtain m where m: "m < length bs" "x \<in> bucket_set (bs ! m)" by (auto simp: items_mem)
  have "m = i"
  proof (rule ccontr)
    assume "m \<noteq> i"
    then have "bucket_set (bs ! m) = {}"
      using assms m by (intro firsts_first [of b32_hi bucket_set bs i m])
        (auto simp: buckets_ok_def first_at_def bucket_set_def)
    with m(2) show False by simp
  qed
  with m show "lo32 x \<in> b32_set (bs ! i)" by (simp add: bucket_set_def)
next
  assume "lo32 x \<in> b32_set (bs ! i)"
  with assms(2) show "x \<in> items bucket_set bs"
    by (auto simp: items_mem first_at_def bucket_set_def)
qed

lemma first_at_update:
  assumes "buckets_ok bs" "first_at bs h i" "b32_invar c" "b32_hi c = h" "b32_set c = b32_set (bs ! i) \<union> A"
  shows "buckets_ok (bs[i := c])"
    "items bucket_set (bs[i := c]) = items bucket_set bs \<union> {x. hi32 x = h \<and> lo32 x \<in> A}"
proof -
  have i: "i < length bs" "b32_hi (bs ! i) = h" "\<forall>m < i. b32_hi (bs ! m) \<noteq> h"
    using assms(2) by (auto simp: first_at_def)
  show "buckets_ok (bs[i := c])"
    using assms(1,3,4) i firsts_update [of b32_hi bucket_set bs i c]
    by (auto simp: buckets_ok_def list_all_length nth_list_update)
  show "items bucket_set (bs[i := c]) = items bucket_set bs \<union> {x. hi32 x = h \<and> lo32 x \<in> A}"
    using i assms(4,5) by (intro items_update_insert) (auto simp: bucket_set_def)
qed

lemma first_at_remove:
  assumes "buckets_ok bs" "first_at bs (hi32 x) i" "b32_invar c" "b32_hi c = hi32 x"
    "b32_set c = b32_set (bs ! i) - {lo32 x}"
  shows "buckets_ok (bs[i := c])" "items bucket_set (bs[i := c]) = items bucket_set bs - {x}"
proof -
  have i: "i < length bs" "b32_hi (bs ! i) = hi32 x" "\<forall>m < i. b32_hi (bs ! m) \<noteq> hi32 x"
    using assms(2) by (auto simp: first_at_def)
  show "buckets_ok (bs[i := c])"
    using assms(1,3,4) i firsts_update [of b32_hi bucket_set bs i c]
    by (auto simp: buckets_ok_def list_all_length nth_list_update)
  show "items bucket_set (bs[i := c]) = items bucket_set bs - {x}"
  proof (rule items_update_remove)
    show "bucket_set c = bucket_set (bs ! i) - {x}"
      using i assms(4,5) hi32_lo32_eq by (auto simp: bucket_set_def)
    show "x \<notin> bucket_set (bs ! m)" if "m < length bs" "m \<noteq> i" for m
    proof
      assume x: "x \<in> bucket_set (bs ! m)"
      then have "bucket_set (bs ! m) = {}"
        using assms(1) i that by (intro firsts_first [of b32_hi bucket_set bs i m])
          (auto simp: buckets_ok_def bucket_set_def)
      with x show False by simp
    qed
  qed (rule i(1))
qed

section \<open>Single items\<close>

lemma single32: "{z. hi32 z = hi32 x \<and> lo32 z \<in> {lo32 x}} = {x}"
  using hi32_lo32_eq by auto

lemma put_bucket_correct:
  assumes "uset_invar s" "first_at (s_buckets s) h i" "b32_invar c" "b32_hi c = h"
    "b32_set c = b32_set (s_buckets s ! i) \<union> A" "n + card (b32_set (s_buckets s ! i)) = card (b32_set c)"
  shows "uset_invar (put_bucket s i c n)"
    "uset_set (put_bucket s i c n) = uset_set s \<union> {x. hi32 x = h \<and> lo32 x \<in> A}"
proof -
  have ok: "buckets_ok (s_buckets s)" using assms(1) by (simp add: uset_invar_def)
  note u = first_at_update [OF ok assms(2-5)]
  show set: "uset_set (put_bucket s i c n) = uset_set s \<union> {x. hi32 x = h \<and> lo32 x \<in> A}"
    using u(2) by (simp add: uset_set_def put_bucket_def)
  have i: "i < length (s_buckets s)" using assms(2) by (simp add: first_at_def)
  define cs where "cs = map (\<lambda>b. card (b32_set b)) (s_buckets s)"
  have "card (uset_set (put_bucket s i c n)) = sum_list (cs[i := card (b32_set c)])"
    using card_items_buckets [OF u(1)] by (simp add: uset_set_def put_bucket_def cs_def map_update)
  also have "\<dots> = sum_list cs + card (b32_set c) - cs ! i"
    using i by (intro sum_list_update) (simp add: cs_def)
  also have "\<dots> = items_count s + n"
    using assms(1,6) card_items_buckets [OF ok] i by (simp add: uset_invar_def uset_set_def cs_def)
  finally show "uset_invar (put_bucket s i c n)"
    using u(1) by (simp add: uset_invar_def) (simp add: put_bucket_def)
qed

lemma add_at_correct:
  assumes "uset_invar s" "first_at (s_buckets s) (hi32 x) i"
    "bucket32_add (s_buckets s ! i) (lo32 x) = (c, added)"
  shows "uset_invar (put_bucket s i c (if added then 1 else 0))"
    "uset_set (put_bucket s i c (if added then 1 else 0)) = insert x (uset_set s)"
proof -
  have inv: "b32_invar (s_buckets s ! i)" "b32_hi (s_buckets s ! i) = hi32 x"
    using assms(1,2) by (auto simp: uset_invar_def buckets_ok_def list_all_length first_at_def)
  have c: "b32_invar c" "b32_hi c = hi32 x" "b32_set c = b32_set (s_buckets s ! i) \<union> {lo32 x}"
    "(if added then 1 else 0) + card (b32_set (s_buckets s ! i)) = card (b32_set c)"
    using b32.invar_add [OF inv(1), of "lo32 x"] b32.elems_add [OF inv(1), of "lo32 x"]
      b32.card_add [OF inv(1), of "lo32 x"] b32_hi_ops(1) [of "s_buckets s ! i" "lo32 x"] inv(2) assms(3)
    by simp_all
  note p = put_bucket_correct [OF assms(1,2) c]
  show "uset_invar (put_bucket s i c (if added then 1 else 0))" by (rule p(1))
  show "uset_set (put_bucket s i c (if added then 1 else 0)) = insert x (uset_set s)"
    using p(2) single32 [of x] by simp
qed

text \<open>A new bucket for a key no bucket has.\<close>

lemma push_bucket:
  assumes "uset_invar s" "position (\<lambda>b. b32_hi b = h) (s_buckets s) = None"
    "t = s\<lparr>s_buckets := s_buckets s @ [bucket32_default\<lparr>b32_hi := h\<rparr>]\<rparr>"
  shows "uset_invar t" "uset_set t = uset_set s" "first_at (s_buckets t) h (length (s_buckets s))"
proof -
  have e: "bucket_set (bucket32_default\<lparr>b32_hi := h\<rparr>) = {}" "b32_invar (bucket32_default\<lparr>b32_hi := h\<rparr>)"
    by (simp_all add: bucket_set_empty b32_invar_def b32_set_def entries_def bucket32_default_def)
  have n: "\<forall>b \<in> set (s_buckets s). b32_hi b \<noteq> h" using assms(2) by (simp add: position_none)
  show set: "uset_set t = uset_set s" using e(1) by (simp add: assms(3) uset_set_def)
  show "uset_invar t"
    using assms(1) e n set
    by (auto simp: uset_invar_def buckets_ok_def firsts_append assms(3))
  show "first_at (s_buckets t) h (length (s_buckets s))"
    using n by (auto simp: first_at_def assms(3) nth_append)
qed

lemma uset_add_correct:
  assumes "uset_invar s"
  shows "uset_invar (uset_add s x) \<and> uset_set (uset_add s x) = insert x (uset_set s)"
proof (cases "s_buckets s \<noteq> [] \<and> b32_hi (s_buckets s ! 0) = hi32 x")
  case True
  obtain c added where c: "bucket32_add (s_buckets s ! 0) (lo32 x) = (c, added)" by fastforce
  then have "uset_add s x = put_bucket s 0 c (if added then 1 else 0)"
    using True by (simp add: uset_add_def bucket32_add_def Let_def)
  with add_at_correct [OF assms _ c] first_at_0 True show ?thesis by simp
next
  case False
  show ?thesis
  proof (cases "position (\<lambda>b. b32_hi b = hi32 x) (s_buckets s)")
    case (Some i)
    obtain c added where c: "bucket32_add (s_buckets s ! i) (lo32 x) = (c, added)" by fastforce
    then have "uset_add s x = put_bucket s i c (if added then 1 else 0)"
      using False Some by (auto simp: uset_add_def)
    with add_at_correct [OF assms first_at_position [OF Some] c] show ?thesis by simp
  next
    case None
    define t where "t = s\<lparr>s_buckets := s_buckets s @ [bucket32_default\<lparr>b32_hi := hi32 x\<rparr>]\<rparr>"
    note t = push_bucket [OF assms None t_def]
    define i where "i = length (s_buckets s)"
    have b: "s_buckets t ! i = bucket32_default\<lparr>b32_hi := hi32 x\<rparr>" by (simp add: t_def i_def)
    obtain c added where c: "bucket32_add (s_buckets t ! i) (lo32 x) = (c, added)" by fastforce
    have "b32_invar (s_buckets t ! i)" "lo32 x \<notin> b32_set (s_buckets t ! i)"
      unfolding b by (simp_all add: b32_invar_def b32_set_def entries_def bucket32_default_def)
    then have added using b32.add_flag [of "s_buckets t ! i" "lo32 x"] c by simp
    have "uset_add s x = put_bucket t i c 1"
    proof -
      have "uset_add s x = put_bucket (fst (add_bucket32 s)) i c 1"
        using False None c b by (auto simp: uset_add_def add_bucket32_def i_def)
      also have "\<dots> = put_bucket t i c 1"
        by (simp add: put_bucket_def add_bucket32_def t_def i_def)
      finally show ?thesis .
    qed
    with add_at_correct [OF t(1) _ c] t(2,3) \<open>added\<close> show ?thesis by (simp add: i_def)
  qed
qed

lemma del_at_correct:
  assumes "uset_invar s" "first_at (s_buckets s) (hi32 x) i"
  shows "uset_invar (del_at s i (lo32 x)) \<and> uset_set (del_at s i (lo32 x)) = uset_set s - {x}"
proof -
  obtain c ok where d: "bucket32_del (s_buckets s ! i) (lo32 x) = (c, ok)" by fastforce
  have inv: "buckets_ok (s_buckets s)" "b32_invar (s_buckets s ! i)" "b32_hi (s_buckets s ! i) = hi32 x"
    using assms by (auto simp: uset_invar_def buckets_ok_def list_all_length first_at_def)
  have c: "b32_invar c" "b32_hi c = hi32 x" "b32_set c = b32_set (s_buckets s ! i) - {lo32 x}"
    "ok \<longleftrightarrow> lo32 x \<in> b32_set (s_buckets s ! i)"
    using b32.invar_del [OF inv(2), of "lo32 x"] b32.elems_del [OF inv(2), of "lo32 x"]
      b32.del_flag [OF inv(2), of "lo32 x"] b32_hi_ops(2) [of "s_buckets s ! i" "lo32 x"] inv(3) d
    by simp_all
  note r = first_at_remove [OF inv(1) assms(2) c(1-3)]
  have set: "uset_set (del_at s i (lo32 x)) = uset_set s - {x}"
    using r(2) d by (simp add: uset_set_def del_at_def)
  have "ok \<longleftrightarrow> x \<in> uset_set s"
    using c(4) first_at_mem [OF inv(1) assms(2)] by (simp add: uset_set_def)
  moreover have "finite (uset_set s)" using inv(1) by (simp add: uset_set_def buckets_ok_def finite_items)
  ultimately have "items_count (del_at s i (lo32 x)) = card (uset_set s - {x})"
    using assms(1) d by (simp add: del_at_def uset_invar_def card_Diff_singleton)
  with set r(1) d show ?thesis by (simp add: uset_invar_def) (simp add: del_at_def)
qed

lemma absent_key:
  assumes "position (\<lambda>b. b32_hi b = hi32 x) (s_buckets s) = None"
  shows "x \<notin> uset_set s"
  using assms by (auto simp: position_none uset_set_def items_def bucket_set_def)

lemma uset_del_correct:
  assumes "uset_invar s"
  shows "uset_invar (uset_del s x) \<and> uset_set (uset_del s x) = uset_set s - {x}"
  using assms del_at_correct [OF assms] first_at_0 [of "s_buckets s" "hi32 x"]
    first_at_position [of "hi32 x" "s_buckets s"] absent_key [of x s]
  by (auto simp: uset_del_def split: option.splits)

lemma uset_has_iff:
  assumes "uset_invar s"
  shows "uset_has s x \<longleftrightarrow> x \<in> uset_set s"
proof (cases "position (\<lambda>b. b32_hi b = hi32 x) (s_buckets s)")
  case None
  with absent_key [OF None] show ?thesis by (simp add: uset_has_def)
next
  case (Some i)
  note f = first_at_position [OF Some]
  have "b32_invar (s_buckets s ! i)" "buckets_ok (s_buckets s)"
    using assms f by (auto simp: uset_invar_def buckets_ok_def list_all_length first_at_def)
  with Some first_at_mem [OF _ f] show ?thesis
    by (simp add: uset_has_def b32.has_iff uset_set_def)
qed

lemma finite_uset_set: "uset_invar s \<Longrightarrow> finite (uset_set s)"
  by (simp add: uset_set_def uset_invar_def buckets_ok_def finite_items)

interpretation uset: set_rep uset_invar uset_set uset_add uset_del uset_has
  by unfold_locales (simp_all add: uset_add_correct uset_del_correct uset_has_iff finite_uset_set)

lemma uset_default_empty [simp]: "uset_invar uset_default" "uset_set uset_default = {}"
  by (simp_all add: uset_invar_def uset_set_def uset_default_def buckets_ok_def)

lemma uset_is_empty_iff: "uset_invar s \<Longrightarrow> uset_is_empty s \<longleftrightarrow> uset_set s = {}"
  using finite_uset_set [of s] by (simp add: uset_is_empty_def uset_invar_def)

lemma uset_len_card: "uset_invar s \<Longrightarrow> uset_len s = card (uset_set s)"
  by (simp add: uset_len_def uset_invar_def)

section \<open>Bulk insertion\<close>

lemma flush32_correct:
  assumes "uset_invar s" "\<forall>x \<in> set seg. hi32 x = h"
  shows "uset_invar (flush32 s h seg) \<and> uset_set (flush32 s h seg) = uset_set s \<union> set seg"
proof -
  obtain t i where t: "get_or_create_bucket32 s h = (t, i)" by fastforce
  have g: "uset_invar t" "uset_set t = uset_set s" "first_at (s_buckets t) h i"
  proof -
    have "uset_invar t \<and> uset_set t = uset_set s \<and> first_at (s_buckets t) h i"
    proof (cases "position (\<lambda>b. b32_hi b = h) (s_buckets s)")
      case None
      with t have "t = s\<lparr>s_buckets := s_buckets s @ [bucket32_default\<lparr>b32_hi := h\<rparr>]\<rparr>"
        "i = length (s_buckets s)" by (auto simp: get_or_create_bucket32_def add_bucket32_def)
      with push_bucket [OF assms(1) None] show ?thesis by blast
    next
      case (Some k)
      with t first_at_position [OF Some] assms(1) show ?thesis by (simp add: get_or_create_bucket32_def)
    qed
    then show "uset_invar t" "uset_set t = uset_set s" "first_at (s_buckets t) h i" by blast+
  qed
  obtain c n where c: "bucket32_add_multi (s_buckets t ! i) seg = (c, n)" by fastforce
  have inv: "b32_invar (s_buckets t ! i)" "b32_hi (s_buckets t ! i) = h"
    using g by (auto simp: uset_invar_def buckets_ok_def list_all_length first_at_def)
  note a = bucket32_add_multi_correct [OF inv(1) c]
  have "b32_hi c = h" using b32_hi_add_multi [of "s_buckets t ! i" seg] c inv(2) by simp
  then have p: "uset_invar (put_bucket t i c n)"
    "uset_set (put_bucket t i c n) = uset_set t \<union> {x. hi32 x = h \<and> lo32 x \<in> ucast ` set seg}"
    using put_bucket_correct [OF g(1,3)] a by simp_all
  moreover have "{x. hi32 x = h \<and> lo32 x \<in> ucast ` set seg} = set seg"
  proof -
    have "x \<in> set seg" if "hi32 x = h" "lo32 x = lo32 y" "y \<in> set seg" for x y
      using that assms(2) hi32_lo32_eq [of x y] by auto
    then show ?thesis using assms(2) by (auto simp: lo32_def [symmetric])
  qed
  moreover have "flush32 s h seg = put_bucket t i c n" by (simp add: flush32_def t c)
  ultimately show ?thesis using g(2) by simp
qed

lemma add_multi_loop_correct:
  assumes "uset_invar s" "\<forall>x \<in> set seg. hi32 x = h"
  shows "uset_invar (add_multi_loop s h seg rest)
    \<and> uset_set (add_multi_loop s h seg rest) = uset_set s \<union> set seg \<union> set rest"
  using assms
proof (induction s h seg rest rule: add_multi_loop.induct)
  case (1 s h seg)
  with flush32_correct show ?case by simp
next
  case (2 s h seg x rest)
  show ?case
  proof (cases "hi32 x = h")
    case True
    with 2 show ?thesis by auto
  next
    case False
    define t where "t = flush32 s h seg"
    have t: "uset_invar t" "uset_set t = uset_set s \<union> set seg"
      using flush32_correct [OF "2.prems"] by (simp_all add: t_def)
    have "uset_invar (add_multi_loop t (hi32 x) [x] rest)
        \<and> uset_set (add_multi_loop t (hi32 x) [x] rest) = uset_set t \<union> set [x] \<union> set rest"
      using "2.IH"(2) [OF False] t(1) by (simp add: t_def)
    with False t(2) show ?thesis by (simp add: t_def)
  qed
qed

lemma uset_add_multi_correct:
  assumes "uset_invar s"
  shows "uset_invar (uset_add_multi s a) \<and> uset_set (uset_add_multi s a) = uset_set s \<union> set a"
  using add_multi_loop_correct [OF assms, of "[]" "hi32 (a ! 0)" a] assms
  by (auto simp: uset_add_multi_def)

section \<open>Iteration\<close>

lemma for_each_loop_walk:
  "for_each_loop f st bs = fst (walk_parts f st (concat (map bucket32_parts bs)))"
  by (induction bs arbitrary: st)
     (auto simp: walk_parts_append bucket32_for_each_walk split: prod.splits)

lemma uset_for_each_walk: "uset_for_each f st s = fst (walk_parts f st (uset_parts s))"
  by (simp add: uset_for_each_def uset_parts_def for_each_loop_walk)

lemma uset_for_each_all:
  assumes "\<And>st part. snd (f st part)"
  shows "uset_for_each f st s = foldl (\<lambda>st part. fst (f st part)) st (uset_parts s)"
  by (simp add: uset_for_each_walk walk_parts_all [of f, OF assms])

text \<open>All items once: the concatenation of the parts.\<close>

lemma concat_parts_buckets:
  "list_all b32_invar bs \<Longrightarrow> concat (concat (map bucket32_parts bs))
   = concat (map (\<lambda>b. map (compose32 (b32_hi b)) (sorted_list_of_set (b32_set b))) bs)"
  by (induction bs) (simp_all add: concat_bucket32_parts)

lemma set_bucket_values:
  "b32_invar b \<Longrightarrow> set (map (compose32 (b32_hi b)) (sorted_list_of_set (b32_set b))) = bucket_set b"
  by (simp add: bucket_set_image b32.finite_elems)

lemma bucket_values_distinct:
  assumes "buckets_ok bs"
  shows "set (concat (map (\<lambda>b. map (compose32 (b32_hi b)) (sorted_list_of_set (b32_set b))) bs))
      = items bucket_set bs"
    "distinct (concat (map (\<lambda>b. map (compose32 (b32_hi b)) (sorted_list_of_set (b32_set b))) bs))"
proof -
  have "set (concat (map (\<lambda>b. map (compose32 (b32_hi b)) (sorted_list_of_set (b32_set b))) bs))
      = items bucket_set bs \<and>
    distinct (concat (map (\<lambda>b. map (compose32 (b32_hi b)) (sorted_list_of_set (b32_set b))) bs))"
    using assms
  proof (induction bs)
    case (Cons b bs)
    define vs where "vs = map (compose32 (b32_hi b)) (sorted_list_of_set (b32_set b))"
    have ok: "b32_invar b" "buckets_ok bs" "\<forall>c \<in> set bs. b32_hi c = b32_hi b \<longrightarrow> bucket_set c = {}"
      using Cons.prems by (auto simp: buckets_ok_def)
    have "distinct vs" unfolding vs_def distinct_map
      by (auto intro!: inj_onI) (metis compose32_parts(2))
    moreover have "set vs = bucket_set b" using set_bucket_values [OF ok(1)] by (simp add: vs_def)
    moreover have "bucket_set b \<inter> items bucket_set bs = {}"
    proof -
      have "z \<notin> bucket_set c" if "c \<in> set bs" "z \<in> bucket_set b" for c z
        using that ok(3) by (auto simp: bucket_set_def)
      then show ?thesis by (auto simp: items_def)
    qed
    ultimately show ?case
      using Cons.IH [OF ok(2)] unfolding list.map concat.simps vs_def [symmetric] by auto
  qed simp
  then show "set (concat (map (\<lambda>b. map (compose32 (b32_hi b)) (sorted_list_of_set (b32_set b))) bs))
      = items bucket_set bs"
    "distinct (concat (map (\<lambda>b. map (compose32 (b32_hi b)) (sorted_list_of_set (b32_set b))) bs))"
    by blast+
qed

lemma uset_parts_items:
  assumes "uset_invar s"
  shows "set (concat (uset_parts s)) = uset_set s" "distinct (concat (uset_parts s))"
  using assms bucket_values_distinct [of "s_buckets s"]
  by (simp_all add: uset_parts_def uset_invar_def uset_set_def concat_parts_buckets buckets_ok_def
      del: set_concat)

lemma foldl_parts: "foldl (\<lambda>st part. foldl g st part) st parts = foldl g st (concat parts)"
  by (induction parts arbitrary: st) simp_all

section \<open>Order\<close>

lemma unat_compose32: "unat (compose32 h x) = unat h * 2 ^ 32 + unat x"
proof -
  have "push_bit 32 (ucast h :: u64) AND ucast x = 0"
    by (rule bit_word_eqI) (auto simp: bit_simps dest: bit_imp_le_length)
  then have "compose32 h x = push_bit 32 (ucast h) + ucast x"
    unfolding compose32_def by (rule disjunctive_add_eq_or [symmetric])
  also have "\<dots> = of_nat (unat h * 2 ^ 32 + unat x)"
    by (simp add: push_bit_eq_mult mult.commute)
  finally have "unat (compose32 h x) = (unat h * 2 ^ 32 + unat x) mod 2 ^ 64"
    by (simp only: unat_of_nat) simp
  moreover have "unat h < 2 ^ 32" "unat x < 2 ^ 32"
    using unsigned_less [of h, where ?'a = nat] unsigned_less [of x, where ?'a = nat] by simp_all
  ultimately show ?thesis by simp
qed

lemma compose32_less:
  "h < k \<Longrightarrow> compose32 h v < compose32 k w"
  "compose32 h v \<le> compose32 h w \<longleftrightarrow> v \<le> w"
proof -
  assume "h < k"
  then have "Suc (unat h) \<le> unat k" by (simp add: word_less_nat_alt)
  then have "Suc (unat h) * 2 ^ 32 \<le> unat k * 2 ^ 32" by (rule mult_le_mono1)
  moreover have "unat v < 2 ^ 32" using unsigned_less [of v, where ?'a = nat] by simp
  ultimately show "compose32 h v < compose32 k w" by (simp add: word_less_nat_alt unat_compose32)
qed (simp add: word_le_nat_alt unat_compose32)

lemma bucket_values_sorted:
  assumes "buckets_ok bs" "sorted (map b32_hi bs)"
  shows "concat (map (\<lambda>b. map (compose32 (b32_hi b)) (sorted_list_of_set (b32_set b))) bs)
    = sorted_list_of_set (items bucket_set bs)"
proof (rule sorted_distinct_set_unique)
  show "sorted (concat (map (\<lambda>b. map (compose32 (b32_hi b)) (sorted_list_of_set (b32_set b))) bs))"
    using assms
  proof (induction bs)
    case (Cons b bs)
    define vs where "vs = map (compose32 (b32_hi b)) (sorted_list_of_set (b32_set b))"
    define ws where "ws = concat (map (\<lambda>b. map (compose32 (b32_hi b)) (sorted_list_of_set (b32_set b))) bs)"
    have ok: "b32_invar b" "buckets_ok bs" "\<forall>c \<in> set bs. b32_hi c = b32_hi b \<longrightarrow> bucket_set c = {}"
      using Cons.prems by (auto simp: buckets_ok_def)
    have "sorted vs" unfolding vs_def sorted_map
      by (rule sorted_wrt_mono_rel [OF _ sorted_sorted_list_of_set]) (simp add: compose32_less)
    moreover have "x < y" if xy: "x \<in> set vs" "y \<in> set ws" for x y
    proof -
      obtain c where c: "c \<in> set bs" "y \<in> bucket_set c"
        using xy(2) bucket_values_distinct(1) [OF ok(2)] by (auto simp: ws_def items_def)
      have "b32_hi b \<le> b32_hi c" "b32_hi c \<noteq> b32_hi b" using c ok(3) Cons.prems(2) by auto
      then have "b32_hi b < b32_hi c" by simp
      with xy(1) c(2) show ?thesis by (auto simp: vs_def bucket_set_image compose32_less)
    qed
    moreover have "sorted ws" using Cons ok(2) by (simp add: ws_def)
    ultimately show ?case
      unfolding list.map concat.simps vs_def [symmetric] ws_def [symmetric]
      by (auto simp: sorted_append less_imp_le)
  qed simp
  have "finite (items bucket_set bs)" using assms(1) by (simp add: buckets_ok_def finite_items)
  then show "set (concat (map (\<lambda>b. map (compose32 (b32_hi b)) (sorted_list_of_set (b32_set b))) bs))
      = set (sorted_list_of_set (items bucket_set bs))"
    using bucket_values_distinct(1) [OF assms(1)] by simp
qed (simp_all add: bucket_values_distinct(2) [OF assms(1)])

lemma uset_sort_correct:
  assumes "uset_invar s"
  shows "uset_invar (uset_sort s)" "uset_set (uset_sort s) = uset_set s"
    "sorted (map b32_hi (s_buckets (uset_sort s)))"
proof -
  show "sorted (map b32_hi (s_buckets (uset_sort s)))" by (simp add: uset_sort_def)
  show set: "uset_set (uset_sort s) = uset_set s" by (simp add: uset_sort_def uset_set_def)
  show "uset_invar (uset_sort s)"
    using assms set unfolding uset_invar_def buckets_ok_def
    by (auto simp: uset_sort_def firsts_sort_key list_all_iff)
qed

lemma foldl_append_to:
  "list_all b32_invar bs \<Longrightarrow> foldl (\<lambda>dst b32. bucket32_append_to b32 dst) dst bs
   = dst @ concat (map (\<lambda>b. map (compose32 (b32_hi b)) (sorted_list_of_set (b32_set b))) bs)"
  by (induction bs arbitrary: dst) (simp_all add: bucket32_append_to_eq)

lemma uset_append_to_correct:
  assumes "uset_invar s" "uset_append_to s dst = (t, out)"
  shows "out = dst @ sorted_list_of_set (uset_set s) \<and> uset_invar t \<and> uset_set t = uset_set s"
proof -
  have t: "t = uset_sort s" "out = foldl (\<lambda>dst b32. bucket32_append_to b32 dst) dst (s_buckets t)"
    using assms(2) by (auto simp: uset_append_to_def Let_def)
  note q = uset_sort_correct [OF assms(1), folded t(1)]
  have "buckets_ok (s_buckets t)" using q(1) by (simp add: uset_invar_def)
  then have "out = dst @ sorted_list_of_set (items bucket_set (s_buckets t))"
    using t(2) bucket_values_sorted [OF _ q(3)] by (simp add: foldl_append_to buckets_ok_def)
  with q show ?thesis by (simp add: uset_set_def)
qed


section \<open>Two sets\<close>

interpretation join64: joinable b32_hi bucket_set b32_invar bucket32_union bucket32_clone
  by unfold_locales (auto simp: bucket_set_def bucket32_union_correct)


interpretation meet64: meetable b32_hi bucket_set b32_invar bucket32_intersect "\<lambda>_. bucket32_default"
  by unfold_locales
     (auto simp: bucket_set_def bucket32_intersect_correct bucket32_default_def [THEN arg_cong, of b32_hi])

lemma map_sort_key: "map f (sort_key (\<lambda>x. g (f x)) xs) = sort_key g (map f xs)"
proof (induction xs)
  case (Cons x xs)
  have "map f (insort_key (\<lambda>x. g (f x)) x ys) = insort_key g (f x) (map f ys)" for ys
    by (induction ys) auto
  with Cons show ?case by simp
qed simp

lemma sorted_bucket_order_buckets:
  "map (\<lambda>k. s_buckets a ! k) (sorted_bucket_order a) = sort_key b32_hi (s_buckets a)"
  unfolding sorted_bucket_order_def map_sort_key by (simp add: map_nth)

lemma sort_key_ok:
  "buckets_ok (sort_key b32_hi bs) = buckets_ok bs"
  by (simp add: buckets_ok_def firsts_sort_key list_all_iff)

lemma fix_items_count_correct:
  assumes "buckets_ok (s_buckets s)"
  shows "uset_invar (fix_items_count s)" "uset_set (fix_items_count s) = uset_set s"
proof -
  have "foldl (\<lambda>n b32. n + bucket32_get_len b32) n bs = n + sum_list (map (\<lambda>b. card (b32_set b)) bs)"
    if "list_all b32_invar bs" for n bs
    using that by (induction bs arbitrary: n) (simp_all add: bucket32_get_len_card)
  then have "items_count (fix_items_count s) = card (items bucket_set (s_buckets s))"
    using assms card_items_buckets [OF assms] by (simp add: fix_items_count_def buckets_ok_def)
  then show "uset_invar (fix_items_count s)"
    using assms unfolding uset_invar_def by (simp add: uset_set_def) (simp add: fix_items_count_def)
  show "uset_set (fix_items_count s) = uset_set s" by (simp add: uset_set_def fix_items_count_def)
qed

lemma uset_clone_correct:
  assumes "uset_invar s"
  shows "uset_invar (uset_clone s) \<and> uset_set (uset_clone s) = uset_set s"
proof (cases "items_count s = 0")
  case True
  then show ?thesis
    using assms uset_is_empty_iff [OF assms] by (simp add: uset_clone_def uset_is_empty_def)
next
  case False
  have el: "bucket_set (bucket32_clone b) = bucket_set b" for b by (simp add: bucket_set_def)
  have "firsts b32_hi bucket_set (map bucket32_clone bs) = firsts b32_hi bucket_set bs" for bs
    by (induction bs) (auto simp: el)
  moreover have "items bucket_set (map bucket32_clone bs) = items bucket_set bs" for bs
    by (simp add: items_def el)
  moreover have "uset_clone s
      = \<lparr>items_count = items_count s, s_buckets = map bucket32_clone (s_buckets s)\<rparr>"
    using False by (simp add: uset_clone_def)
  ultimately show ?thesis
    using assms by (simp add: uset_invar_def buckets_ok_def uset_set_def list_all_iff)
qed

lemma uset_union_correct:
  assumes "uset_invar s" "uset_invar a"
  shows "uset_invar (uset_union s a) \<and> uset_set (uset_union s a) = uset_set s \<union> uset_set a"
proof -
  consider "uset_is_empty a" | "\<not> uset_is_empty a" "uset_is_empty s" | "\<not> uset_is_empty a" "\<not> uset_is_empty s"
    by blast
  then show ?thesis
  proof cases
    case 1
    with assms show ?thesis by (simp add: uset_union_def union_internal_def uset_is_empty_iff)
  next
    case 2
    with assms uset_clone_correct [OF assms(2)] show ?thesis
      by (simp add: uset_union_def union_internal_def uset_is_empty_iff)
  next
    case 3
    define xs where "xs = s_buckets (uset_sort s)"
    define ys where "ys = sort_key b32_hi (s_buckets a)"
    define m where "m = merge_union b32_hi bucket32_union bucket32_clone xs ys"
    note q = uset_sort_correct [OF assms(1)]
    have xs: "list_all b32_invar xs" "firsts b32_hi bucket_set xs" "sorted (map b32_hi xs)"
      "items bucket_set xs = uset_set s"
      using q by (simp_all add: xs_def uset_invar_def buckets_ok_def uset_set_def)
    have ys: "list_all b32_invar ys" "firsts b32_hi bucket_set ys" "sorted (map b32_hi ys)"
      "items bucket_set ys = uset_set a"
      using assms(2) by (simp_all add: ys_def uset_invar_def buckets_ok_def uset_set_def
          firsts_sort_key list_all_iff)
    have "buckets_ok (fst m @ snd m)" "items bucket_set (fst m @ snd m) = uset_set s \<union> uset_set a"
      using join64.merge_union_ok [OF xs(1) ys(1)] join64.merge_union_items [OF xs(1) ys(1)]
        join64.merge_union_firsts [OF xs(1) ys(1) xs(3) ys(3) xs(2) ys(2)] xs(4) ys(4)
      by (simp_all add: buckets_ok_def m_def)
    moreover have "uset_union s a = fix_items_count ((uset_sort s)\<lparr>s_buckets := fst m @ snd m\<rparr>)"
      using 3 by (simp add: uset_union_def union_internal_def sorted_bucket_order_buckets Let_def
          xs_def ys_def m_def split_beta)
    ultimately show ?thesis
      using fix_items_count_correct [of "(uset_sort s)\<lparr>s_buckets := fst m @ snd m\<rparr>"]
      by (simp add: uset_set_def)
  qed
qed

lemma uset_intersect_correct:
  assumes "uset_invar s" "uset_invar a"
  shows "uset_invar (uset_intersect s a) \<and> uset_set (uset_intersect s a) = uset_set s \<inter> uset_set a"
proof (cases "uset_is_empty s \<or> uset_is_empty a")
  case True
  with assms show ?thesis by (auto simp: uset_intersect_def uset_is_empty_iff)
next
  case False
  define xs where "xs = s_buckets (uset_sort s)"
  define ys where "ys = sort_key b32_hi (s_buckets a)"
  define m where "m = merge_intersect b32_hi bucket32_intersect (\<lambda>_. bucket32_default) xs ys"
  note q = uset_sort_correct [OF assms(1)]
  have xs: "list_all b32_invar xs" "firsts b32_hi bucket_set xs" "sorted (map b32_hi xs)"
    "items bucket_set xs = uset_set s"
    using q by (simp_all add: xs_def uset_invar_def buckets_ok_def uset_set_def)
  have ys: "list_all b32_invar ys" "firsts b32_hi bucket_set ys" "sorted (map b32_hi ys)"
    "items bucket_set ys = uset_set a"
    using assms(2) by (simp_all add: ys_def uset_invar_def buckets_ok_def uset_set_def
        firsts_sort_key list_all_iff)
  have "buckets_ok m" "items bucket_set m = uset_set s \<inter> uset_set a"
    using meet64.merge_intersect_ok [OF xs(1) ys(1)]
      meet64.merge_intersect_items [OF xs(1) ys(1) xs(3) ys(3) xs(2) ys(2)]
      meet64.merge_intersect_firsts [OF xs(1) ys(1) xs(3,2)] xs(4) ys(4)
    by (simp_all add: buckets_ok_def m_def)
  moreover have "uset_intersect s a = fix_items_count ((uset_sort s)\<lparr>s_buckets := m\<rparr>)"
    using False by (simp add: uset_intersect_def sorted_bucket_order_buckets Let_def xs_def ys_def m_def)
  ultimately show ?thesis
    using fix_items_count_correct [of "(uset_sort s)\<lparr>s_buckets := m\<rparr>"]
    by (simp add: uset_set_def)
qed

lemma uset_subtract_correct:
  assumes "uset_invar s" "uset_invar a"
  shows "uset_invar (uset_subtract s a) \<and> uset_set (uset_subtract s a) = uset_set s - uset_set a"
proof -
  consider (empty) "uset_is_empty s \<or> uset_is_empty a"
    | (many) "\<not> (uset_is_empty s \<or> uset_is_empty a)" "uset_len s \<ge> uset_len a"
    | (few) "\<not> (uset_is_empty s \<or> uset_is_empty a)" "\<not> uset_len s \<ge> uset_len a" by blast
  then show ?thesis
  proof cases
    case empty
    with assms show ?thesis by (auto simp: uset_subtract_def uset_is_empty_iff)
  next
    case many
    then have "uset_subtract s a = foldl uset_del s (concat (uset_parts a))"
      by (simp add: uset_subtract_def uset_for_each_all foldl_parts)
    with uset.foldl_del [OF assms(1)] uset_parts_items(1) [OF assms(2)] show ?thesis by simp
  next
    case few
    have "foldl (\<lambda>acc part. acc @ filter P part) acc parts = acc @ filter P (concat parts)"
      for acc P and parts :: "u64 list list" by (induction parts arbitrary: acc) simp_all
    with few have "uset_subtract s a = foldl uset_del s (filter (uset_has a) (concat (uset_parts s)))"
      by (simp add: uset_subtract_def uset_for_each_all)
    with uset.foldl_del [OF assms(1)] uset_parts_items(1) [OF assms(1)] uset_has_iff [OF assms(2)]
    show ?thesis by auto
  qed
qed

lemma walk_all_check:
  "fst (walk_parts (\<lambda>eq part. if list_ex P part then (False, False) else (eq, True)) True parts)
   \<longleftrightarrow> \<not> list_ex P (concat parts)"
  by (induction parts) auto

lemma uset_equal_correct:
  assumes "uset_invar s" "uset_invar a"
  shows "uset_equal s a \<longleftrightarrow> uset_set s = uset_set a"
proof (cases "uset_len s = uset_len a")
  case False
  with assms show ?thesis by (auto simp: uset_equal_def uset_len_card)
next
  case True
  then have "uset_equal s a \<longleftrightarrow> \<not> list_ex (\<lambda>x. \<not> uset_has s x) (concat (uset_parts a))"
    by (simp add: uset_equal_def uset_for_each_walk walk_all_check)
  also have "\<dots> \<longleftrightarrow> uset_set a \<subseteq> uset_set s"
    using uset_parts_items(1) [OF assms(2)] uset_has_iff [OF assms(1)] by (auto simp: list_ex_iff)
  also have "\<dots> \<longleftrightarrow> uset_set s = uset_set a"
    using True assms finite_uset_set [OF assms(1)] card_subset_eq [of "uset_set s" "uset_set a"]
    by (auto simp: uset_len_card)
  finally show ?thesis .
qed

section \<open>Encoding\<close>

lemma uset_marshal_eq:
  "uset_marshal s dst = dst @ to_be_bytes (of_nat (uset_len s) :: u64)
     @ concat (map to_be_bytes (concat (uset_parts s)))"
proof -
  have inner: "foldl (\<lambda>dst e. dst @ to_be_bytes e) dst xs = dst @ concat (map to_be_bytes xs)"
    for dst and xs :: "u64 list" by (induction xs arbitrary: dst) simp_all
  have "foldl (\<lambda>dst part. foldl (\<lambda>dst e. dst @ to_be_bytes e) dst part) dst parts
      = dst @ concat (map to_be_bytes (concat parts))" for dst and parts :: "u64 list list"
    unfolding foldl_parts by (rule inner)
  then show ?thesis by (simp add: uset_marshal_def uset_for_each_all)
qed

lemma unmarshal_loop_eq:
  "unmarshal_loop (length xs) s (concat (map to_be_bytes xs) @ t) = (foldl uset_add s xs, t)"
  by (induction xs arbitrary: s) (simp_all add: from_be_to_be_bytes)

lemma length_encoded_items: "length (concat (map to_be_bytes (xs :: u64 list))) = 8 * length xs"
  by (induction xs) simp_all

lemma uset_unmarshal_marshal:
  assumes "uset_invar s" "length (uset_marshal s [] @ t) < 2 ^ 64"
  obtains r where "uset_unmarshal (uset_marshal s [] @ t) = Inr (r, t)" "uset_invar r"
    "uset_set r = uset_set s"
proof -
  define xs where "xs = concat (uset_parts s)"
  have xs: "set xs = uset_set s" "distinct xs" using uset_parts_items [OF assms(1)] by (simp_all add: xs_def)
  then have len: "uset_len s = length xs" using assms(1) by (simp add: uset_len_card distinct_card [symmetric])
  define src where "src = concat (map to_be_bytes xs) @ t"
  have src: "length src = 8 * length xs + length t" by (simp add: src_def length_encoded_items)
  have bound: "length src < 2 ^ 64" "length xs < 2 ^ 64"
    using assms(2) src by (auto simp: uset_marshal_eq len xs_def [symmetric] src_def)
  have m: "uset_marshal s [] @ t = to_be_bytes (of_nat (length xs) :: u64) @ src"
    by (simp add: uset_marshal_eq len xs_def src_def)
  have n: "unat (of_nat (length xs) :: u64) = length xs" "unat (of_nat (length src) :: u64) = length src"
    using bound by (simp_all add: unat_of_nat)
  have "\<not> (of_nat (length src) :: u64) div 8 < of_nat (length xs)"
    unfolding word_less_nat_alt unat_div n by (simp add: src)
  then have "uset_unmarshal (uset_marshal s [] @ t) = Inr (unmarshal_loop (length xs) uset_default src)"
    by (simp add: uset_unmarshal_def m n from_be_to_be_bytes Let_def)
  also have "\<dots> = Inr (foldl uset_add uset_default xs, t)"
    by (simp add: src_def unmarshal_loop_eq)
  finally have "uset_unmarshal (uset_marshal s [] @ t) = Inr (foldl uset_add uset_default xs, t)" .
  moreover have "uset_invar (foldl uset_add uset_default xs)
      \<and> uset_set (foldl uset_add uset_default xs) = uset_set s"
    using uset.foldl_add [of uset_default xs] xs(1) by simp
  ultimately show ?thesis using that by blast
qed

lemma run_uset_correct: "uset_invar (run_uset e) \<and> uset_set (run_uset e) = uset_meaning e"
  by (induction e)
     (simp_all add: uset_add_correct uset_del_correct uset_add_multi_correct uset_clone_correct
       uset_union_correct uset_intersect_correct uset_subtract_correct)

section \<open>Properties\<close>

text \<open>
  C15: The three-level set behaves as a set of numbers. For every program of insertions, bulk
  insertions, deletions, unions, intersections, differences and copies, the observations on the
  result are those on the mathematical set the program denotes: membership, number of items, the
  list of items (sorted, each item once), and equality with the result of another program.
\<close>

theorem uset_refines_sets:
  "uset_has (run_uset e) x = (x \<in> uset_meaning e)
   \<and> uset_len (run_uset e) = card (uset_meaning e)
   \<and> snd (uset_append_to (run_uset e) dst) = dst @ sorted_list_of_set (uset_meaning e)
   \<and> uset_equal (run_uset e) (run_uset f) = (uset_meaning e = uset_meaning f)"
proof -
  note e = run_uset_correct [of e] and f = run_uset_correct [of f]
  obtain t out where "uset_append_to (run_uset e) dst = (t, out)" by fastforce
  with e f uset_append_to_correct [of "run_uset e" dst t out] show ?thesis
    by (simp add: uset_has_iff uset_len_card uset_equal_correct)
qed

text \<open>
  Iteration shows every item exactly once: a closure that never stops the iteration and folds
  a function over each part has folded it over a list of the items of the set without repetition.
\<close>

theorem uset_for_each_visits_once:
  assumes "uset_invar s"
  shows "\<exists>xs. distinct xs \<and> set xs = uset_set s
    \<and> uset_for_each (\<lambda>st part. (foldl g st part, True)) st s = foldl g st xs"
  using uset_parts_items [OF assms]
  by (intro exI [of _ "concat (uset_parts s)"]) (simp add: uset_for_each_all foldl_parts)

theorem uset_for_each_visits_once_witness:
  "\<exists>xs. distinct xs \<and> set xs = {7 :: u64}
    \<and> uset_for_each (\<lambda>st part. (foldl (\<lambda>n _. n + 1) st part, True)) (0 :: nat)
        (uset_add uset_default 7) = foldl (\<lambda>n _. n + 1) 0 xs"
  using uset_for_each_visits_once [of "uset_add uset_default 7" "\<lambda>n _. n + 1" "0 :: nat"]
    uset_add_correct [of uset_default 7] by simp

text \<open>
  A marshaled set unmarshals to a set with the same items and leaves the bytes that follow.
\<close>

theorem uset_marshal_roundtrip:
  assumes "uset_invar s" "length (uset_marshal s [] @ t) < 2 ^ 64"
  shows "\<exists>r. uset_unmarshal (uset_marshal s [] @ t) = Inr (r, t) \<and> uset_invar r \<and> uset_set r = uset_set s"
  using uset_unmarshal_marshal [OF assms] by metis

theorem uset_marshal_roundtrip_witness:
  "\<exists>r. uset_unmarshal (uset_marshal uset_default [] @ [9]) = Inr (r, [9]) \<and> uset_invar r
    \<and> uset_set r = {}"
proof -
  have "length (uset_marshal uset_default [] @ [9]) < 2 ^ 64"
    by (simp add: uset_marshal_eq uset_parts_def uset_default_def)
  with uset_marshal_roundtrip [of uset_default "[9]"] show ?thesis by simp
qed

end
