(* ===== verification/Field_Readers.thy ===== *)
theory Field_Readers
  imports Varint_Decode
begin

text \<open>
  How the header formats read their fields: a bounds check that reports an error of the header,
  the fixed-width or length-prefixed decoder, and the rest of the input. Each reader inverts the
  encoder the header writer calls, in front of any following bytes, so that a header built from
  such fields is again a prefix codec.
\<close>

section \<open>Readers\<close>

definition take_u8 :: "'e \<Rightarrow> bytes \<Rightarrow> ('e, u8 \<times> bytes) res" where
  "take_u8 e src = (if src = [] then Inl (Err e) else Inr (src ! 0, drop 1 src))"

definition take_u16 :: "(nat \<Rightarrow> 'e) \<Rightarrow> bytes \<Rightarrow> ('e, u16 \<times> bytes) res" where
  "take_u16 e src =
    (case unmarshal_uint16 src of None \<Rightarrow> Inl (Err (e (length src))) | Some v \<Rightarrow> Inr (v, drop 2 src))"

definition take_u32 :: "(nat \<Rightarrow> 'e) \<Rightarrow> bytes \<Rightarrow> ('e, u32 \<times> bytes) res" where
  "take_u32 e src =
    (case unmarshal_uint32 src of None \<Rightarrow> Inl (Err (e (length src))) | Some v \<Rightarrow> Inr (v, drop 4 src))"

definition take_u64 :: "(nat \<Rightarrow> 'e) \<Rightarrow> bytes \<Rightarrow> ('e, u64 \<times> bytes) res" where
  "take_u64 e src =
    (case unmarshal_uint64 src of None \<Rightarrow> Inl (Err (e (length src))) | Some v \<Rightarrow> Inr (v, drop 8 src))"

definition take_bytes :: "'e \<Rightarrow> bytes \<Rightarrow> ('e, bytes \<times> bytes) res" where
  "take_bytes e src =
    (case unmarshal_bytes src of None \<Rightarrow> Inl (Err e) | Some (b, n) \<Rightarrow> Inr (b, drop n src))"

text \<open>The encoding of a byte string: its length as a varint, then the bytes.\<close>

definition bytes_enc :: "bytes \<Rightarrow> bytes" where
  "bytes_enc b = leb128 (of_nat (length b)) @ b"

section \<open>Each reader inverts its encoder\<close>

named_theorems reader_simps \<open>field readers in front of the encoding of the field\<close>

lemma marshal_append [reader_simps]:
  "marshal_uint16 dst v16 = dst @ to_be_bytes v16"
  "marshal_uint32 dst v32 = dst @ to_be_bytes v32"
  "marshal_uint64 dst v64 = dst @ to_be_bytes v64"
  "marshal_bytes dst b = dst @ bytes_enc b"
  by (simp_all add: marshal_uint16_def marshal_uint32_def marshal_uint64_def marshal_bytes_def
      marshal_var_uint64_def append_leb128 bytes_enc_def)

lemma take_fixed [reader_simps]:
  "take_u8 e (v8 # t) = Inr (v8, t)"
  "take_u16 f (to_be_bytes v16 @ t) = Inr (v16, t)"
  "take_u32 f (to_be_bytes v32 @ t) = Inr (v32, t)"
  "take_u64 f (to_be_bytes v64 @ t) = Inr (v64, t)"
  by (simp_all add: take_u8_def take_u16_def take_u32_def take_u64_def unmarshal_uint16_def
      unmarshal_uint32_def unmarshal_uint64_def from_be_to_be_bytes)

lemma take_bytes_marshal [reader_simps]:
  assumes "length b < 2 ^ 64"
  shows "take_bytes e (bytes_enc b @ t) = Inr (b, t)"
  using bytes_roundtrip [OF assms, of t] by (simp add: take_bytes_def marshal_append(4))

section \<open>Readers consume what they return\<close>

lemma take_shrinks:
  "take_u8 e src = Inr (v8, t) \<Longrightarrow> length t < length src"
  "take_u16 f src = Inr (v16, t) \<Longrightarrow> length t < length src"
  "take_u32 f src = Inr (v32, t) \<Longrightarrow> length t < length src"
  "take_u64 f src = Inr (v64, t) \<Longrightarrow> length t < length src"
  "take_bytes e src = Inr (b, t) \<Longrightarrow> length t \<le> length src"
  by (auto simp: take_u8_def take_u16_def take_u32_def take_u64_def take_bytes_def
      unmarshal_uint16_def unmarshal_uint32_def unmarshal_uint64_def
      split: option.splits if_splits)

end
