(* ===== verification/Inmemory_Block.thy ===== *)
theory Inmemory_Block
  imports Block_Encoding "HOL-Library.List_Lexorder" "HOL-Library.Multiset"
begin

text \<open>
  Blocks of sorted byte strings in \<open>crates/esm-mergeset/src/inmemory_block.rs\<close>: items are offsets
  into one data buffer, share a common prefix, and are written either plainly or as the bytes in
  which each item differs from the one before it, with the lengths delta-coded by exclusive or and
  both parts compressed.

  Byte strings are compared as Rust compares slices, lexicographically with a prefix first, the
  order of \<open>List_Lexorder\<close>. A slice of the data buffer outside its bounds would panic; \<open>ib_invar\<close>
  excludes it for blocks built by \<open>add\<close>. In the decoder, whose input is what was read from disk,
  every such case is an explicit \<open>Panic\<close>, and sizes are 64-bit words that wrap as they do in a
  release build.
\<close>

section \<open>The representation\<close>

definition MAX_INMEMORY_BLOCK_SIZE :: nat where "MAX_INMEMORY_BLOCK_SIZE = 64 * 1024"

record item =
  it_start :: u32
  it_end :: u32

definition item_bytes :: "item \<Rightarrow> bytes \<Rightarrow> bytes" where
  "item_bytes it data = subslice data (unat (it_start it)) (unat (it_end it))"

record storage_block =
  items_data :: bytes
  lens_data :: bytes

datatype block_marshal_type = Plain | Zstd

definition bmt_from_u8 :: "u8 \<Rightarrow> block_marshal_type option" where
  "bmt_from_u8 v = (if v = 0 then Some Plain else if v = 1 then Some Zstd else None)"

fun bmt_as_u8 :: "block_marshal_type \<Rightarrow> u8" where
  "bmt_as_u8 Plain = 0"
| "bmt_as_u8 Zstd = 1"

fun common_prefix_len :: "bytes \<Rightarrow> bytes \<Rightarrow> nat" where
  "common_prefix_len (a # as) (b # bs) = (if a = b then Suc (common_prefix_len as bs) else 0)"
| "common_prefix_len _ _ = 0"

record inmemory_block =
  common_prefix :: bytes
  ib_data :: bytes
  ib_items :: "item list"

definition ib_default :: inmemory_block where
  "ib_default = \<lparr>common_prefix = [], ib_data = [], ib_items = []\<rparr>"

definition ib_copy_from :: "inmemory_block \<Rightarrow> inmemory_block \<Rightarrow> inmemory_block" where
  "ib_copy_from b src =
     b\<lparr>common_prefix := common_prefix src, ib_data := ib_data src, ib_items := ib_items src\<rparr>"

definition ib_reset :: "inmemory_block \<Rightarrow> inmemory_block" where
  "ib_reset b = b\<lparr>common_prefix := [], ib_data := [], ib_items := []\<rparr>"

section \<open>Building and sorting\<close>

definition ib_add :: "inmemory_block \<Rightarrow> bytes \<Rightarrow> inmemory_block \<times> bool" where
  "ib_add b x =
    (if length x + length (ib_data b) > MAX_INMEMORY_BLOCK_SIZE then (b, False)
     else
       let start = of_nat (length (ib_data b)); data = ib_data b @ x
       in (b\<lparr>ib_data := data,
             ib_items := ib_items b @ [\<lparr>it_start = start, it_end = of_nat (length data)\<rparr>]\<rparr>, True))"

definition ib_strings :: "inmemory_block \<Rightarrow> bytes list" where
  "ib_strings b = map (\<lambda>it. item_bytes it (ib_data b)) (ib_items b)"

fun windows_sorted :: "bytes list \<Rightarrow> bool" where
  "windows_sorted (x # y # xs) \<longleftrightarrow> x \<le> y \<and> windows_sorted (y # xs)"
| "windows_sorted _ \<longleftrightarrow> True"

definition ib_is_sorted :: "inmemory_block \<Rightarrow> bool" where
  "ib_is_sorted b = windows_sorted (ib_strings b)"

definition update_common_prefix_sorted :: "inmemory_block \<Rightarrow> inmemory_block" where
  "update_common_prefix_sorted b =
    (if length (ib_items b) \<le> 1 then b\<lparr>common_prefix := []\<rparr>
     else
       let first = item_bytes (ib_items b ! 0) (ib_data b);
           last = item_bytes (ib_items b ! (length (ib_items b) - 1)) (ib_data b);
           cp_len = common_prefix_len first last;
           cp_start = unat (it_start (ib_items b ! 0))
       in b\<lparr>common_prefix := subslice (ib_data b) cp_start (cp_start + cp_len)\<rparr>)"

fun common_prefix_loop :: "bytes \<Rightarrow> bytes list \<Rightarrow> bytes" where
  "common_prefix_loop cp [] = cp"
| "common_prefix_loop cp (item # rest) =
    (if take (length cp) item = cp then common_prefix_loop cp rest
     else
       let cp_len = common_prefix_len cp item
       in if cp_len = 0 then [] else common_prefix_loop (take cp_len cp) rest)"

definition update_common_prefix_unsorted :: "inmemory_block \<Rightarrow> inmemory_block" where
  "update_common_prefix_unsorted b =
    (case ib_strings b of
       [] \<Rightarrow> b\<lparr>common_prefix := []\<rparr>
     | first # rest \<Rightarrow> b\<lparr>common_prefix := common_prefix_loop first rest\<rparr>)"

text \<open>
  \<open>sort_unstable_by\<close> may order items with equal bytes in any way; here their order is kept.
\<close>

definition ib_sort_items :: "inmemory_block \<Rightarrow> inmemory_block" where
  "ib_sort_items b =
    (if \<not> ib_is_sorted b then
       let b = update_common_prefix_unsorted b;
           cp_len = length (common_prefix b)
       in b\<lparr>ib_items := sort_key
              (\<lambda>it. subslice (ib_data b) (unat (it_start it) + cp_len) (unat (it_end it)))
              (ib_items b)\<rparr>
     else update_common_prefix_sorted b)"

section \<open>Writing a block\<close>

text \<open>The item without the common prefix.\<close>

definition item_suffix :: "inmemory_block \<Rightarrow> item \<Rightarrow> bytes" where
  "item_suffix b it =
     subslice (ib_data b) (unat (it_start it) + length (common_prefix b)) (unat (it_end it))"

definition item_suffix_len :: "inmemory_block \<Rightarrow> item \<Rightarrow> u64" where
  "item_suffix_len b it = of_nat (unat (it_end it - it_start it) - length (common_prefix b))"

definition marshal_data_plain :: "inmemory_block \<Rightarrow> storage_block" where
  "marshal_data_plain b =
     \<lparr>items_data = concat (map (item_suffix b) (drop 1 (ib_items b))),
      lens_data = foldl (\<lambda>dst it. marshal_uint64 dst (item_suffix_len b it)) [] (drop 1 (ib_items b))\<rparr>"

fun items_loop :: "bytes \<Rightarrow> u64 \<Rightarrow> bytes list \<Rightarrow> bytes \<times> u64 list" where
  "items_loop prev_item prev_prefix_len [] = ([], [])"
| "items_loop prev_item prev_prefix_len (item # rest) =
    (let prefix_len = common_prefix_len prev_item item in
     case items_loop item (of_nat prefix_len) rest of
       (b_items, xs) \<Rightarrow> (drop prefix_len item @ b_items, (of_nat prefix_len XOR prev_prefix_len) # xs))"

fun lens_loop :: "u64 \<Rightarrow> u64 list \<Rightarrow> u64 list" where
  "lens_loop prev_item_len [] = []"
| "lens_loop prev_item_len (item_len # rest) = (item_len XOR prev_item_len) # lens_loop item_len rest"

definition ib_marshal_data ::
  "zstd_lib \<Rightarrow> inmemory_block \<Rightarrow> bytes \<Rightarrow> bytes \<Rightarrow> int \<Rightarrow>
   (storage_block \<times> bytes \<times> bytes \<times> u32 \<times> block_marshal_type) option" where
  "ib_marshal_data Z b first_item_dst common_prefix_dst compress_level =
    (if ib_items b = [] then None
     else if \<not> length (ib_items b) < 2 ^ 32 then None
     else
       let data = ib_data b;
           first_item = item_bytes (ib_items b ! 0) data;
           first_item_dst = first_item_dst @ first_item;
           common_prefix_dst = common_prefix_dst @ common_prefix b;
           cp_len = length (common_prefix b);
           n = of_nat (length (ib_items b));
           plain = Some (marshal_data_plain b, first_item_dst, common_prefix_dst, n, Plain)
       in
       if length data - cp_len * length (ib_items b) < 64 \<or> length (ib_items b) < 2 then plain
       else
         case items_loop (drop cp_len first_item) 0 (map (item_suffix b) (drop 1 (ib_items b))) of
           (b_items, xs) \<Rightarrow>
         let b_lens = marshal_var_uint64s [] xs;
             ys = lens_loop (of_nat (length first_item - cp_len))
                    (map (item_suffix_len b) (drop 1 (ib_items b)));
             b_lens = marshal_var_uint64s b_lens ys
         in
         case compress_zstd_level Z [] b_items compress_level of
           None \<Rightarrow> None
         | Some zitems \<Rightarrow>
         (case compress_zstd_level Z [] b_lens compress_level of
            None \<Rightarrow> None
          | Some zlens \<Rightarrow>
            if exceeds_ninety_percent (length zitems) (length data - cp_len * length (ib_items b))
            then plain
            else Some (\<lparr>items_data = zitems, lens_data = zlens\<rparr>, first_item_dst,
                       common_prefix_dst, n, Zstd)))"

definition marshal_unsorted_data ::
  "zstd_lib \<Rightarrow> inmemory_block \<Rightarrow> bytes \<Rightarrow> bytes \<Rightarrow> int \<Rightarrow>
   inmemory_block \<times> (storage_block \<times> bytes \<times> bytes \<times> u32 \<times> block_marshal_type) option" where
  "marshal_unsorted_data Z b first_item_dst common_prefix_dst compress_level =
    (let b = ib_sort_items b
     in (b, ib_marshal_data Z b first_item_dst common_prefix_dst compress_level))"

definition marshal_sorted_data ::
  "zstd_lib \<Rightarrow> inmemory_block \<Rightarrow> bytes \<Rightarrow> bytes \<Rightarrow> int \<Rightarrow>
   inmemory_block \<times> (storage_block \<times> bytes \<times> bytes \<times> u32 \<times> block_marshal_type) option" where
  "marshal_sorted_data Z b first_item_dst common_prefix_dst compress_level =
    (let b = update_common_prefix_sorted b
     in (b, ib_marshal_data Z b first_item_dst common_prefix_dst compress_level))"

section \<open>Reading a block\<close>

datatype ib_err =
    LensTooShort nat
  | LensTail nat
  | NotEnoughItems nat nat
  | ItemsTail nat
  | BadDataLen nat u64
  | UnsortedItems
  | BadZstd zstd_err
  | BadLens varint_err
  | PrefixExceedsItem u64 u64
  | PrefixExceedsData u64

definition unmarshal_single_item ::
  "bytes \<Rightarrow> bytes \<Rightarrow> block_marshal_type \<Rightarrow> inmemory_block option" where
  "unmarshal_single_item cp first_item mt =
    (if mt \<noteq> Plain then None
     else Some \<lparr>common_prefix = cp, ib_data = first_item,
                ib_items = [\<lparr>it_start = 0, it_end = of_nat (length first_item)\<rparr>]\<rparr>)"

fun plain_lens_loop :: "nat \<Rightarrow> bytes \<Rightarrow> (ib_err, u64 list \<times> bytes) res" where
  "plain_lens_loop 0 b = Inr ([], b)"
| "plain_lens_loop (Suc n) b =
    (case unmarshal_uint64 b of
       None \<Rightarrow> Inl (Err (LensTooShort (length b)))
     | Some l \<Rightarrow> rbind (plain_lens_loop n (drop 8 b)) (\<lambda>(ls, b). Inr (l # ls, b)))"

fun plain_items_loop ::
  "bytes \<Rightarrow> u64 list \<Rightarrow> bytes \<Rightarrow> item list \<Rightarrow> bytes \<Rightarrow> (ib_err, bytes \<times> item list \<times> bytes) res" where
  "plain_items_loop cp [] data its b = Inr (data, its, b)"
| "plain_items_loop cp (item_len # lens) data its b =
    (if length b < unat item_len then Inl (Err (NotEnoughItems (unat item_len) (length b)))
     else
       let data' = data @ cp @ take (unat item_len) b
       in plain_items_loop cp lens data'
            (its @ [\<lparr>it_start = of_nat (length data), it_end = of_nat (length data')\<rparr>])
            (drop (unat item_len) b))"

definition unmarshal_data_plain ::
  "inmemory_block \<Rightarrow> storage_block \<Rightarrow> bytes \<Rightarrow> nat \<Rightarrow> (ib_err, inmemory_block) res" where
  "unmarshal_data_plain blk sb first_item items_count =
    rbind (plain_lens_loop (items_count - 1) (lens_data sb)) (\<lambda>(lens, b).
      if b \<noteq> [] then Inl (Err (LensTail (length b)))
      else
        let cp = common_prefix blk;
            data_len = length first_item + length (items_data sb) + length cp * (items_count - 1)
        in rbind (plain_items_loop cp lens first_item
                    [\<lparr>it_start = 0, it_end = of_nat (length first_item)\<rparr>] (items_data sb))
             (\<lambda>(data, its, b).
                if b \<noteq> [] then Inl (Err (ItemsTail (length b)))
                else if length data \<noteq> data_len
                then Inl (Err (BadDataLen (length data) (of_nat data_len)))
                else Inr (blk\<lparr>ib_data := data, ib_items := its\<rparr>)))"

text \<open>The running exclusive or that restores the lengths.\<close>

fun xor_scan :: "u64 \<Rightarrow> u64 list \<Rightarrow> u64 list" where
  "xor_scan acc [] = []"
| "xor_scan acc (x # xs) = (let v = x XOR acc in v # xor_scan v xs)"

fun zstd_items_loop ::
  "bytes \<Rightarrow> (u64 \<times> u64) list \<Rightarrow> bytes \<Rightarrow> item list \<Rightarrow> u64 \<Rightarrow> bytes \<Rightarrow>
   (ib_err, bytes \<times> item list \<times> bytes) res" where
  "zstd_items_loop cp [] data its prev_item_start b = Inr (data, its, b)"
| "zstd_items_loop cp ((item_len, prefix_len) # rest) data its prev_item_start b =
    (if prefix_len > item_len then Inl (Err (PrefixExceedsItem prefix_len item_len))
     else
       let suffix_len = unat (item_len - prefix_len) in
       if length b < suffix_len then Inl (Err (NotEnoughItems suffix_len (length b)))
       else
         let to = prev_item_start + prefix_len in
         if to > of_nat (length data) then Inl (Err (PrefixExceedsData prefix_len))
         else
           let data1 = data @ cp in
           if prev_item_start > to \<or> unat to > length data1 then Inl Panic
           else
             let data2 = data1 @ subslice data1 (unat prev_item_start) (unat to) @ take suffix_len b
             in zstd_items_loop cp rest data2
                  (its @ [\<lparr>it_start = of_nat (length data), it_end = of_nat (length data2)\<rparr>])
                  (of_nat (length data2) - item_len) (drop suffix_len b))"

definition ib_unmarshal_data ::
  "zstd_lib \<Rightarrow> storage_block \<Rightarrow> bytes \<Rightarrow> bytes \<Rightarrow> u32 \<Rightarrow> block_marshal_type \<Rightarrow>
   (ib_err, inmemory_block) res" where
  "ib_unmarshal_data Z sb first_item cp items_count mt =
    (if items_count = 0 then Inl Panic
     else
       let blk = \<lparr>common_prefix = cp, ib_data = [], ib_items = []\<rparr>; n = unat items_count in
       case mt of
         Plain \<Rightarrow>
           rbind (unmarshal_data_plain blk sb first_item n)
             (\<lambda>blk. if \<not> ib_is_sorted blk then Inl (Err UnsortedItems) else Inr blk)
       | Zstd \<Rightarrow>
           rbind (map_err BadZstd (decompress_zstd Z [] (lens_data sb))) (\<lambda>bb.
           rbind (map_err BadLens (unmarshal_var_uint64s (n - 1) bb)) (\<lambda>(xs, tail).
           rbind (map_err BadLens (unmarshal_var_uint64s (n - 1) tail)) (\<lambda>(ys, tail).
           if tail \<noteq> [] then Inl (Err (LensTail (length tail)))
           else
             let prefix_lens = xor_scan 0 xs;
                 len0 = of_nat (length first_item) - of_nat (length cp);
                 lens = xor_scan len0 ys;
                 data_len = of_nat (length cp) * of_nat n + len0 + sum_list lens
             in
             rbind (map_err BadZstd (decompress_zstd Z [] (items_data sb))) (\<lambda>bb.
             if unat data_len \<ge> 2 ^ 63 then Inl Panic
             else
               rbind (zstd_items_loop cp (zip lens prefix_lens) first_item
                        [\<lparr>it_start = 0, it_end = of_nat (length first_item)\<rparr>]
                        (of_nat (length cp)) bb)
                 (\<lambda>(data, its, b).
                    if b \<noteq> [] then Inl (Err (ItemsTail (length b)))
                    else if of_nat (length data) \<noteq> data_len
                    then Inl (Err (BadDataLen (length data) data_len))
                    else
                      let blk = blk\<lparr>ib_data := data, ib_items := its\<rparr>
                      in if \<not> ib_is_sorted blk then Inl (Err UnsortedItems) else Inr blk))))))"

section \<open>Invariant\<close>

definition item_ok :: "bytes \<Rightarrow> item \<Rightarrow> bool" where
  "item_ok data it \<longleftrightarrow> unat (it_start it) \<le> unat (it_end it) \<and> unat (it_end it) \<le> length data"

definition ib_invar :: "inmemory_block \<Rightarrow> bool" where
  "ib_invar b \<longleftrightarrow> length (ib_data b) < 2 ^ 32 \<and> list_all (item_ok (ib_data b)) (ib_items b)
     \<and> sum_list (map length (ib_strings b)) = length (ib_data b)"

definition has_prefix :: "bytes \<Rightarrow> bytes \<Rightarrow> bool" where
  "has_prefix p x \<longleftrightarrow> take (length p) x = p"

definition suffix_len :: "bytes \<Rightarrow> u64" where "suffix_len s = of_nat (length s)"

text \<open>The block under construction: its buffer and item list hold the strings read so far.\<close>

definition holds :: "bytes \<Rightarrow> item list \<Rightarrow> bytes list \<Rightarrow> bool" where
  "holds data its strs \<longleftrightarrow> list_all (item_ok data) its \<and> map (\<lambda>it. item_bytes it data) its = strs
     \<and> data = concat strs"

fun prefix_lens :: "bytes \<Rightarrow> bytes list \<Rightarrow> u64 list" where
  "prefix_lens prev [] = []"
| "prefix_lens prev (s # sufs) = of_nat (common_prefix_len prev s) # prefix_lens s sufs"

text \<open>What the writer relies on: a block whose items all start with the common prefix.\<close>

definition ib_ready :: "inmemory_block \<Rightarrow> bool" where
  "ib_ready b \<longleftrightarrow> ib_invar b \<and> sorted (ib_strings b) \<and> ib_items b \<noteq> []
     \<and> (\<forall>s \<in> set (ib_strings b). has_prefix (common_prefix b) s)"

definition suffixes :: "inmemory_block \<Rightarrow> bytes list" where
  "suffixes b = map (item_suffix b) (drop 1 (ib_items b))"

definition ib_first :: "inmemory_block \<Rightarrow> bytes" where
  "ib_first b = item_bytes (ib_items b ! 0) (ib_data b)"

definition reads_back :: "zstd_lib \<Rightarrow> inmemory_block \<Rightarrow> storage_block \<Rightarrow> block_marshal_type \<Rightarrow> bool" where
  "reads_back Z b sb mt \<longleftrightarrow>
    (\<exists>blk. ib_unmarshal_data Z sb (ib_first b) (common_prefix b) (of_nat (length (ib_items b))) mt = Inr blk
       \<and> ib_strings blk = ib_strings b \<and> common_prefix blk = common_prefix b \<and> ib_invar blk)"

section \<open>Order and prefixes of byte strings\<close>

lemma windows_sorted_iff: "windows_sorted xs \<longleftrightarrow> sorted xs"
proof (induction xs rule: windows_sorted.induct)
  case (1 x y xs)
  have "sorted (x # y # xs) \<longleftrightarrow> x \<le> y \<and> sorted (y # xs)" by (rule sorted2)
  with 1 show ?case by (simp only: windows_sorted.simps)
qed simp_all

lemma ib_is_sorted_iff: "ib_is_sorted b \<longleftrightarrow> sorted (ib_strings b)"
  by (simp add: ib_is_sorted_def windows_sorted_iff)

lemma has_prefix_append: "has_prefix p x \<longleftrightarrow> (\<exists>y. x = p @ y)"
  by (auto simp: has_prefix_def) (metis append_take_drop_id)

lemma has_prefix_drop: "has_prefix p x \<Longrightarrow> x = p @ drop (length p) x"
  by (metis append_take_drop_id has_prefix_def)

lemma has_prefix_Nil [simp]: "has_prefix [] x"
  by (simp add: has_prefix_def)

lemma has_prefix_Cons: "has_prefix (a # p) x \<longleftrightarrow> (\<exists>y. x = a # y \<and> has_prefix p y)"
  by (auto simp: has_prefix_append)

lemma has_prefix_between:
  "has_prefix p x \<Longrightarrow> has_prefix p z \<Longrightarrow> x \<le> y \<Longrightarrow> y \<le> z \<Longrightarrow> has_prefix p y"
proof (induction p arbitrary: x y z)
  case (Cons a p)
  obtain x' z' where xz: "x = a # x'" "has_prefix p x'" "z = a # z'" "has_prefix p z'"
    using Cons.prems(1,2) unfolding has_prefix_Cons by blast
  obtain b y' where y: "y = b # y'" using Cons.prems(3) xz(1) by (cases y) simp_all
  have le: "a < b \<or> a = b \<and> x' \<le> y'" "b < a \<or> b = a \<and> y' \<le> z'"
    using Cons.prems(3,4) unfolding xz(1,3) y by (simp_all only: Cons_le_Cons)
  then have "b = a" by (metis less_asym)
  with le have "x' \<le> y'" "y' \<le> z'" by simp_all
  note le = \<open>b = a\<close> this
  with Cons.IH [of x' z' y'] xz(2,4) y show ?case by (simp add: has_prefix_Cons)
qed simp

lemma le_common_prefix: "p @ x \<le> p @ y \<longleftrightarrow> x \<le> (y :: bytes)"
  by (induction p) simp_all

lemma common_prefix_len_le: "common_prefix_len a b \<le> length a" "common_prefix_len a b \<le> length b"
  by (induction a b rule: common_prefix_len.induct) auto

lemma common_prefix_len_take: "take (common_prefix_len a b) a = take (common_prefix_len a b) b"
  by (induction a b rule: common_prefix_len.induct) auto

lemma common_prefix_len_prefix:
  "has_prefix (take (common_prefix_len a b) a) a" "has_prefix (take (common_prefix_len a b) a) b"
proof -
  have "length (take (common_prefix_len a b) a) = common_prefix_len a b"
    using common_prefix_len_le(1) [of a b] by simp
  then show "has_prefix (take (common_prefix_len a b) a) a" "has_prefix (take (common_prefix_len a b) a) b"
    by (simp_all only: has_prefix_def common_prefix_len_take [symmetric])
qed

lemma has_prefix_trans: "has_prefix p q \<Longrightarrow> has_prefix q x \<Longrightarrow> has_prefix p x"
  by (auto simp: has_prefix_append)

lemma common_prefix_loop_prefix:
  "has_prefix (common_prefix_loop cp xs) cp \<and> (\<forall>x \<in> set xs. has_prefix (common_prefix_loop cp xs) x)"
proof (induction cp xs rule: common_prefix_loop.induct)
  case (1 cp)
  then show ?case by (simp add: has_prefix_def)
next
  case (2 cp item rest)
  show ?case
  proof (cases "take (length cp) item = cp")
    case True
    with 2(1) show ?thesis by (auto simp: has_prefix_def [of cp item, symmetric] intro: has_prefix_trans)
  next
    case False
    with 2(2) common_prefix_len_prefix [of cp item] show ?thesis
      by (auto simp: Let_def intro: has_prefix_trans)
  qed
qed

section \<open>Items as offsets\<close>

lemma unat_of_nat_u32: "n < 2 ^ 32 \<Longrightarrow> unat (of_nat n :: u32) = n"
  by (simp add: unat_of_nat)

lemma item_bytes_append: "item_ok data it \<Longrightarrow> item_bytes it (data @ e) = item_bytes it data"
  by (simp add: item_bytes_def item_ok_def subslice_def)

lemma item_ok_append: "item_ok data it \<Longrightarrow> item_ok (data @ e) it"
  by (simp add: item_ok_def)

lemma length_item_bytes:
  "item_ok data it \<Longrightarrow> length (item_bytes it data) = unat (it_end it) - unat (it_start it)"
  by (simp add: item_bytes_def item_ok_def)

text \<open>Appending one item at the end of the buffer, as every loop that builds a block does.\<close>

lemma push_item:
  assumes "list_all (item_ok data) its" "map (\<lambda>it. item_bytes it data) its = strs"
    "length (data @ x) < 2 ^ 32"
    "new = \<lparr>it_start = of_nat (length data), it_end = of_nat (length (data @ x))\<rparr>"
  shows "list_all (item_ok (data @ x)) (its @ [new])"
    "map (\<lambda>it. item_bytes it (data @ x)) (its @ [new]) = strs @ [x]"
proof -
  have n: "unat (it_start new) = length data" "unat (it_end new) = length (data @ x)"
    using assms(3) by (simp_all add: assms(4) unat_of_nat_u32 del: of_nat_add)
  then show "list_all (item_ok (data @ x)) (its @ [new])"
    using assms(1) by (auto simp: list_all_iff item_ok_def)
  have "item_bytes new (data @ x) = x" using n by (simp add: item_bytes_def subslice_def)
  then show "map (\<lambda>it. item_bytes it (data @ x)) (its @ [new]) = strs @ [x]"
    using assms(1,2) by (auto simp: list_all_iff item_bytes_append)
qed

text \<open>\<open>add\<close> on both branches.\<close>

lemma ib_add_refuses:
  "length x + length (ib_data b) > MAX_INMEMORY_BLOCK_SIZE \<Longrightarrow> ib_add b x = (b, False)"
  by (simp add: ib_add_def)

lemma ib_add_appends:
  assumes "ib_invar b" "length x + length (ib_data b) \<le> MAX_INMEMORY_BLOCK_SIZE"
  shows "snd (ib_add b x) \<and> ib_invar (fst (ib_add b x))
     \<and> ib_strings (fst (ib_add b x)) = ib_strings b @ [x]
     \<and> length (ib_data (fst (ib_add b x))) \<le> MAX_INMEMORY_BLOCK_SIZE"
proof -
  define new where "new = \<lparr>it_start = of_nat (length (ib_data b)),
      it_end = of_nat (length (ib_data b @ x)) :: u32\<rparr>"
  have a: "fst (ib_add b x) = b\<lparr>ib_data := ib_data b @ x, ib_items := ib_items b @ [new]\<rparr>"
    "snd (ib_add b x)"
    using assms(2) by (simp_all add: ib_add_def new_def)
  have "length (ib_data b @ x) < 2 ^ 32" using assms(2) by (simp add: MAX_INMEMORY_BLOCK_SIZE_def)
  note p = push_item [OF _ ib_strings_def [symmetric] this, of new]
  have "list_all (item_ok (ib_data b)) (ib_items b)" using assms by (simp add: ib_invar_def)
  note p = p [OF this]
  have s: "ib_strings (fst (ib_add b x)) = ib_strings b @ [x]"
    using p(2) unfolding a by (subst ib_strings_def) (simp add: new_def)
  then show ?thesis
    using p(1) a assms by (simp add: ib_invar_def MAX_INMEMORY_BLOCK_SIZE_def new_def)
qed

lemma ib_reset_simps [simp]:
  "ib_strings (ib_reset b) = []" "ib_items (ib_reset b) = []" "ib_data (ib_reset b) = []"
  "ib_invar (ib_reset b)"
  by (simp_all add: ib_reset_def ib_strings_def ib_invar_def)

section \<open>Writing and reading back\<close>

lemma item_suffix_drop: "item_suffix b it = drop (length (common_prefix b)) (item_bytes it (ib_data b))"
  by (simp add: item_suffix_def item_bytes_def subslice_def drop_take add.commute)

lemma item_suffix_len_eq:
  assumes "item_ok (ib_data b) it"
  shows "item_suffix_len b it = of_nat (length (item_suffix b it))"
proof -
  have "unat (it_end it - it_start it) = unat (it_end it) - unat (it_start it)"
    using assms by (simp add: item_ok_def unat_sub word_le_nat_alt)
  then show ?thesis
    using length_item_bytes [OF assms] by (simp add: item_suffix_len_def item_suffix_drop)
qed

lemma unat_suffix_len: "length s < 2 ^ 64 \<Longrightarrow> unat (suffix_len s) = length s"
  by (simp add: suffix_len_def unat_of_nat)

lemma plain_lens_loop_marshal:
  "plain_lens_loop (length ls) (foldl marshal_uint64 [] ls) = Inr (ls, [])"
proof -
  have f: "foldl marshal_uint64 acc ls = acc @ concat (map to_be_bytes ls)" for acc and ls :: "u64 list"
    by (induction ls arbitrary: acc) (simp_all add: marshal_uint64_def)
  have "plain_lens_loop (length ls) (concat (map to_be_bytes ls)) = Inr (ls, [])" for ls
    by (induction ls) (simp_all add: unmarshal_uint64_def from_be_to_be_bytes)
  then show ?thesis by (simp add: f)
qed

lemma holds_push:
  assumes "holds data its strs" "length (data @ x) < 2 ^ 32"
    "new = \<lparr>it_start = of_nat (length data), it_end = of_nat (length (data @ x))\<rparr>"
  shows "holds (data @ x) (its @ [new]) (strs @ [x])"
proof -
  have "list_all (item_ok data) its" "map (\<lambda>it. item_bytes it data) its = strs" "concat strs = data"
    using assms(1) unfolding holds_def by auto
  note p = push_item [OF this(1,2) assms(2,3)] this(3)
  then show ?thesis unfolding holds_def by (intro conjI) (simp_all only: concat_append concat.simps append_Nil2)
qed

lemma holds_first:
  "length x < 2 ^ 32 \<Longrightarrow> holds x [\<lparr>it_start = 0, it_end = of_nat (length x)\<rparr>] [x]"
  using holds_push [of "[]" "[]" "[]" x] by (simp add: holds_def)

lemma plain_items_loop_decodes:
  assumes "holds data its strs" "length data + length (concat (map ((@) cp) sufs)) < 2 ^ 32"
  shows "\<exists>data' its'. plain_items_loop cp (map suffix_len sufs) data its (concat sufs @ t)
      = Inr (data', its', t) \<and> holds data' its' (strs @ map ((@) cp) sufs)"
  using assms
proof (induction sufs arbitrary: data its strs)
  case (Cons s sufs)
  let ?new = "\<lparr>it_start = of_nat (length data), it_end = of_nat (length (data @ cp @ s))\<rparr> :: item"
  have "unat (suffix_len s) = length s" using Cons.prems(2) by (intro unat_suffix_len) simp
  then have "plain_items_loop cp (map suffix_len (s # sufs)) data its (concat (s # sufs) @ t)
     = plain_items_loop cp (map suffix_len sufs) (data @ cp @ s) (its @ [?new]) (concat sufs @ t)"
    by (simp add: Let_def)
  moreover have "holds (data @ cp @ s) (its @ [?new]) (strs @ [cp @ s])"
    by (rule holds_push [OF Cons.prems(1)]) (use Cons.prems(2) in simp_all)
  ultimately show ?case
    using Cons.IH [of "data @ cp @ s" "its @ [?new]" "strs @ [cp @ s]"] Cons.prems(2) by simp
qed simp

lemma length_prefix_lens [simp]: "length (prefix_lens prev sufs) = length sufs"
  by (induction sufs arbitrary: prev) simp_all

lemma xor_scan_items_loop: "xor_scan pl (snd (items_loop prev pl sufs)) = prefix_lens prev sufs"
  by (induction prev pl sufs rule: items_loop.induct)
    (simp_all add: Let_def split_beta xor.assoc)

lemma length_items_loop [simp]: "length (snd (items_loop prev pl sufs)) = length sufs"
  by (induction prev pl sufs rule: items_loop.induct) (simp_all add: Let_def split_beta)

lemma fst_items_loop_pl: "fst (items_loop prev pl sufs) = fst (items_loop prev 0 sufs)"
  by (cases sufs) (simp_all add: Let_def split_beta)

lemma xor_scan_lens_loop: "xor_scan l (lens_loop l ls) = ls"
  by (induction l ls rule: lens_loop.induct) (simp_all add: Let_def xor.assoc)

lemma length_lens_loop [simp]: "length (lens_loop l ls) = length ls"
  by (induction l ls rule: lens_loop.induct) simp_all

lemma zstd_items_loop_step:
  assumes "\<not> prefix_len > item_len" "unat (item_len - prefix_len) = n" "n \<le> length b"
    "\<not> to > of_nat (length data)" "\<not> ps > to" "unat to \<le> length (data @ cp)" "to = ps + prefix_len"
    "dd = data @ cp @ subslice (data @ cp) (unat ps) (unat to) @ take n b"
  shows "zstd_items_loop cp ((item_len, prefix_len) # rest) data its ps b
    = zstd_items_loop cp rest dd
        (its @ [\<lparr>it_start = of_nat (length data), it_end = of_nat (length dd)\<rparr>])
        (of_nat (length dd) - item_len) (drop n b)"
  using assms by (simp add: Let_def del: of_nat_add length_append)

lemma zstd_items_loop_decodes:
  assumes "holds data its strs" "data = d0 @ prev"
    "length data + length (concat (map ((@) cp) sufs)) < 2 ^ 32"
  shows "\<exists>data' its'. zstd_items_loop cp (zip (map suffix_len sufs) (prefix_lens prev sufs)) data its
        (of_nat (length d0)) (fst (items_loop prev 0 sufs) @ t)
      = Inr (data', its', t) \<and> holds data' its' (strs @ map ((@) cp) sufs)"
  using assms
proof (induction sufs arbitrary: data its strs d0 prev)
  case (Cons s sufs)
  let ?k = "common_prefix_len prev s"
  let ?d = "data @ cp @ s"
  let ?new = "\<lparr>it_start = of_nat (length data), it_end = of_nat (length ?d)\<rparr> :: item"
  have k: "?k \<le> length prev" "?k \<le> length s" by (rule common_prefix_len_le)+
  have small: "length ?d < 2 ^ 32" using Cons.prems(3) by simp
  then have u: "unat (of_nat (length ?d) :: u64) = length ?d"
    "unat (suffix_len s) = length s" "unat (of_nat ?k :: u64) = ?k"
    "unat (of_nat (length data) :: u64) = length data"
    "unat (of_nat (length d0 + ?k) :: u64) = length d0 + ?k" "unat (of_nat (length d0) :: u64) = length d0"
    using k Cons.prems(2) by (simp_all add: unat_of_nat suffix_len_def del: of_nat_add)
  have w: "\<not> suffix_len s < of_nat ?k" "unat (suffix_len s - of_nat ?k) = length s - ?k"
    using k u by (simp_all add: word_less_nat_alt unat_sub word_le_nat_alt)
  have to: "\<not> of_nat (length data) < (of_nat (length d0 + ?k) :: u64)"
    "\<not> (of_nat (length d0 + ?k) :: u64) < of_nat (length d0)"
    using k u Cons.prems(2) by (simp_all add: word_less_nat_alt del: of_nat_add)
  have sub: "subslice (data @ cp) (length d0) (length d0 + ?k) = take ?k s"
    using k(1) Cons.prems(2) common_prefix_len_take [of prev s] by (simp add: subslice_def)
  have nx: "of_nat (length ?d) - suffix_len s = (of_nat (length (data @ cp)) :: u64)"
    by (simp add: suffix_len_def)
  have st: "zstd_items_loop cp ((suffix_len s, of_nat ?k) # rest) data its
        (of_nat (length d0)) (drop ?k s @ b)
     = zstd_items_loop cp rest ?d (its @ [?new]) (of_nat (length (data @ cp))) (drop (length s - ?k) (drop ?k s @ b))"
    for rest b
    unfolding nx [symmetric]
    by (rule zstd_items_loop_step [OF w _ to]) (use k u sub Cons.prems(2) in simp_all)
  have "zstd_items_loop cp (zip (map suffix_len (s # sufs)) (prefix_lens prev (s # sufs))) data its
        (of_nat (length d0)) (fst (items_loop prev 0 (s # sufs)) @ t)
     = zstd_items_loop cp (zip (map suffix_len sufs) (prefix_lens s sufs)) ?d (its @ [?new])
        (of_nat (length (data @ cp))) (fst (items_loop s 0 sufs) @ t)"
    using st [of "zip (map suffix_len sufs) (prefix_lens s sufs)" "fst (items_loop s 0 sufs) @ t"]
    by (simp add: Let_def split_beta fst_items_loop_pl [of s "of_nat _"] del: zstd_items_loop.simps)
  moreover have h: "holds ?d (its @ [?new]) (strs @ [cp @ s])"
    by (rule holds_push [OF Cons.prems(1)]) (use Cons.prems(3) in simp_all)
  have "length ?d + length (concat (map ((@) cp) sufs)) < 2 ^ 32" using Cons.prems(3) by simp
  from Cons.IH [OF h _ this, of "data @ cp" s]
  obtain data' its' where "zstd_items_loop cp (zip (map suffix_len sufs) (prefix_lens s sufs)) ?d (its @ [?new])
        (of_nat (length (data @ cp))) (fst (items_loop s 0 sufs) @ t) = Inr (data', its', t)"
    "holds data' its' ((strs @ [cp @ s]) @ map ((@) cp) sufs)" by auto
  ultimately show ?case by (intro exI [of _ data'] exI [of _ its']) simp
qed simp

lemma ib_strings_split:
  assumes "ib_ready b"
  shows "ib_strings b = ib_first b # map ((@) (common_prefix b)) (suffixes b)"
    "length (suffixes b) = length (ib_items b) - 1"
    "ib_first b = common_prefix b @ drop (length (common_prefix b)) (ib_first b)"
proof -
  obtain it its where its: "ib_items b = it # its" using assms by (auto simp: ib_ready_def neq_Nil_conv)
  have p: "common_prefix b @ item_suffix b x = item_bytes x (ib_data b)" if "x \<in> set (ib_items b)" for x
    using assms that has_prefix_drop [of "common_prefix b" "item_bytes x (ib_data b)"]
    by (simp add: ib_ready_def ib_strings_def item_suffix_drop)
  show "ib_strings b = ib_first b # map ((@) (common_prefix b)) (suffixes b)"
    using p its by (auto simp: ib_strings_def ib_first_def suffixes_def)
  show "length (suffixes b) = length (ib_items b) - 1" by (simp add: suffixes_def)
  show "ib_first b = common_prefix b @ drop (length (common_prefix b)) (ib_first b)"
    using p [of it] its by (simp add: ib_first_def item_suffix_drop)
qed

lemma suffix_lens_eq:
  assumes "ib_invar b"
  shows "map (item_suffix_len b) (drop 1 (ib_items b)) = map suffix_len (suffixes b)"
proof -
  have "\<forall>it \<in> set (drop 1 (ib_items b)). item_ok (ib_data b) it"
    using assms by (auto simp: ib_invar_def list_all_iff dest: in_set_dropD)
  then show ?thesis by (auto simp: suffixes_def suffix_len_def item_suffix_len_eq)
qed

lemma ib_data_length: "ib_invar b \<Longrightarrow> length (ib_data b) = length (concat (ib_strings b))"
  by (simp add: ib_invar_def length_concat)

lemma holds_block:
  assumes "holds data its strs" "length (concat strs) < 2 ^ 32"
  shows "ib_invar (blk\<lparr>ib_data := data, ib_items := its\<rparr>)"
    "ib_strings (blk\<lparr>ib_data := data, ib_items := its\<rparr>) = strs"
  using assms by (auto simp: holds_def ib_invar_def ib_strings_def length_concat)

lemma unmarshal_plain_ok:
  assumes "ib_ready b"
  shows "\<exists>data its. unmarshal_data_plain \<lparr>common_prefix = common_prefix b, ib_data = [], ib_items = []\<rparr>
      (marshal_data_plain b) (ib_first b) (length (ib_items b))
    = Inr \<lparr>common_prefix = common_prefix b, ib_data = data, ib_items = its\<rparr> \<and> holds data its (ib_strings b)"
proof -
  let ?cp = "common_prefix b" and ?s = "suffixes b" and ?f = "ib_first b"
  note sp = ib_strings_split [OF assms]
  have inv: "ib_invar b" using assms by (simp add: ib_ready_def)
  have m: "marshal_data_plain b = \<lparr>items_data = concat ?s, lens_data = foldl marshal_uint64 [] (map suffix_len ?s)\<rparr>"
  proof -
    have fm: "foldl (\<lambda>dst it. marshal_uint64 dst (item_suffix_len b it)) [] xs
      = foldl marshal_uint64 [] (map (item_suffix_len b) xs)" for xs by (simp add: foldl_map)
    show ?thesis unfolding marshal_data_plain_def fm suffix_lens_eq [OF inv] by (simp add: suffixes_def)
  qed
  have small: "length ?f + length (concat (map ((@) ?cp) ?s)) < 2 ^ 32"
    using inv ib_data_length [OF inv] by (simp add: ib_invar_def sp(1))
  then have "holds ?f [\<lparr>it_start = 0, it_end = of_nat (length ?f)\<rparr>] [?f]" by (intro holds_first) simp
  from plain_items_loop_decodes [OF this small, of "[]"]
  obtain data its where d: "plain_items_loop ?cp (map suffix_len ?s) ?f
      [\<lparr>it_start = 0, it_end = of_nat (length ?f)\<rparr>] (concat ?s) = Inr (data, its, [])"
    "holds data its (?f # map ((@) ?cp) ?s)" by auto
  have "length data = length ?f + length (concat ?s) + length ?cp * (length (ib_items b) - 1)"
    using d(2) by (simp add: holds_def length_concat comp_def sum_list_addf sum_list_triv sp(2) mult.commute)
  with d plain_lens_loop_marshal [of "map suffix_len ?s"] show ?thesis
    by (simp add: unmarshal_data_plain_def m sp(1,2))
qed

lemma length_items_loop_le: "length (fst (items_loop prev pl sufs)) \<le> length (concat sufs)"
  by (induction prev pl sufs rule: items_loop.induct) (auto simp: Let_def split_beta)

lemma length_concat_leb128_le: "length (concat (map leb128 us)) \<le> 10 * length us"
proof (induction us)
  case (Cons u us)
  then show ?case using leb128_size [of u] by simp
qed simp

lemma block_data_len:
  fixes cp first :: bytes
  assumes "first = cp @ drop (length cp) first"
  shows "of_nat (length cp) * of_nat (length sufs + 1)
      + (of_nat (length first) - of_nat (length cp)) + sum_list (map suffix_len sufs)
    = (of_nat (length (concat (first # map ((@) cp) sufs))) :: u64)"
proof -
  have "sum_list (map suffix_len sufs) + of_nat (length cp) * of_nat (length sufs)
      = (of_nat (length (concat (map ((@) cp) sufs))) :: u64)"
    by (induction sufs) (simp_all add: suffix_len_def algebra_simps)
  then show ?thesis by (simp add: algebra_simps)
qed

lemma unmarshal_zstd_ok:
  assumes "ib_ready b" "length (ib_items b) < 2 ^ 32"
    "decompress_zstd Z [] (items_data sb)
       = Inr (fst (items_loop (drop (length (common_prefix b)) (ib_first b)) 0 (suffixes b)))"
    "decompress_zstd Z [] (lens_data sb)
       = Inr (marshal_var_uint64s (marshal_var_uint64s []
            (snd (items_loop (drop (length (common_prefix b)) (ib_first b)) 0 (suffixes b))))
            (lens_loop (of_nat (length (ib_first b) - length (common_prefix b))) (map suffix_len (suffixes b))))"
  shows "\<exists>data its. ib_unmarshal_data Z sb (ib_first b) (common_prefix b) (of_nat (length (ib_items b))) Zstd
    = Inr \<lparr>common_prefix = common_prefix b, ib_data = data, ib_items = its\<rparr> \<and> holds data its (ib_strings b)"
proof -
  let ?cp = "common_prefix b" and ?s = "suffixes b" and ?f = "ib_first b"
  let ?it0 = "[\<lparr>it_start = 0, it_end = of_nat (length ?f)\<rparr>]"
  define prev where "prev = drop (length ?cp) ?f"
  define xs where "xs = snd (items_loop prev 0 ?s)"
  define l0 :: u64 where "l0 = of_nat (length ?f) - of_nat (length ?cp)"
  note sp = ib_strings_split [OF assms(1)]
  have inv: "ib_invar b" using assms by (simp add: ib_ready_def)
  have cpf: "length ?cp \<le> length ?f" using arg_cong [OF sp(3), of length] by simp
  have l0: "l0 = of_nat (length ?f - length ?cp)" using cpf by (simp add: l0_def of_nat_diff)
  have n: "length ?s = length (ib_items b) - 1" "0 < length (ib_items b)"
    using sp(2) assms(1) by (auto simp: ib_ready_def)
  have un: "unat (of_nat (length (ib_items b)) :: u32) = length ?s + 1"
    using n assms(2) by (simp add: unat_of_nat)
  then have nz: "(of_nat (length (ib_items b)) :: u32) \<noteq> 0" by (metis add_is_0 one_neq_zero unat_0)
  have small: "length ?f + length (concat (map ((@) ?cp) ?s)) < 2 ^ 32"
    using inv ib_data_length [OF inv] by (simp add: ib_invar_def sp(1))
  then have "holds ?f ?it0 [?f]" by (intro holds_first) simp
  from zstd_items_loop_decodes [OF this _ small, of ?cp prev "[]"] sp(3)
  obtain data its where d: "zstd_items_loop ?cp (zip (map suffix_len ?s) (prefix_lens prev ?s)) ?f
      ?it0 (of_nat (length ?cp)) (fst (items_loop prev 0 ?s)) = Inr (data, its, [])"
    "holds data its (?f # map ((@) ?cp) ?s)" by (auto simp: prev_def)
  have len: "of_nat (length ?cp) * of_nat (length ?s + 1) + l0 + sum_list (map suffix_len ?s)
      = (of_nat (length (ib_data b)) :: u64)"
    unfolding ib_data_length [OF inv] sp(1) l0_def by (rule block_data_len [OF sp(3)])
  have lt: "unat (of_nat (length (ib_data b)) :: u64) < 2 ^ 63"
    using inv by (simp add: ib_invar_def unat_of_nat)
  have ld: "length data = length (ib_data b)"
    using d(2) ib_data_length [OF inv] by (simp add: holds_def sp(1))
  have "ib_strings \<lparr>common_prefix = ?cp, ib_data = data, ib_items = its\<rparr> = ib_strings b"
    using d(2) unfolding sp(1) by (auto simp: ib_strings_def holds_def)
  then have so: "ib_is_sorted \<lparr>common_prefix = ?cp, ib_data = data, ib_items = its\<rparr>"
    using assms(1) by (simp add: ib_is_sorted_iff ib_ready_def)
  have r1: "unmarshal_var_uint64s (length ?s) (marshal_var_uint64s [] xs @ t) = Inr (xs, t)" for t
    using uint64s_roundtrip [of xs t] by (simp add: xs_def)
  have r2: "unmarshal_var_uint64s (length ?s) (marshal_var_uint64s [] (lens_loop l0 (map suffix_len ?s)))
      = Inr (lens_loop l0 (map suffix_len ?s), [])"
    using uint64s_roundtrip [of "lens_loop l0 (map suffix_len ?s)" "[]"] by simp
  have ap: "marshal_var_uint64s (marshal_var_uint64s [] us) vs = marshal_var_uint64s [] us @ marshal_var_uint64s [] vs"
    for us vs by (simp add: marshal_uint64s_eq)
  have x: "xor_scan 0 xs = prefix_lens prev ?s" by (simp add: xs_def xor_scan_items_loop)
  have z: "decompress_zstd Z [] (items_data sb) = Inr (fst (items_loop prev 0 ?s))"
    "decompress_zstd Z [] (lens_data sb)
      = Inr (marshal_var_uint64s [] xs @ marshal_var_uint64s [] (lens_loop l0 (map suffix_len ?s)))"
    using assms(3,4) by (simp_all only: prev_def xs_def ap l0)
  have "ib_unmarshal_data Z sb ?f ?cp (of_nat (length (ib_items b))) Zstd
      = Inr \<lparr>common_prefix = ?cp, ib_data = data, ib_items = its\<rparr>"
    unfolding ib_unmarshal_data_def un
    using nz lt so
    by (simp add: z r1 r2 x xor_scan_lens_loop d(1) len ld Let_def flip: l0_def
        del: of_nat_add of_nat_Suc One_nat_def)
  with d(2) sp(1) show ?thesis by auto
qed

lemma holds_strings: "holds data its strs \<Longrightarrow> ib_strings \<lparr>common_prefix = cp, ib_data = data, ib_items = its\<rparr> = strs"
  unfolding holds_def by (auto simp: ib_strings_def)

lemma reads_backI:
  assumes "ib_ready b"
    "\<exists>data its. ib_unmarshal_data Z sb (ib_first b) (common_prefix b) (of_nat (length (ib_items b))) mt
       = Inr \<lparr>common_prefix = common_prefix b, ib_data = data, ib_items = its\<rparr> \<and> holds data its (ib_strings b)"
  shows "reads_back Z b sb mt"
proof -
  from assms(2) obtain data its where u: "ib_unmarshal_data Z sb (ib_first b) (common_prefix b) (of_nat (length (ib_items b))) mt
       = Inr \<lparr>common_prefix = common_prefix b, ib_data = data, ib_items = its\<rparr>" and h: "holds data its (ib_strings b)"
    by blast
  have "length (concat (ib_strings b)) < 2 ^ 32"
    using assms(1) ib_data_length [of b] unfolding ib_ready_def ib_invar_def by linarith
  note hb = holds_block(1) [OF h this, of "\<lparr>common_prefix = common_prefix b, ib_data = data, ib_items = its\<rparr>"]
  have i: "ib_invar \<lparr>common_prefix = common_prefix b, ib_data = data, ib_items = its\<rparr>"
    using hb by (simp only: inmemory_block.update_convs)
  show ?thesis unfolding reads_back_def
    by (rule exI conjI u holds_strings [OF h] inmemory_block.select_convs i)+
qed

lemma reads_back_plain:
  assumes "ib_ready b" "length (ib_items b) < 2 ^ 32"
  shows "reads_back Z b (marshal_data_plain b) Plain"
proof (rule reads_backI [OF assms(1)])
  have un: "unat (of_nat (length (ib_items b)) :: u32) = length (ib_items b)"
    using assms(2) by (simp add: unat_of_nat)
  then have nz: "(of_nat (length (ib_items b)) :: u32) \<noteq> 0"
    using assms(1) unat_0 by (metis ib_ready_def length_0_conv)
  obtain data its where u: "unmarshal_data_plain \<lparr>common_prefix = common_prefix b, ib_data = [], ib_items = []\<rparr>
      (marshal_data_plain b) (ib_first b) (length (ib_items b))
    = Inr \<lparr>common_prefix = common_prefix b, ib_data = data, ib_items = its\<rparr>" and h: "holds data its (ib_strings b)"
    using unmarshal_plain_ok [OF assms(1)] by blast
  have "ib_is_sorted \<lparr>common_prefix = common_prefix b, ib_data = data, ib_items = its\<rparr>"
    using assms(1) holds_strings [OF h] by (simp add: ib_is_sorted_iff ib_ready_def)
  with u h nz un show "\<exists>data its. ib_unmarshal_data Z (marshal_data_plain b) (ib_first b) (common_prefix b)
        (of_nat (length (ib_items b))) Plain
       = Inr \<lparr>common_prefix = common_prefix b, ib_data = data, ib_items = its\<rparr> \<and> holds data its (ib_strings b)"
    by (auto simp: ib_unmarshal_data_def Let_def)
qed

lemma ib_marshal_reads_back:
  assumes "zstd_ok Z" "ib_ready b" "length (ib_items b) < 2 ^ 32"
  shows "\<exists>sb mt. ib_marshal_data Z b fd cd level
      = Some (sb, fd @ ib_first b, cd @ common_prefix b, of_nat (length (ib_items b)), mt)
    \<and> reads_back Z b sb mt"
proof -
  let ?s = "suffixes b" and ?cp = "common_prefix b" and ?f = "ib_first b"
  let ?il = "items_loop (drop (length ?cp) ?f) 0 ?s"
  let ?lens = "marshal_var_uint64s (marshal_var_uint64s [] (snd ?il))
        (lens_loop (of_nat (length ?f - length ?cp)) (map suffix_len ?s))"
  note sp = ib_strings_split [OF assms(2)]
  have inv: "ib_invar b" and ne: "ib_items b \<noteq> []" using assms(2) by (simp_all add: ib_ready_def)
  have "length (concat ?s) \<le> length (concat (map ((@) ?cp) ?s))" by (simp add: length_concat comp_def sum_list_mono)
  also have "\<dots> < 2 ^ 32" using inv ib_data_length [OF inv] by (simp add: ib_invar_def sp(1))
  finally have i: "length (fst ?il) < 2 ^ 64" using length_items_loop_le [of "drop (length ?cp) ?f" 0 ?s] by simp
  have "length ?lens \<le> 10 * (2 * length ?s)"
    using length_concat_leb128_le [of "snd ?il"]
      length_concat_leb128_le [of "lens_loop (of_nat (length ?f - length ?cp)) (map suffix_len ?s)"]
    by (simp add: marshal_uint64s_eq)
  then have l: "length ?lens < 2 ^ 64" using assms(3) sp(2) by simp
  obtain zi where zi: "compress_zstd_level Z [] (fst ?il) level = Some zi" "decompress_zstd Z [] zi = Inr (fst ?il)"
    using compress_decompress [OF assms(1) i, of "[]" level "[]"] by auto
  obtain zl where zl: "compress_zstd_level Z [] ?lens level = Some zl" "decompress_zstd Z [] zl = Inr ?lens"
    using compress_decompress [OF assms(1) l, of "[]" level "[]"] by auto
  have rz: "reads_back Z b \<lparr>items_data = zi, lens_data = zl\<rparr> Zstd"
    by (rule reads_backI [OF assms(2)], rule unmarshal_zstd_ok [OF assms(2,3)]) (simp_all add: zi zl)
  note rp = reads_back_plain [OF assms(2,3)]
  have "ib_marshal_data Z b fd cd level
      = Some (marshal_data_plain b, fd @ ?f, cd @ ?cp, of_nat (length (ib_items b)), Plain)
    \<or> ib_marshal_data Z b fd cd level
      = Some (\<lparr>items_data = zi, lens_data = zl\<rparr>, fd @ ?f, cd @ ?cp, of_nat (length (ib_items b)), Zstd)"
    unfolding ib_marshal_data_def
    using ne assms(3) zi(1) zl(1)
    by (simp add: Let_def split_beta suffix_lens_eq [OF inv, simplified] flip: suffixes_def [simplified] ib_first_def)
  with rz rp show ?thesis by blast
qed

section \<open>Sorting before writing\<close>

lemma ib_strings_nth: "i < length (ib_items b) \<Longrightarrow> ib_strings b ! i = item_bytes (ib_items b ! i) (ib_data b)"
  by (simp add: ib_strings_def)

lemma update_sorted_prefix:
  assumes "ib_invar b" "sorted (ib_strings b)" "x \<in> set (ib_strings b)"
  shows "has_prefix (common_prefix (update_common_prefix_sorted b)) x"
proof (cases "length (ib_items b) \<le> 1")
  case False
  let ?f = "ib_strings b ! 0" and ?l = "ib_strings b ! (length (ib_items b) - 1)"
  let ?k = "common_prefix_len ?f ?l"
  let ?s = "unat (it_start (ib_items b ! 0))"
  have len: "length (ib_strings b) = length (ib_items b)" by (simp add: ib_strings_def)
  have "ib_items b ! 0 \<in> set (ib_items b)" using False by (cases "ib_items b") simp_all
  then have ok: "item_ok (ib_data b) (ib_items b ! 0)" using assms(1) by (simp add: ib_invar_def list_all_iff)
  have f: "?f = item_bytes (ib_items b ! 0) (ib_data b)" using False by (intro ib_strings_nth) linarith
  have "?k \<le> length ?f" by (rule common_prefix_len_le)
  then have k: "?k \<le> unat (it_end (ib_items b ! 0)) - ?s"
    using length_item_bytes [OF ok] f by simp
  have "common_prefix (update_common_prefix_sorted b) = subslice (ib_data b) ?s (?s + ?k)"
    using False by (simp add: update_common_prefix_sorted_def ib_strings_nth f Let_def)
  also have "\<dots> = take ?k ?f" using k by (simp add: f item_bytes_def subslice_def min_absorb1)
  finally have cp: "common_prefix (update_common_prefix_sorted b) = take ?k ?f" .
  obtain i where i: "i < length (ib_items b)" "x = ib_strings b ! i"
    using assms(3) len by (auto simp: in_set_conv_nth)
  have "?f \<le> x" "x \<le> ?l" using i assms(2) False len by (auto intro!: sorted_nth_mono)
  then show ?thesis
    unfolding cp using common_prefix_len_prefix [of ?f ?l] has_prefix_between by blast
qed (simp add: update_common_prefix_sorted_def)

lemma update_unsorted_prefix:
  "x \<in> set (ib_strings b) \<Longrightarrow> has_prefix (common_prefix (update_common_prefix_unsorted b)) x"
  using common_prefix_loop_prefix
  by (auto simp: update_common_prefix_unsorted_def split: list.splits)

lemma update_common_prefix_frame [simp]:
  "ib_data (update_common_prefix_sorted b) = ib_data b"
  "ib_items (update_common_prefix_sorted b) = ib_items b"
  "ib_data (update_common_prefix_unsorted b) = ib_data b"
  "ib_items (update_common_prefix_unsorted b) = ib_items b"
  by (simp_all add: update_common_prefix_sorted_def update_common_prefix_unsorted_def Let_def
      split: list.splits)

lemma ib_strings_cong: "ib_data c = ib_data b \<Longrightarrow> ib_items c = ib_items b \<Longrightarrow> ib_strings c = ib_strings b"
  by (simp add: ib_strings_def)

lemma ib_invar_cong: "ib_data c = ib_data b \<Longrightarrow> ib_items c = ib_items b \<Longrightarrow> ib_invar c = ib_invar b"
  by (simp add: ib_invar_def ib_strings_def)

lemma sort_key_suffix:
  assumes "\<forall>it \<in> set its. has_prefix cp (f it)"
  shows "map f (sort_key (\<lambda>it. drop (length cp) (f it)) its) = sort (map f its)"
proof (rule properties_for_sort [symmetric])
  let ?k = "\<lambda>it. drop (length cp) (f it)"
  show "mset (map f (sort_key ?k its)) = mset (map f its)" by simp
  have "sorted (map ((@) cp) (map ?k (sort_key ?k its)))"
    using sorted_sort_key [of ?k its] by (simp add: sorted_map le_common_prefix)
  moreover have "map ((@) cp) (map ?k (sort_key ?k its)) = map f (sort_key ?k its)"
    using assms has_prefix_drop by fastforce
  ultimately show "sorted (map f (sort_key ?k its))" by (simp only:)
qed

lemma ib_sort_items_correct:
  assumes "ib_invar b" "ib_items b \<noteq> []"
  shows "ib_ready (ib_sort_items b)" "ib_strings (ib_sort_items b) = sort (ib_strings b)"
    "length (ib_items (ib_sort_items b)) = length (ib_items b)"
proof -
  have "ib_ready (ib_sort_items b) \<and> ib_strings (ib_sort_items b) = sort (ib_strings b)
    \<and> length (ib_items (ib_sort_items b)) = length (ib_items b)"
  proof (cases "ib_is_sorted b")
    case True
    then have so: "sorted (ib_strings b)" by (simp add: ib_is_sorted_iff)
    let ?c = "update_common_prefix_sorted b"
    have "ib_strings ?c = ib_strings b" "ib_invar ?c" using assms(1) ib_strings_cong [of ?c b] ib_invar_cong [of ?c b] by simp_all
    with True so assms(2) update_sorted_prefix [OF assms(1) so] show ?thesis
      by (simp add: ib_sort_items_def ib_ready_def sorted_sort_id)
  next
    case False
    let ?c = "update_common_prefix_unsorted b"
    let ?f = "\<lambda>it. item_bytes it (ib_data b)"
    define its where "its = sort_key (\<lambda>it. drop (length (common_prefix ?c)) (?f it)) (ib_items b)"
    have "subslice d (unat (it_start it) + n) (unat (it_end it)) = drop n (item_bytes it d)" for n d it
      by (simp add: item_bytes_def subslice_def drop_take add.commute)
    then have e: "ib_sort_items b = ?c\<lparr>ib_items := its\<rparr>"
      using False by (simp add: ib_sort_items_def its_def Let_def)
    have "map ?f its = sort (map ?f (ib_items b))"
      unfolding its_def using update_unsorted_prefix [of _ b]
      by (intro sort_key_suffix) (simp add: ib_strings_def)
    then have st: "ib_strings (ib_sort_items b) = sort (ib_strings b)" by (simp add: e ib_strings_def)
    have ms: "mset its = mset (ib_items b)" by (simp add: its_def)
    then have "set its = set (ib_items b)" "length its = length (ib_items b)"
      by (metis set_mset_mset, metis size_mset)
    moreover have "sum_list (map length (sort (ib_strings b))) = sum_list (map length (ib_strings b))"
      by (metis mset_map mset_sort sum_mset_sum_list)
    ultimately have "ib_invar (ib_sort_items b)" "its \<noteq> []" "length its = length (ib_items b)"
      using assms st by (auto simp: ib_invar_def e list_all_iff)
    with st update_unsorted_prefix [of _ b] show ?thesis by (simp add: ib_ready_def e)
  qed
  then show "ib_ready (ib_sort_items b)" "ib_strings (ib_sort_items b) = sort (ib_strings b)"
    "length (ib_items (ib_sort_items b)) = length (ib_items b)" by simp_all
qed

lemma unmarshal_var_two: "unmarshal_var_uint64s (Suc 0) (leb128 u @ t) = Inr ([u], t)"
  using uint64s_roundtrip [of "[u]" t] by (simp add: marshal_uint64s_eq)

lemma plain_items_loop_size:
  "plain_items_loop cp lens data its b = Inr (data', its', b') \<Longrightarrow>
    length its' = length its + length lens \<and> length data \<le> length data'"
  by (induction cp lens data its b rule: plain_items_loop.induct)
    (fastforce simp: Let_def split: if_splits)+

lemma zstd_items_loop_size:
  "zstd_items_loop cp lens data its ps b = Inr (data', its', b') \<Longrightarrow>
    length its' = length its + length lens \<and> length data \<le> length data'"
  by (induction cp lens data its ps b rule: zstd_items_loop.induct)
    (fastforce simp: Let_def split: if_splits)+

lemma plain_items_loop_holds:
  "plain_items_loop cp lens data its b = Inr (data', its', b') \<Longrightarrow> length data' < 2 ^ 32 \<Longrightarrow>
    holds data its strs \<Longrightarrow> \<exists>strs'. holds data' its' strs'"
proof (induction cp lens data its b arbitrary: strs rule: plain_items_loop.induct)
  case (2 cp l lens data its b)
  let ?d = "data @ cp @ take (unat l) b"
  let ?new = "\<lparr>it_start = of_nat (length data), it_end = of_nat (length ?d)\<rparr> :: item"
  have ok: "\<not> length b < unat l" using 2(2) by (simp split: if_splits)
  then have r: "plain_items_loop cp lens ?d (its @ [?new]) (drop (unat l) b) = Inr (data', its', b')"
    using 2(2) by (simp add: Let_def)
  have "holds ?d (its @ [?new]) (strs @ [cp @ take (unat l) b])"
    using plain_items_loop_size [OF r] 2(3) by (intro holds_push [OF 2(4)]) simp_all
  from 2(1) [OF ok refl r 2(3) this] show ?case .
qed auto

lemma zstd_items_loop_holds:
  "zstd_items_loop cp lens data its ps b = Inr (data', its', b') \<Longrightarrow> length data' < 2 ^ 32 \<Longrightarrow>
    holds data its strs \<Longrightarrow> \<exists>strs'. holds data' its' strs'"
proof (induction cp lens data its ps b arbitrary: strs rule: zstd_items_loop.induct)
  case (2 cp il pl rest data its ps b)
  let ?x = "cp @ subslice (data @ cp) (unat ps) (unat (ps + pl)) @ take (unat (il - pl)) b"
  let ?d = "data @ ?x"
  let ?new = "\<lparr>it_start = of_nat (length data), it_end = of_nat (length ?d)\<rparr> :: item"
  have ok: "\<not> pl > il" "\<not> length b < unat (il - pl)" "\<not> ps + pl > of_nat (length data)"
    "\<not> (ps > ps + pl \<or> unat (ps + pl) > length (data @ cp))"
    using 2(2) by (simp_all add: Let_def split: if_splits)
  then have r: "zstd_items_loop cp rest ?d (its @ [?new]) (of_nat (length ?d) - il)
      (drop (unat (il - pl)) b) = Inr (data', its', b')"
    using 2(2) zstd_items_loop_step [where cp = cp and dd = ?d and b = b and ps = ps and to = "ps + pl"
        and item_len = il and prefix_len = pl and data = data and rest = rest and its = its]
    by (simp del: zstd_items_loop.simps)
  have h: "holds ?d (its @ [?new]) (strs @ [?x])"
    using zstd_items_loop_size [OF r] 2(3) by (intro holds_push [OF 2(4)]) simp_all
  show ?case by (rule 2(1) [OF ok(1) refl ok(2) refl ok(3) refl ok(4) _ _ 2(3) h]) (use r in simp_all)
qed auto

lemma plain_lens_loop_length: "plain_lens_loop n b = Inr (ls, b') \<Longrightarrow> length ls = n"
  by (induction n b arbitrary: ls b' rule: plain_lens_loop.induct)
    (auto simp: rbind_eq_Inr split: option.splits)

lemma length_xor_scan [simp]: "length (xor_scan a xs) = length xs"
  by (induction a xs rule: xor_scan.induct) (simp_all add: Let_def)

lemma uint64s_mixed_length: "uint64s_mixed_loop k src idx dst = Inr (dst', idx') \<Longrightarrow> length dst' = length dst + k"
  by (induction k src idx dst rule: uint64s_mixed_loop.induct)
    (fastforce simp: rbind_eq_Inr)+

lemma unmarshal_uint64s_length: "unmarshal_var_uint64s n src = Inr (us, t) \<Longrightarrow> length us = n"
  using uint64s_mixed_length [of n src 0 "[]"]
  by (cases "length src < n")
    (auto simp: unmarshal_uint64s_eq rbind_eq_Inr, simp add: unmarshal_var_uint64s_def)

lemma plain_block_sound:
  assumes "unmarshal_data_plain blk sb first n = Inr c" "0 < n"
  shows "length (ib_items c) = n \<and> (length (ib_data c) < 2 ^ 32 \<longrightarrow> ib_invar c)"
proof -
  let ?it0 = "[\<lparr>it_start = 0, it_end = of_nat (length first)\<rparr>]"
  obtain lens data its where l: "plain_lens_loop (n - 1) (lens_data sb) = Inr (lens, [])"
    and p: "plain_items_loop (common_prefix blk) lens first ?it0 (items_data sb) = Inr (data, its, [])"
    and c: "c = blk\<lparr>ib_data := data, ib_items := its\<rparr>"
    using assms(1) unfolding unmarshal_data_plain_def
    by (auto simp: rbind_eq_Inr Let_def split: if_splits)
  have "ib_invar c" if s: "length data < 2 ^ 32"
  proof -
    have "holds first ?it0 [first]" using plain_items_loop_size [OF p] s by (intro holds_first) simp
    from plain_items_loop_holds [OF p s this] obtain strs where h: "holds data its strs" by blast
    have "concat strs = data" using h by (simp add: holds_def)
    with holds_block(1) [OF h] s c show ?thesis by simp
  qed
  with plain_items_loop_size [OF p] plain_lens_loop_length [OF l] assms(2) c show ?thesis by simp
qed

section \<open>Properties\<close>

text \<open>
  C20: A block built by \<open>add\<close> and written by \<open>marshal_unsorted_data\<close> is read back by
  \<open>unmarshal_data\<close> as a well-formed block with the same items in sorted order and the common
  prefix that was written, for every choice between the plain and the compressed format.\<close>

theorem marshal_unsorted_data_roundtrip:
  assumes "zstd_ok Z" "ib_invar b" "ib_items b \<noteq> []" "length (ib_items b) < 2 ^ 32"
  shows "\<exists>c sb mt blk. marshal_unsorted_data Z b fd cd level
      = (c, Some (sb, fd @ hd (sort (ib_strings b)), cd @ common_prefix c, of_nat (length (ib_items b)), mt))
    \<and> ib_unmarshal_data Z sb (hd (sort (ib_strings b))) (common_prefix c) (of_nat (length (ib_items b))) mt = Inr blk
    \<and> ib_strings blk = sort (ib_strings b) \<and> common_prefix blk = common_prefix c \<and> ib_invar blk"
proof -
  note c = ib_sort_items_correct [OF assms(2,3)]
  have "hd (ib_strings (ib_sort_items b)) = ib_first (ib_sort_items b)"
    unfolding ib_strings_split(1) [OF c(1)] by simp
  with ib_marshal_reads_back [OF assms(1) c(1), of fd cd level] assms(4) show ?thesis
    unfolding marshal_unsorted_data_def Let_def reads_back_def c(2,3) by auto
qed

theorem marshal_unsorted_data_roundtrip_witness:
  "\<exists>c sb mt blk. marshal_unsorted_data stored_zstd
       (fst (ib_add (fst (ib_add ib_default [9, 8])) [9, 7])) [] [] 3
      = (c, Some (sb, [9, 7], common_prefix c, 2, mt))
    \<and> ib_unmarshal_data stored_zstd sb [9, 7] (common_prefix c) 2 mt = Inr blk
    \<and> ib_strings blk = [[9, 7], [9, 8]] \<and> common_prefix blk = common_prefix c \<and> ib_invar blk"
proof -
  let ?b = "fst (ib_add (fst (ib_add ib_default [9, 8])) [9, 7])"
  have b: "?b = \<lparr>common_prefix = [], ib_data = [9, 8, 9, 7],
      ib_items = [\<lparr>it_start = 0, it_end = 2\<rparr>, \<lparr>it_start = 2, it_end = 4\<rparr>]\<rparr>"
    by (simp add: ib_add_def ib_default_def MAX_INMEMORY_BLOCK_SIZE_def)
  have "ib_invar ?b" "ib_strings ?b = [[9, 8], [9, 7]]" "length (ib_items ?b) = 2"
    by (simp_all add: b ib_invar_def ib_strings_def item_ok_def item_bytes_def subslice_def)
  then show ?thesis
    using marshal_unsorted_data_roundtrip [OF stored_zstd_ok, of ?b "[]" "[]" 3] by (simp add: b)
qed

text \<open>
  C32: \<open>add\<close> refuses an item that would make the data longer than the block limit and leaves the
  block as it was; otherwise the block gains exactly that item at the end, stays well-formed and
  within the limit.\<close>

theorem ib_add_correct:
  assumes "ib_invar b"
  shows "if length x + length (ib_data b) > MAX_INMEMORY_BLOCK_SIZE then ib_add b x = (b, False)
    else snd (ib_add b x) \<and> ib_invar (fst (ib_add b x))
       \<and> ib_strings (fst (ib_add b x)) = ib_strings b @ [x]
       \<and> length (ib_data (fst (ib_add b x))) \<le> MAX_INMEMORY_BLOCK_SIZE"
  using ib_add_appends [OF assms, of x] by (simp add: ib_add_refuses not_less)

theorem ib_add_correct_witness:
  "snd (ib_add ib_default [1, 2]) \<and> ib_strings (fst (ib_add ib_default [1, 2])) = [[1, 2]]"
  using ib_add_correct [of ib_default "[1, 2]"]
  by (simp add: ib_default_def ib_invar_def ib_strings_def MAX_INMEMORY_BLOCK_SIZE_def)

text \<open>
  C21: Whatever bytes were read from disk, a block that \<open>unmarshal_data\<close> accepts has sorted items and
  as many of them as the header says, and its item offsets lie inside its data unless the data
  outgrew the 32-bit offsets.\<close>

theorem unmarshal_block_sound:
  assumes "ib_unmarshal_data Z sb first cp n mt = Inr blk"
  shows "sorted (ib_strings blk) \<and> length (ib_items blk) = unat n
    \<and> (length (ib_data blk) < 2 ^ 32 \<longrightarrow> ib_invar blk)"
proof (cases mt)
  case Plain
  have "0 < unat n" using assms by (auto simp: ib_unmarshal_data_def unat_gt_0 split: if_splits)
  obtain c where "unmarshal_data_plain \<lparr>common_prefix = cp, ib_data = [], ib_items = []\<rparr> sb first (unat n) = Inr blk"
    "ib_is_sorted blk"
    using assms Plain by (auto simp: ib_unmarshal_data_def rbind_eq_Inr Let_def split: if_splits)
  with plain_block_sound \<open>0 < unat n\<close> show ?thesis by (auto simp: ib_is_sorted_iff)
next
  case Zstd
  let ?it0 = "[\<lparr>it_start = 0, it_end = of_nat (length first)\<rparr>]"
  have n: "0 < unat n" using assms by (auto simp: ib_unmarshal_data_def unat_gt_0 split: if_splits)
  obtain t1 t2 xs ys l0 bb data its where
    u: "unmarshal_var_uint64s (unat n - 1) t1 = Inr (xs, t2)" "unmarshal_var_uint64s (unat n - 1) t2 = Inr (ys, [])"
    and z: "zstd_items_loop cp (zip (xor_scan l0 ys) (xor_scan 0 xs)) first ?it0 (of_nat (length cp)) bb = Inr (data, its, [])"
    and c: "blk = \<lparr>common_prefix = cp, ib_data = data, ib_items = its\<rparr>" "ib_is_sorted blk"
    using assms Zstd unfolding ib_unmarshal_data_def
    by (auto simp: rbind_eq_Inr Let_def split: if_splits)
  have "ib_invar blk" if s: "length data < 2 ^ 32"
  proof -
    have "holds first ?it0 [first]" using zstd_items_loop_size [OF z] s by (intro holds_first) simp
    from zstd_items_loop_holds [OF z s this] obtain strs where h: "holds data its strs" by blast
    have "concat strs = data" using h by (simp add: holds_def)
    with holds_block(1) [OF h, of blk] s c(1) show ?thesis by simp
  qed
  with zstd_items_loop_size [OF z] unmarshal_uint64s_length [OF u(1)] unmarshal_uint64s_length [OF u(2)] n c
  show ?thesis by (simp add: ib_is_sorted_iff)
qed

theorem unmarshal_block_sound_witness:
  "\<exists>blk. ib_unmarshal_data stored_zstd \<lparr>items_data = [5], lens_data = [0, 0, 0, 0, 0, 0, 0, 1]\<rparr> [4] [] 2 Plain
      = Inr blk \<and> sorted (ib_strings blk) \<and> length (ib_items blk) = 2"
proof -
  have e: "ib_unmarshal_data stored_zstd \<lparr>items_data = [5], lens_data = [0, 0, 0, 0, 0, 0, 0, 1]\<rparr> [4] [] 2 Plain
    = Inr \<lparr>common_prefix = [], ib_data = [4, 5],
        ib_items = [\<lparr>it_start = 0, it_end = 1\<rparr>, \<lparr>it_start = 1, it_end = 2\<rparr>]\<rparr>"
    by (simp add: ib_unmarshal_data_def unmarshal_data_plain_def unmarshal_uint64_def from_be_bytes_def
        ib_is_sorted_def ib_strings_def item_bytes_def subslice_def Let_def)
  from unmarshal_block_sound [OF this] e show ?thesis by simp
qed

text \<open>One round of the loop that restores the items, with the sum of the two lengths taken in the integers.\<close>

lemma zstd_items_round:
  assumes "prefix_len \<le> item_len" "unat (item_len - prefix_len) \<le> length b" "length data < 2 ^ 63" "length cp < 2 ^ 62"
  shows "zstd_items_loop cp ((item_len, prefix_len) # rest) data its prev b =
    (let total = unat prev + unat prefix_len; suffix = unat (item_len - prefix_len) in
     if 2 ^ 64 \<le> total then (if total - 2 ^ 64 \<le> length data then Inl Panic else Inl (Err (PrefixExceedsData prefix_len)))
     else if length data < total then Inl (Err (PrefixExceedsData prefix_len))
     else
       let data' = data @ cp @ subslice (data @ cp) (unat prev) total @ take suffix b
       in zstd_items_loop cp rest data' (its @ [\<lparr>it_start = of_nat (length data), it_end = of_nat (length data')\<rparr>])
            (of_nat (length data') - item_len) (drop suffix b))"
proof -
  let ?to = "prev + prefix_len" and ?t = "unat prev + unat prefix_len"
  have l: "unat (of_nat (length data) :: u64) = length data" using assms(3) by (simp add: unat_of_nat)
  have b: "unat prev < 2 ^ 64" "unat prefix_len < 2 ^ 64" using unsigned_less [of prev] unsigned_less [of prefix_len] by simp_all
  have to: "unat ?to = (if 2 ^ 64 \<le> ?t then ?t - 2 ^ 64 else ?t)"
  proof (cases "2 ^ 64 \<le> ?t")
    case True
    then have "?t mod 2 ^ 64 = (?t - 2 ^ 64) mod 2 ^ 64" by (simp add: le_mod_geq)
    also have "\<dots> = ?t - 2 ^ 64" using b by (intro mod_less) linarith
    finally show ?thesis using True by (simp add: unat_word_ariths)
  qed (simp add: unat_word_ariths)
  have gt: "?to > of_nat (length data) \<longleftrightarrow> length data < unat ?to" by (simp add: word_less_nat_alt l)
  have wrap: "prev > ?to \<longleftrightarrow> 2 ^ 64 \<le> ?t" using b by (auto simp: word_less_nat_alt to)
  show ?thesis
    using assms(1,2) by (simp add: Let_def gt wrap to not_less del: zstd_items_loop.simps(1)) (auto simp: not_le not_less)
qed

text \<open>
  C39: the bounds check of \<open>unmarshal_data\<close> on the prefix that an item shares with the previous one adds two
  64-bit lengths before it compares them. As long as the sum does not wrap, the check is exact: a prefix that
  reaches beyond the data is reported as an error and any other is copied. When the sum wraps to a value
  within the data, the check passes and the slice of the copy panics. Stored bytes with such lengths exist
  for every header of two items with a common prefix, so that corrupt data panics where the
  function should return its error.\<close>

theorem corrupt_lens_panic:
  assumes "zstd_ok Z" "prefix_len \<le> item_len" "unat (item_len - prefix_len) \<le> length b" "length data < 2 ^ 63" "length cp < 2 ^ 62"
    "has_prefix cp first" "cp \<noteq> []" "length first < 2 ^ 32"
  shows "(let total = unat prev + unat prefix_len; r = zstd_items_loop cp [(item_len, prefix_len)] data its prev b in
      (2 ^ 64 \<le> total \<and> total - 2 ^ 64 \<le> length data \<longleftrightarrow> r = Inl Panic)
      \<and> (total < 2 ^ 64 \<and> length data < total \<longrightarrow> r = Inl (Err (PrefixExceedsData prefix_len)))
      \<and> (total \<le> length data \<longrightarrow> (\<exists>data' its'. r = Inr (data', its @ its', drop (unat (item_len - prefix_len)) b)
           \<and> data' = data @ cp @ subslice (data @ cp) (unat prev) total @ take (unat (item_len - prefix_len)) b)))
    \<and> (\<exists>sb. ib_unmarshal_data Z sb first cp 2 Zstd = Inl Panic)"
proof
  show "let total = unat prev + unat prefix_len; r = zstd_items_loop cp [(item_len, prefix_len)] data its prev b in
      (2 ^ 64 \<le> total \<and> total - 2 ^ 64 \<le> length data \<longleftrightarrow> r = Inl Panic)
      \<and> (total < 2 ^ 64 \<and> length data < total \<longrightarrow> r = Inl (Err (PrefixExceedsData prefix_len)))
      \<and> (total \<le> length data \<longrightarrow> (\<exists>data' its'. r = Inr (data', its @ its', drop (unat (item_len - prefix_len)) b)
           \<and> data' = data @ cp @ subslice (data @ cp) (unat prev) total @ take (unat (item_len - prefix_len)) b))"
    unfolding zstd_items_round [OF assms(2-5)] using assms(4) by (simp add: Let_def)
next
  define c :: u64 where "c = - of_nat (length cp)"
  define l0 :: u64 where "l0 = of_nat (length first) - of_nat (length cp)"
  let ?l = "leb128 c @ leb128 (c XOR l0)"
  have n: "length cp \<le> length first" using assms(6) by (metis has_prefix_drop le_add1 length_append)
  have l: "length ?l < 2 ^ 64" using leb128_size [of c] leb128_size [of "c XOR l0"] by simp
  obtain zl where zl: "decompress_zstd Z [] zl = Inr ?l" using compress_decompress [OF assms(1) l, of "[]" 0 "[]"] by auto
  obtain zi where zi: "decompress_zstd Z [] zi = Inr []" using compress_decompress [OF assms(1), of "[]" "[]" 0 "[]"] by auto
  have u: "unmarshal_var_uint64s (Suc 0) (leb128 c @ leb128 (c XOR l0)) = Inr ([c], leb128 (c XOR l0))"
    "unmarshal_var_uint64s (Suc 0) (leb128 (c XOR l0)) = Inr ([c XOR l0], [])"
    using unmarshal_var_two [of c] unmarshal_var_two [of "c XOR l0" "[]"] by simp_all
  have x: "(c XOR l0) XOR l0 = c" by (simp add: xor.assoc)
  have d: "of_nat (length cp) * of_nat (Suc (Suc 0)) + l0 + c = (of_nat (length first) :: u64)"
    by (simp add: c_def l0_def)
  have f: "unat (of_nat (length first) :: u64) < 2 ^ 63" using assms(8) by (simp add: unat_of_nat)
  have p: "zstd_items_loop cp [(c, c)] first [\<lparr>it_start = 0, it_end = of_nat (length first)\<rparr>] (of_nat (length cp)) [] = Inl Panic"
  proof -
    have m: "unat (of_nat (length cp) :: u64) = length cp" using assms(5) by (simp add: unat_of_nat)
    have "unat (c + of_nat (length cp)) = 0" by (simp add: c_def)
    then have "2 ^ 64 dvd unat c + length cp" by (simp add: unat_word_ariths m dvd_eq_mod_eq_0)
    then obtain q where q: "unat c + length cp = 2 ^ 64 * q" by (rule dvdE)
    have "unat c < 2 ^ 64" "0 < length cp" using unsigned_less [of c] assms(7) by simp_all
    then have "q \<noteq> 0" "q < 2" using q assms(5) by (cases q, simp, simp)+
    then have "q = 1" by simp
    then have "unat (of_nat (length cp) :: u64) + unat c = 2 ^ 64" using q m by simp
    then show ?thesis using assms(5,8) by (subst zstd_items_round) (simp_all add: Let_def)
  qed
  have "ib_unmarshal_data Z \<lparr>items_data = zi, lens_data = zl\<rparr> first cp 2 Zstd = Inl Panic"
    using f p by (simp add: ib_unmarshal_data_def zl zi u Let_def x d l0_def [symmetric])
  then show "\<exists>sb. ib_unmarshal_data Z sb first cp 2 Zstd = Inl Panic" by blast
qed

theorem corrupt_lens_panic_witness:
  "zstd_items_loop [7] [(2 ^ 64 - 1, 2 ^ 64 - 1)] [7, 8] [] 1 [] = Inl Panic
    \<and> zstd_items_loop [7] [(4, 4)] [7, 8] [] 1 [] = Inl (Err (PrefixExceedsData 4))
    \<and> (\<exists>sb. ib_unmarshal_data stored_zstd sb [7, 8] [7] 2 Zstd = Inl Panic)"
proof -
  have h: "has_prefix [7] [7, 8 :: u8]" by (simp add: has_prefix_def)
  show ?thesis
    using corrupt_lens_panic [OF stored_zstd_ok, of "2 ^ 64 - 1" "2 ^ 64 - 1" "[]" "[7, 8]" "[7]" "[7, 8]" 1 "[]"]
      corrupt_lens_panic [OF stored_zstd_ok, of 4 4 "[]" "[7, 8]" "[7]" "[7, 8]" 1 "[]"] h by (simp add: Let_def)
qed

end
