(* ===== verification/Mergeset_Headers.thy ===== *)
theory Mergeset_Headers
  imports Field_Readers Inmemory_Block
begin

text \<open>
  The index of a mergeset part: block headers (\<open>crates/esm-mergeset/src/block_header.rs\<close>) and
  metaindex rows (\<open>metaindex_row.rs\<close>). Headers are read in a fixed field order, checked for size
  limits, and must be sorted by their first item; an index block that passes is exactly what was
  written.
\<close>

section \<open>Block headers\<close>

record block_header =
  bh_common_prefix :: bytes
  bh_first_item :: bytes
  bh_marshal_type :: block_marshal_type
  bh_items_count :: u32
  bh_items_block_offset :: u64
  bh_lens_block_offset :: u64
  bh_items_block_size :: u32
  bh_lens_block_size :: u32

definition bh_default :: block_header where
  "bh_default = \<lparr>bh_common_prefix = [], bh_first_item = [], bh_marshal_type = Plain,
     bh_items_count = 0, bh_items_block_offset = 0, bh_lens_block_offset = 0,
     bh_items_block_size = 0, bh_lens_block_size = 0\<rparr>"

definition bh_reset :: "block_header \<Rightarrow> block_header" where
  "bh_reset bh = bh\<lparr>bh_common_prefix := [], bh_first_item := [], bh_marshal_type := Plain,
     bh_items_count := 0, bh_items_block_offset := 0, bh_lens_block_offset := 0,
     bh_items_block_size := 0, bh_lens_block_size := 0\<rparr>"

definition bh_marshal :: "block_header \<Rightarrow> bytes \<Rightarrow> bytes" where
  "bh_marshal bh dst =
    (let dst = marshal_bytes dst (bh_common_prefix bh);
         dst = marshal_bytes dst (bh_first_item bh);
         dst = dst @ [bmt_as_u8 (bh_marshal_type bh)];
         dst = marshal_uint32 dst (bh_items_count bh);
         dst = marshal_uint64 dst (bh_items_block_offset bh);
         dst = marshal_uint64 dst (bh_lens_block_offset bh);
         dst = marshal_uint32 dst (bh_items_block_size bh)
     in marshal_uint32 dst (bh_lens_block_size bh))"

datatype bh_field = CommonPrefix | FirstItem | MarshalTypeField | ItemsCount | ItemsBlockOffset
  | LensBlockOffset | ItemsBlockSize | LensBlockSize

datatype bh_err =
    CannotUnmarshal bh_field nat
  | UnexpectedMarshalType u8
  | ZeroItemsCount
  | TooBigItemsBlock u32
  | TooBigLensBlock u32
  | BadHeader nat bh_err
  | HeadersTail nat
  | HeadersUnsorted

definition bh_unmarshal :: "bytes \<Rightarrow> (bh_err, block_header \<times> bytes) res" where
  "bh_unmarshal src =
    rbind (take_bytes (CannotUnmarshal CommonPrefix (length src)) src) (\<lambda>(cp, src).
    rbind (take_bytes (CannotUnmarshal FirstItem (length src)) src) (\<lambda>(fi, src).
    rbind (take_u8 (CannotUnmarshal MarshalTypeField 0) src) (\<lambda>(mtb, src).
    rbind (ok_or (UnexpectedMarshalType mtb) (bmt_from_u8 mtb)) (\<lambda>mt.
    rbind (take_u32 (CannotUnmarshal ItemsCount) src) (\<lambda>(ic, src).
    rbind (take_u64 (CannotUnmarshal ItemsBlockOffset) src) (\<lambda>(ibo, src).
    rbind (take_u64 (CannotUnmarshal LensBlockOffset) src) (\<lambda>(lbo, src).
    rbind (take_u32 (CannotUnmarshal ItemsBlockSize) src) (\<lambda>(ibs, src).
    rbind (take_u32 (CannotUnmarshal LensBlockSize) src) (\<lambda>(lbs, src).
    if ic = 0 then Inl (Err ZeroItemsCount)
    else if unat ibs > 2 * MAX_INMEMORY_BLOCK_SIZE then Inl (Err (TooBigItemsBlock ibs))
    else if unat lbs > 2 * 8 * MAX_INMEMORY_BLOCK_SIZE then Inl (Err (TooBigLensBlock lbs))
    else Inr (\<lparr>bh_common_prefix = cp, bh_first_item = fi, bh_marshal_type = mt, bh_items_count = ic,
                bh_items_block_offset = ibo, bh_lens_block_offset = lbo,
                bh_items_block_size = ibs, bh_lens_block_size = lbs\<rparr>, src))))))))))"

fun bh_loop :: "nat \<Rightarrow> nat \<Rightarrow> block_header list \<Rightarrow> bytes \<Rightarrow> (bh_err, block_header list \<times> bytes) res" where
  "bh_loop 0 i dst src = Inr (dst, src)"
| "bh_loop (Suc n) i dst src =
    rbind (map_err (BadHeader i) (bh_unmarshal src)) (\<lambda>(bh, src). bh_loop n (i + 1) (dst @ [bh]) src)"

text \<open>The check over \<open>windows(2)\<close> of the new headers or rows.\<close>

fun sorted_windows :: "('a \<Rightarrow> bytes) \<Rightarrow> 'a list \<Rightarrow> bool" where
  "sorted_windows f (x # y # xs) \<longleftrightarrow> f x \<le> f y \<and> sorted_windows f (y # xs)"
| "sorted_windows f _ \<longleftrightarrow> True"

definition unmarshal_block_headers ::
  "block_header list \<Rightarrow> bytes \<Rightarrow> nat \<Rightarrow> (bh_err, block_header list) res" where
  "unmarshal_block_headers dst src block_headers_count =
    (if block_headers_count = 0 then Inl Panic
     else rbind (bh_loop block_headers_count 0 dst src) (\<lambda>(dst', src).
       if src \<noteq> [] then Inl (Err (HeadersTail (length src)))
       else if \<not> sorted_windows bh_first_item (drop (length dst) dst') then Inl (Err HeadersUnsorted)
       else Inr dst'))"

section \<open>Metaindex rows\<close>

definition MAX_INDEX_BLOCK_SIZE :: nat where "MAX_INDEX_BLOCK_SIZE = 64 * 1024"

record metaindex_row =
  mr_first_item :: bytes
  mr_block_headers_count :: u32
  mr_index_block_offset :: u64
  mr_index_block_size :: u32

definition mr_default :: metaindex_row where
  "mr_default = \<lparr>mr_first_item = [], mr_block_headers_count = 0, mr_index_block_offset = 0,
     mr_index_block_size = 0\<rparr>"

definition mr_reset :: "metaindex_row \<Rightarrow> metaindex_row" where
  "mr_reset mr = mr\<lparr>mr_first_item := [], mr_block_headers_count := 0, mr_index_block_offset := 0,
     mr_index_block_size := 0\<rparr>"

definition mr_marshal :: "metaindex_row \<Rightarrow> bytes \<Rightarrow> bytes" where
  "mr_marshal mr dst =
    (let dst = marshal_bytes dst (mr_first_item mr);
         dst = marshal_uint32 dst (mr_block_headers_count mr);
         dst = marshal_uint64 dst (mr_index_block_offset mr)
     in marshal_uint32 dst (mr_index_block_size mr))"

datatype mr_field = MrFirstItem | BlockHeadersCount | IndexBlockOffset | IndexBlockSize

datatype mr_err =
    MrCannotUnmarshal mr_field nat
  | ZeroBlockHeaders
  | TooBigIndexBlock u32
  | MetaindexZstd zstd_err
  | BadRow nat mr_err
  | NoRows
  | RowsUnsorted nat

definition mr_unmarshal :: "bytes \<Rightarrow> (mr_err, metaindex_row \<times> bytes) res" where
  "mr_unmarshal src =
    rbind (take_bytes (MrCannotUnmarshal MrFirstItem (length src)) src) (\<lambda>(fi, src).
    rbind (take_u32 (MrCannotUnmarshal BlockHeadersCount) src) (\<lambda>(bhc, src).
    rbind (take_u64 (MrCannotUnmarshal IndexBlockOffset) src) (\<lambda>(ibo, src).
    rbind (take_u32 (MrCannotUnmarshal IndexBlockSize) src) (\<lambda>(ibs, src).
    if bhc = 0 then Inl (Err ZeroBlockHeaders)
    else if unat ibs > 4 * MAX_INDEX_BLOCK_SIZE then Inl (Err (TooBigIndexBlock ibs))
    else Inr (\<lparr>mr_first_item = fi, mr_block_headers_count = bhc, mr_index_block_offset = ibo,
                mr_index_block_size = ibs\<rparr>, src)))))"

lemma mr_unmarshal_shrinks: "mr_unmarshal src = Inr (mr, t) \<Longrightarrow> length t < length src"
  by (auto simp: mr_unmarshal_def rbind_eq_Inr split: if_splits dest!: take_shrinks)

text \<open>The loop ends because every row consumes input.\<close>

function mr_loop :: "metaindex_row list \<Rightarrow> bytes \<Rightarrow> (mr_err, metaindex_row list) res" where
  "mr_loop dst tail =
    (if tail = [] then Inr dst
     else case mr_unmarshal tail of
       Inl Panic \<Rightarrow> Inl Panic
     | Inl (Err e) \<Rightarrow> Inl (Err (BadRow (length dst) e))
     | Inr (mr, tail') \<Rightarrow> mr_loop (dst @ [mr]) tail')"
  by pat_completeness auto
termination
  by (relation "measure (\<lambda>(dst, tail). length tail)") (auto dest: mr_unmarshal_shrinks)

declare mr_loop.simps [simp del]

definition unmarshal_metaindex_rows :: "zstd_lib \<Rightarrow> bytes \<Rightarrow> (mr_err, metaindex_row list) res" where
  "unmarshal_metaindex_rows Z compressed_data =
    rbind (map_err MetaindexZstd (decompress_zstd Z [] compressed_data)) (\<lambda>data.
    rbind (mr_loop [] data) (\<lambda>dst.
    if dst = [] then Inl (Err NoRows)
    else if \<not> sorted_windows mr_first_item dst then Inl (Err (RowsUnsorted (length dst)))
    else Inr dst))"

text \<open>What the readers accept.\<close>

definition bh_wf :: "block_header \<Rightarrow> bool" where
  "bh_wf bh \<longleftrightarrow> length (bh_common_prefix bh) < 2 ^ 64 \<and> length (bh_first_item bh) < 2 ^ 64
     \<and> bh_items_count bh \<noteq> 0 \<and> unat (bh_items_block_size bh) \<le> 2 * MAX_INMEMORY_BLOCK_SIZE
     \<and> unat (bh_lens_block_size bh) \<le> 2 * 8 * MAX_INMEMORY_BLOCK_SIZE"

definition mr_wf :: "metaindex_row \<Rightarrow> bool" where
  "mr_wf mr \<longleftrightarrow> length (mr_first_item mr) < 2 ^ 64 \<and> mr_block_headers_count mr \<noteq> 0
     \<and> unat (mr_index_block_size mr) \<le> 4 * MAX_INDEX_BLOCK_SIZE"

section \<open>Prefix codecs\<close>

lemma bmt_roundtrip [simp]: "bmt_from_u8 (bmt_as_u8 mt) = Some mt"
  by (cases mt) (simp_all add: bmt_from_u8_def)

lemma bh_marshal_append: "bh_marshal bh dst = dst @ bh_marshal bh []"
  by (simp add: bh_marshal_def Let_def marshal_append)

lemma mr_marshal_append: "mr_marshal mr dst = dst @ mr_marshal mr []"
  by (simp add: mr_marshal_def Let_def marshal_append)

interpretation bh_codec: prefix_codec "\<lambda>bh. bh_marshal bh []" bh_unmarshal bh_wf
proof
  fix bh :: block_header and t
  assume "bh_wf bh"
  then show "bh_unmarshal (bh_marshal bh [] @ t) = Inr (bh, t)"
    by (cases bh) (simp add: bh_wf_def bh_marshal_def bh_unmarshal_def reader_simps)
qed

interpretation mr_codec: prefix_codec "\<lambda>mr. mr_marshal mr []" mr_unmarshal mr_wf
proof
  fix mr :: metaindex_row and t
  assume "mr_wf mr"
  then show "mr_unmarshal (mr_marshal mr [] @ t) = Inr (mr, t)"
    by (cases mr) (simp add: mr_wf_def mr_marshal_def mr_unmarshal_def reader_simps)
qed

section \<open>Sequences\<close>

lemma sorted_windows_iff: "sorted_windows f xs \<longleftrightarrow> sorted (map f xs)"
proof (induction f xs rule: sorted_windows.induct)
  case (1 f x y xs)
  have "sorted (f x # f y # map f xs) \<longleftrightarrow> f x \<le> f y \<and> sorted (f y # map f xs)" by (rule sorted2)
  with 1 show ?case by (simp only: sorted_windows.simps list.map)
qed simp_all

lemma bh_loop_marshal:
  "list_all bh_wf bhs \<Longrightarrow>
    bh_loop (length bhs) i dst (concat (map (\<lambda>bh. bh_marshal bh []) bhs) @ t) = Inr (dst @ bhs, t)"
  by (induction bhs arbitrary: i dst) (simp_all add: bh_codec.dec_enc)

lemma bh_unmarshal_wf: "bh_unmarshal src = Inr (bh, t) \<Longrightarrow> bh_items_count bh \<noteq> 0
    \<and> unat (bh_items_block_size bh) \<le> 2 * MAX_INMEMORY_BLOCK_SIZE
    \<and> unat (bh_lens_block_size bh) \<le> 2 * 8 * MAX_INMEMORY_BLOCK_SIZE"
  by (auto simp: bh_unmarshal_def rbind_eq_Inr split: if_splits)

lemma bh_loop_ok:
  "bh_loop n i dst src = Inr (dst', t) \<Longrightarrow> \<exists>bhs. dst' = dst @ bhs \<and> length bhs = n
    \<and> (\<forall>bh \<in> set bhs. \<exists>s t. bh_unmarshal s = Inr (bh, t))"
proof (induction n i dst src rule: bh_loop.induct)
  case (2 n i dst src)
  then obtain bh s where "bh_unmarshal src = Inr (bh, s)" "bh_loop n (i + 1) (dst @ [bh]) s = Inr (dst', t)"
    by (auto simp: rbind_eq_Inr)
  with 2(1) [of bh s] show ?case by fastforce
qed simp

lemma bh_marshal_nonempty: "bh_marshal bh [] \<noteq> []"
  by (simp add: bh_marshal_def Let_def marshal_append)

lemma mr_loop_marshal:
  "list_all mr_wf mrs \<Longrightarrow> mr_loop dst (concat (map (\<lambda>mr. mr_marshal mr []) mrs)) = Inr (dst @ mrs)"
proof (induction mrs arbitrary: dst)
  case (Cons mr mrs)
  have "mr_marshal mr [] \<noteq> []" by (simp add: mr_marshal_def Let_def marshal_append to_be_bytes_def)
  with Cons show ?case by (simp add: mr_loop.simps [of _ "_ @ _"] mr_codec.dec_enc)
qed (simp add: mr_loop.simps)

lemma unmarshal_headers_marshal:
  assumes "list_all bh_wf bhs" "bhs \<noteq> []" "sorted (map bh_first_item bhs)"
  shows "unmarshal_block_headers dst (concat (map (\<lambda>bh. bh_marshal bh []) bhs)) (length bhs) = Inr (dst @ bhs)"
  using bh_loop_marshal [OF assms(1), of 0 dst "[]"] assms(2,3)
  by (simp add: unmarshal_block_headers_def sorted_windows_iff)

lemma unmarshal_rows_marshal:
  assumes "list_all mr_wf mrs" "mrs \<noteq> []" "sorted (map mr_first_item mrs)"
    "decompress_zstd Z [] c = Inr (concat (map (\<lambda>mr. mr_marshal mr []) mrs))"
  shows "unmarshal_metaindex_rows Z c = Inr mrs"
  using mr_loop_marshal [OF assms(1), of "[]"] assms(2-)
  by (simp add: unmarshal_metaindex_rows_def sorted_windows_iff)

section \<open>Properties\<close>

text \<open>
  An index block of well-formed headers sorted by first item is read back as those headers,
  after the ones already in the destination.\<close>

theorem index_block_roundtrip:
  assumes "list_all bh_wf bhs" "bhs \<noteq> []" "sorted (map bh_first_item bhs)"
  shows "unmarshal_block_headers dst (foldl (\<lambda>buf bh. bh_marshal bh buf) [] bhs) (length bhs) = Inr (dst @ bhs)"
proof -
  have "foldl (\<lambda>buf bh. bh_marshal bh buf) buf bhs = buf @ concat (map (\<lambda>bh. bh_marshal bh []) bhs)" for buf
  proof (induction bhs arbitrary: buf)
    case (Cons bh bhs)
    then show ?case using bh_marshal_append [of bh buf] by simp
  qed simp
  then show ?thesis using unmarshal_headers_marshal [OF assms] by simp
qed

theorem index_block_roundtrip_witness:
  "unmarshal_block_headers [] (bh_marshal (bh_default\<lparr>bh_items_count := 3, bh_first_item := [7]\<rparr>) []) 1
    = Inr [bh_default\<lparr>bh_items_count := 3, bh_first_item := [7]\<rparr>]"
  using index_block_roundtrip [of "[bh_default\<lparr>bh_items_count := 3, bh_first_item := [7]\<rparr>]" "[]"]
  by (simp add: bh_wf_def bh_default_def)

text \<open>
  C33: Whatever the index block holds, headers are accepted only if they are exactly as many as the
  metaindex row says, sorted by first item, non-empty, and within the limits on the sizes of the
  blocks they point to.\<close>

theorem unmarshal_block_headers_sound:
  assumes "unmarshal_block_headers dst src n = Inr out"
  shows "\<exists>bhs. out = dst @ bhs \<and> length bhs = n \<and> sorted (map bh_first_item bhs)
    \<and> list_all (\<lambda>bh. bh_items_count bh \<noteq> 0
        \<and> unat (bh_items_block_size bh) \<le> 2 * MAX_INMEMORY_BLOCK_SIZE
        \<and> unat (bh_lens_block_size bh) \<le> 2 * 8 * MAX_INMEMORY_BLOCK_SIZE) bhs"
proof -
  obtain t where l: "bh_loop n 0 dst src = Inr (out, t)" and s: "sorted_windows bh_first_item (drop (length dst) out)"
    using assms by (auto simp: unmarshal_block_headers_def rbind_eq_Inr split: if_splits)
  obtain bhs where "out = dst @ bhs" "length bhs = n" "\<forall>bh \<in> set bhs. \<exists>s t. bh_unmarshal s = Inr (bh, t)"
    using bh_loop_ok [OF l] by blast
  with s bh_unmarshal_wf show ?thesis by (auto simp: sorted_windows_iff list_all_iff)
qed

theorem unmarshal_block_headers_sound_witness:
  "\<exists>bhs. unmarshal_block_headers [] (bh_marshal (bh_default\<lparr>bh_first_item := [7], bh_items_count := 2\<rparr>) []) 1
      = Inr bhs \<and> length bhs = 1 \<and> sorted (map bh_first_item bhs)"
proof -
  let ?h = "bh_default\<lparr>bh_first_item := [7], bh_items_count := 2\<rparr>"
  have u: "unmarshal_block_headers [] (bh_marshal ?h []) 1 = Inr [?h]"
    using unmarshal_headers_marshal [of "[?h]" "[]"]
    by (simp add: bh_wf_def bh_default_def)
  from unmarshal_block_headers_sound [OF u] u show ?thesis by auto
qed

text \<open>
  The compressed metaindex of well-formed rows sorted by first item is read back as those rows.\<close>

theorem metaindex_roundtrip:
  assumes "zstd_ok Z" "list_all mr_wf mrs" "mrs \<noteq> []" "sorted (map mr_first_item mrs)"
    "length (concat (map (\<lambda>mr. mr_marshal mr []) mrs)) < 2 ^ 64"
  shows "\<exists>c. compress_zstd_level Z [] (concat (map (\<lambda>mr. mr_marshal mr []) mrs)) level = Some c
    \<and> unmarshal_metaindex_rows Z c = Inr mrs"
  using compress_decompress [OF assms(1,5), of "[]" level "[]"] unmarshal_rows_marshal [OF assms(2-4)]
  by (metis append_Nil)

theorem metaindex_roundtrip_witness:
  "\<exists>c. compress_zstd_level stored_zstd [] (mr_marshal (mr_default\<lparr>mr_block_headers_count := 1\<rparr>) []) 1 = Some c
    \<and> unmarshal_metaindex_rows stored_zstd c = Inr [mr_default\<lparr>mr_block_headers_count := 1\<rparr>]"
  using metaindex_roundtrip [OF stored_zstd_ok, of "[mr_default\<lparr>mr_block_headers_count := 1\<rparr>]" 1]
  by (simp add: mr_wf_def mr_default_def mr_marshal_def marshal_append bytes_enc_def leb128_one_byte)

end
