(* ===== verification/Block_Stream.thy ===== *)
theory Block_Stream
  imports Mergeset_Headers
begin

text \<open>
  Writing the four streams of a mergeset part and reading its blocks back
  (\<open>crates/esm-mergeset/src/block_stream_writer.rs\<close>, \<open>block_stream_reader.rs\<close> and the construction
  of a part in \<open>inmemory_part.rs\<close>).

  A stream is the bytes written so far, or the bytes to read and a position; a file behaves like
  the memory buffer with its contents, so that the file variants of the streams are not kept
  apart. Scratch buffers that are cleared before each use (\<open>sb\<close>, the packed and unpacked buffers of
  the reader, the packed buffers of the writer) are local values. Everything that panics in the
  code, a read past the end or a failed assertion, is \<open>None\<close> here.
\<close>

section \<open>Part headers\<close>

record part_header =
  ph_items_count :: u64
  ph_blocks_count :: u64
  ph_first_item :: bytes
  ph_last_item :: bytes

definition ph_default :: part_header where
  "ph_default = \<lparr>ph_items_count = 0, ph_blocks_count = 0, ph_first_item = [], ph_last_item = []\<rparr>"

definition ph_reset :: "part_header \<Rightarrow> part_header" where
  "ph_reset ph = ph\<lparr>ph_items_count := 0, ph_blocks_count := 0, ph_first_item := [], ph_last_item := []\<rparr>"

definition ph_copy_from :: "part_header \<Rightarrow> part_header \<Rightarrow> part_header" where
  "ph_copy_from ph src = ph\<lparr>ph_items_count := ph_items_count src, ph_blocks_count := ph_blocks_count src,
     ph_first_item := ph_first_item src, ph_last_item := ph_last_item src\<rparr>"

section \<open>Streams\<close>

datatype stream_writer = WMem bytes | WClosed

fun sw_must_write :: "stream_writer \<Rightarrow> bytes \<Rightarrow> stream_writer option" where
  "sw_must_write (WMem buf) data = Some (WMem (buf @ data))"
| "sw_must_write WClosed data = None"

fun sw_must_close :: "stream_writer \<Rightarrow> (stream_writer \<times> bytes) option" where
  "sw_must_close (WMem buf) = Some (WClosed, buf)"
| "sw_must_close WClosed = None"

datatype stream_reader = RMem bytes nat | RClosed

fun sr_must_read :: "stream_reader \<Rightarrow> nat \<Rightarrow> (stream_reader \<times> bytes) option" where
  "sr_must_read (RMem buf pos) n =
    (if pos + n \<le> length buf then Some (RMem buf (pos + n), subslice buf pos (pos + n)) else None)"
| "sr_must_read RClosed n = None"

section \<open>The writer\<close>

record block_stream_writer =
  bsw_compress_level :: int
  metaindex_writer :: stream_writer
  index_writer :: stream_writer
  items_writer :: stream_writer
  lens_writer :: stream_writer
  bsw_bh :: block_header
  bsw_mr :: metaindex_row
  unpacked_index_block_buf :: bytes
  unpacked_metaindex_buf :: bytes
  items_block_offset :: u64
  lens_block_offset :: u64
  index_block_offset :: u64
  mr_first_item_caught :: bool

definition bsw_new_inmemory_part :: "int \<Rightarrow> block_stream_writer" where
  "bsw_new_inmemory_part level =
    \<lparr>bsw_compress_level = level, metaindex_writer = WMem [], index_writer = WMem [],
     items_writer = WMem [], lens_writer = WMem [], bsw_bh = bh_default, bsw_mr = mr_default,
     unpacked_index_block_buf = [], unpacked_metaindex_buf = [], items_block_offset = 0,
     lens_block_offset = 0, index_block_offset = 0, mr_first_item_caught = False\<rparr>"

definition flush_index_data :: "zstd_lib \<Rightarrow> block_stream_writer \<Rightarrow> block_stream_writer option" where
  "flush_index_data Z w =
    (if unpacked_index_block_buf w = [] then Some w
     else
       case compress_zstd_level Z [] (unpacked_index_block_buf w) (bsw_compress_level w) of
         None \<Rightarrow> None
       | Some packed \<Rightarrow>
       (case sw_must_write (index_writer w) packed of
          None \<Rightarrow> None
        | Some iw \<Rightarrow>
          let size = of_nat (length packed);
              mr = (bsw_mr w)\<lparr>mr_index_block_size := size, mr_index_block_offset := index_block_offset w\<rparr>
          in Some (w\<lparr>index_writer := iw,
                     index_block_offset := index_block_offset w + ucast size,
                     unpacked_index_block_buf := [],
                     unpacked_metaindex_buf := mr_marshal mr (unpacked_metaindex_buf w),
                     bsw_mr := mr_reset mr,
                     mr_first_item_caught := False\<rparr>)))"

text \<open>The part of \<open>write_block\<close> that stores a finished header in the index block.\<close>

definition write_header :: "zstd_lib \<Rightarrow> block_stream_writer \<Rightarrow> block_header \<Rightarrow> block_stream_writer option" where
  "write_header Z w bh =
    (let buf = bh_marshal bh (unpacked_index_block_buf w) in
     case (if length buf > MAX_INDEX_BLOCK_SIZE
           then map_option (\<lambda>w. w\<lparr>unpacked_index_block_buf := bh_marshal bh (unpacked_index_block_buf w)\<rparr>)
                  (flush_index_data Z w)
           else Some (w\<lparr>unpacked_index_block_buf := buf\<rparr>)) of
       None \<Rightarrow> None
     | Some w \<Rightarrow>
       let w = (if \<not> mr_first_item_caught w
                then w\<lparr>bsw_mr := (bsw_mr w)\<lparr>mr_first_item := bh_first_item bh\<rparr>, mr_first_item_caught := True\<rparr>
                else w)
       in Some (w\<lparr>bsw_bh := bh_reset bh,
                  bsw_mr := (bsw_mr w)\<lparr>mr_block_headers_count := mr_block_headers_count (bsw_mr w) + 1\<rparr>\<rparr>))"

definition write_block ::
  "zstd_lib \<Rightarrow> block_stream_writer \<Rightarrow> inmemory_block \<Rightarrow> (block_stream_writer \<times> inmemory_block) option" where
  "write_block Z w ib =
    (case marshal_sorted_data Z ib [] [] (bsw_compress_level w) of
       (ib, None) \<Rightarrow> None
     | (ib, Some (sb, first_item, cp, n, mt)) \<Rightarrow>
       (case (sw_must_write (items_writer w) (items_data sb), sw_must_write (lens_writer w) (lens_data sb)) of
          (Some itw, Some lw) \<Rightarrow>
            let isize = of_nat (length (items_data sb)); lsize = of_nat (length (lens_data sb));
                bh = (bsw_bh w)\<lparr>bh_first_item := first_item, bh_common_prefix := cp, bh_items_count := n,
                       bh_marshal_type := mt, bh_items_block_size := isize,
                       bh_items_block_offset := items_block_offset w,
                       bh_lens_block_size := lsize, bh_lens_block_offset := lens_block_offset w\<rparr>;
                w = w\<lparr>items_writer := itw, lens_writer := lw, bsw_bh := bh,
                      items_block_offset := items_block_offset w + ucast isize,
                      lens_block_offset := lens_block_offset w + ucast lsize\<rparr>
            in map_option (\<lambda>w. (w, ib)) (write_header Z w bh)
        | _ \<Rightarrow> None))"

text \<open>The four buffers in the order metaindex, index, items, lens.\<close>

definition bsw_must_close ::
  "zstd_lib \<Rightarrow> block_stream_writer \<Rightarrow> (block_stream_writer \<times> bytes \<times> bytes \<times> bytes \<times> bytes) option" where
  "bsw_must_close Z w =
    (case flush_index_data Z w of
       None \<Rightarrow> None
     | Some w \<Rightarrow>
     (case compress_zstd_level Z [] (unpacked_metaindex_buf w) (bsw_compress_level w) of
        None \<Rightarrow> None
      | Some packed \<Rightarrow>
      (case sw_must_write (metaindex_writer w) packed of
         None \<Rightarrow> None
       | Some mw \<Rightarrow>
       (case (sw_must_close mw, sw_must_close (index_writer w), sw_must_close (items_writer w),
              sw_must_close (lens_writer w)) of
          (Some (mw, m), Some (xw, idx), Some (iw, its), Some (lw, l)) \<Rightarrow>
            Some (w\<lparr>metaindex_writer := mw, index_writer := xw, items_writer := iw, lens_writer := lw\<rparr>,
                  m, idx, its, l)
        | _ \<Rightarrow> None))))"

section \<open>Parts in memory\<close>

record inmemory_part =
  mp_ph :: part_header
  mp_metaindex_data :: bytes
  mp_index_data :: bytes
  mp_items_data :: bytes
  mp_lens_data :: bytes

definition mp_from_buffers :: "part_header \<Rightarrow> bytes \<times> bytes \<times> bytes \<times> bytes \<Rightarrow> inmemory_part" where
  "mp_from_buffers ph bufs =
    (case bufs of (m, idx, its, l) \<Rightarrow>
      \<lparr>mp_ph = ph, mp_metaindex_data = m, mp_index_data = idx, mp_items_data = its, mp_lens_data = l\<rparr>)"

definition mp_size :: "inmemory_part \<Rightarrow> u64" where
  "mp_size mp = of_nat (length (mp_metaindex_data mp) + length (mp_index_data mp)
     + length (mp_items_data mp) + length (mp_lens_data mp))"

text \<open>\<open>InmemoryPart::init\<close>, a part with one block; the block is left sorted.\<close>

definition mp_init :: "zstd_lib \<Rightarrow> inmemory_block \<Rightarrow> (inmemory_part \<times> inmemory_block) option" where
  "mp_init Z ib =
    (case marshal_unsorted_data Z ib [] [] (-5) of
       (ib, None) \<Rightarrow> None
     | (ib, Some (sb, first_item, cp, n, mt)) \<Rightarrow>
       let ph = \<lparr>ph_items_count = of_nat (length (ib_items ib)), ph_blocks_count = 1,
                 ph_first_item = item_bytes (ib_items ib ! 0) (ib_data ib),
                 ph_last_item = item_bytes (ib_items ib ! (length (ib_items ib) - 1)) (ib_data ib)\<rparr>;
           bh = \<lparr>bh_common_prefix = cp, bh_first_item = first_item, bh_marshal_type = mt,
                 bh_items_count = n, bh_items_block_offset = 0, bh_lens_block_offset = 0,
                 bh_items_block_size = of_nat (length (items_data sb)),
                 bh_lens_block_size = of_nat (length (lens_data sb))\<rparr>;
           bh_buf = bh_marshal bh []
       in if \<not> length bh_buf \<le> 3 * MAX_INDEX_BLOCK_SIZE then None
       else
         case compress_zstd_level Z [] bh_buf (-5) of
           None \<Rightarrow> None
         | Some idx \<Rightarrow>
           let mr = \<lparr>mr_first_item = first_item, mr_block_headers_count = 1, mr_index_block_offset = 0,
                     mr_index_block_size = of_nat (length idx)\<rparr>
           in case compress_zstd_level Z [] (mr_marshal mr []) (-5) of
                None \<Rightarrow> None
              | Some m \<Rightarrow> Some (\<lparr>mp_ph = ph, mp_metaindex_data = m, mp_index_data = idx,
                                 mp_items_data = items_data sb, mp_lens_data = lens_data sb\<rparr>, ib))"

section \<open>The reader\<close>

datatype bsr_detail =
    LastItemMismatch
  | IndexZstd zstd_err
  | IndexHeaders nat bh_err
  | BlockData ib_err
  | TooManyBlocks u64
  | TooManyItems u64
  | FirstItemMismatch

datatype bsr_err = Eof | Other bsr_detail

record block_stream_reader =
  bsr_block :: inmemory_block
  is_inmemory_block :: bool
  curr_item_idx :: nat
  bsr_ph :: part_header
  bsr_mrs :: "metaindex_row list"
  mr_idx :: nat
  bsr_bhs :: "block_header list"
  bh_idx :: nat
  index_reader :: stream_reader
  items_reader :: stream_reader
  lens_reader :: stream_reader
  items_read :: u64
  blocks_read :: u64
  first_item_checked :: bool
  bsr_error :: "bsr_err option"

definition bsr_new_empty :: block_stream_reader where
  "bsr_new_empty =
    \<lparr>bsr_block = ib_default, is_inmemory_block = False, curr_item_idx = 0, bsr_ph = ph_default,
     bsr_mrs = [], mr_idx = 0, bsr_bhs = [], bh_idx = 0, index_reader = RClosed,
     items_reader = RClosed, lens_reader = RClosed, items_read = 0, blocks_read = 0,
     first_item_checked = False, bsr_error = None\<rparr>"

definition bsr_from_inmemory_block :: "inmemory_block \<Rightarrow> block_stream_reader" where
  "bsr_from_inmemory_block ib =
    bsr_new_empty\<lparr>bsr_block := ib_sort_items (ib_copy_from ib_default ib), is_inmemory_block := True\<rparr>"

definition bsr_from_inmemory_part :: "zstd_lib \<Rightarrow> inmemory_part \<Rightarrow> block_stream_reader option" where
  "bsr_from_inmemory_part Z mp =
    (case unmarshal_metaindex_rows Z (mp_metaindex_data mp) of
       Inl _ \<Rightarrow> None
     | Inr mrs \<Rightarrow>
       let r = bsr_new_empty\<lparr>bsr_mrs := mrs, bsr_ph := ph_copy_from ph_default (mp_ph mp),
                 index_reader := RMem (mp_index_data mp) 0, items_reader := RMem (mp_items_data mp) 0,
                 lens_reader := RMem (mp_lens_data mp) 0\<rparr>
       in if \<not> ph_items_count (bsr_ph r) > 0 \<or> \<not> ph_blocks_count (bsr_ph r) > 0 then None else Some r)"

definition bsr_must_close :: "block_stream_reader \<Rightarrow> block_stream_reader" where
  "bsr_must_close r =
    (if is_inmemory_block r then r
     else r\<lparr>index_reader := RClosed, items_reader := RClosed, lens_reader := RClosed\<rparr>)"

definition curr_item :: "block_stream_reader \<Rightarrow> bytes option" where
  "curr_item r =
    (if curr_item_idx r < length (ib_items (bsr_block r))
     then Some (item_bytes (ib_items (bsr_block r) ! curr_item_idx r) (ib_data (bsr_block r))) else None)"

definition read_next_bhs ::
  "zstd_lib \<Rightarrow> block_stream_reader \<Rightarrow> (block_stream_reader \<times> bsr_err option) option" where
  "read_next_bhs Z r =
    (if mr_idx r \<ge> length (bsr_mrs r) then Some (r, Some Eof)
     else
       let mr = bsr_mrs r ! mr_idx r; r = r\<lparr>mr_idx := mr_idx r + 1\<rparr>
       in case sr_must_read (index_reader r) (unat (mr_index_block_size mr)) of
            None \<Rightarrow> None
          | Some (xr, packed) \<Rightarrow>
            let r = r\<lparr>index_reader := xr\<rparr>
            in case decompress_zstd Z [] packed of
                 Inl Panic \<Rightarrow> None
               | Inl (Err e) \<Rightarrow> Some (r, Some (Other (IndexZstd e)))
               | Inr unpacked \<Rightarrow>
                 (case unmarshal_block_headers [] unpacked (unat (mr_block_headers_count mr)) of
                    Inl Panic \<Rightarrow> None
                  | Inl (Err e) \<Rightarrow> Some (r, Some (Other (IndexHeaders (mr_idx r) e)))
                  | Inr bhs \<Rightarrow> Some (r\<lparr>bsr_bhs := bhs, bh_idx := 0\<rparr>, None)))"

text \<open>\<open>next\<close> once the current header is known: read the two blocks, decode and cross-check.\<close>

definition read_block :: "zstd_lib \<Rightarrow> block_stream_reader \<Rightarrow> (block_stream_reader \<times> bool) option" where
  "read_block Z r =
    (if \<not> bh_idx r < length (bsr_bhs r) then None
     else
       let bh = bsr_bhs r ! bh_idx r; r = r\<lparr>bh_idx := bh_idx r + 1\<rparr>
       in case (sr_must_read (items_reader r) (unat (bh_items_block_size bh)),
                sr_must_read (lens_reader r) (unat (bh_lens_block_size bh))) of
            (Some (ir, itd), Some (lr, ld)) \<Rightarrow>
              let r = r\<lparr>items_reader := ir, lens_reader := lr\<rparr>
              in (case ib_unmarshal_data Z \<lparr>items_data = itd, lens_data = ld\<rparr> (bh_first_item bh)
                         (bh_common_prefix bh) (bh_items_count bh) (bh_marshal_type bh) of
                    Inl Panic \<Rightarrow> None
                  | Inl (Err e) \<Rightarrow> Some (r\<lparr>bsr_error := Some (Other (BlockData e))\<rparr>, False)
                  | Inr blk \<Rightarrow>
                    let r = r\<lparr>bsr_block := blk, blocks_read := blocks_read r + 1\<rparr>
                    in if blocks_read r > ph_blocks_count (bsr_ph r)
                       then Some (r\<lparr>bsr_error := Some (Other (TooManyBlocks (blocks_read r)))\<rparr>, False)
                       else
                         let r = r\<lparr>curr_item_idx := 0,
                                   items_read := items_read r + of_nat (length (ib_items blk))\<rparr>
                         in if items_read r > ph_items_count (bsr_ph r)
                            then Some (r\<lparr>bsr_error := Some (Other (TooManyItems (items_read r)))\<rparr>, False)
                            else if \<not> first_item_checked r
                            then
                              let r = r\<lparr>first_item_checked := True\<rparr>
                              in if ph_first_item (bsr_ph r) \<noteq> item_bytes (ib_items blk ! 0) (ib_data blk)
                                 then Some (r\<lparr>bsr_error := Some (Other FirstItemMismatch)\<rparr>, False)
                                 else Some (r, True)
                            else Some (r, True))
          | _ \<Rightarrow> None)"

definition bsr_next :: "zstd_lib \<Rightarrow> block_stream_reader \<Rightarrow> (block_stream_reader \<times> bool) option" where
  "bsr_next Z r =
    (if bsr_error r \<noteq> None then Some (r, False)
     else if is_inmemory_block r then Some (r\<lparr>bsr_error := Some Eof\<rparr>, True)
     else if bh_idx r \<ge> length (bsr_bhs r) then
       (case read_next_bhs Z r of
          None \<Rightarrow> None
        | Some (r, None) \<Rightarrow> read_block Z r
        | Some (r, Some Eof) \<Rightarrow>
            let b = bsr_block r in
            if ib_items b = [] then None
            else Some (r\<lparr>bsr_error := Some
                   (if ph_last_item (bsr_ph r) \<noteq> item_bytes (ib_items b ! (length (ib_items b) - 1)) (ib_data b)
                    then Other LastItemMismatch else Eof)\<rparr>, False)
        | Some (r, Some (Other d)) \<Rightarrow> Some (r\<lparr>bsr_error := Some (Other d)\<rparr>, False))
     else read_block Z r)"

text \<open>\<open>error\<close>: the last error, except the end of the part.\<close>

definition bsr_err_msg :: "block_stream_reader \<Rightarrow> bsr_detail option" where
  "bsr_err_msg r = (case bsr_error r of Some (Other d) \<Rightarrow> Some d | _ \<Rightarrow> None)"

end
