(* ===== verification/Block_Cache.thy ===== *)
theory Block_Cache
  imports Esm_Prelude
begin

text \<open>
  The cache of decoded blocks (\<open>crates/esm-mergeset/src/blockcache.rs\<close>): a map from the id of a part and an
  offset in it to a block, which takes in a block only after a number of misses of its key.

  The map and the counters of misses are those of the shard of a key; a key always has the same shard, so
  the shards are joined. When entries are dropped, for their age or for the size of the cache, is not
  decided here: \<open>bc_evict\<close> drops one entry and \<open>bc_clean_per_key_misses\<close> forgets the counters, and both may
  happen at any time. The slots, the heap of access times and the sizes only serve that decision.
\<close>

section \<open>Model\<close>

datatype Key = Key (key_part_id: u64) (key_offset: u64)

record 'v block_cache =
  bc_m :: "Key \<rightharpoonup> 'v"
  bc_per_key_misses :: "Key \<rightharpoonup> u32"

definition MISSES_BEFORE_CACHING :: u32 where "MISSES_BEFORE_CACHING = 2"

definition bc_new :: "'v block_cache" where
  "bc_new = \<lparr>bc_m = Map.empty, bc_per_key_misses = Map.empty\<rparr>"

definition bc_misses :: "'v block_cache \<Rightarrow> Key \<Rightarrow> u32" where
  "bc_misses c k = (case bc_per_key_misses c k of None \<Rightarrow> 0 | Some n \<Rightarrow> n)"

definition bc_get_block :: "'v block_cache \<Rightarrow> Key \<Rightarrow> 'v block_cache \<times> 'v option" where
  "bc_get_block c k =
    (case bc_m c k of
       Some b \<Rightarrow> (c, Some b)
     | None \<Rightarrow> (c\<lparr>bc_per_key_misses := (bc_per_key_misses c)(k \<mapsto> bc_misses c k + 1)\<rparr>, None))"

definition bc_try_put_block :: "u32 \<Rightarrow> 'v block_cache \<Rightarrow> Key \<Rightarrow> 'v \<Rightarrow> 'v block_cache \<times> bool" where
  "bc_try_put_block misses_before_caching c k b =
    (let misses = bc_misses c k in
     if misses > 0 \<and> misses \<le> misses_before_caching then (c, False)
     else
       let c = c\<lparr>bc_per_key_misses := (bc_per_key_misses c)(k \<mapsto> 0)\<rparr> in
       if bc_m c k \<noteq> None then (c, True) else (c\<lparr>bc_m := (bc_m c)(k \<mapsto> b)\<rparr>, True))"

definition bc_evict :: "'v block_cache \<Rightarrow> Key \<Rightarrow> 'v block_cache" where
  "bc_evict c k = c\<lparr>bc_m := (bc_m c)(k := None)\<rparr>"

definition bc_clean_per_key_misses :: "'v block_cache \<Rightarrow> 'v block_cache" where
  "bc_clean_per_key_misses c = c\<lparr>bc_per_key_misses := Map.empty\<rparr>"

definition bc_remove_blocks_for_part :: "'v block_cache \<Rightarrow> u64 \<Rightarrow> 'v block_cache" where
  "bc_remove_blocks_for_part c pid = c\<lparr>bc_m := (\<lambda>k. if key_part_id k = pid then None else bc_m c k)\<rparr>"

text \<open>What a reader does with a key: it takes the cached block, or reads the block itself and offers it to the cache.\<close>

fun bc_read :: "u32 \<Rightarrow> 'v block_cache \<Rightarrow> Key \<Rightarrow> 'v \<Rightarrow> 'v block_cache \<times> 'v" where
  "bc_read n c k v =
    (case bc_get_block c k of (c, Some b) \<Rightarrow> (c, b) | (c, None) \<Rightarrow> (fst (bc_try_put_block n c k v), v))"

fun bc_reads :: "u32 \<Rightarrow> 'v block_cache \<Rightarrow> Key \<Rightarrow> 'v list \<Rightarrow> 'v block_cache \<times> 'v list" where
  "bc_reads n c k [] = (c, [])"
| "bc_reads n c k (v # vs) = (let (c, b) = bc_read n c k v; (c, bs) = bc_reads n c k vs in (c, b # bs))"

section \<open>What a cache may hold\<close>

definition only_values :: "('k \<Rightarrow> 'v \<Rightarrow> bool) \<Rightarrow> ('k \<rightharpoonup> 'v) \<Rightarrow> bool" where
  "only_values V m \<longleftrightarrow> (\<forall>k v. m k = Some v \<longrightarrow> V k v)"

text \<open>
  What readers rely on of a cache: a lookup returns what the cache holds, and nothing enters it but what
  was put under the same key. So a cache that is fed with valid blocks returns valid blocks.
\<close>

locale read_cache =
  fixes get :: "'c \<Rightarrow> 'k \<Rightarrow> 'c \<times> 'v option"
    and put :: "'c \<Rightarrow> 'k \<Rightarrow> 'v \<Rightarrow> 'c"
    and content :: "'c \<Rightarrow> 'k \<rightharpoonup> 'v"
  assumes get_content: "content (fst (get c k)) = content c" "snd (get c k) = content c k"
    and put_content: "content (put c k v) = content c \<or> content (put c k v) = (content c)(k \<mapsto> v)"
begin

lemma get_valid:
  assumes "only_values V (content c)" "get c k = (c', r)"
  shows "only_values V (content c')" "r = Some v \<Longrightarrow> V k v"
  using assms get_content [of c k] by (auto simp: only_values_def)

lemma put_valid: "only_values V (content c) \<Longrightarrow> V k v \<Longrightarrow> only_values V (content (put c k v))"
  using put_content [of c k v] by (auto simp: only_values_def split: if_splits)

end

interpretation block_cache: read_cache bc_get_block "\<lambda>c k v. fst (bc_try_put_block n c k v)" bc_m
  by unfold_locales (auto simp: bc_get_block_def bc_try_put_block_def Let_def split: option.split)

lemma removal_valid:
  assumes "only_values V (bc_m c)"
  shows "only_values V (bc_m (bc_evict c k))" "only_values V (bc_m (bc_clean_per_key_misses c))"
    "only_values V (bc_m (bc_remove_blocks_for_part c p))"
  using assms by (auto simp: only_values_def bc_evict_def bc_clean_per_key_misses_def bc_remove_blocks_for_part_def)

section \<open>When a block is taken in\<close>

lemma bc_read_cached: "bc_m c k = Some b \<Longrightarrow> bc_reads n c k vs = (c, replicate (length vs) b)"
  by (induction vs) (simp_all add: bc_get_block_def)

lemma succ_counts: "(m :: u32) \<noteq> - 1 \<Longrightarrow> unat (m + 1) = Suc (unat m)"
  using unatSuc [of m] by (simp add: add.commute eq_neg_iff_add_eq_0)

lemma bc_read_missed:
  assumes "bc_m c k = None" "unat (bc_misses c k) < unat n"
  shows "\<exists>c'. bc_read n c k v = (c', v) \<and> bc_m c' k = None \<and> unat (bc_misses c' k) = Suc (unat (bc_misses c k))"
proof -
  have "bc_misses c k \<noteq> - 1" using assms(2) word_order.extremum [of n] by (auto simp flip: word_less_nat_alt)
  note u = succ_counts [OF this]
  then have "0 < bc_misses c k + 1" "bc_misses c k + 1 \<le> n" using assms(2) by (simp_all add: word_less_nat_alt word_le_nat_alt)
  then show ?thesis using assms(1) u by (simp add: bc_get_block_def bc_try_put_block_def bc_misses_def)
qed

lemma bc_read_stored:
  assumes "bc_m c k = None" "bc_misses c k = n" "n \<noteq> - 1"
  shows "\<exists>c'. bc_read n c k v = (c', v) \<and> bc_m c' k = Some v"
proof -
  have "\<not> n + 1 \<le> n" using succ_counts [OF assms(3)] by (simp add: word_le_nat_alt)
  then show ?thesis using assms by (simp add: bc_get_block_def bc_try_put_block_def bc_misses_def)
qed

lemma bc_reads_missed:
  assumes "bc_m c k = None" "length vs + unat (bc_misses c k) = unat n" "n \<noteq> - 1"
  shows "\<exists>c'. bc_reads n c k (vs @ v # ws) = (c', vs @ v # replicate (length ws) v)"
  using assms(1,2)
proof (induction vs arbitrary: c)
  case Nil
  then have "bc_misses c k = n" by (simp add: word_unat_eq_iff)
  then obtain c' where "bc_read n c k v = (c', v)" "bc_m c' k = Some v" using bc_read_stored [OF Nil(1) _ assms(3)] by blast
  then show ?case using bc_read_cached [of c' k v n ws] by (simp del: bc_read.simps)
next
  case (Cons u vs)
  have "unat (bc_misses c k) < unat n" using Cons.prems(2) by simp
  from bc_read_missed [OF Cons.prems(1) this, of u] obtain c1 where c1: "bc_read n c k u = (c1, u)" "bc_m c1 k = None"
    "unat (bc_misses c1 k) = Suc (unat (bc_misses c k))" by blast
  with Cons.IH [OF c1(2)] Cons.prems(2) show ?case by (auto simp del: bc_read.simps)
qed

text \<open>
  A reader that goes through the cache gets what it read itself for as many misses as the threshold
  and once more; the block of that read enters the cache, and every later reader of the key gets this
  block and none of its own, until the entry is dropped.\<close>

lemma cached_after_misses:
  assumes "bc_m c k = None" "bc_misses c k = 0" "length vs = unat n" "n \<noteq> - 1"
  shows "\<exists>c'. bc_reads n c k (vs @ v # ws) = (c', vs @ v # replicate (length ws) v)"
  using bc_reads_missed [of c k vs n v ws] assms by simp

end
