(* ===== verification/Part_Search.thy ===== *)
theory Part_Search
  imports Block_Stream Block_Cache
begin

text \<open>
  Searching one part of the mergeset (\<open>crates/esm-mergeset/src/part_search.rs\<close>, the part itself from
  \<open>part.rs\<close>): a cursor that seeks to the first item not below a key, over the metaindex rows, the block
  headers of one row and the items of one block, and then steps from item to item.

  Data blocks of several items go through the cache of \<open>Block_Cache\<close>, under the id of the part and the
  offset of the block in the stream of items. The cache is shared by all cursors of the process: \<open>ps_env\<close>
  lists what others do to it before each access of this cursor, an arbitrary list of evictions, resets
  of the counters, lookups, and blocks of the same part that other cursors have read and offer. The id of
  a part is used once, so its keys are not in the cache when it is opened; whatever happened to them since
  then comes first in the list. Which of
  the two caches of data blocks is used (\<open>sparse\<close>) makes no difference. The cache of index blocks is left
  out: index blocks are compressed and never empty, so their offsets differ and a lookup is a decoding.
  The scratch blocks that the code recycles are not kept. A part has the contents of its files. \<open>None\<close>
  is a panic; what the code reports is a \<open>ps_error\<close>.
\<close>

section \<open>Parts\<close>

datatype part_file = PfMem bytes | PfClosed

fun must_read_at :: "part_file \<Rightarrow> nat \<Rightarrow> u64 \<Rightarrow> bytes option" where
  "must_read_at (PfMem buf) n off =
    (if unat off + n \<le> length buf then Some (subslice buf (unat off) (unat off + n)) else None)"
| "must_read_at PfClosed n off = None"

record part =
  pt_id :: u64
  pt_ph :: part_header
  pt_size :: u64
  pt_mrs :: "metaindex_row list"
  pt_index_file :: part_file
  pt_items_file :: part_file
  pt_lens_file :: part_file

text \<open>The id comes from a counter of the process.\<close>

definition part_new :: "zstd_lib \<Rightarrow> u64 \<Rightarrow> part_header \<Rightarrow> u64 \<Rightarrow> bytes \<Rightarrow> part_file \<Rightarrow> part_file \<Rightarrow> part_file \<Rightarrow> part option" where
  "part_new Z pid ph sz metaindex_data index_file items_file lens_file =
    (case unmarshal_metaindex_rows Z metaindex_data of
       Inl _ \<Rightarrow> None
     | Inr mrs \<Rightarrow>
       Some \<lparr>pt_id = pid, pt_ph = ph_copy_from ph_default ph, pt_size = sz, pt_mrs = mrs, pt_index_file = index_file,
             pt_items_file = items_file, pt_lens_file = lens_file\<rparr>)"

definition mp_new_part :: "zstd_lib \<Rightarrow> u64 \<Rightarrow> inmemory_part \<Rightarrow> part option" where
  "mp_new_part Z pid mp = part_new Z pid (mp_ph mp) (mp_size mp) (mp_metaindex_data mp) (PfMem (mp_index_data mp))
     (PfMem (mp_items_data mp)) (PfMem (mp_lens_data mp))"

section \<open>The cursor\<close>

datatype ps_detail =
    PsIndexZstd zstd_err
  | PsIndexHeaders u64 u32 bh_err
  | PsBlockData u32 ib_err

datatype PsError = PsEof | PsOther ps_detail

text \<open>What the rest of the process may do to the cache: a header is named by its places in the index.\<close>

datatype cache_act = Evict Key | CleanMisses | OtherGet Key | OtherPut nat nat

record part_search =
  ps_p :: part
  ps_ib_cache :: "inmemory_block block_cache"
  ps_env :: "cache_act list list"
  ps_mr_next :: nat
  ps_idxb :: "block_header list"
  ps_bh_next :: nat
  ps_err :: "PsError option"
  ps_ib :: inmemory_block
  ps_ib_valid :: bool
  ps_ib_item_idx :: nat
  ps_cur_item :: item

definition ps_new :: "cache_act list list \<Rightarrow> part \<Rightarrow> part_search" where
  "ps_new env p = \<lparr>ps_p = p, ps_ib_cache = bc_new, ps_env = env, ps_mr_next = 0, ps_idxb = [], ps_bh_next = 0, ps_err = None, ps_ib = ib_default,
     ps_ib_valid = False, ps_ib_item_idx = 0, ps_cur_item = \<lparr>it_start = 0, it_end = 0\<rparr>\<rparr>"

definition ps_item :: "part_search \<Rightarrow> bytes" where
  "ps_item ps = item_bytes (ps_cur_item ps) (ib_data (ps_ib ps))"

definition ps_error :: "part_search \<Rightarrow> ps_detail option" where
  "ps_error ps = (case ps_err ps of Some (PsOther d) \<Rightarrow> Some d | _ \<Rightarrow> None)"

section \<open>Reading blocks\<close>

definition ps_read_index_block :: "zstd_lib \<Rightarrow> part \<Rightarrow> metaindex_row \<Rightarrow> (ps_detail, block_header list) res" where
  "ps_read_index_block Z p mr =
    (case must_read_at (pt_index_file p) (unat (mr_index_block_size mr)) (mr_index_block_offset mr) of
       None \<Rightarrow> Inl Panic
     | Some packed \<Rightarrow>
       rbind (map_err PsIndexZstd (decompress_zstd Z [] packed)) (\<lambda>buf.
         map_err (PsIndexHeaders (mr_index_block_offset mr) (mr_index_block_size mr))
           (unmarshal_block_headers [] buf (unat (mr_block_headers_count mr)))))"

definition ps_next_bhs :: "zstd_lib \<Rightarrow> part_search \<Rightarrow> (part_search \<times> PsError option) option" where
  "ps_next_bhs Z ps =
    (if ps_mr_next ps \<ge> length (pt_mrs (ps_p ps)) then Some (ps, Some PsEof)
     else
       let mr = pt_mrs (ps_p ps) ! ps_mr_next ps; ps = ps\<lparr>ps_mr_next := ps_mr_next ps + 1\<rparr>
       in case ps_read_index_block Z (ps_p ps) mr of
            Inl Panic \<Rightarrow> None
          | Inl (Err e) \<Rightarrow> Some (ps, Some (PsOther e))
          | Inr bhs \<Rightarrow> Some (ps\<lparr>ps_idxb := bhs, ps_bh_next := 0\<rparr>, None))"

definition ps_read_inmemory_block :: "zstd_lib \<Rightarrow> part \<Rightarrow> block_header \<Rightarrow> (ps_detail, inmemory_block) res" where
  "ps_read_inmemory_block Z p bh =
    (case (must_read_at (pt_items_file p) (unat (bh_items_block_size bh)) (bh_items_block_offset bh),
           must_read_at (pt_lens_file p) (unat (bh_lens_block_size bh)) (bh_lens_block_offset bh)) of
       (Some its, Some lens) \<Rightarrow>
         map_err (PsBlockData (bh_items_count bh))
           (ib_unmarshal_data Z \<lparr>items_data = its, lens_data = lens\<rparr> (bh_first_item bh) (bh_common_prefix bh)
              (bh_items_count bh) (bh_marshal_type bh))
     | _ \<Rightarrow> Inl Panic)"

definition ib_key :: "part \<Rightarrow> block_header \<Rightarrow> Key" where
  "ib_key p bh = Key (pt_id p) (bh_items_block_offset bh)"

definition part_header_at :: "zstd_lib \<Rightarrow> part \<Rightarrow> nat \<Rightarrow> nat \<Rightarrow> block_header option" where
  "part_header_at Z p i j =
    (if i < length (pt_mrs p) then
       (case ps_read_index_block Z p (pt_mrs p ! i) of
          Inr bhs \<Rightarrow> if j < length bhs then Some (bhs ! j) else None
        | Inl _ \<Rightarrow> None)
     else None)"

fun cache_step :: "zstd_lib \<Rightarrow> part \<Rightarrow> cache_act \<Rightarrow> inmemory_block block_cache \<Rightarrow> inmemory_block block_cache" where
  "cache_step Z p (Evict k) c = bc_evict c k"
| "cache_step Z p CleanMisses c = bc_clean_per_key_misses c"
| "cache_step Z p (OtherGet k) c = fst (bc_get_block c k)"
| "cache_step Z p (OtherPut i j) c =
    (case part_header_at Z p i j of
       None \<Rightarrow> c
     | Some bh \<Rightarrow>
       if bh_items_count bh = 1 then c
       else
         (case ps_read_inmemory_block Z p bh of
            Inl _ \<Rightarrow> c
          | Inr ib \<Rightarrow> fst (bc_try_put_block MISSES_BEFORE_CACHING c (ib_key p bh) ib)))"

definition ps_others :: "zstd_lib \<Rightarrow> part_search \<Rightarrow> part_search" where
  "ps_others Z ps =
    (case ps_env ps of
       [] \<Rightarrow> ps
     | acts # env \<Rightarrow> ps\<lparr>ps_ib_cache := fold (cache_step Z (ps_p ps)) acts (ps_ib_cache ps), ps_env := env\<rparr>)"

definition ps_get_inmemory_block :: "zstd_lib \<Rightarrow> part_search \<Rightarrow> block_header \<Rightarrow> (part_search \<times> PsError option) option" where
  "ps_get_inmemory_block Z ps bh =
    (if bh_items_count bh = 1 then
       (case unmarshal_single_item (bh_common_prefix bh) (bh_first_item bh) (bh_marshal_type bh) of
          None \<Rightarrow> None
        | Some ib \<Rightarrow> Some (ps\<lparr>ps_ib := ib, ps_ib_valid := True\<rparr>, None))
     else
       let ps = ps_others Z ps in
       case bc_get_block (ps_ib_cache ps) (ib_key (ps_p ps) bh) of
         (c, Some ib) \<Rightarrow> Some (ps\<lparr>ps_ib_cache := c, ps_ib := ib, ps_ib_valid := True\<rparr>, None)
       | (c, None) \<Rightarrow>
         let ps = ps\<lparr>ps_ib_cache := c\<rparr> in
         (case ps_read_inmemory_block Z (ps_p ps) bh of
            Inl Panic \<Rightarrow> None
          | Inl (Err e) \<Rightarrow> Some (ps, Some (PsOther e))
          | Inr ib \<Rightarrow>
            let ps = ps_others Z ps;
                c = fst (bc_try_put_block MISSES_BEFORE_CACHING (ps_ib_cache ps) (ib_key (ps_p ps) bh) ib)
            in Some (ps\<lparr>ps_ib_cache := c, ps_ib := ib, ps_ib_valid := True\<rparr>, None)))"

text \<open>\<open>next_block\<close> once the headers are there.\<close>

definition ps_load_block :: "zstd_lib \<Rightarrow> part_search \<Rightarrow> (part_search \<times> PsError option) option" where
  "ps_load_block Z ps =
    (if \<not> ps_bh_next ps < length (ps_idxb ps) then None
     else
       case ps_get_inmemory_block Z (ps\<lparr>ps_bh_next := ps_bh_next ps + 1\<rparr>) (ps_idxb ps ! ps_bh_next ps) of
         None \<Rightarrow> None
       | Some (ps, Some e) \<Rightarrow> Some (ps, Some e)
       | Some (ps, None) \<Rightarrow> Some (ps\<lparr>ps_ib_item_idx := 0\<rparr>, None))"

definition ps_next_block :: "zstd_lib \<Rightarrow> part_search \<Rightarrow> (part_search \<times> PsError option) option" where
  "ps_next_block Z ps =
    (if ps_bh_next ps \<ge> length (ps_idxb ps) then
       (case ps_next_bhs Z ps of
          None \<Rightarrow> None
        | Some (ps, Some e) \<Rightarrow> Some (ps, Some e)
        | Some (ps, None) \<Rightarrow> ps_load_block Z ps)
     else ps_load_block Z ps)"

section \<open>Searching in a block\<close>

text \<open>What follows the first \<open>cp_len\<close> bytes of an item; slicing out of bounds panics.\<close>

definition item_tail :: "bytes \<Rightarrow> nat \<Rightarrow> item \<Rightarrow> bytes option" where
  "item_tail data cp_len it =
    (if unat (it_start it) + cp_len \<le> unat (it_end it) \<and> unat (it_end it) \<le> length data
     then Some (subslice data (unat (it_start it) + cp_len) (unat (it_end it))) else None)"

definition binary_search_key :: "bytes \<Rightarrow> item list \<Rightarrow> bytes \<Rightarrow> nat \<Rightarrow> nat option" where
  "binary_search_key data items k cp_len =
    (if items = [] then Some 0
     else
       case those (map (item_tail data cp_len) items) of
         None \<Rightarrow> None
       | Some tails \<Rightarrow>
         let suffix = drop cp_len k in
         if suffix \<le> tails ! 0 then Some 0
         else Some (partition_point (\<lambda>t. suffix > t) (drop 1 tails) + 1))"

definition try_fast_seek :: "part_search \<Rightarrow> bytes \<Rightarrow> (part_search \<times> bool) option" where
  "try_fast_seek ps k =
    (let data = ib_data (ps_ib ps); items = ib_items (ps_ib ps); idx = ps_ib_item_idx ps in
     if \<not> ps_ib_valid ps \<or> idx \<ge> length items then Some (ps, False)
     else
       let cp_len = common_prefix_len (common_prefix (ps_ib ps)) k;
           suffix = drop cp_len k;
           found = (\<lambda>i window. map_option (\<lambda>n. (ps\<lparr>ps_ib_item_idx := i + n\<rparr>, True))
                      (binary_search_key data (drop i window) k cp_len))
       in
       case item_tail data cp_len (items ! (length items - 1)) of
         None \<Rightarrow> None
       | Some t \<Rightarrow>
         if suffix > t then Some (ps, False)
         else
           let idx = idx - 1 in
           (case item_tail data cp_len (items ! idx) of
              None \<Rightarrow> None
            | Some t \<Rightarrow>
              if suffix < t then
                (if take idx items = [] then Some (ps, False)
                 else
                   case item_tail data cp_len (take idx items ! 0) of
                     None \<Rightarrow> None
                   | Some t \<Rightarrow> if suffix < t then Some (ps, False) else found 0 (take idx items))
              else found idx items))"

section \<open>Seeking and stepping\<close>

text \<open>\<open>if let Err(err) = self.next_block() { self.err = Some(err) }\<close>.\<close>

definition ps_step_block :: "zstd_lib \<Rightarrow> part_search \<Rightarrow> part_search option" where
  "ps_step_block Z ps = map_option (\<lambda>(ps, e). if e = None then ps else ps\<lparr>ps_err := e\<rparr>) (ps_next_block Z ps)"

text \<open>From the header search on, when the fast paths do not apply.\<close>

definition ps_seek_slow :: "zstd_lib \<Rightarrow> part_search \<Rightarrow> bytes \<Rightarrow> part_search option" where
  "ps_seek_slow Z ps k =
    (if pt_mrs (ps_p ps) = [] then None
     else
       let n = partition_point (\<lambda>mr. mr_first_item mr < k) (pt_mrs (ps_p ps)) in
       case ps_next_bhs Z (ps\<lparr>ps_mr_next := n - 1\<rparr>) of
         None \<Rightarrow> None
       | Some (ps, Some e) \<Rightarrow> Some (ps\<lparr>ps_err := Some e\<rparr>)
       | Some (ps, None) \<Rightarrow>
         let n = partition_point (\<lambda>bh. bh_first_item bh < k) (ps_idxb ps) in
         (case ps_next_block Z (ps\<lparr>ps_bh_next := n - 1\<rparr>) of
            None \<Rightarrow> None
          | Some (ps, Some e) \<Rightarrow> Some (ps\<lparr>ps_err := Some e\<rparr>)
          | Some (ps, None) \<Rightarrow>
            (case binary_search_key (ib_data (ps_ib ps)) (ib_items (ps_ib ps)) k
                    (common_prefix_len (common_prefix (ps_ib ps)) k) of
               None \<Rightarrow> None
             | Some i \<Rightarrow>
               let ps = ps\<lparr>ps_ib_item_idx := i\<rparr> in
               if i < length (ib_items (ps_ib ps)) then Some ps else ps_step_block Z ps)))"

definition ps_seek :: "zstd_lib \<Rightarrow> part_search \<Rightarrow> bytes \<Rightarrow> part_search option" where
  "ps_seek Z ps k =
    (if ps_error ps \<noteq> None then Some ps
     else
       let ps = ps\<lparr>ps_err := None\<rparr> in
       if k > ph_last_item (pt_ph (ps_p ps)) then Some (ps\<lparr>ps_err := Some PsEof\<rparr>)
       else
         case try_fast_seek ps k of
           None \<Rightarrow> None
         | Some (ps, True) \<Rightarrow> Some ps
         | Some (ps, False) \<Rightarrow>
           let ps = ps\<lparr>ps_mr_next := 0, ps_bh_next := length (ps_idxb ps), ps_ib_valid := False, ps_ib_item_idx := 0\<rparr> in
           if k \<le> ph_first_item (pt_ph (ps_p ps)) then ps_step_block Z ps
           else ps_seek_slow Z ps k)"

definition ps_next_item :: "zstd_lib \<Rightarrow> part_search \<Rightarrow> (part_search \<times> bool) option" where
  "ps_next_item Z ps =
    (if ps_err ps \<noteq> None then Some (ps, False)
     else if ps_ib_valid ps \<and> ps_ib_item_idx ps < length (ib_items (ps_ib ps)) then
       Some (ps\<lparr>ps_cur_item := ib_items (ps_ib ps) ! ps_ib_item_idx ps, ps_ib_item_idx := ps_ib_item_idx ps + 1\<rparr>, True)
     else
       case ps_next_block Z ps of
         None \<Rightarrow> None
       | Some (ps, Some e) \<Rightarrow> Some (ps\<lparr>ps_err := Some e\<rparr>, False)
       | Some (ps, None) \<Rightarrow>
         if ib_items (ps_ib ps) = [] then None
         else Some (ps\<lparr>ps_cur_item := ib_items (ps_ib ps) ! 0, ps_ib_item_idx := 1\<rparr>, True))"

end
