(* ===== verification/Block_Stream_Correct.thy ===== *)
theory Block_Stream_Correct
  imports Block_Stream
begin

text \<open>
  What the streams of a part hold, and that the reader returns what the writer wrote.

  The writer is described by the blocks it has stored: the items and lens streams are their bytes
  in order, the index stream the packed index blocks, and the headers not yet flushed wait in the
  buffer (\<open>idx_rep\<close>, \<open>bsw_rep\<close>). A reader is described by the blocks it still has to return
  (\<open>bsr_rep\<close>). Every operation moves between such descriptions. The limits the reader enforces on
  sizes hold because blocks are bounded and compression never expands by more than the documented
  bound (\<open>zstd_bounded\<close>).
\<close>

section \<open>Descriptions of streams, writers and readers\<close>

text \<open>Compression never grows its input by more than the documented bound.\<close>

definition zstd_bounded :: "zstd_lib \<Rightarrow> bool" where
  "zstd_bounded Z \<longleftrightarrow> (\<forall>n. compress_bound Z n \<le> n + n div 256 + 64)
     \<and> (\<forall>level b cap c. compress_to_buffer Z level b cap = Some c \<longrightarrow> length c \<le> cap)"

text \<open>A block as it lies in the part: its header, the bytes of its two streams and its items.\<close>

record sblock =
  sb_h :: block_header
  sb_items :: bytes
  sb_lens :: bytes
  sb_strs :: "bytes list"

definition stored :: "zstd_lib \<Rightarrow> sblock \<Rightarrow> bool" where
  "stored Z s \<longleftrightarrow> bh_wf (sb_h s) \<and> sb_strs s \<noteq> []
     \<and> unat (bh_items_block_size (sb_h s)) = length (sb_items s)
     \<and> unat (bh_lens_block_size (sb_h s)) = length (sb_lens s)
     \<and> bh_first_item (sb_h s) = hd (sb_strs s) \<and> unat (bh_items_count (sb_h s)) = length (sb_strs s)
     \<and> (length (sb_strs s) = 1 \<longrightarrow> bh_marshal_type (sb_h s) = Plain)
     \<and> (sb_items s = [] \<longrightarrow> (\<forall>x \<in> set (sb_strs s). x = hd (sb_strs s)))
     \<and> length (bh_marshal (sb_h s) []) \<le> 3 * MAX_INDEX_BLOCK_SIZE
     \<and> (\<exists>blk. ib_unmarshal_data Z \<lparr>items_data = sb_items s, lens_data = sb_lens s\<rparr>
           (bh_first_item (sb_h s)) (bh_common_prefix (sb_h s)) (bh_items_count (sb_h s))
           (bh_marshal_type (sb_h s)) = Inr blk \<and> ib_strings blk = sb_strs s \<and> ib_ready blk
         \<and> common_prefix blk = bh_common_prefix (sb_h s))"

text \<open>What a writer may be given: a sorted block within the size limit, without empty items.\<close>

definition block_ok :: "inmemory_block \<Rightarrow> bool" where
  "block_ok b \<longleftrightarrow> ib_invar b \<and> sorted (ib_strings b) \<and> ib_items b \<noteq> [] \<and> [] \<notin> set (ib_strings b)
     \<and> length (ib_data b) \<le> MAX_INMEMORY_BLOCK_SIZE"

text \<open>An index block of the part: its blocks, its packed bytes and its row in the metaindex.\<close>

record igroup =
  g_blocks :: "sblock list"
  g_packed :: bytes
  g_row :: metaindex_row

definition hdr_bytes :: "sblock list \<Rightarrow> bytes" where
  "hdr_bytes ss = concat (map (\<lambda>s. bh_marshal (sb_h s) []) ss)"

definition group_ok :: "zstd_lib \<Rightarrow> igroup \<Rightarrow> bool" where
  "group_ok Z g \<longleftrightarrow> g_blocks g \<noteq> [] \<and> list_all (stored Z) (g_blocks g)
     \<and> decompress_zstd Z [] (g_packed g) = Inr (hdr_bytes (g_blocks g))
     \<and> mr_wf (g_row g) \<and> unat (mr_index_block_size (g_row g)) = length (g_packed g)
     \<and> unat (mr_block_headers_count (g_row g)) = length (g_blocks g)
     \<and> mr_first_item (g_row g) = bh_first_item (sb_h (hd (g_blocks g)))"

text \<open>Where the blocks and the index blocks lie in their streams, as their headers say.\<close>

fun placed_blocks :: "nat \<Rightarrow> nat \<Rightarrow> sblock list \<Rightarrow> bool" where
  "placed_blocks io lo [] \<longleftrightarrow> True"
| "placed_blocks io lo (s # ss) \<longleftrightarrow> bh_items_block_offset (sb_h s) = of_nat io \<and> bh_lens_block_offset (sb_h s) = of_nat lo
     \<and> placed_blocks (io + length (sb_items s)) (lo + length (sb_lens s)) ss"

fun placed_index :: "nat \<Rightarrow> igroup list \<Rightarrow> bool" where
  "placed_index off [] \<longleftrightarrow> True"
| "placed_index off (g # gs) \<longleftrightarrow> mr_index_block_offset (g_row g) = of_nat off \<and> placed_index (off + length (g_packed g)) gs"

text \<open>The index side of the writer: finished index blocks and the headers not yet flushed.\<close>

definition idx_rep :: "zstd_lib \<Rightarrow> block_stream_writer \<Rightarrow> igroup list \<Rightarrow> sblock list \<Rightarrow> bool" where
  "idx_rep Z w gs pend \<longleftrightarrow> list_all (group_ok Z) gs \<and> list_all (stored Z) pend
     \<and> metaindex_writer w = WMem [] \<and> index_writer w = WMem (concat (map g_packed gs))
     \<and> unpacked_metaindex_buf w = concat (map (\<lambda>g. mr_marshal (g_row g) []) gs)
     \<and> index_block_offset w = of_nat (length (concat (map g_packed gs))) \<and> placed_index 0 gs
     \<and> unpacked_index_block_buf w = hdr_bytes pend
     \<and> length (hdr_bytes pend) \<le> 3 * MAX_INDEX_BLOCK_SIZE
     \<and> mr_first_item_caught w = (pend \<noteq> [])
     \<and> mr_block_headers_count (bsw_mr w) = of_nat (length pend)
     \<and> (pend \<noteq> [] \<longrightarrow> mr_first_item (bsw_mr w) = bh_first_item (sb_h (hd pend)))"

definition all_blocks :: "igroup list \<Rightarrow> sblock list \<Rightarrow> sblock list" where
  "all_blocks gs pend = concat (map g_blocks gs) @ pend"

definition bsw_rep :: "zstd_lib \<Rightarrow> block_stream_writer \<Rightarrow> sblock list \<Rightarrow> bool" where
  "bsw_rep Z w ss \<longleftrightarrow> items_writer w = WMem (concat (map sb_items ss))
     \<and> lens_writer w = WMem (concat (map sb_lens ss))
     \<and> items_block_offset w = of_nat (length (concat (map sb_items ss)))
     \<and> lens_block_offset w = of_nat (length (concat (map sb_lens ss))) \<and> placed_blocks 0 0 ss
     \<and> (\<exists>gs pend. ss = all_blocks gs pend \<and> idx_rep Z w gs pend)"

text \<open>The end of \<open>write_header\<close>, once the header is in the index block.\<close>

definition count_header :: "block_stream_writer \<Rightarrow> block_header \<Rightarrow> block_stream_writer" where
  "count_header w bh =
    (let w = (if \<not> mr_first_item_caught w
              then w\<lparr>bsw_mr := (bsw_mr w)\<lparr>mr_first_item := bh_first_item bh\<rparr>, mr_first_item_caught := True\<rparr>
              else w)
     in w\<lparr>bsw_bh := bh_reset bh,
          bsw_mr := (bsw_mr w)\<lparr>mr_block_headers_count := mr_block_headers_count (bsw_mr w) + 1\<rparr>\<rparr>)"

text \<open>The data side of the writer is the same.\<close>

definition same_data :: "block_stream_writer \<Rightarrow> block_stream_writer \<Rightarrow> bool" where
  "same_data v w \<longleftrightarrow> items_writer v = items_writer w \<and> lens_writer v = lens_writer w
     \<and> items_block_offset v = items_block_offset w \<and> lens_block_offset v = lens_block_offset w"

definition part_rep :: "zstd_lib \<Rightarrow> bytes \<times> bytes \<times> bytes \<times> bytes \<Rightarrow> igroup list \<Rightarrow> bool" where
  "part_rep Z bufs gs \<longleftrightarrow> (case bufs of (m, idx, its, l) \<Rightarrow>
     let ss = concat (map g_blocks gs) in
     list_all (group_ok Z) gs \<and> idx = concat (map g_packed gs)
     \<and> its = concat (map sb_items ss) \<and> l = concat (map sb_lens ss)
     \<and> placed_index 0 gs \<and> placed_blocks 0 0 ss
     \<and> decompress_zstd Z [] m = Inr (concat (map (\<lambda>g. mr_marshal (g_row g) []) gs)))"

definition stream_at :: "stream_reader \<Rightarrow> bytes \<Rightarrow> bool" where
  "stream_at s bs \<longleftrightarrow> (\<exists>buf pos. s = RMem buf pos \<and> pos \<le> length buf \<and> drop pos buf = bs)"

definition group_sorted :: "igroup \<Rightarrow> bool" where
  "group_sorted g \<longleftrightarrow> sorted (map (\<lambda>s. bh_first_item (sb_h s)) (g_blocks g))"

text \<open>
  The reader stands before the given blocks: \<open>cur\<close> in the current index block, the rest in \<open>gs\<close>.
\<close>

definition src_rep :: "zstd_lib \<Rightarrow> block_stream_reader \<Rightarrow> bytes list list \<Rightarrow> sblock list \<Rightarrow> igroup list \<Rightarrow> bool" where
  "src_rep Z r bs cur gs \<longleftrightarrow> list_all (stored Z) cur \<and> list_all (group_ok Z) gs \<and> list_all group_sorted gs
     \<and> bs = map sb_strs (cur @ concat (map g_blocks gs))
     \<and> stream_at (items_reader r) (concat (map sb_items (cur @ concat (map g_blocks gs))))
     \<and> stream_at (lens_reader r) (concat (map sb_lens (cur @ concat (map g_blocks gs))))
     \<and> stream_at (index_reader r) (concat (map g_packed gs))
     \<and> drop (bh_idx r) (bsr_bhs r) = map sb_h cur \<and> drop (mr_idx r) (bsr_mrs r) = map g_row gs"

text \<open>What the cross-checks against the part header still allow.\<close>

definition chk_rep :: "block_stream_reader \<Rightarrow> bytes list list \<Rightarrow> bool" where
  "chk_rep r bs \<longleftrightarrow> \<not> is_inmemory_block r \<and> bsr_error r = None
    \<and> unat (blocks_read r) + length bs \<le> unat (ph_blocks_count (bsr_ph r))
    \<and> unat (items_read r) + sum_list (map length bs) \<le> unat (ph_items_count (bsr_ph r))
    \<and> (first_item_checked r \<or> bs \<noteq> [] \<and> ph_first_item (bsr_ph r) = hd (hd bs))
    \<and> (if bs = [] then ib_items (bsr_block r) \<noteq> [] \<and> ph_last_item (bsr_ph r) = last (ib_strings (bsr_block r))
       else ph_last_item (bsr_ph r) = last (last bs))"

definition bsr_rep :: "zstd_lib \<Rightarrow> block_stream_reader \<Rightarrow> bytes list list \<Rightarrow> bool" where
  "bsr_rep Z r bs \<longleftrightarrow> chk_rep r bs \<and> (\<exists>cur gs. src_rep Z r bs cur gs)"

text \<open>The part header agrees with the blocks.\<close>

definition ph_ok :: "part_header \<Rightarrow> bytes list list \<Rightarrow> bool" where
  "ph_ok ph bs \<longleftrightarrow> bs \<noteq> [] \<and> unat (ph_blocks_count ph) = length bs
     \<and> unat (ph_items_count ph) = sum_list (map length bs)
     \<and> ph_first_item ph = hd (hd bs) \<and> ph_last_item ph = last (last bs)"

text \<open>A sequence of \<open>write_block\<close> calls, and reading until \<open>next\<close> returns false.\<close>

fun write_blocks :: "zstd_lib \<Rightarrow> block_stream_writer \<Rightarrow> inmemory_block list \<Rightarrow> block_stream_writer option" where
  "write_blocks Z w [] = Some w"
| "write_blocks Z w (b # bs) =
    (case write_block Z w b of None \<Rightarrow> None | Some (w, _) \<Rightarrow> write_blocks Z w bs)"

fun drain :: "('r \<Rightarrow> ('r \<times> bool) option) \<Rightarrow> ('r \<Rightarrow> 'b) \<Rightarrow> ('r \<Rightarrow> bool) \<Rightarrow> nat \<Rightarrow> 'r \<Rightarrow> 'b list option" where
  "drain nxt blk failed 0 r = None"
| "drain nxt blk failed (Suc n) r =
    (case nxt r of
       None \<Rightarrow> None
     | Some (r, False) \<Rightarrow> if failed r then None else Some []
     | Some (r, True) \<Rightarrow> map_option ((#) (blk r)) (drain nxt blk failed n r))"

definition read_blocks :: "zstd_lib \<Rightarrow> nat \<Rightarrow> block_stream_reader \<Rightarrow> bytes list list option" where
  "read_blocks Z = drain (bsr_next Z) (\<lambda>r. ib_strings (bsr_block r)) (\<lambda>r. bsr_err_msg r \<noteq> None)"

lemma compress_bounded:
  assumes "zstd_bounded Z" "compress_zstd_level Z [] b level = Some c"
  shows "length c \<le> length b + length b div 256 + 64"
proof -
  obtain d where "compress_to_buffer Z level b (compress_bound Z (length b)) = Some d" "c = d"
    using assms(2) by (auto simp: compress_zstd_level_def split: option.splits)
  then have "length c \<le> compress_bound Z (length b)" using assms(1) unfolding zstd_bounded_def by blast
  also have "\<dots> \<le> length b + length b div 256 + 64" using assms(1) unfolding zstd_bounded_def by blast
  finally show ?thesis .
qed

lemma stored_zstd_bounded: "zstd_bounded stored_zstd"
  by (auto simp: zstd_bounded_def stored_zstd_def split: if_splits)

lemma placed_blocks_snoc:
  "placed_blocks io lo (ss @ [s]) \<longleftrightarrow> placed_blocks io lo ss
    \<and> bh_items_block_offset (sb_h s) = of_nat (io + length (concat (map sb_items ss)))
    \<and> bh_lens_block_offset (sb_h s) = of_nat (lo + length (concat (map sb_lens ss)))"
  by (induction ss arbitrary: io lo) (simp_all add: add.assoc conj_ac)

lemma placed_index_snoc:
  "placed_index off (gs @ [g]) \<longleftrightarrow> placed_index off gs
    \<and> mr_index_block_offset (g_row g) = of_nat (off + length (concat (map g_packed gs)))"
  by (induction gs arbitrary: off) (simp_all add: add.assoc conj_ac)

section \<open>Sizes\<close>

lemma unat_take_bit_iff: "unat (u :: u64) < 2 ^ n \<longleftrightarrow> take_bit n u = u"
proof
  assume "unat u < 2 ^ n"
  then have "take_bit n (unat u) = unat u" by (simp add: take_bit_nat_eq_self)
  then show "take_bit n u = u" by (simp add: word_unat_eq_iff unsigned_take_bit_eq)
next
  assume "take_bit n u = u"
  then have "unat u = take_bit n (unat u)" by (metis unsigned_take_bit_eq)
  then show "unat u < 2 ^ n" by (metis take_bit_nat_less_exp)
qed

lemma xor_bound: "unat (u :: u64) < 2 ^ n \<Longrightarrow> unat v < 2 ^ n \<Longrightarrow> unat (u XOR v) < 2 ^ n"
  by (simp only: unat_take_bit_iff take_bit_xor)

lemma leb128_3:
  assumes "unat u < 2 ^ 21"
  shows "length (leb128 u) \<le> 3"
proof -
  have "u < 2 ^ (2 * 7 + 7)" using assms by (simp add: word_less_nat_alt)
  then consider "u < 2 ^ (0 * 7 + 7)" | "u < 2 ^ (1 * 7 + 7)" "2 ^ (1 * 7) \<le> u" | "u < 2 ^ (2 * 7 + 7)" "2 ^ (2 * 7) \<le> u"
    by fastforce
  then show ?thesis
    by cases (use leb128_length [of 0 u] leb128_length [of 1 u] leb128_length [of 2 u] in simp_all)
qed

lemma xor_bound_17: "unat (u :: u64) < 131072 \<Longrightarrow> unat v < 131072 \<Longrightarrow> unat (u XOR v) < 131072"
  using xor_bound [of u 17 v] by simp

lemma items_lens_bound:
  "unat pl < 131072 \<Longrightarrow> \<forall>s \<in> set sufs. length s < 131072 \<Longrightarrow>
    \<forall>x \<in> set (snd (items_loop prev pl sufs)). unat x < 131072"
proof (induction prev pl sufs rule: items_loop.induct)
  case (2 prev pl item rest)
  have "common_prefix_len prev item < 131072"
    using common_prefix_len_le(2) [of prev item] 2(3) by (auto intro: le_less_trans)
  then have "unat (of_nat (common_prefix_len prev item) :: u64) < 131072" by (simp add: unat_of_nat)
  with 2 show ?case by (simp add: Let_def split_beta xor_bound_17)
qed simp

lemma lens_loop_bound:
  "unat l < 131072 \<Longrightarrow> \<forall>x \<in> set ls. unat x < 131072 \<Longrightarrow> \<forall>x \<in> set (lens_loop l ls). unat x < 131072"
  by (induction l ls rule: lens_loop.induct) (auto simp: xor_bound_17)

lemma concat_leb128_3: "\<forall>x \<in> set us. unat x < 131072 \<Longrightarrow> length (concat (map leb128 us)) \<le> 3 * length us"
proof (induction us)
  case (Cons u us)
  then show ?case using leb128_3 [of u] by simp
qed simp

lemma nonempty_count: "[] \<notin> set xs \<Longrightarrow> length xs \<le> length (concat xs)"
proof (induction xs)
  case (Cons x xs)
  then show ?case by (cases x) auto
qed simp

lemma ib_marshal_cases:
  assumes "ib_marshal_data Z b fd cd level = Some (sb, r)" "ib_invar b"
  shows "sb = marshal_data_plain b
    \<or> (let il = items_loop (drop (length (common_prefix b)) (ib_first b)) 0 (suffixes b) in
        compress_zstd_level Z [] (fst il) level = Some (items_data sb)
      \<and> compress_zstd_level Z [] (marshal_var_uint64s (marshal_var_uint64s [] (snd il))
          (lens_loop (of_nat (length (ib_first b) - length (common_prefix b))) (map suffix_len (suffixes b)))) level
        = Some (lens_data sb))"
  using assms(1) unfolding ib_marshal_data_def
  by (auto simp: Let_def split_beta suffix_lens_eq [OF assms(2), simplified] split: if_splits option.splits
      simp flip: suffixes_def [simplified] ib_first_def)

lemma block_lengths:
  assumes "ib_ready b"
  shows "length (concat (suffixes b)) \<le> length (ib_data b)" "length (ib_first b) \<le> length (ib_data b)"
    "length (common_prefix b) \<le> length (ib_first b)" "\<forall>s \<in> set (suffixes b). length s \<le> length (ib_data b)"
proof -
  note sp = ib_strings_split [OF assms]
  have inv: "ib_invar b" using assms by (simp add: ib_ready_def)
  have "length (concat (suffixes b)) \<le> length (concat (map ((@) (common_prefix b)) (suffixes b)))"
    by (simp add: length_concat comp_def sum_list_mono)
  then show s: "length (concat (suffixes b)) \<le> length (ib_data b)" "length (ib_first b) \<le> length (ib_data b)"
    using ib_data_length [OF inv] by (simp_all add: sp(1))
  show "length (common_prefix b) \<le> length (ib_first b)" using arg_cong [OF sp(3), of length] by simp
  have "length s \<le> length (concat (suffixes b))" if "s \<in> set (suffixes b)" for s
    using that by (simp add: length_concat member_le_sum_list)
  with s(1) show "\<forall>s \<in> set (suffixes b). length s \<le> length (ib_data b)" by force
qed

lemma marshal_sizes:
  assumes "zstd_bounded Z" "ib_ready b" "length (ib_data b) \<le> MAX_INMEMORY_BLOCK_SIZE"
    "length (ib_items b) \<le> MAX_INMEMORY_BLOCK_SIZE" "ib_marshal_data Z b fd cd level = Some (sb, r)"
  shows "length (items_data sb) \<le> 2 * MAX_INMEMORY_BLOCK_SIZE"
    "length (lens_data sb) \<le> 2 * 8 * MAX_INMEMORY_BLOCK_SIZE"
proof -
  note bl = block_lengths [OF assms(2)]
  have inv: "ib_invar b" using assms(2) by (simp add: ib_ready_def)
  have n: "length (suffixes b) \<le> 65536" "length (ib_data b) \<le> 65536"
    using assms(3,4) ib_strings_split(2) [OF assms(2)] by (simp_all add: MAX_INMEMORY_BLOCK_SIZE_def)
  have "length (items_data sb) \<le> 2 * MAX_INMEMORY_BLOCK_SIZE \<and> length (lens_data sb) \<le> 2 * 8 * MAX_INMEMORY_BLOCK_SIZE"
    using ib_marshal_cases [OF assms(5) inv]
  proof
    assume e: "sb = marshal_data_plain b"
    have "length (foldl (\<lambda>dst it. marshal_uint64 dst (item_suffix_len b it)) acc its) = length acc + 8 * length its"
      for acc its by (induction its arbitrary: acc) (simp_all add: marshal_uint64_def)
    then have "length (lens_data sb) = 8 * length (suffixes b)"
      by (simp add: e marshal_data_plain_def suffixes_def)
    moreover have "items_data sb = concat (suffixes b)" by (simp add: e marshal_data_plain_def suffixes_def)
    ultimately show ?thesis using bl(1) n by (simp add: MAX_INMEMORY_BLOCK_SIZE_def)
  next
    let ?l0 = "of_nat (length (ib_first b) - length (common_prefix b)) :: u64"
    let ?il = "items_loop (drop (length (common_prefix b)) (ib_first b)) 0 (suffixes b)"
    let ?ll = "lens_loop ?l0 (map suffix_len (suffixes b))"
    assume "let il = ?il in compress_zstd_level Z [] (fst il) level = Some (items_data sb)
      \<and> compress_zstd_level Z [] (marshal_var_uint64s (marshal_var_uint64s [] (snd il)) ?ll) level = Some (lens_data sb)"
    then have c: "compress_zstd_level Z [] (fst ?il) level = Some (items_data sb)"
      "compress_zstd_level Z [] (marshal_var_uint64s (marshal_var_uint64s [] (snd ?il)) ?ll) level = Some (lens_data sb)"
      by (simp_all only: Let_def)
    have s: "\<forall>s \<in> set (suffixes b). length s < 131072" using bl(4) n(2) by force
    have "unat ?l0 < 131072" using bl(2) n(2) by (simp add: unat_of_nat)
    moreover have "\<forall>x \<in> set (map suffix_len (suffixes b)). unat x < 131072"
      using s by (auto simp: suffix_len_def unat_of_nat intro: le_less_trans [OF mod_less_eq_dividend])
    ultimately have "\<forall>x \<in> set ?ll. unat x < 131072" by (intro lens_loop_bound)
    then have "length (concat (map leb128 ?ll)) \<le> 3 * 65536" using concat_leb128_3 [of ?ll] n(1) by simp
    moreover have "\<forall>x \<in> set (snd ?il). unat x < 131072" using s by (intro items_lens_bound) simp_all
    then have "length (concat (map leb128 (snd ?il))) \<le> 3 * 65536" using concat_leb128_3 [of "snd ?il"] n(1) by simp
    ultimately have "length (marshal_var_uint64s (marshal_var_uint64s [] (snd ?il)) ?ll) \<le> 6 * 65536"
      by (simp add: marshal_uint64s_eq)
    with compress_bounded [OF assms(1) c(2)] have "length (lens_data sb) \<le> 6 * 65536 + 6 * 65536 div 256 + 64" by linarith
    moreover have "length (fst ?il) \<le> 65536"
      using length_items_loop_le [of "drop (length (common_prefix b)) (ib_first b)" 0 "suffixes b"] bl(1) n by linarith
    with compress_bounded [OF assms(1) c(1)] have "length (items_data sb) \<le> 65536 + 65536 div 256 + 64" by linarith
    ultimately show ?thesis by (simp add: MAX_INMEMORY_BLOCK_SIZE_def)
  qed
  then show "length (items_data sb) \<le> 2 * MAX_INMEMORY_BLOCK_SIZE"
    "length (lens_data sb) \<le> 2 * 8 * MAX_INMEMORY_BLOCK_SIZE" by simp_all
qed

text \<open>A block writes no bytes to the stream of items only when all its items are equal.\<close>

lemma marshal_items_empty:
  assumes "zstd_ok Z" "ib_ready b" "length (ib_data b) \<le> MAX_INMEMORY_BLOCK_SIZE"
    "ib_marshal_data Z b fd cd level = Some (sb, r)" "items_data sb = []" "x \<in> set (ib_strings b)"
  shows "x = ib_first b"
proof -
  let ?cp = "common_prefix b"
  note sp = ib_strings_split [OF assms(2)] and bl = block_lengths [OF assms(2)]
  have inv: "ib_invar b" "sorted (ib_strings b)" using assms(2) by (simp_all add: ib_ready_def)
  show ?thesis using ib_marshal_cases [OF assms(4) inv(1)]
  proof
    assume "sb = marshal_data_plain b"
    then have c: "\<forall>s \<in> set (suffixes b). s = []" using assms(5) by (simp add: marshal_data_plain_def suffixes_def)
    show ?thesis
    proof (cases "x = ib_first b")
      case False
      then have x: "x = ?cp" using assms(6) c by (auto simp: sp(1))
      then have "ib_first b \<le> ?cp" using inv(2) assms(6) False by (auto simp: sp(1))
      then have "?cp @ drop (length ?cp) (ib_first b) \<le> ?cp @ []" using sp(3) by simp
      then have "drop (length ?cp) (ib_first b) = []" by (simp add: le_common_prefix del: append_Nil2)
      with sp(3) x show ?thesis by simp
    qed
  next
    let ?il = "items_loop (drop (length ?cp) (ib_first b)) 0 (suffixes b)"
    assume "let il = ?il in compress_zstd_level Z [] (fst il) level = Some (items_data sb)
      \<and> compress_zstd_level Z [] (marshal_var_uint64s (marshal_var_uint64s [] (snd il))
          (lens_loop (of_nat (length (ib_first b) - length ?cp)) (map suffix_len (suffixes b)))) level = Some (lens_data sb)"
    then have "compress_zstd_level Z [] (fst ?il) level = Some []" using assms(5) by (simp add: Let_def)
    moreover have "length (fst ?il) < 2 ^ 64"
      using length_items_loop_le [of "drop (length ?cp) (ib_first b)" 0 "suffixes b"] bl(1) assms(3) by (simp add: MAX_INMEMORY_BLOCK_SIZE_def)
    then have "\<exists>c. compress_to_buffer Z level (fst ?il) (compress_bound Z (length (fst ?il))) = Some c \<and> c \<noteq> []"
      using assms(1) unfolding zstd_ok_def by blast
    ultimately show ?thesis by (auto simp: compress_zstd_level_def)
  qed
qed

lemma bytes_enc_length: "length b \<le> 131071 \<Longrightarrow> length (bytes_enc b) \<le> length b + 3"
  using leb128_3 [of "of_nat (length b)"] by (simp add: bytes_enc_def unat_of_nat)

lemma bh_marshal_length:
  assumes "length (bh_common_prefix bh) \<le> 65536" "length (bh_first_item bh) \<le> 65536"
  shows "length (bh_marshal bh []) \<le> 3 * MAX_INDEX_BLOCK_SIZE"
  using bytes_enc_length [of "bh_common_prefix bh"] bytes_enc_length [of "bh_first_item bh"] assms
  by (simp add: bh_marshal_def Let_def marshal_append MAX_INDEX_BLOCK_SIZE_def)

lemma update_sorted_ready:
  assumes "block_ok b"
  shows "ib_ready (update_common_prefix_sorted b)"
    "ib_strings (update_common_prefix_sorted b) = ib_strings b"
  using assms update_sorted_prefix [of b]
    ib_strings_cong [of "update_common_prefix_sorted b" b] ib_invar_cong [of "update_common_prefix_sorted b" b]
  by (simp_all add: ib_ready_def block_ok_def)

text \<open>What the writers hand to the streams: a stored form of the block.\<close>

lemma marshal_ready_stored:
  assumes "zstd_ok Z" "zstd_bounded Z" "ib_ready c" "[] \<notin> set (ib_strings c)"
    "length (ib_data c) \<le> MAX_INMEMORY_BLOCK_SIZE"
  shows "\<exists>sb fi cp n mt. ib_marshal_data Z c [] [] level = Some (sb, fi, cp, n, mt)
    \<and> (\<forall>bh. bh_first_item bh = fi \<and> bh_common_prefix bh = cp \<and> bh_items_count bh = n \<and> bh_marshal_type bh = mt
        \<and> bh_items_block_size bh = of_nat (length (items_data sb))
        \<and> bh_lens_block_size bh = of_nat (length (lens_data sb))
      \<longrightarrow> stored Z \<lparr>sb_h = bh, sb_items = items_data sb, sb_lens = lens_data sb, sb_strs = ib_strings c\<rparr>)"
proof -
  have inv: "ib_invar c" "ib_items c \<noteq> []" using assms(3) by (simp_all add: ib_ready_def)
  have "length (ib_strings c) = length (ib_items c)" by (simp add: ib_strings_def)
  then have n: "length (ib_items c) \<le> MAX_INMEMORY_BLOCK_SIZE"
    using assms(5) nonempty_count [OF assms(4)] ib_data_length [OF inv(1)] by simp
  then have n32: "length (ib_items c) < 2 ^ 32" by (simp add: MAX_INMEMORY_BLOCK_SIZE_def)
  obtain sb mt where m: "ib_marshal_data Z c [] [] level
      = Some (sb, ib_first c, common_prefix c, of_nat (length (ib_items c)), mt)"
    and rb: "reads_back Z c sb mt"
    using ib_marshal_reads_back [OF assms(1,3) n32, of "[]" "[]" level] by auto
  note sz = marshal_sizes [OF assms(2,3,5) n m]
  have un: "unat (of_nat (length (items_data sb)) :: u32) = length (items_data sb)"
    "unat (of_nat (length (lens_data sb)) :: u32) = length (lens_data sb)"
    using sz by (simp_all add: unat_of_nat MAX_INMEMORY_BLOCK_SIZE_def)
  have "unat (of_nat (length (ib_items c)) :: u32) = length (ib_items c)" using n32 by (simp add: unat_of_nat)
  then have nz: "(of_nat (length (ib_items c)) :: u32) \<noteq> 0" using inv(2) by (metis length_0_conv unat_0)
  have nl: "unat (of_nat (length (ib_items c)) :: u32) = length (ib_strings c)" using n32 by (simp add: unat_of_nat ib_strings_def)
  have hd: "ib_first c = hd (ib_strings c)" "ib_strings c \<noteq> []" using ib_strings_split(1) [OF assms(3)] by auto
  have len: "length (common_prefix c) \<le> 65536" "length (ib_first c) \<le> 65536"
    using block_lengths(2,3) [OF assms(3)] assms(5) by (simp_all add: MAX_INMEMORY_BLOCK_SIZE_def)
  have "stored Z \<lparr>sb_h = bh, sb_items = items_data sb, sb_lens = lens_data sb, sb_strs = ib_strings c\<rparr>"
    if h: "bh_first_item bh = ib_first c" "bh_common_prefix bh = common_prefix c"
        "bh_items_count bh = of_nat (length (ib_items c))" "bh_marshal_type bh = mt"
        "bh_items_block_size bh = of_nat (length (items_data sb))" "bh_lens_block_size bh = of_nat (length (lens_data sb))"
    for bh
  proof -
    have "bh_wf bh" using h sz un nz len by (simp add: bh_wf_def)
    moreover have "length (bh_marshal bh []) \<le> 3 * MAX_INDEX_BLOCK_SIZE" using h len by (intro bh_marshal_length) simp_all
    moreover obtain blk where blk: "ib_unmarshal_data Z \<lparr>items_data = items_data sb, lens_data = lens_data sb\<rparr>
        (ib_first c) (common_prefix c) (of_nat (length (ib_items c))) mt = Inr blk"
      "ib_strings blk = ib_strings c" "ib_invar blk" "common_prefix blk = common_prefix c"
      using rb unfolding reads_back_def by (cases sb) auto
    have "ib_items blk \<noteq> []" using arg_cong [OF blk(2), of length] hd(2) by (auto simp: ib_strings_def)
    with blk have "ib_ready blk" using assms(3) by (simp add: ib_ready_def)
    moreover have "mt = Plain" if "length (ib_strings c) = 1"
      using m that inv(2) n32 by (simp add: ib_marshal_data_def Let_def ib_strings_def)
    moreover have "\<forall>x \<in> set (ib_strings c). x = hd (ib_strings c)" if "items_data sb = []"
      using marshal_items_empty [OF assms(1,3,5) m that] hd(1) by simp
    ultimately show ?thesis using h un hd blk nl by (simp add: stored_def)
  qed
  with m show ?thesis by blast
qed

lemma marshal_sorted_stored:
  assumes "zstd_ok Z" "zstd_bounded Z" "block_ok b"
  shows "\<exists>c sb fi cp n mt. marshal_sorted_data Z b [] [] level = (c, Some (sb, fi, cp, n, mt))
    \<and> (\<forall>bh. bh_first_item bh = fi \<and> bh_common_prefix bh = cp \<and> bh_items_count bh = n \<and> bh_marshal_type bh = mt
        \<and> bh_items_block_size bh = of_nat (length (items_data sb))
        \<and> bh_lens_block_size bh = of_nat (length (lens_data sb))
      \<longrightarrow> stored Z \<lparr>sb_h = bh, sb_items = items_data sb, sb_lens = lens_data sb, sb_strs = ib_strings b\<rparr>)
    \<and> ib_strings c = ib_strings b"
proof -
  let ?c = "update_common_prefix_sorted b"
  note r = update_sorted_ready [OF assms(3)]
  have "[] \<notin> set (ib_strings ?c)" "length (ib_data ?c) \<le> MAX_INMEMORY_BLOCK_SIZE"
    using assms(3) r(2) by (simp_all add: block_ok_def)
  from marshal_ready_stored [OF assms(1,2) r(1) this, of level]
  show ?thesis unfolding marshal_sorted_data_def Let_def r(2) by (metis r(2))
qed

lemma length_hdr_bytes: "length ss \<le> length (hdr_bytes ss)"
proof (induction ss)
  case (Cons s ss)
  have "Suc 0 \<le> length (bh_marshal (sb_h s) [])" using bh_marshal_nonempty [of "sb_h s"] by (simp add: Suc_leI)
  moreover have "length (hdr_bytes (s # ss)) = length (bh_marshal (sb_h s) []) + length (hdr_bytes ss)"
    by (simp add: hdr_bytes_def)
  ultimately show ?case using Cons by simp
qed (simp add: hdr_bytes_def)

lemma hdr_bytes_Nil [simp]: "hdr_bytes ss = [] \<longleftrightarrow> ss = []"
  using bh_marshal_nonempty by (cases ss) (auto simp: hdr_bytes_def)

lemma flush_index_rep:
  assumes "zstd_ok Z" "zstd_bounded Z" "idx_rep Z w gs pend" "pend \<noteq> []"
  shows "\<exists>w' g. flush_index_data Z w = Some w' \<and> g_blocks g = pend \<and> idx_rep Z w' (gs @ [g]) []
    \<and> same_data w' w"
proof -
  have r: "list_all (group_ok Z) gs" "list_all (stored Z) pend"
    "metaindex_writer w = WMem []" "index_writer w = WMem (concat (map g_packed gs))"
    "unpacked_metaindex_buf w = concat (map (\<lambda>g. mr_marshal (g_row g) []) gs)"
    "unpacked_index_block_buf w = hdr_bytes pend" "length (hdr_bytes pend) \<le> 3 * MAX_INDEX_BLOCK_SIZE"
    "mr_block_headers_count (bsw_mr w) = of_nat (length pend)"
    "mr_first_item (bsw_mr w) = bh_first_item (sb_h (hd pend))"
    "index_block_offset w = of_nat (length (concat (map g_packed gs)))" "placed_index 0 gs"
    using assms(3,4) by (simp_all add: idx_rep_def)
  have l: "length (hdr_bytes pend) \<le> 196608" using r(7) by (simp add: MAX_INDEX_BLOCK_SIZE_def)
  then obtain p where p: "compress_zstd_level Z [] (hdr_bytes pend) (bsw_compress_level w) = Some p"
    "decompress_zstd Z [] p = Inr (hdr_bytes pend)"
    using compress_decompress [OF assms(1), of "hdr_bytes pend" "[]" "bsw_compress_level w" "[]"] by auto
  have "length p \<le> 196608 + 196608 div 256 + 64" using compress_bounded [OF assms(2) p(1)] l by linarith
  then have lp: "unat (of_nat (length p) :: u32) = length p" "length p \<le> 4 * MAX_INDEX_BLOCK_SIZE"
    by (simp_all add: unat_of_nat MAX_INDEX_BLOCK_SIZE_def)
  have np: "unat (of_nat (length pend) :: u32) = length pend" using length_hdr_bytes [of pend] l by (simp add: unat_of_nat)
  then have nz: "(of_nat (length pend) :: u32) \<noteq> 0" using assms(4) by (metis length_0_conv unat_0)
  have fi: "length (bh_first_item (sb_h (hd pend))) < 2 ^ 64"
  proof -
    have "stored Z (hd pend)" using r(2) assms(4) by (cases pend) simp_all
    then show ?thesis unfolding stored_def bh_wf_def by blast
  qed
  define mr where "mr = (bsw_mr w)\<lparr>mr_index_block_size := of_nat (length p), mr_index_block_offset := index_block_offset w\<rparr>"
  define g where "g = \<lparr>g_blocks = pend, g_packed = p, g_row = mr\<rparr>"
  have cast: "ucast (of_nat (length p) :: u32) = (of_nat (length p) :: u64)" using lp(1) by (metis of_nat_unat)
  have "group_ok Z g" using assms(4) r p lp np nz fi by (simp add: group_ok_def g_def mr_def mr_wf_def)
  define w' where "w' = w\<lparr>index_writer := WMem (concat (map g_packed gs) @ p),
      index_block_offset := index_block_offset w + ucast (of_nat (length p) :: u32),
      unpacked_index_block_buf := [], unpacked_metaindex_buf := mr_marshal mr (unpacked_metaindex_buf w),
      bsw_mr := mr_reset mr, mr_first_item_caught := False\<rparr>"
  have f: "flush_index_data Z w = Some w'"
    using assms(4) by (simp add: flush_index_data_def r p Let_def w'_def mr_def)
  have "idx_rep Z w' (gs @ [g]) []"
    using r \<open>group_ok Z g\<close> mr_marshal_append [of mr "concat (map (\<lambda>g. mr_marshal (g_row g) []) gs)"]
    by (simp add: idx_rep_def w'_def g_def mr_reset_def hdr_bytes_def placed_index_snoc mr_def cast)
  with f show ?thesis by (intro exI [of _ w'] exI [of _ g]) (simp add: g_def w'_def same_data_def)
qed

lemma hdr_bytes_snoc: "hdr_bytes (ss @ [s]) = hdr_bytes ss @ bh_marshal (sb_h s) []"
  by (simp add: hdr_bytes_def)

lemma count_header_rep:
  assumes "idx_rep Z w gs pend" "stored Z s" "length (hdr_bytes (pend @ [s])) \<le> 3 * MAX_INDEX_BLOCK_SIZE"
  shows "idx_rep Z (count_header (w\<lparr>unpacked_index_block_buf := hdr_bytes (pend @ [s])\<rparr>) (sb_h s)) gs (pend @ [s])"
  using assms by (cases "pend = []") (simp_all add: idx_rep_def count_header_def Let_def)

lemma count_header_frame: "same_data v w \<Longrightarrow> same_data (count_header (v\<lparr>unpacked_index_block_buf := b\<rparr>) bh) w"
  by (simp add: count_header_def Let_def same_data_def)

lemma same_data_refl [simp]: "same_data w w"
  by (simp add: same_data_def)

lemma write_header_rep:
  assumes "zstd_ok Z" "zstd_bounded Z" "idx_rep Z w gs pend" "stored Z s"
  shows "\<exists>w' gs' pend'. write_header Z w (sb_h s) = Some w' \<and> idx_rep Z w' gs' pend'
    \<and> all_blocks gs' pend' = all_blocks gs pend @ [s]
    \<and> same_data w' w"
proof -
  have buf: "unpacked_index_block_buf w = hdr_bytes pend" using assms(3) by (simp add: idx_rep_def)
  have m: "bh_marshal (sb_h s) (hdr_bytes ss) = hdr_bytes (ss @ [s])" for ss
    using bh_marshal_append [of "sb_h s" "hdr_bytes ss"] by (simp add: hdr_bytes_snoc)
  have single: "length (hdr_bytes ([] @ [s])) \<le> 3 * MAX_INDEX_BLOCK_SIZE"
    using assms(4) by (simp add: hdr_bytes_def stored_def)
  show ?thesis
  proof (cases "length (hdr_bytes (pend @ [s])) > MAX_INDEX_BLOCK_SIZE")
    case False
    then have "write_header Z w (sb_h s) = Some (count_header (w\<lparr>unpacked_index_block_buf := hdr_bytes (pend @ [s])\<rparr>) (sb_h s))"
      by (simp add: write_header_def buf m count_header_def Let_def)
    moreover have "idx_rep Z (count_header (w\<lparr>unpacked_index_block_buf := hdr_bytes (pend @ [s])\<rparr>) (sb_h s)) gs (pend @ [s])"
      using count_header_rep [OF assms(3,4)] False by simp
    ultimately show ?thesis
      by (intro exI conjI) (assumption | simp add: all_blocks_def count_header_frame)+
  next
    case True
    obtain w' gs' where w': "flush_index_data Z w = Some w'" "idx_rep Z w' gs' []" "all_blocks gs' [] = all_blocks gs pend"
      "same_data w' w"
    proof (cases "pend = []")
      case True
      then show ?thesis using assms(3) buf by (intro that [of w gs]) (simp_all add: flush_index_data_def)
    next
      case False
      then obtain w' g where f: "flush_index_data Z w = Some w'" "g_blocks g = pend" "idx_rep Z w' (gs @ [g]) []"
        "same_data w' w"
        using flush_index_rep [OF assms(1-3)] by blast
      show ?thesis by (rule that [OF f(1,3) _ f(4)]) (simp add: all_blocks_def f(2))
    qed
    have m0: "bh_marshal (sb_h s) [] = hdr_bytes [s]" by (simp add: hdr_bytes_def)
    have b0: "unpacked_index_block_buf w' = []" using w'(2) by (simp add: idx_rep_def hdr_bytes_def)
    have "write_header Z w (sb_h s) = Some (count_header (w'\<lparr>unpacked_index_block_buf := hdr_bytes ([] @ [s])\<rparr>) (sb_h s))"
      using True by (simp add: write_header_def buf m m0 b0 w'(1) count_header_def Let_def)
    moreover note count_header_rep [OF w'(2) assms(4) single]
    moreover have "all_blocks gs' ([] @ [s]) = all_blocks gs pend @ [s]"
      using w'(3) by (simp add: all_blocks_def)
    ultimately show ?thesis
      using count_header_frame [OF w'(4)] by (intro exI conjI) (assumption | simp)+
  qed
qed

lemma write_block_rep:
  assumes "zstd_ok Z" "zstd_bounded Z" "bsw_rep Z w ss" "block_ok b"
  shows "\<exists>w' b' s. write_block Z w b = Some (w', b') \<and> bsw_rep Z w' (ss @ [s])
    \<and> sb_strs s = ib_strings b \<and> ib_strings b' = ib_strings b"
proof -
  obtain c sb fi cp n mt where m: "marshal_sorted_data Z b [] [] (bsw_compress_level w) = (c, Some (sb, fi, cp, n, mt))"
    "ib_strings c = ib_strings b"
    and st: "\<And>bh. bh_first_item bh = fi \<and> bh_common_prefix bh = cp \<and> bh_items_count bh = n \<and> bh_marshal_type bh = mt
        \<and> bh_items_block_size bh = of_nat (length (items_data sb))
        \<and> bh_lens_block_size bh = of_nat (length (lens_data sb))
      \<Longrightarrow> stored Z \<lparr>sb_h = bh, sb_items = items_data sb, sb_lens = lens_data sb, sb_strs = ib_strings b\<rparr>"
    using marshal_sorted_stored [OF assms(1,2,4)] by metis
  obtain gs pend where r: "ss = all_blocks gs pend" "idx_rep Z w gs pend"
    "items_writer w = WMem (concat (map sb_items ss))" "lens_writer w = WMem (concat (map sb_lens ss))"
    "items_block_offset w = of_nat (length (concat (map sb_items ss)))"
    "lens_block_offset w = of_nat (length (concat (map sb_lens ss)))" "placed_blocks 0 0 ss"
    using assms(3) unfolding bsw_rep_def by blast
  define bh where "bh = (bsw_bh w)\<lparr>bh_first_item := fi, bh_common_prefix := cp, bh_items_count := n,
      bh_marshal_type := mt, bh_items_block_size := of_nat (length (items_data sb)),
      bh_items_block_offset := items_block_offset w,
      bh_lens_block_size := of_nat (length (lens_data sb)), bh_lens_block_offset := lens_block_offset w\<rparr>"
  define s where "s = \<lparr>sb_h = bh, sb_items = items_data sb, sb_lens = lens_data sb, sb_strs = ib_strings b\<rparr>"
  define v where "v = w\<lparr>items_writer := WMem (concat (map sb_items ss) @ items_data sb),
      lens_writer := WMem (concat (map sb_lens ss) @ lens_data sb), bsw_bh := bh,
      items_block_offset := items_block_offset w + ucast (of_nat (length (items_data sb)) :: u32),
      lens_block_offset := lens_block_offset w + ucast (of_nat (length (lens_data sb)) :: u32)\<rparr>"
  have sts: "stored Z s" unfolding s_def by (rule st) (simp add: bh_def)
  then have "unat (of_nat (length (items_data sb)) :: u32) = length (items_data sb)"
    "unat (of_nat (length (lens_data sb)) :: u32) = length (lens_data sb)" by (simp_all add: stored_def s_def bh_def)
  then have cast: "ucast (of_nat (length (items_data sb)) :: u32) = (of_nat (length (items_data sb)) :: u64)"
    "ucast (of_nat (length (lens_data sb)) :: u32) = (of_nat (length (lens_data sb)) :: u64)" by (metis of_nat_unat)+
  have "bh_items_block_offset (sb_h s) = items_block_offset w" "bh_lens_block_offset (sb_h s) = lens_block_offset w"
    by (simp_all add: s_def bh_def)
  then have pl: "placed_blocks 0 0 (ss @ [s])" using r(5-7) by (simp add: placed_blocks_snoc)
  have "idx_rep Z v gs pend" using r(2) by (simp add: idx_rep_def v_def)
  with sts obtain w' gs' pend' where w': "write_header Z v bh = Some w'" "idx_rep Z w' gs' pend'"
    "all_blocks gs' pend' = ss @ [s]" "same_data w' v"
    using write_header_rep [OF assms(1,2), of v gs pend s] r(1) by (auto simp: s_def)
  have "write_block Z w b = Some (w', c)"
    using w'(1) by (simp add: write_block_def m r(3,4) Let_def flip: bh_def) (simp add: v_def)
  moreover have "bsw_rep Z w' (ss @ [s])"
    using w' pl unfolding bsw_rep_def
    by (intro conjI exI [of _ gs'] exI [of _ pend']) (simp_all add: same_data_def v_def s_def r(5,6) cast)
  ultimately show ?thesis using m(2) by (intro exI [of _ w'] exI [of _ c] exI [of _ s]) (simp add: s_def)
qed

lemma stream_read:
  assumes "stream_at s (a @ b)"
  shows "\<exists>s'. sr_must_read s (length a) = Some (s', a) \<and> stream_at s' b"
proof -
  obtain buf pos where s: "s = RMem buf pos" "pos \<le> length buf" "drop pos buf = a @ b"
    using assms by (auto simp: stream_at_def)
  have "length buf - pos = length a + length b"
    using arg_cong [OF s(3), of length] by (simp only: length_drop length_append)
  moreover have "drop (pos + length a) buf = b" using s(3) drop_append_length by blast
  ultimately show ?thesis using s by (simp add: stream_at_def subslice_def)
qed

lemma mr_marshal_length:
  assumes "group_ok Z g"
  shows "length (mr_marshal (g_row g) []) \<le> 196624"
proof -
  have "stored Z (hd (g_blocks g))" using assms by (cases "g_blocks g") (simp_all add: group_ok_def)
  then have "length (bh_marshal (sb_h (hd (g_blocks g))) []) \<le> 196608"
    unfolding stored_def MAX_INDEX_BLOCK_SIZE_def by simp
  moreover have "mr_first_item (g_row g) = bh_first_item (sb_h (hd (g_blocks g)))"
    using assms by (simp add: group_ok_def)
  ultimately show ?thesis by (simp add: bh_marshal_def mr_marshal_def marshal_append Let_def)
qed

lemma metaindex_length: "list_all (group_ok Z) gs \<Longrightarrow>
    length (concat (map (\<lambda>g. mr_marshal (g_row g) []) gs)) \<le> 196624 * length gs"
proof (induction gs)
  case (Cons g gs)
  then show ?case using mr_marshal_length [of Z g] by simp
qed simp

lemma groups_count: "list_all (group_ok Z) gs \<Longrightarrow> length gs \<le> length (concat (map g_blocks gs))"
proof (induction gs)
  case (Cons g gs)
  then have "g_blocks g \<noteq> []" by (simp add: group_ok_def)
  with Cons show ?case by (cases "g_blocks g") simp_all
qed simp

lemma must_close_rep:
  assumes "zstd_ok Z" "zstd_bounded Z" "bsw_rep Z w ss" "length ss < 2 ^ 40"
  shows "\<exists>w' bufs gs. bsw_must_close Z w = Some (w', bufs) \<and> part_rep Z bufs gs
    \<and> ss = concat (map g_blocks gs)"
proof -
  obtain gs pend where r: "ss = all_blocks gs pend" "idx_rep Z w gs pend"
    "items_writer w = WMem (concat (map sb_items ss))" "lens_writer w = WMem (concat (map sb_lens ss))" "placed_blocks 0 0 ss"
    using assms(3) unfolding bsw_rep_def by blast
  obtain v gs' where v: "flush_index_data Z w = Some v" "idx_rep Z v gs' []" "concat (map g_blocks gs') = ss" "same_data v w"
  proof (cases "pend = []")
    case True
    then show ?thesis using r by (intro that [of w gs]) (simp_all add: flush_index_data_def idx_rep_def all_blocks_def)
  next
    case False
    then obtain w' g where f: "flush_index_data Z w = Some w'" "g_blocks g = pend" "idx_rep Z w' (gs @ [g]) []"
      "same_data w' w"
      using flush_index_rep [OF assms(1,2) r(2)] by blast
    show ?thesis by (rule that [OF f(1,3) _ f(4)]) (simp add: all_blocks_def f(2) r(1))
  qed
  let ?m = "concat (map (\<lambda>g. mr_marshal (g_row g) []) gs')"
  have g: "list_all (group_ok Z) gs'" "placed_index 0 gs'" using v(2) by (simp_all add: idx_rep_def)
  have "length ?m < 2 ^ 64" using metaindex_length [OF g(1)] groups_count [OF g(1)] assms(4) v(3) by simp
  then obtain p where p: "compress_zstd_level Z [] ?m (bsw_compress_level v) = Some p"
    "decompress_zstd Z [] p = Inr ?m"
    using compress_decompress [OF assms(1), of ?m "[]" "bsw_compress_level v" "[]"] by auto
  have "\<exists>w'. bsw_must_close Z w = Some (w', p, concat (map g_packed gs'), concat (map sb_items ss), concat (map sb_lens ss))"
    using v r p by (simp add: bsw_must_close_def idx_rep_def same_data_def)
  with v(3) g p(2) r(5) show ?thesis by (auto simp: part_rep_def Let_def)
qed

lemma sorted_heads:
  assumes "sorted (concat xss)" "\<forall>xs \<in> set xss. xs \<noteq> []"
  shows "sorted (map hd xss)"
  using assms
proof (induction xss)
  case (Cons xs xss)
  have "hd xs \<le> hd ys" if "ys \<in> set xss" for ys
    using that Cons.prems by (auto simp: sorted_append intro: hd_in_set)
  with Cons show ?case by (simp add: sorted_append)
qed simp

lemma groups_sorted:
  assumes "list_all (group_ok Z) gs" "sorted (map (\<lambda>s. bh_first_item (sb_h s)) (concat (map g_blocks gs)))"
  shows "list_all group_sorted gs" "sorted (map (\<lambda>g. mr_first_item (g_row g)) gs)"
proof -
  let ?f = "\<lambda>s. bh_first_item (sb_h s)"
  let ?xss = "map (\<lambda>g. map ?f (g_blocks g)) gs"
  have c: "map ?f (concat (map g_blocks gs)) = concat ?xss" by (simp add: map_concat comp_def)
  have "sorted (map ?f (g_blocks g))" if "g \<in> set gs" for g
    using assms(2) that by (induction gs) (auto simp: sorted_append)
  then show "list_all group_sorted gs" by (simp add: list_all_iff group_sorted_def)
  have "sorted (map hd ?xss)" using assms c by (intro sorted_heads) (auto simp: list_all_iff group_ok_def)
  moreover have "map hd ?xss = map (\<lambda>g. mr_first_item (g_row g)) gs"
    using assms(1) by (auto simp: list_all_iff group_ok_def hd_map)
  ultimately show "sorted (map (\<lambda>g. mr_first_item (g_row g)) gs)" by (simp only:)
qed

lemma from_part_rep:
  assumes "part_rep Z bufs gs" "bs = map sb_strs (concat (map g_blocks gs))" "ph_ok ph bs"
    "sorted (map (\<lambda>s. bh_first_item (sb_h s)) (concat (map g_blocks gs)))"
  shows "\<exists>r. bsr_from_inmemory_part Z (mp_from_buffers ph bufs) = Some r \<and> bsr_rep Z r bs"
proof -
  obtain m idx its l where b: "bufs = (m, idx, its, l)" by (cases bufs)
  have p: "list_all (group_ok Z) gs" "idx = concat (map g_packed gs)"
    "its = concat (map sb_items (concat (map g_blocks gs)))" "l = concat (map sb_lens (concat (map g_blocks gs)))"
    "decompress_zstd Z [] m = Inr (concat (map (\<lambda>g. mr_marshal (g_row g) []) gs))"
    using assms(1) by (simp_all add: part_rep_def b Let_def)
  note gs = groups_sorted [OF p(1) assms(4)]
  have ne: "gs \<noteq> []" using assms(2,3) by (auto simp: ph_ok_def)
  have "unmarshal_metaindex_rows Z m = Inr (map g_row gs)"
    by (rule unmarshal_rows_marshal) (use p ne gs(2) in \<open>simp_all add: list_all_iff group_ok_def comp_def\<close>)
  moreover have "sum_list (map length bs) > 0"
  proof -
    have "stored Z (hd (g_blocks (hd gs)))" "g_blocks (hd gs) \<noteq> []"
      using p(1) ne by (cases gs; auto simp: group_ok_def list_all_iff)+
    then have "hd bs \<noteq> []" using ne assms(2) by (cases gs) (auto simp: stored_def hd_append hd_map)
    then show ?thesis using assms(3) by (cases bs) (auto simp: ph_ok_def)
  qed
  then have "ph_items_count ph > 0" "ph_blocks_count ph > 0"
    using assms(3) unfolding ph_ok_def by (metis length_greater_0_conv less_irrefl unat_0 word_gt_0)+
  ultimately have "bsr_from_inmemory_part Z (mp_from_buffers ph bufs)
      = Some (bsr_new_empty\<lparr>bsr_mrs := map g_row gs, bsr_ph := ph, index_reader := RMem idx 0,
          items_reader := RMem its 0, lens_reader := RMem l 0\<rparr>)"
    by (simp add: bsr_from_inmemory_part_def mp_from_buffers_def b ph_copy_from_def Let_def ph_default_def)
  moreover have "src_rep Z (bsr_new_empty\<lparr>bsr_mrs := map g_row gs, bsr_ph := ph, index_reader := RMem idx 0,
          items_reader := RMem its 0, lens_reader := RMem l 0\<rparr>) bs [] gs"
    using assms(2) p gs by (simp add: src_rep_def bsr_new_empty_def stream_at_def)
  moreover have "chk_rep (bsr_new_empty\<lparr>bsr_mrs := map g_row gs, bsr_ph := ph, index_reader := RMem idx 0,
          items_reader := RMem its 0, lens_reader := RMem l 0\<rparr>) bs"
    using assms(3) by (simp add: chk_rep_def bsr_new_empty_def ph_ok_def)
  ultimately show ?thesis unfolding bsr_rep_def by blast
qed

lemma headers_of_group:
  assumes "group_ok Z g" "group_sorted g"
  shows "unmarshal_block_headers [] (hdr_bytes (g_blocks g)) (length (g_blocks g)) = Inr (map sb_h (g_blocks g))"
  using unmarshal_headers_marshal [of "map sb_h (g_blocks g)" "[]"] assms
  by (simp add: group_ok_def group_sorted_def hdr_bytes_def list_all_iff stored_def comp_def)

lemma drop_Suc_map: "drop i xs = map f (y # ys) \<Longrightarrow> i < length xs \<and> xs ! i = f y \<and> drop (Suc i) xs = map f ys"
  using drop_nth_facts [of i xs "f y" "map f ys"] by simp

lemma read_next_bhs_rep:
  assumes "src_rep Z r bs [] (g # gs)"
  shows "\<exists>x. read_next_bhs Z r = Some (r\<lparr>mr_idx := mr_idx r + 1, index_reader := x,
        bsr_bhs := map sb_h (g_blocks g), bh_idx := 0\<rparr>, None)
    \<and> src_rep Z (r\<lparr>mr_idx := mr_idx r + 1, index_reader := x, bsr_bhs := map sb_h (g_blocks g), bh_idx := 0\<rparr>)
        bs (g_blocks g) gs"
proof -
  have s: "group_ok Z g" "group_sorted g" "list_all (group_ok Z) gs" "list_all group_sorted gs"
    "bs = map sb_strs (g_blocks g @ concat (map g_blocks gs))"
    "stream_at (items_reader r) (concat (map sb_items (g_blocks g @ concat (map g_blocks gs))))"
    "stream_at (lens_reader r) (concat (map sb_lens (g_blocks g @ concat (map g_blocks gs))))"
    "stream_at (index_reader r) (g_packed g @ concat (map g_packed gs))"
    "drop (mr_idx r) (bsr_mrs r) = map g_row (g # gs)"
    using assms by (simp_all add: src_rep_def)
  obtain x where x: "sr_must_read (index_reader r) (length (g_packed g)) = Some (x, g_packed g)"
    "stream_at x (concat (map g_packed gs))" using stream_read [OF s(8)] by blast
  note d = drop_Suc_map [OF s(9)]
  have g: "decompress_zstd Z [] (g_packed g) = Inr (hdr_bytes (g_blocks g))"
    "unat (mr_index_block_size (g_row g)) = length (g_packed g)"
    "unat (mr_block_headers_count (g_row g)) = length (g_blocks g)"
    "list_all (stored Z) (g_blocks g)" using s(1) by (simp_all add: group_ok_def)
  have "read_next_bhs Z r = Some (r\<lparr>mr_idx := mr_idx r + 1, index_reader := x,
        bsr_bhs := map sb_h (g_blocks g), bh_idx := 0\<rparr>, None)"
    using d x by (simp add: read_next_bhs_def Let_def g headers_of_group [OF s(1,2)])
  moreover have "src_rep Z (r\<lparr>mr_idx := mr_idx r + 1, index_reader := x, bsr_bhs := map sb_h (g_blocks g), bh_idx := 0\<rparr>)
        bs (g_blocks g) gs"
    using s(3-7) x(2) d g(4) by (simp add: src_rep_def)
  ultimately show ?thesis by blast
qed

lemma blocks_read_step:
  assumes "unat (n :: u64) + length (b # bs) \<le> unat m"
  shows "\<not> n + 1 > m" "unat (n + 1) = unat n + 1"
proof -
  have "unat n + 1 < 2 ^ 64" using assms unsigned_less [of m, where ?'a = nat] by simp
  then show "unat (n + 1) = unat n + 1" by (simp add: unat_word_ariths)
  then show "\<not> n + 1 > m" using assms by (simp add: word_less_nat_alt)
qed

lemma items_read_step:
  assumes "unat (n :: u64) + sum_list (map length (b # bs)) \<le> unat m"
  shows "\<not> n + of_nat (length b) > m" "unat (n + of_nat (length b)) = unat n + length b"
proof -
  have l: "unat n + length b < 2 ^ 64" using assms unsigned_less [of m, where ?'a = nat] by simp
  then have "unat (of_nat (length b) :: u64) = length b" by (simp add: unat_of_nat)
  with l show "unat (n + of_nat (length b)) = unat n + length b" by (simp add: unat_word_ariths)
  then show "\<not> n + of_nat (length b) > m" using assms by (simp add: word_less_nat_alt)
qed

lemma last_item_eq: "ib_items b \<noteq> [] \<Longrightarrow>
    item_bytes (ib_items b ! (length (ib_items b) - 1)) (ib_data b) = last (ib_strings b)"
  by (simp add: ib_strings_def last_map last_conv_nth)

lemma first_item_eq: "ib_items b \<noteq> [] \<Longrightarrow> item_bytes (ib_items b ! 0) (ib_data b) = hd (ib_strings b)"
  by (cases "ib_items b") (simp_all add: ib_strings_def)

lemma read_block_rep:
  assumes "src_rep Z r bs (s # cur) gs" "chk_rep r bs"
  shows "\<exists>r'. read_block Z r = Some (r', True) \<and> src_rep Z r' (tl bs) cur gs \<and> chk_rep r' (tl bs)
    \<and> ib_strings (bsr_block r') = hd bs \<and> ib_invar (bsr_block r') \<and> curr_item_idx r' = 0"
proof -
  let ?ss = "cur @ concat (map g_blocks gs)"
  have a: "stored Z s" "list_all (stored Z) cur" "list_all (group_ok Z) gs" "list_all group_sorted gs"
    "bs = sb_strs s # map sb_strs ?ss"
    "stream_at (items_reader r) (sb_items s @ concat (map sb_items ?ss))"
    "stream_at (lens_reader r) (sb_lens s @ concat (map sb_lens ?ss))"
    "stream_at (index_reader r) (concat (map g_packed gs))"
    "drop (bh_idx r) (bsr_bhs r) = map sb_h (s # cur)" "drop (mr_idx r) (bsr_mrs r) = map g_row gs"
    using assms(1) by (simp_all add: src_rep_def)
  obtain ir lr where rd: "sr_must_read (items_reader r) (length (sb_items s)) = Some (ir, sb_items s)"
    "stream_at ir (concat (map sb_items ?ss))"
    "sr_must_read (lens_reader r) (length (sb_lens s)) = Some (lr, sb_lens s)"
    "stream_at lr (concat (map sb_lens ?ss))"
    using stream_read [OF a(6)] stream_read [OF a(7)] by blast
  note d = drop_Suc_map [OF a(9)]
  obtain blk where blk: "ib_unmarshal_data Z \<lparr>items_data = sb_items s, lens_data = sb_lens s\<rparr>
           (bh_first_item (sb_h s)) (bh_common_prefix (sb_h s)) (bh_items_count (sb_h s))
           (bh_marshal_type (sb_h s)) = Inr blk" "ib_strings blk = sb_strs s" "ib_ready blk"
    and sz: "unat (bh_items_block_size (sb_h s)) = length (sb_items s)"
      "unat (bh_lens_block_size (sb_h s)) = length (sb_lens s)" "sb_strs s \<noteq> []"
    using a(1) unfolding stored_def by blast
  have inv: "ib_invar blk" using blk(3) by (simp add: ib_ready_def)
  have n: "length (ib_items blk) = length (sb_strs s)" "ib_items blk \<noteq> []"
    using arg_cong [OF blk(2), of length] sz(3) unfolding ib_strings_def by auto
  have c: "unat (blocks_read r) + length (sb_strs s # map sb_strs ?ss) \<le> unat (ph_blocks_count (bsr_ph r))"
    "unat (items_read r) + sum_list (map length (sb_strs s # map sb_strs ?ss)) \<le> unat (ph_items_count (bsr_ph r))"
    "first_item_checked r \<or> ph_first_item (bsr_ph r) = hd (sb_strs s)"
    using assms(2) unfolding chk_rep_def a(5) by auto
  note st = blocks_read_step [OF c(1)] items_read_step [OF c(2)]
  define r' where "r' = r\<lparr>bh_idx := bh_idx r + 1, items_reader := ir, lens_reader := lr, bsr_block := blk,
      blocks_read := blocks_read r + 1, curr_item_idx := 0,
      items_read := items_read r + of_nat (length (sb_strs s)), first_item_checked := True\<rparr>"
  have "read_block Z r = Some (r', True)"
    using d rd(1,3) c(3) first_item_eq [OF n(2)] st
    by (cases "first_item_checked r") (simp_all add: read_block_def Let_def sz blk n(1) r'_def)
  moreover have "src_rep Z r' (tl bs) cur gs" using a d rd by (simp add: src_rep_def r'_def)
  moreover have "chk_rep r' (tl bs)"
    using assms(2) a(5) c st blk(2) n(2) by (simp add: chk_rep_def r'_def)
  ultimately show ?thesis using blk inv a(5) by (intro exI [of _ r']) (simp add: r'_def)
qed

lemma next_rep_Cons:
  assumes "bsr_rep Z r (b # bs)"
  shows "\<exists>r'. bsr_next Z r = Some (r', True) \<and> bsr_rep Z r' bs
    \<and> ib_strings (bsr_block r') = b \<and> ib_invar (bsr_block r') \<and> curr_item_idx r' = 0"
proof -
  obtain cur gs where s: "src_rep Z r (b # bs) cur gs" and c: "chk_rep r (b # bs)"
    using assms unfolding bsr_rep_def by blast
  have e: "bsr_error r = None" "\<not> is_inmemory_block r" using c by (simp_all add: chk_rep_def)
  show ?thesis
  proof (cases cur)
    case (Cons x cur')
    have "drop (bh_idx r) (bsr_bhs r) = map sb_h (x # cur')" using s Cons by (simp add: src_rep_def)
    from drop_Suc_map [OF this] have "bh_idx r < length (bsr_bhs r)" by simp
    then have "bsr_next Z r = read_block Z r" using e by (simp add: bsr_next_def)
    with read_block_rep [OF s [unfolded Cons] c, unfolded list.sel] show ?thesis
      unfolding bsr_rep_def by (elim exE conjE, intro exI conjI) (assumption | simp only:)+
  next
    case Nil
    have "drop (bh_idx r) (bsr_bhs r) = []" using s Nil by (simp add: src_rep_def)
    then have i: "bh_idx r \<ge> length (bsr_bhs r)" by simp
    obtain g gs' where g: "gs = g # gs'" using s Nil by (cases gs) (simp_all add: src_rep_def)
    obtain x where x: "read_next_bhs Z r = Some (r\<lparr>mr_idx := mr_idx r + 1, index_reader := x,
        bsr_bhs := map sb_h (g_blocks g), bh_idx := 0\<rparr>, None)"
      "src_rep Z (r\<lparr>mr_idx := mr_idx r + 1, index_reader := x, bsr_bhs := map sb_h (g_blocks g), bh_idx := 0\<rparr>)
        (b # bs) (g_blocks g) gs'"
      using read_next_bhs_rep [OF s [unfolded Nil g]] by blast
    let ?r = "r\<lparr>mr_idx := mr_idx r + 1, index_reader := x, bsr_bhs := map sb_h (g_blocks g), bh_idx := 0\<rparr>"
    have "g_blocks g \<noteq> []" using s by (simp add: src_rep_def g group_ok_def)
    then obtain y ys where y: "g_blocks g = y # ys" by (cases "g_blocks g") auto
    have "chk_rep ?r (b # bs)" using c by (simp add: chk_rep_def)
    from read_block_rep [OF x(2) [unfolded y] this [unfolded y], unfolded list.sel]
    have "\<exists>r'. read_block Z ?r = Some (r', True) \<and> bsr_rep Z r' bs
        \<and> ib_strings (bsr_block r') = b \<and> ib_invar (bsr_block r') \<and> curr_item_idx r' = 0"
      unfolding bsr_rep_def y by blast
    moreover have "bsr_next Z r = read_block Z ?r" using e i x(1) by (simp add: bsr_next_def)
    ultimately show ?thesis by simp
  qed
qed

lemma next_rep_Nil:
  assumes "bsr_rep Z r []"
  shows "\<exists>r'. bsr_next Z r = Some (r', False) \<and> bsr_err_msg r' = None"
proof -
  obtain cur gs where s: "src_rep Z r [] cur gs" and c: "chk_rep r []"
    using assms unfolding bsr_rep_def by blast
  have e: "bsr_error r = None" "\<not> is_inmemory_block r" "ib_items (bsr_block r) \<noteq> []"
    "ph_last_item (bsr_ph r) = last (ib_strings (bsr_block r))" using c by (simp_all add: chk_rep_def)
  have "cur = []" "\<forall>g \<in> set gs. g_blocks g = []" using s by (auto simp: src_rep_def)
  moreover have "list_all (group_ok Z) gs" using s by (simp add: src_rep_def)
  ultimately have "gs = []" "cur = []" by (cases gs; simp add: group_ok_def)+
  then have "drop (bh_idx r) (bsr_bhs r) = []" "drop (mr_idx r) (bsr_mrs r) = []"
    using s by (simp_all add: src_rep_def)
  then show ?thesis using e last_item_eq [OF e(3)]
    by (simp add: bsr_next_def read_next_bhs_def bsr_err_msg_def Let_def)
qed

lemma write_blocks_rep:
  assumes "zstd_ok Z" "zstd_bounded Z" "bsw_rep Z w ss" "list_all block_ok bs"
  shows "\<exists>w' ts. write_blocks Z w bs = Some w' \<and> bsw_rep Z w' (ss @ ts) \<and> map sb_strs ts = map ib_strings bs"
  using assms(3,4)
proof (induction bs arbitrary: w ss)
  case Nil
  then show ?case by (intro exI [of _ w] exI [of _ "[]"]) simp
next
  case (Cons b bs)
  obtain w1 b1 s where w1: "write_block Z w b = Some (w1, b1)" "bsw_rep Z w1 (ss @ [s])" "sb_strs s = ib_strings b"
    using write_block_rep [OF assms(1,2) Cons.prems(1)] Cons.prems(2) by force
  obtain w' ts where "write_blocks Z w1 bs = Some w'" "bsw_rep Z w' ((ss @ [s]) @ ts)" "map sb_strs ts = map ib_strings bs"
    using Cons.IH [OF w1(2)] Cons.prems(2) by auto
  with w1 show ?case by (intro exI [of _ w'] exI [of _ "s # ts"]) simp
qed

lemma bsw_new_rep: "bsw_rep Z (bsw_new_inmemory_part level) []"
proof -
  have "idx_rep Z (bsw_new_inmemory_part level) [] []"
    by (simp add: idx_rep_def bsw_new_inmemory_part_def hdr_bytes_def mr_default_def)
  then have "\<exists>gs pend. [] = all_blocks gs pend \<and> idx_rep Z (bsw_new_inmemory_part level) gs pend"
    by (intro exI [of _ "[]"]) (simp add: all_blocks_def)
  then show ?thesis unfolding bsw_rep_def by (simp add: bsw_new_inmemory_part_def)
qed

text \<open>
  The interface a consumer of blocks relies on: a description of the blocks still to come, which
  \<open>next\<close> follows block by block, and a clean end after the last one.
\<close>

locale block_source =
  fixes nxt :: "'r \<Rightarrow> ('r \<times> bool) option"
    and blk :: "'r \<Rightarrow> 'b"
    and failed :: "'r \<Rightarrow> bool"
    and rep :: "'r \<Rightarrow> 'b list \<Rightarrow> bool"
  assumes nxt_block: "rep r (b # bs) \<Longrightarrow> \<exists>r'. nxt r = Some (r', True) \<and> rep r' bs \<and> blk r' = b"
    and nxt_end: "rep r [] \<Longrightarrow> \<exists>r'. nxt r = Some (r', False) \<and> \<not> failed r'"
begin

lemma drain_rep: "rep r bs \<Longrightarrow> length bs < n \<Longrightarrow> drain nxt blk failed n r = Some bs"
proof (induction bs arbitrary: r n)
  case Nil
  then obtain k where "n = Suc k" by (cases n) auto
  then show ?case using nxt_end [OF Nil(1)] by auto
next
  case (Cons b bs)
  then obtain k where n: "n = Suc k" "length bs < k" by (cases n) auto
  obtain r' where "nxt r = Some (r', True)" "rep r' bs" "blk r' = b" using nxt_block [OF Cons.prems(1)] by blast
  then show ?case using Cons.IH [of r' k] n by simp
qed

lemma rep_unique:
  assumes "rep r bs" "rep r cs"
  shows "bs = cs"
  using drain_rep [OF assms(1), of "Suc (max (length bs) (length cs))"]
    drain_rep [OF assms(2), of "Suc (max (length bs) (length cs))"] by simp

end

interpretation part_reader: block_source "bsr_next Z" "\<lambda>r. ib_strings (bsr_block r)" "\<lambda>r. bsr_err_msg r \<noteq> None" "bsr_rep Z"
proof
  show "\<exists>r'. bsr_next Z r = Some (r', True) \<and> bsr_rep Z r' bs \<and> ib_strings (bsr_block r') = b"
    if "bsr_rep Z r (b # bs)" for r b bs using next_rep_Cons [OF that] by blast
  show "\<exists>r'. bsr_next Z r = Some (r', False) \<and> \<not> bsr_err_msg r' \<noteq> None" if "bsr_rep Z r []" for r
    using next_rep_Nil [OF that] by simp
qed

lemma read_blocks_rep: "bsr_rep Z r bs \<Longrightarrow> length bs < n \<Longrightarrow> read_blocks Z n r = Some bs"
  unfolding read_blocks_def by (rule part_reader.drain_rep)

lemma stored_first: "list_all (stored Z) ss \<Longrightarrow> map (\<lambda>s. bh_first_item (sb_h s)) ss = map hd (map sb_strs ss)"
  by (induction ss) (simp_all add: stored_def)

lemma groups_stored: "list_all (group_ok Z) gs \<Longrightarrow> list_all (stored Z) (concat (map g_blocks gs))"
  by (induction gs) (simp_all add: group_ok_def)

lemma part_read:
  assumes "part_rep Z bufs gs" "bs = map sb_strs (concat (map g_blocks gs))" "ph_ok ph bs" "sorted (map hd bs)"
  shows "\<exists>r. bsr_from_inmemory_part Z (mp_from_buffers ph bufs) = Some r \<and> bsr_rep Z r bs"
proof -
  have "list_all (group_ok Z) gs" using assms(1) by (auto simp: part_rep_def Let_def split: prod.splits)
  from stored_first [OF groups_stored [OF this]] assms(4)
  have "sorted (map (\<lambda>s. bh_first_item (sb_h s)) (concat (map g_blocks gs)))" by (simp only: assms(2))
  with assms(1-3) show ?thesis by (rule from_part_rep)
qed

section \<open>A part with one block\<close>

lemma mp_init_rep:
  assumes "zstd_ok Z" "zstd_bounded Z" "ib_invar b" "ib_items b \<noteq> []" "[] \<notin> set (ib_strings b)"
    "length (ib_data b) \<le> MAX_INMEMORY_BLOCK_SIZE"
  shows "\<exists>mp c r. mp_init Z b = Some (mp, c) \<and> bsr_from_inmemory_part Z mp = Some r
    \<and> bsr_rep Z r [sort (ib_strings b)]"
proof -
  let ?c = "ib_sort_items b"
  note c = ib_sort_items_correct [OF assms(3,4)]
  have d: "length (ib_data ?c) \<le> MAX_INMEMORY_BLOCK_SIZE"
  proof -
    have "ib_invar ?c" using c(1) by (simp add: ib_ready_def)
    have "sum_list (map length (sort (ib_strings b))) = sum_list (map length (ib_strings b))"
      by (metis mset_map mset_sort sum_mset_sum_list)
    with ib_data_length [OF \<open>ib_invar ?c\<close>] ib_data_length [OF assms(3)] assms(6) c(2) show ?thesis
      by (simp add: length_concat)
  qed
  obtain sb fi cp n mt where m: "ib_marshal_data Z ?c [] [] (-5) = Some (sb, fi, cp, n, mt)"
    and st: "\<And>bh. bh_first_item bh = fi \<and> bh_common_prefix bh = cp \<and> bh_items_count bh = n \<and> bh_marshal_type bh = mt
        \<and> bh_items_block_size bh = of_nat (length (items_data sb))
        \<and> bh_lens_block_size bh = of_nat (length (lens_data sb))
      \<Longrightarrow> stored Z \<lparr>sb_h = bh, sb_items = items_data sb, sb_lens = lens_data sb, sb_strs = ib_strings ?c\<rparr>"
    using marshal_ready_stored [OF assms(1,2) c(1) _ d, of "-5"] c(2) assms(5) by auto
  define bh where "bh = \<lparr>bh_common_prefix = cp, bh_first_item = fi, bh_marshal_type = mt,
                 bh_items_count = n, bh_items_block_offset = 0, bh_lens_block_offset = 0,
                 bh_items_block_size = of_nat (length (items_data sb)),
                 bh_lens_block_size = of_nat (length (lens_data sb))\<rparr>"
  define s where "s = \<lparr>sb_h = bh, sb_items = items_data sb, sb_lens = lens_data sb, sb_strs = ib_strings ?c\<rparr>"
  have s: "stored Z s" unfolding s_def by (rule st) (simp add: bh_def)
  have f: "sb_h s = bh" "sb_strs s = ib_strings ?c" "bh_first_item bh = fi" by (simp_all add: s_def bh_def)
  have hb: "length (bh_marshal bh []) \<le> 3 * MAX_INDEX_BLOCK_SIZE" "length fi < 2 ^ 64" "fi = hd (ib_strings ?c)"
    using s unfolding stored_def bh_wf_def f by blast+
  then have l: "length (bh_marshal bh []) \<le> 196608" by (simp add: MAX_INDEX_BLOCK_SIZE_def)
  then obtain p where p: "compress_zstd_level Z [] (bh_marshal bh []) (-5) = Some p"
    "decompress_zstd Z [] p = Inr (bh_marshal bh [])"
    using compress_decompress [OF assms(1), of "bh_marshal bh []" "[]" "-5" "[]"] by auto
  have "length p \<le> 196608 + 196608 div 256 + 64" using compress_bounded [OF assms(2) p(1)] l by linarith
  then have lp: "unat (of_nat (length p) :: u32) = length p" "length p \<le> 4 * MAX_INDEX_BLOCK_SIZE"
    by (simp_all add: unat_of_nat MAX_INDEX_BLOCK_SIZE_def)
  define mr where "mr = \<lparr>mr_first_item = fi, mr_block_headers_count = 1, mr_index_block_offset = 0,
                     mr_index_block_size = of_nat (length p)\<rparr>"
  define g where "g = \<lparr>g_blocks = [s], g_packed = p, g_row = mr\<rparr>"
  have g: "group_ok Z g" using s p lp hb by (simp add: group_ok_def g_def mr_def mr_wf_def hdr_bytes_def s_def bh_def)
  have "length (mr_marshal mr []) < 2 ^ 64" using mr_marshal_length [OF g] by (simp add: g_def)
  then obtain q where q: "compress_zstd_level Z [] (mr_marshal mr []) (-5) = Some q"
    "decompress_zstd Z [] q = Inr (mr_marshal mr [])"
    using compress_decompress [OF assms(1), of "mr_marshal mr []" "[]" "-5" "[]"] by auto
  define ph where "ph = \<lparr>ph_items_count = of_nat (length (ib_items ?c)), ph_blocks_count = 1,
                 ph_first_item = item_bytes (ib_items ?c ! 0) (ib_data ?c),
                 ph_last_item = item_bytes (ib_items ?c ! (length (ib_items ?c) - 1)) (ib_data ?c)\<rparr>"
  let ?bufs = "(q, p, items_data sb, lens_data sb)"
  have i: "mp_init Z b = Some (mp_from_buffers ph ?bufs, ?c)"
    using hb(1) by (simp add: mp_init_def marshal_unsorted_data_def m p(1) q(1) Let_def mp_from_buffers_def ph_def
        flip: bh_def mr_def)
  have ne: "ib_items ?c \<noteq> []" "ib_strings ?c \<noteq> []" using c(1) by (simp_all add: ib_ready_def ib_strings_def)
  have "length (ib_strings ?c) \<le> length (concat (ib_strings b))"
    using c(2) nonempty_count [OF assms(5)] by simp
  then have n64: "unat (of_nat (length (ib_items ?c)) :: u64) = length (ib_strings ?c)"
    using ib_data_length [OF assms(3)] assms(6)
    by (simp add: ib_strings_def unat_of_nat MAX_INMEMORY_BLOCK_SIZE_def)
  have "ph_ok ph [ib_strings ?c]"
    using ne n64 last_item_eq [OF ne(1)] first_item_eq [OF ne(1)] by (simp add: ph_ok_def ph_def)
  moreover have "part_rep Z ?bufs [g]" using g q by (simp add: part_rep_def g_def s_def mr_def bh_def)
  ultimately obtain r where "bsr_from_inmemory_part Z (mp_from_buffers ph ?bufs) = Some r" "bsr_rep Z r [ib_strings ?c]"
    using part_read [of Z ?bufs "[g]" "[ib_strings ?c]" ph] by (auto simp: g_def s_def)
  with i c(2) show ?thesis by auto
qed


section \<open>Properties\<close>

text \<open>
  C4: Sorted, non-empty blocks written one after another and closed form a part from which the
  reader returns exactly those blocks, in order, and then the end of the part without an error;
  every limit and cross-check of the reader passes.\<close>

theorem part_write_read_roundtrip:
  assumes "zstd_ok Z" "zstd_bounded Z" "list_all block_ok bs" "length bs < 2 ^ 40"
    "sorted (map hd (map ib_strings bs))" "ph_ok ph (map ib_strings bs)"
  shows "\<exists>w w' bufs r. write_blocks Z (bsw_new_inmemory_part level) bs = Some w
    \<and> bsw_must_close Z w = Some (w', bufs)
    \<and> bsr_from_inmemory_part Z (mp_from_buffers ph bufs) = Some r
    \<and> read_blocks Z (length bs + 1) r = Some (map ib_strings bs)"
proof -
  obtain w ts where w: "write_blocks Z (bsw_new_inmemory_part level) bs = Some w" "bsw_rep Z w ts"
    "map sb_strs ts = map ib_strings bs"
    using write_blocks_rep [OF assms(1,2) bsw_new_rep [of Z level] assms(3)] by auto
  have "length ts < 2 ^ 40" using arg_cong [OF w(3), of length] assms(4) by simp
  then obtain w' bufs gs where c: "bsw_must_close Z w = Some (w', bufs)" "part_rep Z bufs gs"
    "ts = concat (map g_blocks gs)" using must_close_rep [OF assms(1,2) w(2)] by blast
  obtain r where "bsr_from_inmemory_part Z (mp_from_buffers ph bufs) = Some r" "bsr_rep Z r (map ib_strings bs)"
    using part_read [OF c(2) refl, of ph] assms(5,6) unfolding c(3) [symmetric] w(3) by blast
  moreover from this have "read_blocks Z (length bs + 1) r = Some (map ib_strings bs)"
    by (intro read_blocks_rep) simp_all
  ultimately show ?thesis using w(1) c(1) by blast
qed

theorem part_write_read_roundtrip_witness:
  "\<exists>w w' bufs r. write_blocks stored_zstd (bsw_new_inmemory_part 1)
      [fst (ib_add ib_default [4]), fst (ib_add ib_default [5])] = Some w
    \<and> bsw_must_close stored_zstd w = Some (w', bufs)
    \<and> bsr_from_inmemory_part stored_zstd (mp_from_buffers
        \<lparr>ph_items_count = 2, ph_blocks_count = 2, ph_first_item = [4], ph_last_item = [5]\<rparr> bufs) = Some r
    \<and> read_blocks stored_zstd 3 r = Some [[[4]], [[5]]]"
proof -
  let ?bs = "[fst (ib_add ib_default [4]), fst (ib_add ib_default [5])]"
  have s: "map ib_strings ?bs = [[[4]], [[5]]]"
    by (simp add: ib_add_def ib_default_def MAX_INMEMORY_BLOCK_SIZE_def ib_strings_def item_bytes_def subslice_def)
  have b: "list_all block_ok ?bs"
    by (simp add: block_ok_def ib_invar_def ib_add_def ib_default_def MAX_INMEMORY_BLOCK_SIZE_def ib_strings_def
        item_bytes_def item_ok_def subslice_def)
  let ?ph = "\<lparr>ph_items_count = 2, ph_blocks_count = 2, ph_first_item = [4], ph_last_item = [5]\<rparr>"
  have p: "sorted (map hd (map ib_strings ?bs))" "ph_ok ?ph (map ib_strings ?bs)"
    unfolding s by (simp_all add: ph_ok_def)
  have l: "length ?bs < 2 ^ 40" "length ?bs + 1 = 3" by simp_all
  from part_write_read_roundtrip [OF stored_zstd_ok stored_zstd_bounded b l(1) p, of 1, unfolded s l(2)]
  show ?thesis .
qed

text \<open>
  C34: A part made from one unsorted block (\<open>InmemoryPart::init\<close>) is read back as one block with the
  items of the original in sorted order.\<close>

theorem inmemory_part_readable:
  assumes "zstd_ok Z" "zstd_bounded Z" "ib_invar b" "ib_items b \<noteq> []" "[] \<notin> set (ib_strings b)"
    "length (ib_data b) \<le> MAX_INMEMORY_BLOCK_SIZE"
  shows "\<exists>mp c r. mp_init Z b = Some (mp, c) \<and> bsr_from_inmemory_part Z mp = Some r
    \<and> read_blocks Z 2 r = Some [sort (ib_strings b)]"
proof -
  obtain mp c r where "mp_init Z b = Some (mp, c)" "bsr_from_inmemory_part Z mp = Some r"
    "bsr_rep Z r [sort (ib_strings b)]" using mp_init_rep [OF assms] by blast
  with read_blocks_rep [of Z r _ 2] show ?thesis by fastforce
qed

theorem inmemory_part_readable_witness:
  "\<exists>mp c r. mp_init stored_zstd (fst (ib_add (fst (ib_add ib_default [9])) [7])) = Some (mp, c)
    \<and> bsr_from_inmemory_part stored_zstd mp = Some r \<and> read_blocks stored_zstd 2 r = Some [[[7], [9]]]"
proof -
  let ?b = "fst (ib_add (fst (ib_add ib_default [9])) [7])"
  have b: "?b = \<lparr>common_prefix = [], ib_data = [9, 7],
      ib_items = [\<lparr>it_start = 0, it_end = 1\<rparr>, \<lparr>it_start = 1, it_end = 2\<rparr>]\<rparr>"
    by (simp add: ib_add_def ib_default_def MAX_INMEMORY_BLOCK_SIZE_def)
  have "ib_invar ?b" "ib_strings ?b = [[9], [7]]" "ib_items ?b \<noteq> []" "length (ib_data ?b) \<le> MAX_INMEMORY_BLOCK_SIZE"
    by (simp_all add: b ib_invar_def ib_strings_def item_ok_def item_bytes_def subslice_def MAX_INMEMORY_BLOCK_SIZE_def)
  then show ?thesis
    using inmemory_part_readable [OF stored_zstd_ok stored_zstd_bounded, of ?b] by simp
qed

end
