(* ===== verification/Part_Search_Correct.thy ===== *)
theory Part_Search_Correct
  imports Part_Search Block_Stream_Correct
begin

text \<open>
  A cursor over a part returns, after a seek, the items of the part that are not below the key.

  A part is described by the same groups of blocks as in \<open>Block_Stream_Correct\<close>; \<open>part_ok\<close> says that its
  files hold them where the headers say. \<open>ps_at\<close> relates a cursor to the items it has still to return.
  \<open>cursor\<close> is the interface that searching offers: it extends \<open>block_source\<close> by seeking.
\<close>

section \<open>Descriptions\<close>

definition blocks_of :: "igroup list \<Rightarrow> sblock list" where "blocks_of gs = concat (map g_blocks gs)"

definition strs_of :: "sblock list \<Rightarrow> bytes list" where "strs_of ss = concat (map sb_strs ss)"

text \<open>
  The headers of a part. The cache knows a block of several items by the offset of its bytes in the stream
  of items: it has a key of its own when no other block of several items starts there.
\<close>

definition part_has :: "zstd_lib \<Rightarrow> part \<Rightarrow> block_header \<Rightarrow> bool" where
  "part_has Z p bh \<longleftrightarrow> (\<exists>i j. part_header_at Z p i j = Some bh)"

definition own_key :: "zstd_lib \<Rightarrow> part \<Rightarrow> block_header \<Rightarrow> bool" where
  "own_key Z p bh \<longleftrightarrow> (\<forall>bh'. part_has Z p bh' \<and> bh_items_count bh' \<noteq> 1 \<and> bh_items_count bh \<noteq> 1
     \<and> ib_key p bh' = ib_key p bh \<longrightarrow> bh' = bh)"

text \<open>What the cache may hold for a part: what one of its headers decodes to, under the key of the header.\<close>

definition cached_block :: "zstd_lib \<Rightarrow> part \<Rightarrow> Key \<Rightarrow> inmemory_block \<Rightarrow> bool" where
  "cached_block Z p k ib \<longleftrightarrow> (\<exists>bh. part_has Z p bh \<and> bh_items_count bh \<noteq> 1 \<and> ib_key p bh = k
     \<and> ps_read_inmemory_block Z p bh = Inr ib)"

definition cache_ok :: "zstd_lib \<Rightarrow> part_search \<Rightarrow> bool" where
  "cache_ok Z ps \<longleftrightarrow> only_values (cached_block Z (ps_p ps)) (bc_m (ps_ib_cache ps))"

definition located :: "zstd_lib \<Rightarrow> part \<Rightarrow> sblock \<Rightarrow> bool" where
  "located Z p s \<longleftrightarrow> stored Z s \<and> part_has Z p (sb_h s) \<and> own_key Z p (sb_h s)
     \<and> must_read_at (pt_items_file p) (length (sb_items s)) (bh_items_block_offset (sb_h s)) = Some (sb_items s)
     \<and> must_read_at (pt_lens_file p) (length (sb_lens s)) (bh_lens_block_offset (sb_h s)) = Some (sb_lens s)"

definition located_group :: "zstd_lib \<Rightarrow> part \<Rightarrow> igroup \<Rightarrow> bool" where
  "located_group Z p g \<longleftrightarrow> group_ok Z g \<and> group_sorted g \<and> list_all (located Z p) (g_blocks g)
     \<and> must_read_at (pt_index_file p) (length (g_packed g)) (mr_index_block_offset (g_row g)) = Some (g_packed g)"

definition part_ok :: "zstd_lib \<Rightarrow> part \<Rightarrow> igroup list \<Rightarrow> bool" where
  "part_ok Z p gs \<longleftrightarrow> gs \<noteq> [] \<and> list_all (located_group Z p) gs \<and> pt_mrs p = map g_row gs
     \<and> sorted (strs_of (blocks_of gs)) \<and> ph_first_item (pt_ph p) = hd (strs_of (blocks_of gs))
     \<and> ph_last_item (pt_ph p) = last (strs_of (blocks_of gs))"

text \<open>The files of a part that was written: every header, block and index block can be read where it was put.\<close>

definition files_ok :: "zstd_lib \<Rightarrow> part \<Rightarrow> igroup list \<Rightarrow> bool" where
  "files_ok Z p gs \<longleftrightarrow> pt_mrs p = map g_row gs
     \<and> (\<forall>g \<in> set gs. group_ok Z g \<and> group_sorted g
          \<and> must_read_at (pt_index_file p) (length (g_packed g)) (mr_index_block_offset (g_row g)) = Some (g_packed g))
     \<and> (\<forall>s \<in> set (blocks_of gs). stored Z s
          \<and> must_read_at (pt_items_file p) (length (sb_items s)) (bh_items_block_offset (sb_h s)) = Some (sb_items s)
          \<and> must_read_at (pt_lens_file p) (length (sb_lens s)) (bh_lens_block_offset (sb_h s)) = Some (sb_lens s))
     \<and> placed_blocks 0 0 (blocks_of gs) \<and> length (concat (map sb_items (blocks_of gs))) < 2 ^ 64"

text \<open>The blocks that \<open>next_block\<close> will load.\<close>

definition ps_pos :: "zstd_lib \<Rightarrow> part_search \<Rightarrow> sblock list \<Rightarrow> bool" where
  "ps_pos Z ps ss \<longleftrightarrow> (\<exists>cur gs. ss = cur @ blocks_of gs \<and> list_all (located Z (ps_p ps)) cur
     \<and> list_all (located_group Z (ps_p ps)) gs \<and> drop (ps_bh_next ps) (ps_idxb ps) = map sb_h cur
     \<and> drop (ps_mr_next ps) (pt_mrs (ps_p ps)) = map g_row gs \<and> cache_ok Z ps)"

definition shows_block :: "inmemory_block \<Rightarrow> sblock \<Rightarrow> bool" where
  "shows_block ib s \<longleftrightarrow> ib_ready ib \<and> ib_strings ib = sb_strs s"

definition ps_ahead :: "zstd_lib \<Rightarrow> igroup list \<Rightarrow> part_search \<Rightarrow> bytes list \<Rightarrow> bool" where
  "ps_ahead Z gs ps xs \<longleftrightarrow>
    (if ps_ib_valid ps
     then (\<exists>pre s ss. blocks_of gs = pre @ s # ss \<and> shows_block (ps_ib ps) s \<and> ps_pos Z ps ss
            \<and> xs = drop (ps_ib_item_idx ps) (sb_strs s) @ strs_of ss)
     else ps_pos Z ps (blocks_of gs) \<and> xs = strs_of (blocks_of gs))"

definition ps_at :: "zstd_lib \<Rightarrow> igroup list \<Rightarrow> part_search \<Rightarrow> bytes list \<Rightarrow> bool" where
  "ps_at Z gs ps xs \<longleftrightarrow> part_ok Z (ps_p ps) gs \<and> ps_error ps = None
     \<and> (\<exists>ys. ps_ahead Z gs ps ys \<and> xs = (if ps_err ps = None then ys else []))"

text \<open>
  What a seek finds in an ordered list: a tail of it, in which exactly the items occur that are not
  below the key. Only copies of the key itself may be skipped, and one of them is always there.
\<close>

definition found :: "'a::linorder \<Rightarrow> 'a list \<Rightarrow> 'a list \<Rightarrow> bool" where
  "found k xs ys \<longleftrightarrow> (\<exists>zs. xs = zs @ ys \<and> (\<forall>z \<in> set zs. z \<le> k)) \<and> set ys = {x \<in> set xs. k \<le> x}"

definition splits_at :: "'a::linorder \<Rightarrow> 'a list \<Rightarrow> nat \<Rightarrow> bool" where
  "splits_at k xs i \<longleftrightarrow> (\<forall>x \<in> set (take i xs). x < k \<or> x = k \<and> k \<in> set (drop i xs)) \<and> (\<forall>x \<in> set (drop i xs). k \<le> x)"

text \<open>
  The items of a block that is kept apart from the next one in the cache: a block of several equal items
  has no bytes in the stream of items, and the block after it starts at the same offset.
\<close>

definition varied :: "'a list \<Rightarrow> bool" where
  "varied xs \<longleftrightarrow> length xs = 1 \<or> (\<exists>x \<in> set xs. x \<noteq> hd xs)"

text \<open>What a client does with a cursor before it seeks.\<close>

datatype 'k cursor_op = Seek 'k | Step

fun cursor_run :: "('r \<Rightarrow> ('r \<times> bool) option) \<Rightarrow> ('r \<Rightarrow> 'k \<Rightarrow> 'r option) \<Rightarrow> 'k cursor_op list \<Rightarrow> 'r \<Rightarrow> 'r option" where
  "cursor_run nxt sk [] r = Some r"
| "cursor_run nxt sk (Seek k # ops) r = (case sk r k of None \<Rightarrow> None | Some r \<Rightarrow> cursor_run nxt sk ops r)"
| "cursor_run nxt sk (Step # ops) r = (case nxt r of None \<Rightarrow> None | Some (r, _) \<Rightarrow> cursor_run nxt sk ops r)"

definition ps_items_from :: "zstd_lib \<Rightarrow> nat \<Rightarrow> part_search \<Rightarrow> bytes list option" where
  "ps_items_from Z = drain (ps_next_item Z) ps_item (\<lambda>ps. ps_error ps \<noteq> None)"

text \<open>The current block is \<open>s\<close>, the next ones are \<open>ss\<close>, and nothing else of the cursor but its place changed.\<close>

definition loaded :: "zstd_lib \<Rightarrow> sblock \<Rightarrow> sblock list \<Rightarrow> part_search \<Rightarrow> part_search \<Rightarrow> bool" where
  "loaded Z s ss ps ps' \<longleftrightarrow> ps_pos Z ps' ss \<and> shows_block (ps_ib ps') s \<and> ps_ib_valid ps' \<and> ps_ib_item_idx ps' = 0
     \<and> ps_p ps' = ps_p ps \<and> ps_err ps' = ps_err ps"

section \<open>Lists\<close>

lemma found_distinct:
  assumes "found k xs ys" "sorted xs" "distinct xs"
  shows "ys = filter (\<lambda>x. k \<le> x) xs"
proof -
  obtain zs where z: "xs = zs @ ys" using assms(1) by (auto simp: found_def)
  have "\<forall>x \<in> set ys. k \<le> x" using assms(1) by (auto simp: found_def)
  moreover have "\<forall>x \<in> set zs. \<not> k \<le> x" using assms(1,3) by (auto simp: found_def z)
  ultimately show ?thesis by (simp add: z)
qed

lemma found_split:
  assumes "sorted (ps @ xs @ rs)" "splits_at k xs i" "\<forall>x \<in> set rs. k \<le> x"
    "\<forall>x \<in> set ps. x < k \<or> (xs \<noteq> [] \<and> hd xs \<le> k)"
  shows "found k (ps @ xs @ rs) (drop i xs @ rs)"
proof -
  have "x \<in> set (drop i xs)" if x: "x \<in> set ps" "k \<le> x" for x
  proof -
    have h: "xs \<noteq> []" "hd xs \<le> k" using assms(4) x by auto
    then have "x \<le> hd xs" using assms(1) x(1) by (auto simp: sorted_append)
    with h(2) x(2) have e: "hd xs = k" "x = k" by auto
    have "hd xs \<in> set (take i xs) \<union> set (drop i xs)" using h(1) by (metis append_take_drop_id hd_in_set set_append)
    with e assms(2) show ?thesis by (auto simp: splits_at_def)
  qed
  moreover have "x \<in> set (drop i xs)" if "x \<in> set (take i xs)" "k \<le> x" for x
    using assms(2) that by (auto simp: splits_at_def)
  moreover have "set xs = set (take i xs) \<union> set (drop i xs)" by (metis append_take_drop_id set_append)
  moreover have "\<forall>x \<in> set (drop i xs). k \<le> x" using assms(2) by (simp add: splits_at_def)
  ultimately have "set (drop i xs @ rs) = {x \<in> set (ps @ xs @ rs). k \<le> x}" using assms(3) by auto
  moreover have "\<forall>z \<in> set (ps @ take i xs). z \<le> k"
  proof -
    have "z \<le> k" if z: "z \<in> set ps" for z
    proof (cases "z < k")
      case False
      then have "xs \<noteq> []" "hd xs \<le> k" using assms(4) z by auto
      moreover from this have "z \<le> hd xs" using assms(1) z by (auto simp: sorted_append)
      ultimately show ?thesis by simp
    qed simp
    moreover have "\<forall>z \<in> set (take i xs). z \<le> k" using assms(2) by (auto simp: splits_at_def)
    ultimately show ?thesis by auto
  qed
  moreover have "ps @ xs @ rs = (ps @ take i xs) @ drop i xs @ rs" by simp
  ultimately show ?thesis unfolding found_def by blast
qed

lemma splits_partition:
  assumes "sorted xs"
  shows "splits_at k xs (partition_point (\<lambda>x. x < k) xs)"
proof -
  let ?n = "partition_point (\<lambda>x. x < k) xs"
  have "\<forall>x \<in> set (take ?n xs). x < k" using partition_point_before [of _ "\<lambda>x. x < k" xs] by (auto simp: in_set_conv_nth)
  moreover have "k \<le> x" if x: "x \<in> set (drop ?n xs)" for x
  proof -
    have l: "?n < length xs" using x by (cases "?n < length xs") simp_all
    then have "drop ?n xs = xs ! ?n # drop (Suc ?n) xs" by (simp add: Cons_nth_drop_Suc)
    moreover have "sorted (drop ?n xs)" using assms by (simp add: sorted_wrt_drop)
    ultimately have "xs ! ?n \<le> x" using x by (metis set_ConsD sorted_simps(2) order_refl)
    with partition_point_at [of "\<lambda>x. x < k" xs] l show ?thesis by simp
  qed
  ultimately show ?thesis unfolding splits_at_def by blast
qed

lemma strs_of_simps [simp]: "strs_of [] = []" "strs_of (s # ss) = sb_strs s @ strs_of ss" "strs_of (ss @ ts) = strs_of ss @ strs_of ts"
  by (simp_all add: strs_of_def)

lemma blocks_of_simps [simp]: "blocks_of [] = []" "blocks_of (g # gs) = g_blocks g @ blocks_of gs" "blocks_of (gs @ hs) = blocks_of gs @ blocks_of hs"
  by (simp_all add: blocks_of_def)

section \<open>Reading blocks\<close>

lemma located_groups: "list_all (located_group Z p) gs \<Longrightarrow> list_all (located Z p) (blocks_of gs)"
  by (induction gs) (simp_all add: located_group_def)

lemma single_item_block:
  assumes "stored Z s" "bh_items_count (sb_h s) = 1"
  shows "\<exists>ib. unmarshal_single_item (bh_common_prefix (sb_h s)) (bh_first_item (sb_h s)) (bh_marshal_type (sb_h s)) = Some ib
    \<and> shows_block ib s"
proof -
  obtain blk where b: "ib_strings blk = sb_strs s" "ib_ready blk" "common_prefix blk = bh_common_prefix (sb_h s)"
    using assms(1) unfolding stored_def by blast
  have l: "length (sb_strs s) = 1" "bh_first_item (sb_h s) = hd (sb_strs s)" "bh_marshal_type (sb_h s) = Plain"
    using assms by (simp_all add: stored_def)
  obtain x where x: "sb_strs s = [x]" using l(1) by (cases "sb_strs s") auto
  have "length x < 2 ^ 32" using b(2) by (simp add: ib_ready_def ib_invar_def b(1) x)
  moreover from this have "ib_strings \<lparr>common_prefix = cp, ib_data = x, ib_items = [\<lparr>it_start = 0, it_end = of_nat (length x)\<rparr>]\<rparr> = [x]" for cp
    by (simp add: ib_strings_def item_bytes_def subslice_def unat_of_nat)
  ultimately show ?thesis using l b x
    by (simp add: unmarshal_single_item_def shows_block_def ib_ready_def ib_invar_def item_ok_def unat_of_nat)
qed

lemma read_stored:
  assumes "stored Z s" "must_read_at (pt_items_file p) (length (sb_items s)) (bh_items_block_offset (sb_h s)) = Some (sb_items s)"
    "must_read_at (pt_lens_file p) (length (sb_lens s)) (bh_lens_block_offset (sb_h s)) = Some (sb_lens s)"
  shows "\<exists>ib. ps_read_inmemory_block Z p (sb_h s) = Inr ib \<and> shows_block ib s"
proof -
  obtain blk where "ib_unmarshal_data Z \<lparr>items_data = sb_items s, lens_data = sb_lens s\<rparr>
           (bh_first_item (sb_h s)) (bh_common_prefix (sb_h s)) (bh_items_count (sb_h s)) (bh_marshal_type (sb_h s)) = Inr blk"
    "ib_strings blk = sb_strs s" "ib_ready blk" using assms(1) unfolding stored_def by blast
  moreover have "unat (bh_items_block_size (sb_h s)) = length (sb_items s)" "unat (bh_lens_block_size (sb_h s)) = length (sb_lens s)"
    using assms(1) by (simp_all add: stored_def)
  ultimately show ?thesis using assms(2,3) by (simp add: ps_read_inmemory_block_def shows_block_def)
qed

lemma read_located: "located Z p s \<Longrightarrow> \<exists>ib. ps_read_inmemory_block Z p (sb_h s) = Inr ib \<and> shows_block ib s"
  by (rule read_stored) (simp_all add: located_def)

lemma cache_step_ok:
  assumes "only_values (cached_block Z p) (bc_m c)"
  shows "only_values (cached_block Z p) (bc_m (cache_step Z p a c))"
proof (cases a)
  case (OtherGet k)
  then show ?thesis using block_cache.get_valid(1) [OF assms, of k] by (cases "bc_get_block c k") simp
next
  case (OtherPut i j)
  have "cached_block Z p (ib_key p bh) ib" if "part_header_at Z p i j = Some bh" "bh_items_count bh \<noteq> 1" "ps_read_inmemory_block Z p bh = Inr ib" for bh ib
    using that unfolding cached_block_def part_has_def by blast
  then show ?thesis using OtherPut assms block_cache.put_valid [OF assms]
    by (auto split: option.split sum.split)
qed (simp_all add: removal_valid [OF assms])

lemma others_rep:
  assumes "cache_ok Z ps"
  shows "\<exists>c env. ps_others Z ps = ps\<lparr>ps_ib_cache := c, ps_env := env\<rparr> \<and> only_values (cached_block Z (ps_p ps)) (bc_m c)"
proof (cases "ps_env ps")
  case Nil
  then show ?thesis using assms by (intro exI [of _ "ps_ib_cache ps"] exI [of _ "ps_env ps"]) (simp add: ps_others_def cache_ok_def)
next
  case (Cons acts env)
  have "only_values (cached_block Z (ps_p ps)) (bc_m (fold (cache_step Z (ps_p ps)) as c))" if "only_values (cached_block Z (ps_p ps)) (bc_m c)" for as c
    using that by (induction as arbitrary: c) (simp_all add: cache_step_ok)
  then show ?thesis using assms Cons by (auto simp: ps_others_def cache_ok_def)
qed

lemma cached_located:
  assumes "located Z p s" "bh_items_count (sb_h s) \<noteq> 1" "cached_block Z p (ib_key p (sb_h s)) ib"
  shows "shows_block ib s"
proof -
  obtain bh where "part_has Z p bh" "bh_items_count bh \<noteq> 1" "ib_key p bh = ib_key p (sb_h s)" and i: "ps_read_inmemory_block Z p bh = Inr ib"
    using assms(3) by (auto simp: cached_block_def)
  then have "bh = sb_h s" using assms(1,2) by (simp add: located_def own_key_def)
  then show ?thesis using read_located [OF assms(1)] i by auto
qed

lemma get_located:
  assumes "located Z (ps_p ps) s" "cache_ok Z ps"
  shows "\<exists>c env ib. ps_get_inmemory_block Z ps (sb_h s) = Some (ps\<lparr>ps_ib_cache := c, ps_env := env, ps_ib := ib, ps_ib_valid := True\<rparr>, None)
    \<and> shows_block ib s \<and> only_values (cached_block Z (ps_p ps)) (bc_m c)"
proof (cases "bh_items_count (sb_h s) = 1")
  case True
  have "stored Z s" using assms(1) by (simp add: located_def)
  from single_item_block [OF this True] True assms(2) show ?thesis
    by (intro exI [of _ "ps_ib_cache ps"] exI [of _ "ps_env ps"]) (auto simp: ps_get_inmemory_block_def cache_ok_def)
next
  case False
  let ?p = "ps_p ps" and ?k = "ib_key (ps_p ps) (sb_h s)" and ?V = "cached_block Z (ps_p ps)"
  obtain c1 env1 where o1: "ps_others Z ps = ps\<lparr>ps_ib_cache := c1, ps_env := env1\<rparr>" "only_values ?V (bc_m c1)"
    using others_rep [OF assms(2)] by blast
  obtain c2 found where g: "bc_get_block c1 ?k = (c2, found)" by fastforce
  note v2 = block_cache.get_valid [OF o1(2) g]
  show ?thesis
  proof (cases found)
    case (Some ib)
    then have "shows_block ib s" using cached_located [OF assms(1) False] v2(2) by blast
    moreover have "ps_get_inmemory_block Z ps (sb_h s) = Some (ps\<lparr>ps_ib_cache := c2, ps_env := env1, ps_ib := ib, ps_ib_valid := True\<rparr>, None)"
      using False o1(1) g Some by (simp add: ps_get_inmemory_block_def Let_def)
    ultimately show ?thesis using v2(1) by blast
  next
    case None
    obtain ib where ib: "ps_read_inmemory_block Z ?p (sb_h s) = Inr ib" "shows_block ib s" using read_located [OF assms(1)] by blast
    let ?ps = "ps\<lparr>ps_env := env1, ps_ib_cache := c2\<rparr>"
    have "cache_ok Z ?ps" using v2(1) by (simp add: cache_ok_def)
    from others_rep [OF this] obtain c3 env3 where o3: "ps_others Z ?ps = ps\<lparr>ps_ib_cache := c3, ps_env := env3\<rparr>" "only_values ?V (bc_m c3)"
      by auto
    have "?V ?k ib" using assms(1) False ib(1) by (auto simp: cached_block_def located_def)
    from block_cache.put_valid [OF o3(2) this]
    have "only_values ?V (bc_m (fst (bc_try_put_block MISSES_BEFORE_CACHING c3 ?k ib)))" .
    moreover have "ps_get_inmemory_block Z ps (sb_h s) = Some (ps\<lparr>ps_ib_cache := fst (bc_try_put_block MISSES_BEFORE_CACHING c3 ?k ib),
        ps_env := env3, ps_ib := ib, ps_ib_valid := True\<rparr>, None)"
      using False o1(1) g None ib(1) o3(1) by (simp add: ps_get_inmemory_block_def Let_def)
    ultimately show ?thesis using ib(2) by blast
  qed
qed

lemma read_group_at:
  assumes "group_ok Z g" "group_sorted g"
    "must_read_at (pt_index_file p) (length (g_packed g)) (mr_index_block_offset (g_row g)) = Some (g_packed g)"
  shows "ps_read_index_block Z p (g_row g) = Inr (map sb_h (g_blocks g))"
  using assms headers_of_group [of Z g] by (simp add: ps_read_index_block_def group_ok_def)

lemma read_group: "located_group Z p g \<Longrightarrow> ps_read_index_block Z p (g_row g) = Inr (map sb_h (g_blocks g))"
  by (rule read_group_at) (simp_all add: located_group_def)

lemma next_bhs_rep:
  assumes "drop n (pt_mrs (ps_p ps)) = map g_row (g # gs)" "located_group Z (ps_p ps) g"
  shows "ps_next_bhs Z (ps\<lparr>ps_mr_next := n\<rparr>) = Some (ps\<lparr>ps_mr_next := Suc n, ps_idxb := map sb_h (g_blocks g), ps_bh_next := 0\<rparr>, None)"
    "drop (Suc n) (pt_mrs (ps_p ps)) = map g_row gs"
  using drop_Suc_map [OF assms(1)] read_group [OF assms(2)] by (simp_all add: ps_next_bhs_def Let_def)

lemma load_pos:
  assumes "drop (ps_bh_next ps) (ps_idxb ps) = map sb_h (s # cur)" "list_all (located Z (ps_p ps)) (s # cur)"
    "list_all (located_group Z (ps_p ps)) gs" "drop (ps_mr_next ps) (pt_mrs (ps_p ps)) = map g_row gs" "cache_ok Z ps"
  shows "\<exists>ps'. ps_load_block Z ps = Some (ps', None) \<and> loaded Z s (cur @ blocks_of gs) ps ps'"
proof -
  note d = drop_Suc_map [OF assms(1)]
  let ?ps = "ps\<lparr>ps_bh_next := ps_bh_next ps + 1\<rparr>"
  have "located Z (ps_p ?ps) s" "cache_ok Z ?ps" using assms(2,5) by (simp_all add: cache_ok_def)
  from get_located [OF this] obtain c env ib where g: "ps_get_inmemory_block Z ?ps (sb_h s) =
      Some (?ps\<lparr>ps_ib_cache := c, ps_env := env, ps_ib := ib, ps_ib_valid := True\<rparr>, None)"
    "shows_block ib s" "only_values (cached_block Z (ps_p ps)) (bc_m c)" by auto
  define ps' where "ps' = ?ps\<lparr>ps_ib_cache := c, ps_env := env, ps_ib := ib, ps_ib_valid := True, ps_ib_item_idx := 0\<rparr>"
  have "ps_load_block Z ps = Some (ps', None)" using d g(1) by (simp add: ps_load_block_def ps'_def)
  moreover have "ps_pos Z ps' (cur @ blocks_of gs)"
    unfolding ps_pos_def using d assms(2-4) g(3) by (intro exI [of _ cur] exI [of _ gs]) (simp add: ps'_def cache_ok_def)
  ultimately show ?thesis using g(2) by (simp add: loaded_def ps'_def)
qed

lemma next_block_Cons:
  assumes "ps_pos Z ps (s # ss)"
  shows "\<exists>ps'. ps_next_block Z ps = Some (ps', None) \<and> loaded Z s ss ps ps'"
proof -
  obtain cur gs where p: "s # ss = cur @ blocks_of gs" "list_all (located Z (ps_p ps)) cur"
    "list_all (located_group Z (ps_p ps)) gs" "drop (ps_bh_next ps) (ps_idxb ps) = map sb_h cur"
    "drop (ps_mr_next ps) (pt_mrs (ps_p ps)) = map g_row gs" "cache_ok Z ps" using assms unfolding ps_pos_def by blast
  show ?thesis
  proof (cases cur)
    case (Cons t cur')
    then have "\<not> ps_bh_next ps \<ge> length (ps_idxb ps)" using drop_Suc_map [of _ _ sb_h t cur'] p(4) by fastforce
    then show ?thesis using load_pos [of ps s cur' Z gs] p Cons by (simp add: ps_next_block_def)
  next
    case Nil
    then obtain g gs' where g: "gs = g # gs'" using p(1) by (cases gs) auto
    have lg: "located_group Z (ps_p ps) g" using p(3) g by simp
    then have ne: "g_blocks g \<noteq> []" by (simp add: located_group_def group_ok_def)
    then obtain cur' where b: "g_blocks g = s # cur'" "ss = cur' @ blocks_of gs'" using p(1) Nil g by (cases "g_blocks g") auto
    note n = next_bhs_rep [OF p(5) [unfolded g] lg]
    let ?ps = "ps\<lparr>ps_mr_next := Suc (ps_mr_next ps), ps_idxb := map sb_h (g_blocks g), ps_bh_next := 0\<rparr>"
    have u: "ps_next_bhs Z ps = Some (?ps, None)" using n(1) by simp
    obtain ps' where l: "ps_load_block Z ?ps = Some (ps', None)" "loaded Z s ss ?ps ps'"
      using load_pos [of ?ps s cur' Z gs'] p(3,6) n(2) g b lg by (auto simp: located_group_def cache_ok_def)
    have "ps_bh_next ps \<ge> length (ps_idxb ps)" using p(4) Nil by simp
    then have "ps_next_block Z ps = Some (ps', None)" using u l(1) by (simp add: ps_next_block_def)
    with l(2) show ?thesis by (simp add: loaded_def)
  qed
qed

lemma next_block_Nil:
  assumes "ps_pos Z ps []"
  shows "ps_next_block Z ps = Some (ps, Some PsEof)"
proof -
  obtain cur gs where p: "[] = cur @ blocks_of gs" "list_all (located_group Z (ps_p ps)) gs"
    "drop (ps_bh_next ps) (ps_idxb ps) = map sb_h cur" "drop (ps_mr_next ps) (pt_mrs (ps_p ps)) = map g_row gs"
    using assms unfolding ps_pos_def by blast
  have "gs = []" using p(1,2) by (cases gs) (auto simp: located_group_def group_ok_def)
  then show ?thesis using p by (simp add: ps_next_block_def ps_next_bhs_def)
qed

section \<open>Searching in a block\<close>

lemma less_common_prefix: "p @ x < p @ y \<longleftrightarrow> x < (y :: bytes)"
  by (simp add: le_common_prefix flip: not_le)

lemma tail_less:
  assumes "has_prefix cp x" "n = common_prefix_len cp k"
  shows "drop n x < drop n k \<longleftrightarrow> x < k" "drop n k < drop n x \<longleftrightarrow> k < (x :: bytes)" "n \<le> length x"
proof -
  have n: "n \<le> length cp" using common_prefix_len_le(1) [of cp k] assms(2) by simp
  have "take n x = take n cp" using assms(1) n by (metis has_prefix_def min.absorb1 take_take)
  then have e: "take n x = take n k" using common_prefix_len_take [of cp k] assms(2) by simp
  show "drop n x < drop n k \<longleftrightarrow> x < k" "drop n k < drop n x \<longleftrightarrow> k < x"
    using less_common_prefix [of "take n x"] e by (metis append_take_drop_id)+
  show "n \<le> length x" using n has_prefix_drop [OF assms(1)] by (metis le_add1 le_trans length_append)
qed

lemma item_tail_ready:
  assumes "ib_ready ib" "it \<in> set (ib_items ib)" "n = common_prefix_len (common_prefix ib) k"
  shows "item_tail (ib_data ib) n it = Some (drop n (item_bytes it (ib_data ib)))"
    "has_prefix (common_prefix ib) (item_bytes it (ib_data ib))"
proof -
  show h: "has_prefix (common_prefix ib) (item_bytes it (ib_data ib))"
    using assms(1,2) by (auto simp: ib_ready_def ib_strings_def)
  have ok: "item_ok (ib_data ib) it" using assms(1,2) by (auto simp: ib_ready_def ib_invar_def list_all_iff)
  have "n \<le> length (item_bytes it (ib_data ib))" by (rule tail_less(3) [OF h assms(3)])
  then have "unat (it_start it) + n \<le> unat (it_end it)" using ok by (auto simp: item_bytes_def item_ok_def)
  then show "item_tail (ib_data ib) n it = Some (drop n (item_bytes it (ib_data ib)))"
    using ok by (simp add: item_tail_def item_ok_def item_bytes_def subslice_def drop_take add.commute)
qed

lemma those_map: "\<forall>x \<in> set xs. f x = Some (g x) \<Longrightarrow> those (map f xs) = Some (map g xs)"
  by (induction xs) auto

lemma partition_point_map: "partition_point P (map f xs) = partition_point (P \<circ> f) xs"
  by (simp add: partition_point_def takeWhile_map)

lemma partition_point_cong: "\<forall>x \<in> set xs. P x = Q x \<Longrightarrow> partition_point P xs = partition_point Q xs"
  unfolding partition_point_def by (rule arg_cong [of _ _ length]) (auto intro: takeWhile_cong)

lemma binary_search_ready:
  assumes "ib_ready ib" "set its \<subseteq> set (ib_items ib)" "n = common_prefix_len (common_prefix ib) k"
  shows "binary_search_key (ib_data ib) its k n =
    Some (partition_point (\<lambda>x. x < k) (map (\<lambda>it. item_bytes it (ib_data ib)) its))"
proof (cases its)
  case (Cons it rest)
  let ?b = "\<lambda>it. item_bytes it (ib_data ib)"
  have t: "\<forall>i \<in> set its. item_tail (ib_data ib) n i = Some (drop n (?b i)) \<and> (drop n (?b i) < drop n k \<longleftrightarrow> ?b i < k)"
    using item_tail_ready [OF assms(1) _ assms(3)] tail_less(1) [OF _ assms(3)] assms(2) by blast
  have "those (map (item_tail (ib_data ib) n) its) = Some (map (\<lambda>i. drop n (?b i)) its)" using t by (intro those_map) blast
  moreover have "partition_point (\<lambda>t. t < drop n k) (map (\<lambda>i. drop n (?b i)) rest) = partition_point (\<lambda>x. x < k) (map ?b rest)"
    using t Cons by (simp add: partition_point_map comp_def partition_point_cong)
  moreover have "drop n k \<le> drop n (?b it) \<longleftrightarrow> \<not> ?b it < k" using t Cons by (simp flip: not_less)
  ultimately show ?thesis using Cons by (simp add: binary_search_key_def Let_def) (simp add: partition_point_def)
qed (simp add: binary_search_key_def partition_point_def)

lemma partition_point_take: "j < length xs \<Longrightarrow> \<not> P (xs ! j) \<Longrightarrow> partition_point P (take j xs) = partition_point P xs"
  unfolding partition_point_def
proof (induction xs arbitrary: j)
  case (Cons x xs)
  then show ?case by (cases j) auto
qed simp

lemma partition_point_drop:
  assumes "\<forall>x \<in> set (take j xs). P x" "j \<le> length xs"
  shows "partition_point P xs = j + partition_point P (drop j xs)"
proof -
  have "takeWhile P (take j xs @ drop j xs) = take j xs @ takeWhile P (drop j xs)" using assms(1) by (intro takeWhile_append2) blast
  then show ?thesis using assms(2) by (simp add: partition_point_def)
qed

text \<open>Searching from an item that is not above the key.\<close>

lemma splits_from:
  assumes "sorted xs" "j < length xs" "xs ! j \<le> k"
  shows "splits_at k xs (j + partition_point (\<lambda>x. x < k) (drop j xs))"
proof -
  have b: "\<forall>x \<in> set (take j xs). x \<le> xs ! j" using assms(1,2) by (auto simp: in_set_conv_nth sorted_nth_mono)
  show ?thesis
  proof (cases "xs ! j = k")
    case True
    have d: "drop j xs = k # drop (Suc j) xs" using assms(2) True by (metis Cons_nth_drop_Suc)
    have "sorted (drop j xs)" using assms(1) by (rule sorted_wrt_drop)
    then have "\<forall>x \<in> set (drop j xs). k \<le> x" by (simp add: d)
    moreover have "partition_point (\<lambda>x. x < k) (drop j xs) = 0" by (simp add: d partition_point_def)
    ultimately show ?thesis using b True d unfolding splits_at_def by (auto simp: order.order_iff_strict)
  next
    case False
    then have "\<forall>x \<in> set (take j xs). x < k" using b assms(3) by fastforce
    then show ?thesis using splits_partition [OF assms(1), of k] partition_point_drop [of j xs "\<lambda>x. x < k"] assms(2) by simp
  qed
qed

lemma fast_seek_rep:
  assumes "ps_ib_valid ps" "shows_block (ps_ib ps) s"
  shows "try_fast_seek ps k = Some (ps, False) \<or> (\<exists>i. try_fast_seek ps k = Some (ps\<lparr>ps_ib_item_idx := i\<rparr>, True)
    \<and> splits_at k (sb_strs s) i \<and> k \<le> last (sb_strs s) \<and> hd (sb_strs s) \<le> k)"
proof (cases "ps_ib_item_idx ps \<ge> length (ib_items (ps_ib ps))")
  case True
  then show ?thesis by (simp add: try_fast_seek_def)
next
  case False
  let ?ib = "ps_ib ps" and ?S = "sb_strs s" and ?j = "ps_ib_item_idx ps - 1"
  define its where "its = ib_items ?ib"
  define n where "n = common_prefix_len (common_prefix ?ib) k"
  have r: "ib_ready ?ib" "ib_strings ?ib = ?S" using assms(2) by (simp_all add: shows_block_def)
  have S: "map (\<lambda>it. item_bytes it (ib_data ?ib)) its = ?S" "sorted ?S" "length its = length ?S" "its \<noteq> []"
    using r(1) False unfolding r(2) [symmetric] by (auto simp: ib_ready_def ib_strings_def its_def)
  have j: "?j < length ?S" "length ?S - 1 < length ?S" "0 < length ?S" using False S(3) by (auto simp: its_def)
  have t: "item_tail (ib_data ?ib) n (its ! i) = Some (drop n (?S ! i)) \<and> (drop n k < drop n (?S ! i) \<longleftrightarrow> k < ?S ! i)
      \<and> (drop n (?S ! i) < drop n k \<longleftrightarrow> ?S ! i < k)" if i: "i < length ?S" for i
  proof -
    have m: "its ! i \<in> set (ib_items ?ib)" using i S(3) by (simp add: its_def)
    have e: "item_bytes (its ! i) (ib_data ?ib) = ?S ! i" using i S(1,3) by (metis nth_map)
    show ?thesis using item_tail_ready [OF r(1) m n_def] tail_less [OF item_tail_ready(2) [OF r(1) m n_def] n_def] unfolding e by blast
  qed
  have bs: "binary_search_key (ib_data ?ib) (drop i (take w its)) k n = Some (partition_point (\<lambda>x. x < k) (drop i (take w ?S)))" for i w
    using binary_search_ready [OF r(1) _ n_def, of "drop i (take w its)"] S(1)
    by (metis drop_map its_def set_drop_subset set_take_subset subset_trans take_map)
  have ends: "?S ! 0 = hd ?S" "?S ! (length ?S - 1) = last ?S" using j(3) by (simp_all add: hd_conv_nth last_conv_nth)
  have u: "try_fast_seek ps k =
    (if last ?S < k then Some (ps, False)
     else if k < ?S ! ?j then
       (if ?j = 0 then Some (ps, False) else if k < hd ?S then Some (ps, False)
        else Some (ps\<lparr>ps_ib_item_idx := partition_point (\<lambda>x. x < k) (take ?j ?S)\<rparr>, True))
     else Some (ps\<lparr>ps_ib_item_idx := ?j + partition_point (\<lambda>x. x < k) (drop ?j ?S)\<rparr>, True))"
    using assms(1) False t [OF j(1)] t [OF j(2)] t [OF j(3)] bs [of 0 ?j] bs [of ?j "length its"] S(3,4) j(1) ends
    by (simp add: try_fast_seek_def Let_def flip: its_def n_def)
  have pt: "k < ?S ! ?j \<Longrightarrow> partition_point (\<lambda>x. x < k) (take ?j ?S) = partition_point (\<lambda>x. x < k) ?S"
    using j(1) by (intro partition_point_take) simp_all
  have h: "hd ?S \<le> ?S ! ?j" using sorted_nth_mono [OF S(2), of 0 ?j] j(1) ends by simp
  have at: ?thesis if "try_fast_seek ps k = Some (ps\<lparr>ps_ib_item_idx := i\<rparr>, True)" "splits_at k ?S i" "\<not> last ?S < k" "\<not> k < hd ?S" for i
    using that by (intro disjI2 exI [of _ i]) (simp add: not_less)
  show ?thesis
  proof (cases "last ?S < k \<or> k < hd ?S \<or> k < ?S ! ?j \<and> ?j = 0")
    case True
    then have "try_fast_seek ps k = Some (ps, False)" unfolding u using h by (auto simp del: One_nat_def)
    then show ?thesis by (rule disjI1)
  next
    case False
    then have n: "\<not> last ?S < k" "\<not> k < hd ?S" "\<not> (k < ?S ! ?j \<and> ?j = 0)" by (simp_all only: de_Morgan_disj not_False_eq_True)
    show ?thesis
    proof (cases "k < ?S ! ?j")
      case True
      then have "?j \<noteq> 0" using n(3) by (simp only: True_implies_equals simp_thms)
      then have "try_fast_seek ps k = Some (ps\<lparr>ps_ib_item_idx := partition_point (\<lambda>x. x < k) (take ?j ?S)\<rparr>, True)"
        unfolding u using n(1,2) True by (simp only: if_True if_False)
      then show ?thesis using splits_partition [OF S(2), of k] by (intro at [OF _ _ n(1,2)]) (simp_all only: pt [OF True])
    next
      case False
      then have "try_fast_seek ps k = Some (ps\<lparr>ps_ib_item_idx := ?j + partition_point (\<lambda>x. x < k) (drop ?j ?S)\<rparr>, True)"
        unfolding u using n(1,2) by (simp only: if_True if_False)
      moreover have "splits_at k ?S (?j + partition_point (\<lambda>x. x < k) (drop ?j ?S))"
        using splits_from [OF S(2) j(1), of k] False by (simp only: not_less)
      ultimately show ?thesis by (rule at [OF _ _ n(1,2)])
    qed
  qed
qed

section \<open>Stepping\<close>

lemma ps_pos_frame [simp]: "ps_pos Z (ps\<lparr>ps_cur_item := c\<rparr>) = ps_pos Z ps"
  "ps_pos Z (ps\<lparr>ps_ib_item_idx := i\<rparr>) = ps_pos Z ps" "ps_pos Z (ps\<lparr>ps_err := e\<rparr>) = ps_pos Z ps"
  by (simp_all add: ps_pos_def cache_ok_def fun_eq_iff)

lemma current_item:
  assumes "shows_block (ps_ib ps) s" "i < length (sb_strs s)"
  shows "i < length (ib_items (ps_ib ps))" "item_bytes (ib_items (ps_ib ps) ! i) (ib_data (ps_ib ps)) = sb_strs s ! i"
proof -
  have "ib_strings (ps_ib ps) = sb_strs s" using assms(1) by (simp add: shows_block_def)
  then show i: "i < length (ib_items (ps_ib ps))" using assms(2) unfolding ib_strings_def by (metis length_map)
  show "item_bytes (ib_items (ps_ib ps) ! i) (ib_data (ps_ib ps)) = sb_strs s ! i"
    using ib_strings_nth [OF i] \<open>ib_strings (ps_ib ps) = sb_strs s\<close> by simp
qed

lemma holds_block_length: "shows_block ib s \<Longrightarrow> length (ib_items ib) = length (sb_strs s) \<and> sb_strs s \<noteq> []"
  unfolding shows_block_def ib_ready_def ib_strings_def by (metis length_map list.map_disc_iff)

lemma step_to_block:
  assumes "part_ok Z (ps_p ps) gs" "ps_err ps = None" "blocks_of gs = pre @ s # ss" "ps_pos Z ps (s # ss)"
  shows "\<exists>ps'. ps_next_block Z ps = Some (ps', None) \<and> ib_items (ps_ib ps') \<noteq> [] \<and> ps_at Z gs ps' (sb_strs s @ strs_of ss)
    \<and> ps_at Z gs (ps'\<lparr>ps_cur_item := ib_items (ps_ib ps') ! 0, ps_ib_item_idx := 1\<rparr>) (tl (sb_strs s) @ strs_of ss)
    \<and> ps_item (ps'\<lparr>ps_cur_item := ib_items (ps_ib ps') ! 0, ps_ib_item_idx := 1\<rparr>) = hd (sb_strs s)"
proof -
  obtain ps' where n: "ps_next_block Z ps = Some (ps', None)" "loaded Z s ss ps ps'" using next_block_Cons [OF assms(4)] by blast
  have l: "shows_block (ps_ib ps') s" "ps_pos Z ps' ss" "ps_ib_valid ps'" "ps_ib_item_idx ps' = 0" "ps_p ps' = ps_p ps" "ps_err ps' = None"
    using n(2) assms(2) by (simp_all add: loaded_def)
  note h = holds_block_length [OF l(1)]
  have "ps_at Z gs ps' (sb_strs s @ strs_of ss)"
    unfolding ps_at_def ps_ahead_def using assms(1,3) l by (auto simp: ps_error_def)
  moreover have "ps_at Z gs (ps'\<lparr>ps_cur_item := ib_items (ps_ib ps') ! 0, ps_ib_item_idx := 1\<rparr>) (tl (sb_strs s) @ strs_of ss)"
    unfolding ps_at_def ps_ahead_def using assms(1,3) l by (auto simp: ps_error_def drop_Suc)
  ultimately show ?thesis using n(1) h current_item [OF l(1), of 0] by (auto simp: ps_item_def hd_conv_nth)
qed

lemma stored_strs: "located Z p s \<Longrightarrow> sb_strs s \<noteq> []" by (simp add: located_def stored_def)

lemma ps_pos_located: "ps_pos Z ps ss \<Longrightarrow> list_all (located Z (ps_p ps)) ss"
  by (auto simp: ps_pos_def located_groups)

lemma next_item_Cons:
  assumes "ps_at Z gs ps (x # xs)"
  shows "\<exists>ps'. ps_next_item Z ps = Some (ps', True) \<and> ps_at Z gs ps' xs \<and> ps_item ps' = x"
proof -
  have e: "ps_err ps = None" and pk: "part_ok Z (ps_p ps) gs" and a: "ps_ahead Z gs ps (x # xs)"
    using assms by (auto simp: ps_at_def split: if_splits)
  have step: ?thesis if p: "blocks_of gs = pre @ ss" "ps_pos Z ps ss" "strs_of ss = x # xs"
    and skip: "\<not> (ps_ib_valid ps \<and> ps_ib_item_idx ps < length (ib_items (ps_ib ps)))" for pre ss
  proof -
    obtain s ts where s: "ss = s # ts" using p(3) by (cases ss) auto
    have ne: "sb_strs s \<noteq> []" using ps_pos_located [OF p(2)] s stored_strs by auto
    obtain ps' where "ps_next_block Z ps = Some (ps', None)" "ib_items (ps_ib ps') \<noteq> []"
      "ps_at Z gs (ps'\<lparr>ps_cur_item := ib_items (ps_ib ps') ! 0, ps_ib_item_idx := 1\<rparr>) (tl (sb_strs s) @ strs_of ts)"
      "ps_item (ps'\<lparr>ps_cur_item := ib_items (ps_ib ps') ! 0, ps_ib_item_idx := 1\<rparr>) = hd (sb_strs s)"
      using step_to_block [OF pk e, of pre s ts] p s by auto
    moreover have "hd (sb_strs s) = x" "tl (sb_strs s) @ strs_of ts = xs" using p(3) s ne by (cases "sb_strs s"; simp)+
    ultimately show ?thesis using e skip by (auto simp: ps_next_item_def)
  qed
  show ?thesis
  proof (cases "ps_ib_valid ps")
    case True
    then obtain pre s ss where b: "blocks_of gs = pre @ s # ss" "shows_block (ps_ib ps) s" "ps_pos Z ps ss"
      "x # xs = drop (ps_ib_item_idx ps) (sb_strs s) @ strs_of ss" using a by (auto simp: ps_ahead_def)
    note h = holds_block_length [OF b(2)]
    show ?thesis
    proof (cases "ps_ib_item_idx ps < length (sb_strs s)")
      case lt: True
      define ps' where "ps' = ps\<lparr>ps_cur_item := ib_items (ps_ib ps) ! ps_ib_item_idx ps, ps_ib_item_idx := Suc (ps_ib_item_idx ps)\<rparr>"
      have d: "drop (ps_ib_item_idx ps) (sb_strs s) = sb_strs s ! ps_ib_item_idx ps # drop (Suc (ps_ib_item_idx ps)) (sb_strs s)"
        using lt by (simp add: Cons_nth_drop_Suc)
      have "ps_next_item Z ps = Some (ps', True)" using e True lt h by (simp add: ps_next_item_def ps'_def)
      moreover have "ps_item ps' = x" using current_item(2) [OF b(2) lt] b(4) d by (simp add: ps_item_def ps'_def)
      moreover have "ps_at Z gs ps' xs"
        unfolding ps_at_def ps_ahead_def using pk e True b d by (auto simp: ps'_def ps_error_def)
      ultimately show ?thesis by blast
    next
      case False
      then show ?thesis using b h by (intro step [of "pre @ [s]" ss]) auto
    qed
  next
    case False
    then show ?thesis using a by (intro step [of "[]" "blocks_of gs"]) (auto simp: ps_ahead_def)
  qed
qed

lemma next_item_Nil:
  assumes "ps_at Z gs ps []"
  shows "\<exists>ps'. ps_next_item Z ps = Some (ps', False) \<and> ps_at Z gs ps' []"
proof (cases "ps_err ps = None")
  case False
  then show ?thesis using assms by (simp add: ps_next_item_def)
next
  case True
  then have pk: "part_ok Z (ps_p ps) gs" and a: "ps_ahead Z gs ps []" using assms by (auto simp: ps_at_def)
  have nb: "strs_of (blocks_of gs) \<noteq> []"
  proof -
    have "list_all (located Z (ps_p ps)) (blocks_of gs)" "blocks_of gs \<noteq> []"
      using pk located_groups by (auto simp: part_ok_def blocks_of_def located_group_def group_ok_def list_all_iff)
    then show ?thesis using stored_strs by (cases "blocks_of gs") auto
  qed
  then obtain pre s ss where b: "ps_ib_valid ps" "blocks_of gs = pre @ s # ss" "shows_block (ps_ib ps) s" "ps_pos Z ps ss"
    "drop (ps_ib_item_idx ps) (sb_strs s) = []" "strs_of ss = []" using a by (auto simp: ps_ahead_def split: if_splits)
  have "ss = []" using ps_pos_located [OF b(4)] b(6) stored_strs by (cases ss) auto
  then have n: "ps_next_block Z ps = Some (ps, Some PsEof)" using next_block_Nil b(4) by simp
  have "ps_next_item Z ps = Some (ps\<lparr>ps_err := Some PsEof\<rparr>, False)"
    using True n b(5) holds_block_length [OF b(3)] by (simp add: ps_next_item_def)
  moreover have "ps_at Z gs (ps\<lparr>ps_err := Some PsEof\<rparr>) []"
    unfolding ps_at_def using pk a b by (auto simp: ps_error_def ps_ahead_def)
  ultimately show ?thesis by blast
qed

section \<open>Seeking\<close>

text \<open>Stepping back from the partition point: the last element that satisfies the predicate.\<close>

lemma partition_step_back:
  assumes "xs \<noteq> []" "P (hd xs)"
  obtains as y bs where "xs = as @ y # bs" "length as = partition_point P xs - 1" "P y" "\<And>z zs. bs = z # zs \<Longrightarrow> \<not> P z"
proof -
  let ?n = "partition_point P xs"
  have n: "0 < ?n" using assms by (cases xs) (simp_all add: partition_point_def)
  then have l: "?n - 1 < length xs" using partition_point_le [of P xs] by linarith
  have "xs = take (?n - 1) xs @ xs ! (?n - 1) # drop ?n xs" using id_take_nth_drop [OF l] n by simp
  moreover have "P (xs ! (?n - 1))" using n partition_point_before [of "?n - 1" P xs] by simp
  moreover have "\<not> P z" if z: "drop ?n xs = z # zs" for z zs
  proof -
    have "?n < length xs" "xs ! ?n = z" using z by (metis drop_all list.distinct(1) not_le, metis nth_via_drop)
    then show ?thesis using partition_point_at [of P xs] by simp
  qed
  ultimately show ?thesis using l by (intro that) auto
qed

lemma blocks_above:
  assumes "sorted (strs_of ss)" "list_all (located Z p) ss" "\<And>t ts. ss = t # ts \<Longrightarrow> k \<le> hd (sb_strs t)"
  shows "\<forall>x \<in> set (strs_of ss). k \<le> x"
proof (cases ss)
  case (Cons t ts)
  then obtain y ys where y: "sb_strs t = y # ys" using assms(2) stored_strs by (cases "sb_strs t") auto
  with Cons assms(1) assms(3) [of t ts] show ?thesis by (auto intro: order_trans)
qed simp

lemma group_first: "located_group Z p g \<Longrightarrow> g_blocks g \<noteq> [] \<and> mr_first_item (g_row g) = hd (sb_strs (hd (g_blocks g)))"
  by (cases "g_blocks g") (auto simp: located_group_def group_ok_def stored_def)

lemma block_first: "located Z p s \<Longrightarrow> bh_first_item (sb_h s) = hd (sb_strs s)"
  by (simp add: located_def stored_def)

text \<open>Where the slow path looks: every item before the block is below the key, every item after it is not.\<close>

lemma slow_block:
  assumes pk: "part_ok Z (ps_p ps) gs" "cache_ok Z ps" and k: "hd (strs_of (blocks_of gs)) < k"
  shows "\<exists>pre s ss ps1 ps2. ps_next_bhs Z (ps\<lparr>ps_mr_next := partition_point (\<lambda>mr. mr_first_item mr < k) (pt_mrs (ps_p ps)) - 1\<rparr>) = Some (ps1, None)
    \<and> ps_next_block Z (ps1\<lparr>ps_bh_next := partition_point (\<lambda>bh. bh_first_item bh < k) (ps_idxb ps1) - 1\<rparr>) = Some (ps2, None)
    \<and> blocks_of gs = pre @ s # ss \<and> loaded Z s ss ps ps2 \<and> hd (sb_strs s) < k \<and> (\<forall>x \<in> set (strs_of ss). k \<le> x)"
proof -
  have p: "gs \<noteq> []" "list_all (located_group Z (ps_p ps)) gs" "pt_mrs (ps_p ps) = map g_row gs" "sorted (strs_of (blocks_of gs))"
    using pk(1) by (simp_all add: part_ok_def)
  have lh: "located_group Z (ps_p ps) (hd gs)" using p(1,2) by (cases gs) auto
  have f0: "mr_first_item (g_row (hd gs)) < k"
  proof -
    obtain s0 ss0 where s0: "g_blocks (hd gs) = s0 # ss0" using group_first [OF lh] by (cases "g_blocks (hd gs)") auto
    then have "sb_strs s0 \<noteq> []" using lh stored_strs by (auto simp: located_group_def)
    with k group_first [OF lh] s0 p(1) show ?thesis by (cases gs) auto
  qed
  obtain G1 g G2 where G: "gs = G1 @ g # G2" "length G1 = partition_point (\<lambda>g. mr_first_item (g_row g) < k) gs - 1"
    "mr_first_item (g_row g) < k" "\<And>h hs. G2 = h # hs \<Longrightarrow> \<not> mr_first_item (g_row h) < k"
    using partition_step_back [of gs "\<lambda>g. mr_first_item (g_row g) < k"] p(1) f0 by blast
  have lg: "located_group Z (ps_p ps) g" "list_all (located_group Z (ps_p ps)) G2" "list_all (located Z (ps_p ps)) (g_blocks g)"
    using p(2) G(1) by (auto simp: located_group_def)
  note gf = group_first [OF lg(1)]
  have "located Z (ps_p ps) (hd (g_blocks g))" using lg(3) gf by (cases "g_blocks g") auto
  then have b0: "bh_first_item (sb_h (hd (g_blocks g))) < k" using block_first gf G(3) by metis
  obtain B1 s B2 where B: "g_blocks g = B1 @ s # B2" "length B1 = partition_point (\<lambda>s. bh_first_item (sb_h s) < k) (g_blocks g) - 1"
    "bh_first_item (sb_h s) < k" "\<And>h hs. B2 = h # hs \<Longrightarrow> \<not> bh_first_item (sb_h h) < k"
    using partition_step_back [of "g_blocks g" "\<lambda>s. bh_first_item (sb_h s) < k"] gf b0 by blast
  define n where "n = length G1"
  define ps1 where "ps1 = ps\<lparr>ps_mr_next := Suc n, ps_idxb := map sb_h (g_blocks g), ps_bh_next := 0\<rparr>"
  have n: "partition_point (\<lambda>mr. mr_first_item mr < k) (pt_mrs (ps_p ps)) - 1 = n"
    using G(2) by (simp add: n_def p(3) partition_point_map comp_def)
  have "drop n (pt_mrs (ps_p ps)) = map g_row (g # G2)" using p(3) G(1) by (simp add: n_def)
  note nb = next_bhs_rep [OF this lg(1)]
  have m: "partition_point (\<lambda>bh. bh_first_item bh < k) (ps_idxb ps1) - 1 = length B1"
    using B(2) by (simp add: ps1_def partition_point_map comp_def)
  let ?ps = "ps1\<lparr>ps_bh_next := length B1\<rparr>" and ?ss = "B2 @ blocks_of G2"
  have "ps_pos Z ?ps (s # ?ss)"
    unfolding ps_pos_def using lg(2,3) nb(2) B(1) pk(2) by (intro exI [of _ "s # B2"] exI [of _ G2]) (simp add: ps1_def cache_ok_def)
  from next_block_Cons [OF this] obtain ps2 where ps2: "ps_next_block Z ?ps = Some (ps2, None)" "loaded Z s ?ss ?ps ps2" by blast
  have l2: "loaded Z s ?ss ps ps2" using ps2(2) by (simp add: loaded_def ps1_def)
  have all: "blocks_of gs = (blocks_of G1 @ B1) @ s # ?ss" using G(1) B(1) by simp
  have loc: "list_all (located Z (ps_p ps)) (blocks_of gs)" using located_groups [OF p(2)] .
  have first: "k \<le> hd (sb_strs t)" if t: "?ss = t # ts" for t ts
  proof (cases B2)
    case (Cons h hs)
    then show ?thesis using t B(4) [OF Cons] loc all block_first by auto
  next
    case Nil
    then obtain h hs where h: "G2 = h # hs" using t by (cases G2) auto
    then have lh: "located_group Z (ps_p ps) h" using lg(2) by simp
    then have "hd (g_blocks h) = t" using t Nil h group_first [OF lh] by (cases "g_blocks h") auto
    then show ?thesis using G(4) [OF h] group_first [OF lh] by simp
  qed
  have "\<forall>x \<in> set (strs_of ?ss). k \<le> x"
    using p(4) loc first all by (intro blocks_above [where Z = Z and p = "ps_p ps"]) (simp_all add: sorted_append)
  moreover have "hd (sb_strs s) < k" using B(3) block_first [of Z "ps_p ps" s] loc all by simp
  moreover have "ps_next_bhs Z (ps\<lparr>ps_mr_next := n\<rparr>) = Some (ps1, None)" using nb(1) by (simp add: ps1_def)
  moreover have "ps_next_block Z (ps1\<lparr>ps_bh_next := partition_point (\<lambda>bh. bh_first_item bh < k) (ps_idxb ps1) - 1\<rparr>) = Some (ps2, None)"
    unfolding m by (rule ps2(1))
  ultimately show ?thesis using l2 all unfolding n by blast
qed

lemma loaded_at:
  assumes "part_ok Z (ps_p ps) gs" "ps_err ps = None" "loaded Z s ss ps ps'" "blocks_of gs = pre @ s # ss"
  shows "ps_at Z gs (ps'\<lparr>ps_ib_item_idx := i\<rparr>) (drop i (sb_strs s) @ strs_of ss)"
  using assms by (auto simp: ps_at_def ps_ahead_def loaded_def ps_error_def)

lemma step_block_at:
  assumes "part_ok Z (ps_p ps) gs" "ps_err ps = None" "blocks_of gs = pre @ s # ss" "ps_pos Z ps (s # ss)"
  shows "\<exists>ps'. ps_step_block Z ps = Some ps' \<and> ps_at Z gs ps' (sb_strs s @ strs_of ss)"
  using step_to_block [OF assms] by (auto simp: ps_step_block_def)

lemma seek_slow_rep:
  assumes pk: "part_ok Z (ps_p ps) gs" "ps_err ps = None" and c: "cache_ok Z ps" and k: "hd (strs_of (blocks_of gs)) < k" "k \<le> last (strs_of (blocks_of gs))"
  shows "\<exists>ps' ys. ps_seek_slow Z ps k = Some ps' \<and> ps_at Z gs ps' ys \<and> found k (strs_of (blocks_of gs)) ys"
proof -
  obtain pre s ss ps1 ps2 where b:
    "ps_next_bhs Z (ps\<lparr>ps_mr_next := partition_point (\<lambda>mr. mr_first_item mr < k) (pt_mrs (ps_p ps)) - 1\<rparr>) = Some (ps1, None)"
    "ps_next_block Z (ps1\<lparr>ps_bh_next := partition_point (\<lambda>bh. bh_first_item bh < k) (ps_idxb ps1) - 1\<rparr>) = Some (ps2, None)"
    "blocks_of gs = pre @ s # ss" "loaded Z s ss ps ps2" "hd (sb_strs s) < k" "\<forall>x \<in> set (strs_of ss). k \<le> x"
    using slow_block [OF pk(1) c k(1)] by blast
  have h: "shows_block (ps_ib ps2) s" "ps_pos Z ps2 ss" "ps_p ps2 = ps_p ps" "ps_err ps2 = None" using b(4) pk(2) by (simp_all add: loaded_def)
  note len = holds_block_length [OF h(1)]
  define i where "i = partition_point (\<lambda>x. x < k) (sb_strs s)"
  have bs: "binary_search_key (ib_data (ps_ib ps2)) (ib_items (ps_ib ps2)) k (common_prefix_len (common_prefix (ps_ib ps2)) k) = Some i"
    using binary_search_ready [of "ps_ib ps2" "ib_items (ps_ib ps2)"] h(1) by (simp add: shows_block_def i_def ib_strings_def)
  have srt: "sorted (strs_of pre @ sb_strs s @ strs_of ss)" using pk(1) b(3) by (simp add: part_ok_def)
  then have "sorted (sb_strs s)" by (simp add: sorted_append)
  from splits_partition [OF this, of k] have sp: "splits_at k (sb_strs s) i" by (simp add: i_def)
  have f: "found k (strs_of (blocks_of gs)) (drop i (sb_strs s) @ strs_of ss)"
    using found_split [OF srt sp b(6)] b(3) less_imp_le [OF b(5)] len by simp
  have mr: "pt_mrs (ps_p ps) \<noteq> []" using pk(1) by (simp add: part_ok_def)
  show ?thesis
  proof (cases "i < length (sb_strs s)")
    case True
    then have "ps_seek_slow Z ps k = Some (ps2\<lparr>ps_ib_item_idx := i\<rparr>)" using b(1,2) bs mr len by (simp add: ps_seek_slow_def Let_def)
    then show ?thesis using loaded_at [OF pk b(4,3)] f by blast
  next
    case False
    then have d: "drop i (sb_strs s) = []" by simp
    have "strs_of (blocks_of gs) \<noteq> []" using b(3) len by simp
    then have "last (strs_of (blocks_of gs)) \<in> set (strs_of ss)" using f k(2) d by (auto simp: found_def)
    then obtain t ts where t: "ss = t # ts" by (cases ss) auto
    have "ps_seek_slow Z ps k = ps_step_block Z (ps2\<lparr>ps_ib_item_idx := i\<rparr>)"
      using b(1,2) bs mr len False by (simp add: ps_seek_slow_def Let_def)
    then show ?thesis using step_block_at [of Z "ps2\<lparr>ps_ib_item_idx := i\<rparr>" gs "pre @ [s]" t ts] pk(1) h b(3) f t d by auto
  qed
qed

lemma fast_seek_found:
  assumes pk: "part_ok Z (ps_p ps) gs" "ps_err ps = None" and v: "ps_ib_valid ps"
    and b: "blocks_of gs = pre @ s # ss" "shows_block (ps_ib ps) s" "ps_pos Z ps ss"
  shows "try_fast_seek ps k = Some (ps, False) \<or> (\<exists>ps' ys. try_fast_seek ps k = Some (ps', True)
    \<and> ps_at Z gs ps' ys \<and> found k (strs_of (blocks_of gs)) ys)"
  using fast_seek_rep [OF v b(2), of k]
proof (elim disjE exE conjE)
  fix i
  assume i: "try_fast_seek ps k = Some (ps\<lparr>ps_ib_item_idx := i\<rparr>, True)" "splits_at k (sb_strs s) i" "k \<le> last (sb_strs s)" "hd (sb_strs s) \<le> k"
  have ne: "sb_strs s \<noteq> []" using holds_block_length [OF b(2)] by simp
  have srt: "sorted (strs_of pre @ sb_strs s @ strs_of ss)" using pk(1) b(1) by (simp add: part_ok_def)
  have "\<forall>x \<in> set (strs_of ss). k \<le> x" using srt i(3) last_in_set [OF ne] by (auto simp: sorted_append intro: order_trans)
  from found_split [OF srt i(2) this] have "found k (strs_of (blocks_of gs)) (drop i (sb_strs s) @ strs_of ss)"
    using i(4) ne b(1) by simp
  moreover have "ps_at Z gs (ps\<lparr>ps_ib_item_idx := i\<rparr>) (drop i (sb_strs s) @ strs_of ss)"
    using pk v b by (auto simp: ps_at_def ps_ahead_def ps_error_def)
  ultimately show ?thesis using i(1) by blast
qed simp

lemma part_strs:
  assumes "part_ok Z p gs"
  shows "strs_of (blocks_of gs) \<noteq> []" "\<exists>s ss. blocks_of gs = s # ss"
proof -
  have "list_all (located Z p) (blocks_of gs)" "blocks_of gs \<noteq> []"
    using assms located_groups by (auto simp: part_ok_def blocks_of_def located_group_def group_ok_def list_all_iff)
  then show "strs_of (blocks_of gs) \<noteq> []" "\<exists>s ss. blocks_of gs = s # ss" using stored_strs by (cases "blocks_of gs"; auto)+
qed

lemma sorted_le_last: "sorted xs \<Longrightarrow> x \<in> set xs \<Longrightarrow> x \<le> last xs"
  by (induction xs) auto

lemma seek_rewound:
  assumes pk: "part_ok Z (ps_p ps) gs" "ps_err ps = None" and c: "cache_ok Z ps" and r: "ps_mr_next ps = 0" "ps_bh_next ps = length (ps_idxb ps)"
    and k: "k \<le> last (strs_of (blocks_of gs))"
  shows "\<exists>ps' ys. (if k \<le> ph_first_item (pt_ph (ps_p ps)) then ps_step_block Z ps else ps_seek_slow Z ps k) = Some ps'
    \<and> ps_at Z gs ps' ys \<and> found k (strs_of (blocks_of gs)) ys"
proof (cases "k \<le> ph_first_item (pt_ph (ps_p ps))")
  case True
  obtain s ss where b: "blocks_of gs = s # ss" using part_strs(2) [OF pk(1)] by blast
  have p: "list_all (located_group Z (ps_p ps)) gs" "pt_mrs (ps_p ps) = map g_row gs" "sorted (strs_of (blocks_of gs))"
    "k \<le> hd (strs_of (blocks_of gs))" using pk(1) True by (simp_all add: part_ok_def)
  have "ps_pos Z ps (s # ss)" unfolding ps_pos_def using p(1,2) r b c by (intro exI [of _ "[]"] exI [of _ gs]) simp
  then have "\<exists>ps'. ps_step_block Z ps = Some ps' \<and> ps_at Z gs ps' (strs_of (blocks_of gs))"
    using step_block_at [OF pk, of "[]" s ss] b by simp
  moreover have "found k (strs_of (blocks_of gs)) (strs_of (blocks_of gs))"
    using p(3,4) part_strs(1) [OF pk(1)] by (cases "strs_of (blocks_of gs)") (auto simp: found_def)
  ultimately show ?thesis using True by auto
next
  case False
  then have "hd (strs_of (blocks_of gs)) < k" using pk(1) by (simp add: part_ok_def)
  from seek_slow_rep [OF pk c this k] False show ?thesis by simp
qed

lemma seek_rep:
  assumes "ps_at Z gs ps xs"
  shows "\<exists>ps' ys. ps_seek Z ps k = Some ps' \<and> ps_at Z gs ps' ys \<and> found k (strs_of (blocks_of gs)) ys"
proof -
  let ?all = "strs_of (blocks_of gs)" and ?ps = "ps\<lparr>ps_err := None\<rparr>"
  let ?re = "\<lambda>ps. ps\<lparr>ps_mr_next := 0, ps_bh_next := length (ps_idxb ps), ps_ib_valid := False, ps_ib_item_idx := 0\<rparr>"
  have pk: "part_ok Z (ps_p ps) gs" "ps_error ps = None" using assms by (simp_all add: ps_at_def)
  obtain zs where a: "ps_ahead Z gs ps zs" using assms by (auto simp: ps_at_def)
  have c: "cache_ok Z ps" using a by (auto simp: ps_ahead_def ps_pos_def split: if_splits)
  have l: "ph_last_item (pt_ph (ps_p ps)) = last ?all" "sorted ?all" using pk(1) by (simp_all add: part_ok_def)
  have ne: "?all \<noteq> []" by (rule part_strs(1) [OF pk(1)])
  show ?thesis
  proof (cases "last ?all < k")
    case True
    have "\<forall>x \<in> set ?all. x \<le> last ?all" using sorted_le_last [OF l(2)] by blast
    then have "found k ?all []" using True by (fastforce simp: found_def)
    moreover have "ps_at Z gs (?ps\<lparr>ps_err := Some PsEof\<rparr>) []" using pk a by (auto simp: ps_at_def ps_error_def ps_ahead_def)
    moreover have "ps_seek Z ps k = Some (?ps\<lparr>ps_err := Some PsEof\<rparr>)" using pk(2) True l(1) by (simp add: ps_seek_def Let_def)
    ultimately show ?thesis by blast
  next
    case False
    then have u: "ps_seek Z ps k = (case try_fast_seek ?ps k of None \<Rightarrow> None | Some (ps, True) \<Rightarrow> Some ps
        | Some (ps, False) \<Rightarrow> if k \<le> ph_first_item (pt_ph (ps_p (?re ps))) then ps_step_block Z (?re ps) else ps_seek_slow Z (?re ps) k)"
      using pk(2) l(1) unfolding ps_seek_def Let_def by simp
    have re: "\<exists>ps' ys. (if k \<le> ph_first_item (pt_ph (ps_p (?re ?ps))) then ps_step_block Z (?re ?ps) else ps_seek_slow Z (?re ?ps) k) = Some ps'
        \<and> ps_at Z gs ps' ys \<and> found k ?all ys" using pk(1) False c by (intro seek_rewound) (simp_all add: cache_ok_def)
    show ?thesis
    proof (cases "ps_ib_valid ps")
      case True
      then obtain pre s ss where b: "blocks_of gs = pre @ s # ss" "shows_block (ps_ib ?ps) s" "ps_pos Z ?ps ss"
        using a by (auto simp: ps_ahead_def)
      have "part_ok Z (ps_p ?ps) gs" "ps_err ?ps = None" "ps_ib_valid ?ps" using pk(1) True by simp_all
      from fast_seek_found [OF this b, of k] show ?thesis unfolding u using re by auto
    next
      case False
      then have "try_fast_seek ?ps k = Some (?ps, False)" by (simp add: try_fast_seek_def Let_def)
      then show ?thesis unfolding u using re by simp
    qed
  qed
qed

section \<open>Cursors\<close>

text \<open>
  A cursor over an ordered list of items: a source of items that can be repositioned at any time. It
  stays usable whatever its client does, and every seek is answered as if it were the first.
\<close>

locale cursor = block_source nxt blk failed rep
  for nxt :: "'r \<Rightarrow> ('r \<times> bool) option" and blk :: "'r \<Rightarrow> 'k::linorder" and failed :: "'r \<Rightarrow> bool" and rep :: "'r \<Rightarrow> 'k list \<Rightarrow> bool" +
  fixes sk :: "'r \<Rightarrow> 'k \<Rightarrow> 'r option"
    and answers :: "'k \<Rightarrow> 'k list \<Rightarrow> bool"
    and bound :: nat
  assumes sk_found: "rep r xs \<Longrightarrow> \<exists>r' ys. sk r k = Some r' \<and> rep r' ys \<and> answers k ys"
    and nxt_stays: "rep r [] \<Longrightarrow> nxt r = Some (r', False) \<Longrightarrow> rep r' []"
    and answers_bound: "answers k ys \<Longrightarrow> length ys \<le> bound"
begin

lemma run_rep: "rep r xs \<Longrightarrow> \<exists>r' ys. cursor_run nxt sk ops r = Some r' \<and> rep r' ys"
proof (induction ops arbitrary: r xs)
  case (Cons op ops)
  show ?case
  proof (cases op)
    case (Seek k)
    then show ?thesis using sk_found [OF Cons.prems, of k] Cons.IH by fastforce
  next
    case Step
    show ?thesis
    proof (cases xs)
      case Nil
      then show ?thesis using nxt_end [of r] nxt_stays [of r] Cons.prems Cons.IH Step by fastforce
    next
      case (Cons y ys)
      then show ?thesis using nxt_block [of r y ys] Cons.prems Cons.IH Step by fastforce
    qed
  qed
qed auto

lemma run_seek_drain:
  assumes "rep r xs"
  shows "\<exists>r1 r2 ys. cursor_run nxt sk ops r = Some r1 \<and> sk r1 k = Some r2
    \<and> drain nxt blk failed (Suc bound) r2 = Some ys \<and> answers k ys"
proof -
  obtain r1 zs where r1: "cursor_run nxt sk ops r = Some r1" "rep r1 zs" using run_rep [OF assms] by blast
  obtain r2 ys where r2: "sk r1 k = Some r2" "rep r2 ys" "answers k ys" using sk_found [OF r1(2)] by blast
  have "drain nxt blk failed (Suc bound) r2 = Some ys" using answers_bound [OF r2(3)] by (intro drain_rep [OF r2(2)]) simp
  with r1(1) r2 show ?thesis by blast
qed

end

lemma found_length: "found k xs ys \<Longrightarrow> length ys \<le> length xs"
  by (auto simp: found_def)

interpretation part_cursor: cursor "ps_next_item Z" ps_item "\<lambda>ps. ps_error ps \<noteq> None" "ps_at Z gs" "ps_seek Z"
  "\<lambda>k. found k (strs_of (blocks_of gs))" "length (strs_of (blocks_of gs))"
proof
  fix r xs k and b :: bytes
  show "ps_at Z gs r (b # xs) \<Longrightarrow> \<exists>r'. ps_next_item Z r = Some (r', True) \<and> ps_at Z gs r' xs \<and> ps_item r' = b"
    by (rule next_item_Cons)
  show "ps_at Z gs r [] \<Longrightarrow> \<exists>r'. ps_next_item Z r = Some (r', False) \<and> \<not> ps_error r' \<noteq> None"
    using next_item_Nil [of Z gs r] by (auto simp: ps_at_def)
  show "ps_at Z gs r xs \<Longrightarrow> \<exists>r' ys. ps_seek Z r k = Some r' \<and> ps_at Z gs r' ys \<and> found k (strs_of (blocks_of gs)) ys"
    by (rule seek_rep)
  show "ps_at Z gs r []" if "ps_at Z gs q []" "ps_next_item Z q = Some (r, False)" for q
    using next_item_Nil [OF that(1)] that(2) by auto
  show "length xs \<le> length (strs_of (blocks_of gs))" if "found k (strs_of (blocks_of gs)) xs"
    using that by (rule found_length)
qed

section \<open>Parts that were written\<close>

lemma read_at_middle:
  assumes "unat off = length a" "n = length b"
  shows "must_read_at (PfMem (a @ b @ c)) n off = Some b"
  using assms by (simp add: subslice_def)

lemma placed_blocks_read:
  assumes "placed_blocks (length a) (length b) ss" "length a + length (concat (map sb_items ss)) < 2 ^ 64"
    "length b + length (concat (map sb_lens ss)) < 2 ^ 64" "s \<in> set ss"
  shows "must_read_at (PfMem (a @ concat (map sb_items ss))) (length (sb_items s)) (bh_items_block_offset (sb_h s)) = Some (sb_items s)
    \<and> must_read_at (PfMem (b @ concat (map sb_lens ss))) (length (sb_lens s)) (bh_lens_block_offset (sb_h s)) = Some (sb_lens s)"
  using assms
proof (induction ss arbitrary: a b)
  case (Cons t ss)
  show ?case
  proof (cases "s = t")
    case True
    have "unat (bh_items_block_offset (sb_h s)) = length a" "unat (bh_lens_block_offset (sb_h s)) = length b"
      using Cons.prems True by (simp_all add: unat_of_nat)
    then show ?thesis using read_at_middle [of _ a _ "sb_items s"] read_at_middle [of _ b _ "sb_lens s"] True by simp
  next
    case False
    then show ?thesis using Cons.IH [of "a @ sb_items t" "b @ sb_lens t"] Cons.prems by simp
  qed
qed simp

lemma placed_index_read:
  assumes "placed_index (length a) gs" "length a + length (concat (map g_packed gs)) < 2 ^ 64" "g \<in> set gs"
  shows "must_read_at (PfMem (a @ concat (map g_packed gs))) (length (g_packed g)) (mr_index_block_offset (g_row g)) = Some (g_packed g)"
  using assms
proof (induction gs arbitrary: a)
  case (Cons h gs)
  show ?case
  proof (cases "g = h")
    case True
    then have "unat (mr_index_block_offset (g_row g)) = length a" using Cons.prems by (simp add: unat_of_nat)
    then show ?thesis using read_at_middle [of _ a _ "g_packed g"] True by simp
  next
    case False
    then show ?thesis using Cons.IH [of "a @ g_packed h"] Cons.prems by simp
  qed
qed simp

lemma concat_bound: "\<forall>x \<in> set xs. length (f x) \<le> c \<Longrightarrow> length (concat (map f xs)) \<le> c * length xs"
  by (induction xs) auto

lemma concat_ends:
  assumes "xss \<noteq> []" "\<forall>xs \<in> set xss. xs \<noteq> []"
  shows "hd (concat xss) = hd (hd xss)" "last (concat xss) = last (last xss)"
proof -
  show "hd (concat xss) = hd (hd xss)" using assms by (cases xss) simp_all
  show "last (concat xss) = last (last xss)" using assms by (induction xss rule: rev_induct) simp_all
qed

text \<open>Offsets grow by the bytes of the blocks, so two blocks with bytes have different offsets.\<close>

lemma placed_from:
  assumes "placed_blocks io lo ss" "io + length (concat (map sb_items ss)) < 2 ^ 64" "s \<in> set ss"
  shows "io \<le> unat (bh_items_block_offset (sb_h s))"
  using assms
proof (induction ss arbitrary: io lo)
  case (Cons t ss)
  show ?case
  proof (cases "s = t")
    case True
    then show ?thesis using Cons.prems by (simp add: unat_of_nat)
  next
    case False
    then have "io + length (sb_items t) \<le> unat (bh_items_block_offset (sb_h s))"
      using Cons.prems Cons.IH [of "io + length (sb_items t)" "lo + length (sb_lens t)"] by simp
    then show ?thesis by simp
  qed
qed simp

lemma placed_keys:
  assumes "placed_blocks io lo ss" "io + length (concat (map sb_items ss)) < 2 ^ 64" "\<forall>s \<in> set (butlast ss). P s \<longrightarrow> sb_items s \<noteq> []"
    "s \<in> set ss" "t \<in> set ss" "P s" "P t" "bh_items_block_offset (sb_h s) = bh_items_block_offset (sb_h t)"
  shows "s = t"
  using assms
proof (induction ss arbitrary: io lo)
  case (Cons u ss)
  let ?io = "io + length (sb_items u)" and ?lo = "lo + length (sb_lens u)"
  have p: "placed_blocks ?io ?lo ss" "?io + length (concat (map sb_items ss)) < 2 ^ 64" using Cons.prems(1,2) by simp_all
  have first: "bh_items_block_offset (sb_h v) \<noteq> bh_items_block_offset (sb_h u)" if v: "v \<in> set ss" "P u" for v
  proof -
    have "u \<in> set (butlast (u # ss))" using v(1) by (cases ss) auto
    then have "sb_items u \<noteq> []" using Cons.prems(3) v(2) by blast
    moreover have "?io \<le> unat (bh_items_block_offset (sb_h v))" by (rule placed_from [OF p v(1)])
    moreover have "unat (bh_items_block_offset (sb_h u)) = io" using Cons.prems(1,2) by (simp add: unat_of_nat)
    ultimately show ?thesis by (cases "sb_items u") auto
  qed
  have b: "\<forall>s \<in> set (butlast ss). P s \<longrightarrow> sb_items s \<noteq> []" using Cons.prems(3) by (auto split: if_splits)
  show ?case
  proof (cases "s = u \<or> t = u")
    case True
    then show ?thesis using first [of s] first [of t] Cons.prems(4-8) by auto
  next
    case False
    then show ?thesis using Cons.IH [OF p b] Cons.prems(4-8) by simp
  qed
qed simp

lemma stored_bytes:
  assumes "stored Z s" "varied (sb_strs s)" "bh_items_count (sb_h s) \<noteq> 1"
  shows "sb_items s \<noteq> []"
proof -
  have "length (sb_strs s) \<noteq> 1"
  proof
    assume "length (sb_strs s) = 1"
    then have "unat (bh_items_count (sb_h s)) = unat (1 :: u32)" using assms(1) by (simp add: stored_def)
    with assms(3) show False by (simp add: word_unat_eq_iff)
  qed
  then show ?thesis using assms(1,2) by (auto simp: stored_def varied_def)
qed

lemma part_has_blocks:
  assumes "pt_mrs p = map g_row gs" "\<forall>g \<in> set gs. group_ok Z g \<and> group_sorted g
      \<and> must_read_at (pt_index_file p) (length (g_packed g)) (mr_index_block_offset (g_row g)) = Some (g_packed g)"
  shows "part_has Z p bh \<longleftrightarrow> bh \<in> sb_h ` set (blocks_of gs)"
proof -
  have r: "ps_read_index_block Z p (g_row (gs ! i)) = Inr (map sb_h (g_blocks (gs ! i)))" if "i < length gs" for i
    using assms(2) nth_mem [OF that] by (intro read_group_at) blast+
  have "part_has Z p bh \<longleftrightarrow> (\<exists>i j. i < length gs \<and> j < length (g_blocks (gs ! i)) \<and> bh = sb_h (g_blocks (gs ! i) ! j))"
    using r assms(1) by (auto simp: part_has_def part_header_at_def split: if_splits)
  then show ?thesis by (force simp: blocks_of_def in_set_conv_nth)
qed

lemma part_files:
  assumes "part_rep Z bufs gs" "bs = map sb_strs (blocks_of gs)" "gs \<noteq> []" "sorted (concat bs)" "length bs < 2 ^ 40"
  shows "\<exists>p. mp_new_part Z pid (mp_from_buffers ph bufs) = Some p \<and> files_ok Z p gs \<and> pt_id p = pid \<and> pt_ph p = ph"
proof -
  obtain m idx its l where b: "bufs = (m, idx, its, l)" by (cases bufs)
  have p: "list_all (group_ok Z) gs" "idx = concat (map g_packed gs)" "its = concat (map sb_items (blocks_of gs))"
    "l = concat (map sb_lens (blocks_of gs))" "placed_index 0 gs" "placed_blocks 0 0 (blocks_of gs)"
    "decompress_zstd Z [] m = Inr (concat (map (\<lambda>g. mr_marshal (g_row g) []) gs))"
    using assms(1) by (simp_all add: part_rep_def b Let_def blocks_of_def)
  have st: "list_all (stored Z) (blocks_of gs)" using groups_stored [OF p(1)] by (simp add: blocks_of_def)
  have "sorted (map hd bs)" using assms(2,4) st by (intro sorted_heads) (auto simp: list_all_iff stored_def)
  then have so: "sorted (map (\<lambda>s. bh_first_item (sb_h s)) (blocks_of gs))"
    unfolding stored_first [OF st] assms(2) .
  note sorted_gs = groups_sorted [OF p(1) so [unfolded blocks_of_def]]
  have mrs: "unmarshal_metaindex_rows Z m = Inr (map g_row gs)"
    by (rule unmarshal_rows_marshal) (use p assms(3) sorted_gs(2) in \<open>simp_all add: list_all_iff group_ok_def comp_def\<close>)
  have n: "length (blocks_of gs) < 2 ^ 40" "length gs < 2 ^ 40"
    using assms(2,5) groups_count [OF p(1)] by (simp_all add: blocks_of_def)
  have "\<forall>s \<in> set (blocks_of gs). length (sb_items s) \<le> 131072 \<and> length (sb_lens s) \<le> 1048576"
    using st by (auto simp: list_all_iff stored_def bh_wf_def MAX_INMEMORY_BLOCK_SIZE_def)
  then have d: "length (concat (map sb_items (blocks_of gs))) < 2 ^ 64" "length (concat (map sb_lens (blocks_of gs))) < 2 ^ 64"
    using concat_bound [of "blocks_of gs" sb_items 131072] concat_bound [of "blocks_of gs" sb_lens 1048576] n(1) by simp_all
  have "\<forall>g \<in> set gs. length (g_packed g) \<le> 262144"
    using p(1) by (auto simp: list_all_iff group_ok_def mr_wf_def MAX_INDEX_BLOCK_SIZE_def)
  then have di: "length (concat (map g_packed gs)) < 2 ^ 64" using concat_bound [of gs g_packed 262144] n(2) by simp
  define q where "q = \<lparr>pt_id = pid, pt_ph = ph, pt_size = mp_size (mp_from_buffers ph bufs), pt_mrs = map g_row gs, pt_index_file = PfMem idx,
    pt_items_file = PfMem its, pt_lens_file = PfMem l\<rparr>"
  have "mp_new_part Z pid (mp_from_buffers ph bufs) = Some q"
    by (simp add: mp_new_part_def part_new_def mp_from_buffers_def b mrs q_def ph_copy_from_def)
  moreover have "files_ok Z q gs"
    using placed_index_read [of "[]" gs] placed_blocks_read [of "[]" "[]" "blocks_of gs"] p(1-6) d di sorted_gs(1) st
    by (auto simp: files_ok_def list_all_iff q_def)
  ultimately show ?thesis by (simp add: q_def)
qed

text \<open>With blocks of different items, no two of them have the same key.\<close>

lemma files_keys:
  assumes f: "files_ok Z p gs" and v: "list_all varied (butlast (map sb_strs (blocks_of gs)))" and s: "s \<in> set (blocks_of gs)"
  shows "own_key Z p (sb_h s)" "part_has Z p (sb_h s)"
proof -
  have has: "part_has Z p bh \<longleftrightarrow> bh \<in> sb_h ` set (blocks_of gs)" for bh
    using f by (intro part_has_blocks) (simp_all add: files_ok_def)
  then show "part_has Z p (sb_h s)" using s by simp
  have b: "sb_items t \<noteq> []" if t: "t \<in> set (butlast (blocks_of gs))" "bh_items_count (sb_h t) \<noteq> 1" for t
  proof (rule stored_bytes [OF _ _ t(2)])
    show "stored Z t" using f in_set_butlastD [OF t(1)] by (simp add: files_ok_def)
    show "varied (sb_strs t)" using v t(1) by (simp add: list_all_iff flip: map_butlast)
  qed
  show "own_key Z p (sb_h s)" unfolding own_key_def has
  proof (intro allI impI, elim conjE imageE)
    fix bh' t assume t: "bh_items_count bh' \<noteq> 1" "bh_items_count (sb_h s) \<noteq> 1" "ib_key p bh' = ib_key p (sb_h s)" "bh' = sb_h t" "t \<in> set (blocks_of gs)"
    have "s = t" by (rule placed_keys [of 0 0 "blocks_of gs" "\<lambda>s. bh_items_count (sb_h s) \<noteq> 1"])
        (use f b s t in \<open>auto simp: ib_key_def files_ok_def\<close>)
    then show "bh' = sb_h s" using t(4) by simp
  qed
qed

lemma part_opened:
  assumes "part_rep Z bufs gs" "bs = map sb_strs (blocks_of gs)" "ph_ok ph bs" "sorted (concat bs)" "length bs < 2 ^ 40"
    "list_all varied (butlast bs)"
  shows "\<exists>p. mp_new_part Z pid (mp_from_buffers ph bufs) = Some p \<and> part_ok Z p gs \<and> strs_of (blocks_of gs) = concat bs"
proof -
  have ne: "gs \<noteq> []" using assms(2,3) by (auto simp: ph_ok_def)
  obtain q where q: "mp_new_part Z pid (mp_from_buffers ph bufs) = Some q" "files_ok Z q gs" "pt_ph q = ph"
    using part_files [OF assms(1,2) ne assms(4,5)] by blast
  have all: "strs_of (blocks_of gs) = concat bs" by (simp add: strs_of_def assms(2))
  have "located Z q s" if "s \<in> set (blocks_of gs)" for s
    using q(2) files_keys [OF q(2) _ that] assms(2,6) that by (simp add: located_def files_ok_def)
  then have "list_all (located_group Z q) gs"
    using q(2) by (auto simp: list_all_iff located_group_def files_ok_def blocks_of_def)
  moreover have "bs \<noteq> []" "\<forall>xs \<in> set bs. xs \<noteq> []" using assms(2,3) q(2) by (auto simp: ph_ok_def files_ok_def stored_def)
  then have "hd (concat bs) = hd (hd bs)" "last (concat bs) = last (last bs)" by (rule concat_ends)+
  ultimately show ?thesis using q ne assms(3,4) by (simp add: part_ok_def all ph_ok_def files_ok_def)
qed

lemma ps_new_at: "part_ok Z p gs \<Longrightarrow> ps_at Z gs (ps_new env p) (strs_of (blocks_of gs))"
  unfolding ps_at_def ps_ahead_def ps_pos_def
  by (simp add: ps_new_def ps_error_def cache_ok_def bc_new_def only_values_def) (auto simp: part_ok_def intro: exI [of _ "[]"])

lemma part_written:
  assumes "zstd_ok Z" "zstd_bounded Z" "list_all block_ok bs" "length bs < 2 ^ 40"
    "sorted (concat (map ib_strings bs))" "ph_ok ph (map ib_strings bs)" "list_all varied (butlast (map ib_strings bs))"
  shows "\<exists>w w' bufs p gs. write_blocks Z (bsw_new_inmemory_part level) bs = Some w
    \<and> bsw_must_close Z w = Some (w', bufs) \<and> mp_new_part Z pid (mp_from_buffers ph bufs) = Some p
    \<and> part_ok Z p gs \<and> strs_of (blocks_of gs) = concat (map ib_strings bs)"
proof -
  obtain w ts where w: "write_blocks Z (bsw_new_inmemory_part level) bs = Some w" "bsw_rep Z w ts"
    "map sb_strs ts = map ib_strings bs"
    using write_blocks_rep [OF assms(1,2) bsw_new_rep [of Z level] assms(3)] by auto
  have n: "length ts < 2 ^ 40" using arg_cong [OF w(3), of length] assms(4) by simp
  then obtain w' bufs gs where c: "bsw_must_close Z w = Some (w', bufs)" "part_rep Z bufs gs" "ts = blocks_of gs"
    using must_close_rep [OF assms(1,2) w(2)] unfolding blocks_of_def by blast
  obtain p where p: "mp_new_part Z pid (mp_from_buffers ph bufs) = Some p" "part_ok Z p gs"
    "strs_of (blocks_of gs) = concat (map ib_strings bs)"
    using part_opened [OF c(2) _ assms(6,5) _ assms(7), of pid] w(3) c(3) n by auto
  with w(1) c(1) show ?thesis by blast
qed

section \<open>Properties\<close>

lemma two_item_blocks:
  assumes "b = fst (ib_add (fst (ib_add ib_default [x])) [y])" "x \<le> y"
  shows "ib_strings b = [[x], [y]]" "block_ok b"
proof -
  show s: "ib_strings b = [[x], [y]]"
    by (simp add: assms(1) ib_add_def ib_default_def MAX_INMEMORY_BLOCK_SIZE_def ib_strings_def item_bytes_def subslice_def)
  have "length (ib_data b) = 2" "ib_items b \<noteq> []" "list_all (item_ok (ib_data b)) (ib_items b)"
    by (simp_all add: assms(1) ib_add_def ib_default_def MAX_INMEMORY_BLOCK_SIZE_def item_ok_def)
  then show "block_ok b" using assms(2) by (auto simp: block_ok_def ib_invar_def s MAX_INMEMORY_BLOCK_SIZE_def)
qed

text \<open>
  C8: a cursor over a part that was written from sorted blocks answers every seek, whatever seeks and
  steps came before it and whatever other cursors and evictions do to the cache of blocks meanwhile:
  stepping to the end returns a tail of the items of the part, in order, and exactly the items that are
  not below the key. Neither the search in the metaindex, the headers and the block nor the shortcut
  within the current block loses one, and nothing panics or fails. It is required that no block of the
  part but the last consists of several equal items: such a block has no bytes in the stream of items,
  the next block has the same key in the cache, and the cache may return one for the other.\<close>

theorem part_search_correct:
  assumes "zstd_ok Z" "zstd_bounded Z" "list_all block_ok bs" "length bs < 2 ^ 40"
    "sorted (concat (map ib_strings bs))" "ph_ok ph (map ib_strings bs)" "list_all varied (butlast (map ib_strings bs))"
  shows "\<exists>w w' bufs p ps1 ps2 ys. write_blocks Z (bsw_new_inmemory_part level) bs = Some w
    \<and> bsw_must_close Z w = Some (w', bufs) \<and> mp_new_part Z pid (mp_from_buffers ph bufs) = Some p
    \<and> cursor_run (ps_next_item Z) (ps_seek Z) ops (ps_new env p) = Some ps1 \<and> ps_seek Z ps1 k = Some ps2
    \<and> ps_items_from Z (Suc (length (concat (map ib_strings bs)))) ps2 = Some ys
    \<and> found k (concat (map ib_strings bs)) ys"
proof -
  obtain w w' bufs p gs where p: "write_blocks Z (bsw_new_inmemory_part level) bs = Some w" "bsw_must_close Z w = Some (w', bufs)"
    "mp_new_part Z pid (mp_from_buffers ph bufs) = Some p" "part_ok Z p gs" "strs_of (blocks_of gs) = concat (map ib_strings bs)"
    using part_written [OF assms, of level] by blast
  from part_cursor.run_seek_drain [OF ps_new_at [OF p(4)], of ops env k] p(1-3) show ?thesis
    unfolding p(5) ps_items_from_def by blast
qed

theorem part_search_correct_witness:
  "\<exists>w w' bufs p ps1 ps2. write_blocks stored_zstd (bsw_new_inmemory_part 1)
      [fst (ib_add (fst (ib_add ib_default [4])) [5]), fst (ib_add (fst (ib_add ib_default [6])) [7])] = Some w
    \<and> bsw_must_close stored_zstd w = Some (w', bufs)
    \<and> mp_new_part stored_zstd 1 (mp_from_buffers
        \<lparr>ph_items_count = 4, ph_blocks_count = 2, ph_first_item = [4], ph_last_item = [7]\<rparr> bufs) = Some p
    \<and> cursor_run (ps_next_item stored_zstd) (ps_seek stored_zstd) [Seek [6], Step, Seek [1]]
        (ps_new [[OtherPut 0 0, OtherGet (Key 1 2)], [CleanMisses, OtherPut 0 1], [Evict (Key 1 0)]] p) = Some ps1
    \<and> ps_seek stored_zstd ps1 [5] = Some ps2 \<and> ps_items_from stored_zstd 5 ps2 = Some [[5], [6], [7]]"
proof -
  let ?b = "fst (ib_add (fst (ib_add ib_default [4])) [5])" and ?c = "fst (ib_add (fst (ib_add ib_default [6])) [7])"
  let ?bs = "[?b, ?c]" and ?env = "[[OtherPut 0 0, OtherGet (Key 1 2)], [CleanMisses, OtherPut 0 1], [Evict (Key 1 0)]]"
  have i: "ib_strings ?b = [[4], [5]]" "block_ok ?b" "ib_strings ?c = [[6], [7]]" "block_ok ?c"
    by (rule two_item_blocks [OF refl], simp)+
  have s: "map ib_strings ?bs = [[[4], [5]], [[6], [7]]]" using i by simp
  have b: "list_all block_ok ?bs" using i by simp
  let ?ph = "\<lparr>ph_items_count = 4, ph_blocks_count = 2, ph_first_item = [4], ph_last_item = [7]\<rparr>"
  have p: "sorted (concat (map ib_strings ?bs))" "ph_ok ?ph (map ib_strings ?bs)" "length ?bs < 2 ^ 40"
    "list_all varied (butlast (map ib_strings ?bs))"
    unfolding s by (simp_all add: ph_ok_def varied_def)
  have l: "Suc (length (concat [[[4], [5]], [[6], [7 :: u8]]])) = 5" by simp
  from part_search_correct [OF stored_zstd_ok stored_zstd_bounded b p(3,1,2,4), where level = 1 and pid = 1 and ops = "[Seek [6], Step, Seek [1]]" and env = ?env and k = "[5]", unfolded s l]
  obtain w w' bufs q ps1 ps2 ys where r: "write_blocks stored_zstd (bsw_new_inmemory_part 1) ?bs = Some w"
    "bsw_must_close stored_zstd w = Some (w', bufs)" "mp_new_part stored_zstd 1 (mp_from_buffers ?ph bufs) = Some q"
    "cursor_run (ps_next_item stored_zstd) (ps_seek stored_zstd) [Seek [6], Step, Seek [1]] (ps_new ?env q) = Some ps1"
    "ps_seek stored_zstd ps1 [5] = Some ps2" "ps_items_from stored_zstd 5 ps2 = Some ys" "found [5] (concat [[[4], [5]], [[6], [7]]]) ys"
    by blast
  have "ys = [[5], [6], [7]]" using found_distinct [OF r(7)] by simp
  with r(1-6) show ?thesis by blast
qed

end
