(* ===== verification/Cache_Collision.thy ===== *)
theory Cache_Collision
  imports Part_Search_Correct
begin

text \<open>
  Where the condition of \<open>Part_Search_Correct\<close> on equal items comes from: the key of a data block in the
  cache of \<open>Block_Cache\<close> is the offset of its bytes in the stream of items, and a block of several equal
  items has no bytes there. The next block has the same key, and readers get one block for the other.
\<close>

section \<open>Loading blocks\<close>


section \<open>Blocks of equal items\<close>

lemma common_prefix_len_self [simp]: "common_prefix_len x x = length x"
  by (induction x) simp_all






section \<open>Readers\<close>




end
