(* ===== verification/Mergeset_Merge.thy ===== *)
theory Mergeset_Merge
  imports Block_Stream_Correct
begin

text \<open>
  K-way merging of block streams (\<open>crates/esm-mergeset/src/merge.rs\<close>): a binary heap of readers
  ordered by their current item, a scratch block that collects the merged items, and the block
  stream writer that receives full blocks.

  Readers are the elements of a list and the heap holds their indices, as in the code. \<open>None\<close> stands
  for a panic, and for the one way the code can loop for ever: an item that does not fit an empty
  scratch block is retried without end. The merged-items counter, which the code adds up locally
  and moves to a shared atomic about once per second and on exit, is one field. The stop signal is
  polled once per round; its answers are an argument.
\<close>

section \<open>The heap of readers\<close>

text \<open>\<open>bsrs[k].curr_item()\<close>.\<close>

definition cur :: "block_stream_reader list \<Rightarrow> nat \<Rightarrow> bytes option" where
  "cur bsrs k = (if k < length bsrs then curr_item (bsrs ! k) else None)"

definition heap_less :: "(nat \<Rightarrow> 'k::linorder option) \<Rightarrow> nat list \<Rightarrow> nat \<Rightarrow> nat \<Rightarrow> bool option" where
  "heap_less c heap i j =
    (if i < length heap \<and> j < length heap
     then (case (c (heap ! i), c (heap ! j)) of (Some a, Some b) \<Rightarrow> Some (a < b) | _ \<Rightarrow> None)
     else None)"

definition swap_at :: "'a list \<Rightarrow> nat \<Rightarrow> nat \<Rightarrow> 'a list" where
  "swap_at xs i j = xs[i := xs ! j, j := xs ! i]"

lemma length_swap_at [simp]: "length (swap_at xs i j) = length xs"
  by (simp add: swap_at_def)

function sift_down :: "(nat \<Rightarrow> 'k::linorder option) \<Rightarrow> nat list \<Rightarrow> nat \<Rightarrow> nat list option" where
  "sift_down c heap i =
    (let n = length heap; left = 2 * i + 1 in
     if left \<ge> n then Some heap
     else
       let right = left + 1 in
       case (if right < n then heap_less c heap right left else Some False) of
         None \<Rightarrow> None
       | Some b \<Rightarrow>
         let smallest = (if b then right else left) in
         (case heap_less c heap smallest i of
            None \<Rightarrow> None
          | Some l \<Rightarrow> if \<not> l then Some heap else sift_down c (swap_at heap i smallest) smallest))"
  by pat_completeness auto
termination
  by (relation "measure (\<lambda>(c, heap, i). length heap - i)") (auto split: if_splits)

declare sift_down.simps [simp del]

fun heap_init_loop :: "(nat \<Rightarrow> 'k::linorder option) \<Rightarrow> nat \<Rightarrow> nat list \<Rightarrow> nat list option" where
  "heap_init_loop c 0 heap = Some heap"
| "heap_init_loop c (Suc i) heap =
    (case sift_down c heap i of None \<Rightarrow> None | Some heap \<Rightarrow> heap_init_loop c i heap)"

definition heap_init :: "(nat \<Rightarrow> 'k::linorder option) \<Rightarrow> nat list \<Rightarrow> nat list option" where
  "heap_init c heap = heap_init_loop c (length heap div 2) heap"

definition heap_pop_top :: "(nat \<Rightarrow> 'k::linorder option) \<Rightarrow> nat list \<Rightarrow> nat list option" where
  "heap_pop_top c heap =
    (if heap = [] then None
     else sift_down c (butlast (swap_at heap 0 (length heap - 1))) 0)"

section \<open>The merger\<close>

text \<open>A callback that changes a block before it is written, or panics.\<close>

type_synonym prepare_block = "bytes \<Rightarrow> item list \<Rightarrow> (bytes \<times> item list) option"

datatype merge_error = ForciblyStopped | CannotRead bsr_detail | HeapEmpty

record merger =
  m_heap :: "nat list"
  m_ib :: inmemory_block
  ph_first_item_caught :: bool
  m_bsrs :: "block_stream_reader list"
  m_bsw :: block_stream_writer
  m_ph :: part_header
  m_items_merged :: u64

fun init_loop :: "zstd_lib \<Rightarrow> nat \<Rightarrow> block_stream_reader list \<Rightarrow>
    (block_stream_reader list \<times> nat list \<times> merge_error option) option" where
  "init_loop Z i [] = Some ([], [], None)"
| "init_loop Z i (r # rs) =
    (case bsr_next Z r of
       None \<Rightarrow> None
     | Some (r, ok) \<Rightarrow>
       (case bsr_err_msg r of
          Some d \<Rightarrow> Some (r # rs, [], Some (CannotRead d))
        | None \<Rightarrow>
          (case init_loop Z (i + 1) rs of
             None \<Rightarrow> None
           | Some (rs, heap, e) \<Rightarrow> Some (r # rs, (if ok then i # heap else heap), e))))"

definition merger_init :: "zstd_lib \<Rightarrow> merger \<Rightarrow> (merger \<times> merge_error option) option" where
  "merger_init Z m =
    (let m = m\<lparr>m_heap := [], m_ib := ib_reset (m_ib m), ph_first_item_caught := False\<rparr>
     in case init_loop Z 0 (m_bsrs m) of
          None \<Rightarrow> None
        | Some (bsrs, heap, Some e) \<Rightarrow> Some (m\<lparr>m_bsrs := bsrs\<rparr>, Some e)
        | Some (bsrs, heap, None) \<Rightarrow>
          (case heap_init (cur bsrs) heap of
             None \<Rightarrow> None
           | Some heap \<Rightarrow>
             Some (m\<lparr>m_bsrs := bsrs, m_heap := heap\<rparr>, if heap = [] then Some HeapEmpty else None)))"

definition next_reader :: "(nat \<Rightarrow> 'k::linorder option) \<Rightarrow> nat list \<Rightarrow> nat option option" where
  "next_reader c heap =
    (if length heap < 2 then Some None
     else if length heap < 3 then Some (Some (heap ! 1))
     else case (c (heap ! 1), c (heap ! 2)) of
            (Some a, Some b) \<Rightarrow> Some (Some (if a \<le> b then heap ! 1 else heap ! 2))
          | _ \<Rightarrow> None)"

definition flush_prepared :: "zstd_lib \<Rightarrow> merger \<Rightarrow> merger option" where
  "flush_prepared Z m =
    (let ib = m_ib m;
         ph = (m_ph m)\<lparr>ph_items_count := ph_items_count (m_ph m) + of_nat (length (ib_items ib))\<rparr>;
         first = item_bytes (ib_items ib ! 0) (ib_data ib);
         last = item_bytes (ib_items ib ! (length (ib_items ib) - 1)) (ib_data ib);
         ph = (if \<not> ph_first_item_caught m then ph\<lparr>ph_first_item := first\<rparr> else ph);
         ph = ph\<lparr>ph_last_item := last\<rparr>
     in case write_block Z (m_bsw m) ib of
          None \<Rightarrow> None
        | Some (w, ib) \<Rightarrow>
          Some (m\<lparr>m_ib := ib_reset ib, ph_first_item_caught := True, m_bsw := w,
                  m_ph := ph\<lparr>ph_blocks_count := ph_blocks_count ph + 1\<rparr>\<rparr>))"

definition flush_ib_parts :: "zstd_lib \<Rightarrow> prepare_block option \<Rightarrow> merger \<Rightarrow> merger option" where
  "flush_ib_parts Z prepare m =
    (let ib = m_ib m in
     if ib_items ib = [] then Some m
     else
       let m = m\<lparr>m_items_merged := m_items_merged m + of_nat (length (ib_items ib))\<rparr> in
       case prepare of
         None \<Rightarrow> flush_prepared Z m
       | Some cb \<Rightarrow>
         (case cb (ib_data ib) (ib_items ib) of
            None \<Rightarrow> None
          | Some (data, items) \<Rightarrow>
            let m = m\<lparr>m_ib := ib\<lparr>ib_data := data, ib_items := items\<rparr>\<rparr>;
                first = item_bytes (ib_items ib ! 0) (ib_data ib);
                last = item_bytes (ib_items ib ! (length (ib_items ib) - 1)) (ib_data ib)
            in if items = [] then Some m
               else if \<not> item_bytes (items ! 0) data \<ge> first then None
               else if \<not> item_bytes (items ! (length items - 1)) data \<le> last then None
               else flush_prepared Z m))"

text \<open>
  Adding an item to the scratch block: a round either adds it (\<open>Inr\<close>) or, when the block is full, flushes
  the block and retries the same item (\<open>Inl\<close>). After a flush the scratch block has no items, so that a
  second refusal repeats for ever; \<open>add_item\<close> is the outcome of the loop.
\<close>

definition add_round :: "zstd_lib \<Rightarrow> prepare_block option \<Rightarrow> bytes \<Rightarrow> merger \<Rightarrow> (merger + merger) option" where
  "add_round Z prepare x m =
    (case ib_add (m_ib m) x of
       (ib, True) \<Rightarrow> Some (Inr (m\<lparr>m_ib := ib\<rparr>))
     | (_, False) \<Rightarrow> map_option Inl (flush_ib_parts Z prepare m))"

fun add_rounds :: "zstd_lib \<Rightarrow> prepare_block option \<Rightarrow> bytes \<Rightarrow> nat \<Rightarrow> merger \<Rightarrow> (merger + merger) option" where
  "add_rounds Z prepare x 0 m = Some (Inl m)"
| "add_rounds Z prepare x (Suc n) m =
    (case add_round Z prepare x m of Some (Inl m) \<Rightarrow> add_rounds Z prepare x n m | r \<Rightarrow> r)"

definition add_item :: "zstd_lib \<Rightarrow> prepare_block option \<Rightarrow> merger \<Rightarrow> bytes \<Rightarrow> merger option" where
  "add_item Z prepare m x =
    (case ib_add (m_ib m) x of
       (ib, True) \<Rightarrow> Some (m\<lparr>m_ib := ib\<rparr>)
     | (_, False) \<Rightarrow>
       (case flush_ib_parts Z prepare m of
          None \<Rightarrow> None
        | Some m \<Rightarrow>
          (case ib_add (m_ib m) x of
             (ib, True) \<Rightarrow> Some (m\<lparr>m_ib := ib\<rparr>)
           | (_, False) \<Rightarrow> None)))"

text \<open>
  The inner loop over the rest of the top block; the result says whether an item beyond the next
  reader's current one was met, and how many items were taken.
\<close>

fun copy_loop :: "zstd_lib \<Rightarrow> prepare_block option \<Rightarrow> bytes option \<Rightarrow> bytes list \<Rightarrow> merger \<Rightarrow>
    (merger \<times> nat \<times> bool) option" where
  "copy_loop Z prepare limit [] m = Some (m, 0, False)"
| "copy_loop Z prepare limit (x # xs) m =
    (if (case limit of Some next_item \<Rightarrow> x > next_item | None \<Rightarrow> False) then Some (m, 0, True)
     else
       case add_item Z prepare m x of
         None \<Rightarrow> None
       | Some m \<Rightarrow>
         (case copy_loop Z prepare limit xs m of
            None \<Rightarrow> None
          | Some (m, n, exceeded) \<Rightarrow> Some (m, n + 1, exceeded)))"

text \<open>
  \<open>compare_every_item\<close> and the item to compare with: \<open>None\<close> when the rest of the block can be copied
  without comparisons. An exhausted block (the \<open>true\<close> branch of the code) has nothing to copy.
\<close>

definition copy_limit :: "block_stream_reader \<Rightarrow> bytes option \<Rightarrow> bytes option" where
  "copy_limit r next_item =
    (let items = ib_items (bsr_block r) in
     if curr_item_idx r < length items
     then (case next_item of
             None \<Rightarrow> None
           | Some y \<Rightarrow> if item_bytes (items ! (length items - 1)) (ib_data (bsr_block r)) > y then Some y else None)
     else Some (case next_item of None \<Rightarrow> [] | Some y \<Rightarrow> y))"

datatype merge_outcome = Continue | Finished | Failed merge_error

text \<open>One round of the outer loop.\<close>

definition merge_round :: "zstd_lib \<Rightarrow> prepare_block option \<Rightarrow> bool \<Rightarrow> merger \<Rightarrow> (merger \<times> merge_outcome) option" where
  "merge_round Z prepare stop m =
    (if m_heap m = [] then map_option (\<lambda>m. (m, Finished)) (flush_ib_parts Z prepare m)
     else if stop then Some (m, Failed ForciblyStopped)
     else
       let top = m_heap m ! 0; c = cur (m_bsrs m) in
       case next_reader c (m_heap m) of
         None \<Rightarrow> None
       | Some nr \<Rightarrow>
       (case (case nr of None \<Rightarrow> Some None | Some k \<Rightarrow> map_option Some (c k)) of
          None \<Rightarrow> None
        | Some next_item \<Rightarrow>
          let r = m_bsrs m ! top in
          (case copy_loop Z prepare (copy_limit r next_item) (drop (curr_item_idx r) (ib_strings (bsr_block r))) m of
             None \<Rightarrow> None
           | Some (m, n, exceeded) \<Rightarrow>
             let r = r\<lparr>curr_item_idx := curr_item_idx r + n\<rparr>; m = m\<lparr>m_bsrs := (m_bsrs m)[top := r]\<rparr> in
             if exceeded
             then map_option (\<lambda>h. (m\<lparr>m_heap := h\<rparr>, Continue)) (sift_down (cur (m_bsrs m)) (m_heap m) 0)
             else
               (case bsr_next Z r of
                  None \<Rightarrow> None
                | Some (r, True) \<Rightarrow>
                  let m = m\<lparr>m_bsrs := (m_bsrs m)[top := r]\<rparr>
                  in map_option (\<lambda>h. (m\<lparr>m_heap := h\<rparr>, Continue)) (sift_down (cur (m_bsrs m)) (m_heap m) 0)
                | Some (r, False) \<Rightarrow>
                  let m = m\<lparr>m_bsrs := (m_bsrs m)[top := r]\<rparr>
                  in (case bsr_err_msg r of
                        Some d \<Rightarrow> Some (m, Failed (CannotRead d))
                      | None \<Rightarrow>
                        map_option (\<lambda>h. (m\<lparr>m_heap := h\<rparr>, Continue)) (heap_pop_top (cur (m_bsrs m)) (m_heap m)))))))"

text \<open>The outer loop, for at most the given number of rounds; \<open>stop k\<close> is the answer to the poll of round \<open>k\<close>.\<close>

fun merge_loop :: "zstd_lib \<Rightarrow> prepare_block option \<Rightarrow> (nat \<Rightarrow> bool) \<Rightarrow> nat \<Rightarrow> nat \<Rightarrow> merger \<Rightarrow>
    (merger \<times> merge_error option) option" where
  "merge_loop Z prepare stop 0 k m = None"
| "merge_loop Z prepare stop (Suc fuel) k m =
    (case merge_round Z prepare (stop k) m of
       None \<Rightarrow> None
     | Some (m, Continue) \<Rightarrow> merge_loop Z prepare stop fuel (k + 1) m
     | Some (m, Finished) \<Rightarrow> Some (m, None)
     | Some (m, Failed e) \<Rightarrow> Some (m, Some e))"

definition merger_default :: "part_header \<Rightarrow> block_stream_writer \<Rightarrow> block_stream_reader list \<Rightarrow> u64 \<Rightarrow> merger" where
  "merger_default ph w bsrs n =
    \<lparr>m_heap = [], m_ib = ib_default, ph_first_item_caught = False, m_bsrs = bsrs, m_bsw = w, m_ph = ph,
     m_items_merged = n\<rparr>"

definition merge_block_streams ::
  "zstd_lib \<Rightarrow> nat \<Rightarrow> part_header \<Rightarrow> block_stream_writer \<Rightarrow> block_stream_reader list \<Rightarrow>
   prepare_block option \<Rightarrow> (nat \<Rightarrow> bool) \<Rightarrow> u64 \<Rightarrow>
   (merger \<times> (merge_error + bytes \<times> bytes \<times> bytes \<times> bytes)) option" where
  "merge_block_streams Z fuel ph w bsrs prepare stop items_merged =
    (case merger_init Z (merger_default ph w bsrs items_merged) of
       None \<Rightarrow> None
     | Some (m, e) \<Rightarrow>
       (case (case e of Some e \<Rightarrow> Some (m, Some e) | None \<Rightarrow> merge_loop Z prepare stop fuel 0 m) of
          None \<Rightarrow> None
        | Some (m, e) \<Rightarrow>
          (case bsw_must_close Z (m_bsw m) of
             None \<Rightarrow> None
           | Some (w, bufs) \<Rightarrow>
             Some (m\<lparr>m_bsw := w\<rparr>, case e of Some e \<Rightarrow> Inl e | None \<Rightarrow> Inr bufs))))"

end
