(* ===== verification/Table_Search.thy ===== *)
theory Table_Search
  imports Part_Search Mergeset_Merge
begin

text \<open>
  Searching all parts of a mergeset table at once (\<open>crates/esm-mergeset/src/table_search.rs\<close>): one cursor
  per part in a pool, and a heap of the indices of those that have an item, ordered by it. The same
  item may be in several parts, and is then returned as often.

  The heap is the one of \<open>Mergeset_Merge\<close>, keyed by the current items. \<open>None\<close> is a panic, which also is
  what stepping a cursor does that was never positioned.
\<close>

datatype TsError = TsEof | TsCannotSeek bytes ps_detail | TsNext ps_detail

record table_search =
  ts_pool :: "part_search list"
  ts_heap :: "nat list"
  ts_err :: "TsError option"
  ts_next_item_noop :: bool

definition ts_cur :: "part_search list \<Rightarrow> nat \<Rightarrow> bytes option" where
  "ts_cur pool k = (if k < length pool then Some (ps_item (pool ! k)) else None)"

definition ts_sift_down :: "part_search list \<Rightarrow> nat list \<Rightarrow> nat \<Rightarrow> nat list option" where
  "ts_sift_down pool heap i = sift_down (ts_cur pool) heap i"

definition ts_heap_init :: "part_search list \<Rightarrow> nat list \<Rightarrow> nat list option" where
  "ts_heap_init pool heap = heap_init (ts_cur pool) heap"

text \<open>What others do to the cache is given by the id of the part.\<close>

definition ts_new :: "(u64 \<Rightarrow> cache_act list list) \<Rightarrow> part list \<Rightarrow> table_search" where
  "ts_new env parts = \<lparr>ts_pool = map (\<lambda>p. ps_new (env (pt_id p)) p) parts, ts_heap = [], ts_err = None, ts_next_item_noop = False\<rparr>"

definition ts_item :: "table_search \<Rightarrow> bytes option" where
  "ts_item ts = (case ts_heap ts of [] \<Rightarrow> None | k # _ \<Rightarrow> ts_cur (ts_pool ts) k)"

definition ts_error :: "table_search \<Rightarrow> TsError option" where
  "ts_error ts = (case ts_err ts of Some TsEof \<Rightarrow> None | e \<Rightarrow> e)"

fun ts_seek_loop :: "zstd_lib \<Rightarrow> bytes \<Rightarrow> nat \<Rightarrow> part_search list \<Rightarrow> (part_search list \<times> nat list \<times> ps_detail option) option" where
  "ts_seek_loop Z k i [] = Some ([], [], None)"
| "ts_seek_loop Z k i (ps # rest) =
    (case ps_seek Z ps k of
       None \<Rightarrow> None
     | Some ps \<Rightarrow>
       (case ps_next_item Z ps of
          None \<Rightarrow> None
        | Some (ps, ok) \<Rightarrow>
          (case (if ok then None else ps_error ps) of
             Some d \<Rightarrow> Some (ps # rest, [], Some d)
           | None \<Rightarrow>
             (case ts_seek_loop Z k (i + 1) rest of
                None \<Rightarrow> None
              | Some (rest, heap, e) \<Rightarrow> Some (ps # rest, (if ok then i # heap else heap), e)))))"

definition ts_seek :: "zstd_lib \<Rightarrow> table_search \<Rightarrow> bytes \<Rightarrow> table_search option" where
  "ts_seek Z ts k =
    (if ts_error ts \<noteq> None then Some ts
     else
       case ts_seek_loop Z k 0 (ts_pool ts) of
         None \<Rightarrow> None
       | Some (pool, heap, Some d) \<Rightarrow> Some (ts\<lparr>ts_pool := pool, ts_heap := heap, ts_err := Some (TsCannotSeek k d)\<rparr>)
       | Some (pool, heap, None) \<Rightarrow>
         if heap = [] then Some (ts\<lparr>ts_pool := pool, ts_heap := [], ts_err := Some TsEof\<rparr>)
         else
           (case ts_heap_init pool heap of
              None \<Rightarrow> None
            | Some heap \<Rightarrow> Some (ts\<lparr>ts_pool := pool, ts_heap := heap, ts_err := None, ts_next_item_noop := True\<rparr>)))"

definition ts_next_block :: "zstd_lib \<Rightarrow> table_search \<Rightarrow> (table_search \<times> TsError option) option" where
  "ts_next_block Z ts =
    (case ts_heap ts of
       [] \<Rightarrow> None
     | tp # _ \<Rightarrow>
       if \<not> tp < length (ts_pool ts) then None
       else
         (case ps_next_item Z (ts_pool ts ! tp) of
            None \<Rightarrow> None
          | Some (ps, ok) \<Rightarrow>
            let ts = ts\<lparr>ts_pool := (ts_pool ts)[tp := ps]\<rparr> in
            if ok then map_option (\<lambda>h. (ts\<lparr>ts_heap := h\<rparr>, None)) (ts_sift_down (ts_pool ts) (ts_heap ts) 0)
            else
              (case ps_error ps of
                 Some d \<Rightarrow> Some (ts, Some (TsNext d))
               | None \<Rightarrow>
                 (case ts_sift_down (ts_pool ts) (butlast (swap_at (ts_heap ts) 0 (length (ts_heap ts) - 1))) 0 of
                    None \<Rightarrow> None
                  | Some h \<Rightarrow> Some (ts\<lparr>ts_heap := h\<rparr>, if h = [] then Some TsEof else None)))))"

definition ts_next_item :: "zstd_lib \<Rightarrow> table_search \<Rightarrow> (table_search \<times> bool) option" where
  "ts_next_item Z ts =
    (if ts_err ts \<noteq> None then Some (ts, False)
     else if ts_next_item_noop ts then Some (ts\<lparr>ts_next_item_noop := False\<rparr>, True)
     else
       case ts_next_block Z ts of
         None \<Rightarrow> None
       | Some (ts, Some e) \<Rightarrow> Some (ts\<lparr>ts_err := Some e\<rparr>, False)
       | Some (ts, None) \<Rightarrow> Some (ts, True))"

definition ts_first_item_with_prefix :: "zstd_lib \<Rightarrow> table_search \<Rightarrow> bytes \<Rightarrow> (table_search \<times> TsError option) option" where
  "ts_first_item_with_prefix Z ts pre =
    (case ts_seek Z ts pre of
       None \<Rightarrow> None
     | Some ts \<Rightarrow>
       (case ts_next_item Z ts of
          None \<Rightarrow> None
        | Some (ts, False) \<Rightarrow> Some (ts, Some (case ts_error ts of Some e \<Rightarrow> e | None \<Rightarrow> TsEof))
        | Some (ts, True) \<Rightarrow>
          (case ts_error ts of
             Some e \<Rightarrow> Some (ts, Some e)
           | None \<Rightarrow>
             (case ts_item ts of
                None \<Rightarrow> None
              | Some x \<Rightarrow> Some (ts, if take (length pre) x = pre then None else Some TsEof)))))"

end
