(* ===== verification/Mergeset_Merge_Correct.thy ===== *)
theory Mergeset_Merge_Correct
  imports Mergeset_Merge
begin

text \<open>
  Correctness of the k-way merge: the heap operations keep the reader with the smallest current
  item at the top, each round moves items of that reader that are no larger than anything left
  behind, and when the heap is empty the written part is the sorted union of the inputs.

  The argument is an invariant of the merger (\<open>minv\<close>) with a multiset that every round keeps
  (\<open>all_items\<close>) and a measure it decreases (\<open>work\<close>).
\<close>

section \<open>Descriptions\<close>

text \<open>Heap order below position \<open>i\<close>, except between \<open>p\<close> and its children.\<close>

definition heap_except :: "(nat \<Rightarrow> 'k::linorder) \<Rightarrow> nat list \<Rightarrow> nat \<Rightarrow> nat \<Rightarrow> bool" where
  "heap_except key h i p \<longleftrightarrow>
    (\<forall>j c. i \<le> j \<and> j \<noteq> p \<and> (c = 2 * j + 1 \<or> c = 2 * j + 2) \<and> c < length h \<longrightarrow> key (h ! j) \<le> key (h ! c))"

definition heap_from :: "(nat \<Rightarrow> 'k::linorder) \<Rightarrow> nat list \<Rightarrow> nat \<Rightarrow> bool" where
  "heap_from key h i \<longleftrightarrow>
    (\<forall>j c. i \<le> j \<and> (c = 2 * j + 1 \<or> c = 2 * j + 2) \<and> c < length h \<longrightarrow> key (h ! j) \<le> key (h ! c))"

text \<open>The element at \<open>p\<close> may be moved down: its parent is no larger than its children.\<close>

definition parent_ok :: "(nat \<Rightarrow> 'k::linorder) \<Rightarrow> nat list \<Rightarrow> nat \<Rightarrow> nat \<Rightarrow> bool" where
  "parent_ok key h i p \<longleftrightarrow>
    (\<forall>j c. i \<le> j \<and> (p = 2 * j + 1 \<or> p = 2 * j + 2) \<and> (c = 2 * p + 1 \<or> c = 2 * p + 2) \<and> c < length h
       \<longrightarrow> key (h ! j) \<le> key (h ! c))"

text \<open>
  What a block becomes before it is written, and what the merge relies on of a callback: a block of
  items with the property \<open>ok\<close> is changed to a block that is related to it by \<open>rel\<close>, no longer, and
  starts and ends with the same items.
\<close>

definition prepared :: "prepare_block option \<Rightarrow> inmemory_block \<Rightarrow> inmemory_block option" where
  "prepared prepare b =
    (case prepare of
       None \<Rightarrow> Some b
     | Some cb \<Rightarrow> map_option (\<lambda>(data, its). b\<lparr>ib_data := data, ib_items := its\<rparr>) (cb (ib_data b) (ib_items b)))"

definition becomes :: "(bytes list \<Rightarrow> bytes list \<Rightarrow> bool) \<Rightarrow> bytes list \<Rightarrow> bytes list \<Rightarrow> bool" where
  "becomes rel g b \<longleftrightarrow> rel g b \<and> sorted b \<and> b \<noteq> [] \<and> hd b = hd g \<and> last b = last g \<and> length b \<le> length g"

text \<open>
  The groups \<open>gs\<close> of items are written as the blocks they become, the scratch block holds the items
  after them, and the part header describes what is written.
\<close>

definition wrep :: "(bytes \<Rightarrow> bool) \<Rightarrow> (bytes list \<Rightarrow> bytes list \<Rightarrow> bool) \<Rightarrow> zstd_lib \<Rightarrow> merger \<Rightarrow> bytes list list \<Rightarrow> bool" where
  "wrep ok rel Z m gs \<longleftrightarrow>
     ib_invar (m_ib m) \<and> length (ib_data (m_ib m)) \<le> MAX_INMEMORY_BLOCK_SIZE
     \<and> [] \<notin> set (ib_strings (m_ib m)) \<and> (\<forall>x \<in> set (ib_strings (m_ib m)). ok x)
     \<and> (\<exists>ss. bsw_rep Z (m_bsw m) ss \<and> list_all2 (becomes rel) gs (map sb_strs ss)
     \<and> ph_first_item_caught m = (ss \<noteq> [])
     \<and> ph_blocks_count (m_ph m) = of_nat (length ss)
     \<and> ph_items_count (m_ph m) = of_nat (length (concat (map sb_strs ss)))
     \<and> (ss \<noteq> [] \<longrightarrow> ph_first_item (m_ph m) = hd (hd (map sb_strs ss))
          \<and> ph_last_item (m_ph m) = last (last (map sb_strs ss))))"

definition out :: "merger \<Rightarrow> bytes list list \<Rightarrow> bytes list" where
  "out m gs = concat gs @ ib_strings (m_ib m)"

definition same_input :: "merger \<Rightarrow> merger \<Rightarrow> bool" where
  "same_input m m' \<longleftrightarrow> m_bsrs m' = m_bsrs m \<and> m_heap m' = m_heap m"

definition good_item :: "(bytes \<Rightarrow> bool) \<Rightarrow> bytes \<Rightarrow> bool" where
  "good_item ok x \<longleftrightarrow> ok x \<and> x \<noteq> [] \<and> length x \<le> MAX_INMEMORY_BLOCK_SIZE"

definition live :: "zstd_lib \<Rightarrow> block_stream_reader \<Rightarrow> bytes list list \<Rightarrow> bool" where
  "live Z r rest \<longleftrightarrow> bsr_rep Z r rest \<or> (is_inmemory_block r \<and> bsr_error r = Some Eof \<and> rest = [])"

text \<open>A reader before its first \<open>next\<close>: over a part, or over a single block.\<close>

definition fresh :: "zstd_lib \<Rightarrow> block_stream_reader \<Rightarrow> bytes list list \<Rightarrow> bool" where
  "fresh Z r bs \<longleftrightarrow> bsr_rep Z r bs \<or> (is_inmemory_block r \<and> bsr_error r = None \<and> curr_item_idx r = 0
     \<and> ib_invar (bsr_block r) \<and> ib_items (bsr_block r) \<noteq> [] \<and> bs = [ib_strings (bsr_block r)])"

text \<open>The items a reader in the heap still has.\<close>

definition todo :: "block_stream_reader \<Rightarrow> bytes list list \<Rightarrow> bytes list" where
  "todo r rest = drop (curr_item_idx r) (ib_strings (bsr_block r)) @ concat rest"

definition reader_ok :: "(bytes \<Rightarrow> bool) \<Rightarrow> zstd_lib \<Rightarrow> block_stream_reader \<Rightarrow> bytes list list \<Rightarrow> bool" where
  "reader_ok ok Z r rest \<longleftrightarrow> live Z r rest \<and> curr_item_idx r < length (ib_items (bsr_block r))
     \<and> sorted (todo r rest) \<and> (\<forall>x \<in> set (todo r rest). good_item ok x)"

definition key_of :: "block_stream_reader list \<Rightarrow> nat \<Rightarrow> bytes" where
  "key_of bsrs k = ib_strings (bsr_block (bsrs ! k)) ! curr_item_idx (bsrs ! k)"

definition minv :: "(bytes \<Rightarrow> bool) \<Rightarrow> (bytes list \<Rightarrow> bytes list \<Rightarrow> bool) \<Rightarrow> zstd_lib \<Rightarrow> merger \<Rightarrow>
    (nat \<Rightarrow> bytes list list) \<Rightarrow> bytes list list \<Rightarrow> bool" where
  "minv ok rel Z m rest ss \<longleftrightarrow> distinct (m_heap m) \<and> heap_from (key_of (m_bsrs m)) (m_heap m) 0
     \<and> (\<forall>k \<in> set (m_heap m). k < length (m_bsrs m) \<and> reader_ok ok Z (m_bsrs m ! k) (rest k)
          \<and> (\<forall>x \<in> set (out m ss). \<forall>y \<in> set (todo (m_bsrs m ! k) (rest k)). x \<le> y))
     \<and> wrep ok rel Z m ss \<and> sorted (out m ss)"

definition all_items :: "merger \<Rightarrow> (nat \<Rightarrow> bytes list list) \<Rightarrow> bytes list list \<Rightarrow> bytes multiset" where
  "all_items m rest ss = mset (out m ss) + (\<Sum>k \<in> set (m_heap m). mset (todo (m_bsrs m ! k) (rest k)))"

definition work :: "merger \<Rightarrow> (nat \<Rightarrow> bytes list list) \<Rightarrow> nat" where
  "work m rest = (\<Sum>k \<in> set (m_heap m). length (todo (m_bsrs m ! k) (rest k)) + length (rest k) + 1)"

text \<open>Items have moved from the reader at the top of the heap to the output.\<close>

definition moved_from_top ::
  "(bytes \<Rightarrow> bool) \<Rightarrow> (bytes list \<Rightarrow> bytes list \<Rightarrow> bool) \<Rightarrow> zstd_lib \<Rightarrow> merger \<Rightarrow> (nat \<Rightarrow> bytes list list) \<Rightarrow> bytes list list \<Rightarrow>
   nat \<Rightarrow> nat list \<Rightarrow> bytes list \<Rightarrow> bytes list \<Rightarrow> merger \<Rightarrow> bytes list list \<Rightarrow> bool" where
  "moved_from_top ok rel Z m rest ss tp h moved stay m' ss' \<longleftrightarrow>
     minv ok rel Z m rest ss \<and> m_heap m = tp # h \<and> same_input m m' \<and> wrep ok rel Z m' ss'
     \<and> out m' ss' = out m ss @ moved \<and> todo (m_bsrs m ! tp) (rest tp) = moved @ stay
     \<and> (\<forall>k \<in> set h. \<forall>x \<in> set moved. x \<le> key_of (m_bsrs m) k)"

text \<open>Readers over sorted streams of items that fit a block, none of them empty.\<close>

definition sources_ok :: "(bytes \<Rightarrow> bool) \<Rightarrow> zstd_lib \<Rightarrow> block_stream_reader list \<Rightarrow> bytes list list list \<Rightarrow> bool" where
  "sources_ok ok Z rs bss \<longleftrightarrow> list_all2 (fresh Z) rs bss
     \<and> (\<forall>bs \<in> set bss. sorted (concat bs) \<and> (\<forall>x \<in> set (concat bs). good_item ok x))"

text \<open>A writer that was closed, and the items a merge has counted beyond those in the header of its part.\<close>

definition writer_closed :: "block_stream_writer \<Rightarrow> bool" where
  "writer_closed w \<longleftrightarrow> metaindex_writer w = WClosed \<and> index_writer w = WClosed \<and> items_writer w = WClosed \<and> lens_writer w = WClosed"

definition uncounted :: "merger \<Rightarrow> u64" where
  "uncounted m = m_items_merged m - ph_items_count (m_ph m)"

locale block_callback =
  fixes prepare :: "prepare_block option"
    and ok :: "bytes \<Rightarrow> bool"
    and rel :: "bytes list \<Rightarrow> bytes list \<Rightarrow> bool"
  assumes prepared_ok: "block_ok b \<Longrightarrow> (\<And>x. x \<in> set (ib_strings b) \<Longrightarrow> ok x) \<Longrightarrow>
    \<exists>b'. prepared prepare b = Some b' \<and> block_ok b' \<and> becomes rel (ib_strings b) (ib_strings b')"

section \<open>The heap\<close>

lemma nth_swap_at:
  "i < length xs \<Longrightarrow> j < length xs \<Longrightarrow> k < length xs \<Longrightarrow>
    swap_at xs i j ! k = (if k = i then xs ! j else if k = j then xs ! i else xs ! k)"
  by (auto simp: swap_at_def nth_list_update)

lemma mset_swap_at [simp]: "i < length xs \<Longrightarrow> j < length xs \<Longrightarrow> mset (swap_at xs i j) = mset xs"
  unfolding swap_at_def by (rule mset_swap)

lemma heap_less_key:
  assumes "\<forall>k \<in> set h. c k = Some (key k)" "i < length h" "j < length h"
  shows "heap_less c h i j = Some (key (h ! i) < key (h ! j))"
  using assms by (simp add: heap_less_def)

lemma heap_except_done:
  assumes "heap_except key h i p"
    "\<And>c. c = 2 * p + 1 \<or> c = 2 * p + 2 \<Longrightarrow> c < length h \<Longrightarrow> key (h ! p) \<le> key (h ! c)"
  shows "heap_from key h i"
  using assms unfolding heap_except_def heap_from_def by metis

lemma heap_except_step:
  assumes "heap_except key h i p" "parent_ok key h i p" "i \<le> p"
    "s = 2 * p + 1 \<or> s = 2 * p + 2" "s < length h" "key (h ! s) < key (h ! p)"
    "\<And>c. c = 2 * p + 1 \<or> c = 2 * p + 2 \<Longrightarrow> c < length h \<Longrightarrow> key (h ! s) \<le> key (h ! c)"
  shows "heap_except key (swap_at h p s) i s" "parent_ok key (swap_at h p s) i s"
proof -
  have p: "p < s" "p < length h" using assms(4,5) by auto
  note n = nth_swap_at [OF p(2) assms(5)]
  have ne: "c \<noteq> s" if "c = 2 * s + 1 \<or> c = 2 * s + 2" for c using that by auto
  show "heap_except key (swap_at h p s) i s"
    unfolding heap_except_def
  proof (intro allI impI)
    fix j c assume a: "i \<le> j \<and> j \<noteq> s \<and> (c = 2 * j + 1 \<or> c = 2 * j + 2) \<and> c < length (swap_at h p s)"
    then have c: "c < length h" "j < length h" "c \<noteq> j" by auto
    show "key (swap_at h p s ! j) \<le> key (swap_at h p s ! c)"
    proof (cases "j = p")
      case True
      with a c p assms(6,7) n show ?thesis by (auto intro: less_imp_le)
    next
      case False
      have "c \<noteq> s" using a False assms(4) by auto
      show ?thesis
      proof (cases "c = p")
        case True
        have "key (h ! j) \<le> key (h ! s)" using assms(2,4,5) a True unfolding parent_ok_def by blast
        with True False a c p n show ?thesis by auto
      next
        case cp: False
        have "key (h ! j) \<le> key (h ! c)" using assms(1) a False c unfolding heap_except_def by blast
        with cp False a c p n \<open>c \<noteq> s\<close> show ?thesis by auto
      qed
    qed
  qed
  show "parent_ok key (swap_at h p s) i s"
    unfolding parent_ok_def
  proof (intro allI impI)
    fix j c assume a: "i \<le> j \<and> (s = 2 * j + 1 \<or> s = 2 * j + 2) \<and> (c = 2 * s + 1 \<or> c = 2 * s + 2)
      \<and> c < length (swap_at h p s)"
    then have j: "j = p" using assms(4) by auto
    have "c \<noteq> p" "c \<noteq> s" "c < length h" using a p by auto
    moreover have "i \<le> s \<and> s \<noteq> p \<and> (c = 2 * s + 1 \<or> c = 2 * s + 2) \<and> c < length h"
      using assms(3) a p \<open>c < length h\<close> by simp
    then have "key (h ! s) \<le> key (h ! c)" using assms(1) unfolding heap_except_def by blast
    ultimately show "key (swap_at h p s ! j) \<le> key (swap_at h p s ! c)" using j p n by auto
  qed
qed

lemma sift_down_correct:
  assumes "\<forall>k \<in> set h. c k = Some (key k)" "heap_except key h i p" "parent_ok key h i p" "i \<le> p"
  shows "\<exists>h'. sift_down c h p = Some h' \<and> mset h' = mset h \<and> heap_from key h' i"
  using assms
proof (induction c h p rule: sift_down.induct)
  case (1 c h p)
  let ?l = "2 * p + 1" and ?r = "2 * p + 1 + 1"
  show ?case
  proof (cases "length h \<le> ?l")
    case True
    then have "sift_down c h p = Some h" by (simp add: sift_down.simps [of c h p] Let_def)
    moreover have "heap_from key h i" by (rule heap_except_done [OF 1(3)]) (use True in auto)
    ultimately show ?thesis by simp
  next
    case False
    define b where "b = (?r < length h \<and> key (h ! ?r) < key (h ! ?l))"
    define s where "s = (if b then ?r else ?l)"
    have s: "s < length h" "s = 2 * p + 1 \<or> s = 2 * p + 2" "p < length h"
      using False by (auto simp: s_def b_def)
    have min: "key (h ! s) \<le> key (h ! c')" if "c' = 2 * p + 1 \<or> c' = 2 * p + 2" "c' < length h" for c'
      using that by (auto simp: s_def b_def)
    have b: "(if ?r < length h then heap_less c h ?r ?l else Some False) = Some b"
      using False heap_less_key [OF 1(2), of ?r ?l] by (simp add: b_def)
    note e = sift_down.simps [of c h p] heap_less_key [OF 1(2) s(1,3)]
    show ?thesis
    proof (cases "key (h ! s) < key (h ! p)")
      case False
      then have "sift_down c h p = Some h"
        using \<open>\<not> length h \<le> ?l\<close> e(2) unfolding e(1) Let_def b option.case s_def [symmetric] by simp
      moreover have "heap_from key h i"
        by (rule heap_except_done [OF 1(3)]) (use False min in \<open>force simp: not_less\<close>)
      ultimately show ?thesis by simp
    next
      case True
      then have sd: "sift_down c h p = sift_down c (swap_at h p s) s"
        using \<open>\<not> length h \<le> ?l\<close> e(2) unfolding e(1) Let_def b option.case s_def [symmetric] by simp
      have ms: "mset (swap_at h p s) = mset h" using s by simp
      then have k: "\<forall>k \<in> set (swap_at h p s). c k = Some (key k)" using 1(2) by (metis set_mset_mset)
      have he: "heap_except key (swap_at h p s) i s" "parent_ok key (swap_at h p s) i s"
        using heap_except_step [OF 1(3,4,5) s(2,1) True min] by blast+
      have "\<exists>h'. sift_down c (swap_at h p s) s = Some h' \<and> mset h' = mset (swap_at h p s) \<and> heap_from key h' i"
        using 1(1) [OF refl refl \<open>\<not> length h \<le> ?l\<close> refl b, of s] True e(2) k he 1(5) s by (auto simp: s_def)
      then show ?thesis unfolding sd ms .
    qed
  qed
qed

lemma sift_down_mset: "sift_down c h p = Some h' \<Longrightarrow> mset h' = mset h"
proof (induction "length h - p" arbitrary: h p rule: less_induct)
  case less
  have "h' = h \<or> (\<exists>q. p < q \<and> q < length h \<and> sift_down c (swap_at h p q) q = Some h')"
    using less.prems by (subst (asm) sift_down.simps) (auto simp: Let_def split: option.splits if_splits)
  then show ?case
  proof
    assume "\<exists>q. p < q \<and> q < length h \<and> sift_down c (swap_at h p q) q = Some h'"
    then obtain q where q: "p < q" "q < length h" "sift_down c (swap_at h p q) q = Some h'" by blast
    have "mset h' = mset (swap_at h p q)" by (rule less.hyps [OF _ q(3)]) (use q in simp)
    then show ?thesis using q by simp
  qed simp
qed

lemma sift_down_at:
  assumes "\<forall>k \<in> set h. c k = Some (key k)" "heap_except key h i i"
  shows "\<exists>h'. sift_down c h i = Some h' \<and> mset h' = mset h \<and> heap_from key h' i"
proof (rule sift_down_correct [OF assms])
  show "parent_ok key h i i" unfolding parent_ok_def by auto
qed simp

lemma heap_init_loop_correct:
  assumes "\<forall>k \<in> set h. c k = Some (key k)" "heap_from key h i"
  shows "\<exists>h'. heap_init_loop c i h = Some h' \<and> mset h' = mset h \<and> heap_from key h' 0"
  using assms
proof (induction i arbitrary: h)
  case (Suc i)
  have "heap_except key h i i" using Suc.prems(2) unfolding heap_except_def heap_from_def
    by (metis Suc_leI le_neq_implies_less)
  then obtain h1 where h1: "sift_down c h i = Some h1" "mset h1 = mset h" "heap_from key h1 i"
    using sift_down_at [OF Suc.prems(1)] by blast
  have "\<forall>k \<in> set h1. c k = Some (key k)" using Suc.prems(1) h1(2) by (metis set_mset_mset)
  from Suc.IH [OF this h1(3)] h1 show ?case by auto
qed simp

lemma heap_init_correct:
  assumes "\<forall>k \<in> set h. c k = Some (key k)"
  shows "\<exists>h'. heap_init c h = Some h' \<and> mset h' = mset h \<and> heap_from key h' 0"
  unfolding heap_init_def
  by (rule heap_init_loop_correct [OF assms]) (auto simp: heap_from_def)

text \<open>The heap starts as the indices of the sources that have something.\<close>

lemma nonempty_indices_Cons:
  "filter (\<lambda>j. (x # xs) ! (j - i) \<noteq> []) [i..<i + length (x # xs)] =
    (if x \<noteq> [] then [i] else []) @ filter (\<lambda>j. xs ! (j - Suc i) \<noteq> []) [Suc i..<Suc i + length xs]"
proof -
  have u: "[i..<i + length (x # xs)] = i # [Suc i..<Suc i + length xs]" using upt_conv_Cons [of i "i + length (x # xs)"] by simp
  have "(x # xs) ! (j - i) = xs ! (j - Suc i)" if "j \<in> set [Suc i..<Suc i + length xs]" for j
    using that by (simp add: nth_Cons' del: upt_Suc)
  then show ?thesis
    unfolding u using filter_cong [OF refl, of "[Suc i..<Suc i + length xs]" "\<lambda>j. (x # xs) ! (j - i) \<noteq> []" "\<lambda>j. xs ! (j - Suc i) \<noteq> []"]
    by (simp add: nth_Cons' del: upt_Suc)
qed

lemma nonempty_indices_sum: "(\<Sum>k \<in># mset (filter (\<lambda>j. xss ! j \<noteq> []) [0..<length xss]). mset (xss ! k)) = mset (concat xss)"
proof -
  have f: "(\<Sum>k \<in># mset (filter (\<lambda>j. f j \<noteq> {#}) ks). f k) = (\<Sum>k \<in># mset ks. f k)" for f :: "nat \<Rightarrow> 'a multiset" and ks
    by (induction ks) auto
  have "(\<Sum>k \<in># mset (filter (\<lambda>j. xss ! j \<noteq> []) [0..<length xss]). mset (xss ! k)) = (\<Sum>k \<in># mset [0..<length xss]. mset (xss ! k))"
    using f [of "\<lambda>j. mset (xss ! j)" "[0..<length xss]"] by simp
  also have "\<dots> = sum_list (map (\<lambda>k. mset (xss ! k)) [0..<length xss])" by (simp only: flip: mset_map sum_mset_sum_list)
  also have "map (\<lambda>k. mset (xss ! k)) [0..<length xss] = map mset xss" by (rule nth_equalityI) simp_all
  finally show ?thesis by (simp add: mset_concat)
qed

text \<open>Restoring the order after the key of the top has changed, or the top has been removed.\<close>

lemma heap_fix_top:
  assumes "heap_from key h 0" "\<forall>k \<in> set (tl h). key' k = key k" "\<forall>k \<in> set h. c k = Some (key' k)" "distinct h"
  shows "\<exists>h'. sift_down c h 0 = Some h' \<and> mset h' = mset h \<and> heap_from key' h' 0"
proof (rule sift_down_at [OF assms(3)], unfold heap_except_def, intro allI impI)
  fix j d assume a: "0 \<le> j \<and> j \<noteq> 0 \<and> (d = 2 * j + 1 \<or> d = 2 * j + 2) \<and> d < length h"
  then have "h ! j \<in> set (tl h)" "h ! d \<in> set (tl h)"
    by (cases h; auto simp: nth_Cons')+
  moreover have "key (h ! j) \<le> key (h ! d)" using assms(1) a unfolding heap_from_def by auto
  ultimately show "key' (h ! j) \<le> key' (h ! d)" using assms(2) by simp
qed

lemma mset_pop_top:
  assumes "h \<noteq> []"
  shows "mset (butlast (swap_at h 0 (length h - 1))) = mset (tl h)"
proof (cases "length h - 1 = 0")
  case True
  then obtain x where "h = [x]" using assms by (cases h) auto
  then show ?thesis by (simp add: swap_at_def)
next
  case False
  then obtain x y ys where h: "h = x # ys @ [y]" using assms by (cases h; cases "tl h" rule: rev_cases) auto
  have "swap_at h 0 (length h - 1) = y # ys @ [x]" by (simp add: h swap_at_def nth_append list_update_append)
  then have "butlast (swap_at h 0 (length h - 1)) = y # ys" by (simp add: butlast_append)
  then show ?thesis by (simp add: h)
qed

lemma heap_pop_correct:
  assumes "heap_from key h 0" "\<forall>k \<in> set (tl h). c k = Some (key k)" "h \<noteq> []"
  shows "\<exists>h'. heap_pop_top c h = Some h' \<and> mset h' = mset (tl h) \<and> heap_from key h' 0"
proof -
  let ?n = "length h - 1"
  let ?b = "butlast (swap_at h 0 ?n)"
  note ms = mset_pop_top [OF assms(3)]
  have k: "\<forall>k \<in> set ?b. c k = Some (key k)" using assms(2) ms by (metis set_mset_mset)
  have "heap_except key ?b 0 0"
    unfolding heap_except_def
  proof (intro allI impI)
    fix j d assume a: "0 \<le> j \<and> j \<noteq> 0 \<and> (d = 2 * j + 1 \<or> d = 2 * j + 2) \<and> d < length ?b"
    then have d: "d < ?n" "j < ?n" "0 < d" by auto
    have nb: "?b ! i = h ! i" if "0 < i" "i < ?n" for i
      using that assms(3) nth_swap_at [of 0 h ?n i] by (simp add: nth_butlast)
    have "key (h ! j) \<le> key (h ! d)" using assms(1) a d unfolding heap_from_def by auto
    then show "key (?b ! j) \<le> key (?b ! d)" using nb a d by simp
  qed
  from sift_down_at [OF k this] ms assms(3) show ?thesis by (simp add: heap_pop_top_def)
qed

lemma heap_top_min:
  assumes "heap_from key h 0" "j < length h"
  shows "key (h ! 0) \<le> key (h ! j)"
  using assms(2)
proof (induction j rule: less_induct)
  case (less j)
  show ?case
  proof (cases "j = 0")
    case False
    let ?p = "(j - 1) div 2"
    have p: "?p < j" "j = 2 * ?p + 1 \<or> j = 2 * ?p + 2" using False by presburger+
    then have "key (h ! ?p) \<le> key (h ! j)" using assms(1) less.prems unfolding heap_from_def by blast
    with less.IH [OF p(1)] p(1) less.prems show ?thesis by (auto intro: order_trans)
  qed simp
qed

lemma heap_second:
  assumes "heap_from key h 0" "1 \<le> j" "j < length h"
  shows "key (h ! 1) \<le> key (h ! j) \<or> (2 < length h \<and> key (h ! 2) \<le> key (h ! j))"
  using assms(2,3)
proof (induction j rule: less_induct)
  case (less j)
  show ?case
  proof (cases "j \<le> 2")
    case True
    then show ?thesis using less.prems by (cases "j = 1") (auto simp: le_Suc_eq numeral_2_eq_2)
  next
    case False
    let ?p = "(j - 1) div 2"
    have p: "?p < j" "1 \<le> ?p" "j = 2 * ?p + 1 \<or> j = 2 * ?p + 2" using False by presburger+
    then have "key (h ! ?p) \<le> key (h ! j)" using assms(1) less.prems unfolding heap_from_def by blast
    with less.IH [OF p(1,2)] p(1) less.prems show ?thesis by (auto intro: order_trans)
  qed
qed

lemma set_tl_nth: "set (tl h) = {h ! j | j. 1 \<le> j \<and> j < length h}"
proof (cases h)
  case (Cons x xs)
  have "\<exists>j. xs ! i = h ! j \<and> 1 \<le> j \<and> j < length h" if "i < length xs" for i
    using that by (intro exI [of _ "Suc i"]) (simp add: Cons)
  moreover have "h ! j \<in> set xs" if "1 \<le> j" "j < length h" for j
    using that by (cases j) (simp_all add: Cons)
  ultimately show ?thesis by (auto simp: Cons in_set_conv_nth [of _ xs])
qed simp

lemma next_reader_correct:
  assumes "heap_from key h 0" "\<forall>k \<in> set h. c k = Some (key k)"
  shows "\<exists>nr. next_reader c h = Some nr \<and> (case nr of None \<Rightarrow> tl h = []
      | Some k \<Rightarrow> k \<in> set (tl h) \<and> (\<forall>k' \<in> set (tl h). key k \<le> key k'))"
proof (cases "length h < 2")
  case True
  then show ?thesis by (cases h) (auto simp: next_reader_def)
next
  case F1: False
  have tl: "set (tl h) = {h ! j | j. 1 \<le> j \<and> j < length h}" by (rule set_tl_nth)
  show ?thesis
  proof (cases "length h < 3")
    case True
    then have "next_reader c h = Some (Some (h ! 1))" using F1 by (simp add: next_reader_def)
    moreover have "j = 1" if "1 \<le> j" "j < length h" for j using that True by simp
    ultimately show ?thesis using F1 by (auto simp: tl)
  next
    case False
    define k where "k = (if key (h ! 1) \<le> key (h ! 2) then h ! 1 else h ! 2)"
    have "h ! 1 \<in> set h" "h ! 2 \<in> set h" using False by (auto intro!: nth_mem)
    then have "next_reader c h = Some (Some k)" using F1 False assms(2) by (simp add: next_reader_def k_def)
    moreover have "k \<in> set (tl h)" using False by (auto simp: tl k_def)
    moreover have "key k \<le> key (h ! j)" if "1 \<le> j" "j < length h" for j
      using heap_second [OF assms(1) that] unfolding k_def by (auto simp: not_le intro: order_trans less_imp_le)
    ultimately show ?thesis by (auto simp: tl)
  qed
qed

section \<open>The output side\<close>

lemma ib_empty: "ib_invar b \<Longrightarrow> ib_items b = [] \<Longrightarrow> ib_data b = []"
  by (simp add: ib_invar_def ib_strings_def)

lemma ib_add_ok:
  assumes "ib_invar b" "length x + length (ib_data b) \<le> MAX_INMEMORY_BLOCK_SIZE"
  shows "\<exists>c. ib_add b x = (c, True) \<and> ib_invar c \<and> ib_strings c = ib_strings b @ [x]
    \<and> length (ib_data c) \<le> MAX_INMEMORY_BLOCK_SIZE"
  using ib_add_appends [OF assms] by (metis prod.collapse)

context block_callback
begin

lemma flush_prepared_eq:
  assumes "prepared prepare (m_ib m) = Some b" "block_ok b" "becomes rel (ib_strings (m_ib m)) (ib_strings b)" "ib_items (m_ib m) \<noteq> []"
  shows "flush_ib_parts Z prepare m
    = flush_prepared Z (m\<lparr>m_items_merged := m_items_merged m + of_nat (length (ib_items (m_ib m))), m_ib := b\<rparr>)"
proof (cases prepare)
  case None
  then show ?thesis using assms(1,4) by (auto simp: flush_ib_parts_def prepared_def)
next
  case (Some cb)
  then obtain data its where cb: "cb (ib_data (m_ib m)) (ib_items (m_ib m)) = Some (data, its)"
    "b = (m_ib m)\<lparr>ib_data := data, ib_items := its\<rparr>" using assms(1) by (auto simp: prepared_def)
  have ne: "ib_items b \<noteq> []" using assms(2) by (simp add: block_ok_def)
  have "item_bytes (its ! 0) data = hd (ib_strings b)" "item_bytes (its ! (length its - 1)) data = last (ib_strings b)"
    using first_item_eq [OF ne] last_item_eq [OF ne] cb(2) by simp_all
  then show ?thesis
    using Some cb ne assms(3,4) first_item_eq [OF assms(4)] last_item_eq [OF assms(4)]
    by (simp add: flush_ib_parts_def becomes_def Let_def)
qed

lemma flush_rep:
  assumes "zstd_ok Z" "zstd_bounded Z" "wrep ok rel Z m gs" "sorted (ib_strings (m_ib m))"
  shows "\<exists>m' gs'. flush_ib_parts Z prepare m = Some m' \<and> wrep ok rel Z m' gs' \<and> out m' gs' = out m gs
    \<and> ib_items (m_ib m') = [] \<and> same_input m m'"
proof (cases "ib_items (m_ib m) = []")
  case True
  then have "flush_ib_parts Z prepare m = Some m" by (simp add: flush_ib_parts_def)
  then show ?thesis using assms(3) True by (auto simp: same_input_def)
next
  case False
  obtain ss where w: "bsw_rep Z (m_bsw m) ss" "block_ok (m_ib m)" "list_all2 (becomes rel) gs (map sb_strs ss)"
    and ph0: "ph_first_item_caught m = (ss \<noteq> [])" "ph_blocks_count (m_ph m) = of_nat (length ss)"
      "ph_items_count (m_ph m) = of_nat (length (concat (map sb_strs ss)))"
      "ss \<noteq> [] \<longrightarrow> ph_first_item (m_ph m) = hd (hd (map sb_strs ss))"
    using assms(3,4) False by (auto simp: wrep_def block_ok_def)
  obtain b where b: "prepared prepare (m_ib m) = Some b" "block_ok b" "becomes rel (ib_strings (m_ib m)) (ib_strings b)"
    using prepared_ok [OF w(2)] assms(3) by (auto simp: wrep_def)
  obtain w' b' s where wb: "write_block Z (m_bsw m) b = Some (w', b')" "bsw_rep Z w' (ss @ [s])"
    "sb_strs s = ib_strings b" using write_block_rep [OF assms(1,2) w(1) b(2)] by blast
  have bne: "ib_items b \<noteq> []" using b(2) by (simp add: block_ok_def)
  then have ne: "ib_strings b \<noteq> []" "length (ib_strings b) = length (ib_items b)" by (simp_all add: ib_strings_def)
  note it = first_item_eq [OF bne] last_item_eq [OF bne]
  define ph where "ph = (m_ph m)\<lparr>ph_items_count := ph_items_count (m_ph m) + of_nat (length (ib_strings b)),
      ph_first_item := (if ss = [] then hd (ib_strings b) else ph_first_item (m_ph m)),
      ph_last_item := last (ib_strings b), ph_blocks_count := ph_blocks_count (m_ph m) + 1\<rparr>"
  define m' where "m' = m\<lparr>m_items_merged := m_items_merged m + of_nat (length (ib_items (m_ib m))),
      m_ib := ib_reset b', ph_first_item_caught := True, m_bsw := w', m_ph := ph\<rparr>"
  have "flush_ib_parts Z prepare m = Some m'"
    using flush_prepared_eq [OF b False, of Z] wb(1) it ne(2) by (cases "ss = []")
      (simp_all add: flush_prepared_def Let_def m'_def ph_def ph0(1))
  moreover have "wrep ok rel Z m' (gs @ [ib_strings (m_ib m)])"
    unfolding wrep_def
  proof (intro conjI exI [of _ "ss @ [s]"])
    show "list_all2 (becomes rel) (gs @ [ib_strings (m_ib m)]) (map sb_strs (ss @ [s]))"
      using w(3) b(3) wb(3) by (simp add: list_all2_appendI)
  qed (use wb ne ph0 in \<open>cases "ss = []"; simp add: m'_def ph_def hd_append\<close>)+
  ultimately show ?thesis
    by (intro exI [of _ m'] exI [of _ "gs @ [ib_strings (m_ib m)]"])
      (simp add: out_def m'_def same_input_def)
qed

lemma add_item_rep:
  assumes "zstd_ok Z" "zstd_bounded Z" "wrep ok rel Z m ss" "sorted (out m ss)" "good_item ok x"
  shows "\<exists>m' ss'. add_item Z prepare m x = Some m' \<and> wrep ok rel Z m' ss' \<and> out m' ss' = out m ss @ [x] \<and> same_input m m'"
proof -
  have fit: "\<exists>c. ib_add (m_ib n) x = (c, True) \<and> wrep ok rel Z (n\<lparr>m_ib := c\<rparr>) ts \<and> out (n\<lparr>m_ib := c\<rparr>) ts = out n ts @ [x]"
    if n: "wrep ok rel Z n ts" and l: "length x + length (ib_data (m_ib n)) \<le> MAX_INMEMORY_BLOCK_SIZE" for n ts
  proof -
    have "ib_invar (m_ib n)" using n by (simp add: wrep_def)
    from ib_add_ok [OF this l] obtain c where "ib_add (m_ib n) x = (c, True)" "ib_invar c"
      "ib_strings c = ib_strings (m_ib n) @ [x]" "length (ib_data c) \<le> MAX_INMEMORY_BLOCK_SIZE" by blast
    with n assms(5) show ?thesis by (auto simp: wrep_def out_def good_item_def)
  qed
  show ?thesis
  proof (cases "length x + length (ib_data (m_ib m)) \<le> MAX_INMEMORY_BLOCK_SIZE")
    case True
    from fit [OF assms(3) this] obtain c where "ib_add (m_ib m) x = (c, True)" "wrep ok rel Z (m\<lparr>m_ib := c\<rparr>) ss"
      "out (m\<lparr>m_ib := c\<rparr>) ss = out m ss @ [x]" by blast
    then show ?thesis by (intro exI [of _ "m\<lparr>m_ib := c\<rparr>"] exI [of _ ss]) (simp add: add_item_def same_input_def)
  next
    case False
    have "sorted (ib_strings (m_ib m))" using assms(4) by (simp add: out_def sorted_append)
    then obtain n ts where n: "flush_ib_parts Z prepare m = Some n" "wrep ok rel Z n ts" "out n ts = out m ss"
      "ib_items (m_ib n) = []" "same_input m n" using flush_rep [OF assms(1-3)] by blast
    have "ib_data (m_ib n) = []" using n(2,4) ib_empty by (simp add: wrep_def)
    then have "length x + length (ib_data (m_ib n)) \<le> MAX_INMEMORY_BLOCK_SIZE" using assms(5) by (simp add: good_item_def)
    from fit [OF n(2) this] obtain c where c: "ib_add (m_ib n) x = (c, True)" "wrep ok rel Z (n\<lparr>m_ib := c\<rparr>) ts"
      "out (n\<lparr>m_ib := c\<rparr>) ts = out m ss @ [x]" using n(3) by auto
    moreover have "ib_add (m_ib m) x = (m_ib m, False)" using False by (simp add: ib_add_def)
    ultimately have "add_item Z prepare m x = Some (n\<lparr>m_ib := c\<rparr>)" using n(1) by (simp add: add_item_def)
    then show ?thesis using c n(5) by (intro exI [of _ "n\<lparr>m_ib := c\<rparr>"] exI [of _ ts]) (simp add: same_input_def)
  qed
qed

lemma copy_loop_rep:
  assumes "zstd_ok Z" "zstd_bounded Z" "wrep ok rel Z m ss" "sorted (out m ss @ xs)" "\<forall>x \<in> set xs. good_item ok x"
  shows "\<exists>m' ss' n e. copy_loop Z prepare lim xs m = Some (m', n, e) \<and> wrep ok rel Z m' ss'
    \<and> out m' ss' = out m ss @ take n xs \<and> n \<le> length xs \<and> same_input m m'
    \<and> (if e then n < length xs \<and> (\<exists>y. lim = Some y \<and> y < xs ! n) else n = length xs)
    \<and> (\<forall>y. lim = Some y \<longrightarrow> (\<forall>x \<in> set (take n xs). x \<le> y))"
  using assms(3-5)
proof (induction xs arbitrary: m ss)
  case Nil
  then show ?case by (intro exI [of _ m] exI [of _ ss] exI [of _ 0] exI [of _ False]) (simp add: same_input_def)
next
  case (Cons x xs)
  show ?case
  proof (cases "case lim of Some y \<Rightarrow> x > y | None \<Rightarrow> False")
    case True
    then have "copy_loop Z prepare lim (x # xs) m = Some (m, 0, True)" by simp
    then show ?thesis using Cons.prems True
      by (intro exI [of _ m] exI [of _ ss] exI [of _ 0] exI [of _ True]) (auto simp: same_input_def split: option.splits)
  next
    case False
    have "sorted (out m ss)" "good_item ok x" using Cons.prems by (simp_all add: sorted_append)
    then obtain m1 s1 where m1: "add_item Z prepare m x = Some m1" "wrep ok rel Z m1 s1" "out m1 s1 = out m ss @ [x]"
      "same_input m m1" using add_item_rep [OF assms(1,2) Cons.prems(1)] by blast
    have "sorted (out m1 s1 @ xs)" "\<forall>x \<in> set xs. good_item ok x" using Cons.prems m1(3) by simp_all
    from Cons.IH [OF m1(2) this] obtain m' ss' n e where r: "copy_loop Z prepare lim xs m1 = Some (m', n, e)" "wrep ok rel Z m' ss'"
      "out m' ss' = out m1 s1 @ take n xs" "n \<le> length xs" "same_input m1 m'"
      "if e then n < length xs \<and> (\<exists>y. lim = Some y \<and> y < xs ! n) else n = length xs"
      "\<forall>y. lim = Some y \<longrightarrow> (\<forall>x \<in> set (take n xs). x \<le> y)" by blast
    have "copy_loop Z prepare lim (x # xs) m = Some (m', n + 1, e)" using False m1(1) r(1) by simp
    then show ?thesis
      using r m1(3,4) False
      by (intro exI [of _ m'] exI [of _ ss'] exI [of _ "n + 1"] exI [of _ e])
        (auto simp: same_input_def not_less split: option.splits if_splits)
  qed
qed

end

section \<open>The input side\<close>

lemma bsr_rep_idx [simp]: "bsr_rep Z (r\<lparr>curr_item_idx := n\<rparr>) rest = bsr_rep Z r rest"
  by (simp add: bsr_rep_def src_rep_def chk_rep_def)

lemma live_idx [simp]: "live Z (r\<lparr>curr_item_idx := n\<rparr>) rest = live Z r rest"
  by (simp add: live_def)

lemma bsr_rep_error: "bsr_rep Z r rest \<Longrightarrow> bsr_err_msg r = None"
  by (simp add: bsr_rep_def chk_rep_def bsr_err_msg_def)

lemma bsr_rep_nonempty:
  assumes "bsr_rep Z r (b # rest)"
  shows "b \<noteq> []"
proof -
  obtain c gs where s: "list_all (stored Z) c" "list_all (group_ok Z) gs"
    "b # rest = map sb_strs (c @ concat (map g_blocks gs))"
    using assms unfolding bsr_rep_def src_rep_def by (elim conjE exE) (rule that)
  have "list_all (stored Z) (c @ concat (map g_blocks gs))" using s(1) groups_stored [OF s(2)] by simp
  then obtain x where "stored Z x" "b = sb_strs x" using s(3) by (cases "c @ concat (map g_blocks gs)") auto
  then show ?thesis by (simp add: stored_def)
qed

lemma live_next_Cons:
  assumes "live Z r (b # rest)"
  shows "\<exists>r'. bsr_next Z r = Some (r', True) \<and> live Z r' rest \<and> ib_strings (bsr_block r') = b
    \<and> curr_item_idx r' = 0 \<and> ib_items (bsr_block r') \<noteq> [] \<and> bsr_err_msg r' = None"
proof -
  have r: "bsr_rep Z r (b # rest)" using assms by (simp add: live_def)
  from next_rep_Cons [OF this] bsr_rep_nonempty [OF r] show ?thesis
    by (auto simp: live_def ib_strings_def dest: bsr_rep_error)
qed

lemma live_next_Nil:
  assumes "live Z r []"
  shows "\<exists>r'. bsr_next Z r = Some (r', False) \<and> bsr_err_msg r' = None"
proof (cases "bsr_rep Z r []")
  case True
  then show ?thesis by (rule next_rep_Nil)
next
  case False
  then show ?thesis using assms by (simp add: live_def bsr_next_def bsr_err_msg_def)
qed

lemma fresh_next:
  assumes "fresh Z r bs"
  shows "case bs of [] \<Rightarrow> \<exists>r'. bsr_next Z r = Some (r', False) \<and> bsr_err_msg r' = None
    | b # rest \<Rightarrow> \<exists>r'. bsr_next Z r = Some (r', True) \<and> live Z r' rest \<and> ib_strings (bsr_block r') = b
       \<and> curr_item_idx r' = 0 \<and> ib_items (bsr_block r') \<noteq> [] \<and> bsr_err_msg r' = None"
proof (cases "bsr_rep Z r bs")
  case True
  then have "live Z r bs" by (simp add: live_def)
  then show ?thesis using live_next_Cons live_next_Nil by (auto split: list.splits)
next
  case False
  then show ?thesis using assms by (simp add: fresh_def bsr_next_def live_def bsr_err_msg_def)
qed

lemma cur_key:
  "k < length bsrs \<Longrightarrow> curr_item_idx (bsrs ! k) < length (ib_items (bsr_block (bsrs ! k))) \<Longrightarrow>
    cur bsrs k = Some (key_of bsrs k)"
  by (simp add: cur_def curr_item_def key_of_def ib_strings_nth)

lemma todo_hd:
  assumes "reader_ok ok Z (bsrs ! k) rest"
  shows "\<exists>xs. todo (bsrs ! k) rest = key_of bsrs k # xs"
proof -
  have "curr_item_idx (bsrs ! k) < length (ib_strings (bsr_block (bsrs ! k)))"
    using assms by (simp add: reader_ok_def ib_strings_def)
  then show ?thesis by (simp add: todo_def key_of_def Cons_nth_drop_Suc [symmetric])
qed

lemma todo_min: "reader_ok ok Z (bsrs ! k) rest \<Longrightarrow> y \<in> set (todo (bsrs ! k) rest) \<Longrightarrow> key_of bsrs k \<le> y"
  using todo_hd [of ok Z bsrs k rest] by (auto simp: reader_ok_def)

section \<open>One round\<close>

text \<open>
  What the copy of the top block achieves: a nonempty part of the top reader's items is moved to
  the output, and everything moved is no larger than any item that stays.
\<close>

lemma copy_limit_top:
  assumes "reader_ok ok Z r rest" "\<And>y. next_item = Some y \<Longrightarrow> hd (todo r rest) \<le> y"
    "copy_loop Z prepare (copy_limit r next_item) (drop (curr_item_idx r) (ib_strings (bsr_block r))) m = Some (m', n, e)"
    "n \<le> length (drop (curr_item_idx r) (ib_strings (bsr_block r)))"
    "if e then n < length (drop (curr_item_idx r) (ib_strings (bsr_block r)))
       \<and> (\<exists>y. copy_limit r next_item = Some y \<and> y < drop (curr_item_idx r) (ib_strings (bsr_block r)) ! n)
     else n = length (drop (curr_item_idx r) (ib_strings (bsr_block r)))"
    "\<forall>y. copy_limit r next_item = Some y \<longrightarrow> (\<forall>x \<in> set (take n (drop (curr_item_idx r) (ib_strings (bsr_block r)))). x \<le> y)"
  shows "0 < n" "next_item = Some y \<Longrightarrow> x \<in> set (take n (drop (curr_item_idx r) (ib_strings (bsr_block r)))) \<Longrightarrow> x \<le> y"
proof -
  let ?xs = "drop (curr_item_idx r) (ib_strings (bsr_block r))"
  have i: "curr_item_idx r < length (ib_items (bsr_block r))" "length (ib_strings (bsr_block r)) = length (ib_items (bsr_block r))"
    using assms(1) by (simp_all add: reader_ok_def ib_strings_def)
  then have ne: "?xs \<noteq> []" "hd (todo r rest) = ?xs ! 0" by (simp_all add: todo_def hd_append hd_drop_conv_nth)
  have last: "item_bytes (ib_items (bsr_block r) ! (length (ib_items (bsr_block r)) - 1)) (ib_data (bsr_block r)) = last ?xs"
    using i last_item_eq [of "bsr_block r"] by (cases "ib_items (bsr_block r)") (simp_all add: last_drop)
  show "0 < n"
  proof (cases e)
    case True
    then obtain y where y: "copy_limit r next_item = Some y" "y < ?xs ! n" using assms(5) by auto
    then have "next_item = Some y" using i(1) by (auto simp: copy_limit_def Let_def split: option.splits if_splits)
    then have "?xs ! 0 \<le> y" using assms(2) ne(2) by simp
    then show ?thesis using y(2) by (cases n) auto
  next
    case False
    then show ?thesis using assms(5) ne(1) by simp
  qed
  show "x \<le> y" if ni: "next_item = Some y" and x: "x \<in> set (take n ?xs)" for x y
  proof (cases "last ?xs > y")
    case True
    then have "copy_limit r next_item = Some y" using i(1) ni last by (simp add: copy_limit_def Let_def)
    then show ?thesis using assms(6) x by blast
  next
    case False
    have "sorted ?xs" using assms(1) by (simp add: reader_ok_def todo_def sorted_append)
    moreover have "x \<in> set ?xs" using x by (meson in_set_takeD)
    ultimately have "x \<le> last ?xs" using ne(1)
      by (metis append_butlast_last_id insert_iff list.set(2) order_refl rotate1.simps(2) set_rotate1 sorted_append)
    with False show ?thesis by simp
  qed
qed

lemma minv_heap_keys:
  assumes "minv ok rel Z m rest ss"
  shows "\<forall>k \<in> set (m_heap m). cur (m_bsrs m) k = Some (key_of (m_bsrs m) k)"
  using assms by (auto simp: minv_def reader_ok_def intro: cur_key)

lemma heap_from_cong:
  assumes "heap_from key h i" "\<And>k. k \<in> set h \<Longrightarrow> key' k = key k"
  shows "heap_from key' h i"
  unfolding heap_from_def
proof (intro allI impI)
  fix j c assume a: "i \<le> j \<and> (c = 2 * j + 1 \<or> c = 2 * j + 2) \<and> c < length h"
  then have "h ! j \<in> set h" "h ! c \<in> set h" by (auto intro!: nth_mem)
  with assms a show "key' (h ! j) \<le> key' (h ! c)" unfolding heap_from_def by metis
qed

lemma wrep_input [simp]: "wrep ok rel Z (m\<lparr>m_bsrs := b\<rparr>) ss = wrep ok rel Z m ss" "wrep ok rel Z (m\<lparr>m_heap := h\<rparr>) ss = wrep ok rel Z m ss"
  by (simp_all add: wrep_def)

lemma out_input [simp]: "out (m\<lparr>m_bsrs := b\<rparr>) ss = out m ss" "out (m\<lparr>m_heap := h\<rparr>) ss = out m ss"
  by (simp_all add: out_def)

lemma moved_facts:
  assumes "moved_from_top ok rel Z m rest ss tp h moved stay m' ss'"
  shows "sorted (out m' ss')" "\<forall>x \<in> set (out m' ss'). \<forall>y \<in> set stay. x \<le> y"
    "k \<in> set h \<Longrightarrow> x \<in> set (out m' ss') \<Longrightarrow> y \<in> set (todo (m_bsrs m ! k) (rest k)) \<Longrightarrow> x \<le> y"
    "distinct (tp # h)" "tp < length (m_bsrs m)" "k \<in> set h \<Longrightarrow> k \<noteq> tp"
    "k \<in> set h \<Longrightarrow> k < length (m_bsrs m) \<and> reader_ok ok Z (m_bsrs m ! k) (rest k)"
    "sorted (moved @ stay)"
proof -
  have m: "minv ok rel Z m rest ss" "m_heap m = tp # h" "out m' ss' = out m ss @ moved"
    "todo (m_bsrs m ! tp) (rest tp) = moved @ stay" "\<forall>k \<in> set h. \<forall>x \<in> set moved. x \<le> key_of (m_bsrs m) k"
    using assms by (simp_all add: moved_from_top_def)
  have t: "reader_ok ok Z (m_bsrs m ! tp) (rest tp)" "sorted (out m ss)"
    "\<forall>x \<in> set (out m ss). \<forall>y \<in> set (moved @ stay). x \<le> y"
    using m(1,2,4) by (simp_all add: minv_def)
  show s: "sorted (moved @ stay)" using t(1) m(4) by (simp add: reader_ok_def)
  then show "sorted (out m' ss')" "\<forall>x \<in> set (out m' ss'). \<forall>y \<in> set stay. x \<le> y"
    using t(2,3) m(3) by (auto simp: sorted_append)
  show "distinct (tp # h)" "tp < length (m_bsrs m)" using m(1,2) by (simp_all add: minv_def)
  then show "k \<in> set h \<Longrightarrow> k \<noteq> tp" by auto
  show o: "k \<in> set h \<Longrightarrow> k < length (m_bsrs m) \<and> reader_ok ok Z (m_bsrs m ! k) (rest k)"
    using m(1,2) by (simp add: minv_def)
  show "x \<le> y" if "k \<in> set h" "x \<in> set (out m' ss')" "y \<in> set (todo (m_bsrs m ! k) (rest k))"
  proof (cases "x \<in> set (out m ss)")
    case True
    then show ?thesis using m(1,2) that by (simp add: minv_def)
  next
    case False
    then have "x \<le> key_of (m_bsrs m) k" using that m(3,5) by auto
    also have "\<dots> \<le> y" using todo_min o that by blast
    finally show ?thesis .
  qed
qed

lemma moved_sums:
  assumes "moved_from_top ok rel Z m rest ss tp h moved stay m' ss'"
  shows "all_items m rest ss = mset (out m' ss') + (mset stay + (\<Sum>k \<in> set h. mset (todo (m_bsrs m ! k) (rest k))))"
    "work m rest = length moved + length stay + length (rest tp) + 1
       + (\<Sum>k \<in> set h. length (todo (m_bsrs m ! k) (rest k)) + length (rest k) + 1)"
proof -
  have m: "m_heap m = tp # h" "out m' ss' = out m ss @ moved" "todo (m_bsrs m ! tp) (rest tp) = moved @ stay"
    using assms by (simp_all add: moved_from_top_def)
  have "tp \<notin> set h" using moved_facts(4) [OF assms] by simp
  then show "all_items m rest ss = mset (out m' ss') + (mset stay + (\<Sum>k \<in> set h. mset (todo (m_bsrs m ! k) (rest k))))"
    "work m rest = length moved + length stay + length (rest tp) + 1
       + (\<Sum>k \<in> set h. length (todo (m_bsrs m ! k) (rest k)) + length (rest k) + 1)"
    using m by (simp_all add: all_items_def work_def add.assoc)
qed

lemma sum_other:
  assumes "moved_from_top ok rel Z m rest ss tp h moved stay m' ss'"
  shows "(\<Sum>k \<in> set h. f ((m_bsrs m)[tp := r] ! k) ((rest(tp := q)) k)) = (\<Sum>k \<in> set h. f (m_bsrs m ! k) (rest k))"
  using moved_facts(6) [OF assms] by (intro sum.cong refl) (metis nth_list_update_neq fun_upd_other)

lemma key_other:
  "k \<noteq> tp \<Longrightarrow> key_of (bsrs[tp := r]) k = key_of bsrs k"
  by (simp add: key_of_def)

lemma keep_top:
  assumes mv: "moved_from_top ok rel Z m rest ss tp h moved stay m' ss'"
    and r: "reader_ok ok Z r q" "todo r q = stay"
  shows "\<exists>h'. sift_down (cur ((m_bsrs m)[tp := r])) (tp # h) 0 = Some h'
    \<and> minv ok rel Z (m'\<lparr>m_bsrs := (m_bsrs m)[tp := r], m_heap := h'\<rparr>) (rest(tp := q)) ss'
    \<and> all_items (m'\<lparr>m_bsrs := (m_bsrs m)[tp := r], m_heap := h'\<rparr>) (rest(tp := q)) ss' = all_items m rest ss
    \<and> work (m'\<lparr>m_bsrs := (m_bsrs m)[tp := r], m_heap := h'\<rparr>) (rest(tp := q)) + length moved + length (rest tp)
       = work m rest + length q"
proof -
  let ?bs = "(m_bsrs m)[tp := r]"
  note f = moved_facts [OF mv]
  have mh: "m_heap m = tp # h" "heap_from (key_of (m_bsrs m)) (m_heap m) 0" and w: "wrep ok rel Z m' ss'"
    using mv unfolding moved_from_top_def minv_def by blast+
  note hf = mh(2) [unfolded mh(1)]
  have no: "?bs ! k = m_bsrs m ! k" if "k \<in> set h" for k
    using f(6) [OF that] by (metis nth_list_update_neq)
  have ko: "\<forall>k \<in> set (tl (tp # h)). key_of ?bs k = key_of (m_bsrs m) k" using f(6) by (simp add: key_other)
  have ok: "k < length ?bs \<and> reader_ok ok Z (?bs ! k) ((rest(tp := q)) k)" if "k \<in> set (tp # h)" for k
    using that f(5-7) r(1) by auto
  then have ck: "\<forall>k \<in> set (tp # h). cur ?bs k = Some (key_of ?bs k)" by (auto simp: reader_ok_def intro!: cur_key)
  obtain h' where h': "sift_down (cur ?bs) (tp # h) 0 = Some h'" "mset h' = mset (tp # h)" "heap_from (key_of ?bs) h' 0"
    using heap_fix_top [OF hf ko ck f(4)] by blast
  have sh: "set h' = insert tp (set h)" "distinct h'"
    using h'(2) f(4) by (metis list.set(2) set_mset_mset, metis mset_eq_imp_distinct_iff)
  define n where "n = m'\<lparr>m_bsrs := ?bs, m_heap := h'\<rparr>"
  have n: "out n ss' = out m' ss'" "wrep ok rel Z n ss'" "m_heap n = h'" "m_bsrs n = ?bs"
    using w by (simp_all add: n_def)
  have "minv ok rel Z n (rest(tp := q)) ss'"
    unfolding minv_def n
    using sh h'(3) n(2) f(1,2,3) ok r(2) f(5,6) by (auto simp: sh(1) no)
  moreover have "all_items n (rest(tp := q)) ss' = all_items m rest ss"
    using moved_sums(1) [OF mv] sum_other [OF mv, of "\<lambda>r q. mset (todo r q)" r q] f(4,5) r(2)
    by (simp add: all_items_def n sh(1))
  moreover have "work n (rest(tp := q)) + length moved + length (rest tp) = work m rest + length q"
    using moved_sums(2) [OF mv] sum_other [OF mv, of "\<lambda>r q. length (todo r q) + length q + 1" r q] f(4,5) r(2)
    by (simp add: work_def n sh(1))
  ultimately show ?thesis using h'(1) unfolding n_def by blast
qed

lemma drop_top:
  assumes mv: "moved_from_top ok rel Z m rest ss tp h moved [] m' ss'"
  shows "\<exists>h'. heap_pop_top (cur ((m_bsrs m)[tp := r])) (tp # h) = Some h'
    \<and> minv ok rel Z (m'\<lparr>m_bsrs := (m_bsrs m)[tp := r], m_heap := h'\<rparr>) rest ss'
    \<and> all_items (m'\<lparr>m_bsrs := (m_bsrs m)[tp := r], m_heap := h'\<rparr>) rest ss' = all_items m rest ss
    \<and> work (m'\<lparr>m_bsrs := (m_bsrs m)[tp := r], m_heap := h'\<rparr>) rest < work m rest"
proof -
  let ?bs = "(m_bsrs m)[tp := r]"
  note f = moved_facts [OF mv]
  have mh: "m_heap m = tp # h" "heap_from (key_of (m_bsrs m)) (m_heap m) 0" and w: "wrep ok rel Z m' ss'"
    using mv unfolding moved_from_top_def minv_def by blast+
  note hf = mh(2) [unfolded mh(1)]
  have no: "?bs ! k = m_bsrs m ! k" if "k \<in> set h" for k
    using f(6) [OF that] by (metis nth_list_update_neq)
  have ok: "k < length ?bs \<and> reader_ok ok Z (?bs ! k) (rest k)" if "k \<in> set h" for k
    using that f(7) by (simp add: no)
  then have "cur ?bs k = Some (key_of ?bs k)" if "k \<in> set h" for k using that by (auto simp: reader_ok_def intro!: cur_key)
  then have ck: "\<forall>k \<in> set (tl (tp # h)). cur ?bs k = Some (key_of (m_bsrs m) k)" using f(6) by (simp add: key_other)
  obtain h' where h': "heap_pop_top (cur ?bs) (tp # h) = Some h'" "mset h' = mset h" "heap_from (key_of (m_bsrs m)) h' 0"
    using heap_pop_correct [OF hf ck] by auto
  have sh: "set h' = set h" "distinct h'"
    using h'(2) f(4) by (metis set_mset_mset, metis distinct.simps(2) mset_eq_imp_distinct_iff)
  have "key_of ?bs k = key_of (m_bsrs m) k" if "k \<in> set h'" for k using that sh f(6) by (simp add: key_other)
  then have hf': "heap_from (key_of ?bs) h' 0" by (rule heap_from_cong [OF h'(3)])
  define n where "n = m'\<lparr>m_bsrs := ?bs, m_heap := h'\<rparr>"
  have n: "out n ss' = out m' ss'" "wrep ok rel Z n ss'" "m_heap n = h'" "m_bsrs n = ?bs"
    using w by (simp_all add: n_def)
  have "minv ok rel Z n rest ss'"
    unfolding minv_def n using sh hf' n(2) f(1,3,6) ok by (auto simp: sh(1) no)
  moreover have so: "(\<Sum>k \<in> set h. g (?bs ! k) (rest k)) = (\<Sum>k \<in> set h. g (m_bsrs m ! k) (rest k))" for g :: "_ \<Rightarrow> _ \<Rightarrow> 'a::comm_monoid_add"
    using f(6) by (intro sum.cong refl) (metis nth_list_update_neq)
  have "all_items n rest ss' = all_items m rest ss"
    using moved_sums(1) [OF mv] so [of "\<lambda>r q. mset (todo r q)"] by (simp add: all_items_def n sh(1))
  moreover have "work n rest < work m rest"
    using moved_sums(2) [OF mv] so [of "\<lambda>r q. length (todo r q) + length q + 1"] by (simp add: work_def n sh(1))
  ultimately show ?thesis using h'(1) unfolding n_def by blast
qed

context block_callback
begin

lemma merge_round_rep:
  assumes Z: "zstd_ok Z" "zstd_bounded Z" and inv: "minv ok rel Z m rest ss" and ne: "m_heap m \<noteq> []"
  shows "\<exists>m' rest' ss'. merge_round Z prepare False m = Some (m', Continue) \<and> minv ok rel Z m' rest' ss'
    \<and> all_items m' rest' ss' = all_items m rest ss \<and> work m' rest' < work m rest"
proof -
  obtain tp h where h: "m_heap m = tp # h" using ne by (cases "m_heap m") auto
  let ?r = "m_bsrs m ! tp" and ?key = "key_of (m_bsrs m)" and ?c = "cur (m_bsrs m)"
  let ?xs = "drop (curr_item_idx ?r) (ib_strings (bsr_block ?r))"
  have hf: "heap_from ?key (tp # h) 0" using inv h unfolding minv_def by metis
  have ck: "\<forall>k \<in> set (tp # h). ?c k = Some (?key k)" using minv_heap_keys [OF inv] unfolding h .
  have tp: "tp < length (m_bsrs m)" "reader_ok ok Z ?r (rest tp)" "wrep ok rel Z m ss" "sorted (out m ss)"
    "\<forall>x \<in> set (out m ss). \<forall>y \<in> set (todo ?r (rest tp)). x \<le> y"
    using inv h by (simp_all add: minv_def)
  obtain nr where nr: "next_reader ?c (tp # h) = Some nr" "case nr of None \<Rightarrow> h = []
      | Some k \<Rightarrow> k \<in> set h \<and> (\<forall>k' \<in> set h. ?key k \<le> ?key k')"
    using next_reader_correct [OF hf ck, unfolded list.sel] by blast
  define ni where "ni = map_option ?key nr"
  have ni: "(case nr of None \<Rightarrow> Some None | Some k \<Rightarrow> map_option Some (?c k)) = Some ni"
    using nr(2) ck by (cases nr) (simp_all add: ni_def)
  have top_le: "hd (todo ?r (rest tp)) \<le> y" if y: "ni = Some y" for y
  proof -
    obtain k where k: "nr = Some k" "y = ?key k" using y by (auto simp: ni_def)
    have "k \<in> set (tp # h)" using nr(2) k(1) by simp
    then obtain j where "j < length (tp # h)" "(tp # h) ! j = k" unfolding in_set_conv_nth by blast
    then have "?key tp \<le> ?key k" using heap_top_min [OF hf, of j] by simp
    then show ?thesis using todo_hd [OF tp(2)] k(2) by auto
  qed
  have xs: "sorted (out m ss @ ?xs)" "\<forall>x \<in> set ?xs. good_item ok x"
    using tp by (auto simp: sorted_append reader_ok_def todo_def)
  obtain m' ss' n e where cl: "copy_loop Z prepare (copy_limit ?r ni) ?xs m = Some (m', n, e)" "wrep ok rel Z m' ss'"
    "out m' ss' = out m ss @ take n ?xs" "n \<le> length ?xs" "same_input m m'"
    "if e then n < length ?xs \<and> (\<exists>y. copy_limit ?r ni = Some y \<and> y < ?xs ! n) else n = length ?xs"
    "\<forall>y. copy_limit ?r ni = Some y \<longrightarrow> (\<forall>x \<in> set (take n ?xs). x \<le> y)"
    using copy_loop_rep [OF Z tp(3) xs, of "copy_limit ?r ni"] by blast
  have n0: "0 < n" and le: "\<And>x y. ni = Some y \<Longrightarrow> x \<in> set (take n ?xs) \<Longrightarrow> x \<le> y"
    using copy_limit_top [OF tp(2) top_le cl(1,4,6,7)] by blast+
  have others: "x \<le> ?key k" if k: "k \<in> set h" and x: "x \<in> set (take n ?xs)" for k x
  proof -
    obtain k0 where k0: "nr = Some k0" using nr(2) k by (cases nr) auto
    then have "x \<le> ?key k0" "?key k0 \<le> ?key k" using le k x nr(2) by (simp_all add: ni_def)
    then show ?thesis by (rule order_trans)
  qed
  have t: "todo ?r (rest tp) = take n ?xs @ drop n ?xs @ concat (rest tp)"
    unfolding todo_def by (metis append.assoc append_take_drop_id)
  have mv: "moved_from_top ok rel Z m rest ss tp h (take n ?xs) (drop n ?xs @ concat (rest tp)) m' ss'"
    unfolding moved_from_top_def using inv h cl(2,3,5) others t by blast
  have same: "m_bsrs m' = m_bsrs m" "m_heap m' = tp # h" using cl(5) h by (simp_all add: same_input_def)
  let ?r1 = "?r\<lparr>curr_item_idx := curr_item_idx ?r + n\<rparr>"
  have lv: "live Z ?r1 (rest tp)" using tp(2) by (simp add: reader_ok_def)
  have s: "sorted (drop n ?xs @ concat (rest tp))" "\<forall>x \<in> set (drop n ?xs @ concat (rest tp)). good_item ok x"
  proof -
    from tp(2) show "sorted (drop n ?xs @ concat (rest tp))" "\<forall>x \<in> set (drop n ?xs @ concat (rest tp)). good_item ok x"
      unfolding reader_ok_def t by (simp_all only: sorted_append set_append) blast+
  qed
  have len: "length (ib_strings (bsr_block ?r)) = length (ib_items (bsr_block ?r))" by (simp add: ib_strings_def)
  note unf = merge_round_def h Let_def nth_Cons_0 nr(1) ni cl(1) option.case prod.case same
  show ?thesis
  proof (cases e)
    case True
    have t1: "todo ?r1 (rest tp) = drop n ?xs @ concat (rest tp)" by (simp add: todo_def add.commute)
    have "n < length ?xs" using cl(6) True by simp
    then have "curr_item_idx ?r + n < length (ib_items (bsr_block ?r))" unfolding length_drop len by simp
    then have "reader_ok ok Z ?r1 (rest tp)" using lv s t1 by (simp add: reader_ok_def)
    from keep_top [OF mv this t1] obtain h' where
      k: "sift_down (cur ((m_bsrs m)[tp := ?r1])) (tp # h) 0 = Some h'"
        "minv ok rel Z (m'\<lparr>m_bsrs := (m_bsrs m)[tp := ?r1], m_heap := h'\<rparr>) (rest(tp := rest tp)) ss'"
        "all_items (m'\<lparr>m_bsrs := (m_bsrs m)[tp := ?r1], m_heap := h'\<rparr>) (rest(tp := rest tp)) ss' = all_items m rest ss"
        "work (m'\<lparr>m_bsrs := (m_bsrs m)[tp := ?r1], m_heap := h'\<rparr>) (rest(tp := rest tp)) + length (take n ?xs) + length (rest tp)
          = work m rest + length (rest tp)" by blast
    have "merge_round Z prepare False m = Some (m'\<lparr>m_bsrs := (m_bsrs m)[tp := ?r1], m_heap := h'\<rparr>, Continue)"
      unfolding unf using True k(1) by (simp add: same)
    moreover have "0 < length (take n ?xs)" using n0 cl(4) by simp
    ultimately show ?thesis using k(2-4) by (intro exI conjI) (assumption | linarith)+
  next
    case False
    then have n: "drop n ?xs = []" "take n ?xs = ?xs" using cl(6) by simp_all
    show ?thesis
    proof (cases "rest tp")
      case (Cons b bs)
      obtain r2 where r2: "bsr_next Z ?r1 = Some (r2, True)" "live Z r2 bs" "ib_strings (bsr_block r2) = b"
        "curr_item_idx r2 = 0" "ib_items (bsr_block r2) \<noteq> []"
        using live_next_Cons [of Z ?r1 b bs] lv Cons by auto
      have t2: "todo r2 bs = drop n ?xs @ concat (rest tp)" using r2 Cons n by (simp add: todo_def)
      then have "reader_ok ok Z r2 bs" using r2 s by (simp add: reader_ok_def)
      from keep_top [OF mv this t2] obtain h' where
        k: "sift_down (cur ((m_bsrs m)[tp := r2])) (tp # h) 0 = Some h'"
          "minv ok rel Z (m'\<lparr>m_bsrs := (m_bsrs m)[tp := r2], m_heap := h'\<rparr>) (rest(tp := bs)) ss'"
          "all_items (m'\<lparr>m_bsrs := (m_bsrs m)[tp := r2], m_heap := h'\<rparr>) (rest(tp := bs)) ss' = all_items m rest ss"
          "work (m'\<lparr>m_bsrs := (m_bsrs m)[tp := r2], m_heap := h'\<rparr>) (rest(tp := bs)) + length (take n ?xs) + length (rest tp)
            = work m rest + length bs" by blast
      have "merge_round Z prepare False m = Some (m'\<lparr>m_bsrs := (m_bsrs m)[tp := r2], m_heap := h'\<rparr>, Continue)"
        unfolding unf using False k(1) r2(1) by (simp add: same)
      moreover have "length bs < length (rest tp)" using Cons by simp
      ultimately show ?thesis using k(2-4) by (intro exI conjI) (assumption | linarith)+
    next
      case Nil
      obtain r2 where r2: "bsr_next Z ?r1 = Some (r2, False)" "bsr_err_msg r2 = None"
        using live_next_Nil [of Z ?r1] lv Nil by auto
      have mv0: "moved_from_top ok rel Z m rest ss tp h (take n ?xs) [] m' ss'" using mv n Nil by simp
      from drop_top [OF mv0, of r2] obtain h' where
        k: "heap_pop_top (cur ((m_bsrs m)[tp := r2])) (tp # h) = Some h'"
          "minv ok rel Z (m'\<lparr>m_bsrs := (m_bsrs m)[tp := r2], m_heap := h'\<rparr>) rest ss'"
          "all_items (m'\<lparr>m_bsrs := (m_bsrs m)[tp := r2], m_heap := h'\<rparr>) rest ss' = all_items m rest ss"
          "work (m'\<lparr>m_bsrs := (m_bsrs m)[tp := r2], m_heap := h'\<rparr>) rest < work m rest" by blast
      have "merge_round Z prepare False m = Some (m'\<lparr>m_bsrs := (m_bsrs m)[tp := r2], m_heap := h'\<rparr>, Continue)"
        unfolding unf using False k(1) r2 by (simp add: same)
      then show ?thesis using k(2-4) by blast
    qed
  qed
qed

lemma merge_loop_rep:
  assumes Z: "zstd_ok Z" "zstd_bounded Z" and run: "\<And>k. \<not> stop k"
  shows "minv ok rel Z m rest ss \<Longrightarrow> work m rest < fuel \<Longrightarrow>
    \<exists>m' ss'. merge_loop Z prepare stop fuel k m = Some (m', None) \<and> wrep ok rel Z m' ss' \<and> ib_items (m_ib m') = []
      \<and> sorted (out m' ss') \<and> mset (out m' ss') = all_items m rest ss"
proof (induction fuel arbitrary: m rest ss k)
  case (Suc fuel)
  show ?case
  proof (cases "m_heap m = []")
    case True
    have w: "wrep ok rel Z m ss" "sorted (out m ss)" using Suc.prems(1) by (simp_all add: minv_def)
    then have "sorted (ib_strings (m_ib m))" by (simp add: out_def sorted_append)
    from flush_rep [OF Z w(1) this] obtain m' ss' where f: "flush_ib_parts Z prepare m = Some m'" "wrep ok rel Z m' ss'"
      "out m' ss' = out m ss" "ib_items (m_ib m') = []" by blast
    have "merge_loop Z prepare stop (Suc fuel) k m = Some (m', None)" using True f(1) by (simp add: merge_round_def)
    moreover have "all_items m rest ss = mset (out m ss)" using True by (simp add: all_items_def)
    ultimately show ?thesis using f w(2) by auto
  next
    case False
    from merge_round_rep [OF Z Suc.prems(1) False] obtain m1 rest1 ss1 where
      r: "merge_round Z prepare False m = Some (m1, Continue)" "minv ok rel Z m1 rest1 ss1"
        "all_items m1 rest1 ss1 = all_items m rest ss" "work m1 rest1 < work m rest" by blast
    from Suc.IH [OF r(2), of "k + 1"] r Suc.prems(2) run [of k] show ?thesis by auto
  qed
qed simp

text \<open>With any answers of the stop signal, the loop ends and leaves the writer in order.\<close>

lemma merge_loop_any_stop:
  assumes Z: "zstd_ok Z" "zstd_bounded Z"
  shows "minv ok rel Z m rest ss \<Longrightarrow> work m rest < fuel \<Longrightarrow>
    \<exists>m' e ss'. merge_loop Z prepare stop fuel k m = Some (m', e) \<and> wrep ok rel Z m' ss' \<and> mset (out m' ss') \<subseteq># all_items m rest ss
      \<and> (e = None \<or> e = Some ForciblyStopped \<and> (\<exists>j. k \<le> j \<and> j < k + fuel \<and> stop j))"
proof (induction fuel arbitrary: m rest ss k)
  case (Suc fuel)
  have w: "wrep ok rel Z m ss" "sorted (out m ss)" using Suc.prems(1) by (simp_all add: minv_def)
  show ?case
  proof (cases "m_heap m = []")
    case True
    have "sorted (ib_strings (m_ib m))" using w(2) by (simp add: out_def sorted_append)
    from flush_rep [OF Z w(1) this] obtain m' ss' where f: "flush_ib_parts Z prepare m = Some m'" "wrep ok rel Z m' ss'"
      "out m' ss' = out m ss" by blast
    then show ?thesis using True by (auto simp: merge_round_def all_items_def)
  next
    case live: False
    show ?thesis
    proof (cases "stop k")
      case True
      then have "merge_loop Z prepare stop (Suc fuel) k m = Some (m, Some ForciblyStopped)" using live by (simp add: merge_round_def)
      moreover have "mset (out m ss) \<subseteq># all_items m rest ss" by (simp add: all_items_def)
      moreover have "\<exists>j. k \<le> j \<and> j < k + Suc fuel \<and> stop j" using True by (intro exI [of _ k]) simp
      ultimately show ?thesis using w(1) by blast
    next
      case False
      from merge_round_rep [OF Z Suc.prems(1) live] obtain m1 rest1 ss1 where
        r: "merge_round Z prepare False m = Some (m1, Continue)" "minv ok rel Z m1 rest1 ss1"
          "all_items m1 rest1 ss1 = all_items m rest ss" "work m1 rest1 < work m rest" by blast
      then have "work m1 rest1 < fuel" using Suc.prems(2) by simp
      from Suc.IH [OF r(2) this, of "k + 1"] obtain m' e ss' where
        h: "merge_loop Z prepare stop fuel (k + 1) m1 = Some (m', e)" "wrep ok rel Z m' ss'" "mset (out m' ss') \<subseteq># all_items m rest ss"
          "e = None \<or> e = Some ForciblyStopped \<and> (\<exists>j. k + 1 \<le> j \<and> j < k + 1 + fuel \<and> stop j)"
        unfolding r(3) by blast
      then have "e = None \<or> e = Some ForciblyStopped \<and> (\<exists>j. k \<le> j \<and> j < k + Suc fuel \<and> stop j)" by (metis Suc_eq_plus1 Suc_leD add_Suc add_Suc_shift)
      then show ?thesis using h(1-3) r(1) False by auto
    qed
  qed
qed simp

end

section \<open>Stopping and counting\<close>

lemma close_closes: "bsw_must_close Z w = Some (w', bufs) \<Longrightarrow> writer_closed w'"
proof -
  have "fst x = WClosed" if "sw_must_close v = Some x" for v x using that by (cases v) auto
  then show "bsw_must_close Z w = Some (w', bufs) \<Longrightarrow> writer_closed w'"
    by (fastforce simp: bsw_must_close_def writer_closed_def split: option.splits prod.splits)
qed

lemma flush_uncounted: "flush_ib_parts Z None m = Some m' \<Longrightarrow> uncounted m' = uncounted m"
  by (auto simp: flush_ib_parts_def flush_prepared_def uncounted_def Let_def split: if_splits option.splits)

lemma add_item_uncounted: "add_item Z None m x = Some m' \<Longrightarrow> uncounted m' = uncounted m"
proof -
  have k: "uncounted (m\<lparr>m_ib := b\<rparr>) = uncounted m" for m b by (simp add: uncounted_def)
  show "add_item Z None m x = Some m' \<Longrightarrow> uncounted m' = uncounted m"
    by (auto simp: add_item_def k dest: flush_uncounted split: prod.splits bool.splits option.splits)
qed

lemma copy_loop_uncounted: "copy_loop Z None limit xs m = Some (m', n, b) \<Longrightarrow> uncounted m' = uncounted m"
proof (induction xs arbitrary: m m' n b)
  case (Cons x xs)
  show ?case
  proof (cases "case limit of Some next_item \<Rightarrow> x > next_item | None \<Rightarrow> False")
    case False
    then obtain m1 n1 where "add_item Z None m x = Some m1" "copy_loop Z None limit xs m1 = Some (m', n1, b)"
      using Cons.prems by (auto split: option.splits)
    then show ?thesis using add_item_uncounted Cons.IH by metis
  qed (use Cons.prems in auto)
qed simp

lemma merge_round_uncounted: "merge_round Z None stop m = Some (m', e) \<Longrightarrow> uncounted m' = uncounted m"
proof -
  have k: "uncounted (m\<lparr>m_bsrs := r\<rparr>) = uncounted m" "uncounted (m\<lparr>m_heap := h\<rparr>) = uncounted m" for m r h
    by (simp_all add: uncounted_def)
  show "merge_round Z None stop m = Some (m', e) \<Longrightarrow> uncounted m' = uncounted m"
    unfolding merge_round_def Let_def
    by (auto simp: k dest: flush_uncounted copy_loop_uncounted split: if_splits option.splits prod.splits bool.splits)
qed

lemma merge_loop_uncounted: "merge_loop Z None stop fuel k m = Some (m', e) \<Longrightarrow> uncounted m' = uncounted m"
proof (induction fuel arbitrary: k m)
  case (Suc fuel)
  then show ?case by (fastforce dest: merge_round_uncounted split: option.splits prod.splits merge_outcome.splits)
qed simp

section \<open>Initialisation\<close>

lemma init_loop_rep:
  assumes "list_all2 (fresh Z) rs bss"
  shows "\<exists>rs' heap. init_loop Z i rs = Some (rs', heap, None) \<and> length rs' = length rs
    \<and> heap = map (\<lambda>j. i + j) (filter (\<lambda>j. bss ! j \<noteq> []) [0..<length rs])
    \<and> (\<forall>j < length rs. bss ! j \<noteq> [] \<longrightarrow> live Z (rs' ! j) (tl (bss ! j))
        \<and> ib_strings (bsr_block (rs' ! j)) = hd (bss ! j) \<and> curr_item_idx (rs' ! j) = 0
        \<and> ib_items (bsr_block (rs' ! j)) \<noteq> [])"
  using assms
proof (induction rs arbitrary: bss i)
  case (Cons r rs)
  then obtain bs bss' where b: "bss = bs # bss'" "fresh Z r bs" "list_all2 (fresh Z) rs bss'"
    by (auto simp: list_all2_Cons1)
  from Cons.IH [OF b(3), of "i + 1"] obtain rs' heap where
    r: "init_loop Z (i + 1) rs = Some (rs', heap, None)" "length rs' = length rs"
      "heap = map (\<lambda>j. i + 1 + j) (filter (\<lambda>j. bss' ! j \<noteq> []) [0..<length rs])"
      "\<forall>j < length rs. bss' ! j \<noteq> [] \<longrightarrow> live Z (rs' ! j) (tl (bss' ! j))
        \<and> ib_strings (bsr_block (rs' ! j)) = hd (bss' ! j) \<and> curr_item_idx (rs' ! j) = 0
        \<and> ib_items (bsr_block (rs' ! j)) \<noteq> []" by blast
  have up: "filter (\<lambda>j. bss ! j \<noteq> []) [0..<length (r # rs)]
      = (if bs \<noteq> [] then [0] else []) @ map Suc (filter (\<lambda>j. bss' ! j \<noteq> []) [0..<length rs])"
  proof -
    have "[0..<length (r # rs)] = 0 # map Suc [0..<length rs]" by (simp add: upt_conv_Cons map_Suc_upt del: upt_Suc)
    then show ?thesis by (simp add: b(1) filter_map comp_def del: upt_Suc)
  qed
  obtain r' where r': "bsr_next Z r = Some (r', bs \<noteq> [])" "bsr_err_msg r' = None"
    "bs \<noteq> [] \<longrightarrow> live Z r' (tl bs) \<and> ib_strings (bsr_block r') = hd bs \<and> curr_item_idx r' = 0
       \<and> ib_items (bsr_block r') \<noteq> []"
    using fresh_next [OF b(2)] by (cases bs) auto
  show ?case
  proof (intro exI conjI)
    show "init_loop Z i (r # rs) = Some (r' # rs', (if bs \<noteq> [] then i # heap else heap), None)"
      using r' r(1) by simp
    show "length (r' # rs') = length (r # rs)" using r(2) by simp
    show "(if bs \<noteq> [] then i # heap else heap) = map (\<lambda>j. i + j) (filter (\<lambda>j. bss ! j \<noteq> []) [0..<length (r # rs)])"
      unfolding up r(3) by (simp add: comp_def)
    show "\<forall>j < length (r # rs). bss ! j \<noteq> [] \<longrightarrow> live Z ((r' # rs') ! j) (tl (bss ! j))
        \<and> ib_strings (bsr_block ((r' # rs') ! j)) = hd (bss ! j) \<and> curr_item_idx ((r' # rs') ! j) = 0
        \<and> ib_items (bsr_block ((r' # rs') ! j)) \<noteq> []"
      using r'(3) r(4) b(1) by (auto simp: nth_Cons split: nat.splits)
  qed
qed simp

lemma sum_readers:
  fixes f :: "bytes list list \<Rightarrow> 'a::comm_monoid_add"
  assumes "f [] = 0"
  shows "(\<Sum>k \<in> set (filter (\<lambda>j. bss ! j \<noteq> []) [0..<length bss]). f (bss ! k)) = sum_list (map f bss)"
proof -
  have "(\<Sum>k \<in> {j. j < length bss \<and> bss ! j \<noteq> []}. f (bss ! k)) = (\<Sum>k \<in> {0..<length bss}. f (bss ! k))"
    by (rule sum.mono_neutral_left) (auto simp: assms)
  moreover have "set (filter (\<lambda>j. bss ! j \<noteq> []) [0..<length bss]) = {j. j < length bss \<and> bss ! j \<noteq> []}" by auto
  ultimately show ?thesis by (simp add: sum_list_sum_nth)
qed

lemma wrep_default: "wrep ok rel Z (merger_default ph_default (bsw_new_inmemory_part level) rs n) []"
  by (simp add: wrep_def merger_default_def bsw_new_rep ib_default_def ib_invar_def ib_strings_def ph_default_def)

lemma merger_init_rep:
  assumes "sources_ok ok Z rs bss" "\<exists>bs \<in> set bss. bs \<noteq> []"
    "m0 = merger_default ph_default (bsw_new_inmemory_part level) rs n"
  shows "\<exists>m rest. merger_init Z m0 = Some (m, None) \<and> minv ok rel Z m rest []
    \<and> all_items m rest [] = mset (concat (map concat bss))
    \<and> work m rest \<le> sum_list (map (\<lambda>bs. length (concat bs) + length bs) bss)"
proof -
  have l2: "list_all2 (fresh Z) rs bss" using assms(1) by (simp add: sources_ok_def)
  then have len: "length rs = length bss" by (rule list_all2_lengthD)
  let ?h = "filter (\<lambda>j. bss ! j \<noteq> []) [0..<length bss]"
  obtain rs' where i: "init_loop Z 0 rs = Some (rs', ?h, None)" "length rs' = length bss"
    "\<forall>j < length bss. bss ! j \<noteq> [] \<longrightarrow> live Z (rs' ! j) (tl (bss ! j))
        \<and> ib_strings (bsr_block (rs' ! j)) = hd (bss ! j) \<and> curr_item_idx (rs' ! j) = 0
        \<and> ib_items (bsr_block (rs' ! j)) \<noteq> []"
    using init_loop_rep [OF l2, of 0] len by auto
  let ?rest = "\<lambda>k. tl (bss ! k)"
  have td: "todo (rs' ! k) (?rest k) = concat (bss ! k)" if "k \<in> set ?h" for k
    using that i(3) by (cases "bss ! k") (auto simp: todo_def)
  have ok: "k < length rs' \<and> reader_ok ok Z (rs' ! k) (?rest k)" if k: "k \<in> set ?h" for k
  proof -
    have "bss ! k \<in> set bss" using k by simp
    then have "sorted (concat (bss ! k))" "\<forall>x \<in> set (concat (bss ! k)). good_item ok x"
      using assms(1) unfolding sources_ok_def by blast+
    then show ?thesis using k i(2,3) td [OF k] by (simp add: reader_ok_def)
  qed
  then have "\<forall>k \<in> set ?h. cur rs' k = Some (key_of rs' k)" by (simp add: reader_ok_def cur_key)
  from heap_init_correct [OF this] obtain h where h: "heap_init (cur rs') ?h = Some h" "mset h = mset ?h"
    "heap_from (key_of rs') h 0" by blast
  have sh: "set h = set ?h" "distinct h"
    using h(2) by (metis set_mset_mset, metis distinct_filter distinct_upt mset_eq_imp_distinct_iff)
  have "h \<noteq> []"
  proof -
    obtain j where "j < length bss" "bss ! j \<noteq> []" using assms(2) by (auto simp: in_set_conv_nth)
    then have "j \<in> set h" using sh(1) by simp
    then show ?thesis by auto
  qed
  define m where "m = m0\<lparr>m_heap := h, m_ib := ib_reset (m_ib m0), ph_first_item_caught := False, m_bsrs := rs'\<rparr>"
  have mi: "merger_init Z m0 = Some (m, None)"
    using i(1) h(1) \<open>h \<noteq> []\<close> by (simp add: merger_init_def m_def Let_def assms(3) merger_default_def)
  have o: "out m [] = []" by (simp add: out_def m_def)
  have w: "wrep ok rel Z m []" using wrep_default [of ok rel Z level rs n] by (simp add: wrep_def m_def assms(3) merger_default_def)
  have "minv ok rel Z m ?rest []"
    unfolding minv_def o using sh h(3) ok w by (simp add: m_def)
  moreover have "all_items m ?rest [] = mset (concat (map concat bss))"
  proof -
    have "(\<Sum>k \<in> set ?h. mset (todo (rs' ! k) (?rest k))) = (\<Sum>k \<in> set ?h. mset (concat (bss ! k)))"
      using td by (intro sum.cong) auto
    also have "\<dots> = sum_list (map (\<lambda>bs. mset (concat bs)) bss)" by (rule sum_readers) simp
    finally have "(\<Sum>k \<in> set h. mset (todo (rs' ! k) (?rest k))) = mset (concat (map concat bss))"
      unfolding sh(1) by (simp add: mset_concat comp_def)
    moreover have "m_heap m = h" "m_bsrs m = rs'" by (simp_all add: m_def)
    ultimately show ?thesis by (simp add: all_items_def o)
  qed
  moreover have "work m ?rest \<le> sum_list (map (\<lambda>bs. length (concat bs) + length bs) bss)"
  proof -
    have "work m ?rest = (\<Sum>k \<in> set ?h. length (concat (bss ! k)) + length (bss ! k))"
      unfolding work_def using td sh(1) by (intro sum.cong) (auto simp: m_def)
    also have "\<dots> = sum_list (map (\<lambda>bs. length (concat bs) + length bs) bss)" by (rule sum_readers) simp
    finally show ?thesis by simp
  qed
  ultimately show ?thesis using mi by blast
qed

lemma bsw_rep_stored: "bsw_rep Z w ss \<Longrightarrow> list_all (stored Z) ss"
  by (auto simp: bsw_rep_def idx_rep_def all_blocks_def groups_stored)

lemma becomes_nonempty: "becomes rel g b \<Longrightarrow> g \<noteq> [] \<and> hd g \<in> set g \<and> last g \<in> set g"
  by (cases g) (auto simp: becomes_def)

lemma becomes_lists:
  assumes "list_all2 (becomes rel) gs bs"
  shows "map hd bs = map hd gs" "length (concat bs) \<le> length (concat gs)" "[] \<notin> set gs" "[] \<notin> set bs"
    "sorted (concat gs) \<Longrightarrow> sorted (concat bs)"
proof -
  show "map hd bs = map hd gs" "length (concat bs) \<le> length (concat gs)" "[] \<notin> set gs" "[] \<notin> set bs"
    using assms by (induction rule: list_all2_induct) (auto simp: becomes_def)
  show "sorted (concat bs)" if "sorted (concat gs)"
    using assms that
  proof (induction rule: list_all2_induct)
    case (Cons g gs b bs)
    have first: "hd (concat bs) \<in> set (concat gs)" if "concat bs \<noteq> []"
      using Cons(2) that becomes_nonempty by (cases bs; cases gs) (auto simp: becomes_def)
    have g: "becomes rel g b" "sorted (concat gs)" "\<forall>x \<in> set g. \<forall>y \<in> set (concat gs). x \<le> y"
      using Cons by (simp_all add: sorted_append)
    have "x \<le> y" if "x \<in> set b" "y \<in> set (concat bs)" for x y
    proof -
      have "b \<noteq> []" "sorted b" "last b \<in> set g" using g(1) becomes_nonempty [OF g(1)] by (auto simp: becomes_def)
      then have "x \<le> last b" using \<open>x \<in> set b\<close> by (cases b rule: rev_cases) (auto simp: sorted_append)
      also have "last b \<le> hd (concat bs)" using g(3) \<open>last b \<in> set g\<close> first that(2) by (metis empty_iff empty_set)
      also have "hd (concat bs) \<le> y" using Cons.IH g(2) that(2) by (cases "concat bs") auto
      finally show ?thesis .
    qed
    then show ?case using g Cons.IH by (auto simp: sorted_append becomes_def)
  qed simp
qed

lemma wrep_written:
  assumes w: "wrep ok rel Z m gs" "ib_items (m_ib m) = []"
    and o: "out m gs \<noteq> []" "length (out m gs) < 2 ^ 40" "sorted (out m gs)"
  obtains ss where "bsw_rep Z (m_bsw m) ss" "list_all2 (becomes rel) gs (map sb_strs ss)" "ph_ok (m_ph m) (map sb_strs ss)"
    "sorted (map hd (map sb_strs ss))" "out m gs = concat gs" "length ss < 2 ^ 40"
proof -
  have out: "out m gs = concat gs" using w(2) by (simp add: out_def ib_strings_def)
  obtain ss where ss: "bsw_rep Z (m_bsw m) ss" "list_all2 (becomes rel) gs (map sb_strs ss)"
    and ph: "ph_blocks_count (m_ph m) = of_nat (length ss)"
      "ph_items_count (m_ph m) = of_nat (length (concat (map sb_strs ss)))"
      "ss \<noteq> [] \<longrightarrow> ph_first_item (m_ph m) = hd (hd (map sb_strs ss)) \<and> ph_last_item (m_ph m) = last (last (map sb_strs ss))"
    using w(1) by (auto simp: wrep_def)
  note k = becomes_lists [OF ss(2)]
  have "length (map sb_strs ss) \<le> length (concat (map sb_strs ss))" using nonempty_count [of "map sb_strs ss"] k(4) by fastforce
  then have l: "length ss < 2 ^ 40" "length (concat (map sb_strs ss)) < 2 ^ 40" using k(2) o(2) unfolding out by auto
  have "ss \<noteq> []" using o(1) ss(2) unfolding out by auto
  moreover have "unat (of_nat (length ss) :: u64) = length ss"
    "unat (of_nat (length (concat (map sb_strs ss))) :: u64) = length (concat (map sb_strs ss))"
    using l by (simp_all add: unat_of_nat)
  ultimately have "ph_ok (m_ph m) (map sb_strs ss)" using ph by (simp add: ph_ok_def length_concat)
  moreover have "sorted (map hd (map sb_strs ss))"
    unfolding k(1) using o(3) k(3) unfolding out by (intro sorted_heads) auto
  ultimately show thesis using that ss out l(1) by blast
qed

context block_callback
begin

lemma merge_correct:
  assumes Z: "zstd_ok Z" "zstd_bounded Z" and src: "sources_ok ok Z rs bss"
    and xs: "xs = concat (map concat bss)" "xs \<noteq> []" "length xs < 2 ^ 40" and run: "\<And>k. \<not> stop k"
    and fuel: "sum_list (map (\<lambda>bs. length (concat bs) + length bs) bss) < fuel"
  shows "\<exists>m bufs r blocks groups. merge_block_streams Z fuel ph_default (bsw_new_inmemory_part level) rs prepare stop n
      = Some (m, Inr bufs)
    \<and> bsr_from_inmemory_part Z (mp_from_buffers (m_ph m) bufs) = Some r
    \<and> read_blocks Z (length blocks + 1) r = Some blocks
    \<and> concat groups = sort xs \<and> list_all2 (becomes rel) groups blocks"
proof -
  have "\<exists>bs \<in> set bss. bs \<noteq> []"
  proof (rule ccontr)
    assume "\<not> ?thesis"
    then have "concat (map concat bss) = []" by (induction bss) auto
    with xs(1,2) show False by simp
  qed
  from merger_init_rep [OF src this refl, where rel = rel and level = level and n = n] obtain m0 rest where
    i: "merger_init Z (merger_default ph_default (bsw_new_inmemory_part level) rs n) = Some (m0, None)" "minv ok rel Z m0 rest []"
      "all_items m0 rest [] = mset xs" "work m0 rest < fuel"
    using fuel unfolding xs(1) by (meson le_less_trans)
  from merge_loop_rep [where stop = stop and k = 0, OF Z run i(2,4)] obtain m gs where
    l: "merge_loop Z prepare stop fuel 0 m0 = Some (m, None)" "wrep ok rel Z m gs" "ib_items (m_ib m) = []"
      "sorted (out m gs)" "mset (out m gs) = mset xs" using i(3) by auto
  have o: "out m gs = sort xs" using l(4,5) by (metis properties_for_sort)
  have lo: "length (out m gs) < 2 ^ 40" "out m gs \<noteq> []"
    using xs(2,3) arg_cong [OF o, of length] by auto
  obtain ss where p: "bsw_rep Z (m_bsw m) ss" "list_all2 (becomes rel) gs (map sb_strs ss)" "ph_ok (m_ph m) (map sb_strs ss)"
    "sorted (map hd (map sb_strs ss))" "out m gs = concat gs" "length ss < 2 ^ 40"
    by (rule wrep_written [OF l(2,3) lo(2,1) l(4)])
  obtain w' bufs igs where c: "bsw_must_close Z (m_bsw m) = Some (w', bufs)" "part_rep Z bufs igs"
    "ss = concat (map g_blocks igs)" using must_close_rep [OF Z p(1,6)] by blast
  obtain r where r: "bsr_from_inmemory_part Z (mp_from_buffers (m_ph m) bufs) = Some r" "bsr_rep Z r (map sb_strs ss)"
    using part_read [OF c(2) refl, of "m_ph m"] p(3,4) unfolding c(3) by blast
  have "merge_block_streams Z fuel ph_default (bsw_new_inmemory_part level) rs prepare stop n = Some (m\<lparr>m_bsw := w'\<rparr>, Inr bufs)"
    using i(1) l(1) c(1) by (simp add: merge_block_streams_def)
  moreover have "read_blocks Z (length (map sb_strs ss) + 1) r = Some (map sb_strs ss)"
    using r(2) by (intro read_blocks_rep) simp_all
  moreover have "concat gs = sort xs" using p(5) o by simp
  ultimately show ?thesis using r(1) p(2)
    by (intro exI [of _ "m\<lparr>m_bsw := w'\<rparr>"] exI [of _ bufs] exI [of _ r] exI [of _ "map sb_strs ss"] exI [of _ gs]) simp
qed

end

text \<open>Without a callback, blocks are written as they are.\<close>

interpretation plain_merge: block_callback None "\<lambda>_. True" "(=)"
  by unfold_locales (auto simp: prepared_def becomes_def block_ok_def ib_strings_def)

text \<open>Both kinds of readers are sources in the sense of the block source contract.\<close>

interpretation live_reader: block_source "bsr_next Z" "\<lambda>r. ib_strings (bsr_block r)" "\<lambda>r. bsr_err_msg r \<noteq> None" "live Z"
proof
  show "\<exists>r'. bsr_next Z r = Some (r', True) \<and> live Z r' bs \<and> ib_strings (bsr_block r') = b"
    if "live Z r (b # bs)" for r b bs using live_next_Cons [OF that] by blast
  show "\<exists>r'. bsr_next Z r = Some (r', False) \<and> \<not> bsr_err_msg r' \<noteq> None" if "live Z r []" for r
    using live_next_Nil [OF that] by simp
qed

lemma fresh_from_part: "bsr_rep Z r bs \<Longrightarrow> fresh Z r bs"
  by (simp add: fresh_def)

lemma fresh_from_block:
  assumes "ib_invar b" "ib_items b \<noteq> []"
  shows "fresh Z (bsr_from_inmemory_block b) [sort (ib_strings b)]"
proof -
  have "ib_copy_from ib_default b = b" by (simp add: ib_copy_from_def ib_default_def)
  then show ?thesis
    using ib_sort_items_correct [OF assms]
    by (simp add: fresh_def bsr_from_inmemory_block_def bsr_new_empty_def ib_ready_def)
qed

section \<open>Properties\<close>

lemma close_written:
  assumes "zstd_ok Z" "zstd_bounded Z" "wrep ok rel Z m gs" "length (out m gs) < 2 ^ 40"
  shows "\<exists>w bufs. bsw_must_close Z (m_bsw m) = Some (w, bufs)"
proof -
  obtain ss where ss: "bsw_rep Z (m_bsw m) ss" "list_all2 (becomes rel) gs (map sb_strs ss)" using assms(3) by (auto simp: wrep_def)
  note k = becomes_lists [OF ss(2)]
  have "length (map sb_strs ss) \<le> length (concat (map sb_strs ss))" using nonempty_count [of "map sb_strs ss"] k(4) by fastforce
  then have "length ss < 2 ^ 40" using k(2) assms(4) by (simp add: out_def)
  from must_close_rep [OF assms(1,2) ss(1) this] show ?thesis by blast
qed

text \<open>
  C2: Merging any number of readers over sorted streams of non-empty items that fit a block ends,
  and the part it writes is read back as the sorted sequence of all the items of all readers, none
  lost and none added; the part header it fills passes all the checks of the reader.\<close>

theorem merge_block_streams_correct:
  assumes "zstd_ok Z" "zstd_bounded Z" "sources_ok (\<lambda>_. True) Z rs bss"
    "concat (map concat bss) \<noteq> []" "length (concat (map concat bss)) < 2 ^ 40" "\<And>k. \<not> stop k"
    "sum_list (map (\<lambda>bs. length (concat bs) + length bs) bss) < fuel"
  shows "\<exists>m bufs r blocks. merge_block_streams Z fuel ph_default (bsw_new_inmemory_part level) rs None stop n
      = Some (m, Inr bufs)
    \<and> bsr_from_inmemory_part Z (mp_from_buffers (m_ph m) bufs) = Some r
    \<and> read_blocks Z (length blocks + 1) r = Some blocks
    \<and> concat blocks = sort (concat (map concat bss))"
proof -
  obtain m bufs r blocks groups where "merge_block_streams Z fuel ph_default (bsw_new_inmemory_part level) rs None stop n
      = Some (m, Inr bufs)" "bsr_from_inmemory_part Z (mp_from_buffers (m_ph m) bufs) = Some r"
    "read_blocks Z (length blocks + 1) r = Some blocks" "concat groups = sort (concat (map concat bss))"
    "list_all2 (becomes (=)) groups blocks"
    using plain_merge.merge_correct [where stop = stop, OF assms(1-3) refl assms(4-7)] by blast
  moreover from this(5) have "groups = blocks" by (induction rule: list_all2_induct) (simp_all add: becomes_def)
  ultimately show ?thesis by blast
qed

lemma two_blocks_ok:
  "sources_ok (\<lambda>_. True) stored_zstd [bsr_from_inmemory_block (fst (ib_add ib_default [9])),
      bsr_from_inmemory_block (fst (ib_add ib_default [4]))] [[[[9]]], [[[4]]]]"
proof -
  have s: "ib_strings (fst (ib_add ib_default [x])) = [[x]]" "ib_invar (fst (ib_add ib_default [x]))"
    "ib_items (fst (ib_add ib_default [x])) \<noteq> []" for x
    by (simp_all add: ib_add_def ib_default_def MAX_INMEMORY_BLOCK_SIZE_def ib_strings_def item_bytes_def
        subslice_def ib_invar_def item_ok_def)
  show ?thesis
    using fresh_from_block [OF s(2,3), of stored_zstd 9] fresh_from_block [OF s(2,3), of stored_zstd 4]
    by (simp add: sources_ok_def good_item_def MAX_INMEMORY_BLOCK_SIZE_def s(1))
qed

theorem merge_block_streams_correct_witness:
  "\<exists>m bufs r blocks. merge_block_streams stored_zstd 9 ph_default (bsw_new_inmemory_part 1)
      [bsr_from_inmemory_block (fst (ib_add ib_default [9])), bsr_from_inmemory_block (fst (ib_add ib_default [4]))]
      None (\<lambda>_. False) 0 = Some (m, Inr bufs)
    \<and> bsr_from_inmemory_part stored_zstd (mp_from_buffers (m_ph m) bufs) = Some r
    \<and> read_blocks stored_zstd (length blocks + 1) r = Some blocks \<and> concat blocks = [[4], [9]]"
proof -
  have x: "concat (map concat [[[[9]]], [[[4]]]]) = [[9], [4 :: u8]]" "sort [[9], [4]] = [[4], [9 :: u8]]" by simp_all
  have f: "sum_list (map (\<lambda>bs. length (concat bs) + length bs) [[[[9]]], [[[4 :: u8]]]]) < 9" by simp
  have l: "[[9], [4 :: u8]] \<noteq> []" "length [[9], [4 :: u8]] < 2 ^ 40" by simp_all
  from merge_block_streams_correct [OF stored_zstd_ok stored_zstd_bounded two_blocks_ok, unfolded x,
      OF l _ f, of "\<lambda>_. False" 1 0] show ?thesis by blast
qed

text \<open>
  C38: whatever the stop signal answers, a merge ends and leaves all four streams of the writer closed. It
  either fails as \<open>ForciblyStopped\<close>, which it does only if the signal was set in one of its rounds, or it
  succeeds; set before the first round, the signal is obeyed before anything is merged. In each case the
  counter of merged items has grown by the number of items in the header of the part.\<close>

theorem merge_forcibly_stopped:
  assumes "zstd_ok Z" "zstd_bounded Z" "sources_ok (\<lambda>_. True) Z rs bss" "\<exists>bs \<in> set bss. bs \<noteq> []"
    "length (concat (map concat bss)) < 2 ^ 40" "sum_list (map (\<lambda>bs. length (concat bs) + length bs) bss) < fuel"
  shows "\<exists>m res. merge_block_streams Z fuel ph_default (bsw_new_inmemory_part level) rs None stop n = Some (m, res)
    \<and> writer_closed (m_bsw m) \<and> m_items_merged m = n + ph_items_count (m_ph m)
    \<and> (case res of Inl e \<Rightarrow> e = ForciblyStopped \<and> (\<exists>k < fuel. stop k) | Inr bufs \<Rightarrow> \<not> stop 0)
    \<and> (stop 0 \<longrightarrow> ph_items_count (m_ph m) = 0)"
proof -
  obtain m0 rest where i: "merger_init Z (merger_default ph_default (bsw_new_inmemory_part level) rs n) = Some (m0, None)"
    "minv (\<lambda>_. True) (=) Z m0 rest []" "all_items m0 rest [] = mset (concat (map concat bss))"
    "work m0 rest \<le> sum_list (map (\<lambda>bs. length (concat bs) + length bs) bss)"
    using merger_init_rep [OF assms(3,4) refl] by blast
  have f: "m_heap m0 \<noteq> []" "m_items_merged m0 = n" "ph_items_count (m_ph m0) = 0"
    using i(1) by (auto simp: merger_init_def merger_default_def Let_def ph_default_def split: option.splits prod.splits if_splits)
  have "work m0 rest < fuel" using i(4) assms(6) by (rule le_less_trans)
  from plain_merge.merge_loop_any_stop [OF assms(1,2) i(2) this, of stop 0] obtain m e gs where
    l: "merge_loop Z None stop fuel 0 m0 = Some (m, e)" "wrep (\<lambda>_. True) (=) Z m gs" "mset (out m gs) \<subseteq># mset (concat (map concat bss))"
      "e = None \<or> e = Some ForciblyStopped \<and> (\<exists>k < fuel. stop k)" unfolding i(3) by auto
  obtain w bufs where c: "bsw_must_close Z (m_bsw m) = Some (w, bufs)"
    using close_written [OF assms(1,2) l(2)] size_mset_mono [OF l(3)] assms(5) by auto
  have "uncounted m = n" using merge_loop_uncounted [OF l(1)] f by (simp add: uncounted_def)
  then have n: "m_items_merged m = n + ph_items_count (m_ph m)" by (simp add: uncounted_def algebra_simps)
  have z: "m = m0 \<and> e = Some ForciblyStopped" if "stop 0"
    using l(1) f(1) that assms(6) by (cases fuel) (simp_all add: merge_round_def)
  have "merge_block_streams Z fuel ph_default (bsw_new_inmemory_part level) rs None stop n
      = Some (m\<lparr>m_bsw := w\<rparr>, case e of Some e \<Rightarrow> Inl e | None \<Rightarrow> Inr bufs)"
    using i(1) l(1) c by (simp add: merge_block_streams_def)
  then show ?thesis using close_closes [OF c] n l(4) z f(3)
    by (intro exI [of _ "m\<lparr>m_bsw := w\<rparr>"] exI [of _ "case e of Some e \<Rightarrow> Inl e | None \<Rightarrow> Inr bufs"]) auto
qed

theorem merge_forcibly_stopped_witness:
  "\<exists>m res. merge_block_streams stored_zstd 9 ph_default (bsw_new_inmemory_part 1)
      [bsr_from_inmemory_block (fst (ib_add ib_default [9])), bsr_from_inmemory_block (fst (ib_add ib_default [4]))]
      None (\<lambda>k. k = 1) 5 = Some (m, res) \<and> writer_closed (m_bsw m) \<and> m_items_merged m = 5 + ph_items_count (m_ph m)"
proof -
  have "\<exists>bs \<in> set [[[[9]]], [[[4 :: u8]]]]. bs \<noteq> []" "length (concat (map concat [[[[9]]], [[[4 :: u8]]]])) < 2 ^ 40"
    "sum_list (map (\<lambda>bs. length (concat bs) + length bs) [[[[9]]], [[[4 :: u8]]]]) < 9" by simp_all
  from merge_forcibly_stopped [OF stored_zstd_ok stored_zstd_bounded two_blocks_ok this, of 1 "\<lambda>k. k = 1" 5] show ?thesis by blast
qed

text \<open>
  C28: ordering a heap of readers, restoring it after its top changed, and removing the top keep the readers
  and make every reader in the heap have a current item that is not above those of its children; so the
  one with the smallest current item of all is at the top.\<close>

theorem heap_operations_correct:
  assumes "heap_from key (t # h) 0" "distinct (t # h)" "\<And>k. k \<in> set h \<Longrightarrow> key' k = key k"
    "\<And>k. k \<in> set (t # h) \<Longrightarrow> c k = Some (key' k)" "\<And>k. k \<in> set g \<Longrightarrow> c k = Some (key' k)"
  shows "\<exists>h1 h2 h3. sift_down c (t # h) 0 = Some h1 \<and> mset h1 = mset (t # h) \<and> heap_from key' h1 0
      \<and> (\<forall>k \<in> set h1. key' (h1 ! 0) \<le> key' k)
    \<and> heap_pop_top c (t # h) = Some h2 \<and> mset h2 = mset h \<and> heap_from key' h2 0 \<and> (\<forall>k \<in> set h2. key' (h2 ! 0) \<le> key' k)
    \<and> heap_init c g = Some h3 \<and> mset h3 = mset g \<and> heap_from key' h3 0 \<and> (\<forall>k \<in> set h3. key' (h3 ! 0) \<le> key' k)"
proof -
  obtain h1 where h1: "sift_down c (t # h) 0 = Some h1" "mset h1 = mset (t # h)" "heap_from key' h1 0"
    using heap_fix_top [OF assms(1), of key' c] assms(2-4) by auto
  have "\<forall>k \<in> set (tl (t # h)). c k = Some (key k)" using assms(3,4) by auto
  from heap_pop_correct [OF assms(1) this] obtain h2 where
    h2: "heap_pop_top c (t # h) = Some h2" "mset h2 = mset h" "heap_from key h2 0" by auto
  have "set h2 = set h" using h2(2) by (metis set_mset_mset)
  then have h2': "heap_from key' h2 0" using assms(3) by (intro heap_from_cong [OF h2(3)]) simp
  obtain h3 where h3: "heap_init c g = Some h3" "mset h3 = mset g" "heap_from key' h3 0"
    using heap_init_correct [of g c key'] assms(5) by blast
  have "\<forall>k \<in> set q. key' (q ! 0) \<le> key' k" if q: "heap_from key' q 0" for q
    using heap_top_min [OF q] by (auto simp: in_set_conv_nth)
  with h1 h2 h2' h3 show ?thesis by blast
qed

theorem heap_operations_correct_witness:
  "\<exists>h1. sift_down (\<lambda>k. Some ([[9], [5], [7 :: u8]] ! k)) [0, 1, 2] 0 = Some h1 \<and> h1 ! 0 \<in> {0, 1, 2}
    \<and> heap_from (\<lambda>k. [[9], [5], [7 :: u8]] ! k) h1 0
    \<and> (\<forall>k \<in> {0, 1, 2 :: nat}. [[9], [5], [7 :: u8]] ! (h1 ! 0) \<le> [[9], [5], [7]] ! k)"
proof -
  let ?key = "\<lambda>k. [[4], [5], [7 :: u8]] ! k" and ?key' = "\<lambda>k. [[9], [5], [7 :: u8]] ! k"
  have hf: "heap_from ?key (0 # [1, 2]) 0" unfolding heap_from_def
  proof (intro allI impI)
    fix j d assume a: "0 \<le> j \<and> (d = 2 * j + 1 \<or> d = 2 * j + 2) \<and> d < length [0, 1, 2 :: nat]"
    then have "j = 0" "d = 1 \<or> d = 2" by auto
    then show "?key ([0, 1, 2] ! j) \<le> ?key ([0, 1, 2] ! d)" by auto
  qed
  have k: "?key' k = ?key k" if "k \<in> set [1, 2]" for k using that by auto
  obtain h1 where h1: "sift_down (\<lambda>k. Some (?key' k)) (0 # [1, 2]) 0 = Some h1" "mset h1 = mset (0 # [1, 2])" "heap_from ?key' h1 0"
    "\<forall>k \<in> set h1. ?key' (h1 ! 0) \<le> ?key' k"
    using heap_operations_correct [OF hf _ k, of "\<lambda>k. Some (?key' k)" "[]"] by auto
  have "set h1 = {0, 1, 2}" using arg_cong [OF h1(2), of set_mset] by simp
  moreover have "h1 \<noteq> []" using h1(2) by auto
  then have "h1 ! 0 \<in> set h1" by (intro nth_mem) simp
  ultimately show ?thesis using h1(1,3,4) by (intro exI [of _ h1]) simp
qed

lemma flush_empties: "flush_ib_parts Z prepare m = Some m' \<Longrightarrow> ib_items (m_ib m') = []"
  by (auto simp: flush_ib_parts_def flush_prepared_def Let_def ib_reset_def split: if_splits option.splits)

lemma flush_empty: "ib_items (m_ib m) = [] \<Longrightarrow> flush_ib_parts Z prepare m = Some m"
  by (simp add: flush_ib_parts_def)

lemma add_rounds_again: "add_round Z prepare x m = Some (Inl m) \<Longrightarrow> add_rounds Z prepare x n m = Some (Inl m)"
  by (induction n) simp_all

lemma add_refused_again:
  assumes "snd (ib_add (m_ib m) x) = False" "ib_items (m_ib m) = []"
  shows "add_rounds Z prepare x n m = Some (Inl m)"
  using assms by (intro add_rounds_again) (auto simp: add_round_def flush_empty split: prod.splits)

lemma add_item_rounds:
  "add_item Z prepare m x = Some m' \<longleftrightarrow> (\<exists>n. add_rounds Z prepare x n m = Some (Inr m'))"
proof (cases "snd (ib_add (m_ib m) x)")
  case True
  then have r: "add_item Z prepare m x = Some (m\<lparr>m_ib := fst (ib_add (m_ib m) x)\<rparr>)"
    "add_round Z prepare x m = Some (Inr (m\<lparr>m_ib := fst (ib_add (m_ib m) x)\<rparr>))"
    by (auto simp: add_item_def add_round_def split: prod.splits)
  then have "add_rounds Z prepare x n m = (if n = 0 then Some (Inl m) else Some (Inr (m\<lparr>m_ib := fst (ib_add (m_ib m) x)\<rparr>)))" for n
    by (cases n) simp_all
  then show ?thesis using r(1) by auto
next
  case full: False
  show ?thesis
  proof (cases "flush_ib_parts Z prepare m")
    case None
    then have "add_item Z prepare m x = None" "add_round Z prepare x m = None"
      using full by (auto simp: add_item_def add_round_def split: prod.splits)
    then have "add_rounds Z prepare x n m \<noteq> Some (Inr m')" for n by (cases n) simp_all
    then show ?thesis using \<open>add_item Z prepare m x = None\<close> by simp
  next
    case (Some m1)
    have e: "ib_items (m_ib m1) = []" by (rule flush_empties [OF Some])
    have i: "add_item Z prepare m x = (if snd (ib_add (m_ib m1) x) then Some (m1\<lparr>m_ib := fst (ib_add (m_ib m1) x)\<rparr>) else None)"
      using full Some by (auto simp: add_item_def split: prod.splits)
    have n: "add_rounds Z prepare x (Suc n) m = add_rounds Z prepare x n m1" for n
      using full Some by (auto simp: add_round_def split: prod.splits)
    have ex: "(\<exists>n. add_rounds Z prepare x n m = Some (Inr m')) \<longleftrightarrow> (\<exists>n. add_rounds Z prepare x n m1 = Some (Inr m'))"
    proof
      assume "\<exists>n. add_rounds Z prepare x n m = Some (Inr m')"
      then obtain k where "add_rounds Z prepare x k m = Some (Inr m')" by blast
      then show "\<exists>n. add_rounds Z prepare x n m1 = Some (Inr m')" using n by (cases k) auto
    next
      assume "\<exists>n. add_rounds Z prepare x n m1 = Some (Inr m')"
      then obtain k where "add_rounds Z prepare x k m1 = Some (Inr m')" by blast
      then show "\<exists>n. add_rounds Z prepare x n m = Some (Inr m')" using n by (intro exI [of _ "Suc k"]) simp
    qed
    show ?thesis
    proof (cases "snd (ib_add (m_ib m1) x)")
      case True
      then have "add_round Z prepare x m1 = Some (Inr (m1\<lparr>m_ib := fst (ib_add (m_ib m1) x)\<rparr>))"
        by (auto simp: add_round_def split: prod.splits)
      then have "add_rounds Z prepare x k m1 = (if k = 0 then Some (Inl m1) else Some (Inr (m1\<lparr>m_ib := fst (ib_add (m_ib m1) x)\<rparr>)))" for k
        by (cases k) simp_all
      then show ?thesis unfolding ex using i True by auto
    next
      case False
      then show ?thesis unfolding ex using add_refused_again [of m1 x Z prepare] e i by simp
    qed
  qed
qed

text \<open>
  C40: an item longer than a block is never merged, and the merge does not end: once the scratch block is
  flushed, every further round of the loop that adds the item flushes nothing and leaves the same state,
  so that the loop is still running after any number of rounds; and a merge whose top reader stands on
  such an item returns nothing, whatever the number of rounds it is given. For other items the loop ends
  as \<open>add_item\<close> says.\<close>

theorem oversized_item_never_merged:
  assumes "key_of (m_bsrs m) t = x" "length x > MAX_INMEMORY_BLOCK_SIZE" "flush_ib_parts Z prepare m = Some m1" "\<not> stop k"
    "m_heap m = t # h" "heap_from (key_of (m_bsrs m)) (t # h) 0"
    "\<forall>j \<in> set (t # h). j < length (m_bsrs m) \<and> curr_item_idx (m_bsrs m ! j) < length (ib_items (bsr_block (m_bsrs m ! j)))"
  shows "add_rounds Z prepare x (Suc n) m = Some (Inl m1) \<and> merge_loop Z prepare stop fuel k m = None
    \<and> (\<forall>y m2. add_item Z prepare m y = Some m2 \<longleftrightarrow> (\<exists>n. add_rounds Z prepare y n m = Some (Inr m2)))"
proof -
  let ?r = "m_bsrs m ! t" and ?c = "cur (m_bsrs m)" and ?key = "key_of (m_bsrs m)"
  let ?xs = "drop (curr_item_idx ?r) (ib_strings (bsr_block ?r))"
  have big: "snd (ib_add b x) = False" for b using ib_add_refuses [of x b] assms(2) by simp
  have again: "add_rounds Z prepare x n m1 = Some (Inl m1)" for n
    using big flush_empties [OF assms(3)] by (intro add_refused_again) simp_all
  have rounds: "add_rounds Z prepare x (Suc n) m = Some (Inl m1)" for n
    using big [of "m_ib m"] assms(3) again by (auto simp: add_round_def split: prod.splits)
  have "add_rounds Z prepare x n m \<noteq> Some (Inr m2)" for n m2 using rounds by (cases n) (auto simp del: add_rounds.simps(2))
  then have none: "add_item Z prepare m x = None" using add_item_rounds [of Z prepare m x] by (cases "add_item Z prepare m x") auto
  have ck: "\<forall>j \<in> set (t # h). ?c j = Some (?key j)"
    using assms(7) by (auto simp: cur_def curr_item_def key_of_def ib_strings_def)
  obtain nr where nr: "next_reader ?c (t # h) = Some nr" "case nr of None \<Rightarrow> h = [] | Some j \<Rightarrow> j \<in> set h \<and> (\<forall>j' \<in> set h. ?key j \<le> ?key j')"
    using next_reader_correct [OF assms(6) ck, unfolded list.sel] by blast
  have ni: "(case nr of None \<Rightarrow> Some None | Some j \<Rightarrow> map_option Some (?c j)) = Some (map_option ?key nr)"
    using nr(2) ck by (cases nr) simp_all
  have "x \<le> ?key j" if j: "j \<in> set h" for j
  proof -
    obtain i where "i < length (t # h)" "(t # h) ! i = j" using j in_set_conv_nth [of j "t # h"] by auto
    then show ?thesis using heap_top_min [OF assms(6), of i] assms(1) by simp
  qed
  then have lim: "\<not> (case copy_limit ?r (map_option ?key nr) of Some y \<Rightarrow> x > y | None \<Rightarrow> False)"
    using nr(2) assms(7) by (cases nr) (auto simp: copy_limit_def Let_def not_less)
  have "curr_item_idx ?r < length (ib_strings (bsr_block ?r))" using assms(7) by (simp add: ib_strings_def)
  then have "?xs = x # drop (Suc (curr_item_idx ?r)) (ib_strings (bsr_block ?r))"
    using assms(1) by (metis Cons_nth_drop_Suc key_of_def)
  then have "copy_loop Z prepare (copy_limit ?r (map_option ?key nr)) ?xs m = None" using lim none by simp
  then have "merge_round Z prepare False m = None"
    unfolding merge_round_def Let_def assms(5) using nr(1) ni by simp
  then have "merge_loop Z prepare stop fuel k m = None" using assms(4) by (cases fuel) simp_all
  then show ?thesis using rounds add_item_rounds by blast
qed

theorem oversized_item_never_merged_witness:
  "\<exists>blk. ib_unmarshal_data stored_zstd \<lparr>items_data = [], lens_data = []\<rparr> (replicate (64 * 1024 + 1) 0) [] 1 Plain = Inr blk
    \<and> merge_loop stored_zstd None (\<lambda>_. False) 1000 0
          ((merger_default ph_default (bsw_new_inmemory_part 1) [bsr_new_empty\<lparr>bsr_block := blk\<rparr>] 0)\<lparr>m_heap := [0]\<rparr>) = None"
proof -
  define x where "x = (replicate (64 * 1024 + 1) 0 :: bytes)"
  have len: "length x = 64 * 1024 + 1" unfolding x_def by (rule length_replicate)
  define blk where "blk = \<lparr>common_prefix = [], ib_data = x, ib_items = [\<lparr>it_start = 0, it_end = of_nat (length x)\<rparr>]\<rparr>"
  define m where "m = (merger_default ph_default (bsw_new_inmemory_part 1) [bsr_new_empty\<lparr>bsr_block := blk\<rparr>] 0)\<lparr>m_heap := [0]\<rparr>"
  have u: "ib_unmarshal_data stored_zstd \<lparr>items_data = [], lens_data = []\<rparr> x [] 1 Plain = Inr blk"
    by (simp add: ib_unmarshal_data_def unmarshal_data_plain_def ib_is_sorted_def ib_strings_def Let_def blk_def)
  have s: "ib_strings blk = [x]" by (simp add: blk_def ib_strings_def item_bytes_def subslice_def len)
  have k: "key_of (m_bsrs m) 0 = x" by (simp add: key_of_def m_def merger_default_def bsr_new_empty_def s)
  have f: "flush_ib_parts stored_zstd None m = Some m" by (rule flush_empty) (simp add: m_def merger_default_def ib_default_def)
  have h: "m_heap m = 0 # []" "heap_from (key_of (m_bsrs m)) (0 # []) 0"
    "\<forall>j \<in> set (0 # []). j < length (m_bsrs m) \<and> curr_item_idx (m_bsrs m ! j) < length (ib_items (bsr_block (m_bsrs m ! j)))"
    by (simp_all add: m_def merger_default_def bsr_new_empty_def blk_def heap_from_def)
  have "length x > MAX_INMEMORY_BLOCK_SIZE" by (simp add: len MAX_INMEMORY_BLOCK_SIZE_def)
  from oversized_item_never_merged [OF k this f _ h, of "\<lambda>_. False" 0 0 1000] u
  show ?thesis unfolding m_def x_def by blast
qed

end
