(* ===== verification/Table_Search_Correct.thy ===== *)
theory Table_Search_Correct
  imports Table_Search Part_Search_Correct Mergeset_Merge_Correct
begin

text \<open>
  The cursor over all parts of a table returns the items of the parts in one sorted sequence.

  It relies on the cursors of the parts only through \<open>ps_at\<close>, and is itself an interpretation of
  \<open>cursor\<close>, the interface it uses of them.
\<close>

section \<open>Descriptions\<close>

definition pool_ok :: "zstd_lib \<Rightarrow> igroup list list \<Rightarrow> part_search list \<Rightarrow> bool" where
  "pool_ok Z gss pool \<longleftrightarrow> list_all2 (\<lambda>ps gs. \<exists>xs. ps_at Z gs ps xs) pool gss"

definition pool_key :: "part_search list \<Rightarrow> nat \<Rightarrow> bytes" where "pool_key pool k = ps_item (pool ! k)"

text \<open>The cursors in the heap stand on an item and have the items \<open>rest\<close> to come.\<close>

definition pool_at :: "zstd_lib \<Rightarrow> igroup list list \<Rightarrow> part_search list \<Rightarrow> nat list \<Rightarrow> (nat \<Rightarrow> bytes list) \<Rightarrow> bool" where
  "pool_at Z gss pool h rest \<longleftrightarrow> distinct h \<and> h \<noteq> [] \<and> heap_from (pool_key pool) h 0
     \<and> (\<forall>k \<in> set h. k < length pool \<and> ps_at Z (gss ! k) (pool ! k) (rest k) \<and> sorted (pool_key pool k # rest k))"

definition pool_items :: "part_search list \<Rightarrow> nat list \<Rightarrow> (nat \<Rightarrow> bytes list) \<Rightarrow> bytes multiset" where
  "pool_items pool h rest = (\<Sum>k \<in># mset h. mset (pool_key pool k # rest k))"

definition ts_at :: "zstd_lib \<Rightarrow> igroup list list \<Rightarrow> table_search \<Rightarrow> bytes list \<Rightarrow> bool" where
  "ts_at Z gss ts xs \<longleftrightarrow> pool_ok Z gss (ts_pool ts) \<and>
    (ts_err ts = Some TsEof \<and> xs = [] \<or>
     ts_err ts = None \<and> sorted xs \<and> (\<exists>rest. pool_at Z gss (ts_pool ts) (ts_heap ts) rest
       \<and> pool_items (ts_pool ts) (ts_heap ts) rest =
           mset (if ts_next_item_noop ts then xs else pool_key (ts_pool ts) (hd (ts_heap ts)) # xs)))"

definition ts_found :: "igroup list list \<Rightarrow> bytes \<Rightarrow> bytes list \<Rightarrow> bool" where
  "ts_found gss k ys \<longleftrightarrow> sorted ys \<and>
    (\<exists>yss. list_all2 (\<lambda>gs zs. found k (strs_of (blocks_of gs)) zs) gss yss \<and> mset ys = mset (concat yss))"

definition ts_items_from :: "zstd_lib \<Rightarrow> nat \<Rightarrow> table_search \<Rightarrow> bytes list option" where
  "ts_items_from Z = drain (ts_next_item Z) (\<lambda>ts. the (ts_item ts)) (\<lambda>ts. ts_error ts \<noteq> None)"

text \<open>
  A part made of the blocks \<open>bs\<close> by the writer and opened, in which no block but the last consists of several
  equal items.
\<close>

definition table_part :: "zstd_lib \<Rightarrow> inmemory_block list \<Rightarrow> part \<Rightarrow> bool" where
  "table_part Z bs p \<longleftrightarrow> list_all block_ok bs \<and> length bs < 2 ^ 40 \<and> sorted (concat (map ib_strings bs))
     \<and> list_all varied (butlast (map ib_strings bs))
     \<and> (\<exists>level pid ph w w' bufs. ph_ok ph (map ib_strings bs) \<and> write_blocks Z (bsw_new_inmemory_part level) bs = Some w
          \<and> bsw_must_close Z w = Some (w', bufs) \<and> mp_new_part Z pid (mp_from_buffers ph bufs) = Some p)"

text \<open>The items of a table.\<close>

definition table_items :: "inmemory_block list list \<Rightarrow> bytes list" where
  "table_items bss = concat (map (\<lambda>bs. concat (map ib_strings bs)) bss)"

text \<open>A cursor over a table with the given parts, wherever it stands, and one with the given rows ahead.\<close>

definition cursor_over :: "zstd_lib \<Rightarrow> inmemory_block list list \<Rightarrow> table_search \<Rightarrow> bool" where
  "cursor_over Z bss ts \<longleftrightarrow> (\<exists>gss. pool_ok Z gss (ts_pool ts) \<and> ts_error ts = None
     \<and> map (strs_of \<circ> blocks_of) gss = map (\<lambda>bs. concat (map ib_strings bs)) bss)"

definition cursor_ahead :: "zstd_lib \<Rightarrow> inmemory_block list list \<Rightarrow> table_search \<Rightarrow> bytes list \<Rightarrow> bool" where
  "cursor_ahead Z bss ts xs \<longleftrightarrow> (\<exists>gss. ts_at Z gss ts xs
     \<and> map (strs_of \<circ> blocks_of) gss = map (\<lambda>bs. concat (map ib_strings bs)) bss)"

section \<open>The heap\<close>

lemma pool_ok_nth: "pool_ok Z gss pool \<Longrightarrow> k < length pool \<Longrightarrow> \<exists>xs. ps_at Z (gss ! k) (pool ! k) xs"
  by (simp add: pool_ok_def list_all2_conv_all_nth)

lemma pool_ok_update:
  assumes "pool_ok Z gss pool" "ps_at Z (gss ! k) ps xs"
  shows "pool_ok Z gss (pool[k := ps])"
  unfolding pool_ok_def list_all2_conv_all_nth
proof (intro conjI allI impI)
  show "length (pool[k := ps]) = length gss" using assms(1) by (simp add: pool_ok_def list_all2_lengthD)
  fix i assume "i < length (pool[k := ps])"
  then show "\<exists>xs. ps_at Z (gss ! i) (pool[k := ps] ! i) xs" using pool_ok_nth [OF assms(1)] assms(2) by (cases "i = k") auto
qed

lemma pool_at_cur: "pool_at Z gss pool h rest \<Longrightarrow> \<forall>k \<in> set h. ts_cur pool k = Some (pool_key pool k)"
  by (simp add: pool_at_def ts_cur_def pool_key_def)

text \<open>The item of the top is the least item of all.\<close>

lemma pool_top_least:
  assumes "pool_at Z gss pool h rest" "x \<in># pool_items pool h rest"
  shows "pool_key pool (hd h) \<le> x"
proof -
  have p: "h \<noteq> []" "heap_from (pool_key pool) h 0" using assms(1) by (simp_all add: pool_at_def)
  obtain k where k: "k \<in> set h" "x = pool_key pool k \<or> x \<in> set (rest k)" using assms(2) by (auto simp: pool_items_def)
  obtain j where j: "j < length h" "k = h ! j" using k(1) by (auto simp: in_set_conv_nth)
  have "pool_key pool (hd h) \<le> pool_key pool k" using heap_top_min [OF p(2) j(1)] j(2) p(1) by (simp add: hd_conv_nth)
  moreover have "pool_key pool k \<le> x" using assms(1) k by (auto simp: pool_at_def)
  ultimately show ?thesis by (rule order_trans)
qed

lemma pool_top_in: "h \<noteq> [] \<Longrightarrow> pool_key pool (hd h) \<in># pool_items pool h rest"
  by (cases h) (simp_all add: pool_items_def)

lemma pool_top_first:
  assumes "pool_at Z gss pool h rest" "pool_items pool h rest = mset xs" "sorted xs"
  shows "\<exists>ys. xs = pool_key pool (hd h) # ys"
proof -
  have ne: "h \<noteq> []" using assms(1) by (simp add: pool_at_def)
  have i: "pool_key pool (hd h) \<in> set xs" using pool_top_in [OF ne, of pool rest] assms(2) by simp
  then obtain y ys where y: "xs = y # ys" by (cases xs) auto
  have "y \<in># pool_items pool h rest" using assms(2) y by simp
  then have "pool_key pool (hd h) \<le> y" by (rule pool_top_least [OF assms(1)])
  moreover have "y \<le> pool_key pool (hd h)" using assms(3) i y by auto
  ultimately show ?thesis using y by auto
qed

lemma pool_items_mset: "mset h = mset h' \<Longrightarrow> pool_items pool h rest = pool_items pool h' rest"
  by (simp add: pool_items_def)

lemma pool_items_cong:
  assumes "\<And>k. k \<in> set h \<Longrightarrow> pool_key pool' k = pool_key pool k" "\<And>k. k \<in> set h \<Longrightarrow> rest' k = rest k"
  shows "pool_items pool' h rest' = pool_items pool h rest"
  unfolding pool_items_def using assms by (intro arg_cong [of _ _ sum_mset] image_mset_cong) simp

lemma pool_items_Cons: "pool_items pool (k # h) rest = add_mset (pool_key pool k) (mset (rest k)) + pool_items pool h rest"
  by (simp add: pool_items_def)

lemma pool_key_update: "pool_key (pool[t := ps]) k = (if k = t \<and> t < length pool then ps_item ps else pool_key pool k)"
  by (cases "k = t") (auto simp: pool_key_def list_update_beyond)

lemma pool_advance:
  assumes "pool_at Z gss pool (t # h) rest" "rest t = y # ys" "ps_at Z (gss ! t) ps ys" "ps_item ps = y"
  shows "\<exists>h'. ts_sift_down (pool[t := ps]) (t # h) 0 = Some h' \<and> pool_at Z gss (pool[t := ps]) h' (rest(t := ys))
    \<and> add_mset (pool_key pool t) (pool_items (pool[t := ps]) h' (rest(t := ys))) = pool_items pool (t # h) rest"
proof -
  let ?pool = "pool[t := ps]" and ?rest = "rest(t := ys)"
  note p = assms(1) [unfolded pool_at_def]
  have t: "t < length pool" "t \<notin> set h" using p by auto
  have key: "pool_key ?pool t = y" "\<forall>k \<in> set h. pool_key ?pool k = pool_key pool k" using t assms(4) by (auto simp: pool_key_update)
  have at: "\<forall>k \<in> set (t # h). k < length ?pool \<and> ps_at Z (gss ! k) (?pool ! k) (?rest k) \<and> sorted (pool_key ?pool k # ?rest k)"
    using p assms(2,3) key t by (auto simp: nth_list_update)
  have "\<forall>k \<in> set (t # h). ts_cur ?pool k = Some (pool_key ?pool k)" using at by (simp add: ts_cur_def pool_key_def)
  then obtain h' where h': "sift_down (ts_cur ?pool) (t # h) 0 = Some h'" "mset h' = mset (t # h)" "heap_from (pool_key ?pool) h' 0"
    using heap_fix_top [of "pool_key pool" "t # h" "pool_key ?pool" "ts_cur ?pool"] p key(2) by auto
  have s: "set h' = set (t # h)" "distinct h'" "h' \<noteq> []"
    using mset_eq_setD [OF h'(2)] mset_eq_imp_distinct_iff [OF h'(2)] h'(2) p by auto
  then have "pool_at Z gss ?pool h' ?rest" unfolding pool_at_def using h'(3) at by blast
  moreover have "pool_items ?pool h ?rest = pool_items pool h rest" using key(2) t(2) by (intro pool_items_cong) auto
  then have "add_mset (pool_key pool t) (pool_items ?pool h' ?rest) = pool_items pool (t # h) rest"
    using pool_items_mset [OF h'(2), of ?pool ?rest] key(1) assms(2) by (simp add: pool_items_Cons)
  ultimately show ?thesis using h'(1) by (simp add: ts_sift_down_def)
qed

lemma pool_pop:
  assumes "pool_at Z gss pool (t # h) rest" "rest t = []"
  shows "\<exists>h'. ts_sift_down (pool[t := ps]) (butlast (swap_at (t # h) 0 (length (t # h) - 1))) 0 = Some h'
    \<and> (h' \<noteq> [] \<longrightarrow> pool_at Z gss (pool[t := ps]) h' rest)
    \<and> add_mset (pool_key pool t) (pool_items (pool[t := ps]) h' rest) = pool_items pool (t # h) rest"
proof -
  let ?pool = "pool[t := ps]"
  note p = assms(1) [unfolded pool_at_def]
  have t: "t < length pool" "t \<notin> set h" using p by auto
  have key: "\<forall>k \<in> set h. pool_key ?pool k = pool_key pool k" using t by (auto simp: pool_key_update)
  have at: "\<forall>k \<in> set h. k < length ?pool \<and> ps_at Z (gss ! k) (?pool ! k) (rest k) \<and> sorted (pool_key ?pool k # rest k)"
    using p key t by (auto simp: nth_list_update)
  have "\<forall>k \<in> set h. ts_cur ?pool k = Some (pool_key pool k)" using at key by (simp add: ts_cur_def pool_key_def)
  then obtain h' where h': "heap_pop_top (ts_cur ?pool) (t # h) = Some h'" "mset h' = mset h" "heap_from (pool_key pool) h' 0"
    using heap_pop_correct [of "pool_key pool" "t # h" "ts_cur ?pool"] p by auto
  have s: "set h' = set h" "distinct h'" using mset_eq_setD [OF h'(2)] mset_eq_imp_distinct_iff [OF h'(2)] p by auto
  have "heap_from (pool_key ?pool) h' 0" by (rule heap_from_cong [OF h'(3)]) (use key s(1) in auto)
  then have "h' \<noteq> [] \<longrightarrow> pool_at Z gss ?pool h' rest" unfolding pool_at_def using at s by blast
  moreover have "pool_items ?pool h rest = pool_items pool h rest" using key by (intro pool_items_cong) auto
  then have "add_mset (pool_key pool t) (pool_items ?pool h' rest) = pool_items pool (t # h) rest"
    using pool_items_mset [OF h'(2), of ?pool rest] assms(2) by (simp add: pool_items_Cons)
  ultimately show ?thesis using h'(1) by (simp add: ts_sift_down_def heap_pop_top_def)
qed

section \<open>Stepping\<close>

lemma ts_next_block_rep:
  assumes "pool_ok Z gss (ts_pool ts)" "pool_at Z gss (ts_pool ts) (ts_heap ts) rest" "sorted xs"
    "pool_items (ts_pool ts) (ts_heap ts) rest = mset (pool_key (ts_pool ts) (hd (ts_heap ts)) # xs)"
  shows "\<exists>pool h. pool_ok Z gss pool \<and> ts_next_block Z ts = Some (ts\<lparr>ts_pool := pool, ts_heap := h\<rparr>, if xs = [] then Some TsEof else None)
    \<and> (xs \<noteq> [] \<longrightarrow> pool_key pool (hd h) = hd xs \<and> h \<noteq> [] \<and> hd h < length pool
        \<and> (\<exists>rest. pool_at Z gss pool h rest \<and> pool_items pool h rest = mset xs))"
proof -
  obtain t h where h: "ts_heap ts = t # h" using assms(2) by (cases "ts_heap ts") (auto simp: pool_at_def)
  let ?pool = "ts_pool ts"
  have t: "t < length ?pool" "ps_at Z (gss ! t) (?pool ! t) (rest t)" using assms(2) h by (auto simp: pool_at_def)
  have i: "pool_items ?pool (t # h) rest = add_mset (pool_key ?pool t) (mset xs)" using assms(4) h by simp
  show ?thesis
  proof (cases "rest t")
    case (Cons y ys)
    obtain ps where ps: "ps_next_item Z (?pool ! t) = Some (ps, True)" "ps_at Z (gss ! t) ps ys" "ps_item ps = y"
      using next_item_Cons t(2) Cons by metis
    obtain h' where h': "ts_sift_down (?pool[t := ps]) (t # h) 0 = Some h'" "pool_at Z gss (?pool[t := ps]) h' (rest(t := ys))"
      "pool_items (?pool[t := ps]) h' (rest(t := ys)) = mset xs"
      using pool_advance [OF assms(2) [unfolded h] Cons ps(2,3)] i by auto
    obtain zs where z: "xs = pool_key (?pool[t := ps]) (hd h') # zs" using pool_top_first [OF h'(2,3) assms(3)] by blast
    have "ts_next_block Z ts = Some (ts\<lparr>ts_pool := ?pool[t := ps], ts_heap := h'\<rparr>, None)"
      using h t(1) ps(1) h'(1) by (simp add: ts_next_block_def Let_def)
    moreover have "h' \<noteq> []" "hd h' < length (?pool[t := ps])" using h'(2) by (auto simp: pool_at_def)
    ultimately show ?thesis using pool_ok_update [OF assms(1) ps(2)] h'(2,3) z by (intro exI [of _ "?pool[t := ps]"] exI [of _ h']) auto
  next
    case Nil
    obtain ps where ps: "ps_next_item Z (?pool ! t) = Some (ps, False)" "ps_at Z (gss ! t) ps []"
      using next_item_Nil t(2) Nil by metis
    have e: "ps_error ps = None" using ps(2) by (simp add: ps_at_def)
    obtain h' where h': "ts_sift_down (?pool[t := ps]) (butlast (swap_at (t # h) 0 (length (t # h) - 1))) 0 = Some h'"
      "h' \<noteq> [] \<longrightarrow> pool_at Z gss (?pool[t := ps]) h' rest" "pool_items (?pool[t := ps]) h' rest = mset xs"
      using pool_pop [OF assms(2) [unfolded h] Nil, of ps] i by auto
    have "ts_next_block Z ts = Some (ts\<lparr>ts_pool := ?pool[t := ps], ts_heap := h'\<rparr>, if h' = [] then Some TsEof else None)"
      using h t(1) ps(1) h'(1) e by (simp add: ts_next_block_def Let_def)
    moreover have "xs = [] \<longleftrightarrow> h' = []" using h'(3) pool_top_in [of h'] by (cases h') (force simp: pool_items_def)+
    moreover have "pool_key (?pool[t := ps]) (hd h') = hd xs \<and> h' \<noteq> [] \<and> hd h' < length (?pool[t := ps])
        \<and> (\<exists>rest. pool_at Z gss (?pool[t := ps]) h' rest \<and> pool_items (?pool[t := ps]) h' rest = mset xs)" if "h' \<noteq> []"
    proof -
      have a: "pool_at Z gss (?pool[t := ps]) h' rest" using h'(2) that by blast
      then show ?thesis using pool_top_first [OF a h'(3) assms(3)] h'(3) that by (auto simp: pool_at_def)
    qed
    ultimately show ?thesis using pool_ok_update [OF assms(1) ps(2)] by (intro exI [of _ "?pool[t := ps]"] exI [of _ h']) auto
  qed
qed

lemma ts_next_Cons:
  assumes "ts_at Z gss ts (x # xs)"
  shows "\<exists>ts'. ts_next_item Z ts = Some (ts', True) \<and> ts_at Z gss ts' xs \<and> ts_item ts' = Some x"
proof -
  obtain rest where r: "pool_ok Z gss (ts_pool ts)" "ts_err ts = None" "sorted (x # xs)" "pool_at Z gss (ts_pool ts) (ts_heap ts) rest"
    "pool_items (ts_pool ts) (ts_heap ts) rest = mset (if ts_next_item_noop ts then x # xs else pool_key (ts_pool ts) (hd (ts_heap ts)) # x # xs)"
    using assms by (auto simp: ts_at_def)
  show ?thesis
  proof (cases "ts_next_item_noop ts")
    case True
    then have i: "pool_items (ts_pool ts) (ts_heap ts) rest = mset (x # xs)" using r(5) by simp
    have x: "x = pool_key (ts_pool ts) (hd (ts_heap ts))" using pool_top_first [OF r(4) i r(3)] by auto
    then have "pool_items (ts_pool ts) (ts_heap ts) rest = mset (pool_key (ts_pool ts) (hd (ts_heap ts)) # xs)" using i by (simp flip: x)
    then have "ts_at Z gss (ts\<lparr>ts_next_item_noop := False\<rparr>) xs" unfolding ts_at_def using r(1-4) by auto
    moreover have "ts_item (ts\<lparr>ts_next_item_noop := False\<rparr>) = Some x"
      using r(4) x by (cases "ts_heap ts") (auto simp: ts_item_def ts_cur_def pool_at_def pool_key_def)
    ultimately show ?thesis using r(2) True by (simp add: ts_next_item_def)
  next
    case False
    then have i: "pool_items (ts_pool ts) (ts_heap ts) rest = mset (pool_key (ts_pool ts) (hd (ts_heap ts)) # x # xs)" using r(5) by simp
    obtain pool h where n: "pool_ok Z gss pool"
      "ts_next_block Z ts = Some (ts\<lparr>ts_pool := pool, ts_heap := h\<rparr>, if x # xs = [] then Some TsEof else None)"
      "pool_key pool (hd h) = hd (x # xs)" "h \<noteq> []" "hd h < length pool"
      "\<exists>rest. pool_at Z gss pool h rest \<and> pool_items pool h rest = mset (x # xs)"
      using ts_next_block_rep [OF r(1,4,3) i] list.distinct(2) [of x xs] by blast
    then have "ts_at Z gss (ts\<lparr>ts_pool := pool, ts_heap := h\<rparr>) xs" unfolding ts_at_def using r(2,3) False by simp
    moreover have "ts_item (ts\<lparr>ts_pool := pool, ts_heap := h\<rparr>) = Some x"
      using n(3-5) by (cases h) (auto simp: ts_item_def ts_cur_def pool_key_def)
    ultimately show ?thesis using r(2) False n(2) by (simp add: ts_next_item_def)
  qed
qed

lemma ts_next_Nil:
  assumes "ts_at Z gss ts []"
  shows "\<exists>ts'. ts_next_item Z ts = Some (ts', False) \<and> ts_at Z gss ts' []"
proof (cases "ts_err ts = None")
  case False
  then show ?thesis using assms by (auto simp: ts_next_item_def)
next
  case True
  then obtain rest where r: "pool_ok Z gss (ts_pool ts)" "pool_at Z gss (ts_pool ts) (ts_heap ts) rest"
    "pool_items (ts_pool ts) (ts_heap ts) rest = mset (if ts_next_item_noop ts then [] else pool_key (ts_pool ts) (hd (ts_heap ts)) # [])"
    using assms by (auto simp: ts_at_def)
  have "\<not> ts_next_item_noop ts" using pool_top_first [OF r(2), of "[]"] r(3) by (cases "ts_next_item_noop ts") auto
  then obtain pool h where "ts_next_block Z ts = Some (ts\<lparr>ts_pool := pool, ts_heap := h\<rparr>, Some TsEof)" "pool_ok Z gss pool"
    "\<not> ts_next_item_noop ts" using ts_next_block_rep [OF r(1,2), of "[]"] r(3) by auto
  then show ?thesis using True by (simp add: ts_next_item_def ts_at_def)
qed

section \<open>Seeking\<close>

lemma ts_seek_loop_rep:
  "pool_ok Z gss pool \<Longrightarrow> \<exists>pool' yss. ts_seek_loop Z k i pool =
      Some (pool', filter (\<lambda>j. yss ! (j - i) \<noteq> []) [i..<i + length pool], None) \<and> pool_ok Z gss pool'
    \<and> list_all2 (\<lambda>gs zs. found k (strs_of (blocks_of gs)) zs) gss yss
    \<and> (\<forall>j < length pool. yss ! j \<noteq> [] \<longrightarrow> ps_at Z (gss ! j) (pool' ! j) (tl (yss ! j)) \<and> ps_item (pool' ! j) = hd (yss ! j))"
proof (induction pool arbitrary: i gss)
  case (Cons ps pool)
  obtain gs hss xs where g: "gss = gs # hss" "ps_at Z gs ps xs" "pool_ok Z hss pool"
    using Cons.prems by (cases gss) (auto simp: pool_ok_def)
  obtain ps1 ys where s: "ps_seek Z ps k = Some ps1" "ps_at Z gs ps1 ys" "found k (strs_of (blocks_of gs)) ys"
    using seek_rep [OF g(2)] by blast
  obtain ps2 where n: "ps_next_item Z ps1 = Some (ps2, ys \<noteq> [])" "ps_at Z gs ps2 (tl ys)" "ys \<noteq> [] \<longrightarrow> ps_item ps2 = hd ys"
  proof (cases ys)
    case Nil
    then show ?thesis using next_item_Nil [of Z gs ps1] s(2) that by auto
  next
    case (Cons y zs)
    then show ?thesis using next_item_Cons [of Z gs ps1 y zs] s(2) that by auto
  qed
  have e: "ps_error ps2 = None" using n(2) by (simp add: ps_at_def)
  obtain pool' yss where IH: "ts_seek_loop Z k (Suc i) pool = Some (pool', filter (\<lambda>j. yss ! (j - Suc i) \<noteq> []) [Suc i..<Suc i + length pool], None)"
    "pool_ok Z hss pool'" "list_all2 (\<lambda>gs zs. found k (strs_of (blocks_of gs)) zs) hss yss"
    "\<forall>j < length pool. yss ! j \<noteq> [] \<longrightarrow> ps_at Z (hss ! j) (pool' ! j) (tl (yss ! j)) \<and> ps_item (pool' ! j) = hd (yss ! j)"
    using Cons.IH [OF g(3), of "Suc i"] by blast
  have l: "length pool = length yss" using g(3) IH(3) by (simp add: pool_ok_def list_all2_lengthD)
  have f: "filter (\<lambda>j. (ys # yss) ! (j - i) \<noteq> []) [i..<i + length (ps # pool)] =
      (if ys \<noteq> [] then [i] else []) @ filter (\<lambda>j. yss ! (j - Suc i) \<noteq> []) [Suc i..<Suc i + length pool]"
    using nonempty_indices_Cons [of ys yss i] by (simp only: l list.size)
  have p: "pool_ok Z gss (ps2 # pool')" using IH(2) n(2) by (auto simp: pool_ok_def g(1))
  have "ts_seek_loop Z k i (ps # pool) = Some (ps2 # pool', filter (\<lambda>j. (ys # yss) ! (j - i) \<noteq> []) [i..<i + length (ps # pool)], None)"
    unfolding f using s(1) n(1) e IH(1) by (simp del: upt_Suc)
  moreover have "list_all2 (\<lambda>gs zs. found k (strs_of (blocks_of gs)) zs) gss (ys # yss)" using s(3) IH(3) g(1) by simp
  moreover have "\<forall>j < length (ps # pool). (ys # yss) ! j \<noteq> [] \<longrightarrow>
      ps_at Z (gss ! j) ((ps2 # pool') ! j) (tl ((ys # yss) ! j)) \<and> ps_item ((ps2 # pool') ! j) = hd ((ys # yss) ! j)"
    using n(2,3) IH(4) by (simp add: g(1) All_less_Suc2)
  ultimately show ?case using p by blast
qed (auto simp: pool_ok_def)

lemma found_tail_sorted: "found k xs ys \<Longrightarrow> sorted xs \<Longrightarrow> sorted ys"
  by (metis found_def sorted_append)

lemma ts_seek_rep:
  assumes "pool_ok Z gss (ts_pool ts)" "ts_error ts = None"
  shows "\<exists>ts' ys. ts_seek Z ts k = Some ts' \<and> ts_at Z gss ts' ys \<and> ts_found gss k ys"
proof -
  let ?f = "\<lambda>yss. filter (\<lambda>j. yss ! j \<noteq> []) [0..<length (ts_pool ts)]"
  obtain pool yss where l: "ts_seek_loop Z k 0 (ts_pool ts) = Some (pool, ?f yss, None)" "pool_ok Z gss pool"
    "list_all2 (\<lambda>gs zs. found k (strs_of (blocks_of gs)) zs) gss yss"
    "\<forall>j < length (ts_pool ts). yss ! j \<noteq> [] \<longrightarrow> ps_at Z (gss ! j) (pool ! j) (tl (yss ! j)) \<and> ps_item (pool ! j) = hd (yss ! j)"
    using ts_seek_loop_rep [OF assms(1), of k 0] by auto
  have n: "length (ts_pool ts) = length yss" "length pool = length yss" "length gss = length yss"
    using assms(1) l(2,3) by (simp_all add: pool_ok_def list_all2_lengthD)
  have total: "(\<Sum>k \<in># mset (?f yss). mset (yss ! k)) = mset (concat yss)" unfolding n by (rule nonempty_indices_sum)
  let ?ys = "sort (concat yss)"
  have fd: "ts_found gss k ?ys" unfolding ts_found_def using l(3) by (intro conjI exI [of _ yss]) simp_all
  show ?thesis
  proof (cases "?f yss = []")
    case True
    then have "mset (concat yss) = {#}" using total by (simp only: mset.simps image_mset_empty sum_mset.empty)
    then have "?ys = []" by (metis mset_sort mset_zero_iff)
    moreover have "ts_seek Z ts k = Some (ts\<lparr>ts_pool := pool, ts_heap := [], ts_err := Some TsEof\<rparr>)"
      using assms(2) l(1) True by (simp add: ts_seek_def)
    ultimately show ?thesis using l(2) fd by (intro exI [of _ "ts\<lparr>ts_pool := pool, ts_heap := [], ts_err := Some TsEof\<rparr>"] exI [of _ ?ys]) (simp add: ts_at_def)
  next
    case False
    have ok: "k' < length pool \<and> ps_at Z (gss ! k') (pool ! k') (tl (yss ! k')) \<and> pool_key pool k' # tl (yss ! k') = yss ! k' \<and> sorted (yss ! k')"
      if k': "k' \<in> set (?f yss)" for k'
    proof -
      have i: "k' < length yss" "yss ! k' \<noteq> []" using k' n by auto
      obtain zs where "ps_at Z (gss ! k') (pool ! k') zs" using pool_ok_nth [OF l(2)] i n by auto
      then have "sorted (strs_of (blocks_of (gss ! k')))" by (simp add: ps_at_def part_ok_def)
      moreover have "found k (strs_of (blocks_of (gss ! k'))) (yss ! k')" using list_all2_nthD [OF l(3)] i n by simp
      ultimately show ?thesis using l(4) i n found_tail_sorted by (auto simp: pool_key_def)
    qed
    have c: "\<forall>k \<in> set (?f yss). ts_cur pool k = Some (pool_key pool k)" using ok by (simp add: ts_cur_def pool_key_def)
    obtain h where h: "heap_init (ts_cur pool) (?f yss) = Some h" "mset h = mset (?f yss)" "heap_from (pool_key pool) h 0"
      using heap_init_correct [OF c] by blast
    have st: "set h = set (?f yss)" "distinct h" "h \<noteq> []"
    proof -
      show "set h = set (?f yss)" by (rule mset_eq_setD [OF h(2)])
      show "distinct h" unfolding mset_eq_imp_distinct_iff [OF h(2)] by simp
      show "h \<noteq> []" using False h(2) by (metis mset_zero_iff)
    qed
    have "pool_at Z gss pool h (\<lambda>k. tl (yss ! k))"
      unfolding pool_at_def using h(3) st(2,3) ok by (simp add: st(1) del: set_filter)
    moreover have "pool_items pool h (\<lambda>k. tl (yss ! k)) = (\<Sum>k \<in># mset (?f yss). mset (yss ! k))"
      unfolding pool_items_def h(2) using ok by (intro arg_cong [where f = sum_mset] image_mset_cong) simp
    then have "pool_items pool h (\<lambda>k. tl (yss ! k)) = mset ?ys" using total by simp
    ultimately have "ts_at Z gss (ts\<lparr>ts_pool := pool, ts_heap := h, ts_err := None, ts_next_item_noop := True\<rparr>) ?ys"
      unfolding ts_at_def using l(2) by auto
    moreover have "ts_seek Z ts k = Some (ts\<lparr>ts_pool := pool, ts_heap := h, ts_err := None, ts_next_item_noop := True\<rparr>)"
      using assms(2) l(1) False h(1) by (simp add: ts_seek_def ts_heap_init_def)
    ultimately show ?thesis using fd by blast
  qed
qed

lemma ts_at_pool: "ts_at Z gss ts xs \<Longrightarrow> pool_ok Z gss (ts_pool ts) \<and> ts_error ts = None"
  by (auto simp: ts_at_def ts_error_def)

lemma ts_found_length: "ts_found gss k ys \<Longrightarrow> length ys \<le> length (concat (map (strs_of \<circ> blocks_of) gss))"
proof -
  assume "ts_found gss k ys"
  then obtain yss where y: "list_all2 (\<lambda>gs zs. found k (strs_of (blocks_of gs)) zs) gss yss" "mset ys = mset (concat yss)"
    by (auto simp: ts_found_def)
  have "length (concat yss) \<le> length (concat (map (strs_of \<circ> blocks_of) gss))"
    using y(1) by (induction rule: list_all2_induct) (auto dest!: found_length)
  then show ?thesis using mset_eq_length [OF y(2)] by simp
qed

interpretation table_cursor: cursor "ts_next_item Z" "\<lambda>ts. the (ts_item ts)" "\<lambda>ts. ts_error ts \<noteq> None" "ts_at Z gss" "ts_seek Z"
  "ts_found gss" "length (concat (map (strs_of \<circ> blocks_of) gss))"
proof
  fix r xs k and b :: bytes
  show "ts_at Z gss r (b # xs) \<Longrightarrow> \<exists>r'. ts_next_item Z r = Some (r', True) \<and> ts_at Z gss r' xs \<and> the (ts_item r') = b"
    using ts_next_Cons by fastforce
  show "ts_at Z gss r [] \<Longrightarrow> \<exists>r'. ts_next_item Z r = Some (r', False) \<and> \<not> ts_error r' \<noteq> None"
    using ts_next_Nil ts_at_pool by blast
  show "ts_at Z gss r xs \<Longrightarrow> \<exists>r' ys. ts_seek Z r k = Some r' \<and> ts_at Z gss r' ys \<and> ts_found gss k ys"
    using ts_seek_rep ts_at_pool by blast
  show "ts_at Z gss r []" if "ts_at Z gss q []" "ts_next_item Z q = Some (r, False)" for q
    using ts_next_Nil [OF that(1)] that(2) by auto
  show "ts_found gss k xs \<Longrightarrow> length xs \<le> length (concat (map (strs_of \<circ> blocks_of) gss))" by (rule ts_found_length)
qed

section \<open>Tables of parts that were written\<close>

lemma table_part_ok:
  assumes "zstd_ok Z" "zstd_bounded Z" "table_part Z bs p"
  shows "\<exists>gs. part_ok Z p gs \<and> strs_of (blocks_of gs) = concat (map ib_strings bs)"
proof -
  obtain level pid ph w w' bufs where t: "list_all block_ok bs" "length bs < 2 ^ 40" "sorted (concat (map ib_strings bs))"
    "ph_ok ph (map ib_strings bs)" "write_blocks Z (bsw_new_inmemory_part level) bs = Some w"
    "bsw_must_close Z w = Some (w', bufs)" "mp_new_part Z pid (mp_from_buffers ph bufs) = Some p"
    using assms(3) by (auto simp: table_part_def)
  have v: "list_all varied (butlast (map ib_strings bs))" using assms(3) by (simp add: table_part_def)
  from part_written [OF assms(1,2) t(1-4) v, of level pid] t(5-7) show ?thesis by auto
qed

lemma table_parts_ok:
  assumes "zstd_ok Z" "zstd_bounded Z" "list_all2 (table_part Z) bss parts"
  shows "\<exists>gss. pool_ok Z gss (map (\<lambda>p. ps_new (env (pt_id p)) p) parts) \<and> map (strs_of \<circ> blocks_of) gss = map (\<lambda>bs. concat (map ib_strings bs)) bss"
  using assms(3)
proof (induction rule: list_all2_induct)
  case Nil
  then show ?case by (simp add: pool_ok_def)
next
  case (Cons bs bss p parts)
  then obtain gss where "pool_ok Z gss (map (\<lambda>p. ps_new (env (pt_id p)) p) parts)" "map (strs_of \<circ> blocks_of) gss = map (\<lambda>bs. concat (map ib_strings bs)) bss"
    by blast
  moreover obtain gs where "part_ok Z p gs" "strs_of (blocks_of gs) = concat (map ib_strings bs)"
    using table_part_ok [OF assms(1,2) Cons.hyps(1)] by blast
  ultimately show ?case using ps_new_at [of Z p gs "env (pt_id p)"] by (intro exI [of _ "gs # gss"]) (auto simp: pool_ok_def comp_def)
qed

lemma ts_found_parts:
  assumes "map (strs_of \<circ> blocks_of) gss = map f bss" "ts_found gss k ys"
  shows "sorted ys \<and> (\<exists>yss. list_all2 (\<lambda>bs zs. found k (f bs) zs) bss yss \<and> mset ys = mset (concat yss))"
proof -
  obtain yss where y: "sorted ys" "list_all2 (\<lambda>gs zs. found k (strs_of (blocks_of gs)) zs) gss yss" "mset ys = mset (concat yss)"
    using assms(2) by (auto simp: ts_found_def)
  have "list_all2 (found k) (map (strs_of \<circ> blocks_of) gss) yss" using y(2) by (simp add: list_all2_map1)
  then have "list_all2 (\<lambda>bs zs. found k (f bs) zs) bss yss" unfolding assms(1) by (simp add: list_all2_map1)
  with y show ?thesis by blast
qed

text \<open>As a set, what a seek finds is what the parts have.\<close>

lemma found_parts_set:
  assumes "list_all2 (\<lambda>bs zs. found k (f bs) zs) bss yss" "mset ys = mset (concat yss)"
  shows "set ys = {x \<in> set (concat (map f bss)). k \<le> x}"
proof -
  have "set (concat yss) = {x \<in> set (concat (map f bss)). k \<le> x}"
    using assms(1) by (induction rule: list_all2_induct) (auto simp: found_def)
  then show ?thesis using mset_eq_setD [OF assms(2)] by simp
qed

text \<open>With multiplicity, only copies of the key itself may be missing.\<close>

lemma found_counts: "found k xs ys \<Longrightarrow> mset ys \<subseteq># mset xs \<and> filter_mset ((<) k) (mset xs) \<subseteq># mset ys"
proof -
  assume "found k xs ys"
  then obtain zs where z: "xs = zs @ ys" "\<forall>z \<in> set zs. z \<le> k" by (auto simp: found_def)
  then have "filter ((<) k) zs = []" by (auto simp: filter_empty_conv)
  then have f: "filter_mset ((<) k) (mset zs) = {#}" by (metis mset.simps(1) mset_filter)
  show ?thesis unfolding z(1) mset_append filter_union_mset f by simp
qed

lemma found_parts_counts:
  assumes "list_all2 (\<lambda>bs zs. found k (f bs) zs) bss yss"
  shows "mset (concat yss) \<subseteq># mset (concat (map f bss)) \<and> filter_mset ((<) k) (mset (concat (map f bss))) \<subseteq># mset (concat yss)"
  using assms by (induction rule: list_all2_induct) (auto dest!: found_counts intro: subset_mset.add_mono)

text \<open>What the index relies on of a table: a seek leaves the rows not below the key ahead, in order.\<close>

locale ordered_rows =
  fixes seek :: "'r \<Rightarrow> bytes \<Rightarrow> 'r option"
    and usable :: "'r \<Rightarrow> bool"
    and ahead :: "'r \<Rightarrow> bytes list \<Rightarrow> bool"
    and rows :: "bytes list"
  assumes seek_rows: "usable r \<Longrightarrow> \<exists>r' ys. seek r k = Some r' \<and> ahead r' ys \<and> sorted ys
      \<and> set ys = {x \<in> set rows. k \<le> x} \<and> mset ys \<subseteq># mset rows \<and> filter_mset ((<) k) (mset rows) \<subseteq># mset ys"
    and ahead_usable: "ahead r ys \<Longrightarrow> usable r"
begin

text \<open>After a seek to a prefix, the rows with the prefix come first, and all of them.\<close>

lemma seek_prefix:
  assumes "usable r"
  shows "\<exists>r' ps zs. seek r pre = Some r' \<and> ahead r' (ps @ zs) \<and> sorted ps \<and> set ps = {x \<in> set rows. has_prefix pre x}
    \<and> (\<forall>x \<in> set zs. \<not> has_prefix pre x) \<and> length (ps @ zs) \<le> length rows"
proof -
  obtain r' ys where y: "seek r pre = Some r'" "ahead r' ys" "sorted ys" "set ys = {x \<in> set rows. pre \<le> x}" "length ys \<le> length rows"
    using seek_rows [OF assms, of pre] by (metis size_mset size_mset_mono)
  let ?ps = "takeWhile (has_prefix pre) ys" and ?zs = "dropWhile (has_prefix pre) ys"
  have le: "pre \<le> x" if "has_prefix pre x" for x
    using has_prefix_drop [OF that] le_common_prefix [of pre "[]" "drop (length pre) x"] by simp
  have rest: "\<not> has_prefix pre x" if m: "x \<in> set ?zs" for x
  proof
    assume x: "has_prefix pre x"
    obtain z zs where z: "?zs = z # zs" using m by (cases ?zs) auto
    have "sorted ?zs" using y(3) by (simp add: sorted_dropWhile)
    then have "z \<le> x" using m z by auto
    moreover have "pre \<le> z" using z y(4) set_dropWhileD [of z "has_prefix pre" ys] by auto
    ultimately have "has_prefix pre z" using has_prefix_between [of pre pre x z] x by (simp add: has_prefix_def)
    moreover have "\<not> has_prefix pre z" using hd_dropWhile [of "has_prefix pre" ys] z by simp
    ultimately show False by simp
  qed
  have "set ?ps = {x \<in> set rows. has_prefix pre x}"
  proof (intro set_eqI iffI)
    fix x assume x: "x \<in> {x \<in> set rows. has_prefix pre x}"
    then have "x \<in> set (?ps @ ?zs)" using le y(4) by simp
    with rest x show "x \<in> set ?ps" by (metis (mono_tags, lifting) Un_iff mem_Collect_eq set_append)
  qed (use y(4) in \<open>auto dest: set_takeWhileD\<close>)
  moreover have "ahead r' (?ps @ ?zs)" "length (?ps @ ?zs) \<le> length rows" using y(2,5) by (simp_all only: takeWhile_dropWhile_id)
  moreover have "sorted ?ps" using y(3) by (metis sorted_append takeWhile_dropWhile_id)
  ultimately show ?thesis using y(1) rest by blast
qed

end

lemma cursor_over_new:
  assumes "zstd_ok Z" "zstd_bounded Z" "list_all2 (table_part Z) bss parts"
  shows "cursor_over Z bss (ts_new env parts)"
  using table_parts_ok [OF assms] by (auto simp: cursor_over_def ts_new_def ts_error_def)

lemma cursor_ahead_over: "cursor_ahead Z bss ts xs \<Longrightarrow> cursor_over Z bss ts"
  unfolding cursor_ahead_def cursor_over_def using ts_at_pool by blast

lemma cursor_ahead_error: "cursor_ahead Z bss ts xs \<Longrightarrow> ts_error ts = None"
  using ts_at_pool by (auto simp: cursor_ahead_def)

lemma cursor_next:
  "cursor_ahead Z bss ts (x # xs) \<Longrightarrow> \<exists>ts'. ts_next_item Z ts = Some (ts', True) \<and> cursor_ahead Z bss ts' xs \<and> ts_item ts' = Some x"
  "cursor_ahead Z bss ts [] \<Longrightarrow> \<exists>ts'. ts_next_item Z ts = Some (ts', False) \<and> cursor_ahead Z bss ts' []"
  unfolding cursor_ahead_def using ts_next_Cons ts_next_Nil by blast+

interpretation table_rows: ordered_rows "ts_seek Z" "cursor_over Z bss" "cursor_ahead Z bss" "table_items bss"
proof
  fix ts k
  assume "cursor_over Z bss ts"
  then obtain gss where g: "pool_ok Z gss (ts_pool ts)" "ts_error ts = None"
    "map (strs_of \<circ> blocks_of) gss = map (\<lambda>bs. concat (map ib_strings bs)) bss" by (auto simp: cursor_over_def)
  obtain ts' ys where s: "ts_seek Z ts k = Some ts'" "ts_at Z gss ts' ys" "ts_found gss k ys" using ts_seek_rep [OF g(1,2)] by blast
  obtain yss where y: "sorted ys" "list_all2 (\<lambda>bs zs. found k (concat (map ib_strings bs)) zs) bss yss" "mset ys = mset (concat yss)"
    using ts_found_parts [OF g(3) s(3)] by blast
  have "set ys = {x \<in> set (table_items bss). k \<le> x}" using found_parts_set [OF y(2,3)] by (simp add: table_items_def)
  moreover have "mset ys \<subseteq># mset (table_items bss)" "filter_mset ((<) k) (mset (table_items bss)) \<subseteq># mset ys"
    using found_parts_counts [OF y(2)] by (simp_all add: table_items_def y(3))
  ultimately show "\<exists>ts' ys. ts_seek Z ts k = Some ts' \<and> cursor_ahead Z bss ts' ys \<and> sorted ys
      \<and> set ys = {x \<in> set (table_items bss). k \<le> x} \<and> mset ys \<subseteq># mset (table_items bss)
      \<and> filter_mset ((<) k) (mset (table_items bss)) \<subseteq># mset ys"
    using s(1,2) y(1) g(3) by (auto simp: cursor_ahead_def)
next
  show "cursor_ahead Z bss ts xs \<Longrightarrow> cursor_over Z bss ts" for ts xs by (rule cursor_ahead_over)
qed

text \<open>A lookup by prefix, with a cursor wherever it stands.\<close>

lemma first_with_prefix:
  assumes "cursor_over Z bss ts"
  shows "\<exists>ts'. cursor_over Z bss ts' \<and> (if \<forall>x \<in> set (table_items bss). \<not> has_prefix pre x
    then ts_first_item_with_prefix Z ts pre = Some (ts', Some TsEof)
    else \<exists>x. ts_first_item_with_prefix Z ts pre = Some (ts', None) \<and> ts_item ts' = Some x \<and> x \<in> set (table_items bss)
      \<and> has_prefix pre x \<and> (\<forall>y \<in> set (table_items bss). has_prefix pre y \<longrightarrow> x \<le> y))"
proof -
  obtain ts1 ps zs where s: "ts_seek Z ts pre = Some ts1" "cursor_ahead Z bss ts1 (ps @ zs)" "sorted ps"
    "set ps = {x \<in> set (table_items bss). has_prefix pre x}" "\<forall>x \<in> set zs. \<not> has_prefix pre x"
    using table_rows.seek_prefix [OF assms] by blast
  show ?thesis
  proof (cases "ps @ zs")
    case Nil
    then obtain ts2 where n: "ts_next_item Z ts1 = Some (ts2, False)" "cursor_ahead Z bss ts2 []" using cursor_next(2) s(2) by fastforce
    then have "ts_first_item_with_prefix Z ts pre = Some (ts2, Some TsEof)"
      using s(1) cursor_ahead_error [OF n(2)] by (simp add: ts_first_item_with_prefix_def)
    then show ?thesis using Nil s(4) cursor_ahead_over [OF n(2)] by (intro exI [of _ ts2]) auto
  next
    case (Cons x xs)
    then obtain ts2 where n: "ts_next_item Z ts1 = Some (ts2, True)" "cursor_ahead Z bss ts2 xs" "ts_item ts2 = Some x"
      using cursor_next(1) s(2) by fastforce
    have e: "ts_first_item_with_prefix Z ts pre = Some (ts2, if has_prefix pre x then None else Some TsEof)"
      using s(1) n(1,3) cursor_ahead_error [OF n(2)] by (simp add: ts_first_item_with_prefix_def has_prefix_def)
    show ?thesis
    proof (cases ps)
      case Nil
      then have "\<not> has_prefix pre x" "\<forall>x \<in> set (table_items bss). \<not> has_prefix pre x" using s(4,5) Cons by auto
      then show ?thesis using e cursor_ahead_over [OF n(2)] by (intro exI [of _ ts2]) simp
    next
      case ps: (Cons y ys)
      then have x: "x \<in> set (table_items bss)" "has_prefix pre x" "\<forall>y \<in> set (table_items bss). has_prefix pre y \<longrightarrow> x \<le> y"
        using s(3,4) Cons by auto
      then have "\<not> (\<forall>x \<in> set (table_items bss). \<not> has_prefix pre x)" by blast
      with e n(3) x cursor_ahead_over [OF n(2)] show ?thesis by (intro exI [of _ ts2]) (simp only: if_True if_False, blast)
    qed
  qed
qed

lemma two_item_part:
  assumes "b = fst (ib_add (fst (ib_add ib_default [4])) [5])"
  shows "\<exists>p. table_part stored_zstd [b] p"
proof -
  note i = two_item_blocks [OF assms]
  let ?ph = "\<lparr>ph_items_count = 2, ph_blocks_count = 1, ph_first_item = [4], ph_last_item = [5]\<rparr>"
  have b: "list_all block_ok [b]" "length [b] < 2 ^ 40" "sorted (concat (map ib_strings [b]))" "ph_ok ?ph (map ib_strings [b])"
    "list_all varied (butlast (map ib_strings [b]))"
    using i by (simp_all add: ph_ok_def)
  obtain w w' bufs p where "write_blocks stored_zstd (bsw_new_inmemory_part 1) [b] = Some w"
    "bsw_must_close stored_zstd w = Some (w', bufs)" "mp_new_part stored_zstd 1 (mp_from_buffers ?ph bufs) = Some p"
    using part_written [OF stored_zstd_ok stored_zstd_bounded b, of 1 1] by blast
  then show ?thesis unfolding table_part_def using b by blast
qed

section \<open>Properties\<close>

text \<open>
  C5: a cursor over a table of parts, once positioned, answers every seek, whatever seeks and steps came
  before and whatever happens to the cache of blocks meanwhile: stepping to the end returns a sorted
  sequence, the merge of what each part has that is not below the key, items that are in several parts as
  often as they are there. In each part no block but the last may consist of several equal items, since the
  next block would have the same key in the cache.\<close>

theorem table_search_correct:
  assumes "zstd_ok Z" "zstd_bounded Z" "list_all2 (table_part Z) bss parts"
  shows "\<exists>ts0 ts1 ts2 ys yss. ts_seek Z (ts_new env parts) k0 = Some ts0
    \<and> cursor_run (ts_next_item Z) (ts_seek Z) ops ts0 = Some ts1 \<and> ts_seek Z ts1 k = Some ts2
    \<and> ts_items_from Z (Suc (length (table_items bss))) ts2 = Some ys
    \<and> sorted ys \<and> mset ys = mset (concat yss) \<and> list_all2 (\<lambda>bs zs. found k (concat (map ib_strings bs)) zs) bss yss"
proof -
  obtain gss where g: "pool_ok Z gss (map (\<lambda>p. ps_new (env (pt_id p)) p) parts)" "map (strs_of \<circ> blocks_of) gss = map (\<lambda>bs. concat (map ib_strings bs)) bss"
    using table_parts_ok [OF assms] by blast
  obtain ts0 ys0 where s: "ts_seek Z (ts_new env parts) k0 = Some ts0" "ts_at Z gss ts0 ys0"
    using ts_seek_rep [of Z gss "ts_new env parts" k0] g(1) by (auto simp: ts_new_def ts_error_def)
  obtain ts1 ts2 ys where r: "cursor_run (ts_next_item Z) (ts_seek Z) ops ts0 = Some ts1" "ts_seek Z ts1 k = Some ts2"
    "ts_items_from Z (Suc (length (table_items bss))) ts2 = Some ys" "ts_found gss k ys"
    using table_cursor.run_seek_drain [OF s(2), of ops k] unfolding g(2) ts_items_from_def table_items_def by blast
  from ts_found_parts [OF g(2) r(4)] r(1-3) s(1) show ?thesis by blast
qed

theorem table_search_correct_witness:
  "\<exists>p. list_all2 (table_part stored_zstd) [[fst (ib_add (fst (ib_add ib_default [4])) [5])], [fst (ib_add (fst (ib_add ib_default [4])) [5])]] [p, p] \<and>
    (\<exists>ts0 ts1 ts2. ts_seek stored_zstd (ts_new (\<lambda>_. [[OtherPut 0 0], [CleanMisses]]) [p, p]) [9] = Some ts0
      \<and> cursor_run (ts_next_item stored_zstd) (ts_seek stored_zstd) [Step, Seek [4], Step] ts0 = Some ts1
      \<and> ts_seek stored_zstd ts1 [3] = Some ts2 \<and> ts_items_from stored_zstd 5 ts2 = Some [[4], [4], [5], [5]])"
proof -
  let ?b = "fst (ib_add (fst (ib_add ib_default [4])) [5])" and ?env = "\<lambda>_. [[OtherPut 0 0], [CleanMisses]]"
  have i: "ib_strings ?b = [[4], [5]]" by (rule two_item_blocks [OF refl]) simp
  obtain p where p: "table_part stored_zstd [?b] p" using two_item_part by blast
  then have t: "list_all2 (table_part stored_zstd) [[?b], [?b]] [p, p]" by simp
  have n: "Suc (length (table_items [[?b], [?b]])) = 5" by (simp add: table_items_def i)
  obtain ts0 ts1 ts2 ys yss where r: "ts_seek stored_zstd (ts_new ?env [p, p]) [9] = Some ts0"
    "cursor_run (ts_next_item stored_zstd) (ts_seek stored_zstd) [Step, Seek [4], Step] ts0 = Some ts1"
    "ts_seek stored_zstd ts1 [3] = Some ts2" "ts_items_from stored_zstd 5 ts2 = Some ys" "mset ys = mset (concat yss)" "sorted ys"
    "list_all2 (\<lambda>bs zs. found [3] (concat (map ib_strings bs)) zs) [[?b], [?b]] yss"
    using table_search_correct [OF stored_zstd_ok stored_zstd_bounded t, of ?env "[9]" "[Step, Seek [4], Step]" "[3]", unfolded n] by blast
  have f: "found [3] [[4], [5 :: u8]] zs \<Longrightarrow> zs = [[4], [5]]" for zs using found_distinct [of "[3]" "[[4], [5 :: u8]]" zs] by simp
  have "yss = [[[4], [5]], [[4], [5]]]" using r(7) by (auto simp: i list_all2_Cons1 dest!: f)
  then have "ys = [[4], [4], [5], [5]]" using properties_for_sort [OF r(5,6)] by simp
  with t r(1-4) show ?thesis by blast
qed

text \<open>
  C16: looking up a prefix in a table, with a new cursor or one that was used, leaves the cursor on the least
  item that starts with the prefix, and reports the end when there is no such item in any part, whatever
  happens to the cache of blocks meanwhile, when in each part no block but the last consists of several
  equal items.\<close>

theorem first_item_with_prefix_correct:
  assumes "zstd_ok Z" "zstd_bounded Z" "list_all2 (table_part Z) bss parts" "ts = ts_new env parts \<or> ts_seek Z (ts_new env parts) k0 = Some ts"
  shows "\<exists>ts'. if \<forall>x \<in> set (table_items bss). \<not> has_prefix pre x
    then ts_first_item_with_prefix Z ts pre = Some (ts', Some TsEof)
    else \<exists>x. ts_first_item_with_prefix Z ts pre = Some (ts', None) \<and> ts_item ts' = Some x \<and> x \<in> set (table_items bss)
      \<and> has_prefix pre x \<and> (\<forall>y \<in> set (table_items bss). has_prefix pre y \<longrightarrow> x \<le> y)"
proof -
  have over: "cursor_over Z bss (ts_new env parts)" using cursor_over_new assms(1-3) by blast
  with assms(4) have "cursor_over Z bss ts"
    using table_rows.seek_rows [OF over, of k0] cursor_ahead_over by auto
  from first_with_prefix [OF this, of pre] show ?thesis by (auto split: if_splits)
qed

theorem first_item_with_prefix_witness:
  "\<exists>p. list_all2 (table_part stored_zstd) [[fst (ib_add (fst (ib_add ib_default [4])) [5])]] [p]
    \<and> (\<exists>ts. ts_first_item_with_prefix stored_zstd (ts_new (\<lambda>_. [[OtherPut 0 0]]) [p]) [] = Some (ts, None) \<and> ts_item ts = Some [4])
    \<and> (\<exists>ts. ts_first_item_with_prefix stored_zstd (ts_new (\<lambda>_. [[OtherPut 0 0]]) [p]) [6] = Some (ts, Some TsEof))"
proof -
  let ?b = "fst (ib_add (fst (ib_add ib_default [4])) [5])" and ?env = "\<lambda>_. [[OtherPut 0 0]]"
  obtain p where "table_part stored_zstd [?b] p" using two_item_part by blast
  then have t: "list_all2 (table_part stored_zstd) [[?b]] [p]" by simp
  have "ib_strings ?b = [[4], [5]]" by (rule two_item_blocks [OF refl]) simp
  then have i: "table_items [[?b]] = [[4], [5]]" by (simp add: table_items_def)
  note w = first_item_with_prefix_correct [OF stored_zstd_ok stored_zstd_bounded t, of "ts_new ?env [p]" ?env, unfolded i]
  have n: "(\<forall>x \<in> set [[4], [5 :: u8]]. \<not> has_prefix [] x) = False" "(\<forall>x \<in> set [[4], [5 :: u8]]. \<not> has_prefix [6] x) = True"
    by (auto simp: has_prefix_def)
  from w [of "[]" "[]"] obtain ts x where "ts_first_item_with_prefix stored_zstd (ts_new ?env [p]) [] = Some (ts, None)"
    "ts_item ts = Some x" "x \<in> set [[4], [5]]" "\<forall>y \<in> set [[4], [5]]. has_prefix [] y \<longrightarrow> x \<le> y" unfolding n if_False by blast
  moreover from this(3,4) have "x = [4]" by (auto simp: has_prefix_def)
  moreover from w [of "[]" "[6]"] obtain ts' where "ts_first_item_with_prefix stored_zstd (ts_new ?env [p]) [6] = Some (ts', Some TsEof)"
    unfolding n if_True by blast
  ultimately show ?thesis using t by blast
qed

end
