(* ===== verification/Tsid.thy ===== *)
theory Tsid
  imports Field_Readers Codec "HOL-Library.Product_Lexorder" "HOL-Library.List_Lexorder"
begin

text \<open>
  Series identifiers (\<open>crates/esm-storage/src/tsid.rs\<close>): the identifier with its order, which is
  the sort key of the blocks of a part, its fixed-size encoding, and the merge of sorted lists of
  identifiers.

  The heap of the merge is the standard library's \<open>BinaryHeap\<close> of reversed keys; what the code uses
  of it is that \<open>pop\<close> removes a least key, so it is the list of its keys here.
\<close>

section \<open>Model\<close>

datatype Tsid = Tsid (metric_group_id: u64) (job_id: u32) (instance_id: u32) (metric_id: u64)

text \<open>The derived order compares the fields in the order of their declaration.\<close>

fun tsid_key :: "Tsid \<Rightarrow> u64 \<times> u32 \<times> u32 \<times> u64" where
  "tsid_key (Tsid g j i m) = (g, j, i, m)"

lemma tsid_key_inj [simp]: "tsid_key t = tsid_key u \<longleftrightarrow> t = u"
  by (cases t; cases u) simp

instantiation Tsid :: linorder
begin

definition less_eq_Tsid :: "Tsid \<Rightarrow> Tsid \<Rightarrow> bool" where "t \<le> u \<longleftrightarrow> tsid_key t \<le> tsid_key u"

definition less_Tsid :: "Tsid \<Rightarrow> Tsid \<Rightarrow> bool" where "t < u \<longleftrightarrow> tsid_key t < tsid_key u"

instance
proof
  fix t u v :: Tsid
  show "t < u \<longleftrightarrow> t \<le> u \<and> \<not> u \<le> t" by (simp add: less_eq_Tsid_def less_Tsid_def less_le_not_le)
  show "t \<le> t" by (simp add: less_eq_Tsid_def)
  show "t \<le> u \<Longrightarrow> u \<le> v \<Longrightarrow> t \<le> v" unfolding less_eq_Tsid_def by (rule order_trans)
  show "t \<le> u \<Longrightarrow> u \<le> t \<Longrightarrow> t = u" unfolding less_eq_Tsid_def by (metis order_antisym tsid_key_inj)
  show "t \<le> u \<or> u \<le> t" unfolding less_eq_Tsid_def by (rule linear)
qed

end

definition tsid_default :: Tsid where "tsid_default = Tsid 0 0 0 0"

definition MARSHALED_TSID_SIZE :: nat where "MARSHALED_TSID_SIZE = 24"

definition tsid_marshal :: "Tsid \<Rightarrow> bytes \<Rightarrow> bytes" where
  "tsid_marshal t dst =
    (let dst = marshal_uint64 dst (metric_group_id t);
         dst = marshal_uint32 dst (job_id t);
         dst = marshal_uint32 dst (instance_id t)
     in marshal_uint64 dst (metric_id t))"

datatype tsid_err = TooShortTsid nat

definition tsid_unmarshal :: "bytes \<Rightarrow> (tsid_err, Tsid \<times> bytes) res" where
  "tsid_unmarshal src =
    (if length src < MARSHALED_TSID_SIZE then Inl (Err (TooShortTsid (length src)))
     else
       rbind (or_panic (unmarshal_uint64 src)) (\<lambda>g. let src = drop 8 src in
       rbind (or_panic (unmarshal_uint32 src)) (\<lambda>j. let src = drop 4 src in
       rbind (or_panic (unmarshal_uint32 src)) (\<lambda>i. let src = drop 4 src in
       rbind (or_panic (unmarshal_uint64 src)) (\<lambda>m. Inr (Tsid g j i m, drop 8 src))))))"

definition tsid_less :: "Tsid \<Rightarrow> Tsid \<Rightarrow> bool" where "tsid_less t u \<longleftrightarrow> t < u"

text \<open>The heap of \<open>Reverse((tsid, list_idx, elem_idx))\<close>.\<close>

type_synonym tsid_heap = "(Tsid \<times> nat \<times> nat) list"

definition heap_push :: "'a \<Rightarrow> 'a list \<Rightarrow> 'a list" where "heap_push x h = x # h"

definition heap_pop :: "'a::linorder list \<Rightarrow> ('a \<times> 'a list) option" where
  "heap_pop h = (if h = [] then None else let x = Min (set h) in Some (x, remove1 x h))"

fun tsid_heap_init :: "nat \<Rightarrow> Tsid list list \<Rightarrow> tsid_heap \<Rightarrow> tsid_heap" where
  "tsid_heap_init list_idx [] heap = heap"
| "tsid_heap_init list_idx (tsids # rest) heap =
    tsid_heap_init (list_idx + 1) rest
      (if tsids \<noteq> [] then heap_push (tsids ! 0, list_idx, 0) heap else heap)"

definition pending :: "Tsid list list \<Rightarrow> Tsid \<times> nat \<times> nat \<Rightarrow> nat" where
  "pending tsidss e = (case e of (_, l, i) \<Rightarrow> Suc (length (tsidss ! l) - i))"

lemma heap_pop_SomeD:
  assumes "heap_pop h = Some (x, h')"
  shows "x \<in> set h" "h' = remove1 x h" "\<And>y. y \<in> set h \<Longrightarrow> x \<le> y"
  using assms by (auto simp: heap_pop_def Let_def split: if_splits)

lemma pending_pop:
  "heap_pop h = Some (x, h') \<Longrightarrow> sum_list (map (pending s) h) = pending s x + sum_list (map (pending s) h')"
  using sum_list_map_remove1 [of x h "pending s"] heap_pop_SomeD [of h x h'] by simp

function merge_tsids_loop :: "Tsid list list \<Rightarrow> tsid_heap \<Rightarrow> Tsid list \<Rightarrow> Tsid list" where
  "merge_tsids_loop tsidss heap all =
    (case heap_pop heap of
       None \<Rightarrow> all
     | Some ((tsid, list_idx, elem_idx), heap) \<Rightarrow>
       let all = (if all = [] \<or> last all \<noteq> tsid then all @ [tsid] else all);
           next_idx = elem_idx + 1;
           heap = (if next_idx < length (tsidss ! list_idx)
                   then heap_push (tsidss ! list_idx ! next_idx, list_idx, next_idx) heap else heap)
       in merge_tsids_loop tsidss heap all)"
  by pat_completeness auto
termination
  by (relation "measure (\<lambda>(s, h, _). sum_list (map (pending s) h))")
    (auto simp: heap_push_def pending_pop pending_def)

declare merge_tsids_loop.simps [simp del]

definition merge_sorted_tsids :: "Tsid list list \<Rightarrow> Tsid list" where
  "merge_sorted_tsids tsidss = merge_tsids_loop tsidss (tsid_heap_init 0 tsidss []) []"

definition tsid_enc :: "Tsid \<Rightarrow> bytes" where
  "tsid_enc t = to_be_bytes (metric_group_id t) @ to_be_bytes (job_id t) @ to_be_bytes (instance_id t)
     @ to_be_bytes (metric_id t)"

definition heap_ok :: "Tsid list list \<Rightarrow> tsid_heap \<Rightarrow> bool" where
  "heap_ok s h \<longleftrightarrow> list_all (\<lambda>(t, l, i). l < length s \<and> i < length (s ! l) \<and> t = s ! l ! i) h"

definition remaining :: "Tsid list list \<Rightarrow> tsid_heap \<Rightarrow> Tsid set" where
  "remaining s h = (\<Union>(t, l, i) \<in> set h. set (drop i (s ! l)))"

section \<open>Encoding\<close>

lemma tsid_marshal_append [reader_simps]: "tsid_marshal t dst = dst @ tsid_enc t"
  by (simp add: tsid_marshal_def tsid_enc_def marshal_append)

lemma length_tsid_enc [simp]: "length (tsid_enc t) = MARSHALED_TSID_SIZE"
  by (simp add: tsid_enc_def MARSHALED_TSID_SIZE_def)

text \<open>Fixed-width readers in front of their encoding.\<close>

lemma unmarshal_fixed [reader_simps]:
  "unmarshal_uint16 (to_be_bytes v16 @ t) = Some v16"
  "unmarshal_uint32 (to_be_bytes v32 @ t) = Some v32"
  "unmarshal_uint64 (to_be_bytes v64 @ t) = Some v64"
  by (simp_all add: unmarshal_uint16_def unmarshal_uint32_def unmarshal_uint64_def from_be_to_be_bytes)

lemma drop_fixed [reader_simps]:
  "drop 2 (to_be_bytes (v16 :: u16) @ t) = t"
  "drop 4 (to_be_bytes (v32 :: u32) @ t) = t"
  "drop 8 (to_be_bytes (v64 :: u64) @ t) = t"
  by simp_all

lemma tsid_unmarshal_enc [reader_simps]: "tsid_unmarshal (tsid_enc t @ rest) = Inr (t, rest)"
  by (cases t) (simp add: tsid_unmarshal_def tsid_enc_def reader_simps MARSHALED_TSID_SIZE_def)

interpretation tsid_codec: prefix_codec tsid_enc tsid_unmarshal "\<lambda>_. True"
  by unfold_locales (rule tsid_unmarshal_enc)

section \<open>The order of the encodings\<close>

text \<open>Big-endian encodings compare as the numbers they encode.\<close>

lemma lex_append:
  fixes a b c d :: "'a::linorder list"
  assumes "length a = length b"
  shows "a @ c < b @ d \<longleftrightarrow> a < b \<or> a = b \<and> c < d"
  using assms by (induction a b rule: list_induct2) auto

lemma digits_less:
  fixes u v :: "'a::len word"
  shows "map (\<lambda>k. ucast (drop_bit (8 * k) u) :: u8) (rev [0..<n]) < map (\<lambda>k. ucast (drop_bit (8 * k) v)) (rev [0..<n])
    \<longleftrightarrow> unat u mod 256 ^ n < unat v mod 256 ^ n"
proof (induction n)
  case (Suc n)
  have d: "unat (ucast (drop_bit (8 * n) w) :: u8) = unat w div 256 ^ n mod 256" for w :: "'a word"
    by (simp add: unsigned_ucast_eq unat_drop_bit take_bit_eq_mod power_mult)
  have m: "unat w mod 256 ^ Suc n = 256 ^ n * (unat w div 256 ^ n mod 256) + unat w mod 256 ^ n" for w :: "'a word"
    using mod_mult2_eq [of "unat w" "256 ^ n" 256] by (simp add: mult.commute)
  have l: "(q * a + r < q * b + s) = (a < b \<or> a = b \<and> r < s)" if "r < q" "s < q" for q a b r s :: nat
  proof (cases a b rule: linorder_cases)
    case less
    then have "q * a + q \<le> q * b" by (metis Suc_leI mult_Suc_right mult_le_mono2 add.commute)
    then show ?thesis using less that by simp
  next
    case greater
    then have "q * b + q \<le> q * a" by (metis Suc_leI mult_Suc_right mult_le_mono2 add.commute)
    then show ?thesis using greater that by simp
  qed simp
  have "(ucast (drop_bit (8 * n) u) :: u8) < ucast (drop_bit (8 * n) v)
      \<longleftrightarrow> unat u div 256 ^ n mod 256 < unat v div 256 ^ n mod 256"
    "(ucast (drop_bit (8 * n) u) :: u8) = ucast (drop_bit (8 * n) v)
      \<longleftrightarrow> unat u div 256 ^ n mod 256 = unat v div 256 ^ n mod 256"
    by (simp_all only: word_less_nat_alt word_unat_eq_iff d)
  then show ?case unfolding m using l [of "unat u mod 256 ^ n" "256 ^ n" "unat v mod 256 ^ n"] Suc by simp
qed simp

lemma to_be_bytes_less:
  assumes "8 dvd LENGTH('a)"
  shows "to_be_bytes (u :: 'a::len word) < to_be_bytes v \<longleftrightarrow> u < v"
proof -
  have "(256 :: nat) ^ (LENGTH('a) div 8) = 2 ^ LENGTH('a)" using assms by (auto simp: power_mult elim!: dvdE)
  then show ?thesis using digits_less [of u "LENGTH('a) div 8" v]
    by (simp add: to_be_bytes_def word_less_nat_alt mod_less unsigned_less)
qed

lemma to_be_bytes_inj: "8 dvd LENGTH('a) \<Longrightarrow> to_be_bytes (u :: 'a::len word) = to_be_bytes v \<longleftrightarrow> u = v"
  by (metis from_be_to_be_bytes)

lemma tsid_enc_less: "tsid_enc t < tsid_enc u \<longleftrightarrow> t < u"
  by (cases t; cases u) (auto simp: tsid_enc_def less_Tsid_def lex_append to_be_bytes_less to_be_bytes_inj)

section \<open>Merging\<close>

lemma heap_ok_remove1: "heap_ok s h \<Longrightarrow> heap_ok s (remove1 x h)"
  by (auto simp: heap_ok_def list_all_iff dest: notin_set_remove1 set_mp [OF set_remove1_subset])

lemma remaining_remove1:
  "(t, l, i) \<in> set h \<Longrightarrow> remaining s h = set (drop i (s ! l)) \<union> remaining s (remove1 (t, l, i) h)"
  by (induction h) (auto simp: remaining_def)

lemma remaining_ge:
  assumes "list_all sorted s" "heap_ok s h" "\<And>e. e \<in> set h \<Longrightarrow> t \<le> fst e" "x \<in> remaining s h"
  shows "t \<le> x"
proof -
  obtain u l i where e: "(u, l, i) \<in> set h" "x \<in> set (drop i (s ! l))" using assms(4) by (auto simp: remaining_def)
  have o: "l < length s" "i < length (s ! l)" "u = s ! l ! i" using assms(2) e(1) by (auto simp: heap_ok_def list_all_iff)
  have "sorted (s ! l)" using assms(1) o(1) by (simp add: list_all_iff)
  then have "u \<le> x" using e(2) o by (auto simp: in_set_conv_nth intro: sorted_nth_mono)
  then show ?thesis using assms(3) [OF e(1)] by simp
qed

text \<open>Emitting \<open>t\<close> unless it was emitted last.\<close>

lemma emit_sorted:
  fixes t :: "'a::linorder"
  assumes "sorted_wrt (<) a" "\<And>x. x \<in> set a \<Longrightarrow> x \<le> t"
  shows "sorted_wrt (<) (if a = [] \<or> last a \<noteq> t then a @ [t] else a)"
    "set (if a = [] \<or> last a \<noteq> t then a @ [t] else a) = insert t (set a)"
proof -
  have "x < t" if "x \<in> set a" "last a \<noteq> t" for x
  proof -
    have "a \<noteq> []" using that(1) by auto
    then obtain b y where a: "a = b @ [y]" by (metis rev_exhaust)
    then have "y < t" using assms(2) [of y] that(2) by simp
    moreover have "x \<le> y" using assms(1) that(1) by (auto simp: a sorted_wrt_append)
    ultimately show ?thesis by simp
  qed
  then show "sorted_wrt (<) (if a = [] \<or> last a \<noteq> t then a @ [t] else a)"
    using assms(1) by (auto simp: sorted_wrt_append)
  show "set (if a = [] \<or> last a \<noteq> t then a @ [t] else a) = insert t (set a)"
    by (auto intro: last_in_set)
qed

text \<open>What is emitted so far is strictly increasing and below everything that is left.\<close>

lemma merge_tsids_loop_correct:
  "list_all sorted s \<Longrightarrow> heap_ok s h \<Longrightarrow> sorted_wrt (<) a \<Longrightarrow>
    (\<And>x y. x \<in> set a \<Longrightarrow> y \<in> remaining s h \<Longrightarrow> x \<le> y) \<Longrightarrow>
    sorted_wrt (<) (merge_tsids_loop s h a) \<and> set (merge_tsids_loop s h a) = set a \<union> remaining s h"
proof (induction s h a rule: merge_tsids_loop.induct)
  case (1 s h a)
  show ?case
  proof (cases "heap_pop h")
    case None
    then have "h = []" by (simp add: heap_pop_def Let_def split: if_splits)
    moreover have "merge_tsids_loop s h a = a" by (subst merge_tsids_loop.simps) (simp add: None)
    ultimately show ?thesis using 1(4) by (simp add: remaining_def)
  next
    case (Some p)
    obtain t l i h' where p: "p = ((t, l, i), h')" by (metis prod_cases3 surj_pair)
    note P = heap_pop_SomeD [OF Some [unfolded p]]
    define b where "b = (if a = [] \<or> last a \<noteq> t then a @ [t] else a)"
    define k where "k = (if i + 1 < length (s ! l) then heap_push (s ! l ! (i + 1), l, i + 1) h' else h')"
    have e: "merge_tsids_loop s h a = merge_tsids_loop s k b"
      by (subst merge_tsids_loop.simps) (simp add: Some p b_def k_def Let_def)
    have o: "l < length s" "i < length (s ! l)" "t = s ! l ! i" "heap_ok s h'"
      using 1(3) P heap_ok_remove1 [of s h] by (auto simp: heap_ok_def list_all_iff)
    have d: "drop i (s ! l) = t # drop (i + 1) (s ! l)" using o by (simp add: Cons_nth_drop_Suc)
    have r: "remaining s h = insert t (remaining s k)"
      using remaining_remove1 [OF P(1), of s] unfolding P(2) [symmetric] d
      by (auto simp: k_def heap_push_def remaining_def)
    have "t \<le> fst x" if "x \<in> set h" for x using P(3) [OF that] by (cases x) auto
    then have ge: "t \<le> x" if "x \<in> remaining s h" for x using remaining_ge [OF 1(2,3)] that by blast
    have at: "x \<le> t" if "x \<in> set a" for x using 1(5) [OF that] r by simp
    note B = emit_sorted [OF 1(4) at, folded b_def]
    have "heap_ok s k" using o by (simp add: k_def heap_push_def heap_ok_def)
    moreover have "x \<le> y" if "x \<in> set b" "y \<in> remaining s k" for x y
      using that(1) B(2) at ge [of y] r that(2) by (metis insert_iff order_trans)
    ultimately have "sorted_wrt (<) (merge_tsids_loop s k b) \<and> set (merge_tsids_loop s k b) = set b \<union> remaining s k"
      using 1(1) [OF Some p [symmetric] refl refl b_def refl k_def 1(2)] B(1) by blast
    then show ?thesis using e B(2) r by auto
  qed
qed

lemma tsid_heap_init_correct:
  "list_all (\<lambda>(t, l, i). l < n \<and> i < length (s ! l) \<and> t = s ! l ! i) h \<Longrightarrow> drop n s = r \<Longrightarrow> n \<le> length s \<Longrightarrow>
   heap_ok s (tsid_heap_init n r h) \<and> remaining s (tsid_heap_init n r h) = remaining s h \<union> \<Union> (set ` set r)"
proof (induction r arbitrary: n h)
  case Nil
  then show ?case by (auto simp: heap_ok_def list_all_iff)
next
  case (Cons x r)
  have n: "n < length s" using Cons.prems(2) by (metis drop_all list.discI not_less)
  then have x: "s ! n = x" "drop (n + 1) s = r" using Cons.prems(2) by (auto simp: Cons_nth_drop_Suc [symmetric])
  let ?h = "if x \<noteq> [] then heap_push (x ! 0, n, 0) h else h"
  have "list_all (\<lambda>(t, l, i). l < n + 1 \<and> i < length (s ! l) \<and> t = s ! l ! i) ?h"
    using Cons.prems(1) x by (auto simp: heap_push_def list_all_iff less_SucI)
  from Cons.IH [OF this x(2)] n show ?case by (auto simp: remaining_def heap_push_def x)
qed

section \<open>Properties\<close>

text \<open>
  Merging sorted lists of series identifiers yields the strictly increasing list of all
  identifiers that occur in them, each once.\<close>

theorem merge_sorted_tsids_correct:
  assumes "list_all sorted tsidss"
  shows "merge_sorted_tsids tsidss = sorted_list_of_set (\<Union> (set ` set tsidss))"
proof -
  let ?h = "tsid_heap_init 0 tsidss []"
  have "heap_ok tsidss ?h" "remaining tsidss ?h = \<Union> (set ` set tsidss)"
    using tsid_heap_init_correct [of 0 tsidss "[]" tsidss] by (simp_all add: remaining_def)
  then have "sorted_wrt (<) (merge_sorted_tsids tsidss)" "set (merge_sorted_tsids tsidss) = \<Union> (set ` set tsidss)"
    using merge_tsids_loop_correct [OF assms, of ?h "[]"] by (simp_all add: merge_sorted_tsids_def)
  then show ?thesis by (metis sorted_list_of_set.idem_if_sorted_distinct strict_sorted_iff)
qed

theorem merge_sorted_tsids_witness:
  "merge_sorted_tsids [[Tsid 0 0 0 1, Tsid 0 0 0 3], [], [Tsid 0 0 0 1, Tsid 0 0 1 0]] =
   [Tsid 0 0 0 1, Tsid 0 0 0 3, Tsid 0 0 1 0]"
proof -
  have s: "list_all sorted [[Tsid 0 0 0 1, Tsid 0 0 0 3], [], [Tsid 0 0 0 1, Tsid 0 0 1 0]]"
    by (simp add: less_eq_Tsid_def)
  have "\<Union> (set ` set [[Tsid 0 0 0 1, Tsid 0 0 0 3], [], [Tsid 0 0 0 1, Tsid 0 0 1 0]]) =
    set [Tsid 0 0 0 1, Tsid 0 0 0 3, Tsid 0 0 1 0]" by auto
  moreover have "sorted_wrt (<) [Tsid 0 0 0 1, Tsid 0 0 0 3, Tsid 0 0 1 0]" by (simp add: less_Tsid_def)
  ultimately show ?thesis using merge_sorted_tsids_correct [OF s]
    by (metis sorted_list_of_set.idem_if_sorted_distinct strict_sorted_iff)
qed

text \<open>
  An encoded series identifier is read back in front of any following bytes, and encodings
  compare as byte strings exactly as the identifiers do, so that sorting stored keys sorts
  series.\<close>

theorem tsid_encoding_ordered:
  "tsid_unmarshal (tsid_marshal t [] @ rest) = Inr (t, rest) \<and>
   (tsid_marshal t [] < tsid_marshal u [] \<longleftrightarrow> tsid_less t u)"
  by (simp add: tsid_marshal_append tsid_unmarshal_enc tsid_enc_less tsid_less_def)

end
