(* ===== verification/Storage_Headers.thy ===== *)
theory Storage_Headers
  imports Tsid Block_Encoding
begin

text \<open>
  The index of a part of samples: headers of blocks (\<open>crates/esm-storage/src/block_header.rs\<close>) with
  their fixed-size and their portable encoding, and the rows of the metaindex
  (\<open>metaindex_row.rs\<close>), each pointing to a group of headers.

  A decoder writes the fields of the header it is called on. The fixed-size decoders write all of
  them and return the header; the portable one is given the header whose other fields it keeps.
\<close>

section \<open>Block headers\<close>

definition MAX_ROWS_PER_BLOCK :: nat where "MAX_ROWS_PER_BLOCK = 8 * 1024"

definition MAX_BLOCK_SIZE :: nat where "MAX_BLOCK_SIZE = 8 * MAX_ROWS_PER_BLOCK"

definition MARSHALED_BLOCK_HEADER_SIZE :: nat where "MARSHALED_BLOCK_HEADER_SIZE = 81"

record BlockHeader =
  sbh_tsid :: Tsid
  sbh_min_timestamp :: i64
  sbh_max_timestamp :: i64
  sbh_first_value :: i64
  sbh_timestamps_block_offset :: u64
  sbh_values_block_offset :: u64
  sbh_timestamps_block_size :: u32
  sbh_values_block_size :: u32
  sbh_rows_count :: u32
  sbh_scale :: i16
  sbh_timestamps_marshal_type :: u8
  sbh_values_marshal_type :: u8
  sbh_precision_bits :: u8

definition sbh_default :: BlockHeader where
  "sbh_default = \<lparr>sbh_tsid = tsid_default, sbh_min_timestamp = 0, sbh_max_timestamp = 0, sbh_first_value = 0,
     sbh_timestamps_block_offset = 0, sbh_values_block_offset = 0, sbh_timestamps_block_size = 0,
     sbh_values_block_size = 0, sbh_rows_count = 0, sbh_scale = 0, sbh_timestamps_marshal_type = 0,
     sbh_values_marshal_type = 0, sbh_precision_bits = 0\<rparr>"

definition sbh_less :: "BlockHeader \<Rightarrow> BlockHeader \<Rightarrow> bool" where
  "sbh_less a b =
    (if metric_id (sbh_tsid a) = metric_id (sbh_tsid b) then sbh_min_timestamp a <s sbh_min_timestamp b
     else sbh_tsid a < sbh_tsid b)"

definition sbh_marshal :: "BlockHeader \<Rightarrow> bytes \<Rightarrow> bytes" where
  "sbh_marshal bh dst =
    (let dst = tsid_marshal (sbh_tsid bh) dst;
         dst = marshal_int64 dst (sbh_min_timestamp bh);
         dst = marshal_int64 dst (sbh_max_timestamp bh);
         dst = marshal_int64 dst (sbh_first_value bh);
         dst = marshal_uint64 dst (sbh_timestamps_block_offset bh);
         dst = marshal_uint64 dst (sbh_values_block_offset bh);
         dst = marshal_uint32 dst (sbh_timestamps_block_size bh);
         dst = marshal_uint32 dst (sbh_values_block_size bh);
         dst = marshal_uint32 dst (sbh_rows_count bh);
         dst = marshal_int16 dst (sbh_scale bh)
     in dst @ [sbh_timestamps_marshal_type bh, sbh_values_marshal_type bh, sbh_precision_bits bh])"

datatype sbh_err =
    TooShortHeader nat
  | BadTsid tsid_err
  | ZeroRowsCount
  | TooBigRowsCount u32
  | BadTimestampsMarshalType u8
  | BadValuesMarshalType u8
  | BadPrecisionBits u8
  | TooBigTimestampsBlock u32
  | TooBigValuesBlock u32
  | BadFirstTimestampVarint
  | BadMaxTimestampVarint
  | BadFirstValueVarint
  | BadRowsCountVarint
  | TooBigRowsCountVarint u64
  | BadScaleVarint
  | TooSmallScale i64
  | TooBigScale i64
  | NoMarshalTypes nat
  | CannotUnmarshalHeader sbh_err
  | BadHeadersCount nat nat
  | UnsortedHeaders

definition sbh_validate :: "BlockHeader \<Rightarrow> (sbh_err, unit) res" where
  "sbh_validate bh =
    (if sbh_rows_count bh = 0 then Inl (Err ZeroRowsCount)
     else if unat (sbh_rows_count bh) > 2 * MAX_ROWS_PER_BLOCK then Inl (Err (TooBigRowsCount (sbh_rows_count bh)))
     else if \<not> check_marshal_type (sbh_timestamps_marshal_type bh)
       then Inl (Err (BadTimestampsMarshalType (sbh_timestamps_marshal_type bh)))
     else if \<not> check_marshal_type (sbh_values_marshal_type bh)
       then Inl (Err (BadValuesMarshalType (sbh_values_marshal_type bh)))
     else if \<not> check_precision_bits (unat (sbh_precision_bits bh)) then Inl (Err (BadPrecisionBits (sbh_precision_bits bh)))
     else if unat (sbh_timestamps_block_size bh) > 2 * MAX_BLOCK_SIZE
       then Inl (Err (TooBigTimestampsBlock (sbh_timestamps_block_size bh)))
     else if unat (sbh_values_block_size bh) > 2 * MAX_BLOCK_SIZE
       then Inl (Err (TooBigValuesBlock (sbh_values_block_size bh)))
     else Inr ())"

text \<open>\<open>encoding::unmarshal_X(src); let src = &src[n..]\<close>.\<close>

definition read_fixed :: "nat \<Rightarrow> (bytes \<Rightarrow> 'a option) \<Rightarrow> bytes \<Rightarrow> ('e, 'a \<times> bytes) res" where
  "read_fixed n f src = rbind (or_panic (f src)) (\<lambda>v. Inr (v, drop n src))"

definition sbh_unmarshal :: "bytes \<Rightarrow> (sbh_err, BlockHeader \<times> bytes) res" where
  "sbh_unmarshal src =
    (if length src < MARSHALED_BLOCK_HEADER_SIZE then Inl (Err (TooShortHeader (length src)))
     else
       rbind (map_err BadTsid (tsid_unmarshal src)) (\<lambda>(tsid, src).
       rbind (read_fixed 8 unmarshal_int64 src) (\<lambda>(mint, src).
       rbind (read_fixed 8 unmarshal_int64 src) (\<lambda>(maxt, src).
       rbind (read_fixed 8 unmarshal_int64 src) (\<lambda>(fv, src).
       rbind (read_fixed 8 unmarshal_uint64 src) (\<lambda>(tbo, src).
       rbind (read_fixed 8 unmarshal_uint64 src) (\<lambda>(vbo, src).
       rbind (read_fixed 4 unmarshal_uint32 src) (\<lambda>(tbs, src).
       rbind (read_fixed 4 unmarshal_uint32 src) (\<lambda>(vbs, src).
       rbind (read_fixed 4 unmarshal_uint32 src) (\<lambda>(rc, src).
       rbind (read_fixed 2 unmarshal_int16 src) (\<lambda>(sc, src).
       if length src < 3 then Inl Panic
       else
         let bh = \<lparr>sbh_tsid = tsid, sbh_min_timestamp = mint, sbh_max_timestamp = maxt, sbh_first_value = fv,
               sbh_timestamps_block_offset = tbo, sbh_values_block_offset = vbo, sbh_timestamps_block_size = tbs,
               sbh_values_block_size = vbs, sbh_rows_count = rc, sbh_scale = sc,
               sbh_timestamps_marshal_type = src ! 0, sbh_values_marshal_type = src ! 1,
               sbh_precision_bits = src ! 2\<rparr>;
             src = drop 3 src
         in rbind (sbh_validate bh) (\<lambda>_. Inr (bh, src)))))))))))))"

definition sbh_marshal_portable :: "BlockHeader \<Rightarrow> bytes \<Rightarrow> bytes" where
  "sbh_marshal_portable bh dst =
    (let dst = marshal_var_int64 dst (sbh_min_timestamp bh);
         dst = marshal_var_int64 dst (sbh_max_timestamp bh);
         dst = marshal_var_int64 dst (sbh_first_value bh);
         dst = marshal_var_uint64 dst (ucast (sbh_rows_count bh));
         dst = marshal_var_int64 dst (scast (sbh_scale bh))
     in dst @ [sbh_timestamps_marshal_type bh, sbh_values_marshal_type bh, sbh_precision_bits bh])"

text \<open>\<open>let (v, n) = unmarshal_var_X(src).ok_or(e)?; let src = &src[n..]\<close>.\<close>

definition read_var :: "'e \<Rightarrow> (bytes \<Rightarrow> ('a \<times> nat) option) \<Rightarrow> bytes \<Rightarrow> ('e, 'a \<times> bytes) res" where
  "read_var e f src = rbind (ok_or e (f src)) (\<lambda>(v, n). Inr (v, drop n src))"

definition sbh_unmarshal_portable :: "BlockHeader \<Rightarrow> bytes \<Rightarrow> (sbh_err, BlockHeader \<times> bytes) res" where
  "sbh_unmarshal_portable bh src =
    rbind (read_var BadFirstTimestampVarint unmarshal_var_int64 src) (\<lambda>(mint, src).
    rbind (read_var BadMaxTimestampVarint unmarshal_var_int64 src) (\<lambda>(maxt, src).
    rbind (read_var BadFirstValueVarint unmarshal_var_int64 src) (\<lambda>(fv, src).
    rbind (read_var BadRowsCountVarint unmarshal_var_uint64 src) (\<lambda>(rc, src).
    if unat rc > 2 ^ 32 - 1 then Inl (Err (TooBigRowsCountVarint rc))
    else
      rbind (read_var BadScaleVarint unmarshal_var_int64 src) (\<lambda>(sc, src).
      if sint sc < - (2 ^ 15) then Inl (Err (TooSmallScale sc))
      else if sint sc > 2 ^ 15 - 1 then Inl (Err (TooBigScale sc))
      else if length src < 3 then Inl (Err (NoMarshalTypes (length src)))
      else Inr (bh\<lparr>sbh_min_timestamp := mint, sbh_max_timestamp := maxt, sbh_first_value := fv,
          sbh_rows_count := ucast rc, sbh_scale := ucast sc, sbh_timestamps_marshal_type := src ! 0,
          sbh_values_marshal_type := src ! 1, sbh_precision_bits := src ! 2\<rparr>, drop 3 src))))))"

text \<open>\<open>slice::is_sorted_by\<close>.\<close>

fun is_sorted_by :: "('a \<Rightarrow> 'a \<Rightarrow> bool) \<Rightarrow> 'a list \<Rightarrow> bool" where
  "is_sorted_by P (x # y # xs) \<longleftrightarrow> P x y \<and> is_sorted_by P (y # xs)"
| "is_sorted_by P _ \<longleftrightarrow> True"

lemma read_fixed_shrinks: "read_fixed n f src = Inr (v, t) \<Longrightarrow> length t \<le> length src"
  by (auto simp: read_fixed_def rbind_eq_Inr)

lemma tsid_unmarshal_shrinks: "tsid_unmarshal src = Inr (t, r) \<Longrightarrow> length r < length src"
  by (auto simp: tsid_unmarshal_def rbind_eq_Inr Let_def MARSHALED_TSID_SIZE_def split: if_splits)

lemma sbh_unmarshal_shrinks: "sbh_unmarshal src = Inr (bh, t) \<Longrightarrow> length t < length src"
  by (auto simp: sbh_unmarshal_def rbind_eq_Inr Let_def split: if_splits
      dest!: read_fixed_shrinks tsid_unmarshal_shrinks)

text \<open>The loop ends because every header consumes input.\<close>

function sbh_loop :: "BlockHeader list \<Rightarrow> bytes \<Rightarrow> (sbh_err, BlockHeader list) res" where
  "sbh_loop dst src =
    (if src = [] then Inr dst
     else case sbh_unmarshal src of
       Inl Panic \<Rightarrow> Inl Panic
     | Inl (Err e) \<Rightarrow> Inl (Err (CannotUnmarshalHeader e))
     | Inr (bh, src') \<Rightarrow> sbh_loop (dst @ [bh]) src')"
  by pat_completeness auto
termination
  by (relation "measure (\<lambda>(dst, src). length src)") (auto dest: sbh_unmarshal_shrinks)

declare sbh_loop.simps [simp del]

definition sbh_unmarshal_block_headers ::
  "BlockHeader list \<Rightarrow> bytes \<Rightarrow> nat \<Rightarrow> (sbh_err, BlockHeader list) res" where
  "sbh_unmarshal_block_headers dst src block_headers_count =
    (if block_headers_count = 0 then Inl Panic
     else rbind (sbh_loop dst src) (\<lambda>dst'.
       let new_bhs = drop (length dst) dst' in
       if length new_bhs \<noteq> block_headers_count then Inl (Err (BadHeadersCount (length new_bhs) block_headers_count))
       else if \<not> is_sorted_by (\<lambda>a b. sbh_tsid a \<le> sbh_tsid b) new_bhs then Inl (Err UnsortedHeaders)
       else Inr dst'))"

section \<open>Metaindex rows\<close>

definition MARSHALED_METAINDEX_ROW_SIZE :: nat where "MARSHALED_METAINDEX_ROW_SIZE = 56"

record MetaindexRow =
  smr_tsid :: Tsid
  smr_min_timestamp :: i64
  smr_max_timestamp :: i64
  smr_index_block_offset :: u64
  smr_block_headers_count :: u32
  smr_index_block_size :: u32

definition smr_default :: MetaindexRow where
  "smr_default = \<lparr>smr_tsid = tsid_default, smr_min_timestamp = 2 ^ 63 - 1, smr_max_timestamp = - (2 ^ 63),
     smr_index_block_offset = 0, smr_block_headers_count = 0, smr_index_block_size = 0\<rparr>"

definition smr_reset :: "MetaindexRow \<Rightarrow> MetaindexRow" where
  "smr_reset mr = smr_default"

definition register_block_header :: "MetaindexRow \<Rightarrow> BlockHeader \<Rightarrow> MetaindexRow" where
  "register_block_header mr bh =
    (let mr = mr\<lparr>smr_block_headers_count := smr_block_headers_count mr + 1\<rparr> in
     if smr_block_headers_count mr = 1 then
       mr\<lparr>smr_tsid := sbh_tsid bh, smr_min_timestamp := sbh_min_timestamp bh, smr_max_timestamp := sbh_max_timestamp bh\<rparr>
     else
       let mr = (if sbh_min_timestamp bh <s smr_min_timestamp mr
                 then mr\<lparr>smr_min_timestamp := sbh_min_timestamp bh\<rparr> else mr)
       in if smr_max_timestamp mr <s sbh_max_timestamp bh
          then mr\<lparr>smr_max_timestamp := sbh_max_timestamp bh\<rparr> else mr)"

definition smr_marshal :: "MetaindexRow \<Rightarrow> bytes \<Rightarrow> bytes" where
  "smr_marshal mr dst =
    (let dst = tsid_marshal (smr_tsid mr) dst;
         dst = marshal_uint32 dst (smr_block_headers_count mr);
         dst = marshal_int64 dst (smr_min_timestamp mr);
         dst = marshal_int64 dst (smr_max_timestamp mr);
         dst = marshal_uint64 dst (smr_index_block_offset mr)
     in marshal_uint32 dst (smr_index_block_size mr))"

datatype smr_err =
    TooShortRow nat
  | BadRowTsid tsid_err
  | ZeroHeadersCount
  | TooBigIndexBlockSize u32
  | MetaindexDecompress zstd_err
  | BadMetaindexRow nat smr_err
  | NoMetaindexRows
  | UnsortedRows

definition smr_unmarshal :: "bytes \<Rightarrow> (smr_err, MetaindexRow \<times> bytes) res" where
  "smr_unmarshal src =
    (if length src < MARSHALED_METAINDEX_ROW_SIZE then Inl (Err (TooShortRow (length src)))
     else
       rbind (map_err BadRowTsid (tsid_unmarshal src)) (\<lambda>(tsid, src).
       rbind (read_fixed 4 unmarshal_uint32 src) (\<lambda>(bhc, src).
       rbind (read_fixed 8 unmarshal_int64 src) (\<lambda>(mint, src).
       rbind (read_fixed 8 unmarshal_int64 src) (\<lambda>(maxt, src).
       rbind (read_fixed 8 unmarshal_uint64 src) (\<lambda>(ibo, src).
       rbind (read_fixed 4 unmarshal_uint32 src) (\<lambda>(ibs, src).
       if bhc = 0 then Inl (Err ZeroHeadersCount)
       else if unat ibs > 2 * MAX_BLOCK_SIZE then Inl (Err (TooBigIndexBlockSize ibs))
       else Inr (\<lparr>smr_tsid = tsid, smr_min_timestamp = mint, smr_max_timestamp = maxt, smr_index_block_offset = ibo,
              smr_block_headers_count = bhc, smr_index_block_size = ibs\<rparr>, src))))))))"

lemma smr_unmarshal_shrinks: "smr_unmarshal src = Inr (mr, t) \<Longrightarrow> length t < length src"
  by (auto simp: smr_unmarshal_def rbind_eq_Inr Let_def split: if_splits
      dest!: read_fixed_shrinks tsid_unmarshal_shrinks)

function smr_loop :: "MetaindexRow list \<Rightarrow> bytes \<Rightarrow> (smr_err, MetaindexRow list) res" where
  "smr_loop dst src =
    (if src = [] then Inr dst
     else case smr_unmarshal src of
       Inl Panic \<Rightarrow> Inl Panic
     | Inl (Err e) \<Rightarrow> Inl (Err (BadMetaindexRow (length dst) e))
     | Inr (mr, src') \<Rightarrow> smr_loop (dst @ [mr]) src')"
  by pat_completeness auto
termination
  by (relation "measure (\<lambda>(dst, src). length src)") (auto dest: smr_unmarshal_shrinks)

declare smr_loop.simps [simp del]

definition smr_unmarshal_metaindex_rows :: "zstd_lib \<Rightarrow> bytes \<Rightarrow> (smr_err, MetaindexRow list) res" where
  "smr_unmarshal_metaindex_rows Z compressed_data =
    rbind (map_err MetaindexDecompress (decompress_zstd Z [] compressed_data)) (\<lambda>data.
    rbind (smr_loop [] data) (\<lambda>dst.
    if dst = [] then Inl (Err NoMetaindexRows)
    else if \<not> is_sorted_by (\<lambda>a b. smr_tsid a \<le> smr_tsid b) dst then Inl (Err UnsortedRows)
    else Inr dst))"


text \<open>What the decoders accept.\<close>

definition sbh_wf :: "BlockHeader \<Rightarrow> bool" where
  "sbh_wf bh \<longleftrightarrow> sbh_validate bh = Inr ()"

definition smr_wf :: "MetaindexRow \<Rightarrow> bool" where
  "smr_wf mr \<longleftrightarrow> smr_block_headers_count mr \<noteq> 0 \<and> unat (smr_index_block_size mr) \<le> 2 * MAX_BLOCK_SIZE"

text \<open>The fields the portable encoding carries.\<close>

definition portable_fields :: "BlockHeader \<Rightarrow> BlockHeader \<Rightarrow> BlockHeader" where
  "portable_fields bh src = bh\<lparr>sbh_min_timestamp := sbh_min_timestamp src, sbh_max_timestamp := sbh_max_timestamp src,
     sbh_first_value := sbh_first_value src, sbh_rows_count := sbh_rows_count src, sbh_scale := sbh_scale src,
     sbh_timestamps_marshal_type := sbh_timestamps_marshal_type src,
     sbh_values_marshal_type := sbh_values_marshal_type src, sbh_precision_bits := sbh_precision_bits src\<rparr>"

text \<open>A row summarises the headers registered since its reset.\<close>

definition row_summary :: "MetaindexRow \<Rightarrow> BlockHeader list \<Rightarrow> bool" where
  "row_summary mr bhs \<longleftrightarrow> unat (smr_block_headers_count mr) = length bhs \<and> (bhs \<noteq> [] \<longrightarrow>
     smr_tsid mr = sbh_tsid (hd bhs) \<and>
     sint (smr_min_timestamp mr) = Min (sint ` sbh_min_timestamp ` set bhs) \<and>
     sint (smr_max_timestamp mr) = Max (sint ` sbh_max_timestamp ` set bhs))"

text \<open>The fixed-width signed fields.\<close>

definition int64_enc :: "i64 \<Rightarrow> bytes" where "int64_enc v = marshal_int64 [] v"

definition int16_enc :: "i16 \<Rightarrow> bytes" where "int16_enc v = marshal_int16 [] v"

section \<open>Fields\<close>

lemma marshal_int_append [reader_simps]:
  "marshal_int64 dst v64 = dst @ int64_enc v64"
  "marshal_int16 dst v16 = dst @ int16_enc v16"
  by (simp_all add: marshal_int64_def marshal_int16_def int64_enc_def int16_enc_def marshal_append)

lemma length_int_enc [simp]: "length (int64_enc v64) = 8" "length (int16_enc v16) = 2"
  by (simp_all add: int64_enc_def int16_enc_def marshal_int64_def marshal_int16_def marshal_append)

lemma read_fixed_enc [reader_simps]:
  "read_fixed 8 unmarshal_int64 (int64_enc i @ t) = Inr (i, t)"
  "read_fixed 2 unmarshal_int16 (int16_enc j @ t) = Inr (j, t)"
  "read_fixed 4 unmarshal_uint32 (to_be_bytes v32 @ t) = Inr (v32, t)"
  "read_fixed 8 unmarshal_uint64 (to_be_bytes v64 @ t) = Inr (v64, t)"
  using int64_codec.dec_enc [of i t] int16_codec.dec_enc [of j t]
  by (auto simp: read_fixed_def int64_enc_def int16_enc_def fixed_def unmarshal_fixed split: option.splits)

lemma read_var_enc [reader_simps]:
  "read_var e unmarshal_var_int64 (marshal_var_int64 [] i @ t) = Inr (i, t)"
  "read_var e unmarshal_var_uint64 (marshal_var_uint64 [] u @ t) = Inr (u, t)"
  by (simp_all add: read_var_def var_int64_roundtrip var_uint64_roundtrip)

lemma sorted_by_key: "is_sorted_by (\<lambda>a b. (f a :: 'b::linorder) \<le> f b) xs \<longleftrightarrow> sorted (map f xs)"
  by (induction xs rule: induct_list012) (auto intro: order_trans)

section \<open>Headers\<close>

lemma sbh_marshal_append: "sbh_marshal bh dst = dst @ sbh_marshal bh []"
  by (simp add: sbh_marshal_def Let_def reader_simps)

lemma length_sbh_marshal [simp]: "length (sbh_marshal bh []) = MARSHALED_BLOCK_HEADER_SIZE"
  by (simp add: sbh_marshal_def Let_def reader_simps MARSHALED_BLOCK_HEADER_SIZE_def MARSHALED_TSID_SIZE_def)

interpretation sbh_codec: prefix_codec "\<lambda>bh. sbh_marshal bh []" sbh_unmarshal sbh_wf
proof
  fix bh :: BlockHeader and t
  assume wf: "sbh_wf bh"
  have "length (sbh_marshal bh [] @ t) \<ge> MARSHALED_BLOCK_HEADER_SIZE" by simp
  then show "sbh_unmarshal (sbh_marshal bh [] @ t) = Inr (bh, t)"
    using wf by (cases bh) (simp add: sbh_wf_def sbh_marshal_def sbh_unmarshal_def reader_simps)
qed

lemma sbh_unmarshal_wf: "sbh_unmarshal src = Inr (bh, t) \<Longrightarrow> sbh_wf bh"
  by (auto simp: sbh_unmarshal_def sbh_wf_def rbind_eq_Inr Let_def split: if_splits)

lemma sbh_loop_marshal:
  "list_all sbh_wf bhs \<Longrightarrow> sbh_loop dst (concat (map (\<lambda>bh. sbh_marshal bh []) bhs)) = Inr (dst @ bhs)"
proof (induction bhs arbitrary: dst)
  case Nil
  then show ?case by (simp add: sbh_loop.simps)
next
  case (Cons bh bhs)
  have "sbh_marshal bh [] \<noteq> []" using length_sbh_marshal [of bh] unfolding MARSHALED_BLOCK_HEADER_SIZE_def by fastforce
  then show ?case using Cons by (subst sbh_loop.simps) (simp add: sbh_codec.dec_enc)
qed

lemma sbh_loop_sound:
  "sbh_loop dst src = Inr dst' \<Longrightarrow> \<exists>new. dst' = dst @ new \<and> list_all sbh_wf new"
proof (induction dst src arbitrary: dst' rule: sbh_loop.induct)
  case (1 dst src)
  show ?case
  proof (cases "src = []")
    case True
    then show ?thesis using "1.prems" by (simp add: sbh_loop.simps)
  next
    case False
    then obtain bh t where u: "sbh_unmarshal src = Inr (bh, t)" "sbh_loop (dst @ [bh]) t = Inr dst'"
      using "1.prems" by (subst (asm) sbh_loop.simps) (auto split: sum.splits fault.splits prod.splits)
    from "1.IH" [OF False u(1) refl u(2)] sbh_unmarshal_wf [OF u(1)] show ?thesis by auto
  qed
qed

lemma sbh_marshal_portable_append:
  "sbh_marshal_portable bh dst = dst @ sbh_marshal_portable bh []"
  by (simp add: sbh_marshal_portable_def Let_def marshal_var_int64_eq marshal_var_uint64_def append_leb128)

lemma unat_bound_u32: "unat (r :: u32) < 2 ^ 32"
  using unsigned_less [of r, where ?'a = nat] by simp

lemma scale_casts:
  "sint (scast (s :: i16) :: i64) = sint s" "ucast (scast (s :: i16) :: i64) = s"
  "unat (ucast (r :: u32) :: u64) = unat r" "ucast (ucast (r :: u32) :: u64) = r"
proof -
  show "sint (scast (s :: i16) :: i64) = sint s" by (rule sint_up_scast) (simp add: is_up)
  show "ucast (scast (s :: i16) :: i64) = s" by (rule bit_word_eqI) (simp add: bit_simps)
  show "unat (ucast (r :: u32) :: u64) = unat r" using unat_bound_u32 [of r]
    by (simp add: unsigned_ucast_eq take_bit_nat_eq_self)
  show "ucast (ucast (r :: u32) :: u64) = r" by (rule bit_word_eqI) (simp add: bit_simps)
qed

lemma portable_roundtrip:
  "sbh_unmarshal_portable h (sbh_marshal_portable bh [] @ t) = Inr (portable_fields h bh, t)"
proof -
  have e: "sbh_marshal_portable bh [] @ t = marshal_var_int64 [] (sbh_min_timestamp bh) @
      marshal_var_int64 [] (sbh_max_timestamp bh) @ marshal_var_int64 [] (sbh_first_value bh) @
      marshal_var_uint64 [] (ucast (sbh_rows_count bh)) @ marshal_var_int64 [] (scast (sbh_scale bh)) @
      sbh_timestamps_marshal_type bh # sbh_values_marshal_type bh # sbh_precision_bits bh # t"
    by (simp add: sbh_marshal_portable_def Let_def marshal_var_int64_eq marshal_var_uint64_def append_leb128)
  have s: "- (2 ^ 15) \<le> sint (sbh_scale bh)" "sint (sbh_scale bh) \<le> 2 ^ 15 - 1"
    using sint_greater_eq [of "sbh_scale bh"] sint_less [of "sbh_scale bh"] by simp_all
  have r: "unat (sbh_rows_count bh) \<le> 2 ^ 32 - 1"
    using unat_bound_u32 [of "sbh_rows_count bh"] by simp
  show ?thesis using s r
    by (simp add: e sbh_unmarshal_portable_def reader_simps scale_casts portable_fields_def)
qed

section \<open>Metaindex rows\<close>

lemma smr_marshal_append: "smr_marshal mr dst = dst @ smr_marshal mr []"
  by (simp add: smr_marshal_def Let_def reader_simps)

lemma length_smr_marshal [simp]: "length (smr_marshal mr []) = MARSHALED_METAINDEX_ROW_SIZE"
  by (simp add: smr_marshal_def Let_def reader_simps MARSHALED_METAINDEX_ROW_SIZE_def MARSHALED_TSID_SIZE_def)

interpretation smr_codec: prefix_codec "\<lambda>mr. smr_marshal mr []" smr_unmarshal smr_wf
proof
  fix mr :: MetaindexRow and t
  assume wf: "smr_wf mr"
  have "length (smr_marshal mr [] @ t) \<ge> MARSHALED_METAINDEX_ROW_SIZE" by simp
  then show "smr_unmarshal (smr_marshal mr [] @ t) = Inr (mr, t)"
    using wf by (cases mr) (simp add: smr_wf_def smr_marshal_def smr_unmarshal_def reader_simps)
qed

lemma smr_loop_marshal:
  "list_all smr_wf mrs \<Longrightarrow> smr_loop dst (concat (map (\<lambda>mr. smr_marshal mr []) mrs)) = Inr (dst @ mrs)"
proof (induction mrs arbitrary: dst)
  case Nil
  then show ?case by (simp add: smr_loop.simps)
next
  case (Cons mr mrs)
  have "smr_marshal mr [] \<noteq> []" using length_smr_marshal [of mr] unfolding MARSHALED_METAINDEX_ROW_SIZE_def by fastforce
  then show ?case using Cons by (subst smr_loop.simps) (simp add: smr_codec.dec_enc)
qed

lemma Min_insert_snoc: "xs \<noteq> [] \<Longrightarrow> Min (f ` set (xs @ [x])) = min (Min (f ` set xs)) (f x :: int)"
  by (simp add: min.commute)

lemma Max_insert_snoc: "xs \<noteq> [] \<Longrightarrow> Max (f ` set (xs @ [x])) = max (Max (f ` set xs)) (f x :: int)"
  by (simp add: max.commute)

lemma register_summary:
  assumes "row_summary mr bhs" "length bhs + 1 < 2 ^ 32"
  shows "row_summary (register_block_header mr bh) (bhs @ [bh])"
proof -
  have c: "unat (smr_block_headers_count mr + 1) = length bhs + 1"
    using assms by (simp add: row_summary_def unat_word_ariths)
  show ?thesis
  proof (cases "bhs = []")
    case True
    then have "smr_block_headers_count mr + 1 = 1" using c by (simp add: word_unat_eq_iff)
    then show ?thesis using True by (simp add: row_summary_def register_block_header_def Let_def)
  next
    case False
    then have "smr_block_headers_count mr + 1 \<noteq> 1" using c by (auto simp: word_unat_eq_iff)
    then have "sint (smr_min_timestamp (register_block_header mr bh)) = min (sint (smr_min_timestamp mr)) (sint (sbh_min_timestamp bh))"
      "sint (smr_max_timestamp (register_block_header mr bh)) = max (sint (smr_max_timestamp mr)) (sint (sbh_max_timestamp bh))"
      "smr_tsid (register_block_header mr bh) = smr_tsid mr"
      "smr_block_headers_count (register_block_header mr bh) = smr_block_headers_count mr + 1"
      by (simp_all add: register_block_header_def Let_def word_sless_alt)
    then show ?thesis using assms(1) False c Min_insert_snoc [of bhs "sint \<circ> sbh_min_timestamp" bh]
        Max_insert_snoc [of bhs "sint \<circ> sbh_max_timestamp" bh]
      unfolding row_summary_def by (simp only: image_comp) simp
  qed
qed

lemma register_all_summary:
  "row_summary mr bhs \<Longrightarrow> length bhs + length new < 2 ^ 32 \<Longrightarrow>
   row_summary (foldl register_block_header mr new) (bhs @ new)"
proof (induction new arbitrary: mr bhs)
  case (Cons bh new)
  have "row_summary (register_block_header mr bh) (bhs @ [bh])" using Cons.prems by (intro register_summary) simp_all
  from Cons.IH [OF this] Cons.prems(2) show ?case by simp
qed simp

section \<open>Properties\<close>

text \<open>
  C23: an index block of validated headers sorted by series is read back as those headers, and
  whatever \<open>unmarshal_block_headers\<close> accepts has the announced number of headers, all valid and
  sorted by series.\<close>

theorem sample_headers_roundtrip:
  "(list_all sbh_wf bhs \<and> bhs \<noteq> [] \<and> sorted (map sbh_tsid bhs) \<longrightarrow>
     sbh_unmarshal_block_headers dst (concat (map (\<lambda>bh. sbh_marshal bh []) bhs)) (length bhs) = Inr (dst @ bhs)) \<and>
   (sbh_unmarshal_block_headers dst src n = Inr dst' \<longrightarrow>
     (\<exists>new. dst' = dst @ new \<and> length new = n \<and> list_all sbh_wf new \<and> sorted (map sbh_tsid new)))"
proof (intro conjI impI)
  assume "list_all sbh_wf bhs \<and> bhs \<noteq> [] \<and> sorted (map sbh_tsid bhs)"
  then show "sbh_unmarshal_block_headers dst (concat (map (\<lambda>bh. sbh_marshal bh []) bhs)) (length bhs) = Inr (dst @ bhs)"
    by (simp add: sbh_unmarshal_block_headers_def sbh_loop_marshal Let_def sorted_by_key)
next
  assume "sbh_unmarshal_block_headers dst src n = Inr dst'"
  then have "sbh_loop dst src = Inr dst'" "length (drop (length dst) dst') = n"
    "sorted (map sbh_tsid (drop (length dst) dst'))"
    by (auto simp: sbh_unmarshal_block_headers_def rbind_eq_Inr Let_def sorted_by_key split: if_splits)
  moreover from this(1) obtain new where "dst' = dst @ new" "list_all sbh_wf new" using sbh_loop_sound by blast
  ultimately show "\<exists>new. dst' = dst @ new \<and> length new = n \<and> list_all sbh_wf new \<and> sorted (map sbh_tsid new)" by simp
qed

theorem sample_headers_roundtrip_witness:
  "sbh_unmarshal_block_headers [] (sbh_marshal (sbh_default\<lparr>sbh_rows_count := 5, sbh_timestamps_marshal_type := 1,
      sbh_values_marshal_type := 2, sbh_precision_bits := 64\<rparr>) []) 1 =
   Inr [sbh_default\<lparr>sbh_rows_count := 5, sbh_timestamps_marshal_type := 1, sbh_values_marshal_type := 2,
      sbh_precision_bits := 64\<rparr>]"
proof -
  let ?h = "sbh_default\<lparr>sbh_rows_count := 5, sbh_timestamps_marshal_type := 1, sbh_values_marshal_type := 2,
      sbh_precision_bits := 64\<rparr>"
  have "list_all sbh_wf [?h]"
    by (simp add: sbh_wf_def sbh_validate_def sbh_default_def MAX_ROWS_PER_BLOCK_def check_marshal_type_def
        check_precision_bits_def MAX_BLOCK_SIZE_def)
  then show ?thesis using sample_headers_roundtrip [of "[?h]" "[]" "[]" 0 "[]"] by simp
qed

text \<open>
  The portable form of a header carries its time range, first value, row count, scale and
  encoding, and reading it sets exactly these fields, in front of any following bytes.\<close>

theorem portable_header_roundtrip:
  "sbh_unmarshal_portable h (sbh_marshal_portable bh [] @ t) = Inr (portable_fields h bh, t)"
  by (rule portable_roundtrip)

text \<open>
  C26: a metaindex row that registers the headers of an index block one by one carries their number,
  the series of the first one, the smallest of their first and the largest of their last
  timestamps.\<close>

theorem metaindex_row_summarises:
  assumes "bhs \<noteq> []" "length bhs < 2 ^ 32"
  shows "row_summary (foldl register_block_header smr_default bhs) bhs"
proof -
  have "row_summary smr_default []" by (simp add: row_summary_def smr_default_def)
  from register_all_summary [OF this, of bhs] assms(2) show ?thesis by simp
qed

theorem metaindex_row_summarises_witness:
  "sint (smr_min_timestamp (foldl register_block_header smr_default
     [sbh_default\<lparr>sbh_min_timestamp := 9\<rparr>, sbh_default\<lparr>sbh_min_timestamp := - 2\<rparr>])) = - 2"
  using metaindex_row_summarises [of "[sbh_default\<lparr>sbh_min_timestamp := 9\<rparr>, sbh_default\<lparr>sbh_min_timestamp := - 2\<rparr>]"]
  by (simp add: row_summary_def)

end
