(* ===== verification/Dedup.thy ===== *)
theory Dedup
  imports Esm_Prelude
begin

text \<open>
  Deduplication of samples (\<open>crates/esm-storage/src/dedup.rs\<close>): at most one sample is kept per
  interval, compacted in place to the front of the arrays.

  Timestamps and intervals are integers in the range of \<open>i64\<close>, with the wrap-around of additions
  written out; \<open>%\<close> truncates towards zero. The operations on values that the trait \<open>DedupValue\<close>
  asks for, the staleness test and the order, are arguments; the instance for \<open>i64\<close> is given.
  Timestamps and values are arrays of the same length; an index outside would panic and does not
  occur then.
\<close>

section \<open>Model\<close>

definition wrap64 :: "int \<Rightarrow> int" where
  "wrap64 x = (x + 2 ^ 63) mod 2 ^ 64 - 2 ^ 63"

definition rem64 :: "int \<Rightarrow> int \<Rightarrow> int" where
  "rem64 a b = (if a \<ge> 0 then a mod b else - ((- a) mod b))"

text \<open>\<open>let mut ts_next = ts + dedup_interval - 1; ts_next -= ts_next % dedup_interval\<close>.\<close>

definition next_boundary :: "int \<Rightarrow> int \<Rightarrow> int" where
  "next_boundary ts d = (let t = wrap64 (wrap64 (ts + d) - 1) in wrap64 (t - rem64 t d))"

definition advance_boundary :: "int \<Rightarrow> int \<Rightarrow> int \<Rightarrow> int" where
  "advance_boundary ts_next ts d =
    (let ts_next = wrap64 (ts_next + d) in if ts_next < ts then next_boundary ts d else ts_next)"

definition V_STALE_NAN :: int where "V_STALE_NAN = 2 ^ 63 - 2"

definition is_stale_nan_int64 :: "int \<Rightarrow> bool" where "is_stale_nan_int64 v = (v = V_STALE_NAN)"

text \<open>The trait \<open>DedupValue\<close>: the staleness test and \<open>>\<close>.\<close>

record 'v dedup_value =
  is_stale_nan :: "'v \<Rightarrow> bool"
  val_gt :: "'v \<Rightarrow> 'v \<Rightarrow> bool"

definition i64_value :: "int dedup_value" where
  "i64_value = \<lparr>is_stale_nan = is_stale_nan_int64, val_gt = (\<lambda>a b. a > b)\<rparr>"

fun pick_loop :: "'v dedup_value \<Rightarrow> int list \<Rightarrow> 'v list \<Rightarrow> int \<Rightarrow> 'v \<Rightarrow> nat \<Rightarrow> 'v" where
  "pick_loop D ts vs ts_prev v_prev 0 = v_prev"
| "pick_loop D ts vs ts_prev v_prev (Suc j) =
    (if ts ! j = ts_prev then
       let v = vs ! j in
       if is_stale_nan D v then pick_loop D ts vs ts_prev v_prev j
       else if is_stale_nan D v_prev then pick_loop D ts vs ts_prev v j
       else if val_gt D v v_prev then pick_loop D ts vs ts_prev v j
       else pick_loop D ts vs ts_prev v_prev j
     else v_prev)"

definition pick_sample_at :: "'v dedup_value \<Rightarrow> int list \<Rightarrow> 'v list \<Rightarrow> nat \<Rightarrow> int \<times> 'v" where
  "pick_sample_at D ts vs j = (ts ! j, pick_loop D ts vs (ts ! j) (vs ! j) j)"

fun needs_dedup_loop :: "int \<Rightarrow> int \<Rightarrow> int list \<Rightarrow> bool" where
  "needs_dedup_loop d ts_next [] = False"
| "needs_dedup_loop d ts_next (ts # rest) =
    (if ts \<le> ts_next then True else needs_dedup_loop d (advance_boundary ts_next ts d) rest)"

definition needs_dedup :: "int list \<Rightarrow> int \<Rightarrow> bool" where
  "needs_dedup timestamps dedup_interval =
    (if length timestamps < 2 \<or> dedup_interval \<le> 0 then False
     else needs_dedup_loop dedup_interval (next_boundary (timestamps ! 0) dedup_interval) (drop 1 timestamps))"

text \<open>The loop over \<open>i\<close> with \<open>k\<close> samples left; returns the arrays and \<open>dst_len\<close>.\<close>

fun dedup_loop :: "'v dedup_value \<Rightarrow> int \<Rightarrow> nat \<Rightarrow> nat \<Rightarrow> int \<Rightarrow> nat \<Rightarrow> int list \<Rightarrow> 'v list \<Rightarrow> int list \<times> 'v list \<times> nat" where
  "dedup_loop D d 0 i ts_next dst_len tss vs = (tss, vs, dst_len)"
| "dedup_loop D d (Suc k) i ts_next dst_len tss vs =
    (let ts = tss ! i in
     if ts \<le> ts_next then dedup_loop D d k (i + 1) ts_next dst_len tss vs
     else
       (case pick_sample_at D tss vs (i - 1) of (ts_prev, v_prev) \<Rightarrow>
          dedup_loop D d k (i + 1) (advance_boundary ts_next ts d) (dst_len + 1)
            (tss[dst_len := ts_prev]) (vs[dst_len := v_prev])))"

definition deduplicate_in_place ::
  "'v dedup_value \<Rightarrow> int list \<Rightarrow> 'v list \<Rightarrow> int \<Rightarrow> int list \<times> 'v list \<times> nat" where
  "deduplicate_in_place D tss vs d =
    (if \<not> needs_dedup tss d then (tss, vs, length tss)
     else
       case dedup_loop D d (length tss - 1) 1 (next_boundary (tss ! 0) d) 0 tss vs of
         (tss', vs', dst_len) \<Rightarrow>
         (case pick_sample_at D tss' vs' (length tss - 1) of (ts_prev, v_prev) \<Rightarrow>
            (tss'[dst_len := ts_prev], vs'[dst_len := v_prev], dst_len + 1)))"

definition deduplicate_samples :: "'v dedup_value \<Rightarrow> int list \<Rightarrow> 'v list \<Rightarrow> int \<Rightarrow> int list \<times> 'v list" where
  "deduplicate_samples D tss vs d =
    (case deduplicate_in_place D tss vs d of (tss', vs', n) \<Rightarrow> (take n tss', take n vs'))"

definition deduplicate_samples_during_merge :: "int list \<Rightarrow> int list \<Rightarrow> int \<Rightarrow> int list \<times> int list" where
  "deduplicate_samples_during_merge tss vs d =
    (case deduplicate_in_place i64_value tss vs d of (tss', vs', n) \<Rightarrow> (take n tss', take n vs'))"

definition deduplicate_samples_during_merge_in_place ::
  "int list \<Rightarrow> int list \<Rightarrow> int \<Rightarrow> int list \<times> int list \<times> nat" where
  "deduplicate_samples_during_merge_in_place tss vs d = deduplicate_in_place i64_value tss vs d"

text \<open>
  What is meant: intervals end at the multiples of \<open>d\<close>, and the last sample of each is kept.
\<close>

definition bucket :: "int \<Rightarrow> int \<Rightarrow> int" where
  "bucket d t = ((t + d - 1) div d) * d"

definition last_in_bucket :: "int \<Rightarrow> int list \<Rightarrow> nat \<Rightarrow> bool" where
  "last_in_bucket d tss i \<longleftrightarrow> i + 1 = length tss \<or> bucket d (tss ! i) \<noteq> bucket d (tss ! (i + 1))"

definition dedup_spec :: "'v dedup_value \<Rightarrow> int \<Rightarrow> int list \<Rightarrow> 'v list \<Rightarrow> (int \<times> 'v) list" where
  "dedup_spec D d tss vs = map (pick_sample_at D tss vs) (filter (last_in_bucket d tss) [0..<length tss])"

text \<open>Timestamps as they are stored: sorted, not negative, far enough from the end of \<open>i64\<close>.\<close>

definition stamps_ok :: "int \<Rightarrow> int list \<Rightarrow> bool" where
  "stamps_ok d tss \<longleftrightarrow> 0 < d \<and> sorted tss \<and> (\<forall>t \<in> set tss. 0 \<le> t \<and> t + 2 * d < 2 ^ 63)"

text \<open>The invariant of the loop, against the arrays the samples came in.\<close>

definition kept_before :: "int \<Rightarrow> int list \<Rightarrow> nat \<Rightarrow> nat list" where
  "kept_before d tss i = filter (last_in_bucket d tss) [0..<i]"

definition dedup_inv ::
  "'v dedup_value \<Rightarrow> int \<Rightarrow> int list \<Rightarrow> 'v list \<Rightarrow> nat \<Rightarrow> nat \<Rightarrow> int \<Rightarrow> nat \<Rightarrow> int list \<Rightarrow> 'v list \<Rightarrow> bool" where
  "dedup_inv D d t v i g ts_next m a b \<longleftrightarrow>
    g < i \<and> i \<le> length t \<and> m \<le> g \<and> length a = length t \<and> length b = length t \<and>
    ts_next = bucket d (t ! g) \<and> (\<forall>p. g \<le> p \<and> p < i \<longrightarrow> bucket d (t ! p) = bucket d (t ! g)) \<and>
    (0 < g \<longrightarrow> bucket d (t ! (g - 1)) \<noteq> bucket d (t ! g) \<and> a ! (g - 1) = t ! (g - 1)) \<and>
    (\<forall>p. m \<le> p \<and> p < length t \<longrightarrow> a ! p = t ! p \<and> b ! p = v ! p) \<and>
    m = length (kept_before d t (i - 1)) \<and>
    zip (take m a) (take m b) = map (pick_sample_at D t v) (kept_before d t (i - 1))"

text \<open>
  The value kept for a timestamp, for decimal values: one of the values at that timestamp, a
  staleness marker only when all of them are, and the largest of those that are not.
\<close>

definition best_of :: "int set \<Rightarrow> int \<Rightarrow> bool" where
  "best_of c r \<longleftrightarrow> r \<in> c \<and> (\<forall>y \<in> c. \<not> is_stale_nan_int64 y \<longrightarrow> \<not> is_stale_nan_int64 r \<and> y \<le> r)"

text \<open>What holds of the kept samples, without reference to the arrays' positions.\<close>

definition dedup_result :: "int \<Rightarrow> int list \<Rightarrow> int list \<Rightarrow> int list \<Rightarrow> int list \<Rightarrow> bool" where
  "dedup_result d t v t' v' \<longleftrightarrow>
    length v' = length t' \<and> sorted_wrt (<) (map (bucket d) t') \<and> bucket d ` set t' = bucket d ` set t \<and>
    (\<forall>j < length t'. t' ! j \<in> set t \<and> (\<forall>u \<in> set t. bucket d u = bucket d (t' ! j) \<longrightarrow> u \<le> t' ! j) \<and>
       best_of {v ! k |k. k < length t \<and> t ! k = t' ! j} (v' ! j))"

section \<open>Boundaries\<close>

lemma wrap64_id: "- (2 ^ 63) \<le> x \<Longrightarrow> x < 2 ^ 63 \<Longrightarrow> wrap64 x = x"
  by (simp add: wrap64_def)

lemma bucket_bounds:
  assumes "0 < d"
  shows "t \<le> bucket d t" "bucket d t < t + d" "d dvd bucket d t"
proof -
  have e: "bucket d t = t + d - 1 - (t + d - 1) mod d"
    by (simp add: bucket_def minus_mod_eq_div_mult)
  have "0 \<le> (t + d - 1) mod d" "(t + d - 1) mod d < d" using assms by simp_all
  with e show "t \<le> bucket d t" "bucket d t < t + d" by linarith+
  show "d dvd bucket d t" by (simp add: bucket_def)
qed

lemma bucket_unique:
  assumes "0 < d" "d dvd b" "t \<le> b" "b < t + d"
  shows "bucket d t = b"
proof -
  have "d dvd (b - bucket d t)" using assms(2) bucket_bounds(3) [OF assms(1)] by (rule dvd_diff)
  moreover have "\<bar>b - bucket d t\<bar> < d" using assms(3,4) bucket_bounds(1,2) [OF assms(1), of t] by linarith
  ultimately show ?thesis using assms(1) by (metis abs_of_pos dvd_imp_le_int eq_iff_diff_eq_0 not_less)
qed

lemma bucket_mono: "0 < d \<Longrightarrow> t \<le> u \<Longrightarrow> bucket d t \<le> bucket d u"
  by (simp add: bucket_def zdiv_mono1)

lemma next_boundary_bucket:
  assumes "0 < d" "0 \<le> t" "t + 2 * d < 2 ^ 63"
  shows "next_boundary t d = bucket d t"
proof -
  have w: "wrap64 (t + d) = t + d" "wrap64 (t + d - 1) = t + d - 1" using assms by (simp_all add: wrap64_id)
  have r: "rem64 (t + d - 1) d = (t + d - 1) mod d" using assms by (simp add: rem64_def)
  have "t + d - 1 - (t + d - 1) mod d = bucket d t" by (simp add: bucket_def minus_mod_eq_div_mult)
  moreover have "wrap64 (bucket d t) = bucket d t"
    using bucket_bounds [OF assms(1), of t] assms by (intro wrap64_id) linarith+
  ultimately show ?thesis by (simp add: next_boundary_def w r Let_def)
qed

lemma advance_boundary_bucket:
  assumes "0 < d" "0 \<le> u" "0 \<le> t" "t + 2 * d < 2 ^ 63" "bucket d u < t"
  shows "advance_boundary (bucket d u) t d = bucket d t"
proof -
  note b = bucket_bounds [OF assms(1), of u]
  have w: "wrap64 (bucket d u + d) = bucket d u + d" using b assms by (intro wrap64_id) linarith+
  show ?thesis
  proof (cases "bucket d u + d < t")
    case True
    then show ?thesis using next_boundary_bucket [OF assms(1,3,4)] by (simp add: advance_boundary_def w)
  next
    case False
    have "bucket d t = bucket d u + d" using False assms(1,5) b(3) by (intro bucket_unique) simp_all
    then show ?thesis using False by (simp add: advance_boundary_def w)
  qed
qed

lemma bucket_less_iff:
  assumes "0 < d" "t \<le> u"
  shows "u \<le> bucket d t \<longleftrightarrow> bucket d u = bucket d t"
proof
  assume "u \<le> bucket d t"
  then show "bucket d u = bucket d t"
    using assms bucket_bounds [OF assms(1), of t] by (intro bucket_unique) linarith+
next
  assume "bucket d u = bucket d t"
  then show "u \<le> bucket d t" using bucket_bounds(1) [OF assms(1), of u] by simp
qed

section \<open>The picked sample\<close>

text \<open>Picking reads the arrays only as far back as the timestamp repeats.\<close>

lemma pick_loop_cong:
  assumes "\<And>p. g \<le> p \<Longrightarrow> p < j \<Longrightarrow> a ! p = t ! p \<and> b ! p = v ! p"
    and "0 < g \<Longrightarrow> a ! (g - 1) \<noteq> s \<and> t ! (g - 1) \<noteq> s" and "g \<le> j"
  shows "pick_loop D a b s x j = pick_loop D t v s x j"
  using assms
proof (induction j arbitrary: x)
  case (Suc j)
  show ?case
  proof (cases "g \<le> j")
    case True
    have "pick_loop D a b s y j = pick_loop D t v s y j" for y using Suc.prems True by (intro Suc.IH) auto
    moreover have "a ! j = t ! j" "b ! j = v ! j" using Suc.prems(1) [of j] True by simp_all
    ultimately show ?thesis by (simp add: Let_def)
  next
    case False
    then have "g = Suc j" using Suc.prems(3) by simp
    then show ?thesis using Suc.prems(2) by simp
  qed
qed simp

lemma dedup_invD:
  assumes "dedup_inv D d t v i g ts_next m a b"
  shows "g < i" "i \<le> length t" "m \<le> g" "length a = length t" "length b = length t"
    "ts_next = bucket d (t ! g)"
    "\<And>p. g \<le> p \<Longrightarrow> p < i \<Longrightarrow> bucket d (t ! p) = bucket d (t ! g)"
    "0 < g \<Longrightarrow> bucket d (t ! (g - 1)) \<noteq> bucket d (t ! g)" "0 < g \<Longrightarrow> a ! (g - 1) = t ! (g - 1)"
    "\<And>p. m \<le> p \<Longrightarrow> p < length t \<Longrightarrow> a ! p = t ! p" "\<And>p. m \<le> p \<Longrightarrow> p < length t \<Longrightarrow> b ! p = v ! p"
    "m = length (kept_before d t (i - 1))"
    "zip (take m a) (take m b) = map (pick_sample_at D t v) (kept_before d t (i - 1))"
  using assms unfolding dedup_inv_def by blast+

lemma dedup_inv_pick:
  assumes "dedup_inv D d t v i g ts_next m a b"
  shows "pick_sample_at D a b (i - 1) = pick_sample_at D t v (i - 1)"
proof -
  note I = dedup_invD [OF assms]
  have q: "g \<le> i - 1" "i - 1 < length t" "m \<le> i - 1" "i - 1 < i" using I(1,2,3) by auto
  have e: "a ! (i - 1) = t ! (i - 1)" "b ! (i - 1) = v ! (i - 1)" using I(10,11) q(2,3) by blast+
  have "pick_loop D a b (t ! (i - 1)) (v ! (i - 1)) (i - 1) = pick_loop D t v (t ! (i - 1)) (v ! (i - 1)) (i - 1)"
  proof (rule pick_loop_cong [of g])
    fix p
    assume "g \<le> p" "p < i - 1"
    then show "a ! p = t ! p \<and> b ! p = v ! p" using I(10,11) I(3) q(2) by simp
  next
    assume g: "0 < g"
    have "t ! (g - 1) \<noteq> t ! (i - 1)" using I(8) [OF g] I(7) [OF q(1,4)] by metis
    then show "a ! (g - 1) \<noteq> t ! (i - 1) \<and> t ! (g - 1) \<noteq> t ! (i - 1)" using I(9) [OF g] by simp
  qed (rule q)
  then show ?thesis unfolding pick_sample_at_def e by simp
qed

lemma kept_before_step:
  assumes "0 < i" "i < length t"
  shows "kept_before d t i = kept_before d t (i - 1) @
    (if bucket d (t ! (i - 1)) = bucket d (t ! i) then [] else [i - 1])"
proof -
  obtain j where j: "i = Suc j" using assms(1) by (cases i) auto
  show ?thesis using assms(2) by (simp add: j kept_before_def last_in_bucket_def)
qed

lemma dedup_inv_keep:
  assumes "dedup_inv D d t v i g ts_next m a b" "i < length t" "bucket d (t ! i) = ts_next"
  shows "dedup_inv D d t v (i + 1) g ts_next m a b"
proof -
  note I = dedup_invD [OF assms(1)]
  have i: "0 < i" "g \<le> i - 1" "i - 1 < i" using I(1) by auto
  have "bucket d (t ! (i - 1)) = bucket d (t ! i)" using I(7) [OF i(2,3)] I(6) assms(3) by simp
  then have k: "kept_before d t i = kept_before d t (i - 1)" using kept_before_step [OF i(1) assms(2), of d] by simp
  have "\<forall>p. g \<le> p \<and> p < i + 1 \<longrightarrow> bucket d (t ! p) = bucket d (t ! g)"
  proof (intro allI impI)
    fix p
    assume p: "g \<le> p \<and> p < i + 1"
    show "bucket d (t ! p) = bucket d (t ! g)"
    proof (cases "p = i")
      case True
      then show ?thesis using assms(3) I(6) by simp
    next
      case False
      then show ?thesis using p by (intro I(7)) simp_all
    qed
  qed
  moreover have "g < i + 1" "i + 1 \<le> length t" using I(1) assms(2) by simp_all
  ultimately show ?thesis using I(3-6,8-13) unfolding dedup_inv_def add_diff_cancel_right' k by blast
qed

lemma dedup_inv_close:
  assumes I: "dedup_inv D d t v i g ts_next m a b" and i: "i < length t" and b: "bucket d (t ! i) \<noteq> ts_next"
    and p: "pick_sample_at D a b (i - 1) = (x, y)"
  shows "dedup_inv D d t v (i + 1) i (bucket d (t ! i)) (m + 1) (a[m := x]) (b[m := y])"
proof -
  note J = dedup_invD [OF I]
  have q: "0 < i" "g \<le> i - 1" "i - 1 < i" "m \<le> i - 1" "m < length t" "m + 1 \<le> i" using J(1-3) by auto
  have bk: "bucket d (t ! (i - 1)) = ts_next" using J(7) [OF q(2,3)] J(6) by simp
  have k: "kept_before d t i = kept_before d t (i - 1) @ [i - 1]"
    using kept_before_step [OF q(1) i, of d] b bk by simp
  have pk: "pick_sample_at D t v (i - 1) = (x, y)" using dedup_inv_pick [OF I] p by simp
  then have x: "x = t ! (i - 1)" by (simp add: pick_sample_at_def)
  have ai: "0 < i \<longrightarrow> bucket d (t ! (i - 1)) \<noteq> bucket d (t ! i) \<and> a[m := x] ! (i - 1) = t ! (i - 1)"
    using J(4) J(10) [of "i - 1"] q x b bk i by (cases "m = i - 1") auto
  have "length a = length b" "m < length a" using J(4,5) q(5) by simp_all
  then have z: "zip (take (m + 1) (a[m := x])) (take (m + 1) (b[m := y])) = zip (take m a) (take m b) @ [(x, y)]"
    by (simp add: take_Suc_conv_app_nth)
  have tl: "\<forall>p. m + 1 \<le> p \<and> p < length t \<longrightarrow> a[m := x] ! p = t ! p \<and> b[m := y] ! p = v ! p"
    using J(10,11) by simp
  have "\<forall>p. i \<le> p \<and> p < i + 1 \<longrightarrow> bucket d (t ! p) = bucket d (t ! i)" by (auto simp: less_Suc_eq)
  moreover have "m + 1 = length (kept_before d t (i - 1) @ [i - 1])" using J(12) by simp
  moreover have "zip (take m a) (take m b) @ [(x, y)] = map (pick_sample_at D t v) (kept_before d t (i - 1) @ [i - 1])"
    using pk by (simp add: J(13))
  moreover have "length (a[m := x]) = length t" "length (b[m := y]) = length t" "i < i + 1" "i + 1 \<le> length t"
    using J(4,5) i by simp_all
  ultimately show ?thesis using q(6) ai tl unfolding dedup_inv_def add_diff_cancel_right' k z by blast
qed

lemma dedup_loop_inv:
  assumes "stamps_ok d t" "dedup_inv D d t v i g ts_next m a b" "i + k = length t"
    "dedup_loop D d k i ts_next m a b = (a', b', m')"
  shows "\<exists>g' tn. dedup_inv D d t v (length t) g' tn m' a' b'"
  using assms(2-4)
proof (induction k arbitrary: i g ts_next m a b)
  case 0
  then show ?case by (auto intro: exI [of _ g])
next
  case (Suc k)
  note I = dedup_invD [OF Suc.prems(1)]
  have i: "i < length t" "g < i" "m \<le> i" using Suc.prems(2) I(1,3) by simp_all
  have ai: "a ! i = t ! i" using I(10) i by blast
  have o: "0 < d" "0 \<le> t ! i" "t ! i + 2 * d < 2 ^ 63" "0 \<le> t ! g" "t ! g \<le> t ! i" "ts_next = bucket d (t ! g)"
    using assms(1) i I(6) by (auto simp: stamps_ok_def intro: sorted_nth_mono)
  have le: "t ! i \<le> ts_next \<longleftrightarrow> bucket d (t ! i) = ts_next" using bucket_less_iff [OF o(1,5)] o(6) by simp
  show ?case
  proof (cases "t ! i \<le> ts_next")
    case True
    then have "dedup_loop D d k (i + 1) ts_next m a b = (a', b', m')" using Suc.prems(3) by (simp add: ai)
    moreover have "dedup_inv D d t v (i + 1) g ts_next m a b" using dedup_inv_keep [OF Suc.prems(1) i(1)] True le by blast
    ultimately show ?thesis using Suc.IH Suc.prems(2) by fastforce
  next
    case False
    obtain x y where p: "pick_sample_at D a b (i - 1) = (x, y)" by fastforce
    have "advance_boundary ts_next (t ! i) d = bucket d (t ! i)"
      using advance_boundary_bucket [OF o(1,4,2,3)] False o(6) by simp
    then have "dedup_loop D d k (i + 1) (bucket d (t ! i)) (m + 1) (a[m := x]) (b[m := y]) = (a', b', m')"
      using Suc.prems(3) False p by (simp add: ai)
    moreover have "dedup_inv D d t v (i + 1) i (bucket d (t ! i)) (m + 1) (a[m := x]) (b[m := y])"
      using dedup_inv_close [OF Suc.prems(1) i(1) _ p] False le by blast
    ultimately show ?thesis using Suc.IH Suc.prems(2) by fastforce
  qed
qed

section \<open>Correctness\<close>

lemma dedup_inv_init:
  assumes "t \<noteq> []" "length v = length t"
  shows "dedup_inv D d t v 1 0 (bucket d (t ! 0)) 0 t v"
  using assms by (auto simp: dedup_inv_def kept_before_def Suc_le_eq less_Suc_eq)

lemma dedup_inv_final:
  assumes "dedup_inv D d t v (length t) g ts_next m a b"
    and p: "pick_sample_at D a b (length t - 1) = (x, y)"
  shows "zip (take (m + 1) (a[m := x])) (take (m + 1) (b[m := y])) = dedup_spec D d t v"
proof -
  note J = dedup_invD [OF assms(1)]
  obtain n where n: "length t = Suc n" using J(1) by (cases "length t") auto
  have "length a = length b" "m < length a" using J(1,3,4,5) by simp_all
  then have "zip (take (m + 1) (a[m := x])) (take (m + 1) (b[m := y])) = zip (take m a) (take m b) @ [(x, y)]"
    by (simp add: take_Suc_conv_app_nth)
  moreover have "pick_sample_at D t v n = (x, y)" using dedup_inv_pick [OF assms(1)] p by (simp add: n)
  ultimately show ?thesis using J(13) by (simp add: n dedup_spec_def kept_before_def last_in_bucket_def)
qed

text \<open>When no two samples share an interval, the specification keeps the samples as they are.\<close>

lemma pick_sample_at_fresh:
  assumes "i = 0 \<or> t ! (i - 1) \<noteq> t ! i"
  shows "pick_sample_at D t v i = (t ! i, v ! i)"
  using assms by (cases i) (simp_all add: pick_sample_at_def)

lemma dedup_spec_fresh:
  assumes "length v = length t" "\<And>i. i + 1 < length t \<Longrightarrow> bucket d (t ! i) \<noteq> bucket d (t ! (i + 1))"
  shows "dedup_spec D d t v = zip t v"
proof -
  have l: "last_in_bucket d t i" if "i < length t" for i
    using assms(2) [of i] that by (auto simp: last_in_bucket_def)
  have p: "pick_sample_at D t v i = (t ! i, v ! i)" if "i < length t" for i
    using assms(2) [of "i - 1"] that by (intro pick_sample_at_fresh) (cases i; force)
  have "filter (last_in_bucket d t) [0..<length t] = [0..<length t]" using l by (simp add: filter_id_conv)
  then show ?thesis by (intro nth_equalityI) (simp_all add: dedup_spec_def assms(1) p)
qed

lemma needs_dedup_loop_False:
  assumes "\<not> needs_dedup_loop d (bucket d s) t" "stamps_ok d (s # t)" "i < length t"
  shows "bucket d ((s # t) ! i) \<noteq> bucket d (t ! i)"
  using assms
proof (induction t arbitrary: s i)
  case (Cons u t)
  have o: "0 < d" "0 \<le> s" "0 \<le> u" "u + 2 * d < 2 ^ 63" "s \<le> u" "stamps_ok d (u # t)"
    using Cons.prems(2) by (auto simp: stamps_ok_def)
  have u: "\<not> u \<le> bucket d s" "\<not> needs_dedup_loop d (advance_boundary (bucket d s) u d) t"
    using Cons.prems(1) by (auto split: if_splits)
  have "bucket d s \<noteq> bucket d u" using bucket_less_iff [OF o(1,5)] u(1) by simp
  moreover have "\<not> needs_dedup_loop d (bucket d u) t"
    using u advance_boundary_bucket [OF o(1-4)] by simp
  ultimately show ?case using Cons.IH [OF _ o(6)] Cons.prems(3) by (cases i) auto
qed simp

lemma needs_dedup_False_spec:
  assumes "stamps_ok d t" "length v = length t" "\<not> needs_dedup t d"
  shows "dedup_spec D d t v = zip t v"
proof (rule dedup_spec_fresh [OF assms(2)])
  fix i
  assume i: "i + 1 < length t"
  then obtain s r where t: "t = s # r" by (cases t) auto
  have "next_boundary s d = bucket d s" using assms(1) by (intro next_boundary_bucket) (auto simp: t stamps_ok_def)
  then have "\<not> needs_dedup_loop d (bucket d s) r" using assms(1,3) i
    by (cases r) (auto simp: needs_dedup_def t stamps_ok_def)
  from needs_dedup_loop_False [OF this assms(1) [unfolded t], of i] i
  show "bucket d (t ! i) \<noteq> bucket d (t ! (i + 1))" by (simp add: t)
qed

lemma deduplicate_samples_spec:
  assumes "stamps_ok d t" "length v = length t"
  shows "deduplicate_samples D t v d = (map fst (dedup_spec D d t v), map snd (dedup_spec D d t v))"
proof (cases "needs_dedup t d")
  case False
  then show ?thesis using needs_dedup_False_spec [OF assms False] assms(2)
    by (simp add: deduplicate_samples_def deduplicate_in_place_def)
next
  case True
  then have t: "t \<noteq> []" by (auto simp: needs_dedup_def)
  have nb: "next_boundary (t ! 0) d = bucket d (t ! 0)"
    using assms(1) t by (intro next_boundary_bucket) (auto simp: stamps_ok_def)
  obtain a b m where l: "dedup_loop D d (length t - 1) 1 (bucket d (t ! 0)) 0 t v = (a, b, m)"
    by (metis prod_cases3)
  obtain g tn where I: "dedup_inv D d t v (length t) g tn m a b"
    using dedup_loop_inv [OF assms(1) dedup_inv_init [OF t assms(2)] _ l] t by (auto simp: Suc_le_eq)
  obtain x y where p: "pick_sample_at D a b (length t - 1) = (x, y)" by fastforce
  have "length (take (m + 1) (a[m := x])) = length (take (m + 1) (b[m := y]))"
    using dedup_invD(4,5) [OF I] by simp
  then have "take (m + 1) (a[m := x]) = map fst (dedup_spec D d t v)"
    "take (m + 1) (b[m := y]) = map snd (dedup_spec D d t v)"
    using dedup_inv_final [OF I p] by (metis map_fst_zip, metis map_snd_zip)
  moreover have "deduplicate_samples D t v d = (take (m + 1) (a[m := x]), take (m + 1) (b[m := y]))"
    using True p unfolding deduplicate_samples_def deduplicate_in_place_def nb l by simp
  ultimately show ?thesis by simp
qed

section \<open>The kept samples\<close>

lemma pick_loop_best:
  assumes "sorted (take (Suc j) t)" "Suc j \<le> length t" "t ! j \<le> s"
  shows "best_of (insert x {v ! k |k. k \<le> j \<and> t ! k = s}) (pick_loop i64_value t v s x (Suc j))"
  using assms
proof (induction j arbitrary: x)
  case 0
  then show ?case by (auto simp: best_of_def i64_value_def Let_def is_stale_nan_int64_def)
next
  case (Suc j)
  let ?c = "{v ! k |k. k \<le> j \<and> t ! k = s}"
  have le: "t ! k \<le> t ! Suc j" if "k \<le> j" for k
    using sorted_nth_mono [OF Suc.prems(1), of k "Suc j"] that Suc.prems(2) by simp
  show ?case
  proof (cases "t ! Suc j = s")
    case False
    then have "{v ! k |k. k \<le> Suc j \<and> t ! k = s} = {}" using le Suc.prems(3) by (auto simp: le_Suc_eq dest: antisym)
    then show ?thesis unfolding best_of_def using False by (auto simp del: Collect_empty_eq empty_Collect_eq)
  next
    case True
    define y where "y = (if is_stale_nan_int64 (v ! Suc j) then x else if is_stale_nan_int64 x then v ! Suc j
      else if v ! Suc j > x then v ! Suc j else x)"
    have e: "pick_loop i64_value t v s x (Suc (Suc j)) = pick_loop i64_value t v s y (Suc j)"
      using True by (simp add: y_def i64_value_def Let_def)
    have c: "insert x {v ! k |k. k \<le> Suc j \<and> t ! k = s} = insert x (insert (v ! Suc j) ?c)"
      using True by (auto simp: le_Suc_eq)
    have "sorted (take (Suc j) t)" using Suc.prems(1) by (metis append_take_drop_id le_SucI min.absorb1 order_refl sorted_append take_take)
    then have "best_of (insert y ?c) (pick_loop i64_value t v s y (Suc j))"
      using Suc.prems le [of j] by (intro Suc.IH) auto
    then show ?thesis unfolding e c by (auto simp: best_of_def y_def split: if_splits)
  qed
qed

lemma pick_sample_at_best:
  assumes "sorted t" "i < length t"
  shows "best_of {v ! k |k. k \<le> i \<and> t ! k = t ! i} (snd (pick_sample_at i64_value t v i))"
proof (cases i)
  case 0
  then show ?thesis by (simp add: pick_sample_at_def best_of_def)
next
  case (Suc j)
  have "{v ! k |k. k \<le> i \<and> t ! k = t ! i} = insert (v ! i) {v ! k |k. k \<le> j \<and> t ! k = t ! i}"
    by (auto simp: Suc le_Suc_eq)
  moreover have "best_of (insert (v ! i) {v ! k |k. k \<le> j \<and> t ! k = t ! i})
      (pick_loop i64_value t v (t ! i) (v ! i) (Suc j))"
    using assms by (intro pick_loop_best) (auto simp: Suc sorted_wrt_take intro: sorted_nth_mono)
  ultimately show ?thesis by (simp add: pick_sample_at_def Suc)
qed

text \<open>The kept timestamps: in order, one per interval, the last of its interval.\<close>

lemma buckets_sorted: "stamps_ok d t \<Longrightarrow> i \<le> j \<Longrightarrow> j < length t \<Longrightarrow> bucket d (t ! i) \<le> bucket d (t ! j)"
  by (auto simp: stamps_ok_def intro!: bucket_mono sorted_nth_mono)

lemma last_in_bucket_gt:
  assumes "stamps_ok d t" "last_in_bucket d t i" "i < j" "j < length t"
  shows "bucket d (t ! i) < bucket d (t ! j)"
proof -
  have "bucket d (t ! i) \<noteq> bucket d (t ! (i + 1))" using assms(2-4) by (auto simp: last_in_bucket_def)
  then have "bucket d (t ! i) < bucket d (t ! (i + 1))"
    using buckets_sorted [OF assms(1), of i "i + 1"] assms(3,4) by simp
  also have "\<dots> \<le> bucket d (t ! j)" using buckets_sorted [OF assms(1), of "i + 1" j] assms(3,4) by simp
  finally show ?thesis .
qed

lemma kept_buckets_increasing:
  assumes "stamps_ok d t"
  shows "sorted_wrt (<) (map (\<lambda>i. bucket d (t ! i)) (filter (last_in_bucket d t) [0..<length t]))"
proof -
  have "sorted_wrt (<) (filter (last_in_bucket d t) [0..<length t])" by (simp add: sorted_wrt_filter)
  then have "sorted_wrt (\<lambda>i j. bucket d (t ! i) < bucket d (t ! j)) (filter (last_in_bucket d t) [0..<length t])"
    by (rule sorted_wrt_mono_rel [rotated]) (auto intro: last_in_bucket_gt [OF assms])
  then show ?thesis by (simp add: sorted_wrt_map)
qed

lemma exists_last_in_bucket:
  assumes "i < length t"
  shows "\<exists>j. i \<le> j \<and> j < length t \<and> last_in_bucket d t j \<and> bucket d (t ! j) = bucket d (t ! i)"
  using assms
proof (induction "length t - i" arbitrary: i)
  case (Suc n)
  show ?case
  proof (cases "last_in_bucket d t i")
    case True
    then show ?thesis using Suc.prems by blast
  next
    case False
    then have "i + 1 < length t" "bucket d (t ! i) = bucket d (t ! (i + 1))"
      using Suc.prems by (auto simp: last_in_bucket_def)
    then show ?thesis using Suc.hyps(1) [of "i + 1"] Suc.hyps(2) by (metis Suc_eq_plus1 Suc_diff_Suc Suc_leD add_left_imp_eq diff_Suc_Suc nat.inject Suc.prems)
  qed
qed simp

lemma fst_pick_sample_at [simp]: "fst (pick_sample_at D t v i) = t ! i"
  by (simp add: pick_sample_at_def)

lemma spec_buckets_increasing:
  "stamps_ok d t \<Longrightarrow> sorted_wrt (<) (map (bucket d) (map fst (dedup_spec D d t v)))"
  using kept_buckets_increasing by (simp add: dedup_spec_def comp_def)

lemma spec_stamps_subset: "set (map fst (dedup_spec D d t v)) \<subseteq> set t"
  by (auto simp: dedup_spec_def)

lemma spec_buckets_all: "bucket d ` set (map fst (dedup_spec D d t v)) = bucket d ` set t"
proof
  show "bucket d ` set (map fst (dedup_spec D d t v)) \<subseteq> bucket d ` set t"
    using spec_stamps_subset by (rule image_mono)
  show "bucket d ` set t \<subseteq> bucket d ` set (map fst (dedup_spec D d t v))"
  proof
    fix b
    assume "b \<in> bucket d ` set t"
    then obtain i where i: "i < length t" "b = bucket d (t ! i)" by (auto simp: in_set_conv_nth)
    obtain j where "j < length t" "last_in_bucket d t j" "bucket d (t ! j) = b"
      using exists_last_in_bucket [OF i(1), of d] i(2) by auto
    then show "b \<in> bucket d ` set (map fst (dedup_spec D d t v))"
      by (auto simp: dedup_spec_def image_iff intro!: bexI [of _ j])
  qed
qed

lemma last_in_bucket_Max:
  assumes "stamps_ok d t" "last_in_bucket d t i" "i < length t" "u \<in> set t" "bucket d u = bucket d (t ! i)"
  shows "u \<le> t ! i"
proof -
  obtain k where k: "k < length t" "u = t ! k" using assms(4) by (auto simp: in_set_conv_nth)
  have "\<not> i < k" using last_in_bucket_gt [OF assms(1,2) _ k(1)] assms(5) k(2) by auto
  then show ?thesis using assms(1,3) k by (auto simp: stamps_ok_def intro: sorted_nth_mono)
qed

lemma spec_values_best:
  assumes "stamps_ok d t" "last_in_bucket d t i" "i < length t"
  shows "best_of {v ! k |k. k < length t \<and> t ! k = t ! i} (snd (pick_sample_at i64_value t v i))"
proof -
  have "k \<le> i" if "k < length t" "t ! k = t ! i" for k
    using last_in_bucket_gt [OF assms(1,2) _ that(1)] that(2) by (cases "k \<le> i") auto
  then have "{v ! k |k. k < length t \<and> t ! k = t ! i} = {v ! k |k. k \<le> i \<and> t ! k = t ! i}"
    using assms(3) by (metis le_less_trans)
  then show ?thesis using pick_sample_at_best [OF _ assms(3), of v] assms(1) by (simp add: stamps_ok_def)
qed

lemma dedup_spec_result:
  assumes "stamps_ok d t"
  shows "dedup_result d t v (map fst (dedup_spec i64_value d t v)) (map snd (dedup_spec i64_value d t v))"
  unfolding dedup_result_def
proof (intro conjI allI impI)
  let ?s = "dedup_spec i64_value d t v"
  show "length (map snd ?s) = length (map fst ?s)" by simp
  show "sorted_wrt (<) (map (bucket d) (map fst ?s))" by (rule spec_buckets_increasing [OF assms])
  show "bucket d ` set (map fst ?s) = bucket d ` set t" by (rule spec_buckets_all)
  fix j
  assume j: "j < length (map fst ?s)"
  define i where "i = filter (last_in_bucket d t) [0..<length t] ! j"
  have "i \<in> set (filter (last_in_bucket d t) [0..<length t])" using j by (simp add: i_def dedup_spec_def del: set_filter)
  then have i: "last_in_bucket d t i" "i < length t" by auto
  have e: "map fst ?s ! j = t ! i" "map snd ?s ! j = snd (pick_sample_at i64_value t v i)"
    using j by (simp_all add: dedup_spec_def i_def)
  show "map fst ?s ! j \<in> set t" using e i by simp
  show "\<forall>u \<in> set t. bucket d u = bucket d (map fst ?s ! j) \<longrightarrow> u \<le> map fst ?s ! j"
    using last_in_bucket_Max [OF assms i] e by simp
  show "best_of {v ! k |k. k < length t \<and> t ! k = map fst ?s ! j} (map snd ?s ! j)"
    using spec_values_best [OF assms i, of v] e by simp
qed

text \<open>A second pass changes nothing.\<close>

lemma buckets_increasing_fresh:
  assumes "stamps_ok d t" "length v = length t" "sorted_wrt (<) (map (bucket d) t)"
  shows "deduplicate_samples D t v d = (t, v)"
proof -
  have "dedup_spec D d t v = zip t v"
    using assms(3) by (intro dedup_spec_fresh [OF assms(2)]) (fastforce simp: sorted_wrt_iff_nth_less)
  then show ?thesis using deduplicate_samples_spec [OF assms(1,2)] assms(2) by simp
qed

lemma buckets_increasing_sorted:
  assumes "0 < d" "sorted_wrt (<) (map (bucket d) t)"
  shows "sorted t"
proof -
  have "sorted_wrt (\<lambda>x y. bucket d x < bucket d y) t" using assms(2) by (simp add: sorted_wrt_map)
  then show ?thesis by (rule sorted_wrt_mono_rel [rotated]) (metis assms(1) bucket_mono linear not_le)
qed

lemma deduplicate_samples_again:
  assumes "stamps_ok d t" "length v = length t"
  shows "(case deduplicate_samples D t v d of (t', v') \<Rightarrow> deduplicate_samples D t' v' d) = deduplicate_samples D t v d"
proof -
  let ?s = "dedup_spec D d t v"
  have "sorted (map fst ?s)"
    using assms(1) by (intro buckets_increasing_sorted [OF _ spec_buckets_increasing]) (auto simp: stamps_ok_def)
  then have "stamps_ok d (map fst ?s)" using assms(1) spec_stamps_subset [of D d t v] by (auto simp: stamps_ok_def)
  then have "deduplicate_samples D (map fst ?s) (map snd ?s) d = (map fst ?s, map snd ?s)"
    using spec_buckets_increasing [OF assms(1)] by (intro buckets_increasing_fresh) simp_all
  then show ?thesis by (simp add: deduplicate_samples_spec [OF assms])
qed

section \<open>Properties\<close>

text \<open>
  C19: for sorted, non-negative timestamps the in-place compaction keeps exactly the last sample of
  each interval that ends at a multiple of the interval length, with the value picked among the
  samples of the same timestamp in the arrays as they were given: overwriting the front of the
  arrays while their rest is still read loses nothing.\<close>

theorem deduplicate_samples_correct:
  assumes "stamps_ok d t" "length v = length t"
  shows "deduplicate_samples D t v d = (map fst (dedup_spec D d t v), map snd (dedup_spec D d t v))"
  by (rule deduplicate_samples_spec [OF assms])

theorem deduplicate_samples_correct_witness:
  "deduplicate_samples i64_value [0, 1, 10, 10, 11, 35] [5, 6, 9, 7, 8, 1] 10 = ([0, 10, 11, 35], [5, 9, 8, 1]) \<and>
   map snd (dedup_spec i64_value 10 [0, 1, 10, 10, 11, 35] [5, 6, 9, 7, 8, 1]) = [5, 9, 8, 1 :: int]"
proof -
  have "stamps_ok 10 [0, 1, 10, 10, 11, 35]" by (simp add: stamps_ok_def)
  from deduplicate_samples_correct [OF this, of "[5, 6, 9, 7, 8, 1]" i64_value]
  have "deduplicate_samples i64_value [0, 1, 10, 10, 11, 35] [5, 6, 9, 7, 8, 1] 10 =
    (map fst (dedup_spec i64_value 10 [0, 1, 10, 10, 11, 35] [5, 6, 9, 7, 8, 1]),
     map snd (dedup_spec i64_value 10 [0, 1, 10, 10, 11, 35] [5, 6, 9, 7, 8, 1]))" by simp
  moreover have "dedup_spec i64_value 10 [0, 1, 10, 10, 11, 35] [5, 6, 9, 7, 8, 1] = [(0, 5), (10, 9), (11, 8), (35, 1)]"
    by code_simp
  ultimately show ?thesis by simp
qed

text \<open>
  C27: merge-time deduplication keeps one sample per interval, in increasing order of intervals, and
  none is lost: each interval that held a sample still holds its latest timestamp, with a value that
  was stored at that timestamp, a staleness marker only if all of them were markers, and the largest
  of the others otherwise.\<close>

theorem dedup_during_merge_keeps_best:
  assumes "stamps_ok d t" "length v = length t" "deduplicate_samples_during_merge t v d = (t', v')"
  shows "dedup_result d t v t' v'"
proof -
  have "deduplicate_samples i64_value t v d = (t', v')"
    using assms(3) by (simp add: deduplicate_samples_during_merge_def deduplicate_samples_def)
  then show ?thesis using dedup_spec_result [OF assms(1), of v] deduplicate_samples_spec [OF assms(1,2), of i64_value] by simp
qed

theorem dedup_during_merge_keeps_best_witness:
  "deduplicate_samples_during_merge [3, 7, 7, 7, 25] [1, V_STALE_NAN, 4, 2, 6] 10 = ([7, 25], [4, 6]) \<and>
   dedup_result 10 [3, 7, 7, 7, 25] [1, V_STALE_NAN, 4, 2, 6] [7, 25] [4, 6]"
proof -
  have "stamps_ok 10 [3, 7, 7, 7, 25]" by (simp add: stamps_ok_def)
  moreover have "deduplicate_samples_during_merge [3, 7, 7, 7, 25] [1, V_STALE_NAN, 4, 2, 6] 10 = ([7, 25], [4, 6])"
    by code_simp
  ultimately show ?thesis using dedup_during_merge_keeps_best [of 10 "[3, 7, 7, 7, 25]" "[1, V_STALE_NAN, 4, 2, 6]" "[7, 25]" "[4, 6]"]
    by simp
qed

text \<open>
  Deduplication is idempotent: applied to its own result, with the same interval, it changes
  nothing, so a block that is merged again keeps its samples.\<close>

theorem deduplicate_samples_idempotent:
  assumes "stamps_ok d t" "length v = length t"
  shows "(case deduplicate_samples D t v d of (t', v') \<Rightarrow> deduplicate_samples D t' v' d) = deduplicate_samples D t v d"
  by (rule deduplicate_samples_again [OF assms])

theorem deduplicate_samples_idempotent_witness:
  "deduplicate_samples i64_value [4, 8, 12] [1, 2, 3] 10 = ([8, 12], [2, 3]) \<and>
   deduplicate_samples i64_value [8, 12] [2, 3 :: int] 10 = ([8, 12], [2, 3])"
proof -
  have "stamps_ok 10 [4, 8, 12]" by (simp add: stamps_ok_def)
  moreover have "deduplicate_samples i64_value [4, 8, 12] [1, 2, 3 :: int] 10 = ([8, 12], [2, 3])" by code_simp
  ultimately show ?thesis using deduplicate_samples_idempotent [of 10 "[4, 8, 12]" "[1, 2, 3]" i64_value] by simp
qed

end
