(* ===== verification/Storage_Block.thy ===== *)
theory Storage_Block
  imports Storage_Headers Dedup
begin

text \<open>
  Blocks of samples of one series (\<open>crates/esm-storage/src/block.rs\<close> and
  \<open>block_stream::unmarshal_block_data\<close>): unpacked timestamps and decimal values, or their packed
  bytes, with the header that describes them.

  \<open>None\<close> is a panic: a failed assertion or an index out of range. When a decoder reports an error the
  block is left half-written; callers drop it, so that the error is the whole outcome. Positions and
  lengths of arrays are \<open>nat\<close>; \<open>next_idx\<close> never exceeds the length (\<open>block_invar\<close>), so that the
  subtractions do not wrap.
\<close>

section \<open>Model\<close>

record Block =
  bk_bh :: BlockHeader
  bk_next_idx :: nat
  bk_timestamps :: "i64 list"
  bk_values :: "i64 list"
  bk_header_data :: bytes
  bk_timestamps_data :: bytes
  bk_values_data :: bytes

definition block_default :: Block where
  "block_default = \<lparr>bk_bh = sbh_default, bk_next_idx = 0, bk_timestamps = [], bk_values = [],
     bk_header_data = [], bk_timestamps_data = [], bk_values_data = []\<rparr>"

definition block_reset :: "Block \<Rightarrow> Block" where
  "block_reset b = b\<lparr>bk_bh := sbh_default, bk_next_idx := 0, bk_timestamps := [], bk_values := [],
     bk_header_data := [], bk_timestamps_data := [], bk_values_data := []\<rparr>"

text \<open>\<open>&self.timestamps[self.next_idx..]\<close> panics when \<open>next_idx\<close> is beyond the end.\<close>

definition tail_from :: "'a list \<Rightarrow> nat \<Rightarrow> 'a list option" where
  "tail_from xs i = (if i \<le> length xs then Some (drop i xs) else None)"

definition block_timestamps :: "Block \<Rightarrow> i64 list option" where
  "block_timestamps b = tail_from (bk_timestamps b) (bk_next_idx b)"

definition block_values :: "Block \<Rightarrow> i64 list option" where
  "block_values b = tail_from (bk_values b) (bk_next_idx b)"

definition block_copy_from :: "Block \<Rightarrow> Block \<Rightarrow> Block option" where
  "block_copy_from b src =
    (case block_timestamps src of None \<Rightarrow> None | Some ts \<Rightarrow>
     (case block_values src of None \<Rightarrow> None | Some vs \<Rightarrow>
      Some (b\<lparr>bk_bh := bk_bh src, bk_next_idx := 0, bk_timestamps := ts, bk_values := vs,
        bk_header_data := bk_header_data src, bk_timestamps_data := bk_timestamps_data src,
        bk_values_data := bk_values_data src\<rparr>)))"

definition block_fixup_timestamps :: "Block \<Rightarrow> Block option" where
  "block_fixup_timestamps b =
    (if bk_next_idx b < length (bk_timestamps b) then
       Some (b\<lparr>bk_bh := (bk_bh b)\<lparr>sbh_min_timestamp := bk_timestamps b ! bk_next_idx b,
         sbh_max_timestamp := bk_timestamps b ! (length (bk_timestamps b) - 1)\<rparr>\<rparr>)
     else None)"

definition block_rows_count :: "Block \<Rightarrow> nat" where
  "block_rows_count b = unat (sbh_rows_count (bk_bh b))"

definition block_init :: "Block \<Rightarrow> Tsid \<Rightarrow> i64 list \<Rightarrow> i64 list \<Rightarrow> i16 \<Rightarrow> u8 \<Rightarrow> Block option" where
  "block_init b tsid timestamps vals scale precision_bits =
    (let b = block_reset b;
         b = b\<lparr>bk_bh := (bk_bh b)\<lparr>sbh_tsid := tsid, sbh_scale := scale, sbh_precision_bits := precision_bits\<rparr>,
               bk_timestamps := timestamps, bk_values := vals\<rparr>
     in if bk_timestamps b \<noteq> [] then block_fixup_timestamps b else Some b)"

definition next_row :: "Block \<Rightarrow> Block \<times> bool" where
  "next_row b =
    (if bk_next_idx b = length (bk_values b) then (b, False)
     else (b\<lparr>bk_next_idx := bk_next_idx b + 1\<rparr>, True))"

definition assert_unmarshaled :: "Block \<Rightarrow> bool" where
  "assert_unmarshaled b \<longleftrightarrow> bk_values_data b = [] \<and> bk_timestamps_data b = [] \<and>
     length (bk_values b) = length (bk_timestamps b) \<and> bk_next_idx b \<le> length (bk_values b)"

definition assert_mergeable :: "Block \<Rightarrow> Block \<Rightarrow> bool" where
  "assert_mergeable b ib \<longleftrightarrow> metric_id (sbh_tsid (bk_bh b)) = metric_id (sbh_tsid (bk_bh ib)) \<and>
     sbh_scale (bk_bh b) = sbh_scale (bk_bh ib)"

definition too_big :: "Block \<Rightarrow> bool" where
  "too_big b =
    (if unat (sbh_rows_count (bk_bh b)) \<ge> MAX_ROWS_PER_BLOCK
        \<or> length (bk_values b) - bk_next_idx b \<ge> MAX_ROWS_PER_BLOCK then True
     else length (bk_values_data b) \<ge> MAX_BLOCK_SIZE)"

definition pending_rows_count :: "Block \<Rightarrow> nat" where
  "pending_rows_count b =
    (if bk_values b = [] then unat (sbh_rows_count (bk_bh b)) else length (bk_values b) - bk_next_idx b)"

text \<open>Marshaling sets the header fields of the values, then of the timestamps, then the rest.\<close>

definition packed_values :: "zstd_lib \<Rightarrow> u64 \<Rightarrow> Block \<Rightarrow> Block option" where
  "packed_values Z values_block_offset b =
    (case marshal_values Z [] (drop (bk_next_idx b) (bk_values b)) (unat (sbh_precision_bits (bk_bh b))) of
       None \<Rightarrow> None
     | Some (data, mt, first_value) \<Rightarrow>
       Some (b\<lparr>bk_values_data := data, bk_values := [],
         bk_bh := (bk_bh b)\<lparr>sbh_values_marshal_type := marshal_type_as_u8 mt, sbh_first_value := first_value,
           sbh_values_block_offset := values_block_offset, sbh_values_block_size := of_nat (length data)\<rparr>\<rparr>))"

definition packed_timestamps :: "zstd_lib \<Rightarrow> u64 \<Rightarrow> Block \<Rightarrow> Block option" where
  "packed_timestamps Z timestamps_block_offset b =
    (case marshal_timestamps Z [] (drop (bk_next_idx b) (bk_timestamps b)) (unat (sbh_precision_bits (bk_bh b))) of
       None \<Rightarrow> None
     | Some (data, mt, min_timestamp) \<Rightarrow>
       Some (b\<lparr>bk_timestamps_data := data, bk_timestamps := [],
         bk_bh := (bk_bh b)\<lparr>sbh_timestamps_marshal_type := marshal_type_as_u8 mt, sbh_min_timestamp := min_timestamp,
           sbh_timestamps_block_offset := timestamps_block_offset,
           sbh_timestamps_block_size := of_nat (length data),
           sbh_max_timestamp := bk_timestamps b ! (length (bk_timestamps b) - 1)\<rparr>\<rparr>))"

definition with_header_data :: "Block \<Rightarrow> Block" where
  "with_header_data b = b\<lparr>bk_header_data := sbh_marshal (bk_bh b) []\<rparr>"

definition block_marshal_data :: "zstd_lib \<Rightarrow> u64 \<Rightarrow> u64 \<Rightarrow> Block \<Rightarrow> Block option" where
  "block_marshal_data Z timestamps_block_offset values_block_offset b =
    (if bk_values b = [] then
       (if bk_next_idx b = 0 \<and> unat (sbh_timestamps_block_size (bk_bh b)) = length (bk_timestamps_data b) \<and>
           unat (sbh_values_block_size (bk_bh b)) = length (bk_values_data b) \<and> sbh_rows_count (bk_bh b) > 0
        then Some (with_header_data (b\<lparr>bk_bh := (bk_bh b)\<lparr>sbh_timestamps_block_offset := timestamps_block_offset,
               sbh_values_block_offset := values_block_offset\<rparr>\<rparr>))
        else None)
     else if \<not> bk_next_idx b \<le> length (bk_values b) \<or> length (bk_values b) \<noteq> length (bk_timestamps b) then None
     else
       let rows_count = length (bk_values b) - bk_next_idx b in
       if rows_count = 0 then None
       else
         case packed_values Z values_block_offset b of None \<Rightarrow> None | Some b \<Rightarrow>
         (case packed_timestamps Z timestamps_block_offset b of None \<Rightarrow> None | Some b \<Rightarrow>
          Some ((with_header_data (b\<lparr>bk_bh := (bk_bh b)\<lparr>sbh_rows_count := of_nat rows_count\<rparr>\<rparr>))
            \<lparr>bk_next_idx := 0\<rparr>)))"

datatype bounds_err =
    FirstTooSmall nat i64 i64
  | RowTooSmall nat i64 i64
  | LastTooBig nat i64 i64

fun bounds_loop :: "nat \<Rightarrow> i64 \<Rightarrow> i64 list \<Rightarrow> (bounds_err, i64) res" where
  "bounds_loop i ts_prev [] = Inr ts_prev"
| "bounds_loop i ts_prev (ts # rest) =
    (if ts <s ts_prev then Inl (Err (RowTooSmall (i + 1) ts ts_prev)) else bounds_loop (i + 1) ts rest)"

definition check_timestamps_bounds :: "i64 list \<Rightarrow> i64 \<Rightarrow> i64 \<Rightarrow> (bounds_err, unit) res" where
  "check_timestamps_bounds timestamps min_timestamp max_timestamp =
    (case timestamps of
       [] \<Rightarrow> Inr ()
     | ts_prev # rest \<Rightarrow>
       if ts_prev <s min_timestamp then Inl (Err (FirstTooSmall (length timestamps) min_timestamp ts_prev))
       else rbind (bounds_loop 0 ts_prev rest) (\<lambda>ts_prev.
         if max_timestamp <s ts_prev then Inl (Err (LastTooBig (length timestamps - 1) max_timestamp ts_prev))
         else Inr ()))"

datatype block_data_err =
    ZeroRows
  | UnsupportedTimestampsType u8
  | UnsupportedValuesType u8
  | TimestampsFailed block_err
  | ValuesFailed block_err
  | BoundsFailed bounds_err
  | CountMismatch nat nat

text \<open>The decoding that \<open>Block::unmarshal_data\<close> and \<open>unmarshal_block_data\<close> share, line by line.\<close>

definition decode_timestamps :: "zstd_lib \<Rightarrow> BlockHeader \<Rightarrow> bytes \<Rightarrow> (block_data_err, i64 list) res" where
  "decode_timestamps Z bh timestamps_data =
    rbind (ok_or (UnsupportedTimestampsType (sbh_timestamps_marshal_type bh))
             (marshal_type_from_u8 (sbh_timestamps_marshal_type bh))) (\<lambda>mt.
    rbind (map_err TimestampsFailed (unmarshal_timestamps Z [] timestamps_data mt (sbh_min_timestamp bh)
             (unat (sbh_rows_count bh)))) (\<lambda>ts.
    if unat (sbh_precision_bits bh) < 64 then
      or_panic (ensure_non_decreasing_sequence ts (sbh_min_timestamp bh) (sbh_max_timestamp bh))
    else if needs_validation mt then
      rbind (map_err BoundsFailed (check_timestamps_bounds ts (sbh_min_timestamp bh) (sbh_max_timestamp bh)))
        (\<lambda>_. Inr ts)
    else Inr ts))"

definition decode_values :: "zstd_lib \<Rightarrow> BlockHeader \<Rightarrow> bytes \<Rightarrow> (block_data_err, i64 list) res" where
  "decode_values Z bh values_data =
    rbind (ok_or (UnsupportedValuesType (sbh_values_marshal_type bh))
             (marshal_type_from_u8 (sbh_values_marshal_type bh))) (\<lambda>mt.
    map_err ValuesFailed (unmarshal_values Z [] values_data mt (sbh_first_value bh) (unat (sbh_rows_count bh))))"

definition block_unmarshal_data :: "zstd_lib \<Rightarrow> Block \<Rightarrow> (block_data_err, Block) res" where
  "block_unmarshal_data Z b =
    (if bk_values b \<noteq> [] then
       (if bk_values_data b = [] \<and> bk_timestamps_data b = [] then Inr b else Inl Panic)
     else if sbh_rows_count (bk_bh b) = 0 then Inl (Err ZeroRows)
     else
       rbind (decode_timestamps Z (bk_bh b) (bk_timestamps_data b)) (\<lambda>ts.
       rbind (decode_values Z (bk_bh b) (bk_values_data b)) (\<lambda>vs.
       if length ts \<noteq> length vs then Inl (Err (CountMismatch (length ts) (length vs)))
       else Inr (b\<lparr>bk_timestamps := ts, bk_values := vs, bk_timestamps_data := [], bk_values_data := [],
              bk_next_idx := 0\<rparr>))))"

definition unmarshal_block_data ::
  "zstd_lib \<Rightarrow> Block \<Rightarrow> BlockHeader \<Rightarrow> bytes \<Rightarrow> bytes \<Rightarrow> (block_data_err, Block) res" where
  "unmarshal_block_data Z dst bh timestamps_data values_data =
    (let dst = (block_reset dst)\<lparr>bk_bh := bh\<rparr> in
     if sbh_rows_count bh = 0 then Inl (Err ZeroRows)
     else
       rbind (decode_timestamps Z bh timestamps_data) (\<lambda>ts.
       rbind (decode_values Z bh values_data) (\<lambda>vs.
       if length ts \<noteq> length vs then Inl (Err (CountMismatch (length ts) (length vs)))
       else Inr (dst\<lparr>bk_timestamps := ts, bk_values := vs\<rparr>))))"

text \<open>The interval is the global setting \<open>GLOBAL_DEDUP_INTERVAL\<close>.\<close>

definition block_dedup_during_merge :: "zstd_lib \<Rightarrow> int \<Rightarrow> Block \<Rightarrow> Block option" where
  "block_dedup_during_merge Z dedup_interval b =
    (if \<not> dedup_interval > 0 then Some b
     else case block_unmarshal_data Z b of
       Inl _ \<Rightarrow> None
     | Inr b \<Rightarrow>
       if length (bk_timestamps b) - bk_next_idx b < 2 then Some b
       else
         (case deduplicate_samples_during_merge_in_place (map sint (drop (bk_next_idx b) (bk_timestamps b)))
             (map sint (drop (bk_next_idx b) (bk_values b))) dedup_interval of
            (ts, vs, n) \<Rightarrow>
            let idx = bk_next_idx b in
            Some (b\<lparr>bk_timestamps := take (idx + n) (take idx (bk_timestamps b) @ map word_of_int ts),
                    bk_values := take (idx + n) (take idx (bk_values b) @ map word_of_int vs)\<rparr>)))"

record TimeRange =
  tr_min_timestamp :: i64
  tr_max_timestamp :: i64

fun skip_from_start :: "i64 \<Rightarrow> i64 list \<Rightarrow> nat \<Rightarrow> nat" where
  "skip_from_start lo [] i = i"
| "skip_from_start lo (t # ts) i = (if t <s lo then skip_from_start lo ts (i + 1) else i)"

fun skip_from_end :: "i64 list \<Rightarrow> i64 \<Rightarrow> nat \<Rightarrow> nat \<Rightarrow> nat" where
  "skip_from_end ts hi i 0 = 0"
| "skip_from_end ts hi i (Suc j) = (if Suc j > i \<and> hi <s ts ! j then skip_from_end ts hi i j else Suc j)"

definition filter_timestamps :: "Block \<Rightarrow> TimeRange \<Rightarrow> i64 list \<times> i64 list" where
  "filter_timestamps b tr =
    (let ts = bk_timestamps b;
         i = skip_from_start (tr_min_timestamp tr) ts 0;
         j = skip_from_end ts (tr_max_timestamp tr) i (length ts)
     in if i = j then ([], []) else (subslice ts i j, subslice (bk_values b) i j))"

definition block_marshal_portable :: "zstd_lib \<Rightarrow> Block \<Rightarrow> bytes \<Rightarrow> (Block \<times> bytes) option" where
  "block_marshal_portable Z b dst =
    (case block_marshal_data Z 0 0 b of None \<Rightarrow> None | Some b \<Rightarrow>
       let dst = sbh_marshal_portable (bk_bh b) dst;
           dst = marshal_bytes dst (bk_timestamps_data b)
       in Some (b, marshal_bytes dst (bk_values_data b)))"

datatype portable_err =
    PortableHeader sbh_err
  | NoTimestampsData
  | NoValuesData
  | InvalidHeader sbh_err
  | InvalidData block_data_err

definition block_unmarshal_portable :: "zstd_lib \<Rightarrow> Block \<Rightarrow> bytes \<Rightarrow> (portable_err, Block \<times> bytes) res" where
  "block_unmarshal_portable Z b src =
    (let b = block_reset b in
     rbind (map_err PortableHeader (sbh_unmarshal_portable (bk_bh b) src)) (\<lambda>(bh, src).
     rbind (take_bytes NoTimestampsData src) (\<lambda>(td, src).
     rbind (take_bytes NoValuesData src) (\<lambda>(vd, src).
     let b = b\<lparr>bk_bh := bh, bk_timestamps_data := td, bk_values_data := vd\<rparr> in
     rbind (map_err InvalidHeader (sbh_validate (bk_bh b))) (\<lambda>_.
     rbind (map_err InvalidData (block_unmarshal_data Z b)) (\<lambda>b. Inr (b, src)))))))"

text \<open>An unpacked block with rows left, ordered timestamps and a valid precision.\<close>

definition block_ready :: "Block \<Rightarrow> bool" where
  "block_ready b \<longleftrightarrow> bk_next_idx b < length (bk_values b) \<and> length (bk_values b) = length (bk_timestamps b) \<and>
     length (bk_values b) - bk_next_idx b \<le> MAX_ROWS_PER_BLOCK \<and>
     check_precision_bits (unat (sbh_precision_bits (bk_bh b))) \<and>
     non_decreasing (drop (bk_next_idx b) (bk_timestamps b))"

text \<open>The header that describes the packed arrays \<open>td\<close> and \<open>vd\<close> of a block.\<close>

definition packed_header :: "u64 \<Rightarrow> u64 \<Rightarrow> i64 list \<Rightarrow> i64 list \<Rightarrow> bytes \<Rightarrow> MarshalType \<Rightarrow> bytes \<Rightarrow> MarshalType \<Rightarrow>
    BlockHeader \<Rightarrow> BlockHeader" where
  "packed_header to vo ts vs td tmt vd vmt bh = bh\<lparr>sbh_values_marshal_type := marshal_type_as_u8 vmt,
     sbh_first_value := hd vs, sbh_values_block_offset := vo, sbh_values_block_size := of_nat (length vd),
     sbh_timestamps_marshal_type := marshal_type_as_u8 tmt, sbh_min_timestamp := hd ts,
     sbh_timestamps_block_offset := to, sbh_timestamps_block_size := of_nat (length td),
     sbh_max_timestamp := last ts, sbh_rows_count := of_nat (length vs)\<rparr>"

text \<open>What a reader gets back from the packed block.\<close>

definition samples_kept :: "nat \<Rightarrow> i64 list \<Rightarrow> i64 list \<Rightarrow> i64 list \<Rightarrow> i64 list \<Rightarrow> bool" where
  "samples_kept pb ts vs ts' vs' \<longleftrightarrow> length ts' = length ts \<and> length vs' = length vs \<and> non_decreasing ts' \<and>
     hd ts' = hd ts \<and> last ts' = last ts \<and> keeps_precision pb vs vs' \<and> (pb = 64 \<longrightarrow> ts' = ts \<and> vs' = vs)"

definition rows_between :: "i64 \<Rightarrow> i64 \<Rightarrow> i64 list \<Rightarrow> i64 list \<Rightarrow> (i64 \<times> i64) list" where
  "rows_between lo hi ts vs = filter (\<lambda>(t, v). lo \<le>s t \<and> t \<le>s hi) (zip ts vs)"

text \<open>A block of two samples for the witnesses.\<close>

definition two_samples :: Block where
  "two_samples = block_default\<lparr>bk_timestamps := [10, 20], bk_values := [7, 5],
     bk_bh := sbh_default\<lparr>sbh_precision_bits := 64\<rparr>\<rparr>"

section \<open>The size of a packed array\<close>

text \<open>Compressed data is kept only when it is smaller, rounding of the comparison included.\<close>

lemma nat_bits_lower: "0 < n \<Longrightarrow> 2 ^ (nat_bits n - 1) \<le> n"
proof (induction n rule: nat_bits.induct)
  case (1 n)
  show ?case
  proof (cases "n div 2 = 0")
    case True
    then show ?thesis using 1 by (simp add: nat_bits.simps [of n] nat_bits.simps [of 0])
  next
    case False
    then have "2 ^ (nat_bits (n div 2) - 1) \<le> n div 2" using 1 by simp
    moreover have "nat_bits (n div 2) = Suc (nat_bits (n div 2) - 1)"
      using False by (simp add: nat_bits.simps [of "n div 2"])
    ultimately have "2 ^ nat_bits (n div 2) \<le> 2 * (n div 2)" by (metis mult_le_mono2 power_Suc)
    also have "\<dots> \<le> n" by simp
    finally show ?thesis using 1(2) by (simp add: nat_bits.simps [of n])
  qed
qed

lemma round53_upper: "2 ^ 52 * f64_round53 n \<le> 2 ^ 52 * n + n"
proof (cases "nat_bits n - 53 = 0")
  case True
  then show ?thesis by (simp add: f64_round53_def Let_def)
next
  case False
  define s where "s = nat_bits n - 53"
  have n: "0 < n" using False by (cases "n = 0") (simp_all add: nat_bits.simps [of 0])
  have "nat_bits n - 1 = 52 + s" using False by (simp add: s_def)
  then have "2 ^ 52 * 2 ^ s \<le> n" using nat_bits_lower [OF n] by (simp add: power_add)
  moreover have "f64_round53 n \<le> n + 2 ^ s"
  proof -
    have "n div 2 ^ s * 2 ^ s \<le> n" by (rule div_times_less_eq_dividend)
    then have "n div 2 ^ s * 2 ^ s \<le> n + 2 ^ s" by linarith
    then show ?thesis using False by (simp add: f64_round53_def Let_def s_def [symmetric])
  qed
  ultimately have "2 ^ 52 * f64_round53 n \<le> 2 ^ 52 * (n + 2 ^ s)" "2 ^ 52 * 2 ^ s \<le> n" by (simp_all only: mult_le_mono2)
  then show ?thesis by (simp only: distrib_left)
qed

lemma round53_small: "n < 2 ^ 53 \<Longrightarrow> f64_round53 n = n"
proof -
  assume n: "n < 2 ^ 53"
  have "nat_bits n - 53 = 0"
  proof (rule ccontr)
    assume "nat_bits n - 53 \<noteq> 0"
    then have b: "53 \<le> nat_bits n - 1" by simp
    then have "0 < n" by (cases "n = 0") (simp_all add: nat_bits.simps [of 0])
    moreover have "(2 :: nat) ^ 53 \<le> 2 ^ (nat_bits n - 1)" using b by (rule power_increasing) simp
    ultimately show False using nat_bits_lower [of n] n by linarith
  qed
  then show ?thesis by (simp add: f64_round53_def Let_def)
qed

lemma round53_lower: "n \<le> 2 * f64_round53 n"
proof (cases "nat_bits n - 53 = 0")
  case True
  then show ?thesis by (simp add: f64_round53_def Let_def)
next
  case False
  define s where "s = nat_bits n - 53"
  have n: "0 < n" using False by (cases "n = 0") (simp_all add: nat_bits.simps [of 0])
  have "nat_bits n - 1 = 52 + s" using False by (simp add: s_def)
  then have "(2 :: nat) ^ s \<le> 2 ^ (nat_bits n - 1)" by (intro power_increasing) simp_all
  then have le: "(2 :: nat) ^ s \<le> n" using nat_bits_lower [OF n] by linarith
  have "n < n div 2 ^ s * 2 ^ s + 2 ^ s" by (metis div_mult_mod_eq mod_less_divisor nat_add_left_cancel_less zero_less_numeral zero_less_power)
  moreover have "2 ^ s \<le> n div 2 ^ s * 2 ^ s" using le by (metis div_greater_zero_iff le_square mult_le_mono1 mult_1 Suc_leI One_nat_def zero_less_numeral zero_less_power)
  moreover have "n div 2 ^ s * 2 ^ s \<le> f64_round53 n" using False by (simp add: f64_round53_def Let_def s_def [symmetric])
  ultimately show ?thesis by linarith
qed

lemma not_exceeds_smaller:
  assumes "\<not> exceeds_ninety_percent n m" "m < 2 ^ 52"
  shows "n \<le> m"
proof -
  have m: "f64_round53 m = m" using assms(2) by (intro round53_small) simp
  have e: "f64_round53 n * 2 ^ 53 \<le> f64_round53 (8106479329266893 * m)"
    using assms(1) by (simp add: exceeds_ninety_percent_def m)
  have u: "2 ^ 52 * f64_round53 (8106479329266893 * m) \<le> 2 ^ 52 * (8106479329266893 * m) + 8106479329266893 * m"
    by (rule round53_upper)
  have "2 ^ 52 * (f64_round53 n * 2 ^ 53) \<le> 2 ^ 52 * f64_round53 (8106479329266893 * m)"
    using e by (rule mult_le_mono2)
  then have f: "f64_round53 n \<le> m" using u by simp
  then have "n < 2 ^ 53" using round53_lower [of n] assms(2) by simp
  then show ?thesis using f by (simp add: round53_small)
qed

lemma packed_size:
  assumes "marshal_int64_array Z [] a pb = Some (m, mt, v)" "length a < 2 ^ 48"
  shows "length m \<le> 10 * length a"
proof (cases "a = [] \<or> is_const a \<or> is_delta_const a")
  case True
  then show ?thesis using assms(1) marshal_var_int64_size [of "[]" "a ! 1 - a ! 0"]
    by (cases a) (auto simp: marshal_int64_array_def split: if_splits)
next
  case False
  then obtain bb where bb: "length bb \<le> 10 * length a" and
    m: "m = bb \<or> compress_zstd_level Z [] bb (get_compress_level (length a)) = Some m
          \<and> \<not> exceeds_ninety_percent (length m) (length bb)"
    using assms(1) nearest_delta_size [of a]
    by (fastforce simp: marshal_int64_array_def split: option.splits if_splits prod.splits)
  have "length bb < 2 ^ 52" using bb assms(2) by simp
  then show ?thesis using m bb not_exceeds_smaller [of "length m" "length bb"] by auto
qed

section \<open>Round trip\<close>

lemma marshal_type_roundtrip [simp]: "marshal_type_from_u8 (marshal_type_as_u8 mt) = Some mt"
  by (cases mt) (simp_all add: marshal_type_from_u8_def)

lemma check_marshal_type_as_u8 [simp]: "check_marshal_type (marshal_type_as_u8 mt)"
  by (cases mt) (simp_all add: check_marshal_type_def)

lemma bounds_loop_sorted: "non_decreasing (t # ts) \<Longrightarrow> bounds_loop i t ts = Inr (last (t # ts))"
proof (induction ts arbitrary: t i)
  case (Cons u ts)
  then have "\<not> u <s t" "non_decreasing (u # ts)" by (auto simp: non_decreasing_def word_sless_alt)
  then show ?case using Cons.IH [of u "i + 1"] by simp
qed simp

lemma bounds_loop_sound: "bounds_loop i t ts = Inr l \<Longrightarrow> non_decreasing (t # ts) \<and> l = last (t # ts)"
proof (induction ts arbitrary: t i)
  case (Cons u ts)
  then have u: "sint t \<le> sint u" "bounds_loop (i + 1) u ts = Inr l"
    by (auto simp: word_sless_alt split: if_splits)
  from Cons.IH [OF u(2)] u(1) show ?case by (auto simp: non_decreasing_def)
qed (simp add: non_decreasing_def)

lemma check_bounds_sorted:
  assumes "ts \<noteq> []" "non_decreasing ts"
  shows "check_timestamps_bounds ts (hd ts) (last ts) = Inr ()"
  using assms bounds_loop_sorted [of "hd ts" "tl ts"]
  by (cases ts) (auto simp: check_timestamps_bounds_def word_sless_alt)

text \<open>The timestamps come back ordered with the same ends; with full precision they are the same.\<close>

lemma decode_timestamps_packed:
  assumes Z: "zstd_ok Z" and ts: "ts \<noteq> []" "length ts < 2 ^ 48" "non_decreasing ts"
    and pb: "check_precision_bits (unat (sbh_precision_bits bh))"
    and m: "marshal_int64_array Z [] ts (unat (sbh_precision_bits bh)) = Some (td, mt, v)"
    and bh: "sbh_timestamps_marshal_type bh = marshal_type_as_u8 mt" "sbh_min_timestamp bh = v"
      "sbh_max_timestamp bh = last ts" "unat (sbh_rows_count bh) = length ts"
  shows "\<exists>ys. decode_timestamps Z bh td = Inr ys \<and> length ys = length ts \<and> non_decreasing ys \<and>
    hd ys = hd ts \<and> last ys = last ts \<and> (sbh_precision_bits bh = 64 \<longrightarrow> ys = ts)"
proof -
  obtain m' mt' xs where r: "marshal_int64_array Z [] ts (unat (sbh_precision_bits bh)) = Some ([] @ m', mt', hd ts)"
    "unmarshal_int64_array Z [] m' mt' (hd ts) (length ts) = Inr ([] @ xs)" "keeps_precision (unat (sbh_precision_bits bh)) ts xs"
    using block_roundtrip [OF Z ts(1) _ pb, of "[]" "[]"] ts(2) by auto
  then have u: "unmarshal_timestamps Z [] td mt v (length ts) = Inr xs" "v = hd ts"
    using m by (auto simp: unmarshal_timestamps_def)
  have len: "length xs = length ts" using keeps_precision_length [OF r(3)] .
  have le: "hd ts \<le>s last ts" using ts(1,3) by (cases ts) (auto simp: non_decreasing_def word_sle_eq)
  show ?thesis
  proof (cases "unat (sbh_precision_bits bh) < 64")
    case True
    have "xs \<noteq> []" using len ts(1) by auto
    then obtain ys where ys: "ensure_non_decreasing_sequence xs (hd ts) (last ts) = Some ys"
      "length ys = length xs" "last ys = last ts" "non_decreasing ys" "2 \<le> length xs \<Longrightarrow> hd ys = hd ts"
      using ensure_props [OF le] by metis
    have "hd ys = hd ts"
    proof (cases "2 \<le> length xs")
      case False
      then obtain x y where "ys = [y]" "ts = [x]"
        using ys(2) len ts(1) by (cases ts; cases "tl ts"; cases ys; cases "tl ys") auto
      then show ?thesis using ys(3) by simp
    qed (rule ys(5))
    moreover have "sbh_precision_bits bh \<noteq> 64" using True by auto
    ultimately show ?thesis using True ys len u bh by (auto simp: decode_timestamps_def)
  next
    case False
    then have "unat (sbh_precision_bits bh) = 64" using pb by (simp add: check_precision_bits_def)
    then have "xs = ts" using r(3) by (simp add: keeps_precision_64)
    then show ?thesis using False u bh check_bounds_sorted [OF ts(1,3)] ts(3)
      by (auto simp: decode_timestamps_def)
  qed
qed

lemma decode_values_packed:
  assumes Z: "zstd_ok Z" and vs: "vs \<noteq> []" "length vs < 2 ^ 48" and pb: "check_precision_bits pb"
    and m: "marshal_int64_array Z [] vs pb = Some (vd, mt, v)"
    and bh: "sbh_values_marshal_type bh = marshal_type_as_u8 mt" "sbh_first_value bh = v"
      "unat (sbh_rows_count bh) = length vs"
  shows "\<exists>ys. decode_values Z bh vd = Inr ys \<and> length ys = length vs \<and> keeps_precision pb vs ys"
proof -
  obtain m' mt' xs where r: "marshal_int64_array Z [] vs pb = Some ([] @ m', mt', hd vs)"
    "unmarshal_int64_array Z [] m' mt' (hd vs) (length vs) = Inr ([] @ xs)" "keeps_precision pb vs xs"
    using block_roundtrip [OF Z vs(1) _ pb, of "[]" "[]"] vs(2) by auto
  then show ?thesis using m bh keeps_precision_length [OF r(3)]
    by (auto simp: decode_values_def unmarshal_values_def)
qed

lemma marshal_int64_array_Some:
  assumes "zstd_ok Z" "a \<noteq> []" "length a < 2 ^ 48" "check_precision_bits pb"
  obtains m mt where "marshal_int64_array Z [] a pb = Some (m, mt, hd a)" "length m \<le> 10 * length a"
proof -
  obtain m mt where "marshal_int64_array Z [] a pb = Some (m, mt, hd a)"
    using block_roundtrip [OF assms(1,2) _ assms(4), of "[]" "[]"] assms(3) by auto
  with packed_size [OF _ assms(3)] that show ?thesis by blast
qed

lemma block_marshal_ready:
  assumes "zstd_ok Z" "block_ready b"
  obtains td tmt vd vmt where
    "marshal_int64_array Z [] (drop (bk_next_idx b) (bk_timestamps b)) (unat (sbh_precision_bits (bk_bh b))) =
       Some (td, tmt, hd (drop (bk_next_idx b) (bk_timestamps b)))"
    "marshal_int64_array Z [] (drop (bk_next_idx b) (bk_values b)) (unat (sbh_precision_bits (bk_bh b))) =
       Some (vd, vmt, hd (drop (bk_next_idx b) (bk_values b)))"
    "length td \<le> 10 * MAX_ROWS_PER_BLOCK" "length vd \<le> 10 * MAX_ROWS_PER_BLOCK"
    "block_marshal_data Z to vo b = Some (with_header_data (b\<lparr>bk_values_data := vd, bk_values := [],
       bk_timestamps_data := td, bk_timestamps := [], bk_next_idx := 0,
       bk_bh := packed_header to vo (drop (bk_next_idx b) (bk_timestamps b)) (drop (bk_next_idx b) (bk_values b))
         td tmt vd vmt (bk_bh b)\<rparr>))"
proof -
  define ts where "ts = drop (bk_next_idx b) (bk_timestamps b)"
  define vs where "vs = drop (bk_next_idx b) (bk_values b)"
  define pb where "pb = unat (sbh_precision_bits (bk_bh b))"
  note R = assms(2) [unfolded block_ready_def]
  have len: "ts \<noteq> []" "vs \<noteq> []" "length ts = length vs" "length vs \<le> MAX_ROWS_PER_BLOCK" using R by (auto simp: ts_def vs_def)
  have l48: "length ts < 2 ^ 48" "length vs < 2 ^ 48" using len by (simp_all add: MAX_ROWS_PER_BLOCK_def)
  have pb: "check_precision_bits pb" using R by (simp add: pb_def)
  obtain td tmt where td: "marshal_int64_array Z [] ts pb = Some (td, tmt, hd ts)" "length td \<le> 10 * length ts"
    by (rule marshal_int64_array_Some [OF assms(1) len(1) l48(1) pb])
  obtain vd vmt where vd: "marshal_int64_array Z [] vs pb = Some (vd, vmt, hd vs)" "length vd \<le> 10 * length vs"
    by (rule marshal_int64_array_Some [OF assms(1) len(2) l48(2) pb])
  have lt: "bk_timestamps b ! (length (bk_timestamps b) - 1) = last ts"
    using R by (simp add: ts_def last_drop last_conv_nth)
  have ne: "bk_values b \<noteq> []" "bk_next_idx b \<le> length (bk_values b)" "length (bk_values b) = length (bk_timestamps b)"
    "length (bk_values b) - bk_next_idx b = length vs" "length vs \<noteq> 0" using R len(2) by (auto simp: vs_def)
  let ?b = "b\<lparr>bk_values_data := vd, bk_values := [],
         bk_bh := (bk_bh b)\<lparr>sbh_values_marshal_type := marshal_type_as_u8 vmt, sbh_first_value := hd vs,
           sbh_values_block_offset := vo, sbh_values_block_size := of_nat (length vd)\<rparr>\<rparr>"
  have "packed_values Z vo b = Some ?b"
    using vd(1) by (simp add: packed_values_def marshal_values_def vs_def pb_def)
  moreover have "packed_timestamps Z to ?b = Some (?b\<lparr>bk_timestamps_data := td, bk_timestamps := [],
         bk_bh := (bk_bh ?b)\<lparr>sbh_timestamps_marshal_type := marshal_type_as_u8 tmt, sbh_min_timestamp := hd ts,
           sbh_timestamps_block_offset := to, sbh_timestamps_block_size := of_nat (length td),
           sbh_max_timestamp := last ts\<rparr>\<rparr>)"
    using td(1) lt by (simp add: packed_timestamps_def marshal_timestamps_def ts_def pb_def)
  ultimately have "block_marshal_data Z to vo b = Some (with_header_data (b\<lparr>bk_values_data := vd, bk_values := [],
       bk_timestamps_data := td, bk_timestamps := [], bk_next_idx := 0,
       bk_bh := packed_header to vo ts vs td tmt vd vmt (bk_bh b)\<rparr>))"
    using ne by (simp add: block_marshal_data_def Let_def packed_header_def with_header_data_def)
  with td vd len(3,4) show ?thesis unfolding ts_def vs_def pb_def by (intro that) simp_all
qed

lemma packed_header_wf:
  assumes "block_ready b" "length td \<le> 10 * MAX_ROWS_PER_BLOCK" "length vd \<le> 10 * MAX_ROWS_PER_BLOCK"
  shows "sbh_wf (packed_header to vo ts (drop (bk_next_idx b) (bk_values b)) td tmt vd vmt (bk_bh b))"
proof -
  note R = assms(1) [unfolded block_ready_def]
  have n: "0 < length (drop (bk_next_idx b) (bk_values b))" "length (drop (bk_next_idx b) (bk_values b)) \<le> MAX_ROWS_PER_BLOCK"
    using R by auto
  have u: "unat (of_nat k :: u32) = k" if "k \<le> 10 * MAX_ROWS_PER_BLOCK" for k
    using that by (simp add: unat_of_nat MAX_ROWS_PER_BLOCK_def)
  have z: "of_nat (length (drop (bk_next_idx b) (bk_values b))) \<noteq> (0 :: u32)"
    using u [of "length (drop (bk_next_idx b) (bk_values b))"] n by (auto simp: word_unat_eq_iff)
  show ?thesis using R z u [OF assms(2)] u [OF assms(3)] u [of "length (drop (bk_next_idx b) (bk_values b))"] n assms(2,3)
    by (simp add: sbh_wf_def sbh_validate_def packed_header_def MAX_BLOCK_SIZE_def MAX_ROWS_PER_BLOCK_def)
qed

lemma decode_packed:
  assumes Z: "zstd_ok Z" and b: "block_ready b"
    and m: "marshal_int64_array Z [] (drop (bk_next_idx b) (bk_timestamps b)) (unat (sbh_precision_bits (bk_bh b))) =
       Some (td, tmt, hd (drop (bk_next_idx b) (bk_timestamps b)))"
    "marshal_int64_array Z [] (drop (bk_next_idx b) (bk_values b)) (unat (sbh_precision_bits (bk_bh b))) =
       Some (vd, vmt, hd (drop (bk_next_idx b) (bk_values b)))"
    and h: "bh = packed_header to vo (drop (bk_next_idx b) (bk_timestamps b)) (drop (bk_next_idx b) (bk_values b))
         td tmt vd vmt (bk_bh b)"
  shows "\<exists>ts' vs'. decode_timestamps Z bh td = Inr ts' \<and> decode_values Z bh vd = Inr vs' \<and>
    samples_kept (unat (sbh_precision_bits (bk_bh b))) (drop (bk_next_idx b) (bk_timestamps b))
      (drop (bk_next_idx b) (bk_values b)) ts' vs'"
proof -
  let ?ts = "drop (bk_next_idx b) (bk_timestamps b)" and ?vs = "drop (bk_next_idx b) (bk_values b)"
  let ?pb = "unat (sbh_precision_bits (bk_bh b))"
  note R = b [unfolded block_ready_def]
  have len: "?ts \<noteq> []" "?vs \<noteq> []" "length ?ts = length ?vs" "length ?vs \<le> MAX_ROWS_PER_BLOCK" using R by auto
  have l48: "length ?ts < 2 ^ 48" "length ?vs < 2 ^ 48" using len by (simp_all add: MAX_ROWS_PER_BLOCK_def)
  have n: "unat (of_nat (length ?vs) :: u32) = length ?vs"
    using len(4) by (simp add: unat_of_nat MAX_ROWS_PER_BLOCK_def)
  have bh: "sbh_timestamps_marshal_type bh = marshal_type_as_u8 tmt" "sbh_min_timestamp bh = hd ?ts"
    "sbh_max_timestamp bh = last ?ts" "unat (sbh_rows_count bh) = length ?ts" "sbh_precision_bits bh = sbh_precision_bits (bk_bh b)"
    "sbh_values_marshal_type bh = marshal_type_as_u8 vmt" "sbh_first_value bh = hd ?vs" "unat (sbh_rows_count bh) = length ?vs"
    using n len(3) by (simp_all add: h packed_header_def)
  have pb: "check_precision_bits ?pb" using R by simp
  obtain ts' where t: "decode_timestamps Z bh td = Inr ts'" "length ts' = length ?ts" "non_decreasing ts'"
    "hd ts' = hd ?ts" "last ts' = last ?ts" "sbh_precision_bits bh = 64 \<longrightarrow> ts' = ?ts"
    using decode_timestamps_packed [OF Z len(1) l48(1) _ _ _ bh(1-4), of td] R m(1) pb unfolding bh(5) by metis
  obtain vs' where v: "decode_values Z bh vd = Inr vs'" "length vs' = length ?vs" "keeps_precision ?pb ?vs vs'"
    using decode_values_packed [OF Z len(2) l48(2) pb m(2) bh(6-8)] by blast
  have "?pb = 64 \<longrightarrow> ts' = ?ts \<and> vs' = ?vs"
    using t(6) v(3) bh(5) by (auto simp: keeps_precision_64 word_unat_eq_iff)
  with t v show ?thesis unfolding samples_kept_def by blast
qed

section \<open>Time range filter\<close>

lemma skip_from_start_eq: "skip_from_start lo ts i = i + length (takeWhile (\<lambda>t. t <s lo) ts)"
  by (induction ts arbitrary: i) auto

lemma skip_from_end_props:
  "i \<le> j \<Longrightarrow> j \<le> length ts \<Longrightarrow> (let e = skip_from_end ts hi i j in
     i \<le> e \<and> e \<le> j \<and> (\<forall>k. e \<le> k \<and> k < j \<longrightarrow> hi <s ts ! k) \<and> (i < e \<longrightarrow> \<not> hi <s ts ! (e - 1)))"
proof (induction j)
  case (Suc j)
  show ?case
  proof (cases "Suc j > i \<and> hi <s ts ! j")
    case True
    then show ?thesis using Suc by (auto simp: Let_def less_Suc_eq)
  next
    case False
    then show ?thesis using Suc.prems by (auto simp: Let_def)
  qed
qed (simp add: Let_def)

lemma filter_zip_middle:
  assumes "i \<le> j" "j \<le> length xs" "length ys = length xs"
    "\<And>k. k < length xs \<Longrightarrow> P (xs ! k) \<longleftrightarrow> i \<le> k \<and> k < j"
  shows "filter (\<lambda>(x, y). P x) (zip xs ys) = zip (subslice xs i j) (subslice ys i j)"
proof -
  have z: "zip xs ys = take i (zip xs ys) @ take (j - i) (drop i (zip xs ys)) @ drop j (zip xs ys)"
    using assms(1) by (metis append_take_drop_id drop_drop le_add_diff_inverse2)
  have a: "filter (\<lambda>(x, y). P x) (take i (zip xs ys)) = []"
    using assms by (auto simp: filter_empty_conv in_set_conv_nth)
  have b: "filter (\<lambda>(x, y). P x) (take (j - i) (drop i (zip xs ys))) = take (j - i) (drop i (zip xs ys))"
    using assms by (auto simp: filter_id_conv in_set_conv_nth less_diff_conv add.commute)
  have c: "filter (\<lambda>(x, y). P x) (drop j (zip xs ys)) = []"
    using assms by (auto simp: filter_empty_conv in_set_conv_nth)
  have "filter (\<lambda>(x, y). P x) (zip xs ys) = take (j - i) (drop i (zip xs ys))"
    by (subst z) (simp add: a b c)
  then show ?thesis by (simp add: subslice_def take_zip drop_zip)
qed

lemma filter_timestamps_rows:
  assumes "non_decreasing (bk_timestamps b)" "length (bk_values b) = length (bk_timestamps b)"
  shows "filter_timestamps b tr = (map fst (rows_between (tr_min_timestamp tr) (tr_max_timestamp tr) (bk_timestamps b) (bk_values b)),
    map snd (rows_between (tr_min_timestamp tr) (tr_max_timestamp tr) (bk_timestamps b) (bk_values b)))"
proof -
  define ts where "ts = bk_timestamps b"
  define lo where "lo = tr_min_timestamp tr"
  define hi where "hi = tr_max_timestamp tr"
  define i where "i = skip_from_start lo ts 0"
  define j where "j = skip_from_end ts hi i (length ts)"
  have mono: "sint (ts ! k) \<le> sint (ts ! l)" if "k \<le> l" "l < length ts" for k l
    using assms(1) sorted_nth_mono [of "map sint ts" k l] that by (simp add: non_decreasing_def ts_def)
  have i: "i \<le> length ts" by (simp add: i_def skip_from_start_eq length_takeWhile_le)
  have below: "sint (ts ! k) < sint lo" if "k < i" for k
    using that set_takeWhileD [of "ts ! k" "\<lambda>t. t <s lo" ts] takeWhile_nth [of k "\<lambda>t. t <s lo" ts]
    by (metis add_0 i_def nth_mem skip_from_start_eq word_sless_alt)
  have ge: "sint lo \<le> sint (ts ! k)" if "i \<le> k" "k < length ts" for k
  proof -
    have "\<not> ts ! i <s lo" using nth_length_takeWhile [of "\<lambda>t. t <s lo" ts] that
      by (auto simp: i_def skip_from_start_eq)
    then show ?thesis using mono [OF that] by (simp add: word_sless_alt)
  qed
  have j: "i \<le> j" "j \<le> length ts" "\<And>k. j \<le> k \<Longrightarrow> k < length ts \<Longrightarrow> sint hi < sint (ts ! k)"
    "i < j \<Longrightarrow> sint (ts ! (j - 1)) \<le> sint hi"
    using skip_from_end_props [OF i order_refl, of hi] by (auto simp: j_def Let_def word_sless_alt)
  have le: "sint (ts ! k) \<le> sint hi" if "i \<le> k" "k < j" for k
  proof -
    have "k \<le> j - 1" "j - 1 < length ts" "i < j" using that j(2) by auto
    then show ?thesis using mono [of k "j - 1"] j(4) by simp
  qed
  have P: "lo \<le>s ts ! k \<and> ts ! k \<le>s hi \<longleftrightarrow> i \<le> k \<and> k < j" if "k < length ts" for k
    using below [of k] ge [of k] le [of k] j(3) [of k] that
    by (cases "i \<le> k"; cases "k < j") (auto simp: word_sle_eq)
  have "rows_between lo hi ts (bk_values b) = zip (subslice ts i j) (subslice (bk_values b) i j)"
    unfolding rows_between_def using assms(2) P j(1,2)
    by (intro filter_zip_middle [of i j ts _ "\<lambda>t. lo \<le>s t \<and> t \<le>s hi"]) (simp_all add: ts_def)
  moreover have "length (subslice ts i j) = length (subslice (bk_values b) i j)"
    using assms(2) j(2) by (simp add: ts_def)
  moreover have "filter_timestamps b tr = (subslice ts i j, subslice (bk_values b) i j)"
    by (simp add: filter_timestamps_def Let_def subslice_def flip: ts_def lo_def hi_def i_def j_def)
  ultimately show ?thesis by (simp flip: ts_def lo_def hi_def)
qed

section \<open>The portable form\<close>

text \<open>Decoding reads only fields that the portable header carries.\<close>

lemma decode_portable:
  "decode_timestamps Z (portable_fields h bh) td = decode_timestamps Z bh td"
  "decode_values Z (portable_fields h bh) vd = decode_values Z bh vd"
  by (simp_all add: decode_timestamps_def decode_values_def portable_fields_def cong: if_cong)

lemma packed_portable:
  fixes h to vo ts vs td tmt vd vmt bh
  defines "p \<equiv> portable_fields h (packed_header to vo ts vs td tmt vd vmt bh)"
  shows "sbh_scale p = sbh_scale bh" "sbh_precision_bits p = sbh_precision_bits bh" "sbh_rows_count p = of_nat (length vs)"
    "sbh_min_timestamp p = hd ts" "sbh_max_timestamp p = last ts" "sbh_first_value p = hd vs"
  by (simp_all add: p_def portable_fields_def packed_header_def)

lemma portable_wf: "sbh_wf bh \<Longrightarrow> sbh_wf (portable_fields sbh_default bh)"
  by (auto simp: sbh_wf_def sbh_validate_def portable_fields_def sbh_default_def split: if_splits)

section \<open>Properties\<close>

text \<open>
  C11: a block that is packed for disk is read back: its header is valid and decodes to itself, and
  decoding the packed arrays with it gives as many samples, timestamps in order with the same first
  and last one, and values within the block's precision; with 64 bits all samples are the same.\<close>

theorem block_data_roundtrip:
  assumes "zstd_ok Z" "block_ready b"
  shows "\<exists>b' r. block_marshal_data Z to vo b = Some b' \<and>
    sbh_unmarshal (bk_header_data b' @ rest) = Inr (bk_bh b', rest) \<and>
    unmarshal_block_data Z dst (bk_bh b') (bk_timestamps_data b') (bk_values_data b') = Inr r \<and>
    samples_kept (unat (sbh_precision_bits (bk_bh b))) (drop (bk_next_idx b) (bk_timestamps b))
      (drop (bk_next_idx b) (bk_values b)) (bk_timestamps r) (bk_values r)"
proof -
  obtain td tmt vd vmt where P:
    "marshal_int64_array Z [] (drop (bk_next_idx b) (bk_timestamps b)) (unat (sbh_precision_bits (bk_bh b))) =
       Some (td, tmt, hd (drop (bk_next_idx b) (bk_timestamps b)))"
    "marshal_int64_array Z [] (drop (bk_next_idx b) (bk_values b)) (unat (sbh_precision_bits (bk_bh b))) =
       Some (vd, vmt, hd (drop (bk_next_idx b) (bk_values b)))"
    "length td \<le> 10 * MAX_ROWS_PER_BLOCK" "length vd \<le> 10 * MAX_ROWS_PER_BLOCK"
    "block_marshal_data Z to vo b = Some (with_header_data (b\<lparr>bk_values_data := vd, bk_values := [],
       bk_timestamps_data := td, bk_timestamps := [], bk_next_idx := 0,
       bk_bh := packed_header to vo (drop (bk_next_idx b) (bk_timestamps b)) (drop (bk_next_idx b) (bk_values b))
         td tmt vd vmt (bk_bh b)\<rparr>))" by (rule block_marshal_ready [OF assms])
  let ?h = "packed_header to vo (drop (bk_next_idx b) (bk_timestamps b)) (drop (bk_next_idx b) (bk_values b))
         td tmt vd vmt (bk_bh b)"
  have wf: "sbh_wf ?h" by (rule packed_header_wf [OF assms(2) P(3,4)])
  obtain ts vs where D: "decode_timestamps Z ?h td = Inr ts" "decode_values Z ?h vd = Inr vs"
    "samples_kept (unat (sbh_precision_bits (bk_bh b))) (drop (bk_next_idx b) (bk_timestamps b))
      (drop (bk_next_idx b) (bk_values b)) ts vs" using decode_packed [OF assms P(1,2) refl] by blast
  have "length ts = length vs" using D(3) assms(2) by (simp add: samples_kept_def block_ready_def)
  moreover have "sbh_rows_count ?h \<noteq> 0" using wf by (auto simp: sbh_wf_def sbh_validate_def)
  ultimately have "unmarshal_block_data Z dst ?h td vd = Inr ((block_reset dst)\<lparr>bk_bh := ?h, bk_timestamps := ts, bk_values := vs\<rparr>)"
    using D(1,2) by (simp add: unmarshal_block_data_def Let_def)
  with P(5) D(3) sbh_codec.dec_enc [OF wf] show ?thesis by (simp add: with_header_data_def)
qed

lemma two_samples_ready: "block_ready two_samples"
  by (simp add: two_samples_def block_ready_def block_default_def MAX_ROWS_PER_BLOCK_def check_precision_bits_def
      non_decreasing_def)

theorem block_data_roundtrip_witness:
  "\<exists>b' r. block_marshal_data stored_zstd 0 0 two_samples = Some b' \<and>
    unmarshal_block_data stored_zstd block_default (bk_bh b') (bk_timestamps_data b') (bk_values_data b') = Inr r \<and>
    bk_timestamps r = [10, 20] \<and> bk_values r = [7, 5]"
  using block_data_roundtrip [OF stored_zstd_ok two_samples_ready, of 0 0 "[]" block_default]
  by (auto simp: samples_kept_def two_samples_def block_default_def)

text \<open>
  C24: a block marshaled for migration is unmarshaled by another instance, in front of any following bytes.
  The header that arrives has the scale and the precision of the block, the number of its rows, its first
  and last timestamp and its first value. With 64 bits of precision the samples are exactly those of the
  block; with fewer bits the values are within the precision, and of the timestamps the first, the last,
  the number and the order are kept. The series id does not travel.\<close>

theorem portable_block_roundtrip:
  assumes "zstd_ok Z" "block_ready b"
  shows "\<exists>b' m r. block_marshal_portable Z b dst = Some (b', dst @ m) \<and>
    block_unmarshal_portable Z c (m @ rest) = Inr (r, rest) \<and>
    bk_bh r = portable_fields sbh_default (bk_bh b') \<and>
    sbh_scale (bk_bh r) = sbh_scale (bk_bh b) \<and> sbh_precision_bits (bk_bh r) = sbh_precision_bits (bk_bh b) \<and>
    unat (sbh_rows_count (bk_bh r)) = length (drop (bk_next_idx b) (bk_values b)) \<and>
    sbh_min_timestamp (bk_bh r) = hd (drop (bk_next_idx b) (bk_timestamps b)) \<and>
    sbh_max_timestamp (bk_bh r) = last (drop (bk_next_idx b) (bk_timestamps b)) \<and>
    sbh_first_value (bk_bh r) = hd (drop (bk_next_idx b) (bk_values b)) \<and>
    samples_kept (unat (sbh_precision_bits (bk_bh b))) (drop (bk_next_idx b) (bk_timestamps b))
      (drop (bk_next_idx b) (bk_values b)) (bk_timestamps r) (bk_values r)"
proof -
  obtain td tmt vd vmt where P:
    "marshal_int64_array Z [] (drop (bk_next_idx b) (bk_timestamps b)) (unat (sbh_precision_bits (bk_bh b))) =
       Some (td, tmt, hd (drop (bk_next_idx b) (bk_timestamps b)))"
    "marshal_int64_array Z [] (drop (bk_next_idx b) (bk_values b)) (unat (sbh_precision_bits (bk_bh b))) =
       Some (vd, vmt, hd (drop (bk_next_idx b) (bk_values b)))"
    "length td \<le> 10 * MAX_ROWS_PER_BLOCK" "length vd \<le> 10 * MAX_ROWS_PER_BLOCK"
    "block_marshal_data Z 0 0 b = Some (with_header_data (b\<lparr>bk_values_data := vd, bk_values := [],
       bk_timestamps_data := td, bk_timestamps := [], bk_next_idx := 0,
       bk_bh := packed_header 0 0 (drop (bk_next_idx b) (bk_timestamps b)) (drop (bk_next_idx b) (bk_values b))
         td tmt vd vmt (bk_bh b)\<rparr>))" by (rule block_marshal_ready [OF assms])
  let ?h = "packed_header 0 0 (drop (bk_next_idx b) (bk_timestamps b)) (drop (bk_next_idx b) (bk_values b))
         td tmt vd vmt (bk_bh b)"
  let ?p = "portable_fields sbh_default ?h"
  have wf: "sbh_wf ?p" by (rule portable_wf [OF packed_header_wf [OF assms(2) P(3,4)]])
  obtain ts vs where D: "decode_timestamps Z ?h td = Inr ts" "decode_values Z ?h vd = Inr vs"
    "samples_kept (unat (sbh_precision_bits (bk_bh b))) (drop (bk_next_idx b) (bk_timestamps b))
      (drop (bk_next_idx b) (bk_values b)) ts vs" using decode_packed [OF assms P(1,2) refl] by blast
  define m where "m = sbh_marshal_portable ?h [] @ bytes_enc td @ bytes_enc vd"
  have "length td < 2 ^ 64" "length vd < 2 ^ 64" using P(3,4) by (simp_all add: MAX_ROWS_PER_BLOCK_def)
  note tb = take_bytes_marshal [OF this(1)] take_bytes_marshal [OF this(2)]
  have v: "length ts = length vs" "sbh_rows_count ?p \<noteq> 0" "sbh_validate ?p = Inr ()"
    using D(3) assms(2) wf by (auto simp: samples_kept_def block_ready_def sbh_wf_def sbh_validate_def)
  define q where "q = (block_reset c)\<lparr>bk_bh := ?p, bk_timestamps := ts, bk_values := vs\<rparr>"
  have q: "bk_bh q = ?p" "bk_timestamps q = ts" "bk_values q = vs" by (simp_all add: q_def)
  define b' where "b' = with_header_data (b\<lparr>bk_values_data := vd, bk_values := [],
       bk_timestamps_data := td, bk_timestamps := [], bk_next_idx := 0, bk_bh := ?h\<rparr>)"
  have b': "bk_bh b' = ?h" by (simp add: b'_def with_header_data_def)
  have u: "block_unmarshal_portable Z c (m @ rest) = Inr (q, rest)"
    using D(1,2) v by (simp add: block_unmarshal_portable_def m_def portable_roundtrip tb block_reset_def Let_def
        block_unmarshal_data_def decode_portable q_def)
  have w: "block_marshal_portable Z b dst = Some (b', dst @ m)"
    unfolding block_marshal_portable_def P(5)
    by (simp add: with_header_data_def Let_def m_def marshal_append(4) sbh_marshal_portable_append [of ?h dst] b'_def)
  have "unat (of_nat (length (drop (bk_next_idx b) (bk_values b))) :: u32) = length (drop (bk_next_idx b) (bk_values b))"
    unfolding unat_of_nat using assms(2) by (intro mod_less) (auto simp: block_ready_def MAX_ROWS_PER_BLOCK_def)
  with w u D(3) show ?thesis
    by (intro exI [of _ b'] exI [of _ m] exI [of _ q]) (simp only: q b' packed_portable simp_thms)
qed

theorem portable_block_roundtrip_witness:
  "\<exists>b' m r. block_marshal_portable stored_zstd two_samples [] = Some (b', [] @ m) \<and>
    block_unmarshal_portable stored_zstd block_default (m @ [1, 2]) = Inr (r, [1, 2]) \<and>
    bk_timestamps r = [10, 20] \<and> bk_values r = [7, 5] \<and> sbh_scale (bk_bh r) = 0 \<and> sbh_max_timestamp (bk_bh r) = 20"
  using portable_block_roundtrip [OF stored_zstd_ok two_samples_ready, of "[]" block_default "[1, 2]"]
  by (fastforce simp: samples_kept_def two_samples_def block_default_def sbh_default_def)

text \<open>
  Filtering an ordered block by a time range returns exactly the samples whose timestamps lie in
  the range, both ends included.\<close>

theorem filter_timestamps_correct:
  assumes "non_decreasing (bk_timestamps b)" "length (bk_values b) = length (bk_timestamps b)"
  shows "filter_timestamps b tr = (map fst (rows_between (tr_min_timestamp tr) (tr_max_timestamp tr) (bk_timestamps b) (bk_values b)),
    map snd (rows_between (tr_min_timestamp tr) (tr_max_timestamp tr) (bk_timestamps b) (bk_values b)))"
  by (rule filter_timestamps_rows [OF assms])

theorem filter_timestamps_witness:
  "filter_timestamps two_samples \<lparr>tr_min_timestamp = 15, tr_max_timestamp = 20\<rparr> = ([20], [5])"
  using filter_timestamps_correct [of two_samples "\<lparr>tr_min_timestamp = 15, tr_max_timestamp = 20\<rparr>"]
  by (simp add: two_samples_def block_default_def non_decreasing_def rows_between_def word_sle_eq)

end
