(* ===== verification/Decimal.thy ===== *)
theory Decimal
  imports Esm_Prelude "HOL-Library.Signed_Division"
begin

text \<open>
  Decimal values (\<open>crates/esm-common/src/decimal.rs\<close>): the integer part. A value \<open>v\<close> with exponent
  \<open>e\<close> stands for \<open>v * 10 ^ e\<close>; the largest and smallest integers are infinities and the staleness
  marker. Before two blocks of one series are merged their values are brought to a common exponent
  (\<open>calibrate_scale\<close>). The conversions from and to \<open>f64\<close> are not part of the model.
\<close>

section \<open>Model\<close>

definition V_MAX :: i64 where "V_MAX = 2 ^ 63 - 3"

definition V_MIN :: i64 where "V_MIN = - (2 ^ 63) + 1"

definition DECIMAL_MULTIPLIERS :: "i64 list" where
  "DECIMAL_MULTIPLIERS = [1, 10, 100, 1000, 10000, 100000, 1000000, 10000000, 100000000, 1000000000,
     10000000000, 100000000000, 1000000000000, 10000000000000, 100000000000000, 1000000000000000,
     10000000000000000, 100000000000000000, 1000000000000000000]"

definition is_special_value :: "i64 \<Rightarrow> bool" where
  "is_special_value v \<longleftrightarrow> \<not> (V_MIN \<le>s v \<and> v \<le>s V_MAX)"

definition get_decimal_multiplier :: "nat \<Rightarrow> i64" where
  "get_decimal_multiplier e = (if e \<ge> length DECIMAL_MULTIPLIERS then 1 else DECIMAL_MULTIPLIERS ! e)"

text \<open>The loop over \<open>(1..=18).rev()\<close>.\<close>

fun max_up_loop :: "i64 \<Rightarrow> nat \<Rightarrow> nat" where
  "max_up_loop v 0 = 0"
| "max_up_loop v (Suc e) =
    (if sint v \<le> (2 ^ 63 - 1) div sint (DECIMAL_MULTIPLIERS ! Suc e) then Suc e else max_up_loop v e)"

definition max_up_exponent :: "i64 \<Rightarrow> i16" where
  "max_up_exponent v =
    (if v = 0 \<or> is_special_value v then 1024
     else let v = (if v <s 0 then - v else v) in
       if v <s 0 then 0 else of_nat (max_up_loop v 18))"

definition down_exponent :: "i16 \<Rightarrow> i64 list \<Rightarrow> i16" where
  "down_exponent up_exp a =
    foldl (\<lambda>down_exp v. let max_up_exp = max_up_exponent v in
      if down_exp <s up_exp - max_up_exp then up_exp - max_up_exp else down_exp) 0 a"

definition scale_up :: "i16 \<Rightarrow> i64 list \<Rightarrow> i64 list" where
  "scale_up up_exp a =
    (if 0 <s up_exp then
       let m = get_decimal_multiplier (unat up_exp) in map (\<lambda>v. if is_special_value v then v else v * m) a
     else a)"

definition scale_down :: "i16 \<Rightarrow> i64 list \<Rightarrow> i64 list" where
  "scale_down down_exp b =
    (if 0 <s down_exp then
       if 18 <s down_exp then map (\<lambda>v. if is_special_value v then v else 0) b
       else let m = get_decimal_multiplier (unat down_exp) in
         map (\<lambda>v. if is_special_value v then v else word_of_int (sint v sdiv sint m)) b
     else b)"

text \<open>With the larger exponent first, as after the swap.\<close>

definition calibrate_ordered :: "i64 list \<Rightarrow> i16 \<Rightarrow> i64 list \<Rightarrow> i16 \<Rightarrow> i64 list \<times> i64 list \<times> i16" where
  "calibrate_ordered a ae b be =
    (let up_exp = ae - be;
         down_exp = down_exponent up_exp a;
         up_exp = up_exp - down_exp
     in (scale_up up_exp a, scale_down down_exp b, be + down_exp))"

definition calibrate_scale :: "i64 list \<Rightarrow> i16 \<Rightarrow> i64 list \<Rightarrow> i16 \<Rightarrow> i64 list \<times> i64 list \<times> i16" where
  "calibrate_scale a ae b be =
    (if ae = be then (a, b, ae)
     else if a = [] then (a, b, be)
     else if b = [] then (a, b, ae)
     else if ae <s be then (case calibrate_ordered b be a ae of (b, a, e) \<Rightarrow> (a, b, e))
     else calibrate_ordered a ae b be)"

text \<open>
  What a value becomes when its exponent changes: multiplied exactly, or divided towards zero;
  special values stay.
\<close>

definition rescaled :: "int \<Rightarrow> int \<Rightarrow> i64 \<Rightarrow> i64 \<Rightarrow> bool" where
  "rescaled e e' v v' \<longleftrightarrow>
    (if is_special_value v then v' = v
     else if e' \<le> e then sint v' = sint v * 10 ^ nat (e - e')
     else sint v' = sint v sdiv 10 ^ nat (e' - e))"

text \<open>
  A value cannot be raised by one more power of ten than \<open>n\<close>: it would overflow, or it is zero or special and
  \<open>n\<close> is the 1024 powers that the code allows for such values.
\<close>

definition raised_most :: "i64 \<Rightarrow> int \<Rightarrow> bool" where
  "raised_most v n \<longleftrightarrow> (if v = 0 \<or> is_special_value v then n = 1024 else \<bar>sint v\<bar> * 10 ^ nat (n + 1) > 2 ^ 63 - 1)"

section \<open>Multipliers\<close>

lemma sint_bounds64: "- (2 ^ 63) \<le> sint (v :: i64)" "sint (v :: i64) < 2 ^ 63"
  using sint_greater_eq [of v] sint_less [of v] by simp_all

lemma sint_bounds16: "- (2 ^ 15) \<le> sint (v :: i16)" "sint (v :: i16) < 2 ^ 15"
  using sint_greater_eq [of v] sint_less [of v] by simp_all

lemma sint_word_of_int64: "- (2 ^ 63) \<le> x \<Longrightarrow> x < 2 ^ 63 \<Longrightarrow> sint (word_of_int x :: i64) = x"
  by (simp add: signed_of_int signed_take_bit_int_eq_self)

lemma sint_word_of_int16: "- (2 ^ 15) \<le> x \<Longrightarrow> x < 2 ^ 15 \<Longrightarrow> sint (word_of_int x :: i16) = x"
  by (simp add: signed_of_int signed_take_bit_int_eq_self)

lemma multiplier_value:
  assumes "e \<le> 18"
  shows "sint (DECIMAL_MULTIPLIERS ! e) = 10 ^ e"
proof -
  have "list_all (\<lambda>e. sint (DECIMAL_MULTIPLIERS ! e) = 10 ^ e) [0..<19]"
    by (simp add: DECIMAL_MULTIPLIERS_def upt_rec)
  then show ?thesis using assms by (simp add: list_all_iff)
qed

lemma special_iff: "is_special_value v \<longleftrightarrow> sint v < - (2 ^ 63) + 1 \<or> 2 ^ 63 - 3 < sint v"
  by (auto simp: is_special_value_def V_MIN_def V_MAX_def word_sle_eq not_le)

lemma sint_minus64: "- (2 ^ 63) < sint v \<Longrightarrow> sint (- v :: i64) = - sint v"
  using sint_bounds64 [of v] sint_word_of_int64 [of "- sint v"] by simp

lemma le_div_iff_mult: "0 < k \<Longrightarrow> x \<le> y div k \<longleftrightarrow> x * k \<le> (y :: int)"
proof
  assume k: "0 < k" and "x \<le> y div k"
  then have "x * k \<le> y div k * k" by simp
  also have "\<dots> \<le> y" using k pos_mod_sign [OF k, of y] by (simp add: minus_mod_eq_div_mult [symmetric])
  finally show "x * k \<le> y" .
next
  assume "0 < k" "x * k \<le> y"
  then show "x \<le> y div k" using zdiv_mono1 [of "x * k" y k] by simp
qed

lemma max_up_loop_props:
  assumes "0 < sint v"
  shows "n \<le> 18 \<Longrightarrow> max_up_loop v n \<le> n \<and> sint v * 10 ^ max_up_loop v n \<le> 2 ^ 63 - 1 \<and>
    (max_up_loop v n < n \<longrightarrow> sint v * 10 ^ (max_up_loop v n + 1) > 2 ^ 63 - 1)"
proof (induction n)
  case 0
  show ?case using sint_bounds64(2) [of v] by simp
next
  case (Suc n)
  have m: "sint (DECIMAL_MULTIPLIERS ! Suc n) = 10 ^ Suc n" using Suc.prems by (rule multiplier_value)
  have c: "sint v \<le> (2 ^ 63 - 1) div 10 ^ Suc n \<longleftrightarrow> sint v * 10 ^ Suc n \<le> 2 ^ 63 - 1"
    by (rule le_div_iff_mult) simp
  have e: "max_up_loop v (Suc n) = (if sint v * 10 ^ Suc n \<le> 2 ^ 63 - 1 then Suc n else max_up_loop v n)"
    unfolding max_up_loop.simps(2) m c ..
  have IH: "max_up_loop v n \<le> n" "sint v * 10 ^ max_up_loop v n \<le> 2 ^ 63 - 1"
    "max_up_loop v n < n \<Longrightarrow> sint v * 10 ^ (max_up_loop v n + 1) > 2 ^ 63 - 1"
    using Suc.IH Suc.prems by simp_all
  show ?case
  proof (cases "sint v * 10 ^ Suc n \<le> 2 ^ 63 - 1")
    case True
    then show ?thesis unfolding e by simp
  next
    case False
    then have "sint v * 10 ^ (max_up_loop v n + 1) > 2 ^ 63 - 1"
      using IH(1,3) by (cases "max_up_loop v n = n") simp_all
    then show ?thesis using False IH(1,2) unfolding e by simp
  qed
qed

text \<open>
  The exponent a value can be raised by: anything for zero and special values, and otherwise the
  largest one, at most 18, that does not overflow.
\<close>

lemma max_up_exponent_props:
  assumes "v \<noteq> 0" "\<not> is_special_value v"
  obtains k where "sint (max_up_exponent v) = int k" "k \<le> 18" "\<bar>sint v\<bar> * 10 ^ k \<le> 2 ^ 63 - 1"
    "\<bar>sint v\<bar> * 10 ^ (k + 1) > 2 ^ 63 - 1"
proof -
  define w where "w = (if v <s 0 then - v else v)"
  have b: "- (2 ^ 63) < sint v" using assms(2) by (simp add: special_iff)
  have v0: "sint v \<noteq> 0" using assms(1) by (metis signed_0 signed_word_eqI)
  have w: "sint w = \<bar>sint v\<bar>" using sint_minus64 [OF b] by (auto simp: w_def word_sless_alt)
  then have pos: "0 < sint w" using v0 by simp
  define k where "k = max_up_loop w 18"
  have L: "k \<le> 18" "sint w * 10 ^ k \<le> 2 ^ 63 - 1" "k < 18 \<Longrightarrow> sint w * 10 ^ (k + 1) > 2 ^ 63 - 1"
    using max_up_loop_props [OF pos, of 18] by (simp_all add: k_def)
  have "max_up_exponent v = (if w <s 0 then 0 else of_nat (max_up_loop w 18))"
    using assms by (simp add: max_up_exponent_def w_def)
  then have "max_up_exponent v = of_nat k" using pos by (simp add: k_def word_sless_alt)
  moreover have "sint (of_nat k :: i16) = int k"
    using sint_word_of_int16 [of "int k"] L(1) by simp
  moreover have "\<bar>sint v\<bar> * 10 ^ (k + 1) > 2 ^ 63 - 1"
  proof (cases "k < 18")
    case True
    then show ?thesis using L(3) w by simp
  next
    case False
    then have "k = 18" using L(1) by simp
    then show ?thesis using pos w by simp
  qed
  ultimately show ?thesis using L(1,2) w by (intro that [of k]) simp_all
qed

lemma max_up_exponent_any: "v = 0 \<or> is_special_value v \<Longrightarrow> sint (max_up_exponent v) = 1024"
  by (auto simp: max_up_exponent_def)

lemma max_up_exponent_range: "0 \<le> sint (max_up_exponent v)" "sint (max_up_exponent v) \<le> 1024"
  by (cases "v = 0 \<or> is_special_value v",
      simp add: max_up_exponent_any, metis max_up_exponent_props of_nat_0_le_iff,
      cases "v = 0 \<or> is_special_value v",
      simp add: max_up_exponent_any, rule max_up_exponent_props [of v], simp_all)


section \<open>The exponents\<close>

lemma sint_diff16: "- (2 ^ 15) \<le> sint x - sint y \<Longrightarrow> sint x - sint y < 2 ^ 15 \<Longrightarrow> sint (x - y :: i16) = sint x - sint y"
  using sint_word_of_int16 [of "sint x - sint y"] by simp

lemma sint_add16: "- (2 ^ 15) \<le> sint x + sint y \<Longrightarrow> sint x + sint y < 2 ^ 15 \<Longrightarrow> sint (x + y :: i16) = sint x + sint y"
  using sint_word_of_int16 [of "sint x + sint y"] by simp

lemma down_exponent_fold:
  assumes "0 < sint u" "0 \<le> sint d" "sint d \<le> sint u"
    "e = foldl (\<lambda>down_exp v. let max_up_exp = max_up_exponent v in
      if down_exp <s u - max_up_exp then u - max_up_exp else down_exp) d a"
  shows "sint d \<le> sint e \<and> sint e \<le> sint u \<and> (\<forall>v \<in> set a. sint u - sint (max_up_exponent v) \<le> sint e) \<and>
    (e = d \<or> (\<exists>v \<in> set a. sint e = sint u - sint (max_up_exponent v)))"
  using assms(2-4)
proof (induction a arbitrary: d)
  case (Cons v a)
  note r = max_up_exponent_range [of v] sint_bounds16 [of u]
  have s: "sint (u - max_up_exponent v) = sint u - sint (max_up_exponent v)"
    using r assms(1) by (intro sint_diff16) simp_all
  define d' where "d' = (if d <s u - max_up_exponent v then u - max_up_exponent v else d)"
  have d': "sint d \<le> sint d'" "sint d' \<le> sint u" "sint u - sint (max_up_exponent v) \<le> sint d'"
    using Cons.prems(2) r s by (auto simp: d'_def word_sless_alt)
  have "e = foldl (\<lambda>down_exp v. let max_up_exp = max_up_exponent v in
      if down_exp <s u - max_up_exp then u - max_up_exp else down_exp) d' a"
    using Cons.prems(3) by (simp add: d'_def Let_def)
  from Cons.IH [OF _ d'(2) this] d' Cons.prems(1)
  have I: "sint d' \<le> sint e" "sint e \<le> sint u" "\<forall>v \<in> set a. sint u - sint (max_up_exponent v) \<le> sint e"
    "e = d' \<or> (\<exists>v \<in> set a. sint e = sint u - sint (max_up_exponent v))" by auto
  moreover have "d' = d \<or> sint d' = sint u - sint (max_up_exponent v)" using s by (auto simp: d'_def)
  ultimately show ?case using d' by auto
qed simp

lemma down_exponent_props:
  assumes "0 < sint u"
  shows "0 \<le> sint (down_exponent u a)" "sint (down_exponent u a) \<le> sint u"
    "v \<in> set a \<Longrightarrow> sint u - sint (down_exponent u a) \<le> sint (max_up_exponent v)"
    "0 < sint (down_exponent u a) \<Longrightarrow> \<exists>v \<in> set a. sint u - sint (down_exponent u a) = sint (max_up_exponent v)"
  using down_exponent_fold [OF assms, of 0 _ a, OF _ _ down_exponent_def [of u a]] assms by fastforce+

section \<open>The values\<close>

lemma abs_le_pow: "\<bar>x\<bar> * 10 ^ k \<le> m \<Longrightarrow> n \<le> k \<Longrightarrow> \<bar>x * 10 ^ n :: int\<bar> \<le> m"
proof -
  assume a: "\<bar>x\<bar> * 10 ^ k \<le> m" "n \<le> k"
  have "(10 :: int) ^ n \<le> 10 ^ k" using a(2) by (intro power_increasing) simp_all
  then have "\<bar>x\<bar> * 10 ^ n \<le> \<bar>x\<bar> * 10 ^ k" by (intro mult_left_mono) simp_all
  then show ?thesis using a(1) by (simp add: abs_mult)
qed

lemma unat_sint16: "0 \<le> sint (w :: i16) \<Longrightarrow> unat w = nat (sint w)"
proof -
  assume "0 \<le> sint w"
  then have "take_bit 16 (sint w) = sint w" using sint_bounds16(2) [of w] by (simp add: take_bit_int_eq_self)
  moreover have "uint (word_of_int (sint w) :: i16) = take_bit 16 (sint w)" by (simp only: unsigned_of_int) simp
  ultimately have "uint w = sint w" by simp
  then show ?thesis by (simp flip: nat_uint_eq)
qed

lemma multiplier_sint: "n \<le> 18 \<Longrightarrow> sint (get_decimal_multiplier n) = 10 ^ n"
  by (simp add: get_decimal_multiplier_def multiplier_value) (simp add: DECIMAL_MULTIPLIERS_def)

lemma scale_up_value:
  assumes "v \<noteq> 0" "\<not> is_special_value v" "int n \<le> sint (max_up_exponent v)"
  shows "sint (v * get_decimal_multiplier n) = sint v * 10 ^ n"
proof -
  obtain k where k: "sint (max_up_exponent v) = int k" "k \<le> 18" "\<bar>sint v\<bar> * 10 ^ k \<le> 2 ^ 63 - 1"
    by (rule max_up_exponent_props [OF assms(1,2)])
  have n: "n \<le> k" using assms(3) k(1) by simp
  have b: "\<bar>sint v * 10 ^ n\<bar> \<le> 2 ^ 63 - 1" by (rule abs_le_pow [OF k(3) n])
  have "sint (get_decimal_multiplier n) = 10 ^ n" using n k(2) by (intro multiplier_sint) simp
  then have "word_of_int (sint (get_decimal_multiplier n)) = (10 ^ n :: i64)" by simp
  then have "v * get_decimal_multiplier n = word_of_int (sint v * 10 ^ n)" by simp
  then show ?thesis using sint_word_of_int64 [of "sint v * 10 ^ n"] b by simp
qed

lemma scale_up_rescaled:
  assumes "0 \<le> sint up" "\<And>v. v \<in> set a \<Longrightarrow> sint up \<le> sint (max_up_exponent v)" "e - e' = sint up"
  shows "list_all2 (rescaled e e') a (scale_up up a)"
proof (cases "0 <s up")
  case False
  then have "sint up = 0" using assms(1) by (simp add: word_sless_alt)
  then show ?thesis using False assms(3) by (simp add: scale_up_def rescaled_def list_all2_same)
next
  case True
  have n: "nat (e - e') = unat up" using unat_sint16 [OF assms(1)] assms(3) by simp
  have "rescaled e e' v (if is_special_value v then v else v * get_decimal_multiplier (unat up))" if "v \<in> set a" for v
    using scale_up_value [of v "unat up"] assms(2) [OF that] unat_sint16 [OF assms(1)] assms(1,3)
    by (cases "v = 0") (auto simp: rescaled_def n)
  then show ?thesis using True by (simp add: scale_up_def Let_def list_all2_map2 list_all2_same)
qed

lemma zdiv_le_self:
  assumes "0 \<le> x" "0 < k"
  shows "0 \<le> x div k" "x div k \<le> (x :: int)"
proof -
  show n: "0 \<le> x div k" using assms by (simp add: pos_imp_zdiv_nonneg_iff)
  have "x div k * 1 \<le> x div k * k" using n assms(2) by (intro mult_left_mono) simp_all
  then show "x div k \<le> x" using le_div_iff_mult [OF assms(2), of "x div k" x] by simp
qed

lemma abs_sdiv: "0 < k \<Longrightarrow> \<bar>x sdiv k\<bar> \<le> \<bar>x :: int\<bar>"
  using zdiv_le_self [of "\<bar>x\<bar>" k] by (auto simp: signed_divide_int_def abs_mult abs_sgn_eq)

lemma scale_down_rescaled:
  assumes "0 \<le> sint down" "e' - e = sint down"
  shows "list_all2 (rescaled e e') b (scale_down down b)"
proof (cases "0 <s down")
  case False
  then have "sint down = 0" using assms(1) by (simp add: word_sless_alt)
  then show ?thesis using False assms(2) by (simp add: scale_down_def rescaled_def list_all2_same)
next
  case True
  have n: "nat (e' - e) = unat down" "0 < sint down" "\<not> e' \<le> e"
    using unat_sint16 [OF assms(1)] assms(2) True by (simp_all add: word_sless_alt)
  show ?thesis
  proof (cases "18 <s down")
    case big: True
    then have "19 \<le> unat down" using unat_sint16 [OF assms(1)] by (simp add: word_sless_alt)
    then have "(10 :: int) ^ 19 \<le> 10 ^ unat down" by (intro power_increasing) simp_all
    then have "sint v sdiv 10 ^ unat down = 0" for v :: i64
      using sint_bounds64 [of v] by (simp add: signed_divide_int_def)
    then show ?thesis using True big n by (simp add: scale_down_def rescaled_def list_all2_map2 list_all2_same)
  next
    case False
    then have "unat down \<le> 18" using unat_sint16 [OF assms(1)] by (simp add: word_sless_alt)
    then have m: "sint (get_decimal_multiplier (unat down)) = 10 ^ unat down" by (rule multiplier_sint)
    have "sint (word_of_int (sint v sdiv 10 ^ unat down) :: i64) = sint v sdiv 10 ^ unat down" if "\<not> is_special_value v" for v
      using abs_sdiv [of "10 ^ unat down" "sint v"] that by (intro sint_word_of_int64) (auto simp: special_iff)
    then show ?thesis using True False n by (simp add: scale_down_def rescaled_def Let_def m list_all2_map2 list_all2_same)
  qed
qed


section \<open>Properties\<close>

lemma calibrate_ordered_rescaled:
  assumes "sint be < sint ae" "sint ae - sint be < 2 ^ 15" "calibrate_ordered a ae b be = (a', b', e)"
  shows "sint be \<le> sint e" "sint e \<le> sint ae"
    "list_all2 (rescaled (sint ae) (sint e)) a a'" "list_all2 (rescaled (sint be) (sint e)) b b'"
    "sint be < sint e \<Longrightarrow> \<exists>v \<in> set a. raised_most v (sint ae - sint e)"
proof -
  have u: "sint (ae - be) = sint ae - sint be" using assms(1,2) by (intro sint_diff16) simp_all
  define d where "d = down_exponent (ae - be) a"
  have pos: "0 < sint (ae - be)" using assms(1) u by simp
  note D = down_exponent_props [OF pos, where a = a, folded d_def]
  have e: "e = be + d" "a' = scale_up (ae - be - d) a" "b' = scale_down d b"
    using assms(3) by (simp_all add: calibrate_ordered_def Let_def d_def)
  have ud: "sint (ae - be - d) = sint ae - sint be - sint d"
    using D(1,2) u assms(2) by (subst sint_diff16) simp_all
  have se: "sint e = sint be + sint d"
    unfolding e(1) using D(1,2) u sint_bounds16 [of be] sint_bounds16 [of ae] by (intro sint_add16) simp_all
  show "sint be \<le> sint e" "sint e \<le> sint ae" using se D(1,2) u by simp_all
  show "list_all2 (rescaled (sint ae) (sint e)) a a'"
    unfolding e(2) using D(2,3) u ud se by (intro scale_up_rescaled) auto
  show "list_all2 (rescaled (sint be) (sint e)) b b'"
    unfolding e(3) using D(1) se by (intro scale_down_rescaled) simp_all
  show "\<exists>v \<in> set a. raised_most v (sint ae - sint e)" if less: "sint be < sint e"
  proof -
    obtain v where v: "v \<in> set a" "sint ae - sint e = sint (max_up_exponent v)"
      using D(4) less(1) se u by (auto simp: diff_diff_eq)
    have "raised_most v (sint (max_up_exponent v))"
    proof (cases "v = 0 \<or> is_special_value v")
      case True
      then show ?thesis using max_up_exponent_any [of v] by (simp add: raised_most_def)
    next
      case False
      then obtain k where "sint (max_up_exponent v) = int k" "\<bar>sint v\<bar> * 10 ^ (k + 1) > 2 ^ 63 - 1"
        using max_up_exponent_props [of v] by blast
      then show ?thesis using False by (simp add: raised_most_def nat_add_distrib)
    qed
    with v show ?thesis by auto
  qed
qed

text \<open>
  C22: bringing two blocks of values to a common exponent keeps what they stand for, when the difference of
  the exponents does not exceed the range of \<open>i16\<close>: the result's exponent lies between the two, values of the
  block with the larger exponent are multiplied without overflow, values of the other one are divided by
  the power of ten, towards zero, and infinities and staleness markers stay. The smaller exponent is given
  up only as far as some value of the other block forces it: one that would overflow with one more power of
  ten, or a zero or special value when the exponents differ by more than 1024, the most such a value is
  raised by.\<close>

theorem calibrate_scale_correct:
  assumes "\<bar>sint ae - sint be\<bar> < 2 ^ 15" "calibrate_scale a ae b be = (a', b', e)"
  shows "list_all2 (rescaled (sint ae) (sint e)) a a' \<and> list_all2 (rescaled (sint be) (sint e)) b b' \<and>
    min (sint ae) (sint be) \<le> sint e \<and> sint e \<le> max (sint ae) (sint be) \<and>
    (a \<noteq> [] \<and> b \<noteq> [] \<and> min (sint ae) (sint be) < sint e \<longrightarrow>
      (\<exists>v \<in> set (if sint ae < sint be then b else a). raised_most v (max (sint ae) (sint be) - sint e)))"
proof -
  have same: "list_all2 (rescaled x x) l l" for x l by (simp add: rescaled_def list_all2_same)
  consider (eq) "ae = be" | (empty) "ae \<noteq> be" "a = [] \<or> b = []" | (lt) "a \<noteq> []" "b \<noteq> []" "sint ae < sint be"
    | (gt) "a \<noteq> []" "b \<noteq> []" "sint be < sint ae"
    by (metis linorder_less_linear signed_word_eqI)
  then show ?thesis
  proof cases
    case eq
    then show ?thesis using assms(2) same by (auto simp: calibrate_scale_def)
  next
    case empty
    then show ?thesis using assms(2) same by (auto simp: calibrate_scale_def split: if_splits)
  next
    case lt
    then have "ae <s be" "ae \<noteq> be" by (auto simp: word_sless_alt)
    then have c: "calibrate_ordered b be a ae = (b', a', e)"
      using assms(2) lt by (auto simp: calibrate_scale_def split: prod.splits)
    show ?thesis using calibrate_ordered_rescaled [OF lt(3) _ c] assms(1) lt by auto
  next
    case gt
    then have "\<not> ae <s be" "ae \<noteq> be" by (auto simp: word_sless_alt)
    then have c: "calibrate_ordered a ae b be = (a', b', e)"
      using assms(2) gt by (simp add: calibrate_scale_def)
    show ?thesis using calibrate_ordered_rescaled [OF gt(3) _ c] assms(1) gt by auto
  qed
qed

theorem calibrate_scale_witness:
  "\<exists>a' b' e. calibrate_scale [5] 2 [123456] (- 1) = (a', b', e) \<and> list_all2 (rescaled 2 (sint e)) [5] a' \<and>
    list_all2 (rescaled (- 1) (sint e)) [123456] b'"
proof -
  obtain a' b' e where c: "calibrate_scale [5] 2 [123456] (- 1) = (a', b', e)" by (metis prod_cases3)
  have "\<bar>sint (2 :: i16) - sint (- 1 :: i16)\<bar> < 2 ^ 15" by simp
  from calibrate_scale_correct [OF this c] c show ?thesis by auto
qed

end
