(* ===== verification/Sample_Merge.thy ===== *)
theory Sample_Merge
  imports Storage_Block Decimal "HOL-Library.Multiset"
begin

text \<open>
  Merging two blocks of one series (\<open>crates/esm-storage/src/block_stream/merger.rs\<close>): both are
  unpacked and brought to a common exponent, samples older than the retention deadline are skipped,
  and the rest is merged by timestamp into one block.

  \<open>None\<close> is a panic; \<open>merge_rows_loop\<close> is also \<open>None\<close> if it would not end.
\<close>

section \<open>Model\<close>

definition fixup_block_timestamps :: "Block \<Rightarrow> Block option" where
  "fixup_block_timestamps b =
    (case block_timestamps b of
       None \<Rightarrow> None
     | Some ts \<Rightarrow> if ts = [] then None
         else Some (b\<lparr>bk_bh := (bk_bh b)\<lparr>sbh_min_timestamp := ts ! 0, sbh_max_timestamp := last ts\<rparr>\<rparr>))"

text \<open>The rows not consumed yet, and consuming some of them.\<close>

definition rest_ts :: "Block \<Rightarrow> i64 list" where "rest_ts b = drop (bk_next_idx b) (bk_timestamps b)"

definition rest_vs :: "Block \<Rightarrow> i64 list" where "rest_vs b = drop (bk_next_idx b) (bk_values b)"

fun next_rows :: "nat \<Rightarrow> Block \<Rightarrow> Block" where
  "next_rows 0 b = b"
| "next_rows (Suc n) b = next_rows n (fst (next_row b))"

definition append_rows :: "Block \<Rightarrow> Block \<Rightarrow> Block \<times> Block" where
  "append_rows ob ib =
    (ob\<lparr>bk_timestamps := bk_timestamps ob @ rest_ts ib, bk_values := bk_values ob @ rest_vs ib\<rparr>,
     next_rows (length (bk_values ib) - bk_next_idx ib) ib)"

fun skip_loop :: "i64 \<Rightarrow> i64 list \<Rightarrow> nat" where
  "skip_loop deadline [] = 0"
| "skip_loop deadline (ts # rest) = (if ts <s deadline then Suc (skip_loop deadline rest) else 0)"

definition skip_samples_outside_retention :: "i64 \<Rightarrow> Block \<Rightarrow> Block \<times> u64" where
  "skip_samples_outside_retention retention_deadline b =
    (if retention_deadline \<le>s sbh_min_timestamp (bk_bh b) then (b, 0)
     else let n = skip_loop retention_deadline (rest_ts b) in (next_rows n b, of_nat n))"

text \<open>
  \<open>partition_point\<close> of an ordered slice. The loop swaps the two blocks in each round; the flag tells
  whether they are swapped.
\<close>

partial_function (option) merge_rows_loop :: "bool \<Rightarrow> Block \<Rightarrow> Block \<Rightarrow> Block \<Rightarrow> (Block \<times> Block \<times> Block) option" where
  "merge_rows_loop swapped ob ib1 ib2 =
    (if rest_ts ib2 = [] then None
     else
       let ts2 = rest_ts ib2 ! 0;
           n = partition_point (\<lambda>ts. ts \<le>s ts2) (rest_ts ib1);
           ob = ob\<lparr>bk_timestamps := bk_timestamps ob @ take n (rest_ts ib1),
                   bk_values := bk_values ob @ take n (rest_vs ib1)\<rparr>;
           ib1 = next_rows n ib1
       in if rest_ts ib1 = [] then
            (case append_rows ob ib2 of (ob, ib2) \<Rightarrow> Some (if swapped then (ob, ib2, ib1) else (ob, ib1, ib2)))
          else merge_rows_loop (\<not> swapped) ob ib2 ib1)"

definition merge_blocks :: "Block \<Rightarrow> Block \<Rightarrow> Block \<Rightarrow> i64 \<Rightarrow> u64 \<Rightarrow> (Block \<times> Block \<times> Block \<times> u64) option" where
  "merge_blocks ob ib1 ib2 retention_deadline rows_deleted =
    (if \<not> (assert_mergeable ib1 ib2 \<and> assert_unmarshaled ib1 \<and> assert_unmarshaled ib2) then None
     else
       case skip_samples_outside_retention retention_deadline ib1 of (ib1, n1) \<Rightarrow>
       (case skip_samples_outside_retention retention_deadline ib2 of (ib2, n2) \<Rightarrow>
        let rows_deleted = rows_deleted + n1 + n2 in
        if sbh_max_timestamp (bk_bh ib1) <s sbh_min_timestamp (bk_bh ib2) then
          case append_rows ob ib1 of (ob, ib1) \<Rightarrow>
          (case append_rows ob ib2 of (ob, ib2) \<Rightarrow> Some (ob, ib1, ib2, rows_deleted))
        else if sbh_max_timestamp (bk_bh ib2) <s sbh_min_timestamp (bk_bh ib1) then
          case append_rows ob ib2 of (ob, ib2) \<Rightarrow>
          (case append_rows ob ib1 of (ob, ib1) \<Rightarrow> Some (ob, ib1, ib2, rows_deleted))
        else if rest_ts ib1 = [] then
          case append_rows ob ib2 of (ob, ib2) \<Rightarrow> Some (ob, ib1, ib2, rows_deleted)
        else if rest_ts ib2 = [] then
          case append_rows ob ib1 of (ob, ib1) \<Rightarrow> Some (ob, ib1, ib2, rows_deleted)
        else
          case merge_rows_loop False ob ib1 ib2 of
            None \<Rightarrow> None
          | Some (ob, ib1, ib2) \<Rightarrow> Some (ob, ib1, ib2, rows_deleted)))"

definition unmarshal_and_calibrate_scale :: "zstd_lib \<Rightarrow> Block \<Rightarrow> Block \<Rightarrow> (block_data_err, Block \<times> Block) res" where
  "unmarshal_and_calibrate_scale Z ba bb =
    rbind (block_unmarshal_data Z ba) (\<lambda>ba.
    rbind (block_unmarshal_data Z bb) (\<lambda>bb.
    case calibrate_scale (bk_values ba) (sbh_scale (bk_bh ba)) (bk_values bb) (sbh_scale (bk_bh bb)) of
      (va, vb, scale) \<Rightarrow>
      Inr (ba\<lparr>bk_values := va, bk_bh := (bk_bh ba)\<lparr>sbh_scale := scale\<rparr>\<rparr>,
           bb\<lparr>bk_values := vb, bk_bh := (bk_bh bb)\<lparr>sbh_scale := scale\<rparr>\<rparr>)))"

text \<open>The rows of a block still to be read, and a block whose rows are ordered and within its header.\<close>

definition rest_rows :: "Block \<Rightarrow> (i64 \<times> i64) list" where "rest_rows b = zip (rest_ts b) (rest_vs b)"

definition rows_ok :: "Block \<Rightarrow> bool" where
  "rows_ok b \<longleftrightarrow> assert_unmarshaled b \<and> non_decreasing (rest_ts b)"

definition in_header :: "Block \<Rightarrow> bool" where
  "in_header b \<longleftrightarrow> (\<forall>t \<in> set (rest_ts b). sbh_min_timestamp (bk_bh b) \<le>s t \<and> t \<le>s sbh_max_timestamp (bk_bh b))"

definition block_rows :: "Block \<Rightarrow> (i64 \<times> i64) list" where "block_rows b = zip (bk_timestamps b) (bk_values b)"

text \<open>What a merge adds to the output block \<open>ob\<close>: the rows \<open>rs\<close>, in order of their timestamps.\<close>

definition extends :: "Block \<Rightarrow> (i64 \<times> i64) multiset \<Rightarrow> Block \<Rightarrow> bool" where
  "extends ob rs ob' \<longleftrightarrow> mset (block_rows ob') = mset (block_rows ob) + rs \<and> non_decreasing (bk_timestamps ob') \<and>
     length (bk_values ob') = length (bk_timestamps ob') \<and>
     ob' = ob\<lparr>bk_timestamps := bk_timestamps ob', bk_values := bk_values ob'\<rparr>"

definition out_ok :: "Block \<Rightarrow> i64 set \<Rightarrow> bool" where
  "out_ok ob T \<longleftrightarrow> length (bk_values ob) = length (bk_timestamps ob) \<and> non_decreasing (bk_timestamps ob) \<and>
     (\<forall>x \<in> set (bk_timestamps ob). \<forall>y \<in> T. sint x \<le> sint y)"

definition merge_measure :: "Block \<Rightarrow> Block \<Rightarrow> nat" where
  "merge_measure ba bb = 2 * (length (rest_ts ba) + length (rest_ts bb)) +
     (if sint (hd (rest_ts bb)) < sint (hd (rest_ts ba)) then 1 else 0)"

definition three_samples :: Block where
  "three_samples = two_samples\<lparr>bk_timestamps := [5, 15, 25], bk_values := [1, 2, 3],
     bk_bh := (bk_bh two_samples)\<lparr>sbh_min_timestamp := 5, sbh_max_timestamp := 25\<rparr>\<rparr>"

section \<open>Rows\<close>

lemma next_rows_idx:
  "bk_next_idx b + n \<le> length (bk_values b) \<Longrightarrow> next_rows n b = b\<lparr>bk_next_idx := bk_next_idx b + n\<rparr>"
  by (induction n arbitrary: b) (simp_all add: next_row_def)

lemma length_rest: "assert_unmarshaled b \<Longrightarrow> length (rest_vs b) = length (rest_ts b)"
  by (simp add: rest_ts_def rest_vs_def assert_unmarshaled_def)

lemma next_rows_rest:
  assumes "assert_unmarshaled b" "n \<le> length (rest_ts b)"
  shows "rest_ts (next_rows n b) = drop n (rest_ts b)" "rest_vs (next_rows n b) = drop n (rest_vs b)"
    "assert_unmarshaled (next_rows n b)" "bk_bh (next_rows n b) = bk_bh b"
    "rest_rows (next_rows n b) = drop n (rest_rows b)"
proof -
  have "bk_next_idx b + n \<le> length (bk_values b)" using assms by (auto simp: assert_unmarshaled_def rest_ts_def)
  note e = next_rows_idx [OF this]
  show r: "rest_ts (next_rows n b) = drop n (rest_ts b)" "rest_vs (next_rows n b) = drop n (rest_vs b)"
    "bk_bh (next_rows n b) = bk_bh b" by (simp_all add: e rest_ts_def rest_vs_def add.commute)
  show "assert_unmarshaled (next_rows n b)"
    using assms by (auto simp: e assert_unmarshaled_def rest_ts_def)
  show "rest_rows (next_rows n b) = drop n (rest_rows b)" by (simp add: rest_rows_def r drop_zip)
qed

lemma block_rows_append:
  "length (bk_values ob) = length (bk_timestamps ob) \<Longrightarrow>
   block_rows (ob\<lparr>bk_timestamps := bk_timestamps ob @ ts, bk_values := bk_values ob @ vs\<rparr>) = block_rows ob @ zip ts vs"
  by (simp add: block_rows_def)

lemma skip_loop_eq: "skip_loop d ts = length (takeWhile (\<lambda>t. t <s d) ts)"
  by (induction ts) auto

lemma non_decreasing_append:
  "non_decreasing (xs @ ys) \<longleftrightarrow> non_decreasing xs \<and> non_decreasing ys \<and> (\<forall>x \<in> set xs. \<forall>y \<in> set ys. sint x \<le> sint y)"
  by (auto simp: non_decreasing_def sorted_append)

lemma non_decreasing_drop: "non_decreasing xs \<Longrightarrow> non_decreasing (drop n xs)"
  by (metis append_take_drop_id non_decreasing_append)

lemma non_decreasing_take: "non_decreasing xs \<Longrightarrow> non_decreasing (take n xs)"
  by (metis append_take_drop_id non_decreasing_append)

section \<open>The merge loop\<close>

lemma extends_trans: "extends ob rs ob' \<Longrightarrow> extends ob' rs' ob'' \<Longrightarrow> extends ob (rs + rs') ob''"
proof -
  assume a: "extends ob rs ob'" "extends ob' rs' ob''"
  have "ob'' = ob\<lparr>bk_timestamps := bk_timestamps ob'', bk_values := bk_values ob''\<rparr>"
    using a by (cases ob; cases ob'; cases ob'') (simp add: extends_def)
  then show ?thesis using a by (simp add: extends_def ac_simps)
qed

lemma append_extends:
  assumes "out_ok ob (set ts)" "length vs = length ts" "non_decreasing ts"
  shows "extends ob (mset (zip ts vs)) (ob\<lparr>bk_timestamps := bk_timestamps ob @ ts, bk_values := bk_values ob @ vs\<rparr>)"
  using assms block_rows_append [where ob = ob and ts = ts and vs = vs] by (auto simp: extends_def out_ok_def non_decreasing_append)

lemma out_ok_append:
  assumes "out_ok ob (set ts)" "length vs = length ts" "non_decreasing ts" "\<forall>x \<in> set (bk_timestamps ob) \<union> set ts. \<forall>y \<in> T. sint x \<le> sint y"
  shows "out_ok (ob\<lparr>bk_timestamps := bk_timestamps ob @ ts, bk_values := bk_values ob @ vs\<rparr>) T"
  using assms by (auto simp: out_ok_def non_decreasing_append)

lemma append_rows_extends:
  assumes "out_ok ob (set (rest_ts ib))" "rows_ok ib"
  shows "extends ob (mset (rest_rows ib)) (fst (append_rows ob ib))" "rest_ts (snd (append_rows ob ib)) = []"
proof -
  show "extends ob (mset (rest_rows ib)) (fst (append_rows ob ib))"
    using append_extends [of ob "rest_ts ib" "rest_vs ib"] assms length_rest [of ib]
    by (simp add: append_rows_def rest_rows_def rows_ok_def)
  have "length (bk_values ib) - bk_next_idx ib = length (rest_ts ib)"
    using assms(2) by (simp add: rows_ok_def assert_unmarshaled_def rest_ts_def)
  then show "rest_ts (snd (append_rows ob ib)) = []"
    using next_rows_rest(1) [of ib "length (rest_ts ib)"] assms(2) by (simp add: append_rows_def rows_ok_def)
qed

text \<open>One round consumes the rows of \<open>ib1\<close> up to the first timestamp of \<open>ib2\<close>.\<close>

lemma partition_split:
  assumes "non_decreasing ts" "n = partition_point (\<lambda>t. t \<le>s u) ts"
  shows "\<forall>x \<in> set (take n ts). sint x \<le> sint u" "\<forall>x \<in> set (drop n ts). sint u < sint x" "n \<le> length ts"
proof -
  have tw: "take n ts = takeWhile (\<lambda>t. t \<le>s u) ts" "drop n ts = dropWhile (\<lambda>t. t \<le>s u) ts"
    unfolding assms(2) partition_point_def by (rule takeWhile_eq_take [symmetric], rule dropWhile_eq_drop [symmetric])
  show "\<forall>x \<in> set (take n ts). sint x \<le> sint u" using set_takeWhileD unfolding tw word_sle_eq by fastforce
  show "n \<le> length ts" by (simp add: assms(2) partition_point_def length_takeWhile_le)
  show "\<forall>x \<in> set (drop n ts). sint u < sint x"
  proof (cases "drop n ts")
    case (Cons y ys)
    then have "\<not> y \<le>s u" using hd_dropWhile [of "\<lambda>t. t \<le>s u" ts] tw(2) by fastforce
    then have "sint u < sint y" by (simp add: word_sle_eq)
    moreover have "non_decreasing (y # ys)" using non_decreasing_drop [OF assms(1), of n] Cons by simp
    ultimately show ?thesis unfolding Cons by (auto simp: non_decreasing_def)
  qed simp
qed

lemma merge_round_output:
  assumes ok: "rows_ok ba" "rows_ok bb" "rest_ts bb \<noteq> []" "out_ok ob (set (rest_ts ba) \<union> set (rest_ts bb))"
    and n: "n = partition_point (\<lambda>t. t \<le>s rest_ts bb ! 0) (rest_ts ba)"
    and ob1: "ob1 = ob\<lparr>bk_timestamps := bk_timestamps ob @ take n (rest_ts ba), bk_values := bk_values ob @ take n (rest_vs ba)\<rparr>"
  shows "extends ob (mset (take n (rest_rows ba))) ob1" "out_ok ob1 (set (drop n (rest_ts ba)) \<union> set (rest_ts bb))"
proof -
  have A: "assert_unmarshaled ba" "non_decreasing (rest_ts ba)" "non_decreasing (rest_ts bb)"
    using ok(1,2) by (simp_all add: rows_ok_def)
  note S = partition_split [OF A(2) n]
  have t: "out_ok ob (set (take n (rest_ts ba)))" "length (take n (rest_vs ba)) = length (take n (rest_ts ba))"
    "non_decreasing (take n (rest_ts ba))"
    using ok(4) length_rest [OF A(1)] non_decreasing_take [OF A(2)] by (auto simp: out_ok_def dest: in_set_takeD)
  show "extends ob (mset (take n (rest_rows ba))) ob1"
    using append_extends [OF t] by (simp add: ob1 rest_rows_def take_zip)
  have "\<forall>y \<in> set (rest_ts bb). sint (rest_ts bb ! 0) \<le> sint y"
    using ok(3) A(3) by (cases "rest_ts bb") (auto simp: non_decreasing_def)
  then have "\<forall>x \<in> set (take n (rest_ts ba)). \<forall>y \<in> set (drop n (rest_ts ba)) \<union> set (rest_ts bb). sint x \<le> sint y"
    using S(1,2) by fastforce
  moreover have "\<forall>x \<in> set (bk_timestamps ob). \<forall>y \<in> set (drop n (rest_ts ba)) \<union> set (rest_ts bb). sint x \<le> sint y"
    using ok(4) by (auto simp: out_ok_def dest: in_set_dropD)
  ultimately show "out_ok ob1 (set (drop n (rest_ts ba)) \<union> set (rest_ts bb))"
    unfolding ob1 by (intro out_ok_append [OF t]) auto
qed

lemma merge_round_decreases:
  assumes "rows_ok ba" "rest_ts ba \<noteq> []" "rest_ts bb \<noteq> []"
    and n: "n = partition_point (\<lambda>t. t \<le>s rest_ts bb ! 0) (rest_ts ba)"
  shows "merge_measure bb (next_rows n ba) < merge_measure ba bb"
proof -
  have A: "assert_unmarshaled ba" "non_decreasing (rest_ts ba)" using assms(1) by (simp_all add: rows_ok_def)
  note S = partition_split [OF A(2) n]
  note N = next_rows_rest [OF A(1) S(3)]
  show ?thesis
  proof (cases "n = 0")
    case True
    then have "sint (rest_ts bb ! 0) < sint (hd (rest_ts ba))" using S(2) assms(2) by simp
    then show ?thesis using True assms(3) by (simp add: merge_measure_def N(1) hd_conv_nth)
  next
    case False
    then show ?thesis using S(3) by (auto simp: merge_measure_def N(1))
  qed
qed

lemma merge_rows_loop_ok:
  "rows_ok ba \<Longrightarrow> rows_ok bb \<Longrightarrow> rest_ts ba \<noteq> [] \<Longrightarrow> rest_ts bb \<noteq> [] \<Longrightarrow>
   out_ok ob (set (rest_ts ba) \<union> set (rest_ts bb)) \<Longrightarrow>
   \<exists>ob' x y. merge_rows_loop sw ob ba bb = Some (ob', x, y) \<and>
     extends ob (mset (rest_rows ba) + mset (rest_rows bb)) ob'"
proof (induction "merge_measure ba bb" arbitrary: sw ob ba bb rule: less_induct)
  case less
  define n where "n = partition_point (\<lambda>t. t \<le>s rest_ts bb ! 0) (rest_ts ba)"
  define ob1 where "ob1 = ob\<lparr>bk_timestamps := bk_timestamps ob @ take n (rest_ts ba),
    bk_values := bk_values ob @ take n (rest_vs ba)\<rparr>"
  have A: "assert_unmarshaled ba" "non_decreasing (rest_ts ba)" using less.prems(1) by (simp_all add: rows_ok_def)
  note N = next_rows_rest [OF A(1) partition_split(3) [OF A(2) n_def]]
  note out = merge_round_output [OF less.prems(1,2,4,5) n_def ob1_def]
  have ok2: "rows_ok (next_rows n ba)" using N(1,3) non_decreasing_drop [OF A(2)] by (simp add: rows_ok_def)
  have step: "merge_rows_loop sw ob ba bb = (if rest_ts (next_rows n ba) = [] then
      (case append_rows ob1 bb of (ob, ib2) \<Rightarrow> Some (if sw then (ob, ib2, next_rows n ba) else (ob, next_rows n ba, ib2)))
      else merge_rows_loop (\<not> sw) ob1 bb (next_rows n ba))"
    using less.prems(4) by (subst merge_rows_loop.simps) (simp only: Let_def if_False n_def [symmetric] ob1_def [symmetric])
  have rows: "mset (rest_rows ba) = mset (take n (rest_rows ba)) + mset (rest_rows (next_rows n ba))"
    unfolding N(5) by (metis append_take_drop_id mset_append)
  show ?case
  proof (cases "rest_ts (next_rows n ba) = []")
    case True
    have "extends ob1 (mset (rest_rows bb)) (fst (append_rows ob1 bb))"
      using append_rows_extends(1) [OF _ less.prems(2)] out(2) by (auto simp: out_ok_def)
    from extends_trans [OF out(1) this]
    have "extends ob (mset (rest_rows ba) + mset (rest_rows bb)) (fst (append_rows ob1 bb))"
      using True rows by (simp add: rest_rows_def)
    then show ?thesis using step True by (cases "append_rows ob1 bb") auto
  next
    case False
    from less.hyps [OF merge_round_decreases [OF less.prems(1,3,4) n_def] less.prems(2) ok2 less.prems(4) False, of ob1 "\<not> sw"] out(2)
    obtain ob' x y where L: "merge_rows_loop (\<not> sw) ob1 bb (next_rows n ba) = Some (ob', x, y)"
      and E: "extends ob1 (mset (rest_rows bb) + mset (rest_rows (next_rows n ba))) ob'" by (auto simp: N(1) Un_commute)
    have "extends ob (mset (rest_rows ba) + mset (rest_rows bb)) ob'"
      using extends_trans [OF out(1) E] by (simp only: rows ac_simps)
    then show ?thesis using step False L by auto
  qed
qed

section \<open>Retention\<close>

lemma skip_samples_rows:
  assumes "rows_ok b" "in_header b" "skip_samples_outside_retention d b = (b', n)"
  shows "rows_ok b'" "in_header b'" "bk_bh b' = bk_bh b"
    "rest_rows b' = filter (\<lambda>(t, v). d \<le>s t) (rest_rows b)"
    "n = of_nat (length (filter (\<lambda>(t, v). \<not> d \<le>s t) (rest_rows b)))"
proof -
  have A: "assert_unmarshaled b" "non_decreasing (rest_ts b)" using assms(1) by (simp_all add: rows_ok_def)
  define k where "k = (if d \<le>s sbh_min_timestamp (bk_bh b) then 0 else skip_loop d (rest_ts b))"
  have kl: "k \<le> length (rest_ts b)" by (simp add: k_def skip_loop_eq length_takeWhile_le)
  have b': "b' = next_rows k b" "n = of_nat k"
    using assms(3) by (auto simp: skip_samples_outside_retention_def k_def Let_def split: if_splits)
  note N = next_rows_rest [OF A(1) kl]
  show "rows_ok b'" "bk_bh b' = bk_bh b"
    using N non_decreasing_drop [OF A(2)] by (simp_all add: b' rows_ok_def)
  show "in_header b'" using assms(2) N(1,4) by (auto simp: b' in_header_def dest: in_set_dropD)
  have lo: "\<not> d \<le>s x" if "x \<in> set (take k (rest_ts b))" for x
    using that set_takeWhileD [of x "\<lambda>t. t <s d" "rest_ts b"]
    by (auto simp: k_def skip_loop_eq takeWhile_eq_take [symmetric] word_sle_eq word_sless_alt split: if_splits)
  have hi: "d \<le>s x" if mem: "x \<in> set (drop k (rest_ts b))" for x
  proof (cases "d \<le>s sbh_min_timestamp (bk_bh b)")
    case True
    then show ?thesis using mem assms(2) by (auto simp: k_def in_header_def word_sle_eq intro: order_trans)
  next
    case False
    then have dk: "drop k (rest_ts b) = dropWhile (\<lambda>t. t <s d) (rest_ts b)"
      by (simp add: k_def skip_loop_eq dropWhile_eq_drop)
    obtain y ys where y: "drop k (rest_ts b) = y # ys" using mem by (cases "drop k (rest_ts b)") auto
    then have "\<not> y <s d" using hd_dropWhile [of "\<lambda>t. t <s d" "rest_ts b"] dk by fastforce
    moreover have "sint y \<le> sint x" using mem non_decreasing_drop [OF A(2), of k] y by (auto simp: non_decreasing_def)
    ultimately show ?thesis by (simp add: word_sle_eq word_sless_alt)
  qed
  have z: "rest_rows b = take k (rest_rows b) @ drop k (rest_rows b)" by simp
  have f: "filter (\<lambda>(t, v). d \<le>s t) (take k (rest_rows b)) = []"
    "filter (\<lambda>(t, v). d \<le>s t) (drop k (rest_rows b)) = drop k (rest_rows b)"
    "filter (\<lambda>(t, v). \<not> d \<le>s t) (take k (rest_rows b)) = take k (rest_rows b)"
    "filter (\<lambda>(t, v). \<not> d \<le>s t) (drop k (rest_rows b)) = []"
    using lo hi by (auto simp: rest_rows_def take_zip drop_zip filter_empty_conv filter_id_conv dest: set_zip_leftD)
  show "rest_rows b' = filter (\<lambda>(t, v). d \<le>s t) (rest_rows b)"
    by (subst z) (simp only: filter_append f b' N(5) append_Nil)
  have "length (take k (rest_rows b)) = k" using kl length_rest [OF A(1)] by (simp add: rest_rows_def)
  then show "n = of_nat (length (filter (\<lambda>(t, v). \<not> d \<le>s t) (rest_rows b)))"
    by (subst z) (simp only: filter_append f b' append_Nil2)
qed

section \<open>Merging two blocks\<close>

lemma rest_rows_ts: "assert_unmarshaled b \<Longrightarrow> rest_ts b = map fst (rest_rows b)"
  using length_rest [of b] by (simp add: rest_rows_def)

lemma out_ok_append_rows:
  assumes "out_ok ob (set (rest_ts ib))" "rows_ok ib" "\<forall>x \<in> set (bk_timestamps ob) \<union> set (rest_ts ib). \<forall>y \<in> T. sint x \<le> sint y"
  shows "out_ok (fst (append_rows ob ib)) T"
  using out_ok_append [OF assms(1) _ _ assms(3)] length_rest [of ib] assms(2)
  by (simp add: append_rows_def rows_ok_def)

lemma append_two_extends:
  assumes "bk_timestamps ob = []" "bk_values ob = []" "rows_ok ba" "rows_ok bb"
    "\<forall>x \<in> set (rest_ts ba). \<forall>y \<in> set (rest_ts bb). sint x \<le> sint y"
  shows "extends ob (mset (rest_rows ba) + mset (rest_rows bb)) (fst (append_rows (fst (append_rows ob ba)) bb))"
proof -
  have o: "out_ok ob T" for T using assms(1,2) by (simp add: out_ok_def non_decreasing_def)
  have "out_ok (fst (append_rows ob ba)) (set (rest_ts bb))"
    using assms(1,5) by (intro out_ok_append_rows [OF o assms(3)]) simp
  then show ?thesis using extends_trans append_rows_extends(1) [OF o assms(3)] append_rows_extends(1) assms(4) by blast
qed

lemma merge_blocks_rows:
  assumes "assert_mergeable ib1 ib2" "rows_ok ib1" "rows_ok ib2" "in_header ib1" "in_header ib2"
    "bk_timestamps ob = []" "bk_values ob = []"
  shows "\<exists>ob' x y. merge_blocks ob ib1 ib2 d del = Some (ob', x, y,
      del + of_nat (length (filter (\<lambda>(t, v). \<not> d \<le>s t) (rest_rows ib1))) + of_nat (length (filter (\<lambda>(t, v). \<not> d \<le>s t) (rest_rows ib2)))) \<and>
    extends ob (mset (filter (\<lambda>(t, v). d \<le>s t) (rest_rows ib1)) + mset (filter (\<lambda>(t, v). d \<le>s t) (rest_rows ib2))) ob'"
proof -
  obtain ba na where a: "skip_samples_outside_retention d ib1 = (ba, na)" by fastforce
  obtain bb nb where b: "skip_samples_outside_retention d ib2 = (bb, nb)" by fastforce
  note A = skip_samples_rows [OF assms(2,4) a]
  note B = skip_samples_rows [OF assms(3,5) b]
  have U: "assert_unmarshaled ib1" "assert_unmarshaled ib2" "assert_unmarshaled ba" "assert_unmarshaled bb"
    using assms(2,3) A(1) B(1) by (simp_all add: rows_ok_def)
  have o: "out_ok ob T" for T using assms(6,7) by (simp add: out_ok_def non_decreasing_def)
  define R where "R = del + na + nb"
  have "\<exists>ob' x y. merge_blocks ob ib1 ib2 d del = Some (ob', x, y, R) \<and>
    extends ob (mset (rest_rows ba) + mset (rest_rows bb)) ob'"
  proof -
    consider (lt) "sbh_max_timestamp (bk_bh ba) <s sbh_min_timestamp (bk_bh bb)"
      | (gt) "\<not> sbh_max_timestamp (bk_bh ba) <s sbh_min_timestamp (bk_bh bb)"
          "sbh_max_timestamp (bk_bh bb) <s sbh_min_timestamp (bk_bh ba)"
      | (e1) "\<not> sbh_max_timestamp (bk_bh ba) <s sbh_min_timestamp (bk_bh bb)"
          "\<not> sbh_max_timestamp (bk_bh bb) <s sbh_min_timestamp (bk_bh ba)" "rest_ts ba = []"
      | (e2) "\<not> sbh_max_timestamp (bk_bh ba) <s sbh_min_timestamp (bk_bh bb)"
          "\<not> sbh_max_timestamp (bk_bh bb) <s sbh_min_timestamp (bk_bh ba)" "rest_ts ba \<noteq> []" "rest_ts bb = []"
      | (mrg) "\<not> sbh_max_timestamp (bk_bh ba) <s sbh_min_timestamp (bk_bh bb)"
          "\<not> sbh_max_timestamp (bk_bh bb) <s sbh_min_timestamp (bk_bh ba)" "rest_ts ba \<noteq> []" "rest_ts bb \<noteq> []" by blast
    then show ?thesis
    proof cases
      case lt
      have "\<forall>x \<in> set (rest_ts ba). \<forall>y \<in> set (rest_ts bb). sint x \<le> sint y"
        using lt A(2) B(2) by (fastforce simp: in_header_def word_sle_eq word_sless_alt)
      then show ?thesis using append_two_extends [OF assms(6,7) A(1) B(1)] lt U(1,2) assms(1)
        by (auto simp: merge_blocks_def a b Let_def R_def split: prod.splits)
    next
      case gt
      have "\<forall>x \<in> set (rest_ts bb). \<forall>y \<in> set (rest_ts ba). sint x \<le> sint y"
        using gt A(2) B(2) by (fastforce simp: in_header_def word_sle_eq word_sless_alt)
      then show ?thesis using append_two_extends [OF assms(6,7) B(1) A(1)] gt U(1,2) assms(1)
        by (auto simp: merge_blocks_def a b Let_def R_def add.commute split: prod.splits)
    next
      case e1
      then have "rest_rows ba = []" by (simp add: rest_rows_def)
      then show ?thesis using append_rows_extends(1) [OF o B(1)] e1 U(1,2) assms(1)
        by (auto simp: merge_blocks_def a b Let_def R_def split: prod.splits)
    next
      case e2
      then have "rest_rows bb = []" by (simp add: rest_rows_def)
      then show ?thesis using append_rows_extends(1) [OF o A(1)] e2 U(1,2) assms(1)
        by (auto simp: merge_blocks_def a b Let_def R_def split: prod.splits)
    next
      case mrg
      obtain ob' x y where "merge_rows_loop False ob ba bb = Some (ob', x, y)"
        "extends ob (mset (rest_rows ba) + mset (rest_rows bb)) ob'"
        using merge_rows_loop_ok [OF A(1) B(1) mrg(3,4) o] by blast
      then show ?thesis using mrg U(1,2) assms(1) by (auto simp: merge_blocks_def a b Let_def R_def)
    qed
  qed
  then show ?thesis by (simp only: A(4,5) B(4,5) R_def)
qed

section \<open>Properties\<close>

text \<open>
  C12: merging two blocks of one series ends without a panic, and adds to the empty output block
  exactly the rows of both blocks that are not older than the retention deadline, in the order of
  their timestamps and under the output block's own header; the older rows are counted as deleted.\<close>

theorem merge_blocks_correct:
  assumes "assert_mergeable ib1 ib2" "rows_ok ib1" "rows_ok ib2" "in_header ib1" "in_header ib2"
    "bk_timestamps ob = []" "bk_values ob = []"
  shows "\<exists>ob' x y. merge_blocks ob ib1 ib2 d del = Some (ob', x, y,
      del + of_nat (length (filter (\<lambda>(t, v). \<not> d \<le>s t) (rest_rows ib1))) + of_nat (length (filter (\<lambda>(t, v). \<not> d \<le>s t) (rest_rows ib2)))) \<and>
    mset (block_rows ob') = mset (filter (\<lambda>(t, v). d \<le>s t) (rest_rows ib1)) + mset (filter (\<lambda>(t, v). d \<le>s t) (rest_rows ib2)) \<and>
    non_decreasing (bk_timestamps ob') \<and> length (bk_values ob') = length (bk_timestamps ob') \<and> bk_bh ob' = bk_bh ob"
proof -
  have e: "block_rows ob = []" using assms(6) by (simp add: block_rows_def)
  have h: "extends ob rs ob' \<Longrightarrow> mset (block_rows ob') = rs \<and> non_decreasing (bk_timestamps ob') \<and>
    length (bk_values ob') = length (bk_timestamps ob') \<and> bk_bh ob' = bk_bh ob" for rs ob'
    using e by (cases ob; cases ob') (simp add: extends_def)
  show ?thesis using merge_blocks_rows [OF assms, of d del] h by blast
qed

theorem merge_blocks_correct_witness:
  "\<exists>ob' x y. merge_blocks block_default (two_samples\<lparr>bk_bh := (bk_bh two_samples)\<lparr>sbh_min_timestamp := 10, sbh_max_timestamp := 20\<rparr>\<rparr>)
      three_samples 6 0 = Some (ob', x, y, 1) \<and>
    mset (block_rows ob') = {# (10, 7), (20, 5), (15, 2), (25, 3) #} \<and> non_decreasing (bk_timestamps ob')"
  using merge_blocks_correct [of "two_samples\<lparr>bk_bh := (bk_bh two_samples)\<lparr>sbh_min_timestamp := 10, sbh_max_timestamp := 20\<rparr>\<rparr>"
      three_samples block_default 6 0]
  by (simp add: three_samples_def two_samples_def block_default_def assert_mergeable_def rows_ok_def in_header_def assert_unmarshaled_def
      non_decreasing_def rest_ts_def rest_rows_def rest_vs_def word_sle_eq add_mset_commute) blast

end
