(* ===== verification/Sample_Stream.thy ===== *)
theory Sample_Stream
  imports Storage_Block Block_Stream_Correct
begin

text \<open>
  Writing the four streams of a part of samples and reading its blocks back
  (\<open>crates/esm-storage/src/block_stream/writer.rs\<close>, \<open>reader.rs\<close>, \<open>part/header.rs\<close> and the buffers of
  \<open>part/inmemory.rs\<close>).

  The stream types are the same enumerations as in the mergeset (\<open>stream_writer\<close>, \<open>stream_reader\<close>); a
  file behaves like the memory buffer with its contents. Scratch buffers that are cleared before each
  use are local values, and the two global counters of shared timestamp blocks are left out. \<open>None\<close> is
  a panic. The deduplication interval is the global setting the writer reads.
\<close>

section \<open>Part headers\<close>

record PartHeader =
  sph_rows_count :: u64
  sph_blocks_count :: u64
  sph_min_timestamp :: i64
  sph_max_timestamp :: i64
  sph_min_dedup_interval :: i64

definition sph_default :: PartHeader where
  "sph_default = \<lparr>sph_rows_count = 0, sph_blocks_count = 0, sph_min_timestamp = 2 ^ 63 - 1,
     sph_max_timestamp = - (2 ^ 63), sph_min_dedup_interval = 0\<rparr>"

definition sph_reset :: "PartHeader \<Rightarrow> PartHeader" where "sph_reset ph = sph_default"

text \<open>The checks of \<open>must_read_metadata\<close> on the header that was parsed.\<close>

definition sph_check :: "PartHeader \<Rightarrow> PartHeader option" where
  "sph_check ph =
    (if \<not> sph_min_timestamp ph \<le>s sph_max_timestamp ph then None
     else if \<not> sph_rows_count ph > 0 then None
     else if \<not> sph_blocks_count ph > 0 then None
     else if \<not> sph_blocks_count ph \<le> sph_rows_count ph then None
     else Some ph)"

definition update_part_header :: "Block \<Rightarrow> PartHeader \<Rightarrow> PartHeader" where
  "update_part_header b ph =
    (let ph = ph\<lparr>sph_blocks_count := sph_blocks_count ph + 1,
                 sph_rows_count := sph_rows_count ph + ucast (sbh_rows_count (bk_bh b))\<rparr>;
         ph = (if sbh_min_timestamp (bk_bh b) <s sph_min_timestamp ph
               then ph\<lparr>sph_min_timestamp := sbh_min_timestamp (bk_bh b)\<rparr> else ph)
     in if sph_max_timestamp ph <s sbh_max_timestamp (bk_bh b)
        then ph\<lparr>sph_max_timestamp := sbh_max_timestamp (bk_bh b)\<rparr> else ph)"

section \<open>The writer\<close>

record BlockStreamWriter =
  sbw_compress_level :: int
  sbw_timestamps_writer :: stream_writer
  sbw_values_writer :: stream_writer
  sbw_index_writer :: stream_writer
  sbw_metaindex_writer :: stream_writer
  sbw_mr :: MetaindexRow
  sbw_timestamps_block_offset :: u64
  sbw_values_block_offset :: u64
  sbw_index_block_offset :: u64
  sbw_index_data :: bytes
  sbw_metaindex_data :: bytes
  sbw_prev_timestamps_data :: bytes
  sbw_prev_timestamps_block_offset :: u64

definition sbw_new_inmemory_part :: "int \<Rightarrow> BlockStreamWriter" where
  "sbw_new_inmemory_part level =
    \<lparr>sbw_compress_level = level, sbw_timestamps_writer = WMem [], sbw_values_writer = WMem [],
     sbw_index_writer = WMem [], sbw_metaindex_writer = WMem [], sbw_mr = smr_default,
     sbw_timestamps_block_offset = 0, sbw_values_block_offset = 0, sbw_index_block_offset = 0,
     sbw_index_data = [], sbw_metaindex_data = [], sbw_prev_timestamps_data = [],
     sbw_prev_timestamps_block_offset = 0\<rparr>"

definition sbw_flush_index_data :: "zstd_lib \<Rightarrow> BlockStreamWriter \<Rightarrow> BlockStreamWriter option" where
  "sbw_flush_index_data Z w =
    (if sbw_index_data w = [] then Some w
     else
       case compress_zstd_level Z [] (sbw_index_data w) (sbw_compress_level w) of
         None \<Rightarrow> None
       | Some packed \<Rightarrow>
         if \<not> length packed < 2 ^ 32 then None
         else
           case sw_must_write (sbw_index_writer w) packed of
             None \<Rightarrow> None
           | Some iw \<Rightarrow>
             let mr = (sbw_mr w)\<lparr>smr_index_block_offset := sbw_index_block_offset w,
                        smr_index_block_size := of_nat (length packed)\<rparr>
             in Some (w\<lparr>sbw_index_writer := iw,
                        sbw_metaindex_data := smr_marshal mr (sbw_metaindex_data w),
                        sbw_index_block_offset := sbw_index_block_offset w + of_nat (length packed),
                        sbw_index_data := [], sbw_mr := smr_reset mr\<rparr>))"

text \<open>The part of \<open>write_external_block\<close> that stores a marshaled block.\<close>

definition sbw_store_block ::
  "zstd_lib \<Rightarrow> bool \<Rightarrow> BlockStreamWriter \<Rightarrow> Block \<Rightarrow> BlockStreamWriter option" where
  "sbw_store_block Z use_prev_timestamps w b =
    (case (if length (sbw_index_data w) + length (bk_header_data b) > MAX_BLOCK_SIZE
           then sbw_flush_index_data Z w else Some w) of
       None \<Rightarrow> None
     | Some w \<Rightarrow>
       let w = w\<lparr>sbw_index_data := sbw_index_data w @ bk_header_data b\<rparr>
       in case (if use_prev_timestamps then Some w
                else map_option (\<lambda>tw. w\<lparr>sbw_prev_timestamps_data := bk_timestamps_data b,
                         sbw_prev_timestamps_block_offset := sbw_timestamps_block_offset w,
                         sbw_timestamps_writer := tw,
                         sbw_timestamps_block_offset :=
                           sbw_timestamps_block_offset w + of_nat (length (bk_timestamps_data b))\<rparr>)
                       (sw_must_write (sbw_timestamps_writer w) (bk_timestamps_data b))) of
            None \<Rightarrow> None
          | Some w \<Rightarrow>
            (case sw_must_write (sbw_values_writer w) (bk_values_data b) of
               None \<Rightarrow> None
             | Some vw \<Rightarrow>
               Some (w\<lparr>sbw_values_writer := vw,
                       sbw_values_block_offset := sbw_values_block_offset w + of_nat (length (bk_values_data b)),
                       sbw_mr := register_block_header (sbw_mr w) (bk_bh b)\<rparr>)))"

definition write_external_block :: "zstd_lib \<Rightarrow> int \<Rightarrow> BlockStreamWriter \<Rightarrow> Block \<Rightarrow> PartHeader \<Rightarrow> u64 \<Rightarrow>
    (BlockStreamWriter \<times> Block \<times> PartHeader \<times> u64) option" where
  "write_external_block Z dedup_interval w b ph rows_merged =
    (let rows_merged = rows_merged + of_nat (pending_rows_count b) in
     case block_dedup_during_merge Z dedup_interval b of None \<Rightarrow> None | Some b \<Rightarrow>
     (case block_marshal_data Z (sbw_timestamps_block_offset w) (sbw_values_block_offset w) b of
        None \<Rightarrow> None
      | Some b \<Rightarrow>
        let use_prev_timestamps = (sbw_prev_timestamps_data w \<noteq> [] \<and> bk_timestamps_data b = sbw_prev_timestamps_data w);
            timestamps_block_offset =
              (if use_prev_timestamps then sbw_prev_timestamps_block_offset w else sbw_timestamps_block_offset w)
        in case block_marshal_data Z timestamps_block_offset (sbw_values_block_offset w) b of
             None \<Rightarrow> None
           | Some b \<Rightarrow>
             (case sbw_store_block Z use_prev_timestamps w b of
                None \<Rightarrow> None
              | Some w \<Rightarrow> Some (w, b, update_part_header b ph, rows_merged))))"

text \<open>The four buffers in the order timestamps, values, index, metaindex.\<close>

definition sbw_must_close ::
  "zstd_lib \<Rightarrow> BlockStreamWriter \<Rightarrow> (BlockStreamWriter \<times> bytes \<times> bytes \<times> bytes \<times> bytes) option" where
  "sbw_must_close Z w =
    (case sbw_flush_index_data Z w of
       None \<Rightarrow> None
     | Some w \<Rightarrow>
     (case compress_zstd_level Z [] (sbw_metaindex_data w) (sbw_compress_level w) of
        None \<Rightarrow> None
      | Some packed \<Rightarrow>
      (case sw_must_write (sbw_metaindex_writer w) packed of
         None \<Rightarrow> None
       | Some mw \<Rightarrow>
       (case (sw_must_close (sbw_timestamps_writer w), sw_must_close (sbw_values_writer w),
              sw_must_close (sbw_index_writer w), sw_must_close mw) of
          (Some (tw, t), Some (vw, v), Some (iw, i), Some (mw, m)) \<Rightarrow>
            Some (w\<lparr>sbw_timestamps_writer := tw, sbw_values_writer := vw, sbw_index_writer := iw,
                    sbw_metaindex_writer := mw\<rparr>, t, v, i, m)
        | _ \<Rightarrow> None))))"

section \<open>Parts in memory\<close>

record InmemoryPart =
  smp_ph :: PartHeader
  smp_timestamps_data :: bytes
  smp_values_data :: bytes
  smp_index_data :: bytes
  smp_metaindex_data :: bytes

definition smp_from_buffers :: "PartHeader \<Rightarrow> bytes \<times> bytes \<times> bytes \<times> bytes \<Rightarrow> InmemoryPart" where
  "smp_from_buffers ph bufs =
    (case bufs of (t, v, i, m) \<Rightarrow>
      \<lparr>smp_ph = ph, smp_timestamps_data = t, smp_values_data = v, smp_index_data = i, smp_metaindex_data = m\<rparr>)"

definition smp_size :: "InmemoryPart \<Rightarrow> u64" where
  "smp_size mp = of_nat (length (smp_timestamps_data mp) + length (smp_values_data mp)
     + length (smp_index_data mp) + length (smp_metaindex_data mp))"

section \<open>The reader\<close>

datatype sbr_detail =
    SampleHeadersCount u64 u32 u32
  | SampleIndexOffset u64 u64
  | RowMinTimestamp i64 i64
  | RowMaxTimestamp i64 i64
  | SampleIndexZstd u64 zstd_err
  | ShortIndexData u64 nat
  | SampleHeader u64 sbh_err
  | TooManySampleBlocks u64 u64
  | TooManyRows u64 u64
  | HeaderMinTimestamp u64 i64 i64
  | HeaderMaxTimestamp u64 i64 i64
  | TimestampsSizeMismatch u64 u32 nat
  | TimestampsOffsetMismatch u64 u64 u64
  | ValuesOffsetMismatch u64 u64 u64
  | SampleData block_data_err
  | UnsortedTsid Tsid Tsid

datatype sbr_err = SampleEof | SampleOther sbr_detail

record BlockStreamReader =
  sbr_block :: Block
  sbr_tsid_prev :: Tsid
  sbr_ph :: PartHeader
  sbr_timestamps_reader :: stream_reader
  sbr_values_reader :: stream_reader
  sbr_index_reader :: stream_reader
  sbr_mrs :: "MetaindexRow list"
  sbr_mr_idx :: nat
  sbr_cur_mr :: "nat option"
  sbr_rows_count :: u64
  sbr_blocks_count :: u64
  sbr_index_block_headers_count :: u32
  sbr_timestamps_block_offset :: u64
  sbr_values_block_offset :: u64
  sbr_index_block_offset :: u64
  sbr_prev_timestamps_block_offset :: u64
  sbr_prev_timestamps_data :: bytes
  sbr_index_data :: bytes
  sbr_index_cursor :: nat
  sbr_err :: "sbr_err option"

definition sbr_new_empty :: BlockStreamReader where
  "sbr_new_empty =
    \<lparr>sbr_block = block_default, sbr_tsid_prev = tsid_default, sbr_ph = sph_default,
     sbr_timestamps_reader = RClosed, sbr_values_reader = RClosed, sbr_index_reader = RClosed,
     sbr_mrs = [], sbr_mr_idx = 0, sbr_cur_mr = None, sbr_rows_count = 0, sbr_blocks_count = 0,
     sbr_index_block_headers_count = 0, sbr_timestamps_block_offset = 0, sbr_values_block_offset = 0,
     sbr_index_block_offset = 0, sbr_prev_timestamps_block_offset = 0, sbr_prev_timestamps_data = [],
     sbr_index_data = [], sbr_index_cursor = 0, sbr_err = None\<rparr>"

definition sbr_from_inmemory_part :: "zstd_lib \<Rightarrow> InmemoryPart \<Rightarrow> BlockStreamReader option" where
  "sbr_from_inmemory_part Z mp =
    (case smr_unmarshal_metaindex_rows Z (smp_metaindex_data mp) of
       Inl _ \<Rightarrow> None
     | Inr mrs \<Rightarrow>
       Some (sbr_new_empty\<lparr>sbr_ph := smp_ph mp, sbr_timestamps_reader := RMem (smp_timestamps_data mp) 0,
               sbr_values_reader := RMem (smp_values_data mp) 0, sbr_index_reader := RMem (smp_index_data mp) 0,
               sbr_mrs := mrs\<rparr>))"

definition sbr_must_close :: "BlockStreamReader \<Rightarrow> BlockStreamReader" where
  "sbr_must_close r = r\<lparr>sbr_timestamps_reader := RClosed, sbr_values_reader := RClosed, sbr_index_reader := RClosed\<rparr>"

definition prev_index_block_offset :: "BlockStreamReader \<Rightarrow> u64 option" where
  "prev_index_block_offset r =
    (case sbr_cur_mr r of
       Some cur \<Rightarrow> if cur < length (sbr_mrs r)
                   then Some (sbr_index_block_offset r - ucast (smr_index_block_size (sbr_mrs r ! cur))) else None
     | None \<Rightarrow> Some 0)"

text \<open>
  A step of the reader: a panic, or the reader after the step with the error it reports, if any.
  \<open>fail_at\<close> builds an error message that names the offset of the current index block.
\<close>

type_synonym read_step = "(BlockStreamReader \<times> sbr_err option) option"

definition and_then :: "read_step \<Rightarrow> (BlockStreamReader \<Rightarrow> read_step) \<Rightarrow> read_step" where
  "and_then s f = (case s of Some (r, None) \<Rightarrow> f r | _ \<Rightarrow> s)"

definition fail_at :: "BlockStreamReader \<Rightarrow> (u64 \<Rightarrow> sbr_detail) \<Rightarrow> read_step" where
  "fail_at r d = (case prev_index_block_offset r of None \<Rightarrow> None | Some off \<Rightarrow> Some (r, Some (SampleOther (d off))))"

definition read_index_block :: "zstd_lib \<Rightarrow> BlockStreamReader \<Rightarrow> read_step" where
  "read_index_block Z r =
    (if sbr_mr_idx r \<ge> length (sbr_mrs r) then Some (r, Some SampleEof)
     else
       let mr = sbr_mrs r ! sbr_mr_idx r;
           r = r\<lparr>sbr_cur_mr := Some (sbr_mr_idx r), sbr_mr_idx := sbr_mr_idx r + 1\<rparr>
       in if sbr_index_block_offset r \<noteq> smr_index_block_offset mr
          then Some (r, Some (SampleOther (SampleIndexOffset (smr_index_block_offset mr) (sbr_index_block_offset r))))
          else if smr_min_timestamp mr <s sph_min_timestamp (sbr_ph r)
          then Some (r, Some (SampleOther (RowMinTimestamp (smr_min_timestamp mr) (sph_min_timestamp (sbr_ph r)))))
          else if sph_max_timestamp (sbr_ph r) <s smr_max_timestamp mr
          then Some (r, Some (SampleOther (RowMaxTimestamp (smr_max_timestamp mr) (sph_max_timestamp (sbr_ph r)))))
          else
            case sr_must_read (sbr_index_reader r) (unat (smr_index_block_size mr)) of
              None \<Rightarrow> None
            | Some (xr, packed) \<Rightarrow>
              (case decompress_zstd Z [] packed of
                 Inl Panic \<Rightarrow> None
               | Inl (Err e) \<Rightarrow>
                   Some (r\<lparr>sbr_index_reader := xr, sbr_index_data := []\<rparr>,
                     Some (SampleOther (SampleIndexZstd (sbr_index_block_offset r) e)))
               | Inr data \<Rightarrow>
                   Some (r\<lparr>sbr_index_reader := xr, sbr_index_data := data, sbr_index_cursor := 0,
                     sbr_index_block_offset := sbr_index_block_offset r + ucast (smr_index_block_size mr)\<rparr>, None)))"

text \<open>The beginning of \<open>read_block\<close>: the next index block, when the current one is used up.\<close>

definition next_index_block :: "zstd_lib \<Rightarrow> BlockStreamReader \<Rightarrow> read_step" where
  "next_index_block Z r =
    (if sbr_index_cursor r < length (sbr_index_data r) then Some (r, None)
     else
       and_then
        (case sbr_cur_mr r of
           None \<Rightarrow> Some (r, None)
         | Some cur \<Rightarrow>
           if \<not> cur < length (sbr_mrs r) then None
           else if sbr_index_block_headers_count r \<noteq> smr_block_headers_count (sbr_mrs r ! cur)
           then fail_at r (\<lambda>off. SampleHeadersCount off (sbr_index_block_headers_count r)
                  (smr_block_headers_count (sbr_mrs r ! cur)))
           else Some (r, None))
        (\<lambda>r. read_index_block Z (r\<lparr>sbr_index_block_headers_count := 0\<rparr>)))"

definition use_prev_timestamps :: "BlockStreamReader \<Rightarrow> BlockHeader \<Rightarrow> bool" where
  "use_prev_timestamps r bh \<longleftrightarrow> sbr_prev_timestamps_data r \<noteq> []
     \<and> sbh_timestamps_block_offset bh = sbr_prev_timestamps_block_offset r"

text \<open>Counting and validating a header.\<close>

definition validate_header :: "BlockHeader \<Rightarrow> BlockStreamReader \<Rightarrow> read_step" where
  "validate_header bh r =
    (let r = r\<lparr>sbr_blocks_count := sbr_blocks_count r + 1\<rparr> in
     if sbr_blocks_count r > sph_blocks_count (sbr_ph r)
     then Some (r, Some (SampleOther (TooManySampleBlocks (sbr_blocks_count r) (sph_blocks_count (sbr_ph r)))))
     else
       let r = r\<lparr>sbr_rows_count := sbr_rows_count r + ucast (sbh_rows_count bh)\<rparr> in
       if sbr_rows_count r > sph_rows_count (sbr_ph r)
       then Some (r, Some (SampleOther (TooManyRows (sbr_rows_count r) (sph_rows_count (sbr_ph r)))))
       else if sbh_min_timestamp bh <s sph_min_timestamp (sbr_ph r)
       then fail_at r (\<lambda>off. HeaderMinTimestamp off (sbh_min_timestamp bh) (sph_min_timestamp (sbr_ph r)))
       else if sph_max_timestamp (sbr_ph r) <s sbh_max_timestamp bh
       then fail_at r (\<lambda>off. HeaderMaxTimestamp off (sbh_max_timestamp bh) (sph_max_timestamp (sbr_ph r)))
       else if use_prev_timestamps r bh \<and> unat (sbh_timestamps_block_size bh) \<noteq> length (sbr_prev_timestamps_data r)
       then fail_at r (\<lambda>off. TimestampsSizeMismatch off (sbh_timestamps_block_size bh) (length (sbr_prev_timestamps_data r)))
       else if \<not> use_prev_timestamps r bh \<and> sbh_timestamps_block_offset bh \<noteq> sbr_timestamps_block_offset r
       then fail_at r (\<lambda>off. TimestampsOffsetMismatch off (sbh_timestamps_block_offset bh) (sbr_timestamps_block_offset r))
       else if sbh_values_block_offset bh \<noteq> sbr_values_block_offset r
       then fail_at r (\<lambda>off. ValuesOffsetMismatch off (sbh_values_block_offset bh) (sbr_values_block_offset r))
       else Some (r, None))"

text \<open>
  Reading and decoding the data of a valid header. When decoding fails the block is half-written; it
  is left reset here, and the reader refuses to go on.
\<close>

definition read_timestamps :: "BlockHeader \<Rightarrow> BlockStreamReader \<Rightarrow> (BlockStreamReader \<times> bytes) option" where
  "read_timestamps bh r =
    (if use_prev_timestamps r bh then Some (r, sbr_prev_timestamps_data r)
     else
       case sr_must_read (sbr_timestamps_reader r) (unat (sbh_timestamps_block_size bh)) of
         None \<Rightarrow> None
       | Some (tr, data) \<Rightarrow>
         Some (r\<lparr>sbr_timestamps_reader := tr, sbr_prev_timestamps_block_offset := sbr_timestamps_block_offset r,
                 sbr_prev_timestamps_data := data,
                 sbr_timestamps_block_offset := sbr_timestamps_block_offset r + ucast (sbh_timestamps_block_size bh)\<rparr>,
               data))"

definition read_data :: "zstd_lib \<Rightarrow> BlockHeader \<Rightarrow> BlockStreamReader \<Rightarrow> read_step" where
  "read_data Z bh r =
    (case read_timestamps bh r of
       None \<Rightarrow> None
     | Some (r, timestamps_buf) \<Rightarrow>
     (case sr_must_read (sbr_values_reader r) (unat (sbh_values_block_size bh)) of
        None \<Rightarrow> None
      | Some (vr, values_buf) \<Rightarrow>
        let r = r\<lparr>sbr_values_reader := vr,
                  sbr_values_block_offset := sbr_values_block_offset r + ucast (sbh_values_block_size bh),
                  sbr_index_block_headers_count := sbr_index_block_headers_count r + 1\<rparr>
        in case unmarshal_block_data Z (sbr_block r) bh timestamps_buf values_buf of
             Inl Panic \<Rightarrow> None
           | Inl (Err e) \<Rightarrow> Some (r, Some (SampleOther (SampleData e)))
           | Inr blk \<Rightarrow> Some (r\<lparr>sbr_block := blk\<rparr>, None)))"

definition read_sample_block :: "zstd_lib \<Rightarrow> BlockStreamReader \<Rightarrow> read_step" where
  "read_sample_block Z r =
    and_then (next_index_block Z r) (\<lambda>r.
     let index_tail = drop (sbr_index_cursor r) (sbr_index_data r) in
     if length index_tail < MARSHALED_BLOCK_HEADER_SIZE
     then fail_at r (\<lambda>off. ShortIndexData off (length index_tail))
     else case sbh_unmarshal (take MARSHALED_BLOCK_HEADER_SIZE index_tail) of
            Inl Panic \<Rightarrow> None
          | Inl (Err e) \<Rightarrow> fail_at r (\<lambda>off. SampleHeader off e)
          | Inr (bh, _) \<Rightarrow>
            and_then (validate_header bh (r\<lparr>sbr_index_cursor := sbr_index_cursor r + MARSHALED_BLOCK_HEADER_SIZE\<rparr>))
              (read_data Z bh))"

definition sbr_next_block :: "zstd_lib \<Rightarrow> BlockStreamReader \<Rightarrow> (BlockStreamReader \<times> bool) option" where
  "sbr_next_block Z r =
    (if sbr_err r \<noteq> None then Some (r, False)
     else
       let r = r\<lparr>sbr_tsid_prev := sbh_tsid (bk_bh (sbr_block r)), sbr_block := block_reset (sbr_block r)\<rparr>
       in case read_sample_block Z r of
            None \<Rightarrow> None
          | Some (r, None) \<Rightarrow>
            if sbh_tsid (bk_bh (sbr_block r)) < sbr_tsid_prev r
            then Some (r\<lparr>sbr_err := Some (SampleOther (UnsortedTsid (sbh_tsid (bk_bh (sbr_block r))) (sbr_tsid_prev r)))\<rparr>, False)
            else Some (r, True)
          | Some (r, Some e) \<Rightarrow> Some (r\<lparr>sbr_err := Some e\<rparr>, False))"

text \<open>\<open>error\<close>: the last error, except the end of the part.\<close>

definition sbr_error :: "BlockStreamReader \<Rightarrow> sbr_detail option" where
  "sbr_error r = (case sbr_err r of Some (SampleOther d) \<Rightarrow> Some d | _ \<Rightarrow> None)"

end
