(* ===== verification/Sample_Stream_Correct.thy ===== *)
theory Sample_Stream_Correct
  imports Sample_Stream
begin

text \<open>
  What the streams of a part of samples hold, and that the reader returns what the writer was given.

  A part is described by its blocks (\<open>pblock\<close>) in groups, one per index block. \<open>place\<close> is what writer
  and reader know of the streams between two blocks; both move along the same sequence of places
  (\<open>chain\<close>), which fixes the offsets in the headers and which blocks share timestamps. The reader is
  an interpretation of \<open>block_source\<close>, as the reader of the mergeset is.
\<close>

section \<open>Descriptions\<close>

text \<open>A block as it lies in the part: its header, the bytes of its two streams, the samples they decode to.\<close>

record pblock =
  p_h :: BlockHeader
  p_td :: bytes
  p_vd :: bytes
  p_ts :: "i64 list"
  p_vs :: "i64 list"

definition p_ok :: "zstd_lib \<Rightarrow> pblock \<Rightarrow> bool" where
  "p_ok Z s \<longleftrightarrow> sbh_wf (p_h s) \<and> unat (sbh_timestamps_block_size (p_h s)) = length (p_td s)
     \<and> unat (sbh_values_block_size (p_h s)) = length (p_vd s)
     \<and> decode_timestamps Z (p_h s) (p_td s) = Inr (p_ts s) \<and> decode_values Z (p_h s) (p_vd s) = Inr (p_vs s)
     \<and> length (p_ts s) = length (p_vs s)"

text \<open>The block a reader presents.\<close>

definition p_block :: "pblock \<Rightarrow> Block" where
  "p_block s = block_default\<lparr>bk_bh := p_h s, bk_timestamps := p_ts s, bk_values := p_vs s\<rparr>"

text \<open>
  Where the next block goes: the ends of the two streams, and the previous block of timestamps, which
  the next block shares when its bytes are the same.
\<close>

record place =
  pl_to :: nat
  pl_vo :: nat
  pl_prev :: bytes
  pl_po :: nat

definition pl_start :: place where "pl_start = \<lparr>pl_to = 0, pl_vo = 0, pl_prev = [], pl_po = 0\<rparr>"

definition shares :: "place \<Rightarrow> pblock \<Rightarrow> bool" where
  "shares pl s \<longleftrightarrow> pl_prev pl \<noteq> [] \<and> p_td s = pl_prev pl"

definition pl_next :: "place \<Rightarrow> pblock \<Rightarrow> place" where
  "pl_next pl s =
    (if shares pl s then pl\<lparr>pl_vo := pl_vo pl + length (p_vd s)\<rparr>
     else \<lparr>pl_to = pl_to pl + length (p_td s), pl_vo = pl_vo pl + length (p_vd s), pl_prev = p_td s, pl_po = pl_to pl\<rparr>)"

definition placed :: "place \<Rightarrow> pblock \<Rightarrow> bool" where
  "placed pl s \<longleftrightarrow> sbh_timestamps_block_offset (p_h s) = of_nat (if shares pl s then pl_po pl else pl_to pl)
     \<and> sbh_values_block_offset (p_h s) = of_nat (pl_vo pl)"

fun chain :: "place \<Rightarrow> pblock list \<Rightarrow> bool" where
  "chain pl [] \<longleftrightarrow> True"
| "chain pl (s # ss) \<longleftrightarrow> placed pl s \<and> chain (pl_next pl s) ss"

fun td_stream :: "place \<Rightarrow> pblock list \<Rightarrow> bytes" where
  "td_stream pl [] = []"
| "td_stream pl (s # ss) = (if shares pl s then [] else p_td s) @ td_stream (pl_next pl s) ss"

text \<open>An index block: its blocks, its packed headers and its row in the metaindex.\<close>

record sgroup =
  sg_blocks :: "pblock list"
  sg_packed :: bytes
  sg_row :: MetaindexRow

definition shdr_bytes :: "pblock list \<Rightarrow> bytes" where
  "shdr_bytes ss = concat (map (\<lambda>s. sbh_marshal (p_h s) []) ss)"

definition sgroup_ok :: "zstd_lib \<Rightarrow> sgroup \<Rightarrow> bool" where
  "sgroup_ok Z g \<longleftrightarrow> sg_blocks g \<noteq> [] \<and> list_all (p_ok Z) (sg_blocks g)
     \<and> decompress_zstd Z [] (sg_packed g) = Inr (shdr_bytes (sg_blocks g))
     \<and> smr_wf (sg_row g) \<and> unat (smr_index_block_size (sg_row g)) = length (sg_packed g)
     \<and> row_summary (sg_row g) (map p_h (sg_blocks g))"

fun idx_chain :: "nat \<Rightarrow> sgroup list \<Rightarrow> bool" where
  "idx_chain off [] \<longleftrightarrow> True"
| "idx_chain off (g # gs) \<longleftrightarrow> smr_index_block_offset (sg_row g) = of_nat off \<and> idx_chain (off + length (sg_packed g)) gs"

definition groups_blocks :: "sgroup list \<Rightarrow> pblock list" where
  "groups_blocks gs = concat (map sg_blocks gs)"

section \<open>The writer's state\<close>

definition widx_rep :: "zstd_lib \<Rightarrow> BlockStreamWriter \<Rightarrow> sgroup list \<Rightarrow> pblock list \<Rightarrow> bool" where
  "widx_rep Z w gs pend \<longleftrightarrow> list_all (sgroup_ok Z) gs \<and> list_all (p_ok Z) pend \<and> idx_chain 0 gs
     \<and> sbw_metaindex_writer w = WMem [] \<and> sbw_index_writer w = WMem (concat (map sg_packed gs))
     \<and> sbw_index_block_offset w = of_nat (length (concat (map sg_packed gs)))
     \<and> sbw_metaindex_data w = concat (map (\<lambda>g. smr_marshal (sg_row g) []) gs)
     \<and> sbw_index_data w = shdr_bytes pend \<and> length (shdr_bytes pend) \<le> MAX_BLOCK_SIZE
     \<and> row_summary (sbw_mr w) (map p_h pend)"

definition wdata_rep :: "BlockStreamWriter \<Rightarrow> pblock list \<Rightarrow> bool" where
  "wdata_rep w ss \<longleftrightarrow> chain pl_start ss
     \<and> sbw_timestamps_writer w = WMem (td_stream pl_start ss)
     \<and> sbw_values_writer w = WMem (concat (map p_vd ss))
     \<and> (let pl = foldl pl_next pl_start ss in
         sbw_timestamps_block_offset w = of_nat (pl_to pl) \<and> sbw_values_block_offset w = of_nat (pl_vo pl)
       \<and> sbw_prev_timestamps_data w = pl_prev pl \<and> sbw_prev_timestamps_block_offset w = of_nat (pl_po pl))"

text \<open>The part header covers the blocks.\<close>

definition sph_rep :: "PartHeader \<Rightarrow> pblock list \<Rightarrow> bool" where
  "sph_rep ph ss \<longleftrightarrow> sph_blocks_count ph = of_nat (length ss)
     \<and> sph_rows_count ph = of_nat (sum_list (map (\<lambda>s. unat (sbh_rows_count (p_h s))) ss))
     \<and> (\<forall>s \<in> set ss. sph_min_timestamp ph \<le>s sbh_min_timestamp (p_h s)
          \<and> sbh_max_timestamp (p_h s) \<le>s sph_max_timestamp ph)"

definition sbw_rep :: "zstd_lib \<Rightarrow> BlockStreamWriter \<Rightarrow> PartHeader \<Rightarrow> pblock list \<Rightarrow> bool" where
  "sbw_rep Z w ph ss \<longleftrightarrow> wdata_rep w ss \<and> sph_rep ph ss
     \<and> (\<exists>gs pend. ss = groups_blocks gs @ pend \<and> widx_rep Z w gs pend)"

text \<open>What is stored of a block: its series, scale and precision, and its samples within that precision.\<close>

definition stores :: "Block \<Rightarrow> pblock \<Rightarrow> bool" where
  "stores b s \<longleftrightarrow> sbh_tsid (p_h s) = sbh_tsid (bk_bh b) \<and> sbh_scale (p_h s) = sbh_scale (bk_bh b)
     \<and> sbh_precision_bits (p_h s) = sbh_precision_bits (bk_bh b)
     \<and> sbh_min_timestamp (p_h s) = hd (p_ts s) \<and> sbh_max_timestamp (p_h s) = last (p_ts s)
     \<and> unat (sbh_rows_count (p_h s)) = length (p_ts s)
     \<and> samples_kept (unat (sbh_precision_bits (bk_bh b))) (drop (bk_next_idx b) (bk_timestamps b))
         (drop (bk_next_idx b) (bk_values b)) (p_ts s) (p_vs s)"

definition spart_rep :: "zstd_lib \<Rightarrow> bytes \<times> bytes \<times> bytes \<times> bytes \<Rightarrow> sgroup list \<Rightarrow> bool" where
  "spart_rep Z bufs gs \<longleftrightarrow> (case bufs of (t, v, i, m) \<Rightarrow>
     list_all (sgroup_ok Z) gs \<and> idx_chain 0 gs \<and> chain pl_start (groups_blocks gs)
     \<and> t = td_stream pl_start (groups_blocks gs) \<and> v = concat (map p_vd (groups_blocks gs))
     \<and> i = concat (map sg_packed gs)
     \<and> decompress_zstd Z [] m = Inr (concat (map (\<lambda>g. smr_marshal (sg_row g) []) gs)))"

definition pl_ok :: "place \<Rightarrow> bool" where "pl_ok pl \<longleftrightarrow> (pl_prev pl \<noteq> [] \<longrightarrow> pl_po pl < pl_to pl)"

text \<open>
  The reader stands at \<open>pl\<close> before the blocks \<open>cur\<close> of the current index block and the index blocks
  \<open>gs\<close>, the first of which lies at \<open>off\<close>.
\<close>

definition rdata_rep :: "BlockStreamReader \<Rightarrow> place \<Rightarrow> pblock list \<Rightarrow> bool" where
  "rdata_rep r pl ss \<longleftrightarrow> chain pl ss \<and> pl_ok pl \<and> pl_to (foldl pl_next pl ss) < 2 ^ 64
     \<and> stream_at (sbr_timestamps_reader r) (td_stream pl ss)
     \<and> stream_at (sbr_values_reader r) (concat (map p_vd ss))
     \<and> sbr_timestamps_block_offset r = of_nat (pl_to pl) \<and> sbr_values_block_offset r = of_nat (pl_vo pl)
     \<and> sbr_prev_timestamps_data r = pl_prev pl \<and> sbr_prev_timestamps_block_offset r = of_nat (pl_po pl)"

definition ridx_rep :: "zstd_lib \<Rightarrow> BlockStreamReader \<Rightarrow> pblock list \<Rightarrow> sgroup list \<Rightarrow> nat \<Rightarrow> bool" where
  "ridx_rep Z r cur gs off \<longleftrightarrow> list_all (p_ok Z) cur \<and> list_all (sgroup_ok Z) gs \<and> idx_chain off gs
     \<and> stream_at (sbr_index_reader r) (concat (map sg_packed gs))
     \<and> sbr_index_block_offset r = of_nat off
     \<and> drop (sbr_index_cursor r) (sbr_index_data r) = shdr_bytes cur
     \<and> drop (sbr_mr_idx r) (sbr_mrs r) = map sg_row gs
     \<and> (case sbr_cur_mr r of None \<Rightarrow> cur = [] | Some k \<Rightarrow> k < length (sbr_mrs r)
          \<and> sbr_index_block_headers_count r + of_nat (length cur) = smr_block_headers_count (sbr_mrs r ! k))"

text \<open>What the cross-checks against the part header still allow.\<close>

definition rchk_rep :: "BlockStreamReader \<Rightarrow> pblock list \<Rightarrow> bool" where
  "rchk_rep r ss \<longleftrightarrow> sbr_err r = None
     \<and> unat (sbr_blocks_count r) + length ss \<le> unat (sph_blocks_count (sbr_ph r))
     \<and> unat (sbr_rows_count r) + sum_list (map (\<lambda>s. unat (sbh_rows_count (p_h s))) ss) \<le> unat (sph_rows_count (sbr_ph r))
     \<and> (\<forall>s \<in> set ss. sph_min_timestamp (sbr_ph r) \<le>s sbh_min_timestamp (p_h s)
          \<and> sbh_max_timestamp (p_h s) \<le>s sph_max_timestamp (sbr_ph r))"

definition tsids_ok :: "Tsid \<Rightarrow> pblock list \<Rightarrow> bool" where
  "tsids_ok t ss \<longleftrightarrow> sorted (t # map (\<lambda>s. sbh_tsid (p_h s)) ss)"

definition sbr_rep :: "zstd_lib \<Rightarrow> BlockStreamReader \<Rightarrow> Block list \<Rightarrow> bool" where
  "sbr_rep Z r bs \<longleftrightarrow> (\<exists>pl cur gs off. let ss = cur @ groups_blocks gs in
     bs = map p_block ss \<and> rdata_rep r pl ss \<and> ridx_rep Z r cur gs off \<and> rchk_rep r ss
     \<and> tsids_ok (sbh_tsid (bk_bh (sbr_block r))) ss)"

text \<open>
  The samples of a block that is stored. With an interval, timestamps must not be negative nor close
  to the end of their range, and the block must be unpacked.
\<close>

definition merged_samples :: "int \<Rightarrow> i64 list \<Rightarrow> i64 list \<Rightarrow> i64 list \<times> i64 list" where
  "merged_samples D ts vs =
    (if D > 0 then (map (word_of_int \<circ> fst) (dedup_spec i64_value D (map sint ts) (map sint vs)),
                    map (word_of_int \<circ> snd) (dedup_spec i64_value D (map sint ts) (map sint vs)))
     else (ts, vs))"

definition dedup_safe :: "int \<Rightarrow> Block \<Rightarrow> bool" where
  "dedup_safe D b \<longleftrightarrow> (D > 0 \<longrightarrow> stamps_ok D (map sint (drop (bk_next_idx b) (bk_timestamps b)))
     \<and> bk_timestamps_data b = [] \<and> bk_values_data b = [])"

fun write_external_blocks :: "zstd_lib \<Rightarrow> int \<Rightarrow> BlockStreamWriter \<Rightarrow> PartHeader \<Rightarrow> u64 \<Rightarrow> Block list \<Rightarrow>
    (BlockStreamWriter \<times> PartHeader \<times> u64) option" where
  "write_external_blocks Z D w ph n [] = Some (w, ph, n)"
| "write_external_blocks Z D w ph n (b # bs) =
    (case write_external_block Z D w b ph n of None \<Rightarrow> None | Some (w, _, ph, n) \<Rightarrow> write_external_blocks Z D w ph n bs)"

definition read_sample_blocks :: "zstd_lib \<Rightarrow> nat \<Rightarrow> BlockStreamReader \<Rightarrow> Block list option" where
  "read_sample_blocks Z = drain (sbr_next_block Z) sbr_block (\<lambda>r. sbr_error r \<noteq> None)"

definition storable :: "int \<Rightarrow> Block \<Rightarrow> bool" where "storable D b \<longleftrightarrow> block_ready b \<and> dedup_safe D b"

text \<open>The block that is read back for a block that was written.\<close>

definition read_back :: "int \<Rightarrow> Block \<Rightarrow> Block \<Rightarrow> bool" where
  "read_back D b r \<longleftrightarrow> sbh_tsid (bk_bh r) = sbh_tsid (bk_bh b) \<and> sbh_scale (bk_bh r) = sbh_scale (bk_bh b)
     \<and> sbh_precision_bits (bk_bh r) = sbh_precision_bits (bk_bh b)
     \<and> sbh_min_timestamp (bk_bh r) = hd (bk_timestamps r) \<and> sbh_max_timestamp (bk_bh r) = last (bk_timestamps r)
     \<and> unat (sbh_rows_count (bk_bh r)) = length (bk_timestamps r)
     \<and> bk_next_idx r = 0 \<and> bk_timestamps_data r = [] \<and> bk_values_data r = []
     \<and> (case merged_samples D (drop (bk_next_idx b) (bk_timestamps b)) (drop (bk_next_idx b) (bk_values b)) of (ts, vs) \<Rightarrow>
          samples_kept (unat (sbh_precision_bits (bk_bh b))) ts vs (bk_timestamps r) (bk_values r))"

section \<open>Placement\<close>

lemma chain_snoc: "chain pl (ss @ [s]) \<longleftrightarrow> chain pl ss \<and> placed (foldl pl_next pl ss) s"
  by (induction ss arbitrary: pl) simp_all

lemma td_stream_snoc:
  "td_stream pl (ss @ [s]) = td_stream pl ss @ (if shares (foldl pl_next pl ss) s then [] else p_td s)"
  by (induction ss arbitrary: pl) simp_all

lemma length_shdr_bytes [simp]: "length (shdr_bytes ss) = MARSHALED_BLOCK_HEADER_SIZE * length ss"
  by (induction ss) (simp_all add: shdr_bytes_def)

lemma shdr_bytes_simps [simp]:
  "shdr_bytes [] = []" "shdr_bytes (s # ss) = sbh_marshal (p_h s) [] @ shdr_bytes ss"
  "shdr_bytes (ss @ ts) = shdr_bytes ss @ shdr_bytes ts"
  by (simp_all add: shdr_bytes_def)

lemma idx_chain_snoc:
  "idx_chain off (gs @ [g]) \<longleftrightarrow> idx_chain off gs \<and>
    smr_index_block_offset (sg_row g) = of_nat (off + length (concat (map sg_packed gs)))"
  by (induction gs arbitrary: off) (simp_all add: add.assoc)

section \<open>Writing\<close>

lemma sbw_flush_rep:
  assumes "zstd_ok Z" "zstd_bounded Z" "widx_rep Z w gs pend" "pend \<noteq> []"
  shows "\<exists>w' g. sbw_flush_index_data Z w = Some w' \<and> sg_blocks g = pend \<and> widx_rep Z w' (gs @ [g]) []
    \<and> w' = w\<lparr>sbw_index_writer := sbw_index_writer w', sbw_metaindex_data := sbw_metaindex_data w',
        sbw_index_block_offset := sbw_index_block_offset w', sbw_index_data := [], sbw_mr := smr_default\<rparr>"
proof -
  note r = assms(3) [unfolded widx_rep_def]
  have l: "length (shdr_bytes pend) \<le> 65536" using r by (simp add: MAX_BLOCK_SIZE_def MAX_ROWS_PER_BLOCK_def)
  then obtain p where p: "compress_zstd_level Z [] (shdr_bytes pend) (sbw_compress_level w) = Some p"
    "decompress_zstd Z [] p = Inr (shdr_bytes pend)"
    using compress_decompress [OF assms(1), of "shdr_bytes pend" "[]" "sbw_compress_level w" "[]"] by auto
  have "length p \<le> 65536 + 65536 div 256 + 64" using compress_bounded [OF assms(2) p(1)] l by linarith
  then have lp: "unat (of_nat (length p) :: u32) = length p" "length p \<le> 2 * MAX_BLOCK_SIZE" "length p < 2 ^ 32"
    by (simp_all add: unat_of_nat MAX_BLOCK_SIZE_def MAX_ROWS_PER_BLOCK_def)
  have ne: "sbw_index_data w \<noteq> []" using r assms(4) by (cases pend) (auto simp flip: length_0_conv simp: MARSHALED_BLOCK_HEADER_SIZE_def)
  define mr where "mr = (sbw_mr w)\<lparr>smr_index_block_offset := sbw_index_block_offset w, smr_index_block_size := of_nat (length p)\<rparr>"
  define g where "g = \<lparr>sg_blocks = pend, sg_packed = p, sg_row = mr\<rparr>"
  have rs: "row_summary mr (map p_h pend)" using r by (simp add: row_summary_def mr_def)
  then have "smr_block_headers_count mr \<noteq> 0" using assms(4) by (auto simp: row_summary_def)
  then have g: "sgroup_ok Z g" using r rs p(2) lp assms(4) by (simp add: sgroup_ok_def g_def mr_def smr_wf_def)
  define w' where "w' = w\<lparr>sbw_index_writer := WMem (concat (map sg_packed gs) @ p),
      sbw_metaindex_data := smr_marshal mr (sbw_metaindex_data w),
      sbw_index_block_offset := sbw_index_block_offset w + of_nat (length p), sbw_index_data := [], sbw_mr := smr_default\<rparr>"
  have f: "sbw_flush_index_data Z w = Some w'"
    using ne p(1) lp(3) r by (simp add: sbw_flush_index_data_def Let_def w'_def mr_def smr_reset_def)
  have "widx_rep Z w' (gs @ [g]) []"
    using r g smr_marshal_append [of mr "concat (map (\<lambda>g. smr_marshal (sg_row g) []) gs)"]
    by (simp add: widx_rep_def w'_def g_def idx_chain_snoc mr_def row_summary_def smr_default_def)
  with f show ?thesis by (intro exI [of _ w'] exI [of _ g]) (simp add: g_def w'_def)
qed

lemma make_room:
  assumes "zstd_ok Z" "zstd_bounded Z" "widx_rep Z w gs pend"
  shows "\<exists>w' gs' pend'. (if length (sbw_index_data w) + MARSHALED_BLOCK_HEADER_SIZE > MAX_BLOCK_SIZE
       then sbw_flush_index_data Z w else Some w) = Some w'
    \<and> groups_blocks gs' @ pend' = groups_blocks gs @ pend \<and> widx_rep Z w' gs' pend'
    \<and> length (sbw_index_data w') + MARSHALED_BLOCK_HEADER_SIZE \<le> MAX_BLOCK_SIZE
    \<and> w' = w\<lparr>sbw_index_writer := sbw_index_writer w', sbw_metaindex_data := sbw_metaindex_data w',
        sbw_index_block_offset := sbw_index_block_offset w', sbw_index_data := sbw_index_data w', sbw_mr := sbw_mr w'\<rparr>"
proof (cases "length (sbw_index_data w) + MARSHALED_BLOCK_HEADER_SIZE > MAX_BLOCK_SIZE")
  case True
  then have "pend \<noteq> []"
    using assms(3) by (auto simp: widx_rep_def MARSHALED_BLOCK_HEADER_SIZE_def MAX_BLOCK_SIZE_def MAX_ROWS_PER_BLOCK_def)
  then obtain w' g where f: "sbw_flush_index_data Z w = Some w'" "sg_blocks g = pend" "widx_rep Z w' (gs @ [g]) []"
    "w' = w\<lparr>sbw_index_writer := sbw_index_writer w', sbw_metaindex_data := sbw_metaindex_data w',
        sbw_index_block_offset := sbw_index_block_offset w', sbw_index_data := [], sbw_mr := smr_default\<rparr>"
    using sbw_flush_rep [OF assms] by blast
  have "sbw_index_data w' = []" "sbw_mr w' = smr_default" using arg_cong [OF f(4), of sbw_index_data] arg_cong [OF f(4), of sbw_mr] by simp_all
  with f True show ?thesis
    by (intro exI [of _ w'] exI [of _ "gs @ [g]"] exI [of _ "[]"])
      (simp add: groups_blocks_def MARSHALED_BLOCK_HEADER_SIZE_def MAX_BLOCK_SIZE_def MAX_ROWS_PER_BLOCK_def)
next
  case False
  then show ?thesis using assms(3) by (intro exI [of _ w] exI [of _ gs] exI [of _ pend]) simp
qed

lemma update_part_header_rep:
  assumes "sph_rep ph ss" "bk_bh b = p_h s"
  shows "sph_rep (update_part_header b ph) (ss @ [s])"
proof -
  let ?ph = "update_part_header b ph"
  have m: "sint (sph_min_timestamp ?ph) = min (sint (sph_min_timestamp ph)) (sint (sbh_min_timestamp (p_h s)))"
    "sint (sph_max_timestamp ?ph) = max (sint (sph_max_timestamp ph)) (sint (sbh_max_timestamp (p_h s)))"
    "sph_blocks_count ?ph = sph_blocks_count ph + 1" "sph_rows_count ?ph = sph_rows_count ph + ucast (sbh_rows_count (p_h s))"
    by (simp_all add: update_part_header_def Let_def assms(2) word_sless_alt)
  show ?thesis using assms(1) by (auto simp: sph_rep_def m word_sle_eq)
qed

lemma register_header_rep:
  assumes "widx_rep Z w gs pend" "p_ok Z s" "length (sbw_index_data w) + MARSHALED_BLOCK_HEADER_SIZE \<le> MAX_BLOCK_SIZE"
    "v = w\<lparr>sbw_index_data := sbw_index_data w @ sbh_marshal (p_h s) [], sbw_mr := register_block_header (sbw_mr w) (p_h s),
       sbw_timestamps_writer := tw, sbw_values_writer := vw, sbw_prev_timestamps_data := pd,
       sbw_prev_timestamps_block_offset := po, sbw_timestamps_block_offset := to, sbw_values_block_offset := vo\<rparr>"
  shows "widx_rep Z v gs (pend @ [s])"
proof -
  note r = assms(1) [unfolded widx_rep_def]
  have "length pend + 1 < 2 ^ 32"
    using r by (simp add: MARSHALED_BLOCK_HEADER_SIZE_def MAX_BLOCK_SIZE_def MAX_ROWS_PER_BLOCK_def)
  then have "row_summary (register_block_header (sbw_mr w) (p_h s)) (map p_h pend @ [p_h s])"
    using r by (intro register_summary) simp_all
  then show ?thesis using r assms(2,3) by (simp add: widx_rep_def assms(4))
qed

lemma wdata_store:
  assumes "wdata_rep w ss" "pl = foldl pl_next pl_start ss" "placed pl s"
    "v = w\<lparr>sbw_index_data := idx, sbw_mr := mr,
       sbw_timestamps_writer := WMem (td_stream pl_start ss @ (if shares pl s then [] else p_td s)),
       sbw_values_writer := WMem (concat (map p_vd ss) @ p_vd s),
       sbw_prev_timestamps_data := p_td s,
       sbw_prev_timestamps_block_offset := of_nat (if shares pl s then pl_po pl else pl_to pl),
       sbw_timestamps_block_offset := of_nat (pl_to pl + (if shares pl s then 0 else length (p_td s))),
       sbw_values_block_offset := of_nat (pl_vo pl + length (p_vd s))\<rparr>"
  shows "wdata_rep v (ss @ [s])"
  using assms(1,3) unfolding wdata_rep_def assms(4)
  by (simp add: chain_snoc td_stream_snoc Let_def pl_next_def flip: assms(2)) (simp add: shares_def)

lemma widx_frame: "wdata_rep (w\<lparr>sbw_index_writer := a, sbw_metaindex_data := b, sbw_index_block_offset := c,
    sbw_index_data := d, sbw_mr := e\<rparr>) ss = wdata_rep w ss"
  by (simp add: wdata_rep_def)

lemma store_block_rep:
  assumes Z: "zstd_ok Z" "zstd_bounded Z" and w: "sbw_rep Z w ph ss" and s: "p_ok Z s"
    and pl: "pl = foldl pl_next pl_start ss" "placed pl s"
    and b: "bk_header_data b = sbh_marshal (p_h s) []" "bk_timestamps_data b = p_td s" "bk_values_data b = p_vd s" "bk_bh b = p_h s"
  shows "\<exists>w'. sbw_store_block Z (shares pl s) w b = Some w' \<and> sbw_rep Z w' (update_part_header b ph) (ss @ [s])"
proof -
  obtain gs pend where r: "wdata_rep w ss" "sph_rep ph ss" "ss = groups_blocks gs @ pend" "widx_rep Z w gs pend"
    using w by (auto simp: sbw_rep_def)
  obtain u gs' pend' where u: "(if length (sbw_index_data w) + MARSHALED_BLOCK_HEADER_SIZE > MAX_BLOCK_SIZE
       then sbw_flush_index_data Z w else Some w) = Some u"
    "groups_blocks gs' @ pend' = ss" "widx_rep Z u gs' pend'"
    "length (sbw_index_data u) + MARSHALED_BLOCK_HEADER_SIZE \<le> MAX_BLOCK_SIZE"
    "u = w\<lparr>sbw_index_writer := sbw_index_writer u, sbw_metaindex_data := sbw_metaindex_data u,
        sbw_index_block_offset := sbw_index_block_offset u, sbw_index_data := sbw_index_data u, sbw_mr := sbw_mr u\<rparr>"
    using make_room [OF Z r(4)] r(3) by auto
  have du: "wdata_rep u ss" using r(1) by (subst u(5)) (simp only: widx_frame)
  note d = du [unfolded wdata_rep_def Let_def, folded pl(1)]
  define v where "v = u\<lparr>sbw_index_data := sbw_index_data u @ sbh_marshal (p_h s) [],
       sbw_mr := register_block_header (sbw_mr u) (p_h s),
       sbw_timestamps_writer := WMem (td_stream pl_start ss @ (if shares pl s then [] else p_td s)),
       sbw_values_writer := WMem (concat (map p_vd ss) @ p_vd s),
       sbw_prev_timestamps_data := p_td s,
       sbw_prev_timestamps_block_offset := of_nat (if shares pl s then pl_po pl else pl_to pl),
       sbw_timestamps_block_offset := of_nat (pl_to pl + (if shares pl s then 0 else length (p_td s))),
       sbw_values_block_offset := of_nat (pl_vo pl + length (p_vd s))\<rparr>"
  have "sbw_store_block Z (shares pl s) w b = Some v"
    using u(1) d by (cases u) (auto simp: sbw_store_block_def b v_def shares_def Let_def)
  moreover have "widx_rep Z v gs' (pend' @ [s])" using register_header_rep [OF u(3) s u(4)] v_def by blast
  moreover have "wdata_rep v (ss @ [s])" using wdata_store [OF du pl] v_def by blast
  moreover have "ss @ [s] = groups_blocks gs' @ (pend' @ [s])" using u(2) by simp
  ultimately show ?thesis using update_part_header_rep [OF r(2) b(4)] unfolding sbw_rep_def by blast
qed

lemma packed_header_again:
  "(packed_header to vo ts vs td tmt vd vmt bh)\<lparr>sbh_timestamps_block_offset := to', sbh_values_block_offset := vo'\<rparr> =
   packed_header to' vo' ts vs td tmt vd vmt bh"
  by (rule BlockHeader.equality) (simp_all add: packed_header_def)

lemma marshal_again:
  assumes "block_marshal_data Z to vo b = Some c" "bk_values c = []" "bk_next_idx c = 0"
    "unat (sbh_timestamps_block_size (bk_bh c)) = length (bk_timestamps_data c)"
    "unat (sbh_values_block_size (bk_bh c)) = length (bk_values_data c)" "sbh_rows_count (bk_bh c) \<noteq> 0"
  shows "block_marshal_data Z off vo' c = Some (with_header_data (c\<lparr>bk_bh := (bk_bh c)\<lparr>sbh_timestamps_block_offset := off,
    sbh_values_block_offset := vo'\<rparr>\<rparr>))"
  using assms by (simp add: block_marshal_data_def word_neq_0_conv)

text \<open>Marshaling twice, first at the end of the streams and then at the offset that is used.\<close>

lemma packed_pblock:
  assumes Z: "zstd_ok Z" and b: "block_ready b"
  shows "\<exists>s c b'. block_marshal_data Z (of_nat (pl_to pl)) (of_nat (pl_vo pl)) b = Some c \<and> bk_timestamps_data c = p_td s
    \<and> block_marshal_data Z (of_nat (if shares pl s then pl_po pl else pl_to pl)) (of_nat (pl_vo pl)) c = Some b'
    \<and> bk_header_data b' = sbh_marshal (p_h s) [] \<and> bk_timestamps_data b' = p_td s \<and> bk_values_data b' = p_vd s \<and> bk_bh b' = p_h s
    \<and> p_ok Z s \<and> placed pl s \<and> stores b s"
proof -
  let ?ts = "drop (bk_next_idx b) (bk_timestamps b)" and ?vs = "drop (bk_next_idx b) (bk_values b)"
  obtain td tmt vd vmt where P:
    "marshal_int64_array Z [] ?ts (unat (sbh_precision_bits (bk_bh b))) = Some (td, tmt, hd ?ts)"
    "marshal_int64_array Z [] ?vs (unat (sbh_precision_bits (bk_bh b))) = Some (vd, vmt, hd ?vs)"
    "length td \<le> 10 * MAX_ROWS_PER_BLOCK" "length vd \<le> 10 * MAX_ROWS_PER_BLOCK"
    "block_marshal_data Z (of_nat (pl_to pl)) (of_nat (pl_vo pl)) b = Some (with_header_data (b\<lparr>bk_values_data := vd, bk_values := [],
       bk_timestamps_data := td, bk_timestamps := [], bk_next_idx := 0,
       bk_bh := packed_header (of_nat (pl_to pl)) (of_nat (pl_vo pl)) ?ts ?vs td tmt vd vmt (bk_bh b)\<rparr>))"
    by (rule block_marshal_ready [OF Z b])
  define off :: u64 where "off = of_nat (if pl_prev pl \<noteq> [] \<and> td = pl_prev pl then pl_po pl else pl_to pl)"
  define h where "h = packed_header off (of_nat (pl_vo pl)) ?ts ?vs td tmt vd vmt (bk_bh b)"
  have wf: "sbh_wf h" unfolding h_def by (rule packed_header_wf [OF b P(3,4)])
  then have rc: "sbh_rows_count h \<noteq> 0" by (auto simp: sbh_wf_def sbh_validate_def)
  obtain ts vs where D: "decode_timestamps Z h td = Inr ts" "decode_values Z h vd = Inr vs"
    "samples_kept (unat (sbh_precision_bits (bk_bh b))) ?ts ?vs ts vs"
    using decode_packed [OF Z b P(1,2)] h_def by blast
  define s where "s = \<lparr>p_h = h, p_td = td, p_vd = vd, p_ts = ts, p_vs = vs\<rparr>"
  have sz: "unat (of_nat (length td) :: u32) = length td" "unat (of_nat (length vd) :: u32) = length vd"
    using P(3,4) by (simp_all add: unat_of_nat MAX_ROWS_PER_BLOCK_def)
  have "length ts = length vs" using D(3) b by (simp add: samples_kept_def block_ready_def)
  then have s: "p_ok Z s" using wf D sz by (simp add: p_ok_def s_def h_def packed_header_def)
  have sh: "of_nat (if shares pl s then pl_po pl else pl_to pl) = off" by (simp add: shares_def s_def off_def)
  let ?c = "with_header_data (b\<lparr>bk_values_data := vd, bk_values := [],
       bk_timestamps_data := td, bk_timestamps := [], bk_next_idx := 0,
       bk_bh := packed_header (of_nat (pl_to pl)) (of_nat (pl_vo pl)) ?ts ?vs td tmt vd vmt (bk_bh b)\<rparr>)"
  have m: "block_marshal_data Z off (of_nat (pl_vo pl)) ?c = Some (with_header_data (?c\<lparr>bk_bh := h\<rparr>))"
    by (subst marshal_again [OF P(5)])
      (use rc sz in \<open>simp_all add: with_header_data_def packed_header_again h_def\<close>, simp_all add: packed_header_def)
  have "unat (of_nat k :: u32) = k" if "k \<le> MAX_ROWS_PER_BLOCK" for k
    using that by (simp add: unat_of_nat MAX_ROWS_PER_BLOCK_def)
  moreover have "length ?vs \<le> MAX_ROWS_PER_BLOCK" using b by (auto simp: block_ready_def)
  ultimately have rows: "unat (of_nat (length ?vs) :: u32) = length ?vs" by blast
  have "placed pl s" "stores b s"
    using D(3) b rows by (simp_all add: placed_def sh stores_def) (simp_all add: s_def h_def packed_header_def samples_kept_def block_ready_def)
  with P(5) s m show ?thesis unfolding sh [symmetric]
    by (intro exI [of _ s] exI [of _ ?c] exI [of _ "with_header_data (?c\<lparr>bk_bh := h\<rparr>)"])
      (simp add: with_header_data_def s_def)
qed

lemma write_external_block_rep:
  assumes Z: "zstd_ok Z" "zstd_bounded Z" and w: "sbw_rep Z w ph ss"
    and b: "block_dedup_during_merge Z D b = Some b1" "block_ready b1"
  shows "\<exists>w' b' ph' s. write_external_block Z D w b ph n = Some (w', b', ph', n + of_nat (pending_rows_count b))
    \<and> sbw_rep Z w' ph' (ss @ [s]) \<and> stores b1 s"
proof -
  define pl where "pl = foldl pl_next pl_start ss"
  have d: "sbw_timestamps_block_offset w = of_nat (pl_to pl)" "sbw_values_block_offset w = of_nat (pl_vo pl)"
       "sbw_prev_timestamps_data w = pl_prev pl" "sbw_prev_timestamps_block_offset w = of_nat (pl_po pl)"
    using w by (simp_all add: sbw_rep_def wdata_rep_def Let_def pl_def)
  obtain s c b' where m: "block_marshal_data Z (of_nat (pl_to pl)) (of_nat (pl_vo pl)) b1 = Some c" "bk_timestamps_data c = p_td s"
      "block_marshal_data Z (of_nat (if shares pl s then pl_po pl else pl_to pl)) (of_nat (pl_vo pl)) c = Some b'"
    and f: "bk_header_data b' = sbh_marshal (p_h s) []" "bk_timestamps_data b' = p_td s" "bk_values_data b' = p_vd s" "bk_bh b' = p_h s"
    and s: "p_ok Z s" "placed pl s" "stores b1 s" using packed_pblock [OF Z(1) b(2), of pl] by blast
  obtain w' where w': "sbw_store_block Z (shares pl s) w b' = Some w'" "sbw_rep Z w' (update_part_header b' ph) (ss @ [s])"
    using store_block_rep [OF Z w s(1) pl_def s(2) f] by blast
  have "write_external_block Z D w b ph n = Some (w', b', update_part_header b' ph, n + of_nat (pending_rows_count b))"
    by (simp only: write_external_block_def b(1) d Let_def m option.case w'(1) if_distrib [of of_nat, symmetric] flip: shares_def)
  then show ?thesis using w'(2) s(3) by blast
qed

section \<open>Closing\<close>

lemma sgroups_count: "list_all (sgroup_ok Z) gs \<Longrightarrow> length gs \<le> length (groups_blocks gs)"
proof (induction gs)
  case (Cons g gs)
  then have "Suc 0 \<le> length (sg_blocks g)" by (cases "sg_blocks g") (simp_all add: sgroup_ok_def)
  then show ?case using Cons by (simp add: groups_blocks_def)
qed simp

lemma sbw_close_rep:
  assumes "zstd_ok Z" "zstd_bounded Z" "sbw_rep Z w ph ss" "length ss < 2 ^ 40"
  shows "\<exists>w' bufs gs. sbw_must_close Z w = Some (w', bufs) \<and> spart_rep Z bufs gs \<and> ss = groups_blocks gs"
proof -
  obtain gs pend where r: "wdata_rep w ss" "ss = groups_blocks gs @ pend" "widx_rep Z w gs pend"
    using assms(3) by (auto simp: sbw_rep_def)
  obtain v gs' where v: "sbw_flush_index_data Z w = Some v" "widx_rep Z v gs' []" "groups_blocks gs' = ss" "wdata_rep v ss"
  proof (cases "pend = []")
    case True
    then show ?thesis using r by (intro that [of w gs]) (simp_all add: sbw_flush_index_data_def widx_rep_def)
  next
    case False
    then obtain w' g where f: "sbw_flush_index_data Z w = Some w'" "sg_blocks g = pend" "widx_rep Z w' (gs @ [g]) []"
      "w' = w\<lparr>sbw_index_writer := sbw_index_writer w', sbw_metaindex_data := sbw_metaindex_data w',
        sbw_index_block_offset := sbw_index_block_offset w', sbw_index_data := [], sbw_mr := smr_default\<rparr>"
      using sbw_flush_rep [OF assms(1,2) r(3)] by blast
    have "wdata_rep w' ss" using r(1) by (subst f(4)) (simp only: widx_frame)
    then show ?thesis using r(2) f(2) by (intro that [OF f(1,3)]) (simp_all add: groups_blocks_def)
  qed
  let ?m = "concat (map (\<lambda>g. smr_marshal (sg_row g) []) gs')"
  have g: "list_all (sgroup_ok Z) gs'" "idx_chain 0 gs'" using v(2) by (simp_all add: widx_rep_def)
  have "length ?m = MARSHALED_METAINDEX_ROW_SIZE * length gs'" by (induction gs') simp_all
  then have "length ?m < 2 ^ 64"
    using sgroups_count [OF g(1)] assms(4) v(3) by (simp add: MARSHALED_METAINDEX_ROW_SIZE_def)
  then obtain p where p: "compress_zstd_level Z [] ?m (sbw_compress_level v) = Some p" "decompress_zstd Z [] p = Inr ?m"
    using compress_decompress [OF assms(1), of ?m "[]" "sbw_compress_level v" "[]"] by auto
  have "\<exists>w'. sbw_must_close Z w = Some (w', td_stream pl_start ss, concat (map p_vd ss), concat (map sg_packed gs'), p)"
    using v p by (simp add: sbw_must_close_def widx_rep_def wdata_rep_def)
  with v(3,4) g p(2) show ?thesis by (auto simp: spart_rep_def wdata_rep_def)
qed

section \<open>Reading\<close>

lemma pl_to_mono: "pl_to pl \<le> pl_to (foldl pl_next pl ss)"
proof (induction ss arbitrary: pl)
  case (Cons s ss)
  have "pl_to pl \<le> pl_to (pl_next pl s)" by (simp add: pl_next_def)
  also have "\<dots> \<le> pl_to (foldl pl_next pl (s # ss))" using Cons [of "pl_next pl s"] by simp
  finally show ?case .
qed simp

lemma use_prev_iff:
  assumes "rdata_rep r pl (s # ss)"
  shows "use_prev_timestamps r (p_h s) \<longleftrightarrow> shares pl s"
proof -
  note a = assms [unfolded rdata_rep_def]
  have "pl_to pl < 2 ^ 64" using a pl_to_mono [of pl "s # ss"] by simp
  then have "of_nat (pl_to pl) \<noteq> (of_nat (pl_po pl) :: u64)" if "pl_prev pl \<noteq> []"
    using a that unfolding pl_ok_def by (auto dest!: arg_cong [where f = unat] simp: unat_of_nat)
  then show ?thesis using a by (auto simp: use_prev_timestamps_def placed_def shares_def)
qed

lemma block_reset_default: "block_reset b = block_default"
  by (cases b) (simp add: block_reset_def block_default_def)

lemma unmarshal_p_ok:
  assumes "p_ok Z s"
  shows "unmarshal_block_data Z b (p_h s) (p_td s) (p_vd s) = Inr (p_block s)"
proof -
  have "sbh_rows_count (p_h s) \<noteq> 0" using assms by (auto simp: p_ok_def sbh_wf_def sbh_validate_def)
  then show ?thesis using assms by (simp add: p_ok_def unmarshal_block_data_def Let_def block_reset_default p_block_def)
qed

lemma read_data_rep:
  assumes "rdata_rep r pl (s # ss)" "p_ok Z s"
  shows "\<exists>r'. read_data Z (p_h s) r = Some (r', None) \<and> rdata_rep r' (pl_next pl s) ss \<and> sbr_block r' = p_block s
    \<and> sbr_index_block_headers_count r' = sbr_index_block_headers_count r + 1
    \<and> r' = r\<lparr>sbr_block := sbr_block r', sbr_timestamps_reader := sbr_timestamps_reader r', sbr_values_reader := sbr_values_reader r',
        sbr_index_block_headers_count := sbr_index_block_headers_count r',
        sbr_timestamps_block_offset := sbr_timestamps_block_offset r', sbr_values_block_offset := sbr_values_block_offset r',
        sbr_prev_timestamps_block_offset := sbr_prev_timestamps_block_offset r',
        sbr_prev_timestamps_data := sbr_prev_timestamps_data r'\<rparr>"
proof -
  note a = assms(1) [unfolded rdata_rep_def]
  note u = use_prev_iff [OF assms(1)]
  have sz: "unat (sbh_timestamps_block_size (p_h s)) = length (p_td s)" "unat (sbh_values_block_size (p_h s)) = length (p_vd s)"
    using assms(2) by (simp_all add: p_ok_def)
  then have ucs: "ucast (sbh_timestamps_block_size (p_h s)) = (of_nat (length (p_td s)) :: u64)"
    "ucast (sbh_values_block_size (p_h s)) = (of_nat (length (p_vd s)) :: u64)" by (metis of_nat_unat)+
  obtain vr where vr: "sr_must_read (sbr_values_reader r) (length (p_vd s)) = Some (vr, p_vd s)" "stream_at vr (concat (map p_vd ss))"
    using stream_read [of "sbr_values_reader r" "p_vd s" "concat (map p_vd ss)"] a by auto
  show ?thesis
  proof (cases "shares pl s")
    case True
    then have "p_td s = sbr_prev_timestamps_data r" using a by (simp add: shares_def)
    then show ?thesis using True vr a u unmarshal_p_ok [OF assms(2)]
      by (simp add: read_data_def read_timestamps_def sz ucs Let_def rdata_rep_def pl_ok_def pl_next_def)
  next
    case False
    obtain tr where tr: "sr_must_read (sbr_timestamps_reader r) (length (p_td s)) = Some (tr, p_td s)"
      "stream_at tr (td_stream (pl_next pl s) ss)"
      using stream_read [of "sbr_timestamps_reader r" "p_td s" "td_stream (pl_next pl s) ss"] a False by auto
    then show ?thesis using False vr a u unmarshal_p_ok [OF assms(2)]
      by (simp add: read_data_def read_timestamps_def sz ucs Let_def rdata_rep_def pl_ok_def pl_next_def)
  qed
qed

lemma validate_header_rep:
  assumes "rdata_rep r pl (s # ss)" "rchk_rep r (s # ss)" "p_ok Z s"
    "r' = r\<lparr>sbr_blocks_count := sbr_blocks_count r + 1, sbr_rows_count := sbr_rows_count r + ucast (sbh_rows_count (p_h s))\<rparr>"
  shows "validate_header (p_h s) r = Some (r', None)" "rchk_rep r' ss" "rdata_rep r' pl (s # ss)"
proof -
  note a = assms(1) [unfolded rdata_rep_def] and c = assms(2) [unfolded rchk_rep_def]
  show "rdata_rep r' pl (s # ss)" using assms(1) by (simp add: rdata_rep_def assms(4))
  have b: "unat (sbr_blocks_count r) + 1 < 2 ^ 64"
    using c unsigned_less [of "sph_blocks_count (sbr_ph r)", where ?'a = nat] by simp
  have n: "unat (sbr_rows_count r) + unat (sbh_rows_count (p_h s)) < 2 ^ 64"
    using c unsigned_less [of "sph_rows_count (sbr_ph r)", where ?'a = nat] by simp
  have ub: "unat (sbr_blocks_count r + 1) = unat (sbr_blocks_count r) + 1"
    using b by (simp add: unat_word_ariths)
  have un: "unat (sbr_rows_count r + ucast (sbh_rows_count (p_h s))) = unat (sbr_rows_count r) + unat (sbh_rows_count (p_h s))"
    using n by (simp add: unat_word_ariths scale_casts(3))
  have u: "use_prev_timestamps r' (p_h s) \<longleftrightarrow> shares pl s" using use_prev_iff [OF assms(1)] by (simp add: use_prev_timestamps_def assms(4))
  have sz: "shares pl s \<Longrightarrow> unat (sbh_timestamps_block_size (p_h s)) = length (sbr_prev_timestamps_data r)"
    using a assms(3) by (simp add: shares_def p_ok_def)
  have o: "\<not> shares pl s \<Longrightarrow> sbh_timestamps_block_offset (p_h s) = sbr_timestamps_block_offset r"
    "sbh_values_block_offset (p_h s) = sbr_values_block_offset r" using a by (simp_all add: placed_def)
  have k: "\<not> sbr_blocks_count r + 1 > sph_blocks_count (sbr_ph r)"
    "\<not> sbr_rows_count r + ucast (sbh_rows_count (p_h s)) > sph_rows_count (sbr_ph r)"
    using c by (simp_all add: word_less_nat_alt ub un)
  have t: "\<not> sbh_min_timestamp (p_h s) <s sph_min_timestamp (sbr_ph r)" "\<not> sph_max_timestamp (sbr_ph r) <s sbh_max_timestamp (p_h s)"
    using c by (simp_all add: word_sle_eq word_sless_alt)
  show "validate_header (p_h s) r = Some (r', None)"
    using k t u sz o by (auto simp: validate_header_def Let_def assms(4) use_prev_timestamps_def)
  show "rchk_rep r' ss" using c by (simp add: rchk_rep_def assms(4) ub un)
qed

lemma row_in_range:
  assumes "row_summary mr (map p_h ss)" "ss \<noteq> []"
    "\<forall>s \<in> set ss. sph_min_timestamp ph \<le>s sbh_min_timestamp (p_h s) \<and> sbh_max_timestamp (p_h s) \<le>s sph_max_timestamp ph"
  shows "\<not> smr_min_timestamp mr <s sph_min_timestamp ph" "\<not> sph_max_timestamp ph <s smr_max_timestamp mr"
  using assms by (auto simp: row_summary_def word_sless_alt word_sle_eq not_less)

lemma read_index_block_rep:
  assumes "ridx_rep Z r [] (g # gs) off"
    "\<forall>s \<in> set (sg_blocks g). sph_min_timestamp (sbr_ph r) \<le>s sbh_min_timestamp (p_h s)
      \<and> sbh_max_timestamp (p_h s) \<le>s sph_max_timestamp (sbr_ph r)"
  shows "\<exists>r'. next_index_block Z r = Some (r', None) \<and> ridx_rep Z r' (sg_blocks g) gs (off + length (sg_packed g))
    \<and> r' = r\<lparr>sbr_index_reader := sbr_index_reader r', sbr_mr_idx := sbr_mr_idx r', sbr_cur_mr := sbr_cur_mr r',
        sbr_index_block_headers_count := sbr_index_block_headers_count r', sbr_index_block_offset := sbr_index_block_offset r',
        sbr_index_data := sbr_index_data r', sbr_index_cursor := sbr_index_cursor r'\<rparr>"
proof -
  note a = assms(1) [unfolded ridx_rep_def]
  have g: "sgroup_ok Z g" using a by simp
  note gg = g [unfolded sgroup_ok_def]
  have mr: "sbr_mr_idx r < length (sbr_mrs r)" "sbr_mrs r ! sbr_mr_idx r = sg_row g" "drop (Suc (sbr_mr_idx r)) (sbr_mrs r) = map sg_row gs"
    using drop_Suc_map [of "sbr_mr_idx r" "sbr_mrs r" sg_row g gs] a by simp_all
  have cur: "sbr_index_data r = [] \<or> \<not> sbr_index_cursor r < length (sbr_index_data r)" using a by auto
  obtain xr where xr: "sr_must_read (sbr_index_reader r) (length (sg_packed g)) = Some (xr, sg_packed g)"
    "stream_at xr (concat (map sg_packed gs))"
    using stream_read [of "sbr_index_reader r" "sg_packed g" "concat (map sg_packed gs)"] a by auto
  note t = row_in_range [OF _ _ assms(2), of "sg_row g"]
  have size: "ucast (smr_index_block_size (sg_row g)) = (of_nat (length (sg_packed g)) :: u64)" using gg by (metis of_nat_unat)
  have cnt: "(of_nat (length (sg_blocks g)) :: u32) = smr_block_headers_count (sg_row g)"
    using gg by (simp add: row_summary_def) (metis of_nat_unat ucast_id)
  define r' where "r' = r\<lparr>sbr_index_block_headers_count := 0, sbr_cur_mr := Some (sbr_mr_idx r), sbr_mr_idx := sbr_mr_idx r + 1,
      sbr_index_reader := xr, sbr_index_data := shdr_bytes (sg_blocks g), sbr_index_cursor := 0,
      sbr_index_block_offset := sbr_index_block_offset r + of_nat (length (sg_packed g))\<rparr>"
  have "read_index_block Z (r\<lparr>sbr_index_block_headers_count := 0\<rparr>) = Some (r', None)"
    using mr gg xr t a by (simp add: read_index_block_def Let_def size r'_def)
  then have n: "next_index_block Z r = Some (r', None)"
    using cur a by (auto simp: next_index_block_def and_then_def split: option.splits)
  have "ridx_rep Z r' (sg_blocks g) gs (off + length (sg_packed g))"
    using a gg mr xr(2) cnt by (simp add: ridx_rep_def r'_def)
  with n show ?thesis by (intro exI [of _ r']) (simp add: r'_def)
qed

lemma next_index_rep:
  assumes "ridx_rep Z r cur gs off" "rdata_rep r pl (cur @ groups_blocks gs)" "rchk_rep r (cur @ groups_blocks gs)"
    "cur @ groups_blocks gs = s # ss"
  shows "\<exists>r' cur' gs' off'. next_index_block Z r = Some (r', None) \<and> ss = cur' @ groups_blocks gs'
    \<and> ridx_rep Z r' (s # cur') gs' off' \<and> rdata_rep r' pl (s # ss) \<and> rchk_rep r' (s # ss)
    \<and> sbr_block r' = sbr_block r \<and> sbr_tsid_prev r' = sbr_tsid_prev r"
proof (cases cur)
  case (Cons c cur')
  have "drop (sbr_index_cursor r) (sbr_index_data r) \<noteq> []"
    using assms(1) Cons by (auto simp: ridx_rep_def MARSHALED_BLOCK_HEADER_SIZE_def simp flip: length_0_conv)
  then have "next_index_block Z r = Some (r, None)" by (simp add: next_index_block_def)
  then show ?thesis using assms Cons by (intro exI [of _ r] exI [of _ cur'] exI [of _ gs] exI [of _ off]) simp
next
  case Nil
  then obtain g gs' where gs: "gs = g # gs'" using assms(4) by (cases gs) (auto simp: groups_blocks_def)
  have "sg_blocks g \<noteq> []" using assms(1) gs by (simp add: ridx_rep_def sgroup_ok_def)
  then obtain cur' where cur': "sg_blocks g = s # cur'" "ss = cur' @ groups_blocks gs'"
    using assms(4) Nil gs by (cases "sg_blocks g") (auto simp: groups_blocks_def)
  have "\<forall>s \<in> set (sg_blocks g). sph_min_timestamp (sbr_ph r) \<le>s sbh_min_timestamp (p_h s)
      \<and> sbh_max_timestamp (p_h s) \<le>s sph_max_timestamp (sbr_ph r)"
    using assms(3) Nil gs by (simp add: rchk_rep_def groups_blocks_def)
  then obtain r' where r': "next_index_block Z r = Some (r', None)" "ridx_rep Z r' (s # cur') gs' (off + length (sg_packed g))"
    "r' = r\<lparr>sbr_index_reader := sbr_index_reader r', sbr_mr_idx := sbr_mr_idx r', sbr_cur_mr := sbr_cur_mr r',
        sbr_index_block_headers_count := sbr_index_block_headers_count r', sbr_index_block_offset := sbr_index_block_offset r',
        sbr_index_data := sbr_index_data r', sbr_index_cursor := sbr_index_cursor r'\<rparr>"
    using read_index_block_rep [of Z r g gs' off] assms(1) Nil gs cur'(1) by auto
  have "rdata_rep r' pl (s # ss)" using assms(2,4) by (subst r'(3)) (simp add: rdata_rep_def)
  moreover have "rchk_rep r' (s # ss)" using assms(3,4) by (subst r'(3)) (simp add: rchk_rep_def)
  moreover have "sbr_block r' = sbr_block r" "sbr_tsid_prev r' = sbr_tsid_prev r"
    using arg_cong [OF r'(3), of sbr_block] arg_cong [OF r'(3), of sbr_tsid_prev] by simp_all
  ultimately show ?thesis using r'(1,2) cur'(2) by blast
qed

lemma read_sample_block_rep:
  assumes "ridx_rep Z r cur gs off" "rdata_rep r pl (cur @ groups_blocks gs)" "rchk_rep r (cur @ groups_blocks gs)"
    "cur @ groups_blocks gs = s # ss"
  shows "\<exists>r' cur' gs' off'. read_sample_block Z r = Some (r', None) \<and> ss = cur' @ groups_blocks gs'
    \<and> ridx_rep Z r' cur' gs' off' \<and> rdata_rep r' (pl_next pl s) ss \<and> rchk_rep r' ss
    \<and> sbr_block r' = p_block s \<and> sbr_tsid_prev r' = sbr_tsid_prev r"
proof -
  obtain r1 cur' gs' off' where r1: "next_index_block Z r = Some (r1, None)" "ss = cur' @ groups_blocks gs'"
    "ridx_rep Z r1 (s # cur') gs' off'" "rdata_rep r1 pl (s # ss)" "rchk_rep r1 (s # ss)"
    "sbr_tsid_prev r1 = sbr_tsid_prev r" using next_index_rep [OF assms] by blast
  have ok: "p_ok Z s" using r1(3) by (simp add: ridx_rep_def)
  have tail: "drop (sbr_index_cursor r1) (sbr_index_data r1) = sbh_marshal (p_h s) [] @ shdr_bytes cur'"
    using r1(3) by (simp add: ridx_rep_def)
  have long: "\<not> length (sbr_index_data r1) - sbr_index_cursor r1 < MARSHALED_BLOCK_HEADER_SIZE"
    using arg_cong [OF tail, of length] by simp
  have um: "sbh_unmarshal (take MARSHALED_BLOCK_HEADER_SIZE (sbh_marshal (p_h s) [] @ shdr_bytes cur')) = Inr (p_h s, [])"
    using sbh_codec.dec_enc [of "p_h s" "[]"] ok by (simp add: p_ok_def)
  define r2 where "r2 = r1\<lparr>sbr_index_cursor := sbr_index_cursor r1 + MARSHALED_BLOCK_HEADER_SIZE\<rparr>"
  have d2: "rdata_rep r2 pl (s # ss)" "rchk_rep r2 (s # ss)" using r1(4,5) by (simp_all add: rdata_rep_def rchk_rep_def r2_def)
  define r3 where "r3 = r2\<lparr>sbr_blocks_count := sbr_blocks_count r2 + 1,
      sbr_rows_count := sbr_rows_count r2 + ucast (sbh_rows_count (p_h s))\<rparr>"
  note v = validate_header_rep [OF d2 ok r3_def]
  obtain r4 where r4: "read_data Z (p_h s) r3 = Some (r4, None)" "rdata_rep r4 (pl_next pl s) ss" "sbr_block r4 = p_block s"
    "sbr_index_block_headers_count r4 = sbr_index_block_headers_count r3 + 1"
    "r4 = r3\<lparr>sbr_block := sbr_block r4, sbr_timestamps_reader := sbr_timestamps_reader r4, sbr_values_reader := sbr_values_reader r4,
        sbr_index_block_headers_count := sbr_index_block_headers_count r4,
        sbr_timestamps_block_offset := sbr_timestamps_block_offset r4, sbr_values_block_offset := sbr_values_block_offset r4,
        sbr_prev_timestamps_block_offset := sbr_prev_timestamps_block_offset r4,
        sbr_prev_timestamps_data := sbr_prev_timestamps_data r4\<rparr>"
    using read_data_rep [OF v(3) ok] by blast
  have "read_sample_block Z r = Some (r4, None)"
    using r1(1) tail long um v(1) r4(1) by (simp add: read_sample_block_def and_then_def r2_def Let_def)
  moreover have "rchk_rep r4 ss" using v(2) by (subst r4(5)) (simp add: rchk_rep_def)
  moreover have "sbr_tsid_prev r4 = sbr_tsid_prev r" using arg_cong [OF r4(5), of sbr_tsid_prev] r1(6) by (simp add: r3_def r2_def)
  moreover have "ridx_rep Z r4 cur' gs' off'"
  proof -
    have "drop (sbr_index_cursor r1 + MARSHALED_BLOCK_HEADER_SIZE) (sbr_index_data r1) = shdr_bytes cur'"
      using tail by (simp add: add.commute flip: drop_drop)
    then show ?thesis using r1(3) r4(4)
      by (subst r4(5)) (auto simp: ridx_rep_def r3_def r2_def add.assoc split: option.splits)
  qed
  ultimately show ?thesis using r1(2) r4(2,3) by blast
qed

lemma sbr_next_Cons:
  assumes "sbr_rep Z r (b # bs)"
  shows "\<exists>r'. sbr_next_block Z r = Some (r', True) \<and> sbr_rep Z r' bs \<and> sbr_block r' = b"
proof -
  obtain pl cur gs off where a: "b # bs = map p_block (cur @ groups_blocks gs)" "rdata_rep r pl (cur @ groups_blocks gs)"
    "ridx_rep Z r cur gs off" "rchk_rep r (cur @ groups_blocks gs)"
    "tsids_ok (sbh_tsid (bk_bh (sbr_block r))) (cur @ groups_blocks gs)"
    using assms unfolding sbr_rep_def Let_def by (elim exE conjE) (rule that)
  obtain s ss where ss: "cur @ groups_blocks gs = s # ss" "b = p_block s" "bs = map p_block ss"
    using a(1) by (cases "cur @ groups_blocks gs") auto
  define q where "q = r\<lparr>sbr_tsid_prev := sbh_tsid (bk_bh (sbr_block r)), sbr_block := block_reset (sbr_block r)\<rparr>"
  have "ridx_rep Z q cur gs off" "rdata_rep q pl (cur @ groups_blocks gs)" "rchk_rep q (cur @ groups_blocks gs)"
    using a(2-4) by (simp_all add: ridx_rep_def rdata_rep_def rchk_rep_def q_def cong: option.case_cong)
  from read_sample_block_rep [OF this ss(1)] obtain r' cur' gs' off' where
    r': "read_sample_block Z q = Some (r', None)" "ss = cur' @ groups_blocks gs'" "ridx_rep Z r' cur' gs' off'"
    "rdata_rep r' (pl_next pl s) ss" "rchk_rep r' ss" "sbr_block r' = p_block s" "sbr_tsid_prev r' = sbr_tsid_prev q" by blast
  have t: "sbh_tsid (bk_bh (sbr_block r)) \<le> sbh_tsid (p_h s)" "tsids_ok (sbh_tsid (p_h s)) ss"
    using a(5) unfolding ss(1) by (simp_all add: tsids_ok_def)
  have "sbr_err r = None" using a(4) by (simp add: rchk_rep_def)
  then have "sbr_next_block Z r = Some (r', True)"
    using r'(1,6,7) t(1) by (simp add: sbr_next_block_def flip: q_def) (simp add: q_def p_block_def)
  moreover have "tsids_ok (sbh_tsid (bk_bh (sbr_block r'))) ss" using t(2) r'(6) by (simp add: p_block_def)
  then have "sbr_rep Z r' bs" unfolding sbr_rep_def Let_def
    using r'(2-5) ss(3) by (intro exI [of _ "pl_next pl s"] exI [of _ cur'] exI [of _ gs'] exI [of _ off']) simp
  ultimately show ?thesis using r'(6) ss(2) by blast
qed

lemma sbr_next_Nil:
  assumes "sbr_rep Z r []"
  shows "\<exists>r'. sbr_next_block Z r = Some (r', False) \<and> sbr_err r' = Some SampleEof"
proof -
  obtain cur gs off where a: "[] = map p_block (cur @ groups_blocks gs)" "ridx_rep Z r cur gs off" "sbr_err r = None"
    using assms unfolding sbr_rep_def Let_def rchk_rep_def by blast
  have "cur = []" "gs = []"
  proof -
    show "cur = []" using a(1) by simp
    show "gs = []" using a(1,2) by (cases gs) (auto simp: ridx_rep_def sgroup_ok_def groups_blocks_def)
  qed
  then have "\<not> sbr_index_cursor r < length (sbr_index_data r)" "\<not> sbr_mr_idx r < length (sbr_mrs r)"
    "case sbr_cur_mr r of None \<Rightarrow> True | Some k \<Rightarrow> k < length (sbr_mrs r) \<and> sbr_index_block_headers_count r = smr_block_headers_count (sbr_mrs r ! k)"
    using a(2) by (auto simp: ridx_rep_def split: option.splits)
  then show ?thesis using a(3)
    by (auto simp: sbr_next_block_def read_sample_block_def next_index_block_def and_then_def read_index_block_def Let_def split: option.splits)
qed

interpretation sample_reader: block_source "sbr_next_block Z" sbr_block "\<lambda>r. sbr_error r \<noteq> None" "sbr_rep Z"
proof
  show "\<exists>r'. sbr_next_block Z r = Some (r', True) \<and> sbr_rep Z r' bs \<and> sbr_block r' = b"
    if "sbr_rep Z r (b # bs)" for r b bs by (rule sbr_next_Cons [OF that])
  show "\<exists>r'. sbr_next_block Z r = Some (r', False) \<and> \<not> sbr_error r' \<noteq> None" if "sbr_rep Z r []" for r
    using sbr_next_Nil [OF that] by (auto simp: sbr_error_def)
qed

lemma tsid_default_le: "tsid_default \<le> t"
  by (cases t) (simp add: less_eq_Tsid_def tsid_default_def less_eq_prod_def)

section \<open>Deduplication before a block is stored\<close>

lemma dedup_spec_nonempty: "t \<noteq> [] \<Longrightarrow> dedup_spec D d t v \<noteq> []"
  using exists_last_in_bucket [of 0 t d] by (auto simp: dedup_spec_def filter_empty_conv)

lemma length_dedup_spec: "length (dedup_spec D d t v) \<le> length t"
  using length_filter_le [of _ "[0..<length t]"] by (simp add: dedup_spec_def)

lemma dedup_spec_sorted:
  assumes "stamps_ok d (map sint (ts :: i64 list))"
  shows "non_decreasing (map (word_of_int \<circ> fst) (dedup_spec D d (map sint ts) v))"
proof -
  let ?s = "map fst (dedup_spec D d (map sint ts) v)"
  have "sorted ?s" using assms by (intro buckets_increasing_sorted [OF _ spec_buckets_increasing]) (auto simp: stamps_ok_def)
  moreover have "map sint (map (word_of_int :: int \<Rightarrow> i64) xs) = xs" if "set xs \<subseteq> set (map sint ts)" for xs
    using that by (induction xs) auto
  then have "map sint (map (word_of_int :: int \<Rightarrow> i64) ?s) = ?s" using spec_stamps_subset by blast
  ultimately have "sorted (map sint (map (word_of_int :: int \<Rightarrow> i64) ?s))" by (simp only:)
  then show ?thesis unfolding non_decreasing_def map_map .
qed

lemma dedup_spec_single: "dedup_spec D d [t] [v] = [(t, v)]"
  by (simp add: dedup_spec_def last_in_bucket_def pick_sample_at_def)

lemma block_dedup_ready:
  assumes "block_ready b" "dedup_safe D b"
  shows "\<exists>b1. block_dedup_during_merge Z D b = Some b1 \<and> block_ready b1 \<and> bk_bh b1 = bk_bh b
    \<and> (drop (bk_next_idx b1) (bk_timestamps b1), drop (bk_next_idx b1) (bk_values b1)) =
      merged_samples D (drop (bk_next_idx b) (bk_timestamps b)) (drop (bk_next_idx b) (bk_values b))"
proof (cases "D > 0")
  case False
  then show ?thesis using assms(1) by (simp add: block_dedup_during_merge_def merged_samples_def)
next
  case True
  define i where "i = bk_next_idx b"
  define ts where "ts = drop i (bk_timestamps b)"
  define vs where "vs = drop i (bk_values b)"
  define sp where "sp = dedup_spec i64_value D (map sint ts) (map sint vs)"
  note R = assms(1) [unfolded block_ready_def, folded i_def]
  have st: "stamps_ok D (map sint ts)" and e: "bk_timestamps_data b = []" "bk_values_data b = []"
    using assms(2) True by (simp_all add: dedup_safe_def ts_def i_def)
  have l: "length vs = length ts" "ts \<noteq> []" "length (bk_timestamps b) - i = length ts" using R by (auto simp: ts_def vs_def)
  have un: "block_unmarshal_data Z b = Inr b" using R e by (auto simp: block_unmarshal_data_def)
  show ?thesis
  proof (cases "length ts < 2")
    case True
    then obtain t v where "ts = [t]" "vs = [v]" using l by (cases ts; cases vs) auto
    then have "merged_samples D ts vs = (ts, vs)" using \<open>D > 0\<close> by (simp add: merged_samples_def dedup_spec_single)
    then show ?thesis using True un l(3) assms(1) \<open>D > 0\<close>
      by (intro exI [of _ b]) (simp add: block_dedup_during_merge_def flip: i_def ts_def vs_def)
  next
    case False
    obtain tss' vs' n where d: "deduplicate_in_place i64_value (map sint ts) (map sint vs) D = (tss', vs', n)"
      by (cases "deduplicate_in_place i64_value (map sint ts) (map sint vs) D")
    have "deduplicate_samples i64_value (map sint ts) (map sint vs) D = (map fst sp, map snd sp)"
      unfolding sp_def using st l(1) by (intro deduplicate_samples_spec) simp_all
    then have tk: "take n tss' = map fst sp" "take n vs' = map snd sp" by (simp_all add: deduplicate_samples_def d)
    define b1 where "b1 = b\<lparr>bk_timestamps := take i (bk_timestamps b) @ map (word_of_int \<circ> fst) sp,
        bk_values := take i (bk_values b) @ map (word_of_int \<circ> snd) sp\<rparr>"
    have app: "take (i + n) (take i xs @ map f ys) = take i xs @ map f (take n ys)" if "i \<le> length xs"
      for xs :: "i64 list" and f :: "int \<Rightarrow> i64" and ys using that by (simp add: take_map)
    have res: "block_dedup_during_merge Z D b = Some b1"
      using un False l(3) R \<open>D > 0\<close> app [of "bk_timestamps b" word_of_int tss'] app [of "bk_values b" word_of_int vs']
      by (simp add: block_dedup_during_merge_def deduplicate_samples_during_merge_in_place_def d Let_def b1_def tk
          comp_def flip: i_def ts_def vs_def)
    have li: "length (take i (bk_timestamps b)) = i" "length (take i (bk_values b)) = i" using R by simp_all
    have "sp \<noteq> []" "length sp \<le> length ts"
      using dedup_spec_nonempty [of "map sint ts"] length_dedup_spec [of i64_value D "map sint ts" "map sint vs"] l(2)
      by (auto simp: sp_def)
    moreover have "length ts \<le> MAX_ROWS_PER_BLOCK" using R by (auto simp: ts_def)
    ultimately have "block_ready b1" using R li dedup_spec_sorted [OF st, of i64_value "map sint vs", folded sp_def]
      by (auto simp: block_ready_def b1_def simp flip: i_def)
    then show ?thesis using \<open>D > 0\<close> li res
      by (intro exI [of _ b1]) (simp add: b1_def merged_samples_def sp_def flip: i_def ts_def vs_def)
  qed
qed

section \<open>Whole parts\<close>

lemma write_external_blocks_rep:
  assumes "zstd_ok Z" "zstd_bounded Z" "sbw_rep Z w ph ss" "list_all (storable D) bs"
  shows "\<exists>w' ph' new. write_external_blocks Z D w ph n bs = Some (w', ph', n + of_nat (sum_list (map pending_rows_count bs)))
    \<and> sbw_rep Z w' ph' (ss @ new) \<and> list_all2 (\<lambda>b s. read_back D b (p_block s)) bs new"
  using assms(3,4)
proof (induction bs arbitrary: w ph n ss)
  case Nil
  then show ?case by (intro exI [of _ w] exI [of _ ph] exI [of _ "[]"]) simp
next
  case (Cons b bs)
  have "block_ready b" "dedup_safe D b" using Cons.prems(2) by (simp_all add: storable_def)
  then obtain b1 where b1: "block_dedup_during_merge Z D b = Some b1" "block_ready b1" "bk_bh b1 = bk_bh b"
    "(drop (bk_next_idx b1) (bk_timestamps b1), drop (bk_next_idx b1) (bk_values b1)) =
      merged_samples D (drop (bk_next_idx b) (bk_timestamps b)) (drop (bk_next_idx b) (bk_values b))"
    using block_dedup_ready by blast
  obtain w1 b' ph1 s where w1: "write_external_block Z D w b ph n = Some (w1, b', ph1, n + of_nat (pending_rows_count b))"
    "sbw_rep Z w1 ph1 (ss @ [s])" "stores b1 s" using write_external_block_rep [OF assms(1,2) Cons.prems(1) b1(1,2)] by blast
  have "read_back D b (p_block s)"
    using w1(3) b1(3) by (simp add: read_back_def stores_def p_block_def block_default_def flip: b1(4))
  moreover obtain w' ph' new where
    "write_external_blocks Z D w1 ph1 (n + of_nat (pending_rows_count b)) bs =
       Some (w', ph', n + of_nat (pending_rows_count b) + of_nat (sum_list (map pending_rows_count bs)))"
    "sbw_rep Z w' ph' ((ss @ [s]) @ new)" "list_all2 (\<lambda>b s. read_back D b (p_block s)) bs new"
    using Cons.IH [OF w1(2)] Cons.prems(2) by force
  ultimately show ?case using w1(1)
    by (intro exI [of _ w'] exI [of _ ph'] exI [of _ "s # new"]) (simp add: add.assoc)
qed

lemma sbw_new_rep: "sbw_rep Z (sbw_new_inmemory_part level) sph_default []"
proof -
  have "widx_rep Z (sbw_new_inmemory_part level) [] []"
    by (simp add: widx_rep_def sbw_new_inmemory_part_def row_summary_def smr_default_def)
  then have "\<exists>gs pend. [] = groups_blocks gs @ pend \<and> widx_rep Z (sbw_new_inmemory_part level) gs pend"
    by (intro exI [of _ "[]"]) (simp add: groups_blocks_def)
  then show ?thesis
    by (simp add: sbw_rep_def wdata_rep_def sph_rep_def sbw_new_inmemory_part_def sph_default_def pl_start_def)
qed

lemma p_ok_sizes:
  assumes "p_ok Z s"
  shows "length (p_td s) \<le> 131072" "unat (sbh_rows_count (p_h s)) \<le> 16384"
proof -
  have "sbh_validate (p_h s) = Inr ()" "unat (sbh_timestamps_block_size (p_h s)) = length (p_td s)"
    using assms by (simp_all add: p_ok_def sbh_wf_def)
  then show "length (p_td s) \<le> 131072" "unat (sbh_rows_count (p_h s)) \<le> 16384"
    by (auto simp: sbh_validate_def MAX_BLOCK_SIZE_def MAX_ROWS_PER_BLOCK_def split: if_splits)
qed

lemma pl_to_bound: "list_all (p_ok Z) ss \<Longrightarrow> pl_to (foldl pl_next pl ss) \<le> pl_to pl + 131072 * length ss"
proof (induction ss arbitrary: pl)
  case (Cons s ss)
  have "pl_to (pl_next pl s) \<le> pl_to pl + 131072" using p_ok_sizes [of Z s] Cons.prems by (simp add: pl_next_def)
  then show ?case using Cons.IH [of "pl_next pl s"] Cons.prems by simp
qed simp

lemma rows_bound: "list_all (p_ok Z) ss \<Longrightarrow> sum_list (map (\<lambda>s. unat (sbh_rows_count (p_h s))) ss) \<le> 16384 * length ss"
proof (induction ss)
  case (Cons s ss)
  then show ?case using p_ok_sizes(2) [of Z s] by simp
qed simp

lemma groups_p_ok: "list_all (sgroup_ok Z) gs \<Longrightarrow> list_all (p_ok Z) (groups_blocks gs)"
  by (induction gs) (auto simp: sgroup_ok_def groups_blocks_def)

lemma rows_sorted:
  assumes "list_all (sgroup_ok Z) gs" "sorted (map (\<lambda>s. sbh_tsid (p_h s)) (groups_blocks gs))"
  shows "sorted (map smr_tsid (map sg_row gs))"
proof -
  let ?xss = "map (\<lambda>g. map (\<lambda>s. sbh_tsid (p_h s)) (sg_blocks g)) gs"
  have "sorted (map hd ?xss)"
    using assms by (intro sorted_heads) (auto simp: groups_blocks_def map_concat comp_def list_all_iff sgroup_ok_def)
  moreover have "map hd ?xss = map smr_tsid (map sg_row gs)"
    using assms(1) by (auto simp: list_all_iff sgroup_ok_def row_summary_def hd_map)
  ultimately show ?thesis by (simp only:)
qed

lemma sample_part_read:
  assumes "spart_rep Z bufs gs" "ss = groups_blocks gs" "ss \<noteq> []" "length ss < 2 ^ 40" "sph_rep ph ss"
    "sorted (map (\<lambda>s. sbh_tsid (p_h s)) ss)"
  shows "\<exists>r. sbr_from_inmemory_part Z (smp_from_buffers ph bufs) = Some r \<and> sbr_rep Z r (map p_block ss)"
proof -
  obtain t v i m where b: "bufs = (t, v, i, m)" by (cases bufs)
  note p = assms(1) [unfolded spart_rep_def b prod.case, folded assms(2)]
  have ok: "list_all (p_ok Z) ss" using p groups_p_ok assms(2) by blast
  have ne: "gs \<noteq> []" using assms(2,3) by (auto simp: groups_blocks_def)
  have "smr_loop [] (concat (map (\<lambda>mr. smr_marshal mr []) (map sg_row gs))) = Inr ([] @ map sg_row gs)"
    by (rule smr_loop_marshal) (use p in \<open>auto simp: list_all_iff sgroup_ok_def\<close>)
  then have mrs: "smr_unmarshal_metaindex_rows Z m = Inr (map sg_row gs)"
    using p ne rows_sorted [of Z gs] assms(2,6)
    by (simp add: smr_unmarshal_metaindex_rows_def sorted_by_key comp_def)
  define r where "r = sbr_new_empty\<lparr>sbr_ph := ph, sbr_timestamps_reader := RMem t 0,
               sbr_values_reader := RMem v 0, sbr_index_reader := RMem i 0, sbr_mrs := map sg_row gs\<rparr>"
  have f: "sbr_from_inmemory_part Z (smp_from_buffers ph bufs) = Some r"
    by (simp add: sbr_from_inmemory_part_def smp_from_buffers_def b mrs r_def)
  have "pl_to (foldl pl_next pl_start ss) < 2 ^ 64" using pl_to_bound [OF ok, of pl_start] assms(4) by (simp add: pl_start_def)
  then have d: "rdata_rep r pl_start ss"
    using p by (simp add: rdata_rep_def r_def sbr_new_empty_def stream_at_def pl_ok_def pl_start_def)
  have x: "ridx_rep Z r [] gs 0"
    using p by (simp add: ridx_rep_def r_def sbr_new_empty_def stream_at_def)
  have "unat (of_nat (length ss) :: u64) = length ss"
    "unat (of_nat (sum_list (map (\<lambda>s. unat (sbh_rows_count (p_h s))) ss)) :: u64) = sum_list (map (\<lambda>s. unat (sbh_rows_count (p_h s))) ss)"
    using rows_bound [OF ok] assms(4) by (simp_all add: unat_of_nat)
  then have c: "rchk_rep r ss" using assms(5) by (simp add: rchk_rep_def r_def sbr_new_empty_def sph_rep_def)
  have "tsids_ok (sbh_tsid (bk_bh (sbr_block r))) ss"
    using assms(6) by (simp add: tsids_ok_def r_def sbr_new_empty_def block_default_def sbh_default_def tsid_default_le)
  then have "sbr_rep Z r (map p_block ss)" unfolding sbr_rep_def Let_def
    using d x c assms(2) by (intro exI [of _ pl_start] exI [of _ "[]"] exI [of _ gs] exI [of _ 0]) simp
  with f show ?thesis by blast
qed

section \<open>Properties\<close>

text \<open>
  C7: blocks of samples written one after another, ordered by series, form a part whose header counts
  them, and from which the reader returns one block for each, in order, and then the end without an
  error: the same series, scale and precision, and the samples that deduplication keeps, up to the
  precision of the block. Runs of identical timestamps are stored once, and every offset, size, count
  and range that the reader checks agrees.\<close>

theorem sample_part_roundtrip:
  assumes "zstd_ok Z" "zstd_bounded Z" "bs \<noteq> []" "length bs < 2 ^ 40" "list_all (storable D) bs"
    "sorted (map (\<lambda>b. sbh_tsid (bk_bh b)) bs)"
  shows "\<exists>w ph w' bufs r rs.
    write_external_blocks Z D (sbw_new_inmemory_part level) sph_default 0 bs =
      Some (w, ph, of_nat (sum_list (map pending_rows_count bs)))
    \<and> sbw_must_close Z w = Some (w', bufs) \<and> sph_blocks_count ph = of_nat (length bs)
    \<and> sbr_from_inmemory_part Z (smp_from_buffers ph bufs) = Some r
    \<and> read_sample_blocks Z (length bs + 1) r = Some rs \<and> list_all2 (read_back D) bs rs"
proof -
  obtain w ph ss where w: "write_external_blocks Z D (sbw_new_inmemory_part level) sph_default 0 bs =
      Some (w, ph, of_nat (sum_list (map pending_rows_count bs)))" "sbw_rep Z w ph ss"
    and rb: "list_all2 (\<lambda>b s. read_back D b (p_block s)) bs ss"
    using write_external_blocks_rep [OF assms(1,2) sbw_new_rep assms(5), of level 0] by auto
  have len: "length ss = length bs" using list_all2_lengthD [OF rb] by simp
  obtain w' bufs gs where c: "sbw_must_close Z w = Some (w', bufs)" "spart_rep Z bufs gs" "ss = groups_blocks gs"
    using sbw_close_rep [OF assms(1,2) w(2)] assms(4) len by auto
  have "map (\<lambda>s. sbh_tsid (p_h s)) ss = map (\<lambda>b. sbh_tsid (bk_bh b)) bs"
    using rb by (induction rule: list_all2_induct) (simp_all add: read_back_def p_block_def)
  moreover have ph: "sph_rep ph ss" using w(2) by (simp add: sbw_rep_def)
  moreover have "ss \<noteq> []" using assms(3) len by auto
  ultimately obtain r where r: "sbr_from_inmemory_part Z (smp_from_buffers ph bufs) = Some r" "sbr_rep Z r (map p_block ss)"
    using sample_part_read [OF c(2,3)] assms(4,6) len by auto
  have "read_sample_blocks Z (length bs + 1) r = Some (map p_block ss)"
    unfolding read_sample_blocks_def using len by (intro sample_reader.drain_rep [OF r(2)]) simp
  moreover have "list_all2 (read_back D) bs (map p_block ss)" using rb by (simp add: list_all2_map2)
  moreover have "sph_blocks_count ph = of_nat (length bs)" using ph len by (simp add: sph_rep_def)
  ultimately show ?thesis using w(1) c(1) r(1) by blast
qed

theorem sample_part_roundtrip_witness:
  "\<exists>w ph w' bufs r rs.
    write_external_blocks stored_zstd 10 (sbw_new_inmemory_part 1) sph_default 0 [two_samples, two_samples] = Some (w, ph, 4)
    \<and> sbw_must_close stored_zstd w = Some (w', bufs) \<and> sph_blocks_count ph = 2
    \<and> sbr_from_inmemory_part stored_zstd (smp_from_buffers ph bufs) = Some r
    \<and> read_sample_blocks stored_zstd 3 r = Some rs \<and> length rs = 2"
proof -
  let ?bs = "[two_samples, two_samples]"
  have st: "list_all (storable 10) ?bs"
    by (simp add: storable_def two_samples_ready) (simp add: dedup_safe_def two_samples_def block_default_def stamps_ok_def)
  have n: "sum_list (map pending_rows_count ?bs) = 4" by (simp add: pending_rows_count_def two_samples_def block_default_def)
  have ne: "?bs \<noteq> []" "length ?bs < 2 ^ 40" "sorted (map (\<lambda>b. sbh_tsid (bk_bh b)) ?bs)" "length ?bs = 2" "(2 :: nat) + 1 = 3" by simp_all
  obtain w ph w' bufs r rs where p:
    "write_external_blocks stored_zstd 10 (sbw_new_inmemory_part 1) sph_default 0 ?bs = Some (w, ph, of_nat 4)"
    "sbw_must_close stored_zstd w = Some (w', bufs)" "sph_blocks_count ph = of_nat 2"
    "sbr_from_inmemory_part stored_zstd (smp_from_buffers ph bufs) = Some r"
    "read_sample_blocks stored_zstd 3 r = Some rs" "list_all2 (read_back 10) ?bs rs"
    using sample_part_roundtrip [OF stored_zstd_ok stored_zstd_bounded ne(1,2) st ne(3), of 1, unfolded n ne(4,5)] by blast
  have "length rs = 2" using list_all2_lengthD [OF p(6)] by simp
  with p(1-5) show ?thesis by (intro exI conjI) (assumption | simp)+
qed

end
