(* ===== verification/Sample_Streams_Merge.thy ===== *)
theory Sample_Streams_Merge
  imports Sample_Merge Sample_Stream_Correct Mergeset_Merge_Correct Uint64_Set
begin

text \<open>
  K-way merging of streams of sample blocks (\<open>crates/esm-storage/src/block_stream/merger.rs\<close>): a heap of
  readers ordered by the header of their current block, a pending block into which the next blocks of
  the same series are merged, and the writer that receives it.

  Readers are the elements of a list and the heap holds their indices, as in the code. \<open>None\<close> is a
  panic. The counters of merged and deleted rows, which the code adds up locally and moves to shared
  atomics about once per second and on exit, are two fields. The stop flag is polled once per block;
  its answers are an argument. When a merge fails, the half-decoded blocks it leaves behind are dropped
  unread, so the failing state is the one before decoding.
\<close>

section \<open>The heap of readers\<close>

text \<open>\<open>bsrs[k].block.header()\<close>.\<close>

definition cur_header :: "BlockStreamReader list \<Rightarrow> nat \<Rightarrow> BlockHeader option" where
  "cur_header bsrs k = (if k < length bsrs then Some (bk_bh (sbr_block (bsrs ! k))) else None)"

definition sample_heap_less :: "(nat \<Rightarrow> BlockHeader option) \<Rightarrow> nat list \<Rightarrow> nat \<Rightarrow> nat \<Rightarrow> bool option" where
  "sample_heap_less c heap i j =
    (if i < length heap \<and> j < length heap
     then (case (c (heap ! i), c (heap ! j)) of (Some a, Some b) \<Rightarrow> Some (sbh_less a b) | _ \<Rightarrow> None)
     else None)"

function sample_sift_down :: "(nat \<Rightarrow> BlockHeader option) \<Rightarrow> nat list \<Rightarrow> nat \<Rightarrow> nat list option" where
  "sample_sift_down c heap i =
    (let n = length heap; left = 2 * i + 1 in
     if left \<ge> n then Some heap
     else
       let right = left + 1 in
       case (if right < n then sample_heap_less c heap right left else Some False) of
         None \<Rightarrow> None
       | Some b \<Rightarrow>
         let smallest = (if b then right else left) in
         (case sample_heap_less c heap smallest i of
            None \<Rightarrow> None
          | Some l \<Rightarrow> if \<not> l then Some heap else sample_sift_down c (swap_at heap i smallest) smallest))"
  by pat_completeness auto
termination
  by (relation "measure (\<lambda>(c, heap, i). length heap - i)") (auto split: if_splits)

declare sample_sift_down.simps [simp del]

fun sample_heap_init_loop :: "(nat \<Rightarrow> BlockHeader option) \<Rightarrow> nat \<Rightarrow> nat list \<Rightarrow> nat list option" where
  "sample_heap_init_loop c 0 heap = Some heap"
| "sample_heap_init_loop c (Suc i) heap =
    (case sample_sift_down c heap i of None \<Rightarrow> None | Some heap \<Rightarrow> sample_heap_init_loop c i heap)"

definition sample_heap_init :: "(nat \<Rightarrow> BlockHeader option) \<Rightarrow> nat list \<Rightarrow> nat list option" where
  "sample_heap_init c heap = sample_heap_init_loop c (length heap div 2) heap"

section \<open>The merger\<close>

datatype bsm_error = BsmEof | BsmOther sbr_detail

record BlockStreamMerger =
  bsm_heap :: "nat list"
  bsm_retention_deadline :: i64
  bsm_next_block_noop :: bool
  bsm_err :: "bsm_error option"

definition bsm_new :: "i64 \<Rightarrow> BlockStreamMerger" where
  "bsm_new retention_deadline =
    \<lparr>bsm_heap = [], bsm_retention_deadline = retention_deadline, bsm_next_block_noop = False, bsm_err = None\<rparr>"

fun bsm_init_loop :: "zstd_lib \<Rightarrow> nat \<Rightarrow> BlockStreamReader list \<Rightarrow>
    (BlockStreamReader list \<times> nat list \<times> bsm_error option) option" where
  "bsm_init_loop Z i [] = Some ([], [], None)"
| "bsm_init_loop Z i (r # rs) =
    (case sbr_next_block Z r of
       None \<Rightarrow> None
     | Some (r, ok) \<Rightarrow>
       (case (if ok then None else sbr_error r) of
          Some d \<Rightarrow> Some (r # rs, [], Some (BsmOther d))
        | None \<Rightarrow>
          (case bsm_init_loop Z (i + 1) rs of
             None \<Rightarrow> None
           | Some (rs, heap, e) \<Rightarrow> Some (r # rs, (if ok then i # heap else heap), e))))"

definition bsm_init :: "zstd_lib \<Rightarrow> BlockStreamMerger \<Rightarrow> BlockStreamReader list \<Rightarrow>
    (BlockStreamMerger \<times> BlockStreamReader list) option" where
  "bsm_init Z bsm bsrs =
    (case bsm_init_loop Z 0 bsrs of
       None \<Rightarrow> None
     | Some (bsrs, heap, Some e) \<Rightarrow> Some (bsm\<lparr>bsm_heap := bsm_heap bsm @ heap, bsm_err := Some e\<rparr>, bsrs)
     | Some (bsrs, heap, None) \<Rightarrow>
       let heap = bsm_heap bsm @ heap in
       if heap = [] then Some (bsm\<lparr>bsm_err := Some BsmEof\<rparr>, bsrs)
       else
         (case sample_heap_init (cur_header bsrs) heap of
            None \<Rightarrow> None
          | Some heap \<Rightarrow> Some (bsm\<lparr>bsm_heap := heap, bsm_next_block_noop := True\<rparr>, bsrs)))"

definition bsm_next_block_internal :: "zstd_lib \<Rightarrow> BlockStreamMerger \<Rightarrow> BlockStreamReader list \<Rightarrow>
    (BlockStreamMerger \<times> BlockStreamReader list \<times> bsm_error option) option" where
  "bsm_next_block_internal Z bsm bsrs =
    (if bsm_heap bsm = [] \<or> \<not> bsm_heap bsm ! 0 < length bsrs then None
     else
       let bsr_min = bsm_heap bsm ! 0 in
       case sbr_next_block Z (bsrs ! bsr_min) of
         None \<Rightarrow> None
       | Some (r, ok) \<Rightarrow>
         let bsrs = bsrs[bsr_min := r] in
         if ok then
           map_option (\<lambda>h. (bsm\<lparr>bsm_heap := h\<rparr>, bsrs, None)) (sample_sift_down (cur_header bsrs) (bsm_heap bsm) 0)
         else
           (case sbr_error r of
              Some d \<Rightarrow> Some (bsm, bsrs, Some (BsmOther d))
            | None \<Rightarrow>
              (case sample_sift_down (cur_header bsrs) (butlast (swap_at (bsm_heap bsm) 0 (length (bsm_heap bsm) - 1))) 0 of
                 None \<Rightarrow> None
               | Some h \<Rightarrow> Some (bsm\<lparr>bsm_heap := h\<rparr>, bsrs, if h = [] then Some BsmEof else None))))"

definition bsm_next_block :: "zstd_lib \<Rightarrow> BlockStreamMerger \<Rightarrow> BlockStreamReader list \<Rightarrow>
    (BlockStreamMerger \<times> BlockStreamReader list \<times> bool) option" where
  "bsm_next_block Z bsm bsrs =
    (if bsm_err bsm \<noteq> None then Some (bsm, bsrs, False)
     else if bsm_next_block_noop bsm then Some (bsm\<lparr>bsm_next_block_noop := False\<rparr>, bsrs, True)
     else
       case bsm_next_block_internal Z bsm bsrs of
         None \<Rightarrow> None
       | Some (bsm, bsrs, None) \<Rightarrow> Some (bsm, bsrs, True)
       | Some (bsm, bsrs, Some e) \<Rightarrow> Some (bsm\<lparr>bsm_err := Some e\<rparr>, bsrs, False))"

definition bsm_error_msg :: "BlockStreamMerger \<Rightarrow> sbr_detail option" where
  "bsm_error_msg bsm = (case bsm_err bsm of Some (BsmOther d) \<Rightarrow> Some d | _ \<Rightarrow> None)"

section \<open>The merge loop\<close>

datatype MergeError = SamplesForciblyStopped | CannotCalibrate block_data_err | CannotReadBlock sbr_detail

record sample_merge =
  sm_ph :: PartHeader
  sm_bsw :: BlockStreamWriter
  sm_bsm :: BlockStreamMerger
  sm_bsrs :: "BlockStreamReader list"
  sm_pending :: Block
  sm_tmp :: Block
  sm_pending_is_empty :: bool
  sm_rows_merged :: u64
  sm_rows_deleted :: u64

text \<open>\<open>bsw.write_external_block(&mut pending_block, ph, &mut local_rows_merged)\<close>.\<close>

definition write_pending :: "zstd_lib \<Rightarrow> int \<Rightarrow> sample_merge \<Rightarrow> sample_merge option" where
  "write_pending Z D m =
    (case write_external_block Z D (sm_bsw m) (sm_pending m) (sm_ph m) (sm_rows_merged m) of
       None \<Rightarrow> None
     | Some (w, b, ph, n) \<Rightarrow> Some (m\<lparr>sm_bsw := w, sm_pending := b, sm_ph := ph, sm_rows_merged := n\<rparr>))"

definition load_pending :: "Block \<Rightarrow> sample_merge \<Rightarrow> sample_merge option" where
  "load_pending b m =
    (case block_copy_from (sm_pending m) b of
       None \<Rightarrow> None
     | Some p \<Rightarrow> Some (m\<lparr>sm_pending := p, sm_pending_is_empty := False\<rparr>))"

text \<open>After \<open>merge_blocks\<close> filled \<open>tmp_block\<close>: keep it pending, or write its first rows and keep the tail.\<close>

definition keep_merged :: "zstd_lib \<Rightarrow> int \<Rightarrow> sample_merge \<Rightarrow> sample_merge option" where
  "keep_merged Z D m =
    (let tmp = sm_tmp m in
     if length (bk_timestamps tmp) \<le> MAX_ROWS_PER_BLOCK then
       (if bk_timestamps tmp \<noteq> [] then
          (case fixup_block_timestamps tmp of
             None \<Rightarrow> None
           | Some tmp \<Rightarrow> Some (m\<lparr>sm_pending := tmp, sm_tmp := sm_pending m\<rparr>))
        else Some (m\<lparr>sm_pending_is_empty := True, sm_pending := tmp, sm_tmp := sm_pending m\<rparr>))
     else
       case block_init (sm_pending m) (sbh_tsid (bk_bh tmp)) (drop MAX_ROWS_PER_BLOCK (bk_timestamps tmp))
              (drop MAX_ROWS_PER_BLOCK (bk_values tmp)) (sbh_scale (bk_bh tmp)) (sbh_precision_bits (bk_bh tmp)) of
         None \<Rightarrow> None
       | Some pend \<Rightarrow>
       (case fixup_block_timestamps (tmp\<lparr>bk_timestamps := take MAX_ROWS_PER_BLOCK (bk_timestamps tmp),
               bk_values := take MAX_ROWS_PER_BLOCK (bk_values tmp)\<rparr>) of
          None \<Rightarrow> None
        | Some tmp \<Rightarrow>
        (case write_external_block Z D (sm_bsw m) tmp (sm_ph m) (sm_rows_merged m) of
           None \<Rightarrow> None
         | Some (w, tmp, ph, n) \<Rightarrow>
           Some (m\<lparr>sm_pending := pend, sm_tmp := tmp, sm_bsw := w, sm_ph := ph, sm_rows_merged := n\<rparr>))))"

text \<open>The slow path: merge the current block into the pending one.\<close>

definition merge_pending :: "zstd_lib \<Rightarrow> int \<Rightarrow> nat \<Rightarrow> sample_merge \<Rightarrow> (sample_merge \<times> MergeError option) option" where
  "merge_pending Z D b_idx m =
    (case unmarshal_and_calibrate_scale Z (sm_pending m) (sbr_block (sm_bsrs m ! b_idx)) of
       Inl Panic \<Rightarrow> None
     | Inl (Err e) \<Rightarrow> Some (m, Some (CannotCalibrate e))
     | Inr (pend, b) \<Rightarrow>
       let tmp = block_reset (sm_tmp m);
           tmp = tmp\<lparr>bk_bh := (bk_bh tmp)\<lparr>sbh_tsid := sbh_tsid (bk_bh b), sbh_scale := sbh_scale (bk_bh b),
                   sbh_precision_bits := min (sbh_precision_bits (bk_bh pend)) (sbh_precision_bits (bk_bh b))\<rparr>\<rparr>
       in case merge_blocks tmp pend b (bsm_retention_deadline (sm_bsm m)) (sm_rows_deleted m) of
            None \<Rightarrow> None
          | Some (tmp, pend, b, rows_deleted) \<Rightarrow>
            map_option (\<lambda>m. (m, None))
              (keep_merged Z D (m\<lparr>sm_pending := pend, sm_tmp := tmp, sm_rows_deleted := rows_deleted,
                 sm_bsrs := (sm_bsrs m)[b_idx := (sm_bsrs m ! b_idx)\<lparr>sbr_block := b\<rparr>]\<rparr>)))"

text \<open>What one round does with the current block \<open>b\<close> of reader \<open>b_idx\<close>.\<close>

definition handle_block :: "zstd_lib \<Rightarrow> int \<Rightarrow> uset option \<Rightarrow> nat \<Rightarrow> sample_merge \<Rightarrow> (sample_merge \<times> MergeError option) option" where
  "handle_block Z D dmis b_idx m =
    (let b = sbr_block (sm_bsrs m ! b_idx); bh = bk_bh b; p = bk_bh (sm_pending m) in
     if (case dmis of None \<Rightarrow> False | Some s \<Rightarrow> uset_has s (metric_id (sbh_tsid bh)))
        \<or> sbh_max_timestamp bh <s bsm_retention_deadline (sm_bsm m)
     then Some (m\<lparr>sm_rows_deleted := sm_rows_deleted m + ucast (sbh_rows_count bh)\<rparr>, None)
     else if sm_pending_is_empty m then map_option (\<lambda>m. (m, None)) (load_pending b m)
     else if metric_id (sbh_tsid p) \<noteq> metric_id (sbh_tsid bh) then
       (if \<not> sbh_tsid bh \<ge> sbh_tsid p then None
        else case write_pending Z D m of None \<Rightarrow> None | Some m \<Rightarrow> map_option (\<lambda>m. (m, None)) (load_pending b m))
     else if too_big (sm_pending m) \<and> sbh_max_timestamp p \<le>s sbh_min_timestamp bh then
       (case write_pending Z D m of None \<Rightarrow> None | Some m \<Rightarrow> map_option (\<lambda>m. (m, None)) (load_pending b m))
     else merge_pending Z D b_idx m)"

text \<open>The loop, for at most the given number of rounds; \<open>stop k\<close> is the answer to the poll of round \<open>k\<close>.\<close>

fun sample_merge_loop :: "zstd_lib \<Rightarrow> int \<Rightarrow> uset option \<Rightarrow> (nat \<Rightarrow> bool) \<Rightarrow> nat \<Rightarrow> nat \<Rightarrow> sample_merge \<Rightarrow>
    (sample_merge \<times> MergeError option) option" where
  "sample_merge_loop Z D dmis stop 0 k m = None"
| "sample_merge_loop Z D dmis stop (Suc fuel) k m =
    (case bsm_next_block Z (sm_bsm m) (sm_bsrs m) of
       None \<Rightarrow> None
     | Some (bsm, bsrs, False) \<Rightarrow> Some (m\<lparr>sm_bsm := bsm, sm_bsrs := bsrs\<rparr>, None)
     | Some (bsm, bsrs, True) \<Rightarrow>
       let m = m\<lparr>sm_bsm := bsm, sm_bsrs := bsrs\<rparr> in
       if stop k then Some (m, Some SamplesForciblyStopped)
       else if bsm_heap bsm = [] \<or> \<not> bsm_heap bsm ! 0 < length bsrs then None
       else
         (case handle_block Z D dmis (bsm_heap bsm ! 0) m of
            None \<Rightarrow> None
          | Some (m, None) \<Rightarrow> sample_merge_loop Z D dmis stop fuel (k + 1) m
          | Some (m, Some e) \<Rightarrow> Some (m, Some e)))"

definition merge_block_streams_internal :: "zstd_lib \<Rightarrow> int \<Rightarrow> uset option \<Rightarrow> (nat \<Rightarrow> bool) \<Rightarrow> nat \<Rightarrow> sample_merge \<Rightarrow>
    (sample_merge \<times> MergeError option) option" where
  "merge_block_streams_internal Z D dmis stop fuel m =
    (case sample_merge_loop Z D dmis stop fuel 0 m of
       None \<Rightarrow> None
     | Some (m, Some e) \<Rightarrow> Some (m, Some e)
     | Some (m, None) \<Rightarrow>
       (case bsm_error_msg (sm_bsm m) of
          Some d \<Rightarrow> Some (m, Some (CannotReadBlock d))
        | None \<Rightarrow>
          if sm_pending_is_empty m then Some (m, None) else map_option (\<lambda>m. (m, None)) (write_pending Z D m)))"

definition sample_merge_start :: "PartHeader \<Rightarrow> BlockStreamWriter \<Rightarrow> BlockStreamMerger \<Rightarrow> BlockStreamReader list \<Rightarrow>
    u64 \<Rightarrow> u64 \<Rightarrow> sample_merge" where
  "sample_merge_start ph w bsm bsrs rows_merged rows_deleted =
    \<lparr>sm_ph = ph, sm_bsw = w, sm_bsm = bsm, sm_bsrs = bsrs, sm_pending = block_default, sm_tmp = block_default,
     sm_pending_is_empty = True, sm_rows_merged = rows_merged, sm_rows_deleted = rows_deleted\<rparr>"

definition merge_sample_streams :: "zstd_lib \<Rightarrow> int \<Rightarrow> nat \<Rightarrow> PartHeader \<Rightarrow> BlockStreamWriter \<Rightarrow> BlockStreamReader list \<Rightarrow>
    (nat \<Rightarrow> bool) \<Rightarrow> uset option \<Rightarrow> i64 \<Rightarrow> u64 \<Rightarrow> u64 \<Rightarrow>
    (sample_merge \<times> (MergeError + bytes \<times> bytes \<times> bytes \<times> bytes)) option" where
  "merge_sample_streams Z D fuel ph w bsrs stop dmis retention_deadline rows_merged rows_deleted =
    (let ph = sph_reset ph in
     case bsm_init Z (bsm_new retention_deadline) bsrs of
       None \<Rightarrow> None
     | Some (bsm, bsrs) \<Rightarrow>
       (case merge_block_streams_internal Z D dmis stop fuel (sample_merge_start ph w bsm bsrs rows_merged rows_deleted) of
          None \<Rightarrow> None
        | Some (m, e) \<Rightarrow>
          (case sbw_must_close Z (sm_bsw m) of
             None \<Rightarrow> None
           | Some (w, bufs) \<Rightarrow>
             Some (m\<lparr>sm_bsw := w\<rparr>, case e of Some e \<Rightarrow> Inl e | None \<Rightarrow> Inr bufs))))"

end
