(* ===== verification/Sample_Streams_Merge_Correct.thy ===== *)
theory Sample_Streams_Merge_Correct
  imports Sample_Streams_Merge
begin

text \<open>
  The k-way merge of sample streams ends, and the part it writes holds the rows of its sources.

  Deduplication is off, every block is stored with full precision and the blocks of one series have
  one scale, so that rows can be compared for equality. A retention deadline removes whole blocks, and
  single rows only where blocks are merged; \<open>kept\<close> says that no other row is lost and none is made up.
\<close>

section \<open>Descriptions\<close>

text \<open>An unpacked block of full precision whose header has its first and last timestamp.\<close>

definition flat_block :: "Block \<Rightarrow> bool" where
  "flat_block b \<longleftrightarrow> block_ready b \<and> bk_next_idx b = 0 \<and> bk_timestamps_data b = [] \<and> bk_values_data b = []
     \<and> sbh_precision_bits (bk_bh b) = 64 \<and> sbh_min_timestamp (bk_bh b) = hd (bk_timestamps b)
     \<and> sbh_max_timestamp (bk_bh b) = last (bk_timestamps b)"

abbreviation b_tsid :: "Block \<Rightarrow> Tsid" where "b_tsid b \<equiv> sbh_tsid (bk_bh b)"

abbreviation p_tsid :: "pblock \<Rightarrow> Tsid" where "p_tsid s \<equiv> sbh_tsid (p_h s)"

text \<open>
  The series of \<open>T\<close> have distinct metric identifiers, and \<open>sc\<close> gives the scale of each.
\<close>

definition series_block :: "Tsid set \<Rightarrow> (Tsid \<Rightarrow> i16) \<Rightarrow> Block \<Rightarrow> bool" where
  "series_block T sc b \<longleftrightarrow> flat_block b \<and> b_tsid b \<in> T \<and> sbh_scale (bk_bh b) = sc (b_tsid b)"

definition source_block :: "Tsid set \<Rightarrow> (Tsid \<Rightarrow> i16) \<Rightarrow> Block \<Rightarrow> bool" where
  "source_block T sc b \<longleftrightarrow> series_block T sc b \<and> unat (sbh_rows_count (bk_bh b)) = length (bk_timestamps b)"

definition samples_of :: "Tsid \<Rightarrow> i64 list \<Rightarrow> i64 list \<Rightarrow> (Tsid \<times> i64 \<times> i64) multiset" where
  "samples_of t ts vs = image_mset (Pair t) (mset (zip ts vs))"

definition b_samples :: "Block \<Rightarrow> (Tsid \<times> i64 \<times> i64) multiset" where
  "b_samples b = samples_of (b_tsid b) (bk_timestamps b) (bk_values b)"

definition p_samples :: "pblock \<Rightarrow> (Tsid \<times> i64 \<times> i64) multiset" where
  "p_samples s = samples_of (p_tsid s) (p_ts s) (p_vs s)"

definition live_block :: "uset option \<Rightarrow> i64 \<Rightarrow> Block \<Rightarrow> bool" where
  "live_block dmis d b \<longleftrightarrow> \<not> (case dmis of None \<Rightarrow> False | Some s \<Rightarrow> uset_has s (metric_id (b_tsid b)))
     \<and> \<not> sbh_max_timestamp (bk_bh b) <s d"

definition live_samples :: "uset option \<Rightarrow> i64 \<Rightarrow> Block list \<Rightarrow> (Tsid \<times> i64 \<times> i64) multiset" where
  "live_samples dmis d bs = sum_list (map b_samples (filter (live_block dmis d) bs))"

text \<open>All rows that are not older than the deadline are kept, and nothing is added.\<close>

definition kept :: "i64 \<Rightarrow> (Tsid \<times> i64 \<times> i64) multiset \<Rightarrow> (Tsid \<times> i64 \<times> i64) multiset \<Rightarrow> bool" where
  "kept d A B \<longleftrightarrow> B \<subseteq># A \<and> filter_mset (\<lambda>(_, t, _). d \<le>s t) B = filter_mset (\<lambda>(_, t, _). d \<le>s t) A"

definition pend_samples :: "sample_merge \<Rightarrow> (Tsid \<times> i64 \<times> i64) multiset" where
  "pend_samples m = (if sm_pending_is_empty m then {#} else b_samples (sm_pending m))"

definition merged_out :: "sample_merge \<Rightarrow> pblock list \<Rightarrow> (Tsid \<times> i64 \<times> i64) multiset" where
  "merged_out m ss = sum_list (map p_samples ss) + pend_samples m"

text \<open>
  The writer holds the blocks \<open>ss\<close>, the pending block comes after them, and both belong to series up
  to \<open>t0\<close>.
\<close>

definition wstate :: "zstd_lib \<Rightarrow> Tsid set \<Rightarrow> (Tsid \<Rightarrow> i16) \<Rightarrow> sample_merge \<Rightarrow> pblock list \<Rightarrow> Tsid \<Rightarrow> bool" where
  "wstate Z T sc m ss t0 \<longleftrightarrow> sbw_rep Z (sm_bsw m) (sm_ph m) ss \<and> sorted (map p_tsid ss) \<and> (\<forall>s \<in> set ss. p_tsid s \<le> t0)
     \<and> (\<not> sm_pending_is_empty m \<longrightarrow> series_block T sc (sm_pending m) \<and> b_tsid (sm_pending m) \<le> t0
          \<and> (\<forall>s \<in> set ss. p_tsid s \<le> b_tsid (sm_pending m)))"

definition blocks_used :: "sample_merge \<Rightarrow> pblock list \<Rightarrow> nat" where
  "blocks_used m ss = length ss + (if sm_pending_is_empty m then 0 else 1)"

definition rows_seen :: "sample_merge \<Rightarrow> u64" where
  "rows_seen m = sm_rows_merged m + sm_rows_deleted m + of_nat (size (pend_samples m))"

text \<open>A block of two samples for the witness, its header filled in.\<close>

definition stamped_samples :: Block where
  "stamped_samples = two_samples\<lparr>bk_bh := (bk_bh two_samples)\<lparr>sbh_min_timestamp := 10, sbh_max_timestamp := 20\<rparr>\<rparr>"

definition swaps_bh :: "bool \<Rightarrow> Block \<Rightarrow> Block \<Rightarrow> Block \<times> Block \<times> Block \<Rightarrow> bool" where
  "swaps_bh sw a b r \<longleftrightarrow> bk_bh (fst (snd r)) = bk_bh (if sw then b else a) \<and> bk_bh (snd (snd r)) = bk_bh (if sw then a else b)"

text \<open>The merged block \<open>tmp\<close> under its own header.\<close>

definition merged_tmp :: "Tsid set \<Rightarrow> (Tsid \<Rightarrow> i16) \<Rightarrow> Block \<Rightarrow> bool" where
  "merged_tmp T sc b \<longleftrightarrow> b_tsid b \<in> T \<and> sbh_scale (bk_bh b) = sc (b_tsid b) \<and> sbh_precision_bits (bk_bh b) = 64
     \<and> bk_next_idx b = 0 \<and> bk_timestamps_data b = [] \<and> bk_values_data b = []
     \<and> non_decreasing (bk_timestamps b) \<and> length (bk_values b) = length (bk_timestamps b)
     \<and> length (bk_timestamps b) \<le> 2 * MAX_ROWS_PER_BLOCK"

text \<open>What handling a block \<open>b\<close> of reader \<open>k\<close> does.\<close>

definition handled :: "zstd_lib \<Rightarrow> Tsid set \<Rightarrow> (Tsid \<Rightarrow> i16) \<Rightarrow> uset option \<Rightarrow> nat \<Rightarrow> sample_merge \<Rightarrow> pblock list \<Rightarrow> sample_merge \<Rightarrow> pblock list \<Rightarrow> bool" where
  "handled Z T sc dmis k m ss m' ss' \<longleftrightarrow>
    (let b = sbr_block (sm_bsrs m ! k) in
     wstate Z T sc m' ss' (b_tsid b) \<and> sm_bsm m' = sm_bsm m
     \<and> (\<exists>b'. bk_bh b' = bk_bh b \<and> sm_bsrs m' = (sm_bsrs m)[k := (sm_bsrs m ! k)\<lparr>sbr_block := b'\<rparr>])
     \<and> kept (bsm_retention_deadline (sm_bsm m)) (merged_out m ss + live_samples dmis (bsm_retention_deadline (sm_bsm m)) [b]) (merged_out m' ss')
     \<and> blocks_used m' ss' \<le> blocks_used m ss + 1
     \<and> rows_seen m' = rows_seen m + of_nat (length (bk_timestamps b)))"

definition hkey :: "BlockHeader \<Rightarrow> Tsid \<times> int" where "hkey h = (sbh_tsid h, sint (sbh_min_timestamp h))"

definition headers_in :: "(nat \<Rightarrow> BlockHeader option) \<Rightarrow> Tsid set \<Rightarrow> nat list \<Rightarrow> bool" where
  "headers_in c T heap \<longleftrightarrow> (\<forall>k \<in> set heap. \<exists>h. c k = Some h \<and> sbh_tsid h \<in> T)"

abbreviation cur_block :: "BlockStreamReader list \<Rightarrow> nat \<Rightarrow> Block" where "cur_block bsrs k \<equiv> sbr_block (bsrs ! k)"

definition rkey :: "BlockStreamReader list \<Rightarrow> nat \<Rightarrow> Tsid \<times> int" where "rkey bsrs k = hkey (bk_bh (cur_block bsrs k))"

definition reader_rep :: "zstd_lib \<Rightarrow> Tsid set \<Rightarrow> (Tsid \<Rightarrow> i16) \<Rightarrow> BlockStreamReader \<Rightarrow> Block list \<Rightarrow> bool" where
  "reader_rep Z T sc r bs \<longleftrightarrow> sbr_rep Z r bs \<and> list_all (source_block T sc) bs"

text \<open>
  The readers of the heap stand on the blocks \<open>cur_block\<close> and have the blocks \<open>rest\<close> to come; the
  order of the heap is by the current headers.
\<close>

definition heap_rep :: "zstd_lib \<Rightarrow> Tsid set \<Rightarrow> (Tsid \<Rightarrow> i16) \<Rightarrow> BlockStreamReader list \<Rightarrow> nat list \<Rightarrow> (nat \<Rightarrow> Block list) \<Rightarrow> bool" where
  "heap_rep Z T sc bsrs heap rest \<longleftrightarrow> distinct heap \<and> heap \<noteq> [] \<and> heap_from (rkey bsrs) heap 0 \<and> b_tsid (cur_block bsrs (heap ! 0)) \<in> T
     \<and> (\<forall>k \<in> set heap. k < length bsrs \<and> reader_rep Z T sc (bsrs ! k) (rest k))
     \<and> (\<forall>k \<in> set (tl heap). source_block T sc (cur_block bsrs k))"

text \<open>The blocks not handled yet, with or without the current block of the top.\<close>

definition tails :: "BlockStreamReader list \<Rightarrow> (nat \<Rightarrow> Block list) \<Rightarrow> nat list \<Rightarrow> Block multiset" where
  "tails bsrs rest ks = (\<Sum>k \<in># mset ks. mset (cur_block bsrs k # rest k))"

definition todo_all :: "BlockStreamReader list \<Rightarrow> nat list \<Rightarrow> (nat \<Rightarrow> Block list) \<Rightarrow> Block multiset" where
  "todo_all bsrs heap rest = tails bsrs rest heap"

definition todo_rest :: "BlockStreamReader list \<Rightarrow> nat list \<Rightarrow> (nat \<Rightarrow> Block list) \<Rightarrow> Block multiset" where
  "todo_rest bsrs heap rest = mset (rest (heap ! 0)) + tails bsrs rest (tl heap)"

text \<open>Where the merger stands: before its first block, after a block that was handled, or at the end.\<close>

definition bsm_at :: "zstd_lib \<Rightarrow> Tsid set \<Rightarrow> (Tsid \<Rightarrow> i16) \<Rightarrow> BlockStreamMerger \<Rightarrow> BlockStreamReader list \<Rightarrow> Block multiset \<Rightarrow> bool" where
  "bsm_at Z T sc bsm bsrs U \<longleftrightarrow>
    (bsm_err bsm = Some BsmEof \<and> U = {#}) \<or>
    (bsm_err bsm = None \<and> bsm_next_block_noop bsm \<and> (\<exists>rest. heap_rep Z T sc bsrs (bsm_heap bsm) rest
       \<and> source_block T sc (cur_block bsrs (bsm_heap bsm ! 0)) \<and> U = todo_all bsrs (bsm_heap bsm) rest)) \<or>
    (bsm_err bsm = None \<and> \<not> bsm_next_block_noop bsm \<and> (\<exists>rest. heap_rep Z T sc bsrs (bsm_heap bsm) rest
       \<and> U = todo_rest bsrs (bsm_heap bsm) rest))"

text \<open>Totals over the blocks not handled yet.\<close>

definition live_total :: "uset option \<Rightarrow> i64 \<Rightarrow> Block multiset \<Rightarrow> (Tsid \<times> i64 \<times> i64) multiset" where
  "live_total dmis d U = (\<Sum>b \<in># filter_mset (live_block dmis d) U. b_samples b)"

definition rows_total :: "Block multiset \<Rightarrow> nat" where
  "rows_total U = (\<Sum>b \<in># U. length (bk_timestamps b))"

text \<open>A reader of the part that the writer makes of the blocks \<open>bs\<close>.\<close>

definition written_part :: "zstd_lib \<Rightarrow> Block list \<Rightarrow> BlockStreamReader \<Rightarrow> bool" where
  "written_part Z bs r \<longleftrightarrow> (\<exists>level w ph n w' bufs.
     write_external_blocks Z 0 (sbw_new_inmemory_part level) sph_default 0 bs = Some (w, ph, n)
     \<and> sbw_must_close Z w = Some (w', bufs) \<and> sbr_from_inmemory_part Z (smp_from_buffers ph bufs) = Some r)"

definition source_blocks :: "Tsid set \<Rightarrow> (Tsid \<Rightarrow> i16) \<Rightarrow> Block list \<Rightarrow> bool" where
  "source_blocks T sc bs \<longleftrightarrow> bs \<noteq> [] \<and> list_all (series_block T sc) bs \<and> sorted (map b_tsid bs)"

text \<open>Two blocks with the same rows of the same series.\<close>

definition same_rows :: "Block \<Rightarrow> Block \<Rightarrow> bool" where
  "same_rows b c \<longleftrightarrow> b_tsid c = b_tsid b \<and> bk_timestamps c = bk_timestamps b \<and> bk_values c = bk_values b
     \<and> sbh_max_timestamp (bk_bh c) = sbh_max_timestamp (bk_bh b)"

section \<open>Kept rows\<close>

lemma kept_refl [simp]: "kept d A A" by (simp add: kept_def)

lemma kept_add: "kept d A B \<Longrightarrow> kept d (A + C) (B + C)" by (simp add: kept_def)

lemma kept_trans: "kept d A B \<Longrightarrow> kept d B C \<Longrightarrow> kept d A C"
  by (auto simp: kept_def intro: subset_mset.order_trans)

lemma kept_filter: "kept d A (filter_mset (\<lambda>(_, t, _). d \<le>s t) A)"
  by (simp add: kept_def filter_filter_mset)

lemma size_b_samples: "length (bk_values b) = length (bk_timestamps b) \<Longrightarrow> size (b_samples b) = length (bk_timestamps b)"
  by (simp add: b_samples_def samples_of_def)

lemma flat_blockD:
  assumes "flat_block b"
  shows "block_ready b" "bk_next_idx b = 0" "bk_timestamps b \<noteq> []" "bk_values b \<noteq> []" "length (bk_values b) = length (bk_timestamps b)"
    "length (bk_timestamps b) \<le> MAX_ROWS_PER_BLOCK" "non_decreasing (bk_timestamps b)" "sbh_precision_bits (bk_bh b) = 64"
    "bk_timestamps_data b = []" "bk_values_data b = []"
  using assms by (auto simp: flat_block_def block_ready_def)

section \<open>Writing the pending block\<close>

lemma store_flat:
  assumes "zstd_ok Z" "zstd_bounded Z" "sbw_rep Z w ph ss" "flat_block b" "D \<le> 0"
  shows "\<exists>w' b' ph' s. write_external_block Z D w b ph n = Some (w', b', ph', n + of_nat (length (bk_timestamps b)))
    \<and> sbw_rep Z w' ph' (ss @ [s]) \<and> p_samples s = b_samples b \<and> p_tsid s = b_tsid b"
proof -
  note f = flat_blockD [OF assms(4)]
  have "block_dedup_during_merge Z D b = Some b" using assms(5) by (simp add: block_dedup_during_merge_def)
  from write_external_block_rep [OF assms(1-3) this f(1), of n] obtain w' b' ph' s where
    w: "write_external_block Z D w b ph n = Some (w', b', ph', n + of_nat (pending_rows_count b))" "sbw_rep Z w' ph' (ss @ [s])"
      "stores b s" by blast
  have "p_samples s = b_samples b" "p_tsid s = b_tsid b"
    using w(3) f by (simp_all add: stores_def samples_kept_def p_samples_def b_samples_def)
  moreover have "pending_rows_count b = length (bk_timestamps b)" using f by (simp add: pending_rows_count_def)
  ultimately show ?thesis using w by auto
qed

lemma write_pending_rep:
  assumes "zstd_ok Z" "zstd_bounded Z" "D \<le> 0" "wstate Z T sc m ss t0" "\<not> sm_pending_is_empty m"
  shows "\<exists>m' s. write_pending Z D m = Some m' \<and> sbw_rep Z (sm_bsw m') (sm_ph m') (ss @ [s])
    \<and> p_samples s = b_samples (sm_pending m) \<and> p_tsid s = b_tsid (sm_pending m)
    \<and> m' = m\<lparr>sm_bsw := sm_bsw m', sm_ph := sm_ph m', sm_pending := sm_pending m',
        sm_rows_merged := sm_rows_merged m + of_nat (size (b_samples (sm_pending m)))\<rparr>"
proof -
  have p: "flat_block (sm_pending m)" "sbw_rep Z (sm_bsw m) (sm_ph m) ss"
    using assms(4,5) by (simp_all add: wstate_def series_block_def)
  note f = flat_blockD [OF p(1)]
  show ?thesis
    using store_flat [OF assms(1,2) p(2,1) assms(3), of "sm_rows_merged m"] size_b_samples [OF f(5)]
    by (fastforce simp: write_pending_def)
qed

lemma copy_flat: "flat_block b \<Longrightarrow> block_copy_from p b = Some b"
  by (cases b; cases p) (auto simp: flat_block_def block_copy_from_def block_timestamps_def block_values_def tail_from_def)

section \<open>Merging into the pending block\<close>

lemma next_rows_bh [simp]: "bk_bh (next_rows n b) = bk_bh b"
  by (induction n arbitrary: b) (simp_all add: next_row_def)

lemma append_rows_bh: "append_rows ob ib = (ob', ib') \<Longrightarrow> bk_bh ib' = bk_bh ib"
  by (auto simp: append_rows_def)

lemma skip_samples_bh: "skip_samples_outside_retention d b = (b', n) \<Longrightarrow> bk_bh b' = bk_bh b"
  by (auto simp: skip_samples_outside_retention_def Let_def split: if_splits)

lemma merge_rows_loop_bh:
  assumes "merge_rows_loop sw ob a b = Some r"
  shows "swaps_bh sw a b r"
proof (rule merge_rows_loop.raw_induct [of "\<lambda>sw ob a b r. swaps_bh sw a b r", OF _ assms])
  fix f sw and ob a b :: Block and r
  assume hyp: "\<And>sw ob a b r. f sw ob a b = Some r \<Longrightarrow> swaps_bh sw a b r"
    and step: "(if rest_ts b = [] then None
      else let ts2 = rest_ts b ! 0; n = partition_point (\<lambda>ts. ts \<le>s ts2) (rest_ts a);
               ob = ob\<lparr>bk_timestamps := bk_timestamps ob @ take n (rest_ts a), bk_values := bk_values ob @ take n (rest_vs a)\<rparr>;
               a = next_rows n a
           in if rest_ts a = []
              then case append_rows ob b of (ob, b) \<Rightarrow> Some (if sw then (ob, b, a) else (ob, a, b))
              else f (\<not> sw) ob b a) = Some r"
  show "swaps_bh sw a b r"
  proof (cases "rest_ts (next_rows (partition_point (\<lambda>ts. ts \<le>s rest_ts b ! 0) (rest_ts a)) a) = []")
    case True
    then show ?thesis using step by (auto simp: Let_def swaps_bh_def split: if_splits prod.splits dest!: append_rows_bh)
  next
    case False
    then show ?thesis using step hyp by (auto simp: Let_def swaps_bh_def split: if_splits)
  qed
qed

lemma merge_blocks_bh: "merge_blocks ob a b d n = Some (ob', x, y, n') \<Longrightarrow> bk_bh y = bk_bh b"
  by (auto simp: merge_blocks_def Let_def split: if_splits prod.splits option.splits
      dest!: append_rows_bh skip_samples_bh merge_rows_loop_bh simp: swaps_bh_def)

lemma flat_rest:
  assumes "flat_block b"
  shows "rows_ok b" "in_header b" "rest_rows b = zip (bk_timestamps b) (bk_values b)"
proof -
  note f = flat_blockD [OF assms]
  have r: "rest_ts b = bk_timestamps b" "rest_vs b = bk_values b" using f(2) by (simp_all add: rest_ts_def rest_vs_def)
  show "rows_ok b" using f by (simp add: rows_ok_def r assert_unmarshaled_def)
  show "rest_rows b = zip (bk_timestamps b) (bk_values b)" by (simp add: rest_rows_def r)
  have "sint (hd (bk_timestamps b)) \<le> sint t \<and> sint t \<le> sint (last (bk_timestamps b))" if t: "t \<in> set (bk_timestamps b)" for t
  proof -
    have s: "sorted (map sint (bk_timestamps b))" using f(7) by (simp add: non_decreasing_def)
    obtain i where i: "i < length (bk_timestamps b)" "t = bk_timestamps b ! i" using t by (auto simp: in_set_conv_nth)
    show ?thesis using sorted_nth_mono [OF s, of 0 i] sorted_nth_mono [OF s, of i "length (bk_timestamps b) - 1"] i f(3)
      by (simp add: hd_conv_nth last_conv_nth)
  qed
  then show "in_header b" using assms by (simp add: in_header_def r flat_block_def word_sle_eq)
qed

lemma samples_of_filter:
  "image_mset (Pair t) (filter_mset (\<lambda>(u, v). d \<le>s u) M) = filter_mset (\<lambda>(_, u, _). d \<le>s u) (image_mset (Pair t) M)"
  by (induction M) (auto split: prod.splits)

lemma merge_flat:
  assumes "series_block T sc p" "series_block T sc b" "b_tsid p = b_tsid b" "bk_timestamps ob = []" "bk_values ob = []"
  shows "\<exists>ob' x y. merge_blocks ob p b d n = Some (ob', x, y, n + (of_nat (size (b_samples p + b_samples b)) -
      of_nat (length (bk_timestamps ob')))) \<and> bk_bh y = bk_bh b
    \<and> samples_of (b_tsid b) (bk_timestamps ob') (bk_values ob') = filter_mset (\<lambda>(_, u, _). d \<le>s u) (b_samples p + b_samples b)
    \<and> ob' = ob\<lparr>bk_timestamps := bk_timestamps ob', bk_values := bk_values ob'\<rparr>
    \<and> non_decreasing (bk_timestamps ob') \<and> length (bk_values ob') = length (bk_timestamps ob')"
proof -
  have F: "flat_block p" "flat_block b" using assms(1,2) by (simp_all add: series_block_def)
  note p = flat_rest [OF F(1)] and b = flat_rest [OF F(2)]
  have am: "assert_mergeable p b" using assms(1-3) by (simp add: assert_mergeable_def series_block_def)
  let ?in = "\<lambda>(t, v). d \<le>s t" and ?out = "\<lambda>(t, v). \<not> d \<le>s t"
  obtain ob' x y where m: "merge_blocks ob p b d n = Some (ob', x, y,
      n + of_nat (length (filter ?out (rest_rows p))) + of_nat (length (filter ?out (rest_rows b))))"
    and e: "extends ob (mset (filter ?in (rest_rows p)) + mset (filter ?in (rest_rows b))) ob'"
    using merge_blocks_rows [OF am p(1) b(1) p(2) b(2) assms(4,5), of d n] by blast
  have rows: "mset (block_rows ob') = mset (filter ?in (rest_rows p)) + mset (filter ?in (rest_rows b))"
    using e assms(4) by (simp add: extends_def block_rows_def)
  have s: "samples_of (b_tsid b) (bk_timestamps ob') (bk_values ob') = filter_mset (\<lambda>(_, u, _). d \<le>s u) (b_samples p + b_samples b)"
    using rows by (simp add: samples_of_def b_samples_def assms(3) p(3) b(3) samples_of_filter flip: block_rows_def)
  have l: "length (bk_values ob') = length (bk_timestamps ob')" using e by (simp add: extends_def)
  have len: "length (bk_timestamps ob') = length (filter ?in (rest_rows p)) + length (filter ?in (rest_rows b))"
    using arg_cong [OF rows, of size] l unfolding size_union size_mset by (simp add: block_rows_def)
  have sz: "size (b_samples p) = length (rest_rows p)" "size (b_samples b) = length (rest_rows b)"
    by (simp_all add: b_samples_def samples_of_def p(3) b(3))
  have fl: "length (filter ?in rs) + length (filter ?out rs) = length rs" for rs :: "(i64 \<times> i64) list"
    using sum_length_filter_compl [of ?in rs] by (simp add: case_prod_unfold)
  have "size (b_samples p + b_samples b) = length (bk_timestamps ob') +
      (length (filter ?out (rest_rows p)) + length (filter ?out (rest_rows b)))"
    using fl [of "rest_rows p"] fl [of "rest_rows b"] unfolding size_union sz len by linarith
  then have "of_nat (size (b_samples p + b_samples b)) - of_nat (length (bk_timestamps ob')) =
      (of_nat (length (filter ?out (rest_rows p)) + length (filter ?out (rest_rows b))) :: u64)" by (simp only: of_nat_add) simp
  then show ?thesis using m merge_blocks_bh [OF m] s l e
    by (intro exI [of _ ob'] exI [of _ x] exI [of _ y]) (simp add: extends_def add.assoc)
qed

lemma fixup_flat:
  assumes "bk_timestamps b \<noteq> []" "bk_next_idx b = 0"
  shows "fixup_block_timestamps b = Some (b\<lparr>bk_bh := (bk_bh b)\<lparr>sbh_min_timestamp := hd (bk_timestamps b),
    sbh_max_timestamp := last (bk_timestamps b)\<rparr>\<rparr>)"
  using assms by (simp add: fixup_block_timestamps_def block_timestamps_def tail_from_def hd_conv_nth)

lemma init_flat:
  assumes "ts \<noteq> []"
  shows "\<exists>p. block_init q t ts vs sc pb = Some p \<and> p = block_default\<lparr>bk_bh := sbh_default\<lparr>sbh_tsid := t, sbh_scale := sc,
    sbh_precision_bits := pb, sbh_min_timestamp := hd ts, sbh_max_timestamp := last ts\<rparr>, bk_timestamps := ts, bk_values := vs\<rparr>"
  using assms by (simp add: block_init_def block_fixup_timestamps_def Let_def block_reset_default block_default_def hd_conv_nth last_conv_nth)

lemma flatI:
  assumes "ts \<noteq> []" "length vs = length ts" "length ts \<le> MAX_ROWS_PER_BLOCK" "non_decreasing ts"
    "bk_timestamps b = ts" "bk_values b = vs" "bk_next_idx b = 0" "bk_timestamps_data b = []" "bk_values_data b = []"
    "sbh_precision_bits (bk_bh b) = 64" "sbh_min_timestamp (bk_bh b) = hd ts" "sbh_max_timestamp (bk_bh b) = last ts"
  shows "flat_block b"
  using assms by (simp add: flat_block_def block_ready_def check_precision_bits_def)

lemma samples_of_split:
  assumes "length vs = length ts"
  shows "samples_of t (take n ts) (take n vs) + samples_of t (drop n ts) (drop n vs) = samples_of t ts vs"
proof -
  have "mset (take n (zip ts vs)) + mset (drop n (zip ts vs)) = mset (zip ts vs)"
    by (metis append_take_drop_id mset_append)
  then show ?thesis by (simp add: samples_of_def take_zip drop_zip flip: image_mset_union)
qed

lemma keep_merged_rep:
  assumes Z: "zstd_ok Z" "zstd_bounded Z" "D \<le> 0" and tmp: "merged_tmp T sc (sm_tmp m)"
    and w: "sbw_rep Z (sm_bsw m) (sm_ph m) ss" "sorted (map p_tsid ss)" "\<forall>s \<in> set ss. p_tsid s \<le> b_tsid (sm_tmp m)"
    and ne: "\<not> sm_pending_is_empty m"
  shows "\<exists>m' ss'. keep_merged Z D m = Some m' \<and> wstate Z T sc m' ss' (b_tsid (sm_tmp m))
    \<and> merged_out m' ss' = sum_list (map p_samples ss) + b_samples (sm_tmp m) \<and> blocks_used m' ss' \<le> length ss + 2
    \<and> sm_bsm m' = sm_bsm m \<and> sm_bsrs m' = sm_bsrs m \<and> sm_rows_deleted m' = sm_rows_deleted m
    \<and> sm_rows_merged m' + of_nat (size (pend_samples m')) = sm_rows_merged m + of_nat (length (bk_timestamps (sm_tmp m)))"
proof -
  define b where "b = sm_tmp m"
  note t = tmp [folded b_def, unfolded merged_tmp_def]
  have sz: "size (b_samples b) = length (bk_timestamps b)" using t by (intro size_b_samples) simp
  consider (none) "bk_timestamps b = []" | (fits) "bk_timestamps b \<noteq> []" "length (bk_timestamps b) \<le> MAX_ROWS_PER_BLOCK"
    | (split) "MAX_ROWS_PER_BLOCK < length (bk_timestamps b)" by fastforce
  then show ?thesis
  proof cases
    case none
    then have "b_samples b = {#}" by (simp add: b_samples_def samples_of_def)
    then show ?thesis using none w
      by (simp add: keep_merged_def wstate_def merged_out_def pend_samples_def blocks_used_def flip: b_def)
        (intro exI [of _ ss], simp)
  next
    case fits
    define p where "p = b\<lparr>bk_bh := (bk_bh b)\<lparr>sbh_min_timestamp := hd (bk_timestamps b), sbh_max_timestamp := last (bk_timestamps b)\<rparr>\<rparr>"
    have "flat_block p" using t fits by (intro flatI [of "bk_timestamps b" "bk_values b"]) (simp_all add: p_def)
    moreover have "b_samples p = b_samples b" by (simp add: b_samples_def p_def)
    ultimately show ?thesis using fits w t fixup_flat [of b] sz ne
      by (simp add: keep_merged_def wstate_def merged_out_def pend_samples_def blocks_used_def series_block_def p_def flip: b_def)
        (intro exI [of _ ss], simp)
  next
    case split
    let ?n = MAX_ROWS_PER_BLOCK
    let ?hd = "b\<lparr>bk_timestamps := take ?n (bk_timestamps b), bk_values := take ?n (bk_values b)\<rparr>"
    define h where "h = ?hd\<lparr>bk_bh := (bk_bh b)\<lparr>sbh_min_timestamp := hd (take ?n (bk_timestamps b)),
      sbh_max_timestamp := last (take ?n (bk_timestamps b))\<rparr>\<rparr>"
    have n0: "0 < ?n" by (simp add: MAX_ROWS_PER_BLOCK_def)
    have nt: "take ?n (bk_timestamps b) \<noteq> []" "drop ?n (bk_timestamps b) \<noteq> []" using split n0 by auto
    have fh: "fixup_block_timestamps ?hd = Some h" using fixup_flat [of ?hd] nt t by (simp add: h_def)
    have h: "flat_block h" using t nt non_decreasing_take [of "bk_timestamps b" ?n]
      by (intro flatI [of "take ?n (bk_timestamps b)" "take ?n (bk_values b)"]) (simp_all add: h_def)
    obtain p where p: "block_init (sm_pending m) (b_tsid b) (drop ?n (bk_timestamps b)) (drop ?n (bk_values b))
        (sbh_scale (bk_bh b)) (sbh_precision_bits (bk_bh b)) = Some p"
      "p = block_default\<lparr>bk_bh := sbh_default\<lparr>sbh_tsid := b_tsid b, sbh_scale := sbh_scale (bk_bh b),
        sbh_precision_bits := sbh_precision_bits (bk_bh b), sbh_min_timestamp := hd (drop ?n (bk_timestamps b)),
        sbh_max_timestamp := last (drop ?n (bk_timestamps b))\<rparr>, bk_timestamps := drop ?n (bk_timestamps b), bk_values := drop ?n (bk_values b)\<rparr>"
      using init_flat [OF nt(2)] by blast
    have fp: "series_block T sc p" unfolding series_block_def
    proof
      have "length (drop ?n (bk_timestamps b)) \<le> ?n" using t by (simp add: le_diff_conv)
      then show "flat_block p" using t nt split non_decreasing_drop [of "bk_timestamps b" ?n]
        by (intro flatI [of "drop ?n (bk_timestamps b)" "drop ?n (bk_values b)"]) (simp_all add: p(2) block_default_def)
    qed (use t p(2) in simp)
    have hs: "length (bk_timestamps h) = ?n" "b_tsid h = b_tsid b" using split by (simp_all add: h_def)
    obtain w' h' ph' s where wr: "write_external_block Z D (sm_bsw m) h (sm_ph m) (sm_rows_merged m) =
        Some (w', h', ph', sm_rows_merged m + of_nat ?n)"
      "sbw_rep Z w' ph' (ss @ [s])" "p_samples s = b_samples h" "p_tsid s = b_tsid b"
      using store_flat [OF Z(1,2) w(1) h Z(3), of "sm_rows_merged m"] unfolding hs by blast
    define m' where "m' = m\<lparr>sm_pending := p, sm_tmp := h', sm_bsw := w', sm_ph := ph', sm_rows_merged := sm_rows_merged m + of_nat ?n\<rparr>"
    have k: "keep_merged Z D m = Some m'"
      using split t p(1) fh wr(1) by (simp add: keep_merged_def Let_def m'_def flip: b_def)
    have sp: "b_samples h + b_samples p = b_samples b"
      using samples_of_split [of "bk_values b" "bk_timestamps b" "b_tsid b" ?n] t by (simp add: b_samples_def h_def p(2))
    have ws: "wstate Z T sc m' (ss @ [s]) (b_tsid b)"
      using wr(2,4) w(2,3) fp by (auto simp: wstate_def m'_def sorted_append b_def p(2))
    have o: "merged_out m' (ss @ [s]) = sum_list (map p_samples ss) + b_samples b"
      using ne sp wr(3) by (simp add: merged_out_def pend_samples_def m'_def add.assoc)
    have "size (b_samples h) = ?n" using t hs(1) by (subst size_b_samples) (simp_all add: h_def)
    then have "?n + size (b_samples p) = length (bk_timestamps b)" using arg_cong [OF sp, of size] sz by simp
    then have "sm_rows_merged m' + of_nat (size (pend_samples m')) = sm_rows_merged m + of_nat (length (bk_timestamps b))"
      using ne by (simp add: m'_def pend_samples_def add.assoc flip: of_nat_add)
    then show ?thesis using k ws o ne split
      by (intro exI [of _ m'] exI [of _ "ss @ [s]"]) (simp add: blocks_used_def m'_def flip: b_def)
  qed
qed

lemma calibrate_same:
  assumes "series_block T sc p" "series_block T sc b" "b_tsid p = b_tsid b"
  shows "unmarshal_and_calibrate_scale Z p b = Inr (p, b)"
proof -
  have F: "flat_block p" "flat_block b" "sbh_scale (bk_bh p) = sbh_scale (bk_bh b)"
    using assms by (simp_all add: series_block_def)
  have "block_unmarshal_data Z p = Inr p" "block_unmarshal_data Z b = Inr b"
    using flat_blockD [OF F(1)] flat_blockD [OF F(2)] by (simp_all add: block_unmarshal_data_def)
  then show ?thesis using F(3) by (simp add: unmarshal_and_calibrate_scale_def calibrate_scale_def)
qed

lemma same_reader: "\<exists>b'. bk_bh b' = bk_bh (sbr_block (rs ! k)) \<and> rs = rs[k := (rs ! k)\<lparr>sbr_block := b'\<rparr>]"
  by (intro exI [of _ "sbr_block (rs ! k)"]) simp

lemma load_pending_rep:
  assumes "series_block T sc b" "sbw_rep Z (sm_bsw m) (sm_ph m) ss" "sorted (map p_tsid ss)" "\<forall>s \<in> set ss. p_tsid s \<le> b_tsid b"
  shows "load_pending b m = Some (m\<lparr>sm_pending := b, sm_pending_is_empty := False\<rparr>)"
    "wstate Z T sc (m\<lparr>sm_pending := b, sm_pending_is_empty := False\<rparr>) ss (b_tsid b)"
  using assms copy_flat [of b] by (simp_all add: load_pending_def wstate_def series_block_def)

lemma handle_load:
  assumes "wstate Z T sc m ss t0" "sm_pending_is_empty m" "b = sbr_block (sm_bsrs m ! k)" "series_block T sc b" "t0 \<le> b_tsid b"
    "live_block dmis (bsm_retention_deadline (sm_bsm m)) b"
  shows "\<exists>m'. load_pending b m = Some m' \<and> handled Z T sc dmis k m ss m' ss"
proof -
  have w: "sbw_rep Z (sm_bsw m) (sm_ph m) ss" "sorted (map p_tsid ss)" "\<forall>s \<in> set ss. p_tsid s \<le> b_tsid b"
    using assms(1,5) by (auto simp: wstate_def)
  have "length (bk_values b) = length (bk_timestamps b)" using assms(4) flat_blockD(5) by (simp add: series_block_def)
  then show ?thesis using load_pending_rep [OF assms(4) w] assms(2,6) same_reader [of "sm_bsrs m" k] size_b_samples [of b]
    by (simp add: handled_def merged_out_def pend_samples_def blocks_used_def rows_seen_def live_samples_def flip: assms(3))
qed

lemma handle_write_load:
  assumes Z: "zstd_ok Z" "zstd_bounded Z" "D \<le> 0"
    and a: "wstate Z T sc m ss t0" "\<not> sm_pending_is_empty m" "b = sbr_block (sm_bsrs m ! k)" "series_block T sc b" "t0 \<le> b_tsid b"
    "live_block dmis (bsm_retention_deadline (sm_bsm m)) b"
  shows "\<exists>m1 m' s. write_pending Z D m = Some m1 \<and> load_pending b m1 = Some m' \<and> handled Z T sc dmis k m ss m' (ss @ [s])"
proof -
  obtain m1 s where m1: "write_pending Z D m = Some m1" "sbw_rep Z (sm_bsw m1) (sm_ph m1) (ss @ [s])"
    "p_samples s = b_samples (sm_pending m)" "p_tsid s = b_tsid (sm_pending m)"
    "m1 = m\<lparr>sm_bsw := sm_bsw m1, sm_ph := sm_ph m1, sm_pending := sm_pending m1,
        sm_rows_merged := sm_rows_merged m + of_nat (size (b_samples (sm_pending m)))\<rparr>"
    using write_pending_rep [OF Z a(1,2)] by blast
  have w: "sorted (map p_tsid (ss @ [s]))" "\<forall>s \<in> set (ss @ [s]). p_tsid s \<le> b_tsid b"
    using a(1,2,5) m1(4) by (auto simp: wstate_def sorted_append)
  have "length (bk_values b) = length (bk_timestamps b)" using a(4) flat_blockD(5) by (simp add: series_block_def)
  note sz = size_b_samples [OF this]
  define m' where "m' = m1\<lparr>sm_pending := b, sm_pending_is_empty := False\<rparr>"
  note l = load_pending_rep [OF a(4) m1(2) w, folded m'_def]
  have f: "sm_bsm m' = sm_bsm m" "sm_bsrs m' = sm_bsrs m" "sm_rows_deleted m' = sm_rows_deleted m"
    "sm_rows_merged m' = sm_rows_merged m + of_nat (size (b_samples (sm_pending m)))"
    "sm_pending m' = b" "\<not> sm_pending_is_empty m'" by (subst m'_def, subst m1(5), simp)+
  have "handled Z T sc dmis k m ss m' (ss @ [s])"
    using l(2) a(2,6) same_reader [of "sm_bsrs m" k] sz m1(3)
    by (simp add: handled_def f merged_out_def pend_samples_def blocks_used_def rows_seen_def live_samples_def ac_simps flip: a(3))
  with m1(1) l(1) show ?thesis by blast
qed

lemma handle_merge:
  assumes Z: "zstd_ok Z" "zstd_bounded Z" "D \<le> 0"
    and a: "wstate Z T sc m ss t0" "\<not> sm_pending_is_empty m" "b = sbr_block (sm_bsrs m ! k)" "series_block T sc b"
    "live_block dmis (bsm_retention_deadline (sm_bsm m)) b" "b_tsid (sm_pending m) = b_tsid b"
  shows "\<exists>m' ss'. merge_pending Z D k m = Some (m', None) \<and> handled Z T sc dmis k m ss m' ss'"
proof -
  define p where "p = sm_pending m"
  define d where "d = bsm_retention_deadline (sm_bsm m)"
  have p: "series_block T sc p" "b_tsid p = b_tsid b" "flat_block p" "flat_block b"
    using a by (simp_all add: wstate_def p_def series_block_def)
  define ob where "ob = (block_reset (sm_tmp m))\<lparr>bk_bh := (bk_bh (block_reset (sm_tmp m)))\<lparr>sbh_tsid := b_tsid b,
     sbh_scale := sbh_scale (bk_bh b), sbh_precision_bits := min (sbh_precision_bits (bk_bh p)) (sbh_precision_bits (bk_bh b))\<rparr>\<rparr>"
  have ob0: "bk_timestamps ob = []" "bk_values ob = []" by (simp_all add: ob_def block_reset_default block_default_def)
  obtain ob' x y where mb: "merge_blocks ob p b d (sm_rows_deleted m) = Some (ob', x, y, sm_rows_deleted m +
      (of_nat (size (b_samples p + b_samples b)) - of_nat (length (bk_timestamps ob'))))"
    and y: "bk_bh y = bk_bh b"
    and s: "samples_of (b_tsid b) (bk_timestamps ob') (bk_values ob') = filter_mset (\<lambda>(_, u, _). d \<le>s u) (b_samples p + b_samples b)"
    and o: "ob' = ob\<lparr>bk_timestamps := bk_timestamps ob', bk_values := bk_values ob'\<rparr>"
      "non_decreasing (bk_timestamps ob')" "length (bk_values ob') = length (bk_timestamps ob')"
    using merge_flat [OF p(1) a(4) p(2) ob0] by blast
  have tob: "b_tsid ob' = b_tsid b" by (subst o(1)) (simp add: ob_def)
  have "b_samples ob' = samples_of (b_tsid b) (bk_timestamps ob') (bk_values ob')" by (simp only: b_samples_def tob)
  note so = tob this [unfolded s]
  have ls: "size (b_samples p) \<le> MAX_ROWS_PER_BLOCK" "size (b_samples b) \<le> MAX_ROWS_PER_BLOCK" "size (b_samples b) = length (bk_timestamps b)"
    using flat_blockD(5,6) [OF p(3)] flat_blockD(5,6) [OF p(4)] by (simp_all add: size_b_samples)
  have lo: "length (bk_timestamps ob') = size (b_samples ob')" using o(3) by (simp add: size_b_samples)
  also have "\<dots> \<le> size (b_samples p + b_samples b)" unfolding so(2) by (rule size_filter_mset_lesseq)
  finally have "length (bk_timestamps ob') \<le> 2 * MAX_ROWS_PER_BLOCK" using ls by simp
  then have mt: "merged_tmp T sc ob'"
    using o(2,3) a(4) p(3,4) flat_blockD(8) [OF p(3)] flat_blockD(8) [OF p(4)] unfolding merged_tmp_def
    by (intro conjI; (assumption | (subst o(1), simp add: tob ob_def block_reset_default block_default_def series_block_def)))
  define del where "del = sm_rows_deleted m + (of_nat (size (b_samples p + b_samples b)) - of_nat (length (bk_timestamps ob')))"
  define m1 where "m1 = m\<lparr>sm_pending := x, sm_tmp := ob', sm_rows_deleted := del,
      sm_bsrs := (sm_bsrs m)[k := (sm_bsrs m ! k)\<lparr>sbr_block := y\<rparr>]\<rparr>"
  have "sbw_rep Z (sm_bsw m1) (sm_ph m1) ss" "sorted (map p_tsid ss)" "\<forall>s \<in> set ss. p_tsid s \<le> b_tsid (sm_tmp m1)" "\<not> sm_pending_is_empty m1"
    "merged_tmp T sc (sm_tmp m1)"
    using a(1,2,6) mt so(1) by (simp_all add: wstate_def m1_def)
  from keep_merged_rep [OF Z this(5,1-4)] obtain m' ss' where m': "keep_merged Z D m1 = Some m'" "wstate Z T sc m' ss' (b_tsid b)"
    "merged_out m' ss' = sum_list (map p_samples ss) + b_samples ob'" "blocks_used m' ss' \<le> length ss + 2"
    "sm_bsm m' = sm_bsm m1" "sm_bsrs m' = sm_bsrs m1" "sm_rows_deleted m' = sm_rows_deleted m1"
    "sm_rows_merged m' + of_nat (size (pend_samples m')) = sm_rows_merged m1 + of_nat (length (bk_timestamps ob'))"
    by (auto simp: m1_def so(1))
  have "merge_pending Z D k m = Some (m', None)"
    using m'(1) mb [folded del_def] by (simp add: merge_pending_def calibrate_same [OF p(1) a(4) p(2)] Let_def flip: p_def a(3) ob_def d_def m1_def)
  moreover have "kept d (merged_out m ss + live_samples dmis d [b]) (merged_out m' ss')"
  proof -
    have "merged_out m ss + live_samples dmis d [b] = (b_samples p + b_samples b) + sum_list (map p_samples ss)"
      using a(2,5) by (simp add: merged_out_def pend_samples_def live_samples_def ac_simps flip: p_def d_def)
    then show ?thesis unfolding m'(3) so(2)
      using kept_add [OF kept_filter [of d "b_samples p + b_samples b"], of "sum_list (map p_samples ss)"]
      by (simp only: add.commute)
  qed
  moreover have "rows_seen m' = rows_seen m + of_nat (length (bk_timestamps b))"
  proof -
    have "rows_seen m' = sm_rows_merged m + sm_rows_deleted m + of_nat (size (b_samples p + b_samples b))"
      using m'(7,8) by (simp add: rows_seen_def m1_def del_def algebra_simps)
    then show ?thesis using a(2) ls(3) by (simp add: rows_seen_def pend_samples_def flip: p_def)
  qed
  ultimately show ?thesis using m'(2,4,5,6) a(2) y
    by (intro exI [of _ m'] exI [of _ ss']) (auto simp: handled_def m1_def blocks_used_def simp flip: a(3) d_def intro!: exI [of _ y])
qed

lemma wstate_mono: "wstate Z T sc m ss t0 \<Longrightarrow> t0 \<le> t1 \<Longrightarrow> wstate Z T sc m ss t1"
  by (fastforce simp: wstate_def)

lemma handle_block_rep:
  assumes Z: "zstd_ok Z" "zstd_bounded Z" "D \<le> 0" "inj_on metric_id T"
    and a: "wstate Z T sc m ss t0" "b = sbr_block (sm_bsrs m ! k)" "source_block T sc b" "t0 \<le> b_tsid b"
  shows "\<exists>m' ss'. handle_block Z D dmis k m = Some (m', None) \<and> handled Z T sc dmis k m ss m' ss'"
proof -
  let ?d = "bsm_retention_deadline (sm_bsm m)" and ?p = "sm_pending m"
  have sb: "series_block T sc b" "unat (sbh_rows_count (bk_bh b)) = length (bk_timestamps b)"
    using a(3) by (simp_all add: source_block_def)
  show ?thesis
  proof (cases "live_block dmis ?d b")
    case False
    have "(ucast (sbh_rows_count (bk_bh b)) :: u64) = of_nat (length (bk_timestamps b))" using sb(2) by (metis of_nat_unat)
    then have "handled Z T sc dmis k m ss (m\<lparr>sm_rows_deleted := sm_rows_deleted m + ucast (sbh_rows_count (bk_bh b))\<rparr>) ss"
      using wstate_mono [OF a(1,4)] False same_reader [of "sm_bsrs m" k]
      by (simp add: handled_def live_samples_def merged_out_def pend_samples_def blocks_used_def rows_seen_def wstate_def flip: a(2))
    then show ?thesis using False
      by (intro exI [of _ "m\<lparr>sm_rows_deleted := sm_rows_deleted m + ucast (sbh_rows_count (bk_bh b))\<rparr>"] exI [of _ ss])
        (auto simp: handle_block_def Let_def live_block_def simp flip: a(2))
  next
    case live: True
    then have nl: "\<not> ((case dmis of None \<Rightarrow> False | Some s \<Rightarrow> uset_has s (metric_id (b_tsid b))) \<or> sbh_max_timestamp (bk_bh b) <s ?d)"
      by (simp add: live_block_def)
    show ?thesis
    proof (cases "sm_pending_is_empty m")
      case True
      then show ?thesis using handle_load [OF a(1) True a(2) sb(1) a(4) live] nl
        by (auto simp: handle_block_def Let_def simp flip: a(2))
    next
      case False
      have p: "series_block T sc ?p" "b_tsid ?p \<le> b_tsid b" using a(1,4) False by (auto simp: wstate_def)
      obtain m1 m' s where wl: "write_pending Z D m = Some m1" "load_pending b m1 = Some m'" "handled Z T sc dmis k m ss m' (ss @ [s])"
        using handle_write_load [OF Z(1-3) a(1) False a(2) sb(1) a(4) live] by blast
      have "b_tsid ?p = b_tsid b" if "metric_id (b_tsid ?p) = metric_id (b_tsid b)"
        using that p(1) sb(1) Z(4) by (simp add: series_block_def inj_on_eq_iff)
      then show ?thesis
        using handle_merge [OF Z(1-3) a(1) False a(2) sb(1) live] wl nl False p(2)
        by (cases "metric_id (b_tsid ?p) = metric_id (b_tsid b)";
            cases "too_big ?p \<and> sbh_max_timestamp (bk_bh ?p) \<le>s sbh_min_timestamp (bk_bh b)")
          (auto simp: handle_block_def Let_def simp flip: a(2))
    qed
  qed
qed

section \<open>The heap of readers\<close>

lemma sbh_less_hkey:
  "inj_on metric_id T \<Longrightarrow> sbh_tsid a \<in> T \<Longrightarrow> sbh_tsid b \<in> T \<Longrightarrow> sbh_less a b \<longleftrightarrow> hkey a < hkey b"
  by (auto simp: sbh_less_def hkey_def less_prod_def word_sless_alt inj_on_eq_iff)

lemma sample_heap_less_eq:
  assumes "inj_on metric_id T" "headers_in c T heap"
  shows "sample_heap_less c heap i j = heap_less (\<lambda>k. map_option hkey (c k)) heap i j"
proof (cases "i < length heap \<and> j < length heap")
  case True
  then obtain a b where "c (heap ! i) = Some a" "c (heap ! j) = Some b" "sbh_tsid a \<in> T" "sbh_tsid b \<in> T"
    using assms(2) unfolding headers_in_def by (meson nth_mem)
  then show ?thesis using True assms(1) by (simp add: sample_heap_less_def heap_less_def sbh_less_hkey)
qed (auto simp: sample_heap_less_def heap_less_def)

lemma sample_sift_down_eq:
  assumes "inj_on metric_id T" "headers_in c T heap"
  shows "sample_sift_down c heap i = sift_down (\<lambda>k. map_option hkey (c k)) heap i"
  using assms(2)
proof (induction c heap i rule: sample_sift_down.induct)
  case (1 c heap i)
  let ?c = "\<lambda>k. map_option hkey (c k)"
  have L: "sample_heap_less c heap = heap_less ?c heap" using sample_heap_less_eq [OF assms(1) 1(2)] by blast
  have S: "headers_in c T (swap_at heap i j)" if "i < length heap" "j < length heap" for j
    using 1(2) mset_eq_setD [OF mset_swap_at [OF that]] by (simp add: headers_in_def)
  show ?case
    by (subst sample_sift_down.simps, subst sift_down.simps)
      (auto simp: L Let_def 1(1) [OF refl refl] S not_le split: option.split if_splits)
qed

lemma sample_heap_init_eq:
  assumes "inj_on metric_id T" "headers_in c T heap"
  shows "sample_heap_init c heap = heap_init (\<lambda>k. map_option hkey (c k)) heap"
proof -
  let ?c = "\<lambda>k. map_option hkey (c k)"
  have "sample_heap_init_loop c i heap = heap_init_loop ?c i heap" for i
    using assms(2)
  proof (induction i arbitrary: heap)
    case (Suc i)
    have "headers_in c T h'" if "sift_down ?c heap i = Some h'" for h'
      using Suc.prems mset_eq_setD [OF sift_down_mset [OF that]] by (simp add: headers_in_def)
    then show ?case using Suc by (auto simp: sample_sift_down_eq [OF assms(1)] split: option.split)
  qed simp
  then show ?thesis by (simp add: sample_heap_init_def heap_init_def)
qed

section \<open>The readers\<close>

lemma heap_rep_headers:
  assumes "heap_rep Z T sc bsrs heap rest"
  shows "headers_in (cur_header bsrs) T heap" "\<forall>k \<in> set heap. map_option hkey (cur_header bsrs k) = Some (rkey bsrs k)"
proof -
  have "b_tsid (cur_block bsrs k) \<in> T" if "k \<in> set heap" for k
    using assms that by (cases heap) (auto simp: heap_rep_def source_block_def series_block_def)
  then show "headers_in (cur_header bsrs) T heap" using assms by (auto simp: headers_in_def cur_header_def heap_rep_def)
  show "\<forall>k \<in> set heap. map_option hkey (cur_header bsrs k) = Some (rkey bsrs k)"
    using assms by (simp add: heap_rep_def cur_header_def rkey_def)
qed

lemma sbr_rep_sorted:
  assumes "sbr_rep Z r bs" "b \<in> set bs"
  shows "b_tsid (sbr_block r) \<le> b_tsid b"
  using assms by (auto simp: sbr_rep_def Let_def tsids_ok_def p_block_def)

lemma todo_rest_bound:
  assumes "heap_rep Z T sc bsrs heap rest" "b \<in># todo_rest bsrs heap rest"
  shows "b_tsid (cur_block bsrs (heap ! 0)) \<le> b_tsid b"
proof -
  have h: "heap \<noteq> []" "heap_from (rkey bsrs) heap 0" using assms(1) by (simp_all add: heap_rep_def)
  have top: "b_tsid (cur_block bsrs (heap ! 0)) \<le> b_tsid (cur_block bsrs k)" if k: "k \<in> set heap" for k
  proof -
    obtain j where "j < length heap" "k = heap ! j" using k by (auto simp: in_set_conv_nth)
    then have "rkey bsrs (heap ! 0) \<le> rkey bsrs k" using heap_top_min [OF h(2)] by simp
    then show ?thesis by (auto simp: rkey_def hkey_def less_eq_prod_def)
  qed
  have rest: "b_tsid (cur_block bsrs k) \<le> b_tsid b" if "k \<in> set heap" "b \<in> set (rest k)" for k b
    using assms(1) that sbr_rep_sorted by (auto simp: heap_rep_def reader_rep_def)
  have t: "set (tl heap) \<subseteq> set heap" by (cases heap) auto
  have "\<exists>k \<in> set heap. b = cur_block bsrs k \<or> b \<in> set (rest k)"
    using assms(2) h(1) t by (fastforce simp: todo_rest_def tails_def)
  then show ?thesis using top rest order_trans by blast
qed

lemma heap_rep_handled:
  assumes "heap_rep Z T sc bsrs heap rest" "bk_bh b' = bk_bh (cur_block bsrs (heap ! 0))"
    "bsrs' = bsrs[heap ! 0 := (bsrs ! (heap ! 0))\<lparr>sbr_block := b'\<rparr>]"
  shows "heap_rep Z T sc bsrs' heap rest" "todo_rest bsrs' heap rest = todo_rest bsrs heap rest"
proof -
  let ?k = "heap ! 0"
  have k: "heap \<noteq> []" "?k < length bsrs" "?k \<notin> set (tl heap)"
    using assms(1) by (cases heap; auto simp: heap_rep_def)+
  have same: "bk_bh (cur_block bsrs' i) = bk_bh (cur_block bsrs i)" "length bsrs' = length bsrs" "sbr_rep Z (bsrs' ! i) bs = sbr_rep Z (bsrs ! i) bs"
    for i bs using assms(2) k(2)
    by (auto simp: assms(3) nth_list_update sbr_rep_def rdata_rep_def ridx_rep_def rchk_rep_def cong: option.case_cong)
  have other: "bsrs' ! i = bsrs ! i" if "i \<in> set (tl heap)" for i
    using k(3) that unfolding assms(3) by (intro nth_list_update_neq) auto
  have "rkey bsrs' = rkey bsrs" by (rule ext) (simp add: rkey_def same(1))
  then show "heap_rep Z T sc bsrs' heap rest"
    using assms(1) other by (simp add: heap_rep_def reader_rep_def same)
  have "tails bsrs' rest (tl heap) = tails bsrs rest (tl heap)" using other by (auto simp: tails_def intro!: arg_cong [where f = sum_mset] image_mset_cong)
  then show "todo_rest bsrs' heap rest = todo_rest bsrs heap rest" by (simp add: todo_rest_def)
qed

lemma heap_rep_sift:
  assumes "inj_on metric_id T" "distinct h" "heap_from key h 0" "\<forall>k \<in> set (tl h). rkey bsrs k = key k"
    "\<forall>k \<in> set h. k < length bsrs \<and> reader_rep Z T sc (bsrs ! k) (rest k) \<and> source_block T sc (cur_block bsrs k)" "h \<noteq> []"
  shows "\<exists>h'. sample_sift_down (cur_header bsrs) h 0 = Some h' \<and> mset h' = mset h \<and> heap_rep Z T sc bsrs h' rest"
proof -
  have hin: "headers_in (cur_header bsrs) T h"
    using assms(5) by (auto simp: headers_in_def cur_header_def source_block_def series_block_def)
  have c: "\<forall>k \<in> set h. map_option hkey (cur_header bsrs k) = Some (rkey bsrs k)" using assms(5) by (simp add: cur_header_def rkey_def)
  obtain h' where h': "sift_down (\<lambda>k. map_option hkey (cur_header bsrs k)) h 0 = Some h'" "mset h' = mset h" "heap_from (rkey bsrs) h' 0"
    using heap_fix_top [OF assms(3,4) c assms(2)] by blast
  have st: "set h' = set h" "h' \<noteq> []" "distinct h'"
    using mset_eq_setD [OF h'(2)] assms(2,6) h'(2) by (auto dest: mset_eq_imp_distinct_iff)
  have "\<forall>k \<in> set h'. k < length bsrs \<and> reader_rep Z T sc (bsrs ! k) (rest k) \<and> source_block T sc (cur_block bsrs k)"
    using assms(5) st(1) by simp
  moreover have "set (tl h') \<subseteq> set h'" "h' ! 0 \<in> set h'" using st(2) by (cases h'; auto)+
  ultimately have "heap_rep Z T sc bsrs h' rest"
    using st h'(3) unfolding heap_rep_def by (auto simp: source_block_def series_block_def)
  then show ?thesis using h'(1,2) sample_sift_down_eq [OF assms(1) hin] by auto
qed

lemma update_other: "k \<notin> set ks \<Longrightarrow> i \<in> set ks \<Longrightarrow> xs[k := x] ! i = xs ! i"
  by (rule nth_list_update_neq) auto

lemma tails_other:
  assumes "k \<notin> set ks"
  shows "tails (bsrs[k := r]) (rest(k := bs)) ks = tails bsrs rest ks"
  unfolding tails_def using assms by (intro arg_cong [where f = sum_mset] image_mset_cong) (auto simp: nth_list_update)

lemma advance_rep:
  assumes "inj_on metric_id T" "heap_rep Z T sc bsrs heap rest" "bsm_heap bsm = heap"
  shows "(\<exists>h bsrs' rest'. bsm_next_block_internal Z bsm bsrs = Some (bsm\<lparr>bsm_heap := h\<rparr>, bsrs', None) \<and> heap_rep Z T sc bsrs' h rest'
      \<and> source_block T sc (cur_block bsrs' (h ! 0)) \<and> todo_all bsrs' h rest' = todo_rest bsrs heap rest)
    \<or> (\<exists>h bsrs'. bsm_next_block_internal Z bsm bsrs = Some (bsm\<lparr>bsm_heap := h\<rparr>, bsrs', Some BsmEof) \<and> todo_rest bsrs heap rest = {#})"
proof -
  obtain k ks where h: "heap = k # ks" using assms(2) by (cases heap) (auto simp: heap_rep_def)
  note H = assms(2) [unfolded heap_rep_def h]
  have k: "k < length bsrs" "k \<notin> set ks" "reader_rep Z T sc (bsrs ! k) (rest k)" using H by auto
  have others: "\<forall>i \<in> set ks. i < length bsrs \<and> reader_rep Z T sc (bsrs ! i) (rest i) \<and> source_block T sc (cur_block bsrs i)" using H by simp
  show ?thesis
  proof (cases "rest k")
    case (Cons b bs)
    obtain r where r: "sbr_next_block Z (bsrs ! k) = Some (r, True)" "sbr_rep Z r bs" "sbr_block r = b"
      using sbr_next_Cons [of Z "bsrs ! k" b bs] k(3) Cons by (auto simp: reader_rep_def)
    let ?bsrs = "bsrs[k := r]" and ?rest = "rest(k := bs)"
    have "\<forall>i \<in> set (k # ks). i < length ?bsrs \<and> reader_rep Z T sc (?bsrs ! i) (?rest i) \<and> source_block T sc (cur_block ?bsrs i)"
      using others k r(2,3) Cons by (auto simp: nth_list_update reader_rep_def)
    moreover have "\<forall>i \<in> set (tl (k # ks)). rkey ?bsrs i = rkey bsrs i" by (simp add: rkey_def update_other [OF k(2)])
    ultimately obtain h' where h': "sample_sift_down (cur_header ?bsrs) (k # ks) 0 = Some h'" "mset h' = mset (k # ks)"
      "heap_rep Z T sc ?bsrs h' ?rest" using heap_rep_sift [OF assms(1), of "k # ks" "rkey bsrs" ?bsrs Z sc ?rest] H by auto
    have "todo_all ?bsrs h' ?rest = todo_rest bsrs heap rest"
      using tails_other [OF k(2), of bsrs r rest bs] h'(2) k(1) r(3) Cons by (simp add: todo_all_def todo_rest_def h tails_def)
    moreover have "source_block T sc (cur_block ?bsrs (h' ! 0))"
      using h'(2,3) \<open>\<forall>i \<in> set (k # ks). _\<close> mset_eq_setD [OF h'(2)] by (metis heap_rep_def nth_mem length_greater_0_conv)
    ultimately show ?thesis using r(1) h' k(1) assms(3)
      by (intro disjI1 exI [of _ h'] exI [of _ ?bsrs] exI [of _ ?rest]) (simp add: bsm_next_block_internal_def h Let_def)
  next
    case Nil
    obtain r where r: "sbr_next_block Z (bsrs ! k) = Some (r, False)" "sbr_err r = Some SampleEof"
      using sbr_next_Nil [of Z "bsrs ! k"] k(3) Nil by (auto simp: reader_rep_def)
    let ?bsrs = "bsrs[k := r]" and ?pop = "butlast (swap_at heap 0 (length heap - 1))"
    have pop: "mset ?pop = mset ks" using mset_pop_top [of heap] h by simp
    have e: "sbr_error r = None" using r(2) by (simp add: sbr_error_def)
    show ?thesis
    proof (cases "ks = []")
      case True
      then have "?pop = []" using pop by simp
      then have "bsm_next_block_internal Z bsm bsrs = Some (bsm\<lparr>bsm_heap := []\<rparr>, ?bsrs, Some BsmEof)"
        using r(1) e k(1) assms(3) by (simp add: bsm_next_block_internal_def h Let_def sample_sift_down.simps)
      then show ?thesis using True Nil by (auto simp: todo_rest_def h tails_def)
    next
      case False
      have sp: "set ?pop = set ks" "distinct ?pop" "?pop \<noteq> []"
        using mset_eq_setD [OF pop] mset_eq_imp_distinct_iff [OF pop] H False by auto
      have oth: "\<forall>i \<in> set ks. ?bsrs ! i = bsrs ! i" by (simp add: update_other [OF k(2)])
      have all: "\<forall>i \<in> set ?pop. i < length ?bsrs \<and> reader_rep Z T sc (?bsrs ! i) (rest i) \<and> source_block T sc (cur_block ?bsrs i)"
        using others oth sp(1) by auto
      have hin: "headers_in (cur_header ?bsrs) T ?pop"
        using all by (auto simp: headers_in_def cur_header_def source_block_def series_block_def)
      have c: "\<forall>i \<in> set (tl heap). map_option hkey (cur_header ?bsrs i) = Some (rkey bsrs i)"
        using others oth h by (auto simp: cur_header_def rkey_def)
      obtain h' where h': "heap_pop_top (\<lambda>i. map_option hkey (cur_header ?bsrs i)) heap = Some h'" "mset h' = mset ks" "heap_from (rkey bsrs) h' 0"
        using heap_pop_correct [OF _ c] H h by auto
      have sd: "sample_sift_down (cur_header ?bsrs) ?pop 0 = Some h'"
        using h'(1) sample_sift_down_eq [OF assms(1) hin] h by (simp add: heap_pop_top_def)
      have st: "set h' = set ks" "h' \<noteq> []" "distinct h'" using mset_eq_setD [OF h'(2)] mset_eq_imp_distinct_iff [OF h'(2)] H False by auto
      have "heap_from (rkey ?bsrs) h' 0" using oth st(1) by (intro heap_from_cong [OF h'(3)]) (simp add: rkey_def)
      moreover have "set (tl h') \<subseteq> set ks" "h' ! 0 \<in> set ks" using st(1,2) by (cases h'; auto)+
      ultimately have "heap_rep Z T sc ?bsrs h' rest" "source_block T sc (cur_block ?bsrs (h' ! 0))"
        using all sp(1) st unfolding heap_rep_def by (auto simp: source_block_def series_block_def)
      moreover have "todo_all ?bsrs h' rest = todo_rest bsrs heap rest"
        using tails_other [OF k(2), of bsrs r rest "rest k", unfolded fun_upd_triv] h'(2) Nil by (simp add: todo_all_def todo_rest_def h tails_def)
      ultimately show ?thesis using r(1) e sd k(1) assms(3) st(2) h
        by (intro disjI1 exI [of _ h'] exI [of _ ?bsrs] exI [of _ rest]) (simp add: bsm_next_block_internal_def Let_def)
    qed
  qed
qed

section \<open>The loop\<close>

lemma next_block_rep:
  assumes "inj_on metric_id T" "bsm_at Z T sc bsm bsrs U"
  shows "(U = {#} \<and> (\<exists>bsm' bsrs'. bsm_next_block Z bsm bsrs = Some (bsm', bsrs', False) \<and> bsm_error_msg bsm' = None)) \<or>
    (\<exists>h bsrs' rest. bsm_next_block Z bsm bsrs = Some (bsm\<lparr>bsm_heap := h, bsm_next_block_noop := False\<rparr>, bsrs', True)
       \<and> bsm_err bsm = None \<and> heap_rep Z T sc bsrs' h rest \<and> source_block T sc (cur_block bsrs' (h ! 0)) \<and> U = todo_all bsrs' h rest)"
  using assms(2) unfolding bsm_at_def
proof (elim disjE conjE exE)
  assume "bsm_err bsm = Some BsmEof" "U = {#}"
  then show ?thesis by (simp add: bsm_next_block_def bsm_error_msg_def)
next
  fix rest
  assume "bsm_err bsm = None" "bsm_next_block_noop bsm" "heap_rep Z T sc bsrs (bsm_heap bsm) rest"
    "source_block T sc (cur_block bsrs (bsm_heap bsm ! 0))" "U = todo_all bsrs (bsm_heap bsm) rest"
  then show ?thesis by (intro disjI2 exI [of _ "bsm_heap bsm"] exI [of _ bsrs] exI [of _ rest]) (simp add: bsm_next_block_def)
next
  fix rest
  assume a: "bsm_err bsm = None" "\<not> bsm_next_block_noop bsm" "heap_rep Z T sc bsrs (bsm_heap bsm) rest" "U = todo_rest bsrs (bsm_heap bsm) rest"
  then have n: "bsm\<lparr>bsm_heap := h, bsm_next_block_noop := False\<rparr> = bsm\<lparr>bsm_heap := h\<rparr>" for h by (cases bsm) simp
  from advance_rep [OF assms(1) a(3) refl] show ?thesis
  proof (elim disjE exE conjE)
    fix h bsrs' rest'
    assume "bsm_next_block_internal Z bsm bsrs = Some (bsm\<lparr>bsm_heap := h\<rparr>, bsrs', None)" "heap_rep Z T sc bsrs' h rest'"
      "source_block T sc (cur_block bsrs' (h ! 0))" "todo_all bsrs' h rest' = todo_rest bsrs (bsm_heap bsm) rest"
    then show ?thesis by (intro disjI2 exI [of _ h] exI [of _ bsrs'] exI [of _ rest']) (simp add: bsm_next_block_def a n)
  qed (auto simp: bsm_next_block_def a bsm_error_msg_def)
qed

lemma live_total_add: "live_total dmis d (add_mset b U) = live_samples dmis d [b] + live_total dmis d U"
  by (simp add: live_total_def live_samples_def)

lemma todo_all_top: "heap \<noteq> [] \<Longrightarrow> todo_all bsrs heap rest = add_mset (cur_block bsrs (heap ! 0)) (todo_rest bsrs heap rest)"
  by (cases heap) (simp_all add: todo_all_def todo_rest_def tails_def)

lemma sample_merge_loop_rep:
  assumes Z: "zstd_ok Z" "zstd_bounded Z" "D \<le> 0" "inj_on metric_id T"
    and a: "wstate Z T sc m ss t0" "bsm_at Z T sc (sm_bsm m) (sm_bsrs m) U" "\<forall>b \<in># U. t0 \<le> b_tsid b" "size U < fuel"
    and d: "d = bsm_retention_deadline (sm_bsm m)"
  shows "\<exists>m' ss' t1. sample_merge_loop Z D dmis (\<lambda>_. False) fuel k m = Some (m', None) \<and> wstate Z T sc m' ss' t1
    \<and> bsm_error_msg (sm_bsm m') = None \<and> kept d (merged_out m ss + live_total dmis d U) (merged_out m' ss')
    \<and> blocks_used m' ss' \<le> blocks_used m ss + size U \<and> rows_seen m' = rows_seen m + of_nat (rows_total U)"
  using a d
proof (induction fuel arbitrary: k m ss t0 U)
  case (Suc fuel)
  from next_block_rep [OF Z(4) Suc.prems(2)] show ?case
  proof (elim disjE conjE exE)
    fix bsm' bsrs'
    assume "U = {#}" "bsm_next_block Z (sm_bsm m) (sm_bsrs m) = Some (bsm', bsrs', False)" "bsm_error_msg bsm' = None"
    then show ?thesis using Suc.prems(1)
      by (intro exI [of _ "m\<lparr>sm_bsm := bsm', sm_bsrs := bsrs'\<rparr>"] exI [of _ ss] exI [of _ t0])
        (simp add: wstate_def merged_out_def pend_samples_def live_total_def rows_total_def blocks_used_def rows_seen_def)
  next
    fix h bsrs' rest
    define m1 where "m1 = m\<lparr>sm_bsm := (sm_bsm m)\<lparr>bsm_heap := h, bsm_next_block_noop := False\<rparr>, sm_bsrs := bsrs'\<rparr>"
    assume n: "bsm_next_block Z (sm_bsm m) (sm_bsrs m) = Some ((sm_bsm m)\<lparr>bsm_heap := h, bsm_next_block_noop := False\<rparr>, bsrs', True)"
      "bsm_err (sm_bsm m) = None" "heap_rep Z T sc bsrs' h rest" "source_block T sc (cur_block bsrs' (h ! 0))" "U = todo_all bsrs' h rest"
    let ?b = "cur_block bsrs' (h ! 0)"
    have ne: "h \<noteq> []" "h ! 0 < length bsrs'" using n(3) by (auto simp: heap_rep_def)
    have U: "U = add_mset ?b (todo_rest bsrs' h rest)" using n(5) todo_all_top [OF ne(1)] by simp
    have w1: "wstate Z T sc m1 ss t0" using Suc.prems(1) by (simp add: wstate_def m1_def)
    have "?b = sbr_block (sm_bsrs m1 ! (h ! 0))" "t0 \<le> b_tsid ?b" using Suc.prems(3) by (simp_all add: U m1_def)
    from handle_block_rep [OF Z w1 this(1) n(4) this(2)] obtain m2 ss2 where
      m2: "handle_block Z D dmis (h ! 0) m1 = Some (m2, None)" "handled Z T sc dmis (h ! 0) m1 ss m2 ss2" by blast
    note hd = m2(2) [unfolded handled_def Let_def]
    obtain b' where b': "bk_bh b' = bk_bh ?b" "sm_bsrs m2 = bsrs'[h ! 0 := (bsrs' ! (h ! 0))\<lparr>sbr_block := b'\<rparr>]"
      using hd by (auto simp: m1_def)
    have bsm2: "sm_bsm m2 = (sm_bsm m)\<lparr>bsm_heap := h, bsm_next_block_noop := False\<rparr>" using hd by (simp add: m1_def)
    note hr = heap_rep_handled [OF n(3) b']
    have at2: "bsm_at Z T sc (sm_bsm m2) (sm_bsrs m2) (todo_rest bsrs' h rest)"
      unfolding bsm_at_def bsm2 using n(2) hr by auto
    have w2: "wstate Z T sc m2 ss2 (b_tsid ?b)" using hd by (simp add: m1_def)
    have bound: "\<forall>b \<in># todo_rest bsrs' h rest. b_tsid ?b \<le> b_tsid b" using todo_rest_bound [OF n(3)] by blast
    have "size (todo_rest bsrs' h rest) < fuel" using Suc.prems(4) by (simp add: U)
    from Suc.IH [OF w2 at2 bound this, of "k + 1"] bsm2 Suc.prems(5) obtain m' ss' t1 where
      r: "sample_merge_loop Z D dmis (\<lambda>_. False) fuel (k + 1) m2 = Some (m', None)" "wstate Z T sc m' ss' t1"
      "bsm_error_msg (sm_bsm m') = None" "kept d (merged_out m2 ss2 + live_total dmis d (todo_rest bsrs' h rest)) (merged_out m' ss')"
      "blocks_used m' ss' \<le> blocks_used m2 ss2 + size (todo_rest bsrs' h rest)"
      "rows_seen m' = rows_seen m2 + of_nat (rows_total (todo_rest bsrs' h rest))" by auto
    have dd: "bsm_retention_deadline (sm_bsm m1) = d" using Suc.prems(5) by (simp add: m1_def)
    have same: "merged_out m1 ss = merged_out m ss" "blocks_used m1 ss = blocks_used m ss" "rows_seen m1 = rows_seen m"
      "cur_block (sm_bsrs m1) (h ! 0) = ?b" by (simp_all add: m1_def merged_out_def pend_samples_def blocks_used_def rows_seen_def)
    have "kept d (merged_out m ss + live_samples dmis d [?b]) (merged_out m2 ss2)" using hd by (simp add: dd same)
    from kept_trans [OF kept_add [OF this] r(4)]
    have "kept d (merged_out m ss + live_total dmis d U) (merged_out m' ss')" by (simp add: U live_total_add add.assoc)
    moreover have "sample_merge_loop Z D dmis (\<lambda>_. False) (Suc fuel) k m = Some (m', None)"
      using n(1) ne m2(1) r(1) by (simp add: flip: m1_def)
    moreover have "blocks_used m' ss' \<le> blocks_used m ss + size U" using hd r(5) by (simp add: same U)
    moreover have "rows_seen m' = rows_seen m + of_nat (rows_total U)" using hd r(6) by (simp add: same U rows_total_def)
    ultimately show ?thesis using r(2,3) by blast
  qed
qed simp

section \<open>Initialisation\<close>

lemma bsm_init_loop_rep:
  "list_all2 (reader_rep Z T sc) rs bss \<Longrightarrow> \<exists>rs'. bsm_init_loop Z i rs =
      Some (rs', filter (\<lambda>j. bss ! (j - i) \<noteq> []) [i..<i + length rs], None) \<and> length rs' = length rs
    \<and> (\<forall>j < length rs. bss ! j \<noteq> [] \<longrightarrow> reader_rep Z T sc (rs' ! j) (tl (bss ! j)) \<and> sbr_block (rs' ! j) = hd (bss ! j)
        \<and> source_block T sc (hd (bss ! j)))"
proof (induction rs arbitrary: i bss)
  case (Cons r rs)
  obtain bs css where bss: "bss = bs # css" "reader_rep Z T sc r bs" "list_all2 (reader_rep Z T sc) rs css"
    using Cons.prems by (cases bss) auto
  obtain rs' where IH: "bsm_init_loop Z (Suc i) rs = Some (rs', filter (\<lambda>j. css ! (j - Suc i) \<noteq> []) [Suc i..<Suc i + length rs], None)"
    "length rs' = length rs" "\<forall>j < length rs. css ! j \<noteq> [] \<longrightarrow> reader_rep Z T sc (rs' ! j) (tl (css ! j)) \<and> sbr_block (rs' ! j) = hd (css ! j)
        \<and> source_block T sc (hd (css ! j))" using Cons.IH [OF bss(3), of "Suc i"] by blast
  have l: "length rs = length css" using bss(3) by (rule list_all2_lengthD)
  have f: "filter (\<lambda>j. bss ! (j - i) \<noteq> []) [i..<i + length (r # rs)] =
      (if bs \<noteq> [] then [i] else []) @ filter (\<lambda>j. css ! (j - Suc i) \<noteq> []) [Suc i..<Suc i + length rs]"
    using nonempty_indices_Cons [of bs css i] by (simp only: bss(1) l list.size)
  obtain r' where r': "sbr_next_block Z r = Some (r', bs \<noteq> [])" "bs = [] \<longrightarrow> sbr_error r' = None"
    "bs \<noteq> [] \<longrightarrow> reader_rep Z T sc r' (tl bs) \<and> sbr_block r' = hd bs \<and> source_block T sc (hd bs)"
  proof (cases bs)
    case Nil
    then obtain r' where "sbr_next_block Z r = Some (r', False)" "sbr_err r' = Some SampleEof"
      using sbr_next_Nil bss(2) by (auto simp: reader_rep_def)
    then show ?thesis using Nil that [of r'] by (simp add: sbr_error_def)
  next
    case (Cons b cs)
    then obtain r' where "sbr_next_block Z r = Some (r', True)" "sbr_rep Z r' cs" "sbr_block r' = b"
      using sbr_next_Cons bss(2) unfolding reader_rep_def by blast
    then show ?thesis using Cons bss(2) that [of r'] by (simp add: reader_rep_def)
  qed
  show ?case unfolding f
    using r' IH by (intro exI [of _ "r' # rs'"]) (auto simp: bss(1) less_Suc_eq_0_disj split: option.split)
qed simp

lemma bsm_init_rep:
  assumes "inj_on metric_id T" "list_all2 (reader_rep Z T sc) rs bss"
  shows "\<exists>bsm rs'. bsm_init Z (bsm_new d) rs = Some (bsm, rs') \<and> bsm_retention_deadline bsm = d \<and> bsm_at Z T sc bsm rs' (mset (concat bss))"
proof -
  let ?h = "filter (\<lambda>j. bss ! j \<noteq> []) [0..<length rs]"
  obtain rs' where i: "bsm_init_loop Z 0 rs = Some (rs', ?h, None)" "length rs' = length rs"
    "\<forall>j < length rs. bss ! j \<noteq> [] \<longrightarrow> reader_rep Z T sc (rs' ! j) (tl (bss ! j)) \<and> sbr_block (rs' ! j) = hd (bss ! j)
        \<and> source_block T sc (hd (bss ! j))"
    using bsm_init_loop_rep [OF assms(2), of 0] by auto
  have len: "length rs = length bss" using assms(2) by (rule list_all2_lengthD)
  have total: "(\<Sum>k \<in># mset ?h. mset (bss ! k)) = mset (concat bss)" unfolding len by (rule nonempty_indices_sum)
  show ?thesis
  proof (cases "?h = []")
    case True
    then have "mset (concat bss) = {#}" using total by (simp only: mset.simps image_mset_empty sum_mset.empty)
    then show ?thesis using i(1) True by (simp add: bsm_init_def bsm_new_def bsm_at_def)
  next
    case False
    have ok: "\<forall>k \<in> set ?h. k < length rs' \<and> reader_rep Z T sc (rs' ! k) (tl (bss ! k)) \<and> source_block T sc (cur_block rs' k)"
      using i(2,3) by auto
    have hin: "headers_in (cur_header rs') T ?h"
      using ok by (auto simp: headers_in_def cur_header_def source_block_def series_block_def)
    have c: "\<forall>k \<in> set ?h. map_option hkey (cur_header rs' k) = Some (rkey rs' k)" using ok by (simp add: cur_header_def rkey_def)
    obtain h where h: "heap_init (\<lambda>k. map_option hkey (cur_header rs' k)) ?h = Some h" "mset h = mset ?h" "heap_from (rkey rs') h 0"
      using heap_init_correct [OF c] by blast
    have st: "set h = set ?h" "distinct h" "h \<noteq> []"
    proof -
      show "set h = set ?h" by (rule mset_eq_setD [OF h(2)])
      show "distinct h" unfolding mset_eq_imp_distinct_iff [OF h(2)] by simp
      show "h \<noteq> []" using False h(2) by (metis mset_zero_iff)
    qed
    have ok': "\<forall>k \<in> set h. k < length rs' \<and> reader_rep Z T sc (rs' ! k) (tl (bss ! k)) \<and> source_block T sc (cur_block rs' k)"
      using ok st(1) by simp
    have "set (tl h) \<subseteq> set h" "h ! 0 \<in> set h" using st(3) by (cases h; auto)+
    then have hr: "heap_rep Z T sc rs' h (\<lambda>k. tl (bss ! k))" "source_block T sc (cur_block rs' (h ! 0))"
      using ok' st h(3) unfolding heap_rep_def by (auto simp: source_block_def series_block_def)
    have "todo_all rs' h (\<lambda>k. tl (bss ! k)) = (\<Sum>k \<in># mset ?h. mset (bss ! k))"
      unfolding todo_all_def tails_def h(2) using i(3) by (intro arg_cong [where f = sum_mset] image_mset_cong) auto
    then have "todo_all rs' h (\<lambda>k. tl (bss ! k)) = mset (concat bss)" using total by simp
    then have "bsm_at Z T sc ((bsm_new d)\<lparr>bsm_heap := h, bsm_next_block_noop := True\<rparr>) rs' (mset (concat bss))"
      using hr by (auto simp: bsm_at_def bsm_new_def)
    moreover have "bsm_init Z (bsm_new d) rs = Some ((bsm_new d)\<lparr>bsm_heap := h, bsm_next_block_noop := True\<rparr>, rs')"
      using i(1) False h(1) sample_heap_init_eq [OF assms(1) hin] by (simp add: bsm_init_def bsm_new_def)
    ultimately show ?thesis by (auto simp: bsm_new_def)
  qed
qed

section \<open>Sources\<close>

lemma read_back_series:
  assumes "series_block T sc b" "read_back 0 b c"
  shows "same_rows b c" "source_block T sc c"
proof -
  have f: "flat_block b" using assms(1) by (simp add: series_block_def)
  note fl = flat_blockD [OF f]
  have e: "bk_timestamps c = bk_timestamps b" "bk_values c = bk_values b"
    using assms(2) fl by (simp_all add: read_back_def merged_samples_def samples_kept_def)
  show "same_rows b c" using assms(2) e f by (simp add: same_rows_def read_back_def flat_block_def)
  show "source_block T sc c"
    using assms e f by (simp add: source_block_def series_block_def flat_block_def read_back_def block_ready_def)
qed

lemma write_part:
  assumes "zstd_ok Z" "zstd_bounded Z" "source_blocks T sc bs" "length bs < 2 ^ 40"
  shows "\<exists>w ph n w' bufs r cs. write_external_blocks Z 0 (sbw_new_inmemory_part level) sph_default 0 bs = Some (w, ph, n)
    \<and> sbw_must_close Z w = Some (w', bufs) \<and> sbr_from_inmemory_part Z (smp_from_buffers ph bufs) = Some r
    \<and> reader_rep Z T sc r cs \<and> list_all2 same_rows bs cs"
proof -
  have ser: "list_all (series_block T sc) bs" "sorted (map b_tsid bs)" "bs \<noteq> []" using assms(3) by (simp_all add: source_blocks_def)
  have "list_all (storable 0) bs"
    using ser(1) by (auto simp: list_all_iff storable_def dedup_safe_def series_block_def flat_block_def)
  from write_external_blocks_rep [OF assms(1,2) sbw_new_rep this, of level 0] obtain w ph n ss where
    w: "write_external_blocks Z 0 (sbw_new_inmemory_part level) sph_default 0 bs = Some (w, ph, n)"
      "sbw_rep Z w ph ss" "list_all2 (\<lambda>b s. read_back 0 b (p_block s)) bs ss" by auto
  have len: "length ss = length bs" using list_all2_lengthD [OF w(3)] by simp
  obtain w' bufs gs where c: "sbw_must_close Z w = Some (w', bufs)" "spart_rep Z bufs gs" "ss = groups_blocks gs"
    using sbw_close_rep [OF assms(1,2) w(2)] assms(4) len by auto
  have "map p_tsid ss = map b_tsid bs"
    using w(3) by (induction rule: list_all2_induct) (simp_all add: read_back_def p_block_def)
  moreover have "sph_rep ph ss" "ss \<noteq> []" using w(2) ser(3) len by (auto simp: sbw_rep_def)
  ultimately obtain r where r: "sbr_from_inmemory_part Z (smp_from_buffers ph bufs) = Some r" "sbr_rep Z r (map p_block ss)"
    using sample_part_read [OF c(2,3), of ph] assms(4) ser(2) len by auto
  have "list_all2 (\<lambda>b s. same_rows b (p_block s) \<and> source_block T sc (p_block s)) bs ss"
    using w(3) ser(1) by (induction rule: list_all2_induct) (auto dest: read_back_series)
  then have "list_all2 same_rows bs (map p_block ss) \<and> list_all (source_block T sc) (map p_block ss)"
    by (induction rule: list_all2_induct) simp_all
  with w(1) c(1) r show ?thesis unfolding reader_rep_def by blast
qed

lemma written_part_exists:
  assumes "zstd_ok Z" "zstd_bounded Z" "source_blocks T sc bs" "length bs < 2 ^ 40"
  shows "\<exists>r. written_part Z bs r"
  using write_part [OF assms, of 0] unfolding written_part_def by blast

lemma written_part_rep:
  assumes "zstd_ok Z" "zstd_bounded Z" "source_blocks T sc bs" "length bs < 2 ^ 40" "written_part Z bs r"
  shows "\<exists>cs. reader_rep Z T sc r cs \<and> list_all2 same_rows bs cs"
  using assms(5) write_part [OF assms(1-4)] unfolding written_part_def
  by (metis option.inject prod.inject)

lemma written_parts_rep:
  assumes "zstd_ok Z" "zstd_bounded Z" "list_all2 (written_part Z) bss rs" "list_all (source_blocks T sc) bss" "length (concat bss) < 2 ^ 40"
  shows "\<exists>css. list_all2 (reader_rep Z T sc) rs css \<and> list_all2 same_rows (concat bss) (concat css)"
  using assms(3-5)
proof (induction rule: list_all2_induct)
  case (Cons bs bss r rs)
  then obtain css where "list_all2 (reader_rep Z T sc) rs css" "list_all2 same_rows (concat bss) (concat css)" by auto
  moreover obtain cs where "reader_rep Z T sc r cs" "list_all2 same_rows bs cs"
    using written_part_rep [OF assms(1,2) _ _ Cons.hyps(1)] Cons.prems by auto
  ultimately show ?case by (intro exI [of _ "cs # css"]) (simp add: list_all2_appendI)
qed simp

lemma same_rowsD: "same_rows b c \<Longrightarrow> live_block dmis d c = live_block dmis d b \<and> b_samples c = b_samples b"
  by (simp add: same_rows_def live_block_def b_samples_def cong: option.case_cong)

lemma live_total_same:
  "list_all2 same_rows bs cs \<Longrightarrow> live_total dmis d (mset cs) = live_samples dmis d bs"
  by (induction rule: list_all2_induct) (auto simp: live_total_def live_samples_def dest: same_rowsD)

lemma rows_total_same:
  "list_all2 same_rows bs cs \<Longrightarrow> rows_total (mset cs) = sum_list (map (length \<circ> bk_timestamps) bs)"
  by (induction rule: list_all2_induct) (simp_all add: rows_total_def same_rows_def)

section \<open>The whole merge\<close>

lemma internal_rep:
  assumes Z: "zstd_ok Z" "zstd_bounded Z" "D \<le> 0" "inj_on metric_id T"
    and b: "bsm_at Z T sc bsm rs U" "size U < fuel" "d = bsm_retention_deadline bsm"
  shows "\<exists>m ss. merge_block_streams_internal Z D dmis (\<lambda>_. False) fuel
        (sample_merge_start sph_default (sbw_new_inmemory_part level) bsm rs 0 0) = Some (m, None)
    \<and> sbw_rep Z (sm_bsw m) (sm_ph m) ss \<and> sorted (map p_tsid ss) \<and> kept d (live_total dmis d U) (sum_list (map p_samples ss))
    \<and> length ss \<le> size U \<and> sm_rows_merged m + sm_rows_deleted m = of_nat (rows_total U)"
proof -
  let ?m0 = "sample_merge_start sph_default (sbw_new_inmemory_part level) bsm rs 0 0"
  have w: "wstate Z T sc ?m0 [] tsid_default" by (simp add: wstate_def sample_merge_start_def sbw_new_rep)
  have z: "merged_out ?m0 [] = {#}" "blocks_used ?m0 [] = 0" "rows_seen ?m0 = 0" "sm_bsm ?m0 = bsm" "sm_bsrs ?m0 = rs"
    by (simp_all add: merged_out_def pend_samples_def blocks_used_def rows_seen_def sample_merge_start_def)
  obtain m ss t where l: "sample_merge_loop Z D dmis (\<lambda>_. False) fuel 0 ?m0 = Some (m, None)" "wstate Z T sc m ss t"
    "bsm_error_msg (sm_bsm m) = None" "kept d (live_total dmis d U) (merged_out m ss)" "blocks_used m ss \<le> size U"
    "rows_seen m = of_nat (rows_total U)"
    using sample_merge_loop_rep [OF Z w, of U fuel d dmis 0] b by (auto simp: z tsid_default_le)
  show ?thesis
  proof (cases "sm_pending_is_empty m")
    case True
    then show ?thesis using l
      by (intro exI [of _ m] exI [of _ ss])
        (auto simp: merge_block_streams_internal_def wstate_def merged_out_def pend_samples_def blocks_used_def rows_seen_def)
  next
    case False
    obtain m' s where p: "write_pending Z D m = Some m'" "sbw_rep Z (sm_bsw m') (sm_ph m') (ss @ [s])"
      "p_samples s = b_samples (sm_pending m)" "p_tsid s = b_tsid (sm_pending m)"
      "m' = m\<lparr>sm_bsw := sm_bsw m', sm_ph := sm_ph m', sm_pending := sm_pending m',
        sm_rows_merged := sm_rows_merged m + of_nat (size (b_samples (sm_pending m)))\<rparr>"
      using write_pending_rep [OF Z(1-3) l(2) False] by blast
    have rows: "sm_rows_merged m' = sm_rows_merged m + of_nat (size (b_samples (sm_pending m)))" "sm_rows_deleted m' = sm_rows_deleted m"
      using arg_cong [OF p(5), of sm_rows_merged] arg_cong [OF p(5), of sm_rows_deleted] by simp_all
    have "sorted (map p_tsid (ss @ [s]))" using l(2) False by (auto simp: wstate_def sorted_append p(4))
    moreover have "kept d (live_total dmis d U) (sum_list (map p_samples (ss @ [s])))"
      using l(4) False by (simp add: merged_out_def pend_samples_def p(3))
    moreover have "length (ss @ [s]) \<le> size U" using l(5) False by (simp add: blocks_used_def)
    moreover have "sm_rows_merged m' + sm_rows_deleted m' = of_nat (rows_total U)"
      using l(6) False by (simp add: rows rows_seen_def pend_samples_def algebra_simps)
    moreover have "merge_block_streams_internal Z D dmis (\<lambda>_. False) fuel ?m0 = Some (m', None)"
      using l(1,3) p(1) False by (simp add: merge_block_streams_internal_def)
    ultimately show ?thesis using p(2) by blast
  qed
qed

lemma live_row:
  assumes "b \<in> set bs" "series_block T sc b" "live_block dmis d b"
  shows "\<exists>x. x \<in># filter_mset (\<lambda>(_, t, _). d \<le>s t) (live_samples dmis d bs)"
proof -
  have f: "flat_block b" using assms(2) by (simp add: series_block_def)
  note fl = flat_blockD [OF f]
  let ?t = "last (bk_timestamps b)" and ?v = "last (bk_values b)"
  have "(?t, ?v) \<in> set (zip (bk_timestamps b) (bk_values b))"
    using fl(3-5) by (auto simp: in_set_zip last_conv_nth intro!: exI [of _ "length (bk_timestamps b) - 1"])
  then have "(b_tsid b, ?t, ?v) \<in># b_samples b" by (simp add: b_samples_def samples_of_def)
  moreover have "b_samples b \<subseteq># live_samples dmis d bs"
    using assms(1,3) by (auto simp: live_samples_def in_set_conv_decomp)
  moreover have "d \<le>s ?t" using assms(3) f by (simp add: live_block_def flat_block_def word_sless_alt word_sle_eq)
  ultimately show ?thesis by (intro exI [of _ "(b_tsid b, ?t, ?v)"]) (auto dest: mset_subset_eqD)
qed

lemma kept_nonempty: "kept d A B \<Longrightarrow> x \<in># filter_mset (\<lambda>(_, t, _). d \<le>s t) A \<Longrightarrow> B \<noteq> {#}"
  unfolding kept_def by (metis filter_empty_mset empty_iff set_mset_empty)

lemma p_block_simps: "b_tsid (p_block s) = p_tsid s" "b_samples (p_block s) = p_samples s"
  by (simp_all add: p_block_def b_samples_def p_samples_def)

section \<open>Properties\<close>

text \<open>
  C1: merging parts of samples, with deduplication off, ends without an error, and the part it writes
  reads back as blocks ordered by series. They hold exactly the rows of the source blocks that are
  neither of a deleted series nor entirely older than the retention deadline, except that rows older
  than the deadline may be missing: no other row is lost, none is made up and none is duplicated. The
  two counters together account for every row of the sources.\<close>

theorem sample_merge_correct:
  assumes "zstd_ok Z" "zstd_bounded Z" "D \<le> 0" "inj_on metric_id T"
    "list_all2 (written_part Z) bss rs" "list_all (source_blocks T sc) bss" "length (concat bss) < 2 ^ 40"
    "list_ex (live_block dmis d) (concat bss)" "length (concat bss) < fuel"
  shows "\<exists>m bufs r outs.
    merge_sample_streams Z D fuel ph (sbw_new_inmemory_part level) rs (\<lambda>_. False) dmis d 0 0 = Some (m, Inr bufs)
    \<and> sm_rows_merged m + sm_rows_deleted m = of_nat (sum_list (map (length \<circ> bk_timestamps) (concat bss)))
    \<and> sbr_from_inmemory_part Z (smp_from_buffers (sm_ph m) bufs) = Some r
    \<and> read_sample_blocks Z (length (concat bss) + 1) r = Some outs \<and> sorted (map b_tsid outs)
    \<and> kept d (live_samples dmis d (concat bss)) (sum_list (map b_samples outs))"
proof -
  obtain css where css: "list_all2 (reader_rep Z T sc) rs css" "list_all2 same_rows (concat bss) (concat css)"
    using written_parts_rep [OF assms(1,2,5-7)] by blast
  have len: "length (concat css) = length (concat bss)" using list_all2_lengthD [OF css(2)] by simp
  obtain bsm rs' where i: "bsm_init Z (bsm_new d) rs = Some (bsm, rs')" "bsm_retention_deadline bsm = d"
    "bsm_at Z T sc bsm rs' (mset (concat css))" using bsm_init_rep [OF assms(4) css(1)] by blast
  have fuel: "size (mset (concat css)) < fuel" using assms(9) len by simp
  obtain m ss where m: "merge_block_streams_internal Z D dmis (\<lambda>_. False) fuel
        (sample_merge_start sph_default (sbw_new_inmemory_part level) bsm rs' 0 0) = Some (m, None)"
    "sbw_rep Z (sm_bsw m) (sm_ph m) ss" "sorted (map p_tsid ss)"
    "kept d (live_samples dmis d (concat bss)) (sum_list (map p_samples ss))" "length ss \<le> length (concat bss)"
    "sm_rows_merged m + sm_rows_deleted m = of_nat (sum_list (map (length \<circ> bk_timestamps) (concat bss)))"
    using internal_rep [OF assms(1-4) i(3) fuel i(2) [symmetric], of dmis level]
    by (auto simp only: live_total_same [OF css(2)] rows_total_same [OF css(2)] size_mset len)
  obtain w bufs gs where c: "sbw_must_close Z (sm_bsw m) = Some (w, bufs)" "spart_rep Z bufs gs" "ss = groups_blocks gs"
    using sbw_close_rep [OF assms(1,2) m(2)] m(5) assms(7) by (auto dest: le_less_trans)
  obtain b where b: "b \<in> set (concat bss)" "live_block dmis d b" using assms(8) by (auto simp: list_ex_iff)
  have "series_block T sc b" using b(1) assms(6) by (auto simp: list_all_iff source_blocks_def)
  from live_row [OF b(1) this b(2)] have "sum_list (map p_samples ss) \<noteq> {#}" using kept_nonempty [OF m(4)] by blast
  then have ne: "ss \<noteq> []" by auto
  have sp: "sph_rep (sm_ph m) ss" using m(2) by (simp add: sbw_rep_def)
  obtain r where r: "sbr_from_inmemory_part Z (smp_from_buffers (sm_ph m) bufs) = Some r" "sbr_rep Z r (map p_block ss)"
    using sample_part_read [OF c(2,3) ne _ sp m(3)] m(5) assms(7) by (auto dest: le_less_trans)
  have "read_sample_blocks Z (length (concat bss) + 1) r = Some (map p_block ss)"
    unfolding read_sample_blocks_def using m(5) by (intro sample_reader.drain_rep [OF r(2)]) simp
  moreover have "merge_sample_streams Z D fuel ph (sbw_new_inmemory_part level) rs (\<lambda>_. False) dmis d 0 0 =
      Some (m\<lparr>sm_bsw := w\<rparr>, Inr bufs)"
    using i(1) m(1) c(1) by (simp add: merge_sample_streams_def sph_reset_def)
  ultimately show ?thesis using m r(1)
    by (intro exI [of _ "m\<lparr>sm_bsw := w\<rparr>"] exI [of _ bufs] exI [of _ r] exI [of _ "map p_block ss"])
      (simp add: comp_def p_block_simps)
qed

theorem sample_merge_correct_witness:
  "\<exists>rs m bufs r outs.
    merge_sample_streams stored_zstd 0 3 sph_default (sbw_new_inmemory_part 1) rs (\<lambda>_. False) None 0 0 0 = Some (m, Inr bufs)
    \<and> sm_rows_merged m + sm_rows_deleted m = 4
    \<and> sbr_from_inmemory_part stored_zstd (smp_from_buffers (sm_ph m) bufs) = Some r
    \<and> read_sample_blocks stored_zstd 3 r = Some outs
    \<and> sum_list (map b_samples outs) = {#(tsid_default, 10, 7), (tsid_default, 20, 5), (tsid_default, 10, 7), (tsid_default, 20, 5)#}"
proof -
  let ?T = "{tsid_default}" and ?sc = "\<lambda>_. 0" and ?bss = "[[stamped_samples], [stamped_samples]]"
  let ?rows = "{#(tsid_default, 10, 7), (tsid_default, 20, 5), (tsid_default, 10, 7), (tsid_default, 20, 5)#}"
  have st: "series_block ?T ?sc stamped_samples"
    using two_samples_ready
    by (simp add: series_block_def flat_block_def stamped_samples_def two_samples_def block_ready_def block_default_def sbh_default_def)
  then have so: "source_blocks ?T ?sc [stamped_samples]" by (simp add: source_blocks_def)
  then obtain r where r: "written_part stored_zstd [stamped_samples] r"
    using written_part_exists [OF stored_zstd_ok stored_zstd_bounded so] by auto
  have live: "live_block None 0 stamped_samples" by (simp add: live_block_def stamped_samples_def word_sless_alt)
  then have all: "live_samples None 0 (concat ?bss) = ?rows"
    by (simp add: live_samples_def b_samples_def samples_of_def stamped_samples_def two_samples_def block_default_def sbh_default_def)
  have h: "list_all2 (written_part stored_zstd) ?bss [r, r]" "list_all (source_blocks ?T ?sc) ?bss" "length (concat ?bss) < 2 ^ 40"
    "list_ex (live_block None 0) (concat ?bss)" "length (concat ?bss) < 3" "inj_on metric_id ?T" "(0 :: int) \<le> 0"
    using r so live by simp_all
  have n: "sum_list (map (length \<circ> bk_timestamps) (concat ?bss)) = 4" "length (concat ?bss) + 1 = 3"
    by (simp_all add: stamped_samples_def two_samples_def block_default_def)
  obtain m bufs r' outs where p:
    "merge_sample_streams stored_zstd 0 3 sph_default (sbw_new_inmemory_part 1) [r, r] (\<lambda>_. False) None 0 0 0 = Some (m, Inr bufs)"
    "sm_rows_merged m + sm_rows_deleted m = of_nat 4"
    "sbr_from_inmemory_part stored_zstd (smp_from_buffers (sm_ph m) bufs) = Some r'"
    "read_sample_blocks stored_zstd 3 r' = Some outs" "kept 0 ?rows (sum_list (map b_samples outs))"
    using sample_merge_correct [OF stored_zstd_ok stored_zstd_bounded h(7,6,1-5), of sph_default 1, unfolded n all] by blast
  have "filter_mset (\<lambda>(_, t, _). (0 :: i64) \<le>s t) ?rows = ?rows" by (simp add: word_sle_eq)
  then have "sum_list (map b_samples outs) = ?rows"
    using p(5) unfolding kept_def by (metis multiset_filter_subset subset_mset.antisym)
  with p(1-4) show ?thesis by (intro exI conjI) (assumption | simp)+
qed

end
