(* ===== verification/Metric_Name.thy ===== *)
theory Metric_Name
  imports Field_Readers Codec "HOL-Library.List_Lexorder"
begin

text \<open>
  Names of metrics and their two encodings (\<open>crates/esm-storage/src/metric_name.rs\<close>): the canonical one,
  in which tags are sorted and their bytes escaped, is the key of the index; the raw one, with lengths
  of 16 bits, is used while rows are ingested.

  Keys and values are byte strings, also where the code takes a \<open>&str\<close>. The helpers that print a name
  are not modelled.
\<close>

section \<open>Escaped values\<close>

definition ESCAPE_CHAR :: u8 where "ESCAPE_CHAR = 0"
definition TAG_SEPARATOR_CHAR :: u8 where "TAG_SEPARATOR_CHAR = 1"
definition KV_SEPARATOR_CHAR :: u8 where "KV_SEPARATOR_CHAR = 2"

text \<open>The bytes of \<open>__name__\<close>.\<close>

definition METRIC_GROUP_TAG_KEY :: bytes where
  "METRIC_GROUP_TAG_KEY = [95, 95, 110, 97, 109, 101, 95, 95]"

definition escape_byte :: "u8 \<Rightarrow> bytes" where
  "escape_byte ch =
    (if ch = ESCAPE_CHAR then [ESCAPE_CHAR, 48]
     else if ch = TAG_SEPARATOR_CHAR then [ESCAPE_CHAR, 49]
     else if ch = KV_SEPARATOR_CHAR then [ESCAPE_CHAR, 50]
     else [ch])"

definition marshal_tag_value :: "bytes \<Rightarrow> bytes \<Rightarrow> bytes" where
  "marshal_tag_value dst src =
    (if \<not> list_ex (\<lambda>ch. ch = ESCAPE_CHAR \<or> ch = TAG_SEPARATOR_CHAR \<or> ch = KV_SEPARATOR_CHAR) src
     then dst @ src @ [TAG_SEPARATOR_CHAR]
     else foldl (\<lambda>dst ch. dst @ escape_byte ch) dst src @ [TAG_SEPARATOR_CHAR])"

datatype tag_value_err = NoEndOfTagValue | MissingEscapedChar | UnsupportedEscapedChar u8

function unescape_loop :: "bytes \<Rightarrow> bytes \<Rightarrow> (tag_value_err, bytes) res" where
  "unescape_loop dst b =
    (if ESCAPE_CHAR \<notin> set b then Inr (dst @ b)
     else
       let n = length (takeWhile (\<lambda>c. c \<noteq> ESCAPE_CHAR) b); dst = dst @ take n b in
       case drop (n + 1) b of
         [] \<Rightarrow> Inl (Err MissingEscapedChar)
       | ch # b \<Rightarrow>
         if ch = 48 then unescape_loop (dst @ [ESCAPE_CHAR]) b
         else if ch = 49 then unescape_loop (dst @ [TAG_SEPARATOR_CHAR]) b
         else if ch = 50 then unescape_loop (dst @ [KV_SEPARATOR_CHAR]) b
         else Inl (Err (UnsupportedEscapedChar ch)))"
  by pat_completeness auto
termination
  by (relation "measure (\<lambda>(dst, b). length b)") (auto dest!: arg_cong [where f = length] simp: less_diff_conv)

declare unescape_loop.simps [simp del]

definition unmarshal_tag_value :: "bytes \<Rightarrow> bytes \<Rightarrow> (tag_value_err, bytes \<times> bytes) res" where
  "unmarshal_tag_value dst src =
    (if TAG_SEPARATOR_CHAR \<notin> set src then Inl (Err NoEndOfTagValue)
     else
       let n = length (takeWhile (\<lambda>c. c \<noteq> TAG_SEPARATOR_CHAR) src) in
       rbind (unescape_loop dst (take n src)) (\<lambda>dst. Inr (dst, drop (n + 1) src)))"

section \<open>Tags and names\<close>

record Tag =
  tag_key :: bytes
  tag_value :: bytes

datatype tag_err = CannotUnmarshalKey tag_value_err | CannotUnmarshalValue tag_value_err

definition tag_marshal :: "Tag \<Rightarrow> bytes \<Rightarrow> bytes" where
  "tag_marshal t dst = marshal_tag_value (marshal_tag_value dst (tag_key t)) (tag_value t)"

definition tag_unmarshal :: "bytes \<Rightarrow> (tag_err, Tag \<times> bytes) res" where
  "tag_unmarshal src =
    rbind (map_err CannotUnmarshalKey (unmarshal_tag_value [] src)) (\<lambda>(k, src).
    rbind (map_err CannotUnmarshalValue (unmarshal_tag_value [] src)) (\<lambda>(v, src).
    Inr (\<lparr>tag_key = k, tag_value = v\<rparr>, src)))"

record MetricName =
  metric_group :: bytes
  mn_tags :: "Tag list"

definition mn_default :: MetricName where "mn_default = \<lparr>metric_group = [], mn_tags = []\<rparr>"

definition mn_reset :: "MetricName \<Rightarrow> MetricName" where
  "mn_reset mn = mn\<lparr>metric_group := [], mn_tags := []\<rparr>"

definition mn_copy_from :: "MetricName \<Rightarrow> MetricName \<Rightarrow> MetricName" where
  "mn_copy_from mn src = mn\<lparr>metric_group := metric_group src, mn_tags := mn_tags src\<rparr>"

definition add_tag_bytes :: "MetricName \<Rightarrow> bytes \<Rightarrow> bytes \<Rightarrow> MetricName" where
  "add_tag_bytes mn key val =
    (if key = METRIC_GROUP_TAG_KEY then mn\<lparr>metric_group := metric_group mn @ val\<rparr>
     else mn\<lparr>mn_tags := mn_tags mn @ [\<lparr>tag_key = key, tag_value = val\<rparr>]\<rparr>)"

definition reset_metric_group :: "MetricName \<Rightarrow> MetricName" where
  "reset_metric_group mn = mn\<lparr>metric_group := []\<rparr>"

text \<open>\<open>for tag in &tags { if keep(tag) { self.add_tag_bytes(..) } }\<close> after the tags were taken out.\<close>

definition keep_tags :: "(bytes \<Rightarrow> bool) \<Rightarrow> MetricName \<Rightarrow> MetricName" where
  "keep_tags keep mn =
    foldl (\<lambda>mn t. if keep (tag_key t) then add_tag_bytes mn (tag_key t) (tag_value t) else mn) (mn\<lparr>mn_tags := []\<rparr>) (mn_tags mn)"

definition remove_tags_on :: "MetricName \<Rightarrow> bytes list \<Rightarrow> MetricName" where
  "remove_tags_on mn on_tags =
    (let mn = (if METRIC_GROUP_TAG_KEY \<notin> set on_tags then reset_metric_group mn else mn) in
     if on_tags = [] then mn\<lparr>mn_tags := []\<rparr> else keep_tags (\<lambda>k. k \<in> set on_tags) mn)"

definition remove_tag :: "MetricName \<Rightarrow> bytes \<Rightarrow> MetricName" where
  "remove_tag mn key =
    (if key = METRIC_GROUP_TAG_KEY then reset_metric_group mn else keep_tags (\<lambda>k. k \<noteq> key) mn)"

definition remove_tags_ignoring :: "MetricName \<Rightarrow> bytes list \<Rightarrow> MetricName" where
  "remove_tags_ignoring mn ignoring_tags =
    (if ignoring_tags = [] then mn
     else
       let mn = (if METRIC_GROUP_TAG_KEY \<in> set ignoring_tags then reset_metric_group mn else mn) in
       keep_tags (\<lambda>k. k \<notin> set ignoring_tags) mn)"

definition get_tag_value :: "MetricName \<Rightarrow> bytes \<Rightarrow> bytes option" where
  "get_tag_value mn key =
    (if key = METRIC_GROUP_TAG_KEY then Some (metric_group mn)
     else map_option tag_value (find (\<lambda>t. tag_key t = key) (mn_tags mn)))"

section \<open>Canonical form\<close>

text \<open>Pairs of byte strings and their sentinels, in the order of the match in the code.\<close>

definition common_tag_keys :: "(bytes \<times> bytes) list" where
  "common_tag_keys =
    (let b = map (\<lambda>c. of_nat (of_char c)) in concat
     [map (\<lambda>k. (b k, [0, 0, 0])) [''namespace'', ''Namespace''],
      map (\<lambda>k. (b k, [0, 0, 1])) [''ns'', ''Ns''],
      map (\<lambda>k. (b k, [0, 0, 8])) [''datacenter'', ''Datacenter''],
      map (\<lambda>k. (b k, [0, 0, 9])) [''dc'', ''Dc''],
      map (\<lambda>k. (b k, [0, 0, 12])) [''environment'', ''Environment''],
      map (\<lambda>k. (b k, [0, 0, 13])) [''env'', ''Env''],
      map (\<lambda>k. (b k, [0, 0, 16])) [''cluster'', ''Cluster''],
      map (\<lambda>k. (b k, [0, 0, 24])) [''service'', ''Service''],
      map (\<lambda>k. (b k, [0, 0, 32])) [''job'', ''Job''],
      map (\<lambda>k. (b k, [0, 0, 40])) [''model'', ''Model''],
      map (\<lambda>k. (b k, [0, 0, 48])) [''type'', ''Type''],
      map (\<lambda>k. (b k, [0, 0, 56])) [''sensor_type'', ''Sensor_type'', ''SensorType''],
      map (\<lambda>k. (b k, [0, 0, 64])) [''db'', ''Db''],
      map (\<lambda>k. (b k, [0, 1, 0])) [''instance'', ''Instance''],
      map (\<lambda>k. (b k, [0, 1, 8])) [''host'', ''Host''],
      map (\<lambda>k. (b k, [0, 1, 16])) [''server'', ''Server''],
      map (\<lambda>k. (b k, [0, 1, 24])) [''pod'', ''Pod''],
      map (\<lambda>k. (b k, [0, 1, 32])) [''node'', ''Node''],
      map (\<lambda>k. (b k, [0, 1, 40])) [''device'', ''Device''],
      map (\<lambda>k. (b k, [0, 1, 48])) [''tenant'', ''Tenant''],
      map (\<lambda>k. (b k, [0, 1, 56])) [''client'', ''Client''],
      map (\<lambda>k. (b k, [0, 1, 64])) [''name'', ''Name''],
      map (\<lambda>k. (b k, [0, 1, 72])) [''measurement'', ''Measurement'']])"

definition common_tag_key :: "bytes \<Rightarrow> bytes option" where
  "common_tag_key key = map_of common_tag_keys key"

definition normalize_tag_key :: "bytes \<Rightarrow> bytes" where
  "normalize_tag_key key = (case common_tag_key key of Some sentinel \<Rightarrow> sentinel | None \<Rightarrow> key)"

fun dedup_tags :: "Tag list \<Rightarrow> Tag list \<Rightarrow> Tag list" where
  "dedup_tags result [] = result"
| "dedup_tags result (tag # tags) =
    (if result \<noteq> [] \<and> tag_key (last result) = tag_key tag then dedup_tags (butlast result @ [tag]) tags
     else dedup_tags (result @ [tag]) tags)"

definition sort_tags :: "MetricName \<Rightarrow> MetricName" where
  "sort_tags mn =
    (if mn_tags mn = [] then mn
     else mn\<lparr>mn_tags := dedup_tags [] (sort_key (\<lambda>t. normalize_tag_key (tag_key t)) (mn_tags mn))\<rparr>)"

definition mn_marshal :: "MetricName \<Rightarrow> bytes \<Rightarrow> bytes" where
  "mn_marshal mn dst = foldl (\<lambda>dst t. tag_marshal t dst) (marshal_tag_value dst (metric_group mn)) (mn_tags mn)"

definition marshal_canonical :: "MetricName \<Rightarrow> bytes \<Rightarrow> MetricName \<times> bytes" where
  "marshal_canonical mn dst = (sort_tags mn, mn_marshal (sort_tags mn) dst)"

datatype mn_err = CannotUnmarshalMetricGroup tag_value_err | CannotUnmarshalTag tag_err


text \<open>The tags behind the metric group, until the input is used up.\<close>

lemma drop_takeWhile_shorter:
  "c \<in> set src \<Longrightarrow> length (drop (length (takeWhile (\<lambda>x. x \<noteq> c) src) + 1) src) < length src"
  by (cases src) auto

lemma unmarshal_tag_value_shrinks:
  "unmarshal_tag_value dst src = Inr (v, t) \<Longrightarrow> length t < length src"
  using drop_takeWhile_shorter [of TAG_SEPARATOR_CHAR src]
  by (auto simp: unmarshal_tag_value_def Let_def rbind_eq_Inr split: if_splits)

lemma tag_unmarshal_shrinks: "tag_unmarshal src = Inr (tag, t) \<Longrightarrow> length t < length src"
  by (auto simp: tag_unmarshal_def rbind_eq_Inr dest!: unmarshal_tag_value_shrinks)

function mn_unmarshal_tags :: "bytes \<Rightarrow> Tag list \<Rightarrow> (mn_err, Tag list) res" where
  "mn_unmarshal_tags src tags =
    (if src = [] then Inr tags
     else
       case map_err CannotUnmarshalTag (tag_unmarshal src) of
         Inl e \<Rightarrow> Inl e
       | Inr (tag, src) \<Rightarrow> mn_unmarshal_tags src (tags @ [tag]))"
  by pat_completeness auto
termination
  by (relation "measure (\<lambda>(src, tags). length src)") (auto dest: tag_unmarshal_shrinks)

declare mn_unmarshal_tags.simps [simp del]

definition mn_unmarshal :: "bytes \<Rightarrow> (mn_err, MetricName) res" where
  "mn_unmarshal src =
    rbind (map_err CannotUnmarshalMetricGroup (unmarshal_tag_value [] src)) (\<lambda>(group, src).
    rbind (mn_unmarshal_tags src []) (\<lambda>tags.
    Inr \<lparr>metric_group = group, mn_tags = tags\<rparr>))"

section \<open>Raw form\<close>

definition marshal_bytes_fast :: "bytes \<Rightarrow> bytes \<Rightarrow> bytes" where
  "marshal_bytes_fast dst s = marshal_uint16 dst (of_nat (length s)) @ s"

datatype raw_err = CannotDecodeSize bytes | TooShortSrc bytes nat

datatype mn_raw_err = CannotDecodeKey raw_err | CannotDecodeValue raw_err

definition unmarshal_bytes_fast :: "bytes \<Rightarrow> (raw_err, bytes \<times> bytes) res" where
  "unmarshal_bytes_fast src =
    (if length src < 2 then Inl (Err (CannotDecodeSize src))
     else
       rbind (or_panic (unmarshal_uint16 src)) (\<lambda>n.
       let n = unat n; src = drop 2 src in
       if length src < n then Inl (Err (TooShortSrc src n)) else Inr (drop n src, take n src)))"

definition mn_marshal_raw :: "MetricName \<Rightarrow> bytes \<Rightarrow> MetricName \<times> bytes" where
  "mn_marshal_raw mn dst =
    (let dst = marshal_bytes_fast dst []; dst = marshal_bytes_fast dst (metric_group mn); mn = sort_tags mn in
     (mn, foldl (\<lambda>dst t. marshal_bytes_fast (marshal_bytes_fast dst (tag_key t)) (tag_value t)) dst (mn_tags mn)))"

lemma unmarshal_bytes_fast_shrinks: "unmarshal_bytes_fast src = Inr (t, v) \<Longrightarrow> length t < length src"
  by (auto simp: unmarshal_bytes_fast_def Let_def rbind_eq_Inr split: if_splits)

function unmarshal_raw_loop :: "MetricName \<Rightarrow> bytes \<Rightarrow> (mn_raw_err, MetricName) res" where
  "unmarshal_raw_loop mn src =
    (if src = [] then Inr mn
     else
       case map_err CannotDecodeKey (unmarshal_bytes_fast src) of
         Inl e \<Rightarrow> Inl e
       | Inr (src', key) \<Rightarrow>
         (case map_err CannotDecodeValue (unmarshal_bytes_fast src') of
            Inl e \<Rightarrow> Inl e
          | Inr (src'', val) \<Rightarrow>
            if key = [] then unmarshal_raw_loop (mn\<lparr>metric_group := val\<rparr>) src''
            else unmarshal_raw_loop (add_tag_bytes mn key val) src''))"
  by pat_completeness auto
termination
  by (relation "measure (\<lambda>(mn, src). length src)") (auto dest!: unmarshal_bytes_fast_shrinks)

declare unmarshal_raw_loop.simps [simp del]

definition mn_unmarshal_raw :: "MetricName \<Rightarrow> bytes \<Rightarrow> (mn_raw_err, MetricName) res" where
  "mn_unmarshal_raw mn src = unmarshal_raw_loop (mn_reset mn) src"

fun marshal_metric_name_raw :: "bytes \<Rightarrow> (bytes \<times> bytes) list \<Rightarrow> bytes" where
  "marshal_metric_name_raw dst [] = dst"
| "marshal_metric_name_raw dst ((name, val) # labels) =
    (if val = [] then marshal_metric_name_raw dst labels
     else
       let name = (if name = METRIC_GROUP_TAG_KEY then [] else name) in
       marshal_metric_name_raw (marshal_bytes_fast (marshal_bytes_fast dst name) val) labels)"

section \<open>Specification\<close>

text \<open>The value a key has among tags in the order they were added: the last one wins.\<close>

definition last_value :: "Tag list \<Rightarrow> bytes \<Rightarrow> bytes option" where
  "last_value ts k = map_of (rev (map (\<lambda>t. (tag_key t, tag_value t)) ts)) k"

text \<open>The name a list of labels stands for.\<close>

definition is_group_label :: "bytes \<times> bytes \<Rightarrow> bool" where
  "is_group_label l \<longleftrightarrow> fst l = [] \<or> fst l = METRIC_GROUP_TAG_KEY"

definition name_of_labels :: "(bytes \<times> bytes) list \<Rightarrow> MetricName" where
  "name_of_labels labels =
    (let ls = filter (\<lambda>l. snd l \<noteq> []) labels; gs = filter is_group_label ls in
     \<lparr>metric_group = (if gs = [] then [] else snd (last gs)),
      mn_tags = map (\<lambda>(k, v). \<lparr>tag_key = k, tag_value = v\<rparr>) (filter (\<lambda>l. \<not> is_group_label l) ls)\<rparr>)"

text \<open>The escaped form of a value, and what \<open>sort_tags\<close> sorts by.\<close>

definition escaped :: "bytes \<Rightarrow> bytes" where
  "escaped src = concat (map escape_byte src)"

abbreviation sort_by :: "Tag \<Rightarrow> bytes" where
  "sort_by t \<equiv> normalize_tag_key (tag_key t)"

abbreviation keys_of :: "Tag list \<Rightarrow> bytes set" where
  "keys_of ts \<equiv> tag_key ` set ts"

text \<open>A key and a value in the raw form, how reading them changes a name, and the pair written for a label.\<close>

definition raw_pair :: "bytes \<times> bytes \<Rightarrow> bytes" where
  "raw_pair l = marshal_bytes_fast [] (fst l) @ marshal_bytes_fast [] (snd l)"

definition raw_step :: "MetricName \<Rightarrow> bytes \<times> bytes \<Rightarrow> MetricName" where
  "raw_step mn l = (if fst l = [] then mn\<lparr>metric_group := snd l\<rparr> else add_tag_bytes mn (fst l) (snd l))"

abbreviation raw_ok :: "bytes \<times> bytes \<Rightarrow> bool" where
  "raw_ok l \<equiv> length (fst l) < 2 ^ 16 \<and> length (snd l) < 2 ^ 16"

definition raw_label :: "bytes \<times> bytes \<Rightarrow> bytes \<times> bytes" where
  "raw_label l = (if fst l = METRIC_GROUP_TAG_KEY then [] else fst l, snd l)"

text \<open>Byte strings and tags given as text.\<close>

definition ascii :: "string \<Rightarrow> bytes" where
  "ascii s = map (\<lambda>c. of_nat (of_char c)) s"

definition tags_of :: "(string \<times> string) list \<Rightarrow> Tag list" where
  "tags_of kvs = map (\<lambda>(k, v). \<lparr>tag_key = ascii k, tag_value = ascii v\<rparr>) kvs"

section \<open>The canonical form is a code\<close>

lemma foldl_append: "foldl (\<lambda>dst x. dst @ f x) dst xs = dst @ concat (map f xs)"
  by (induction xs arbitrary: dst) simp_all

lemma marshal_tag_value_eq: "marshal_tag_value dst src = dst @ escaped src @ [TAG_SEPARATOR_CHAR]"
proof (cases "list_ex (\<lambda>ch. ch = ESCAPE_CHAR \<or> ch = TAG_SEPARATOR_CHAR \<or> ch = KV_SEPARATOR_CHAR) src")
  case True
  then show ?thesis by (simp add: marshal_tag_value_def escaped_def foldl_append)
next
  case False
  then have "map escape_byte src = map (\<lambda>ch. [ch]) src"
    by (intro map_cong) (auto simp: escape_byte_def list_ex_iff)
  then have "escaped src = src" unfolding escaped_def by (simp only: concat_map_singleton) simp
  with False show ?thesis by (simp add: marshal_tag_value_def)
qed

lemmas sep_defs = ESCAPE_CHAR_def TAG_SEPARATOR_CHAR_def KV_SEPARATOR_CHAR_def

lemma separator_not_escaped: "TAG_SEPARATOR_CHAR \<notin> set (escaped src)"
  by (auto simp: escaped_def escape_byte_def sep_defs split: if_splits)

lemma unescape_plain:
  assumes "ch \<noteq> ESCAPE_CHAR"
  shows "unescape_loop dst (ch # b) = unescape_loop (dst @ [ch]) b"
  using assms by (subst (1 2) unescape_loop.simps) (simp add: Let_def split: list.split)

lemma unescape_pair:
  "unescape_loop dst (ESCAPE_CHAR # ch # b) =
    (if ch = 48 then unescape_loop (dst @ [ESCAPE_CHAR]) b
     else if ch = 49 then unescape_loop (dst @ [TAG_SEPARATOR_CHAR]) b
     else if ch = 50 then unescape_loop (dst @ [KV_SEPARATOR_CHAR]) b
     else Inl (Err (UnsupportedEscapedChar ch)))"
  by (subst unescape_loop.simps) simp

lemma unescape_escape_byte: "unescape_loop dst (escape_byte ch @ b) = unescape_loop (dst @ [ch]) b"
  by (simp add: escape_byte_def unescape_pair unescape_plain)

lemma unescape_escaped: "unescape_loop dst (escaped src) = Inr (dst @ src)"
proof (induction src arbitrary: dst)
  case Nil
  show ?case by (subst unescape_loop.simps) (simp add: escaped_def)
next
  case (Cons ch src)
  then show ?case by (simp add: escaped_def unescape_escape_byte)
qed

lemma takeWhile_separator:
  "takeWhile (\<lambda>c. c \<noteq> TAG_SEPARATOR_CHAR) (escaped src @ TAG_SEPARATOR_CHAR # t) = escaped src"
  using separator_not_escaped [of src] by (subst takeWhile_append2) auto

interpretation tag_value_codec: prefix_codec "marshal_tag_value []" "unmarshal_tag_value []" "\<lambda>_. True"
  by unfold_locales
     (simp add: marshal_tag_value_eq unmarshal_tag_value_def Let_def takeWhile_separator unescape_escaped)

lemma tag_marshal_append: "tag_marshal t dst = dst @ tag_marshal t []"
  by (simp add: tag_marshal_def marshal_tag_value_eq)

lemma tag_unmarshal_marshal: "tag_unmarshal (tag_marshal t [] @ rest) = Inr (t, rest)"
proof -
  have "tag_marshal t [] @ rest = marshal_tag_value [] (tag_key t) @ marshal_tag_value [] (tag_value t) @ rest"
    by (simp add: tag_marshal_def marshal_tag_value_eq)
  then show ?thesis by (simp add: tag_unmarshal_def tag_value_codec.dec_enc)
qed

interpretation tag_codec: prefix_codec "\<lambda>t. tag_marshal t []" tag_unmarshal "\<lambda>_. True"
  by unfold_locales (rule tag_unmarshal_marshal)

lemma mn_marshal_eq:
  "mn_marshal mn dst =
    dst @ marshal_tag_value [] (metric_group mn) @ concat (map (\<lambda>t. tag_marshal t []) (mn_tags mn))"
proof -
  have *: "(\<lambda>dst t. tag_marshal t dst) = (\<lambda>dst t. dst @ tag_marshal t [])"
    by (intro ext) (rule tag_marshal_append)
  show ?thesis by (simp add: mn_marshal_def * foldl_append marshal_tag_value_eq)
qed

lemma mn_unmarshal_tags_marshal:
  "mn_unmarshal_tags (concat (map (\<lambda>t. tag_marshal t []) ts)) acc = Inr (acc @ ts)"
proof (induction ts arbitrary: acc)
  case Nil
  show ?case by (simp add: mn_unmarshal_tags.simps)
next
  case (Cons t ts)
  have "tag_marshal t [] \<noteq> []" by (simp add: tag_marshal_def marshal_tag_value_eq)
  with Cons show ?case by (subst mn_unmarshal_tags.simps) (simp add: tag_unmarshal_marshal)
qed

lemma mn_unmarshal_marshal: "mn_unmarshal (mn_marshal mn []) = Inr mn"
  by (simp add: mn_unmarshal_def mn_marshal_eq tag_value_codec.dec_enc mn_unmarshal_tags_marshal)

section \<open>Sorting and de-duplicating tags\<close>

lemma last_value_snoc: "last_value (ts @ [t]) k = (if k = tag_key t then Some (tag_value t) else last_value ts k)"
  by (simp add: last_value_def)

lemma last_value_filter:
  "last_value ts k = (let xs = filter (\<lambda>t. tag_key t = k) ts in if xs = [] then None else Some (tag_value (last xs)))"
  by (induction ts rule: rev_induct) (auto simp: last_value_def Let_def)

lemma last_value_append_cong:
  assumes "last_value xs = last_value ys"
  shows "last_value (xs @ zs) = last_value (ys @ zs)"
  using assms by (simp add: last_value_def map_add_def fun_eq_iff split: option.split)

lemma last_value_sort: "last_value (sort_key sort_by ts) = last_value ts"
proof
  fix k
  have "filter (\<lambda>t. tag_key t = k) xs = filter (\<lambda>t. tag_key t = k) (filter (\<lambda>t. sort_by t = normalize_tag_key k) xs)"
    for xs by (auto simp: filter_filter intro: filter_cong)
  then show "last_value (sort_key sort_by ts) k = last_value ts k"
    by (metis last_value_filter sort_key_stable)
qed

lemma last_value_overwrite:
  assumes "r \<noteq> []" "tag_key (last r) = tag_key t"
  shows "last_value ((butlast r @ [t]) @ ts) = last_value ((r @ [t]) @ ts)"
proof (rule last_value_append_cong)
  show "last_value (butlast r @ [t]) = last_value (r @ [t])"
    using assms last_value_snoc [of "butlast r" "last r"]
    by (intro ext) (simp add: last_value_snoc)
qed

lemma sort_by_overwrite:
  assumes "r \<noteq> []" "tag_key (last r) = tag_key t"
  shows "map sort_by (butlast r @ [t]) = map sort_by r"
  using assms by (cases r rule: rev_cases) simp_all

lemma dedup_tags_correct:
  assumes "inj_on normalize_tag_key (keys_of (r @ ts))"
    and "sorted (map sort_by (r @ ts))" "sorted_wrt (<) (map sort_by r)"
  shows "sorted_wrt (<) (map sort_by (dedup_tags r ts))
    \<and> last_value (dedup_tags r ts) = last_value (r @ ts) \<and> set (dedup_tags r ts) \<subseteq> set (r @ ts)"
  using assms
proof (induction r ts rule: dedup_tags.induct)
  case (1 r)
  then show ?case by simp
next
  case (2 r t ts)
  show ?case
  proof (cases "r \<noteq> [] \<and> tag_key (last r) = tag_key t")
    case True
    then have same: "map sort_by (butlast r @ [t]) = map sort_by r" by (intro sort_by_overwrite) auto
    have sub: "set (butlast r @ [t]) \<subseteq> set (r @ [t])" by (auto dest: in_set_butlastD)
    have "inj_on normalize_tag_key (keys_of ((butlast r @ [t]) @ ts))"
      using sub by (intro inj_on_subset [OF 2(3)]) auto
    moreover have "sorted (map sort_by ((butlast r @ [t]) @ ts))"
      using 2(4) by (cases r rule: rev_cases) (auto simp: sorted_append)
    ultimately show ?thesis
      using 2(1) [OF True] 2(5) True same sub last_value_overwrite [of r t ts] by auto
  next
    case False
    have "sort_by x < sort_by t" if "x \<in> set r" for x
    proof -
      have "last r \<in> set r" using that by (intro last_in_set) auto
      then have "sort_by (last r) \<noteq> sort_by t"
        using False that inj_onD [OF 2(3), of "tag_key (last r)" "tag_key t"] by auto
      moreover have "sort_by (last r) \<le> sort_by t"
        using \<open>last r \<in> set r\<close> 2(4) by (auto simp: sorted_append)
      moreover have "sort_by x \<le> sort_by (last r)"
        using that 2(4) by (cases r rule: rev_cases) (auto simp: sorted_append)
      ultimately show ?thesis by simp
    qed
    with 2(5) have "sorted_wrt (<) (map sort_by (r @ [t]))" by (simp add: sorted_wrt_append)
    with 2(2) [OF False] 2(3,4) have "sorted_wrt (<) (map sort_by (dedup_tags (r @ [t]) ts))
      \<and> last_value (dedup_tags (r @ [t]) ts) = last_value (r @ t # ts)
      \<and> set (dedup_tags (r @ [t]) ts) \<subseteq> set (r @ t # ts)" by simp
    with False show ?thesis by auto
  qed
qed

lemma sort_tags_correct:
  assumes "inj_on normalize_tag_key (keys_of (mn_tags mn))"
  shows "sorted_wrt (<) (map sort_by (mn_tags (sort_tags mn)))"
    and "last_value (mn_tags (sort_tags mn)) = last_value (mn_tags mn)"
    and "set (mn_tags (sort_tags mn)) \<subseteq> set (mn_tags mn)"
  using dedup_tags_correct [of "[]" "sort_key sort_by (mn_tags mn)"] assms last_value_sort
  by (simp_all add: sort_tags_def)

lemma metric_group_sort_tags [simp]: "metric_group (sort_tags mn) = metric_group mn"
  by (simp add: sort_tags_def)

text \<open>Tags with distinct keys are what their keys map to.\<close>

lemma set_tags_eq:
  assumes "distinct (map tag_key ts)"
  shows "t \<in> set ts \<longleftrightarrow> last_value ts (tag_key t) = Some (tag_value t)"
proof -
  have "distinct (map fst (rev (map (\<lambda>t. (tag_key t, tag_value t)) ts)))"
    using assms by (simp add: comp_def flip: rev_map)
  then have "last_value ts (tag_key t) = Some (tag_value t)
      \<longleftrightarrow> (\<exists>u\<in>set ts. tag_key t = tag_key u \<and> tag_value t = tag_value u)"
    by (auto simp: last_value_def image_iff)
  then show ?thesis by (metis (full_types) Tag.equality old.unit.exhaust)
qed

lemma strictly_sorted_tags:
  assumes "sorted_wrt (<) (map sort_by ts)"
  shows "distinct (map tag_key ts)" "distinct (map sort_by ts)" "sorted (map sort_by ts)"
proof -
  show "distinct (map sort_by ts)" "sorted (map sort_by ts)"
    using assms strict_sorted_iff by blast+
  then show "distinct (map tag_key ts)" by (auto simp: distinct_map inj_on_def)
qed

lemma sorted_tags_unique:
  assumes inj: "inj_on normalize_tag_key (keys_of xs \<union> keys_of ys)"
    and sorted: "sorted_wrt (<) (map sort_by xs)" "sorted_wrt (<) (map sort_by ys)"
    and same: "last_value xs = last_value ys"
  shows "xs = ys"
proof (rule map_sorted_distinct_set_unique)
  note xs = strictly_sorted_tags [OF sorted(1)] and ys = strictly_sorted_tags [OF sorted(2)]
  show "set xs = set ys" using set_tags_eq [OF xs(1)] set_tags_eq [OF ys(1)] same by auto
  then show "inj_on sort_by (set xs \<union> set ys)"
    using xs(2) by (simp add: distinct_map)
  show "sorted (map sort_by xs)" "distinct (map sort_by xs)" "sorted (map sort_by ys)" "distinct (map sort_by ys)"
    using xs ys by auto
qed

lemma keep_tags_eq:
  assumes "METRIC_GROUP_TAG_KEY \<notin> keys_of (mn_tags mn)"
  shows "keep_tags keep mn = mn\<lparr>mn_tags := filter (\<lambda>t. keep (tag_key t)) (mn_tags mn)\<rparr>"
proof -
  have "foldl (\<lambda>mn t. if keep (tag_key t) then add_tag_bytes mn (tag_key t) (tag_value t) else mn) m ts
      = m\<lparr>mn_tags := mn_tags m @ filter (\<lambda>t. keep (tag_key t)) ts\<rparr>"
    if "METRIC_GROUP_TAG_KEY \<notin> keys_of ts" for m ts
    using that by (induction ts arbitrary: m) (auto simp: add_tag_bytes_def)
  from this [OF assms] show ?thesis by (simp add: keep_tags_def)
qed

lemma MetricName_eq_iff:
  "(x :: MetricName) = y \<longleftrightarrow> metric_group x = metric_group y \<and> mn_tags x = mn_tags y"
  by auto

lemma mn_marshal_inj: "mn_marshal a [] = mn_marshal b [] \<longleftrightarrow> a = b"
  using mn_unmarshal_marshal by (metis sum.inject(2))

section \<open>Properties of the canonical form\<close>

text \<open>
  C9: the canonical form of a name is its identity. For names none of whose keys share a sort key (a
  well-known key and its capitalised form), the tags of the canonical form are strictly sorted, each
  key has the value added last, the encoding decodes to it, and two names have the same encoding iff
  they have the same group and the same value for every key.\<close>

theorem metric_name_canonical:
  assumes "inj_on normalize_tag_key (tag_key ` set (mn_tags a) \<union> tag_key ` set (mn_tags b))"
  shows "sorted_wrt (<) (map (\<lambda>t. normalize_tag_key (tag_key t)) (mn_tags (fst (marshal_canonical a []))))
    \<and> last_value (mn_tags (fst (marshal_canonical a []))) = last_value (mn_tags a)
    \<and> mn_unmarshal (snd (marshal_canonical a [])) = Inr (fst (marshal_canonical a []))
    \<and> (snd (marshal_canonical a []) = snd (marshal_canonical b [])
        \<longleftrightarrow> metric_group a = metric_group b \<and> (\<forall>k. last_value (mn_tags a) k = last_value (mn_tags b) k))"
proof -
  have a: "inj_on normalize_tag_key (keys_of (mn_tags a))" and b: "inj_on normalize_tag_key (keys_of (mn_tags b))"
    using assms by (auto intro: inj_on_subset)
  note sa = sort_tags_correct [OF a] and sb = sort_tags_correct [OF b]
  have "mn_tags (sort_tags a) = mn_tags (sort_tags b)" if "last_value (mn_tags a) = last_value (mn_tags b)"
    using that sa sb by (intro sorted_tags_unique inj_on_subset [OF assms]) auto
  then have "sort_tags a = sort_tags b
      \<longleftrightarrow> metric_group a = metric_group b \<and> last_value (mn_tags a) = last_value (mn_tags b)"
    using sa(2) sb(2) by (auto simp: MetricName_eq_iff)
  with sa show ?thesis
    by (simp add: marshal_canonical_def mn_unmarshal_marshal mn_marshal_inj fun_eq_iff)
qed

theorem metric_name_canonical_witness:
  "let a = \<lparr>metric_group = ascii ''up'', mn_tags = tags_of [(''foo'', ''bar''), (''job'', ''x''), (''foo'', ''abc'')]\<rparr>;
       b = \<lparr>metric_group = ascii ''up'', mn_tags = tags_of [(''job'', ''x''), (''foo'', ''abc'')]\<rparr> in
   inj_on normalize_tag_key (tag_key ` set (mn_tags a) \<union> tag_key ` set (mn_tags b))
   \<and> snd (marshal_canonical a []) = snd (marshal_canonical b [])"
proof -
  let ?a = "\<lparr>metric_group = ascii ''up'', mn_tags = tags_of [(''foo'', ''bar''), (''job'', ''x''), (''foo'', ''abc'')]\<rparr>"
  let ?b = "\<lparr>metric_group = ascii ''up'', mn_tags = tags_of [(''job'', ''x''), (''foo'', ''abc'')]\<rparr>"
  have inj: "inj_on normalize_tag_key (tag_key ` set (mn_tags ?a) \<union> tag_key ` set (mn_tags ?b))"
    by code_simp
  have "last_value (mn_tags ?a) k = last_value (mn_tags ?b) k" for k
    by (simp add: last_value_def tags_of_def)
  then show ?thesis using metric_name_canonical [OF inj] inj unfolding Let_def by simp
qed

lemma sort_key_same: "\<forall>x \<in> set xs. f x = c \<Longrightarrow> sort_key f xs = xs"
  by (induction xs) (auto simp: insort_is_Cons)

text \<open>
  Two different keys that share a sort key (a well-known key and its capitalised form) escape both the
  de-duplication and the canonical order. When such keys alternate, the tags stay as they are, so that one
  key keeps two values; and names that set the two keys to the same values in a different order have the
  same value for every key and are encoded differently.\<close>

lemma sort_tags_shared_sort_key:
  assumes "k \<noteq> k'" "normalize_tag_key k = normalize_tag_key k'"
  shows "let t = (\<lambda>k v. \<lparr>tag_key = k, tag_value = v\<rparr>);
       a = \<lparr>metric_group = g, mn_tags = [t k u, t k' v]\<rparr>; b = \<lparr>metric_group = g, mn_tags = [t k' v, t k u]\<rparr> in
     mn_tags (sort_tags \<lparr>metric_group = g, mn_tags = [t k u, t k' v, t k w]\<rparr>) = [t k u, t k' v, t k w]
     \<and> (\<forall>x. last_value (mn_tags a) x = last_value (mn_tags b) x)
     \<and> snd (marshal_canonical a []) \<noteq> snd (marshal_canonical b [])"
proof -
  have s: "sort_tags \<lparr>metric_group = g, mn_tags = ts\<rparr> = \<lparr>metric_group = g, mn_tags = dedup_tags [] ts\<rparr>"
    if "\<forall>t \<in> set ts. tag_key t = k \<or> tag_key t = k'" "ts \<noteq> []" for ts
  proof -
    have "sort_key sort_by ts = ts" by (rule sort_key_same [of _ _ "normalize_tag_key k"]) (use that(1) assms(2) in auto)
    then show ?thesis using that(2) by (simp add: sort_tags_def)
  qed
  show ?thesis using assms(1) by (simp add: Let_def s marshal_canonical_def mn_marshal_inj last_value_def)
qed

section \<open>Properties of the raw form\<close>

lemma unmarshal_bytes_fast_marshal:
  assumes "length s < 2 ^ 16"
  shows "unmarshal_bytes_fast (marshal_bytes_fast [] s @ t) = Inr (t, s)"
  using assms
  by (simp add: marshal_bytes_fast_def marshal_append unmarshal_bytes_fast_def
      unmarshal_uint16_def from_be_to_be_bytes unat_of_nat take_bit_nat_eq_self)

lemma marshal_bytes_fast_nonempty [simp]: "marshal_bytes_fast dst s \<noteq> []"
  by (simp add: marshal_bytes_fast_def marshal_append flip: length_greater_0_conv)

lemma unmarshal_raw_loop_pair:
  "raw_ok l \<Longrightarrow> unmarshal_raw_loop mn (raw_pair l @ t) = unmarshal_raw_loop (raw_step mn l) t"
  by (subst unmarshal_raw_loop.simps) (simp add: raw_pair_def raw_step_def unmarshal_bytes_fast_marshal)

lemma unmarshal_raw_loop_pairs:
  "list_all raw_ok ls \<Longrightarrow> unmarshal_raw_loop mn (concat (map raw_pair ls)) = Inr (foldl raw_step mn ls)"
  by (induction ls arbitrary: mn) (simp_all add: unmarshal_raw_loop_pair unmarshal_raw_loop.simps [of _ "[]"])

lemma marshal_metric_name_raw_eq:
  "marshal_metric_name_raw dst labels
    = dst @ concat (map raw_pair (map raw_label (filter (\<lambda>l. snd l \<noteq> []) labels)))"
proof (induction labels arbitrary: dst)
  case (Cons l labels)
  have "marshal_bytes_fast (marshal_bytes_fast dst k) v = dst @ marshal_bytes_fast [] k @ marshal_bytes_fast [] v" for k v
    by (simp add: marshal_bytes_fast_def marshal_uint16_def)
  then show ?case by (cases l) (simp add: Cons Let_def raw_pair_def raw_label_def)
qed simp

lemma raw_steps:
  "foldl raw_step \<lparr>metric_group = [], mn_tags = []\<rparr> (map raw_label (filter (\<lambda>l. snd l \<noteq> []) labels)) = name_of_labels labels"
proof (induction labels rule: rev_induct)
  case (snoc l labels)
  then show ?case
    by (cases l) (auto simp: name_of_labels_def raw_step_def raw_label_def is_group_label_def add_tag_bytes_def Let_def)
qed (simp add: name_of_labels_def)

text \<open>
  C25: the raw form of labels whose names and values are shorter than 65536 bytes is decoded, into any
  name, to the name the labels stand for: the tags in their order without those of an empty value, and
  as metric group the last non-empty value of \<open>__name__\<close> or of an empty name.\<close>

theorem metric_name_raw_roundtrip:
  assumes "list_all (\<lambda>l. length (fst l) < 2 ^ 16 \<and> length (snd l) < 2 ^ 16) labels"
  shows "mn_unmarshal_raw mn (marshal_metric_name_raw [] labels) = Inr (name_of_labels labels)"
proof -
  have "list_all raw_ok (map raw_label (filter (\<lambda>l. snd l \<noteq> []) labels))"
    using assms by (auto simp: list_all_iff raw_label_def)
  moreover have "mn_reset mn = \<lparr>metric_group = [], mn_tags = []\<rparr>" by (simp add: mn_reset_def MetricName_eq_iff)
  ultimately show ?thesis
    by (simp add: mn_unmarshal_raw_def marshal_metric_name_raw_eq unmarshal_raw_loop_pairs raw_steps del: map_map)
qed

theorem metric_name_raw_roundtrip_witness:
  "let labels = [(ascii ''__name__'', ascii ''up''), (ascii ''job'', ascii ''a''), (ascii ''x'', [])] in
   list_all (\<lambda>l. length (fst l) < 2 ^ 16 \<and> length (snd l) < 2 ^ 16) labels
   \<and> mn_unmarshal_raw mn_default (marshal_metric_name_raw [] labels)
     = Inr \<lparr>metric_group = ascii ''up'', mn_tags = tags_of [(''job'', ''a'')]\<rparr>"
proof -
  let ?l = "[(ascii ''__name__'', ascii ''up''), (ascii ''job'', ascii ''a''), (ascii ''x'', [])]"
  have ok: "list_all (\<lambda>l. length (fst l) < 2 ^ 16 \<and> length (snd l) < 2 ^ 16) ?l"
    by (simp add: ascii_def)
  have "name_of_labels ?l = \<lparr>metric_group = ascii ''up'', mn_tags = tags_of [(''job'', ''a'')]\<rparr>" by code_simp
  then show ?thesis using metric_name_raw_roundtrip [OF ok, of mn_default] ok unfolding Let_def by simp
qed

end
