(* ===== verification/Row_Merge.thy ===== *)
theory Row_Merge
  imports Metric_Name Mergeset_Merge_Correct Uint64_Set Tsid
begin

text \<open>
  Merging of postings within a block of the index (\<open>crates/esm-storage/src/index/row_merge.rs\<close>). A row
  of the index maps a tag, or a date and a tag, to metric ids; the callback of the mergeset merge
  joins neighbouring rows of one tag before a block is written.

  \<open>None\<close> stands for a panic. The counters of processed blocks are left out. A parser on which
  \<open>init\<close> failed is not used again, so that the model returns only the error.
\<close>

section \<open>Rows\<close>

definition NS_PREFIX_TAG_TO_METRIC_IDS :: u8 where "NS_PREFIX_TAG_TO_METRIC_IDS = 1"
definition NS_PREFIX_DATE_TAG_TO_METRIC_IDS :: u8 where "NS_PREFIX_DATE_TAG_TO_METRIC_IDS = 6"
definition COMMON_PREFIX_LEN :: nat where "COMMON_PREFIX_LEN = 1"

definition marshal_common_prefix :: "bytes \<Rightarrow> u8 \<Rightarrow> bytes" where
  "marshal_common_prefix dst ns_prefix = dst @ [ns_prefix]"

datatype row_err =
    CannotUnmarshalCommonPrefix nat
  | InvalidPrefix u8 u8
  | CannotUnmarshalDate nat
  | CannotUnmarshalRowTag tag_err
  | MissingMetricID
  | InvalidTailLength nat

definition unmarshal_common_prefix :: "bytes \<Rightarrow> (row_err, bytes \<times> u8) res" where
  "unmarshal_common_prefix src =
    (if length src < COMMON_PREFIX_LEN then Inl (Err (CannotUnmarshalCommonPrefix (length src)))
     else Inr (drop COMMON_PREFIX_LEN src, src ! 0))"

definition MAX_METRIC_IDS_PER_ROW :: nat where "MAX_METRIC_IDS_PER_ROW = 64"

record TagToMetricIDsRowParser =
  rp_ns_prefix :: u8
  rp_date :: u64
  rp_metric_ids :: "u64 list"
  rp_metric_ids_parsed :: bool
  rp_tag :: Tag
  rp_tail :: bytes

definition rp_default :: TagToMetricIDsRowParser where
  "rp_default = \<lparr>rp_ns_prefix = 0, rp_date = 0, rp_metric_ids = [], rp_metric_ids_parsed = False,
     rp_tag = \<lparr>tag_key = [], tag_value = []\<rparr>, rp_tail = []\<rparr>"

definition rp_reset :: "TagToMetricIDsRowParser \<Rightarrow> TagToMetricIDsRowParser" where
  "rp_reset mp = mp\<lparr>rp_ns_prefix := 0, rp_date := 0, rp_metric_ids := [], rp_metric_ids_parsed := False,
     rp_tag := \<lparr>tag_key = [], tag_value = []\<rparr>, rp_tail := []\<rparr>"

definition init_only_tail :: "TagToMetricIDsRowParser \<Rightarrow> bytes \<Rightarrow> (row_err, TagToMetricIDsRowParser) res" where
  "init_only_tail mp tail =
    (if tail = [] then Inl (Err MissingMetricID)
     else if length tail mod 8 \<noteq> 0 then Inl (Err (InvalidTailLength (length tail)))
     else Inr (mp\<lparr>rp_tail := tail, rp_metric_ids_parsed := False\<rparr>))"

definition rp_init :: "TagToMetricIDsRowParser \<Rightarrow> bytes \<Rightarrow> u8 \<Rightarrow> (row_err, TagToMetricIDsRowParser) res" where
  "rp_init mp b ns_prefix_expected =
    rbind (unmarshal_common_prefix b) (\<lambda>(tail, ns_prefix).
    if ns_prefix \<noteq> ns_prefix_expected then Inl (Err (InvalidPrefix ns_prefix ns_prefix_expected))
    else
      rbind (if ns_prefix = NS_PREFIX_DATE_TAG_TO_METRIC_IDS then
               if length tail < 8 then Inl (Err (CannotUnmarshalDate (length tail)))
               else rbind (or_panic (unmarshal_uint64 tail)) (\<lambda>d. Inr (mp\<lparr>rp_date := d\<rparr>, drop 8 tail))
             else Inr (mp, tail)) (\<lambda>(mp, tail).
      rbind (map_err CannotUnmarshalRowTag (tag_unmarshal tail)) (\<lambda>(t, tail).
      init_only_tail (mp\<lparr>rp_ns_prefix := ns_prefix, rp_tag := t\<rparr>) tail)))"

definition marshal_prefix :: "TagToMetricIDsRowParser \<Rightarrow> bytes \<Rightarrow> bytes" where
  "marshal_prefix mp dst =
    (let dst = marshal_common_prefix dst (rp_ns_prefix mp);
         dst = (if rp_ns_prefix mp = NS_PREFIX_DATE_TAG_TO_METRIC_IDS then marshal_uint64 dst (rp_date mp) else dst)
     in tag_marshal (rp_tag mp) dst)"

definition equal_prefix :: "TagToMetricIDsRowParser \<Rightarrow> TagToMetricIDsRowParser \<Rightarrow> bool" where
  "equal_prefix mp x \<longleftrightarrow> rp_tag mp = rp_tag x \<and> rp_date mp = rp_date x \<and> rp_ns_prefix mp = rp_ns_prefix x"

definition metric_ids_len :: "TagToMetricIDsRowParser \<Rightarrow> nat" where
  "metric_ids_len mp = length (rp_tail mp) div 8"

function parse_ids_loop :: "bytes \<Rightarrow> u64 list \<Rightarrow> u64 list" where
  "parse_ids_loop tail ids =
    (case unmarshal_uint64 tail of
       None \<Rightarrow> ids
     | Some mid \<Rightarrow> parse_ids_loop (drop 8 tail) (ids @ [mid]))"
  by pat_completeness auto
termination
  by (relation "measure (\<lambda>(tail, ids). length tail)") (auto simp: unmarshal_uint64_def split: if_splits)

declare parse_ids_loop.simps [simp del]

definition parse_metric_ids :: "TagToMetricIDsRowParser \<Rightarrow> TagToMetricIDsRowParser" where
  "parse_metric_ids mp =
    (if rp_metric_ids_parsed mp then mp
     else mp\<lparr>rp_metric_ids := parse_ids_loop (rp_tail mp) [], rp_metric_ids_parsed := True\<rparr>)"

definition get_matching_series_count ::
  "TagToMetricIDsRowParser \<Rightarrow> uset option \<Rightarrow> uset \<Rightarrow> TagToMetricIDsRowParser \<times> nat" where
  "get_matching_series_count mp filter_set negative_filter =
    (if filter_set = None \<and> uset_is_empty negative_filter then (mp, metric_ids_len mp)
     else
       let mp = parse_metric_ids mp in
       (mp, foldl (\<lambda>n mid.
              if (case filter_set of Some f \<Rightarrow> \<not> uset_has f mid | None \<Rightarrow> False) then n
              else if \<not> uset_has negative_filter mid then n + 1 else n) 0 (rp_metric_ids mp)))"

definition find_tag_separator :: "bytes \<Rightarrow> nat option" where
  "find_tag_separator tail = position (\<lambda>b. b = TAG_SEPARATOR_CHAR) tail"

section \<open>Merging rows\<close>

text \<open>\<open>sorted_metric_ids.dedup()\<close>: equal neighbours are dropped.\<close>

definition remove_duplicate_metric_ids :: "u64 list \<Rightarrow> u64 list" where
  "remove_duplicate_metric_ids ids = (if length ids < 2 then ids else remdups_adj ids)"

fun items_sorted_loop :: "bytes \<Rightarrow> bytes \<Rightarrow> item list \<Rightarrow> bool" where
  "items_sorted_loop data prev_item [] = True"
| "items_sorted_loop data prev_item (it # its) =
    (let curr_item = item_bytes it data in
     if prev_item > curr_item then False else items_sorted_loop data curr_item its)"

definition check_items_sorted :: "bytes \<Rightarrow> item list \<Rightarrow> bool" where
  "check_items_sorted data its =
    (case its of [] \<Rightarrow> True | it # rest \<Rightarrow> items_sorted_loop data (item_bytes it data) rest)"

record row_merge =
  rm_mp :: TagToMetricIDsRowParser
  rm_mp_prev :: TagToMetricIDsRowParser
  rm_pending :: "u64 list"
  rm_dst_data :: bytes
  rm_dst_items :: "item list"

text \<open>Appending a row to the output, as it is done in three places.\<close>

definition push_row :: "row_merge \<Rightarrow> bytes \<Rightarrow> row_merge" where
  "push_row st row =
    (let start = length (rm_dst_data st); data = rm_dst_data st @ row in
     st\<lparr>rm_dst_data := data,
        rm_dst_items := rm_dst_items st @ [\<lparr>it_start = of_nat start, it_end = of_nat (length data)\<rparr>]\<rparr>)"

definition flush_pending :: "row_merge \<Rightarrow> row_merge" where
  "flush_pending st =
    (if rm_pending st = [] then st
     else
       let pending = remove_duplicate_metric_ids (sort (rm_pending st));
           row = foldl marshal_uint64 (marshal_prefix (rm_mp_prev st) []) pending
       in (push_row st row)\<lparr>rm_pending := []\<rparr>)"

definition merge_row :: "u8 \<Rightarrow> bool \<Rightarrow> bytes \<Rightarrow> row_merge \<Rightarrow> row_merge option" where
  "merge_row ns_prefix at_end row st =
    (if row = [] \<or> row ! 0 \<noteq> ns_prefix \<or> at_end then Some (push_row (flush_pending st) row)
     else
       case rp_init (rm_mp st) row ns_prefix of
         Inl _ \<Rightarrow> None
       | Inr mp \<Rightarrow>
         let st = st\<lparr>rm_mp := mp\<rparr> in
         if metric_ids_len mp \<ge> MAX_METRIC_IDS_PER_ROW then Some (push_row (flush_pending st) row)
         else
           let st = (if \<not> equal_prefix mp (rm_mp_prev st) then flush_pending st else st);
               mp = parse_metric_ids mp;
               st = st\<lparr>rm_pending := rm_pending st @ rp_metric_ids mp, rm_mp := rm_mp_prev st, rm_mp_prev := mp\<rparr>
           in Some (if length (rm_pending st) \<ge> MAX_METRIC_IDS_PER_ROW then flush_pending st else st))"

fun merge_rows :: "u8 \<Rightarrow> bytes \<Rightarrow> nat \<Rightarrow> nat \<Rightarrow> item list \<Rightarrow> row_merge \<Rightarrow> row_merge option" where
  "merge_rows ns_prefix data items_len i [] st = Some st"
| "merge_rows ns_prefix data items_len i (it # its) st =
    (case merge_row ns_prefix (i = 0 \<or> i = items_len - 1) (item_bytes it data) st of
       None \<Rightarrow> None
     | Some st \<Rightarrow> merge_rows ns_prefix data items_len (i + 1) its st)"

definition merge_tag_to_metric_ids_rows_internal :: "bytes \<Rightarrow> item list \<Rightarrow> u8 \<Rightarrow> (bytes \<times> item list) option" where
  "merge_tag_to_metric_ids_rows_internal data its ns_prefix =
    (if length its \<le> 2 then Some (data, its)
     else
       let first_item = item_bytes (its ! 0) data; last_item = item_bytes (its ! (length its - 1)) data in
       if first_item \<noteq> [] \<and> first_item ! 0 > ns_prefix then Some (data, its)
       else if last_item \<noteq> [] \<and> last_item ! 0 < ns_prefix then Some (data, its)
       else
         case merge_rows ns_prefix data (length its) 0 its
                \<lparr>rm_mp = rp_default, rm_mp_prev = rp_default, rm_pending = [], rm_dst_data = [], rm_dst_items = []\<rparr> of
           None \<Rightarrow> None
         | Some st \<Rightarrow>
           if rm_pending st \<noteq> [] then None
           else if \<not> check_items_sorted (rm_dst_data st) (rm_dst_items st)
           then if \<not> check_items_sorted data its then None else Some (data, its)
           else Some (rm_dst_data st, rm_dst_items st))"

definition merge_tag_to_metric_ids_rows :: "bytes \<Rightarrow> item list \<Rightarrow> (bytes \<times> item list) option" where
  "merge_tag_to_metric_ids_rows data its =
    (case merge_tag_to_metric_ids_rows_internal data its NS_PREFIX_TAG_TO_METRIC_IDS of
       None \<Rightarrow> None
     | Some (data, its) \<Rightarrow> merge_tag_to_metric_ids_rows_internal data its NS_PREFIX_DATE_TAG_TO_METRIC_IDS)"

section \<open>Specification\<close>

text \<open>
  What a row says. The key of a row is a tag with or without a date; a row is the encoding of a key
  and of at least one metric id, and stands for the pairs of them.
\<close>

datatype row_key = TagRow Tag | DateTagRow u64 Tag

fun ns_of :: "row_key \<Rightarrow> u8" where
  "ns_of (TagRow t) = NS_PREFIX_TAG_TO_METRIC_IDS"
| "ns_of (DateTagRow d t) = NS_PREFIX_DATE_TAG_TO_METRIC_IDS"

fun key_bytes :: "row_key \<Rightarrow> bytes" where
  "key_bytes (TagRow t) = NS_PREFIX_TAG_TO_METRIC_IDS # tag_marshal t []"
| "key_bytes (DateTagRow d t) = NS_PREFIX_DATE_TAG_TO_METRIC_IDS # to_be_bytes d @ tag_marshal t []"

definition row_enc :: "row_key \<Rightarrow> u64 list \<Rightarrow> bytes" where
  "row_enc k ids = key_bytes k @ concat (map to_be_bytes ids)"

definition postings :: "bytes \<Rightarrow> (row_key \<times> u64) set" where
  "postings row = {(k, m). \<exists>ids. row = row_enc k ids \<and> m \<in> set ids}"

definition rows_postings :: "bytes list \<Rightarrow> (row_key \<times> u64) set" where
  "rows_postings rows = (\<Union>row \<in> set rows. postings row)"

definition starts_with :: "u8 \<Rightarrow> bytes \<Rightarrow> bool" where
  "starts_with ns row \<longleftrightarrow> row \<noteq> [] \<and> row ! 0 = ns"

text \<open>A row of the given kind is well formed.\<close>

definition row_ok :: "u8 \<Rightarrow> bytes \<Rightarrow> bool" where
  "row_ok ns row \<longleftrightarrow> (starts_with ns row \<longrightarrow> (\<exists>k ids. ns_of k = ns \<and> ids \<noteq> [] \<and> row = row_enc k ids))"

definition index_row_ok :: "bytes \<Rightarrow> bool" where
  "index_row_ok row \<longleftrightarrow> row_ok NS_PREFIX_TAG_TO_METRIC_IDS row \<and> row_ok NS_PREFIX_DATE_TAG_TO_METRIC_IDS row"

text \<open>Rows that are not postings, and what a merge keeps of a block: its postings and the other rows.\<close>

definition other_row :: "bytes \<Rightarrow> bool" where
  "other_row r \<longleftrightarrow> \<not> starts_with NS_PREFIX_TAG_TO_METRIC_IDS r \<and> \<not> starts_with NS_PREFIX_DATE_TAG_TO_METRIC_IDS r"

definition same_postings :: "bytes list \<Rightarrow> bytes list \<Rightarrow> bool" where
  "same_postings rows rows' \<longleftrightarrow> rows_postings rows' = rows_postings rows \<and> filter other_row rows' = filter other_row rows
    \<and> list_all index_row_ok rows'"

text \<open>The key a parser holds.\<close>

definition rp_key :: "TagToMetricIDsRowParser \<Rightarrow> row_key" where
  "rp_key mp =
    (if rp_ns_prefix mp = NS_PREFIX_DATE_TAG_TO_METRIC_IDS then DateTagRow (rp_date mp) (rp_tag mp)
     else TagRow (rp_tag mp))"

text \<open>
  What the loop keeps, when it has read the rows \<open>seen\<close>: the output \<open>outs\<close> and the pending ids say what
  they say, are no longer, and contain the other rows unchanged.
\<close>

definition pending_row :: "row_merge \<Rightarrow> bytes list" where
  "pending_row st = (if rm_pending st = [] then [] else [row_enc (rp_key (rm_mp_prev st)) (rm_pending st)])"

definition rm_invar :: "u8 \<Rightarrow> bytes list \<Rightarrow> bytes list \<Rightarrow> row_merge \<Rightarrow> bool" where
  "rm_invar ns seen outs st \<longleftrightarrow>
    holds (rm_dst_data st) (rm_dst_items st) outs
    \<and> (rm_pending st \<noteq> [] \<longrightarrow> rp_ns_prefix (rm_mp_prev st) = ns)
    \<and> rows_postings (outs @ pending_row st) = rows_postings seen
    \<and> length (concat (outs @ pending_row st)) \<le> length (concat seen)
    \<and> length (outs @ pending_row st) \<le> length seen
    \<and> filter (\<lambda>r. \<not> starts_with ns r) outs = filter (\<lambda>r. \<not> starts_with ns r) seen
    \<and> list_all (row_ok ns) outs
    \<and> (seen \<noteq> [] \<longrightarrow> outs \<noteq> [] \<and> hd outs = hd seen)"

text \<open>What one pass over a block keeps.\<close>

definition pass_ok :: "u8 \<Rightarrow> bytes list \<Rightarrow> bytes list \<Rightarrow> bool" where
  "pass_ok ns rows rows' \<longleftrightarrow> sorted rows' \<and> rows_postings rows' = rows_postings rows
    \<and> filter (\<lambda>r. \<not> starts_with ns r) rows' = filter (\<lambda>r. \<not> starts_with ns r) rows
    \<and> list_all (row_ok ns) rows'
    \<and> length (concat rows') \<le> length (concat rows) \<and> length rows' \<le> length rows
    \<and> (rows \<noteq> [] \<longrightarrow> rows' \<noteq> [] \<and> hd rows' = hd rows \<and> last rows' = last rows)"

text \<open>The block that holds the given rows, and postings of one tag.\<close>

fun items_at :: "nat \<Rightarrow> bytes list \<Rightarrow> item list" where
  "items_at start [] = []"
| "items_at start (r # rs) = \<lparr>it_start = of_nat start, it_end = of_nat (start + length r)\<rparr> # items_at (start + length r) rs"

definition block_of_rows :: "bytes list \<Rightarrow> inmemory_block" where
  "block_of_rows rows = \<lparr>common_prefix = [], ib_data = concat rows, ib_items = items_at 0 rows\<rparr>"

definition sample_rows :: "u64 list \<Rightarrow> bytes list" where
  "sample_rows ids = map (\<lambda>i. row_enc (TagRow \<lparr>tag_key = [97], tag_value = [98]\<rparr>) [i]) ids"

section \<open>The parser\<close>

lemma ns_values [simp]:
  "NS_PREFIX_TAG_TO_METRIC_IDS \<noteq> NS_PREFIX_DATE_TAG_TO_METRIC_IDS"
  "NS_PREFIX_DATE_TAG_TO_METRIC_IDS \<noteq> NS_PREFIX_TAG_TO_METRIC_IDS"
  by (simp_all add: NS_PREFIX_TAG_TO_METRIC_IDS_def NS_PREFIX_DATE_TAG_TO_METRIC_IDS_def)

lemma length_ids [simp]: "length (concat (map to_be_bytes (ids :: u64 list))) = 8 * length ids"
  by (induction ids) simp_all

lemma to_be_bytes_nonempty: "to_be_bytes (u :: u64) \<noteq> []"
  by (simp flip: length_greater_0_conv)

lemma parse_ids_loop_ids: "parse_ids_loop (concat (map to_be_bytes ids)) acc = acc @ ids"
proof (induction ids arbitrary: acc)
  case Nil
  show ?case by (simp add: parse_ids_loop.simps unmarshal_uint64_def)
next
  case (Cons i ids)
  then show ?case
    by (subst parse_ids_loop.simps) (simp add: unmarshal_uint64_def from_be_to_be_bytes)
qed

lemma init_only_tail_ids:
  "ids \<noteq> [] \<Longrightarrow> init_only_tail mp (concat (map to_be_bytes (ids :: u64 list)))
    = Inr (mp\<lparr>rp_tail := concat (map to_be_bytes ids), rp_metric_ids_parsed := False\<rparr>)"
  by (cases ids) (simp_all add: init_only_tail_def to_be_bytes_nonempty)

lemma rp_init_row:
  assumes "ids \<noteq> []"
  obtains mp' where "rp_init mp (row_enc k ids) (ns_of k) = Inr mp'" "rp_key mp' = k" "rp_ns_prefix mp' = ns_of k"
    "rp_tail mp' = concat (map to_be_bytes ids)" "\<not> rp_metric_ids_parsed mp'"
proof (cases k)
  case (TagRow t)
  with assms that show thesis
    by (simp add: rp_init_def row_enc_def unmarshal_common_prefix_def COMMON_PREFIX_LEN_def tag_unmarshal_marshal
        init_only_tail_ids rp_key_def)
next
  case (DateTagRow d t)
  with assms that show thesis
    by (simp add: rp_init_def row_enc_def unmarshal_common_prefix_def COMMON_PREFIX_LEN_def tag_unmarshal_marshal
        init_only_tail_ids rp_key_def unmarshal_uint64_def from_be_to_be_bytes)
qed

lemma row_enc_inj:
  assumes "row_enc k ids = row_enc k' ids'"
  shows "k = k' \<and> ids = ids'"
proof -
  have tag: "t = t' \<and> r = r'" if "tag_marshal t [] @ r = tag_marshal t' [] @ r'" for t t' r r'
    using tag_codec.enc_prefix_free that by blast
  have ids: "ids = ids'" if "concat (map to_be_bytes ids) = concat (map to_be_bytes ids')"
    using that parse_ids_loop_ids by (metis append_Nil)
  have "k = k' \<and> concat (map to_be_bytes ids) = concat (map to_be_bytes ids')"
  proof (cases k; cases k')
    fix t t' assume "k = TagRow t" "k' = TagRow t'"
    with assms show ?thesis using tag by (simp add: row_enc_def)
  next
    fix d t d' t' assume k: "k = DateTagRow d t" "k' = DateTagRow d' t'"
    with assms have "d = d'"
      and "tag_marshal t [] @ concat (map to_be_bytes ids) = tag_marshal t' [] @ concat (map to_be_bytes ids')"
      by (simp_all add: row_enc_def to_be_bytes_inj)
    with k tag show ?thesis by blast
  qed (use assms in \<open>simp_all add: row_enc_def\<close>)
  with ids show ?thesis by blast
qed

lemma postings_row_enc: "postings (row_enc k ids) = {k} \<times> set ids"
  by (auto simp: postings_def dest: row_enc_inj)

lemma marshal_prefix_key:
  "rp_ns_prefix mp = NS_PREFIX_TAG_TO_METRIC_IDS \<or> rp_ns_prefix mp = NS_PREFIX_DATE_TAG_TO_METRIC_IDS
    \<Longrightarrow> marshal_prefix mp [] = key_bytes (rp_key mp)"
  by (auto simp: marshal_prefix_def rp_key_def marshal_common_prefix_def marshal_append Let_def
      tag_marshal_append [of _ "_ # _"])

lemma foldl_marshal_uint64: "foldl marshal_uint64 dst ids = dst @ concat (map to_be_bytes ids)"
  by (induction ids arbitrary: dst) (simp_all add: marshal_append)

lemma equal_prefix_key: "equal_prefix mp x \<Longrightarrow> rp_key mp = rp_key x"
  by (simp add: equal_prefix_def rp_key_def)

lemma parse_metric_ids_fields:
  assumes "\<not> rp_metric_ids_parsed mp"
  shows "rp_metric_ids (parse_metric_ids mp) = parse_ids_loop (rp_tail mp) []"
    "rp_key (parse_metric_ids mp) = rp_key mp" "rp_ns_prefix (parse_metric_ids mp) = rp_ns_prefix mp"
  using assms by (simp_all add: parse_metric_ids_def rp_key_def)

section \<open>The loop\<close>

lemma rows_postings_append [simp]: "rows_postings (xs @ ys) = rows_postings xs \<union> rows_postings ys"
  by (simp add: rows_postings_def)

lemma rows_postings_simps [simp]: "rows_postings [] = {}" "rows_postings (r # rs) = postings r \<union> rows_postings rs"
  by (simp_all add: rows_postings_def)

lemma length_row_enc [simp]: "length (row_enc k ids) = length (key_bytes k) + 8 * length ids"
  by (simp add: row_enc_def)

lemma starts_with_row_enc [simp]: "starts_with ns (row_enc k ids) \<longleftrightarrow> ns_of k = ns"
  by (cases k) (simp_all add: row_enc_def starts_with_def)

lemma row_ok_enc: "ids \<noteq> [] \<Longrightarrow> row_ok ns (row_enc k ids)"
  by (auto simp: row_ok_def)

lemma ns_of_rp_key:
  "rp_ns_prefix mp \<in> {NS_PREFIX_TAG_TO_METRIC_IDS, NS_PREFIX_DATE_TAG_TO_METRIC_IDS} \<Longrightarrow> ns_of (rp_key mp) = rp_ns_prefix mp"
  by (auto simp: rp_key_def)

lemma unique_ids:
  fixes ids :: "u64 list"
  shows "set (remove_duplicate_metric_ids (sort ids)) = set ids"
    and "length (remove_duplicate_metric_ids (sort ids)) \<le> length ids"
  using remdups_adj_length [of "sort ids"] by (simp_all add: remove_duplicate_metric_ids_def)

lemma rm_invar_mp [simp]: "rm_invar ns seen outs (st\<lparr>rm_mp := mp\<rparr>) = rm_invar ns seen outs st"
  by (simp add: rm_invar_def pending_row_def)

lemma push_row_fields [simp]:
  "rm_mp (push_row st row) = rm_mp st" "rm_mp_prev (push_row st row) = rm_mp_prev st"
  "rm_pending (push_row st row) = rm_pending st"
  by (simp_all add: push_row_def Let_def)

lemma flush_pending_fields [simp]:
  "rm_mp (flush_pending st) = rm_mp st" "rm_mp_prev (flush_pending st) = rm_mp_prev st"
  "rm_pending (flush_pending st) = []"
  by (simp_all add: flush_pending_def Let_def)

lemma push_row_holds:
  assumes "holds (rm_dst_data st) (rm_dst_items st) outs" "length (concat outs) + length row < 2 ^ 32"
  shows "holds (rm_dst_data (push_row st row)) (rm_dst_items (push_row st row)) (outs @ [row])"
proof -
  have "length (rm_dst_data st @ row) < 2 ^ 32" using assms by (simp add: holds_def)
  from holds_push [OF assms(1) this refl] show ?thesis by (simp add: push_row_def Let_def)
qed

lemma flush_invar:
  assumes ns: "ns \<in> {NS_PREFIX_TAG_TO_METRIC_IDS, NS_PREFIX_DATE_TAG_TO_METRIC_IDS}"
    and inv: "rm_invar ns seen outs st" and len: "length (concat seen) < 2 ^ 32"
  obtains outs' where "rm_invar ns seen outs' (flush_pending st)"
proof (cases "rm_pending st = []")
  case True
  then show thesis using inv that by (simp add: flush_pending_def)
next
  case False
  define ids where "ids = remove_duplicate_metric_ids (sort (rm_pending st))"
  define k where "k = rp_key (rm_mp_prev st)"
  have k: "ns_of k = ns" "marshal_prefix (rm_mp_prev st) [] = key_bytes k"
    using ns inv False ns_of_rp_key [of "rm_mp_prev st"] marshal_prefix_key [of "rm_mp_prev st"]
    by (auto simp: rm_invar_def k_def)
  have ids: "set ids = set (rm_pending st)" "length ids \<le> length (rm_pending st)"
    using unique_ids [of "rm_pending st"] by (simp_all add: ids_def)
  then have "ids \<noteq> []" using False by auto
  have p: "pending_row st = [row_enc k (rm_pending st)]" using False by (simp add: pending_row_def k_def)
  have flush: "flush_pending st = (push_row st (row_enc k ids))\<lparr>rm_pending := []\<rparr>"
    using False k(2) by (simp add: flush_pending_def Let_def foldl_marshal_uint64 row_enc_def ids_def)
  have "holds (rm_dst_data (push_row st (row_enc k ids))) (rm_dst_items (push_row st (row_enc k ids))) (outs @ [row_enc k ids])"
    using inv p ids(2) len by (intro push_row_holds) (simp_all add: rm_invar_def)
  then have "rm_invar ns seen (outs @ [row_enc k ids]) (flush_pending st)"
    using inv p ids \<open>ids \<noteq> []\<close> k(1) by (auto simp: rm_invar_def flush pending_row_def postings_row_enc row_ok_enc)
  then show thesis by (rule that)
qed

lemma push_invar:
  assumes inv: "rm_invar ns seen outs st" and pending: "rm_pending st = []"
    and row: "row_ok ns row" "length (concat (seen @ [row])) < 2 ^ 32"
  shows "rm_invar ns (seen @ [row]) (outs @ [row]) (push_row st row)"
proof -
  have "holds (rm_dst_data (push_row st row)) (rm_dst_items (push_row st row)) (outs @ [row])"
    using inv pending row(2) by (intro push_row_holds) (simp_all add: rm_invar_def pending_row_def)
  with inv pending row(1) show ?thesis
    by (cases seen) (auto simp: rm_invar_def pending_row_def)
qed

lemma extend_invar:
  assumes inv: "rm_invar ns seen outs st" and seen: "seen \<noteq> []"
    and key: "rm_pending st = [] \<or> rp_key (rm_mp_prev st) = rp_key mp" "rp_ns_prefix mp = ns"
    and ids: "ids \<noteq> []" "ns_of (rp_key mp) = ns"
  shows "rm_invar ns (seen @ [row_enc (rp_key mp) ids]) outs
    (st\<lparr>rm_pending := rm_pending st @ ids, rm_mp := x, rm_mp_prev := mp\<rparr>)"
  using assms by (auto simp: rm_invar_def pending_row_def postings_row_enc split: if_splits)

text \<open>One row, and all rows, keep the invariant.\<close>

lemma merge_row_invar:
  assumes ns: "ns \<in> {NS_PREFIX_TAG_TO_METRIC_IDS, NS_PREFIX_DATE_TAG_TO_METRIC_IDS}"
    and inv: "rm_invar ns seen outs st" and row: "row_ok ns row" and len: "length (concat (seen @ [row])) < 2 ^ 32"
    and first: "seen = [] \<Longrightarrow> at_end"
  shows "\<exists>st' outs'. merge_row ns at_end row st = Some st' \<and> rm_invar ns (seen @ [row]) outs' st'
    \<and> (at_end \<longrightarrow> rm_pending st' = [] \<and> last outs' = row)"
proof -
  have len': "length (concat seen) < 2 ^ 32" using len by simp
  have plain: ?thesis if "merge_row ns at_end row st = Some (push_row (flush_pending (st\<lparr>rm_mp := mp\<rparr>)) row)" for mp
  proof -
    obtain o2 where "rm_invar ns seen o2 (flush_pending (st\<lparr>rm_mp := mp\<rparr>))"
      using flush_invar [OF ns _ len', of outs "st\<lparr>rm_mp := mp\<rparr>"] inv by auto
    from push_invar [OF this _ row len] that show ?thesis by fastforce
  qed
  show ?thesis
  proof (cases "starts_with ns row \<and> \<not> at_end")
    case False
    then have "merge_row ns at_end row st = Some (push_row (flush_pending st) row)"
      by (auto simp: merge_row_def starts_with_def)
    then show ?thesis using plain [of "rm_mp st"] by simp
  next
    case True
    then obtain k ids where k: "ns_of k = ns" "ids \<noteq> []" "row = row_enc k ids" using row by (auto simp: row_ok_def)
    obtain mp where mp: "rp_init (rm_mp st) row ns = Inr mp" "rp_key mp = k" "rp_ns_prefix mp = ns"
      "rp_tail mp = concat (map to_be_bytes ids)" "\<not> rp_metric_ids_parsed mp"
      using rp_init_row [OF k(2), of "rm_mp st" k] k by metis
    show ?thesis
    proof (cases "metric_ids_len mp \<ge> MAX_METRIC_IDS_PER_ROW")
      case big: True
      then show ?thesis using True mp(1) plain [of mp] by (simp add: merge_row_def starts_with_def Let_def)
    next
      case small: False
      define s1 where "s1 = (if \<not> equal_prefix mp (rm_mp_prev st) then flush_pending (st\<lparr>rm_mp := mp\<rparr>) else st\<lparr>rm_mp := mp\<rparr>)"
      define mp' where "mp' = parse_metric_ids mp"
      define s2 where "s2 = s1\<lparr>rm_pending := rm_pending s1 @ rp_metric_ids mp', rm_mp := rm_mp_prev s1, rm_mp_prev := mp'\<rparr>"
      have p: "rp_metric_ids mp' = ids" "rp_key mp' = k" "rp_ns_prefix mp' = ns"
        using parse_metric_ids_fields [OF mp(5)] mp(2,3,4) by (simp_all add: mp'_def parse_ids_loop_ids)
      have inv': "rm_invar ns seen outs (st\<lparr>rm_mp := mp\<rparr>)" using inv by simp
      obtain o0 where "rm_invar ns seen o0 (flush_pending (st\<lparr>rm_mp := mp\<rparr>))"
        by (rule flush_invar [OF ns inv' len'])
      then obtain o1 where o1: "rm_invar ns seen o1 s1" using inv' by (metis s1_def)
      have "rm_pending s1 = [] \<or> rp_key (rm_mp_prev s1) = rp_key mp'"
        using p(2) mp(2) by (auto simp: s1_def dest: equal_prefix_key)
      then have o2: "rm_invar ns (seen @ [row]) o1 s2"
        using extend_invar [OF o1, of mp' ids "rm_mp_prev s1"] True first k p by (auto simp: s2_def)
      have "merge_row ns at_end row st = Some (if length (rm_pending s2) \<ge> MAX_METRIC_IDS_PER_ROW then flush_pending s2 else s2)"
        using True small mp(1) by (simp add: merge_row_def starts_with_def Let_def s1_def s2_def mp'_def)
      then show ?thesis
        using True o2 flush_invar [OF ns o2 len] by (metis (full_types))
    qed
  qed
qed

lemma merge_rows_invar:
  assumes ns: "ns \<in> {NS_PREFIX_TAG_TO_METRIC_IDS, NS_PREFIX_DATE_TAG_TO_METRIC_IDS}"
    and "rm_invar ns seen outs st" "list_all (row_ok ns) (map (\<lambda>it. item_bytes it data) its)"
    and "length (concat (seen @ map (\<lambda>it. item_bytes it data) its)) < 2 ^ 32" "i + length its = n" "its \<noteq> []" "length seen = i"
  shows "\<exists>st' outs'. merge_rows ns data n i its st = Some st'
    \<and> rm_invar ns (seen @ map (\<lambda>it. item_bytes it data) its) outs' st'
    \<and> rm_pending st' = [] \<and> last outs' = item_bytes (last its) data"
  using assms(2-)
proof (induction its arbitrary: seen outs st i)
  case (Cons it its)
  let ?row = "item_bytes it data"
  obtain st1 o1 where st1: "merge_row ns (i = 0 \<or> i = n - 1) ?row st = Some st1" "rm_invar ns (seen @ [?row]) o1 st1"
    "i = 0 \<or> i = n - 1 \<Longrightarrow> rm_pending st1 = [] \<and> last o1 = ?row"
    using merge_row_invar [OF ns Cons.prems(1), of ?row "i = 0 \<or> i = n - 1"] Cons.prems by auto
  show ?case
  proof (cases "its = []")
    case True
    then show ?thesis using st1 Cons.prems by auto
  next
    case False
    then show ?thesis using Cons.IH [OF st1(2), of "i + 1"] st1(1) Cons.prems by simp
  qed
qed simp

section \<open>Merging a block\<close>

lemma holds_strs: "holds data its rows \<Longrightarrow> map (\<lambda>it. item_bytes it data) its = rows"
  unfolding holds_def by blast

lemma items_sorted_loop_iff: "items_sorted_loop data p its = sorted (p # map (\<lambda>it. item_bytes it data) its)"
  by (induction its arbitrary: p) (auto simp: Let_def not_less)

lemma check_items_sorted_iff: "check_items_sorted data its = sorted (map (\<lambda>it. item_bytes it data) its)"
  by (cases its) (simp_all add: check_items_sorted_def items_sorted_loop_iff del: sorted_simps(2))

lemma pass_correct:
  assumes ns: "ns \<in> {NS_PREFIX_TAG_TO_METRIC_IDS, NS_PREFIX_DATE_TAG_TO_METRIC_IDS}"
    and b: "ib_invar b" "sorted (ib_strings b)" "list_all (row_ok ns) (ib_strings b)"
  shows "\<exists>b'. merge_tag_to_metric_ids_rows_internal (ib_data b) (ib_items b) ns = Some (ib_data b', ib_items b')
    \<and> common_prefix b' = common_prefix b \<and> ib_invar b' \<and> pass_ok ns (ib_strings b) (ib_strings b')"
proof -
  let ?data = "ib_data b" and ?its = "ib_items b" and ?rows = "ib_strings b"
  have keep: ?thesis if "merge_tag_to_metric_ids_rows_internal ?data ?its ns = Some (?data, ?its)"
    using that b by (intro exI [of _ b]) (auto simp: pass_ok_def)
  have strs: "map (\<lambda>it. item_bytes it ?data) ?its = ?rows" by (simp add: ib_strings_def)
  have len: "length (concat ?rows) < 2 ^ 32" using b(1) ib_data_length [OF b(1)] by (simp add: ib_invar_def)
  let ?st = "\<lparr>rm_mp = rp_default, rm_mp_prev = rp_default, rm_pending = [], rm_dst_data = [], rm_dst_items = []\<rparr>"
  let ?first = "item_bytes (?its ! 0) ?data" and ?last = "item_bytes (?its ! (length ?its - 1)) ?data"
  show ?thesis
  proof (cases "length ?its \<le> 2 \<or> (?first \<noteq> [] \<and> ?first ! 0 > ns) \<or> (?last \<noteq> [] \<and> ?last ! 0 < ns)")
    case True
    then show ?thesis by (intro keep) (auto simp: merge_tag_to_metric_ids_rows_internal_def Let_def)
  next
    case False
    then have "?its \<noteq> []" by auto
    have "rm_invar ns [] [] ?st" by (simp add: rm_invar_def pending_row_def holds_def)
    from merge_rows_invar [OF ns this, of ?data ?its 0 "length ?its"] b(3) len strs \<open>?its \<noteq> []\<close>
    obtain st outs where st: "merge_rows ns ?data (length ?its) 0 ?its ?st = Some st" "rm_invar ns ?rows outs st"
      "rm_pending st = []" "last outs = item_bytes (last ?its) ?data"
      by auto
    have out: "holds (rm_dst_data st) (rm_dst_items st) outs" "length (concat outs) < 2 ^ 32"
      using st(2) len by (simp_all add: rm_invar_def)
    have last: "last outs = last ?rows" using st(4) \<open>?its \<noteq> []\<close> strs by (metis last_map)
    have sorted: "check_items_sorted ?data ?its" "check_items_sorted (rm_dst_data st) (rm_dst_items st) = sorted outs"
      using b(2) by (simp_all only: check_items_sorted_iff strs holds_strs [OF out(1)])
    have result: "merge_tag_to_metric_ids_rows_internal ?data ?its ns
      = Some (if sorted outs then (rm_dst_data st, rm_dst_items st) else (?data, ?its))"
      using False st(1,3) sorted by (auto simp: merge_tag_to_metric_ids_rows_internal_def Let_def)
    show ?thesis
    proof (cases "sorted outs")
      case True
      then have "pass_ok ns ?rows outs"
        using st(2,3) last by (simp add: pass_ok_def rm_invar_def pending_row_def)
      then show ?thesis using result True holds_block [OF out, of b]
        by (intro exI [of _ "b\<lparr>ib_data := rm_dst_data st, ib_items := rm_dst_items st\<rparr>"]) simp
    qed (use result keep in simp)
  qed
qed

text \<open>Rows of another kind stay well formed, and two passes keep the rows of neither kind.\<close>

lemma row_ok_other:
  assumes "pass_ok ns rows rows'" "list_all (row_ok ns') rows" "ns \<noteq> ns'"
  shows "list_all (row_ok ns') rows'"
proof -
  have "r \<in> set rows" if "r \<in> set rows'" "starts_with ns' r" for r
  proof -
    have "\<not> starts_with ns r" using that(2) assms(3) by (auto simp: starts_with_def)
    with that(1) have "r \<in> set (filter (\<lambda>r. \<not> starts_with ns r) rows')" by simp
    also have "\<dots> = set (filter (\<lambda>r. \<not> starts_with ns r) rows)" using assms(1) by (simp only: pass_ok_def)
    finally show ?thesis by simp
  qed
  with assms(2) show ?thesis by (fastforce simp: list_all_iff row_ok_def)
qed

lemma filter_both:
  assumes "filter (\<lambda>r. \<not> starts_with a r) xs' = filter (\<lambda>r. \<not> starts_with a r) xs"
    and "filter (\<lambda>r. \<not> starts_with b r) xs'' = filter (\<lambda>r. \<not> starts_with b r) xs'"
  shows "filter (\<lambda>r. \<not> starts_with a r \<and> \<not> starts_with b r) xs'' = filter (\<lambda>r. \<not> starts_with a r \<and> \<not> starts_with b r) xs"
proof -
  have "filter (\<lambda>r. \<not> starts_with a r \<and> \<not> starts_with b r) ys
      = filter (\<lambda>r. \<not> starts_with b r) (filter (\<lambda>r. \<not> starts_with a r) ys)" for ys
    by simp
  moreover have "filter (\<lambda>r. \<not> starts_with a r \<and> \<not> starts_with b r) ys
      = filter (\<lambda>r. \<not> starts_with a r) (filter (\<lambda>r. \<not> starts_with b r) ys)" for ys
    by (simp add: conj_commute)
  ultimately show ?thesis using assms by metis
qed

lemma pass_no_empty: "pass_ok ns rows rows' \<Longrightarrow> [] \<notin> set rows \<Longrightarrow> [] \<notin> set rows'"
proof
  assume p: "pass_ok ns rows rows'" "[] \<notin> set rows" "[] \<in> set rows'"
  then have "[] \<in> set (filter (\<lambda>r. \<not> starts_with ns r) rows')" by (simp add: starts_with_def)
  also have "\<dots> = set (filter (\<lambda>r. \<not> starts_with ns r) rows)" using p(1) by (simp only: pass_ok_def)
  finally show False using p(2) by simp
qed

lemma merge_rows_block:
  assumes b: "block_ok b" and rows: "list_all index_row_ok (ib_strings b)"
  shows "\<exists>b'. prepared (Some merge_tag_to_metric_ids_rows) b = Some b' \<and> block_ok b'
    \<and> becomes same_postings (ib_strings b) (ib_strings b')"
proof -
  let ?t = NS_PREFIX_TAG_TO_METRIC_IDS and ?d = NS_PREFIX_DATE_TAG_TO_METRIC_IDS
  have ok: "list_all (row_ok ?t) (ib_strings b)" "list_all (row_ok ?d) (ib_strings b)"
    using rows by (simp_all add: list_all_iff index_row_ok_def)
  have inv: "ib_invar b" "sorted (ib_strings b)" "ib_strings b \<noteq> []" using b by (simp_all add: block_ok_def ib_strings_def)
  obtain b1 where p1: "merge_tag_to_metric_ids_rows_internal (ib_data b) (ib_items b) ?t = Some (ib_data b1, ib_items b1)"
    "common_prefix b1 = common_prefix b" "ib_invar b1" "pass_ok ?t (ib_strings b) (ib_strings b1)"
    using pass_correct [OF _ inv(1,2) ok(1)] by auto
  have s1: "sorted (ib_strings b1)" "list_all (row_ok ?t) (ib_strings b1)" using p1(4) by (simp_all add: pass_ok_def)
  have ok1: "list_all (row_ok ?d) (ib_strings b1)" by (rule row_ok_other [OF p1(4) ok(2)]) simp
  obtain b2 where p2: "merge_tag_to_metric_ids_rows_internal (ib_data b1) (ib_items b1) ?d = Some (ib_data b2, ib_items b2)"
    "common_prefix b2 = common_prefix b1" "ib_invar b2" "pass_ok ?d (ib_strings b1) (ib_strings b2)"
    using pass_correct [OF _ p1(3) s1(1) ok1] by auto
  have ok2: "list_all index_row_ok (ib_strings b2)"
    using row_ok_other [OF p2(4) s1(2)] p2(4) by (simp add: index_row_ok_def pass_ok_def list_all_iff)
  have "b\<lparr>ib_data := ib_data b2, ib_items := ib_items b2\<rparr> = b2" using p1(2) p2(2) by simp
  then have "prepared (Some merge_tag_to_metric_ids_rows) b = Some b2"
    using p1(1) p2(1) by (simp add: prepared_def merge_tag_to_metric_ids_rows_def)
  moreover have k: "becomes same_postings (ib_strings b) (ib_strings b2)"
    using p1(4) p2(4) inv(3) ok2 filter_both [of ?t "ib_strings b1" "ib_strings b" ?d "ib_strings b2"]
    by (auto simp: becomes_def same_postings_def pass_ok_def other_row_def [abs_def])
  moreover have "block_ok b2"
  proof -
    have "[] \<notin> set (ib_strings b2)" using pass_no_empty p1(4) p2(4) b by (simp add: block_ok_def)
    moreover have "length (ib_data b2) \<le> length (ib_data b)"
      using p1(4) p2(4) ib_data_length inv(1) p2(3) by (simp add: pass_ok_def)
    ultimately show ?thesis using b k p2(3) by (auto simp: block_ok_def becomes_def ib_strings_def)
  qed
  ultimately show ?thesis by blast
qed

interpretation index_merge: block_callback "Some merge_tag_to_metric_ids_rows" index_row_ok same_postings
  by unfold_locales (intro merge_rows_block, simp_all add: list_all_iff)

section \<open>Properties\<close>

text \<open>
  C13: joining the postings of a block loses nothing. For a sorted block of well-formed rows the callback
  of the index does not panic; the block it leaves is a valid block again (sorted, not larger, of
  well-formed rows), starts and ends with the same rows, has the rows of other kinds unchanged and in
  order, and maps exactly the same tags to exactly the same metric ids.\<close>

theorem merge_tag_to_metric_ids_rows_correct:
  assumes "block_ok b" "list_all index_row_ok (ib_strings b)"
  shows "\<exists>b'. merge_tag_to_metric_ids_rows (ib_data b) (ib_items b) = Some (ib_data b', ib_items b')
    \<and> block_ok b' \<and> list_all index_row_ok (ib_strings b')
    \<and> rows_postings (ib_strings b') = rows_postings (ib_strings b)
    \<and> filter other_row (ib_strings b') = filter other_row (ib_strings b)
    \<and> hd (ib_strings b') = hd (ib_strings b) \<and> last (ib_strings b') = last (ib_strings b)
    \<and> length (ib_items b') \<le> length (ib_items b)"
proof -
  obtain b' where b': "prepared (Some merge_tag_to_metric_ids_rows) b = Some b'" "block_ok b'"
    "becomes same_postings (ib_strings b) (ib_strings b')" using merge_rows_block [OF assms] by blast
  have "merge_tag_to_metric_ids_rows (ib_data b) (ib_items b) = Some (ib_data b', ib_items b')"
    using b'(1) by (auto simp: prepared_def)
  with b' show ?thesis by (intro exI [of _ b']) (auto simp: becomes_def same_postings_def ib_strings_def)
qed

lemma items_at_append: "items_at start (xs @ ys) = items_at start xs @ items_at (start + length (concat xs)) ys"
  by (induction xs arbitrary: start) (simp_all add: add.assoc)

lemma holds_items_at: "length (concat rows) < 2 ^ 32 \<Longrightarrow> holds (concat rows) (items_at 0 rows) rows"
proof (induction rows rule: rev_induct)
  case (snoc r rows)
  then have "holds (concat rows) (items_at 0 rows) rows" by simp
  from holds_push [OF this _ refl, of r] snoc.prems show ?case by (simp add: items_at_append)
qed (simp add: holds_def)

lemma block_of_rows_ok:
  assumes "sorted rows" "[] \<notin> set rows" "rows \<noteq> []" "length (concat rows) \<le> MAX_INMEMORY_BLOCK_SIZE"
  shows "block_ok (block_of_rows rows)" "ib_strings (block_of_rows rows) = rows"
proof -
  have l: "length (concat rows) < 2 ^ 32" using assms(4) by (simp add: MAX_INMEMORY_BLOCK_SIZE_def)
  from holds_block [OF holds_items_at [OF l] l, of "block_of_rows rows"]
  show "ib_strings (block_of_rows rows) = rows" "block_ok (block_of_rows rows)"
    using assms by (auto simp: block_ok_def block_of_rows_def ib_strings_def)
qed

lemma sample_rows_ok: "list_all index_row_ok (sample_rows ids)"
  by (simp add: sample_rows_def list_all_iff index_row_ok_def row_ok_enc)

lemma sample_row_length: "length (row_enc (TagRow \<lparr>tag_key = [97], tag_value = [98]\<rparr>) [i]) = 13"
  by (simp add: tag_marshal_def marshal_tag_value_def sep_defs)

lemma sample_block:
  "block_ok (block_of_rows (sample_rows [1, 2, 3, 4]))"
  "ib_strings (block_of_rows (sample_rows [1, 2, 3, 4])) = sample_rows [1, 2, 3, 4]"
proof -
  have "sorted (sample_rows [1, 2, 3, 4])" by code_simp
  moreover have "length (concat (sample_rows [1, 2, 3, 4])) \<le> MAX_INMEMORY_BLOCK_SIZE"
    using sample_row_length by (simp add: sample_rows_def MAX_INMEMORY_BLOCK_SIZE_def del: length_row_enc)
  moreover have "[] \<notin> set (sample_rows [1, 2, 3, 4])" "sample_rows [1, 2, 3, 4] \<noteq> []"
    by (simp_all add: sample_rows_def row_enc_def)
  ultimately show "block_ok (block_of_rows (sample_rows [1, 2, 3, 4]))"
    "ib_strings (block_of_rows (sample_rows [1, 2, 3, 4])) = sample_rows [1, 2, 3, 4]"
    using block_of_rows_ok by blast+
qed

theorem merge_tag_to_metric_ids_rows_witness:
  "let b = block_of_rows (sample_rows [1, 2, 3, 4]) in
   \<exists>b'. merge_tag_to_metric_ids_rows (ib_data b) (ib_items b) = Some (ib_data b', ib_items b')
     \<and> block_ok b' \<and> rows_postings (ib_strings b') = rows_postings (ib_strings b) \<and> length (ib_items b') = 3"
proof -
  let ?b = "block_of_rows (sample_rows [1, 2, 3, 4])"
  have ok: "list_all index_row_ok (ib_strings ?b)" using sample_rows_ok by (simp only: sample_block(2))
  have "map_option (\<lambda>(data, its). length its) (merge_tag_to_metric_ids_rows (ib_data ?b) (ib_items ?b)) = Some 3"
    by code_simp
  then show ?thesis using merge_tag_to_metric_ids_rows_correct [OF sample_block(1) ok] unfolding Let_def by force
qed

text \<open>
  C3: merging parts of the index with its callback ends and loses nothing. The part that is written is
  read back sorted, has exactly the postings of all inputs, and the rows of other kinds of all inputs,
  each as often as before; it has no more rows than the inputs.\<close>

theorem index_merge_correct:
  assumes "zstd_ok Z" "zstd_bounded Z" "sources_ok index_row_ok Z rs bss"
    "concat (map concat bss) \<noteq> []" "length (concat (map concat bss)) < 2 ^ 40" "\<And>k. \<not> stop k"
    "sum_list (map (\<lambda>bs. length (concat bs) + length bs) bss) < fuel"
  shows "\<exists>m bufs r blocks. merge_block_streams Z fuel ph_default (bsw_new_inmemory_part level) rs
        (Some merge_tag_to_metric_ids_rows) stop n = Some (m, Inr bufs)
    \<and> bsr_from_inmemory_part Z (mp_from_buffers (m_ph m) bufs) = Some r
    \<and> read_blocks Z (length blocks + 1) r = Some blocks \<and> sorted (concat blocks)
    \<and> rows_postings (concat blocks) = rows_postings (concat (map concat bss))
    \<and> filter other_row (concat blocks) = sort (filter other_row (concat (map concat bss)))
    \<and> length (concat blocks) \<le> length (concat (map concat bss))"
proof -
  let ?xs = "concat (map concat bss)"
  obtain m bufs r blocks groups where m: "merge_block_streams Z fuel ph_default (bsw_new_inmemory_part level) rs
        (Some merge_tag_to_metric_ids_rows) stop n = Some (m, Inr bufs)"
    "bsr_from_inmemory_part Z (mp_from_buffers (m_ph m) bufs) = Some r"
    "read_blocks Z (length blocks + 1) r = Some blocks" "concat groups = sort ?xs"
    "list_all2 (becomes same_postings) groups blocks"
    using index_merge.merge_correct [where stop = stop, OF assms(1-3) refl assms(4-7)] by blast
  note k = becomes_lists [OF m(5)]
  have "rows_postings (concat blocks) = rows_postings (concat groups)
    \<and> filter other_row (concat blocks) = filter other_row (concat groups)"
    using m(5) by (induction rule: list_all2_induct) (auto simp: becomes_def same_postings_def)
  moreover have "rows_postings (sort ?xs) = rows_postings ?xs" by (simp add: rows_postings_def)
  moreover have "filter other_row (sort ?xs) = sort (filter other_row ?xs)" by (simp add: filter_sort)
  ultimately show ?thesis using m k(2,5) by (metis length_sort sorted_sort)
qed

lemma index_sources:
  "sources_ok index_row_ok stored_zstd [bsr_from_inmemory_block (block_of_rows (sample_rows [1, 2, 3, 4])),
      bsr_from_inmemory_block (block_of_rows (sample_rows [1, 2, 3, 4]))]
    [[sample_rows [1, 2, 3, 4]], [sample_rows [1, 2, 3, 4]]]"
proof -
  let ?b = "block_of_rows (sample_rows [1, 2, 3, 4])"
  have s: "sorted (sample_rows [1, 2, 3, 4])" using sample_block by (metis block_ok_def)
  have "fresh stored_zstd (bsr_from_inmemory_block ?b) [sort (ib_strings ?b)]"
    using sample_block(1) by (intro fresh_from_block) (simp_all add: block_ok_def)
  then have "fresh stored_zstd (bsr_from_inmemory_block ?b) [sample_rows [1, 2, 3, 4]]"
    using s by (simp add: sample_block(2) sorted_sort_id)
  moreover have "list_all (good_item index_row_ok) (sample_rows [1, 2, 3, 4])"
    using sample_rows_ok [of "[1, 2, 3, 4]"] sample_row_length
    by (simp add: sample_rows_def good_item_def MAX_INMEMORY_BLOCK_SIZE_def del: length_row_enc)
      (simp add: row_enc_def)
  ultimately show ?thesis using s by (simp add: sources_ok_def list_all_iff)
qed

theorem index_merge_correct_witness:
  "\<exists>m bufs r blocks. merge_block_streams stored_zstd 99 ph_default (bsw_new_inmemory_part 1)
        [bsr_from_inmemory_block (block_of_rows (sample_rows [1, 2, 3, 4])),
         bsr_from_inmemory_block (block_of_rows (sample_rows [1, 2, 3, 4]))]
        (Some merge_tag_to_metric_ids_rows) (\<lambda>_. False) 0 = Some (m, Inr bufs)
    \<and> bsr_from_inmemory_part stored_zstd (mp_from_buffers (m_ph m) bufs) = Some r
    \<and> read_blocks stored_zstd (length blocks + 1) r = Some blocks
    \<and> rows_postings (concat blocks) = rows_postings (sample_rows [1, 2, 3, 4])"
proof -
  let ?r = "sample_rows [1, 2, 3, 4]" and ?bss = "[[sample_rows [1, 2, 3, 4]], [sample_rows [1, 2, 3, 4]]]"
  have c: "concat (map concat ?bss) = ?r @ ?r" "length ?r = 4" "?r \<noteq> []" by (simp_all add: sample_rows_def)
  have h: "concat (map concat ?bss) \<noteq> []" "length (concat (map concat ?bss)) < 2 ^ 40"
    "sum_list (map (\<lambda>bs. length (concat bs) + length bs) ?bss) < 99" unfolding c(1) using c(2,3) by simp_all
  from index_merge_correct [OF stored_zstd_ok stored_zstd_bounded index_sources h(1,2) _ h(3), of "\<lambda>_. False" 1 0]
  show ?thesis unfolding c(1) by (simp only: rows_postings_append Un_absorb) blast
qed

text \<open>
  A parser initialised with a row counts exactly the metric ids of the row that are in the filter,
  when there is one, and not in the negative filter, on the fast path as well as on the slow one.\<close>

theorem get_matching_series_count_correct:
  assumes "rp_init mp (row_enc k ids) (ns_of k) = Inr mp'" "ids \<noteq> []"
    and "\<And>f. filter_set = Some f \<Longrightarrow> uset_invar f" "uset_invar negative_filter"
  shows "snd (get_matching_series_count mp' filter_set negative_filter)
    = length (filter (\<lambda>i. (case filter_set of Some f \<Rightarrow> i \<in> uset_set f | None \<Rightarrow> True) \<and> i \<notin> uset_set negative_filter) ids)"
proof -
  obtain p where "rp_init mp (row_enc k ids) (ns_of k) = Inr p" "rp_tail p = concat (map to_be_bytes ids)" "\<not> rp_metric_ids_parsed p"
    using rp_init_row [OF assms(2), of mp k] by metis
  then have mp': "rp_tail mp' = concat (map to_be_bytes ids)" "\<not> rp_metric_ids_parsed mp'" using assms(1) by simp_all
  show ?thesis
  proof (cases "filter_set = None \<and> uset_is_empty negative_filter")
    case True
    then show ?thesis
      using mp'(1) uset_is_empty_iff [OF assms(4)] by (simp add: get_matching_series_count_def metric_ids_len_def)
  next
    case False
    let ?in = "\<lambda>i. (case filter_set of Some f \<Rightarrow> i \<in> uset_set f | None \<Rightarrow> True) \<and> i \<notin> uset_set negative_filter"
    have step: "(\<lambda>n mid. if (case filter_set of Some f \<Rightarrow> \<not> uset_has f mid | None \<Rightarrow> False) then n
              else if \<not> uset_has negative_filter mid then n + 1 else n) = (\<lambda>n mid. if ?in mid then n + 1 else n)"
      using assms(3) uset_has_iff [OF assms(4)] by (intro ext) (auto simp: uset_has_iff split: option.splits)
    have count: "foldl (\<lambda>n i. if P i then n + 1 else n) n is = n + length (filter P is)" for P n and "is" :: "u64 list"
      by (induction "is" arbitrary: n) simp_all
    show ?thesis
      using mp' parse_metric_ids_fields(1) [OF mp'(2)]
      unfolding get_matching_series_count_def Let_def step if_not_P [OF False] by (simp add: count parse_ids_loop_ids)
  qed
qed

theorem get_matching_series_count_witness:
  "\<exists>mp. rp_init rp_default (row_enc (DateTagRow 5 \<lparr>tag_key = [97], tag_value = [98]\<rparr>) [3, 7]) NS_PREFIX_DATE_TAG_TO_METRIC_IDS = Inr mp
    \<and> snd (get_matching_series_count mp None (uset_add uset_default 7)) = 1"
proof -
  let ?k = "DateTagRow 5 \<lparr>tag_key = [97], tag_value = [98]\<rparr>" and ?n = "uset_add uset_default 7"
  have n: "uset_invar ?n" "uset_set ?n = {7}" using uset_add_correct [of uset_default 7] by simp_all
  obtain mp where mp: "rp_init rp_default (row_enc ?k [3, 7]) (ns_of ?k) = Inr mp"
    using rp_init_row [of "[3, 7]" rp_default ?k] by blast
  then show ?thesis
    using get_matching_series_count_correct [OF mp, of None ?n] n by simp
qed

end
