(* ===== verification/Index_Items.thy ===== *)
theory Index_Items
  imports Row_Merge
begin

text \<open>
  The entries of the index (\<open>crates/esm-storage/src/index/mod.rs\<close>, \<open>create.rs\<close>): what is added to the
  mergeset table when a series is registered, globally and for a day.

  The hash function \<open>xxh64\<close> of the \<open>xxhash_rust\<close> package is an argument. The clock that seeds the counter
  of metric ids, the caches that are told of a new series and the table itself are not modelled: an
  operation returns the items it adds, or \<open>None\<close> when it panics.
\<close>

section \<open>Keys\<close>

definition NS_PREFIX_METRIC_NAME_TO_TSID :: u8 where "NS_PREFIX_METRIC_NAME_TO_TSID = 0"
definition NS_PREFIX_METRIC_ID_TO_TSID :: u8 where "NS_PREFIX_METRIC_ID_TO_TSID = 2"
definition NS_PREFIX_METRIC_ID_TO_METRIC_NAME :: u8 where "NS_PREFIX_METRIC_ID_TO_METRIC_NAME = 3"
definition NS_PREFIX_DELETED_METRIC_ID :: u8 where "NS_PREFIX_DELETED_METRIC_ID = 4"
definition NS_PREFIX_DATE_TO_METRIC_ID :: u8 where "NS_PREFIX_DATE_TO_METRIC_ID = 5"
definition NS_PREFIX_DATE_METRIC_NAME_TO_TSID :: u8 where "NS_PREFIX_DATE_METRIC_NAME_TO_TSID = 7"
definition COMPOSITE_TAG_KEY_PREFIX :: u8 where "COMPOSITE_TAG_KEY_PREFIX = 0xfe"
definition GRAPHITE_REVERSE_TAG_KEY :: bytes where "GRAPHITE_REVERSE_TAG_KEY = [0xff]"

definition marshal_composite_tag_key :: "bytes \<Rightarrow> bytes \<Rightarrow> bytes \<Rightarrow> bytes" where
  "marshal_composite_tag_key dst name key =
    marshal_var_uint64 (dst @ [COMPOSITE_TAG_KEY_PREFIX]) (of_nat (length name)) @ name @ key"

datatype composite_err =
    EmptyCompositeKey
  | MissingCompositePrefix bytes
  | CannotUnmarshalNameLength
  | MissingMetricName u64 bytes

definition unmarshal_composite_tag_key :: "bytes \<Rightarrow> (composite_err, bytes \<times> bytes) res" where
  "unmarshal_composite_tag_key src =
    (if src = [] then Inl (Err EmptyCompositeKey)
     else if src ! 0 \<noteq> COMPOSITE_TAG_KEY_PREFIX then Inl (Err (MissingCompositePrefix src))
     else
       let src = drop 1 src in
       rbind (ok_or CannotUnmarshalNameLength (unmarshal_var_uint64 src)) (\<lambda>(n, n_size).
       let src = drop n_size src in
       if of_nat (length src) < n then Inl (Err (MissingMetricName n src))
       else Inr (take (unat n) src, drop (unat n) src)))"

definition is_artificial_tag_key :: "bytes \<Rightarrow> bool" where
  "is_artificial_tag_key key \<longleftrightarrow>
    key = GRAPHITE_REVERSE_TAG_KEY \<or> (key \<noteq> [] \<and> key ! 0 = COMPOSITE_TAG_KEY_PREFIX)"

definition reverse_bytes :: "bytes \<Rightarrow> bytes \<Rightarrow> bytes" where
  "reverse_bytes dst src = dst @ rev src"

section \<open>New series\<close>

text \<open>\<open>fetch_add(1) + 1\<close> on the counter.\<close>

definition generate_unique_metric_id :: "u64 \<Rightarrow> u64 \<times> u64" where
  "generate_unique_metric_id next_unique_metric_id = (next_unique_metric_id + 1, next_unique_metric_id + 1)"

definition generate_tsid :: "(bytes \<Rightarrow> u64 \<Rightarrow> u64) \<Rightarrow> Tsid \<Rightarrow> MetricName \<Rightarrow> u64 \<Rightarrow> Tsid \<times> u64" where
  "generate_tsid xxh64 dst mn next_unique_metric_id =
    (let group = xxh64 (metric_group mn) 0;
         job = (if mn_tags mn \<noteq> [] then ucast (xxh64 (tag_value (mn_tags mn ! 0)) 0) else job_id dst);
         inst = (if length (mn_tags mn) > 1 then ucast (xxh64 (tag_value (mn_tags mn ! 1)) 0) else instance_id dst)
     in case generate_unique_metric_id next_unique_metric_id of (n, mid) \<Rightarrow> (Tsid group job inst mid, n))"

section \<open>Batches of items\<close>

record IndexItems =
  ii_b :: bytes
  ii_offsets :: "(nat \<times> nat) list"
  ii_start :: nat

definition ii_default :: IndexItems where "ii_default = \<lparr>ii_b = [], ii_offsets = [], ii_start = 0\<rparr>"

definition ii_next :: "IndexItems \<Rightarrow> IndexItems" where
  "ii_next ii = ii\<lparr>ii_offsets := ii_offsets ii @ [(ii_start ii, length (ii_b ii))], ii_start := length (ii_b ii)\<rparr>"

text \<open>The items \<open>add_to\<close> passes to the table.\<close>

definition ii_items :: "IndexItems \<Rightarrow> bytes list" where
  "ii_items ii = map (\<lambda>(start, end). subslice (ii_b ii) start end) (ii_offsets ii)"

definition add_reverse_metric_group_if_needed :: "IndexItems \<Rightarrow> bytes \<Rightarrow> MetricName \<Rightarrow> u64 \<Rightarrow> IndexItems" where
  "add_reverse_metric_group_if_needed ii pre mn mid =
    (if (46 :: u8) \<notin> set (metric_group mn) then ii
     else
       let b = ii_b ii @ pre;
           b = marshal_tag_value b GRAPHITE_REVERSE_TAG_KEY;
           b = marshal_tag_value b (reverse_bytes [] (metric_group mn))
       in ii_next (ii\<lparr>ii_b := marshal_uint64 b mid\<rparr>))"

text \<open>The three kinds of rows \<open>register_tag_indexes\<close> writes.\<close>

definition add_group_row :: "bytes \<Rightarrow> MetricName \<Rightarrow> u64 \<Rightarrow> IndexItems \<Rightarrow> IndexItems" where
  "add_group_row pre mn mid ii =
    ii_next (ii\<lparr>ii_b := marshal_uint64 (marshal_tag_value (marshal_tag_value (ii_b ii @ pre) []) (metric_group mn)) mid\<rparr>)"

definition add_tag_row :: "bytes \<Rightarrow> u64 \<Rightarrow> IndexItems \<Rightarrow> Tag \<Rightarrow> IndexItems" where
  "add_tag_row pre mid ii t = ii_next (ii\<lparr>ii_b := marshal_uint64 (tag_marshal t (ii_b ii @ pre)) mid\<rparr>)"

definition add_composite_row :: "bytes \<Rightarrow> MetricName \<Rightarrow> u64 \<Rightarrow> IndexItems \<Rightarrow> Tag \<Rightarrow> IndexItems" where
  "add_composite_row pre mn mid ii t =
    (let composite_key = marshal_composite_tag_key [] (metric_group mn) (tag_key t) in
     ii_next (ii\<lparr>ii_b := marshal_uint64 (marshal_tag_value (marshal_tag_value (ii_b ii @ pre) composite_key) (tag_value t)) mid\<rparr>))"

definition register_tag_indexes :: "IndexItems \<Rightarrow> bytes \<Rightarrow> MetricName \<Rightarrow> u64 \<Rightarrow> IndexItems" where
  "register_tag_indexes ii pre mn mid =
    (let ii = add_group_row pre mn mid ii;
         ii = add_reverse_metric_group_if_needed ii pre mn mid;
         ii = foldl (add_tag_row pre mid) ii (mn_tags mn)
     in foldl (add_composite_row pre mn mid) ii (mn_tags mn))"

section \<open>Registering a series\<close>

record index_db =
  no_register_new_series :: bool
  disable_per_day_index :: bool

definition create_global_indexes :: "index_db \<Rightarrow> Tsid \<Rightarrow> MetricName \<Rightarrow> bytes list option" where
  "create_global_indexes db tsid mn =
    (if no_register_new_series db then None
     else
       let ii = ii_default;
           ii = (if disable_per_day_index db
                 then ii_next (ii\<lparr>ii_b := tsid_marshal tsid
                   (mn_marshal mn (marshal_common_prefix (ii_b ii) NS_PREFIX_METRIC_NAME_TO_TSID) @ [KV_SEPARATOR_CHAR])\<rparr>)
                 else ii);
           ii = ii_next (ii\<lparr>ii_b := mn_marshal mn
                  (marshal_uint64 (marshal_common_prefix (ii_b ii) NS_PREFIX_METRIC_ID_TO_METRIC_NAME) (metric_id tsid))\<rparr>);
           ii = ii_next (ii\<lparr>ii_b := tsid_marshal tsid
                  (marshal_uint64 (marshal_common_prefix (ii_b ii) NS_PREFIX_METRIC_ID_TO_TSID) (metric_id tsid))\<rparr>);
           pre = marshal_common_prefix [] NS_PREFIX_TAG_TO_METRIC_IDS
       in Some (ii_items (register_tag_indexes ii pre mn (metric_id tsid))))"

definition create_per_day_indexes :: "index_db \<Rightarrow> u64 \<Rightarrow> Tsid \<Rightarrow> MetricName \<Rightarrow> bytes list option" where
  "create_per_day_indexes db date tsid mn =
    (if no_register_new_series db then None
     else if disable_per_day_index db then Some []
     else
       let ii = ii_default;
           ii = ii_next (ii\<lparr>ii_b := marshal_uint64
                  (marshal_uint64 (marshal_common_prefix (ii_b ii) NS_PREFIX_DATE_TO_METRIC_ID) date) (metric_id tsid)\<rparr>);
           ii = ii_next (ii\<lparr>ii_b := tsid_marshal tsid
                  (mn_marshal mn (marshal_uint64 (marshal_common_prefix (ii_b ii) NS_PREFIX_DATE_METRIC_NAME_TO_TSID) date)
                     @ [KV_SEPARATOR_CHAR])\<rparr>);
           pre = marshal_uint64 (marshal_common_prefix [] NS_PREFIX_DATE_TAG_TO_METRIC_IDS) date
       in Some (ii_items (register_tag_indexes ii pre mn (metric_id tsid))))"

text \<open>The rows of deleted series, one for each metric id of the set.\<close>

definition deleted_rows :: "u64 list \<Rightarrow> bytes list" where
  "deleted_rows ids =
    ii_items (foldl (\<lambda>ii mid. ii_next (ii\<lparr>ii_b := marshal_uint64 (ii_b ii @ [NS_PREFIX_DELETED_METRIC_ID]) mid\<rparr>)) ii_default ids)"

section \<open>Specification\<close>

text \<open>The items as they are meant, without the shared buffer.\<close>

definition name_row :: "MetricName \<Rightarrow> Tsid \<Rightarrow> bytes" where
  "name_row mn t = NS_PREFIX_METRIC_NAME_TO_TSID # mn_marshal mn [] @ [KV_SEPARATOR_CHAR] @ tsid_enc t"

definition day_name_row :: "u64 \<Rightarrow> MetricName \<Rightarrow> Tsid \<Rightarrow> bytes" where
  "day_name_row d mn t = NS_PREFIX_DATE_METRIC_NAME_TO_TSID # to_be_bytes d @ mn_marshal mn [] @ [KV_SEPARATOR_CHAR] @ tsid_enc t"

definition id_name_row :: "u64 \<Rightarrow> MetricName \<Rightarrow> bytes" where
  "id_name_row m mn = NS_PREFIX_METRIC_ID_TO_METRIC_NAME # to_be_bytes m @ mn_marshal mn []"

definition id_tsid_row :: "Tsid \<Rightarrow> bytes" where
  "id_tsid_row t = NS_PREFIX_METRIC_ID_TO_TSID # to_be_bytes (metric_id t) @ tsid_enc t"

definition day_id_row :: "u64 \<Rightarrow> u64 \<Rightarrow> bytes" where
  "day_id_row d m = NS_PREFIX_DATE_TO_METRIC_ID # to_be_bytes d @ to_be_bytes m"

definition deleted_row :: "u64 \<Rightarrow> bytes" where
  "deleted_row m = NS_PREFIX_DELETED_METRIC_ID # to_be_bytes m"

text \<open>The tags under which a series is found: its name, the reversed name, its tags, and its tags together with its name.\<close>

definition composite_tag :: "MetricName \<Rightarrow> Tag \<Rightarrow> Tag" where
  "composite_tag mn t = \<lparr>tag_key = marshal_composite_tag_key [] (metric_group mn) (tag_key t), tag_value = tag_value t\<rparr>"

definition index_tags :: "MetricName \<Rightarrow> Tag list" where
  "index_tags mn = \<lparr>tag_key = [], tag_value = metric_group mn\<rparr>
     # (if (46 :: u8) \<in> set (metric_group mn) then [\<lparr>tag_key = GRAPHITE_REVERSE_TAG_KEY, tag_value = rev (metric_group mn)\<rparr>] else [])
     @ mn_tags mn @ map (composite_tag mn) (mn_tags mn)"

definition global_rows :: "bool \<Rightarrow> Tsid \<Rightarrow> MetricName \<Rightarrow> bytes list" where
  "global_rows without_days t mn = (if without_days then [name_row mn t] else []) @ [id_name_row (metric_id t) mn, id_tsid_row t]
     @ map (\<lambda>tag. row_enc (TagRow tag) [metric_id t]) (index_tags mn)"

definition day_rows :: "u64 \<Rightarrow> Tsid \<Rightarrow> MetricName \<Rightarrow> bytes list" where
  "day_rows d t mn = [day_id_row d (metric_id t), day_name_row d mn t]
     @ map (\<lambda>tag. row_enc (DateTagRow d tag) [metric_id t]) (index_tags mn)"

text \<open>A batch with the items \<open>rows\<close>, none open.\<close>

definition ii_rep :: "IndexItems \<Rightarrow> bytes list \<Rightarrow> bool" where
  "ii_rep ii rows \<longleftrightarrow> ii_start ii = length (ii_b ii) \<and> ii_b ii = concat rows
     \<and> list_all (\<lambda>(s, e). s \<le> e \<and> e \<le> length (ii_b ii)) (ii_offsets ii) \<and> ii_items ii = rows"

section \<open>Batches\<close>

lemma ii_rep_default: "ii_rep ii_default []"
  by (simp add: ii_rep_def ii_default_def ii_items_def)

lemma ii_rep_next:
  assumes "ii_rep ii rows"
  shows "ii_rep (ii_next (ii\<lparr>ii_b := ii_b ii @ row\<rparr>)) (rows @ [row])"
proof -
  have "subslice (ii_b ii @ row) s e = subslice (ii_b ii) s e" if "(s, e) \<in> set (ii_offsets ii)" for s e
    using assms that by (auto simp: ii_rep_def list_all_iff subslice_def)
  then have "map (\<lambda>(s, e). subslice (ii_b ii @ row) s e) (ii_offsets ii) = rows"
    using assms by (auto simp: ii_rep_def ii_items_def)
  moreover have "subslice (ii_b ii @ row) (length (ii_b ii)) (length (ii_b ii @ row)) = row" by (simp add: subslice_def)
  ultimately show ?thesis
    using assms by (auto simp: ii_rep_def ii_next_def ii_items_def list_all_iff)
qed

lemma ii_rep_next_eq:
  assumes "ii_rep ii rows" "b = ii_b ii @ row"
  shows "ii_rep (ii_next (ii\<lparr>ii_b := b\<rparr>)) (rows @ [row])"
  using ii_rep_next [OF assms(1)] assms(2) by simp

lemma ii_rep_foldl:
  assumes "ii_rep ii rows" "\<And>ii rows x. ii_rep ii rows \<Longrightarrow> ii_rep (f ii x) (rows @ [g x])"
  shows "ii_rep (foldl f ii xs) (rows @ map g xs)"
  using assms(1)
proof (induction xs arbitrary: ii rows)
  case (Cons x xs)
  from Cons.IH [OF assms(2) [OF Cons.prems]] show ?case by simp
qed simp

text \<open>Rows of a tag under a prefix, which is the one of the global index or of a day.\<close>

definition tag_row :: "bytes \<Rightarrow> u64 \<Rightarrow> Tag \<Rightarrow> bytes" where
  "tag_row pre m t = pre @ tag_marshal t [] @ to_be_bytes m"

lemma register_tag_indexes_rep:
  assumes "ii_rep ii rows"
  shows "ii_rep (register_tag_indexes ii pre mn mid) (rows @ map (tag_row pre mid) (index_tags mn))"
proof -
  let ?group = "\<lparr>tag_key = [], tag_value = metric_group mn\<rparr>"
  let ?rev = "\<lparr>tag_key = GRAPHITE_REVERSE_TAG_KEY, tag_value = rev (metric_group mn)\<rparr>"
  have m: "tag_marshal t b = b @ tag_marshal t []" for t b by (rule tag_marshal_append)
  have group: "ii_rep (add_group_row pre mn mid ii) (rows @ [tag_row pre mid ?group])"
    unfolding add_group_row_def
    by (rule ii_rep_next_eq [OF assms]) (simp add: tag_row_def marshal_append tag_marshal_def marshal_tag_value_eq)
  have rev: "ii_rep (add_reverse_metric_group_if_needed ii' pre mn mid)
      (rs @ (if (46 :: u8) \<in> set (metric_group mn) then [tag_row pre mid ?rev] else []))" if "ii_rep ii' rs" for ii' rs
    using that ii_rep_next_eq [OF that, of _ "tag_row pre mid ?rev"]
    by (simp add: add_reverse_metric_group_if_needed_def Let_def tag_row_def marshal_append tag_marshal_def marshal_tag_value_eq reverse_bytes_def)
  have tag: "ii_rep (add_tag_row pre mid ii' t) (rs @ [tag_row pre mid t])" if "ii_rep ii' rs" for ii' rs t
    unfolding add_tag_row_def by (rule ii_rep_next_eq [OF that]) (simp add: tag_row_def marshal_append m [of t "ii_b ii' @ pre"])
  have composite: "ii_rep (add_composite_row pre mn mid ii' t) (rs @ [tag_row pre mid (composite_tag mn t)])" if "ii_rep ii' rs" for ii' rs t
    unfolding add_composite_row_def Let_def
    by (rule ii_rep_next_eq [OF that]) (simp add: tag_row_def marshal_append tag_marshal_def marshal_tag_value_eq composite_tag_def)
  note tags = ii_rep_foldl [where f = "add_tag_row pre mid" and g = "tag_row pre mid" and xs = "mn_tags mn", OF rev [OF group] tag]
  note all = ii_rep_foldl [where f = "add_composite_row pre mn mid" and g = "\<lambda>t. tag_row pre mid (composite_tag mn t)"
      and xs = "mn_tags mn", OF tags composite]
  from all show ?thesis unfolding register_tag_indexes_def Let_def index_tags_def by (simp add: comp_def split: if_splits)
qed

lemma tag_row_enc:
  "tag_row (marshal_common_prefix [] NS_PREFIX_TAG_TO_METRIC_IDS) m t = row_enc (TagRow t) [m]"
  "tag_row (marshal_uint64 (marshal_common_prefix [] NS_PREFIX_DATE_TAG_TO_METRIC_IDS) d) m t = row_enc (DateTagRow d t) [m]"
  by (simp_all add: tag_row_def row_enc_def marshal_common_prefix_def marshal_append)

lemma create_global_indexes_rows:
  "\<not> no_register_new_series db \<Longrightarrow> create_global_indexes db t mn = Some (global_rows (disable_per_day_index db) t mn)"
proof -
  assume reg: "\<not> no_register_new_series db"
  define i1 where "i1 = (if disable_per_day_index db
     then ii_next (ii_default\<lparr>ii_b := tsid_marshal t
       (mn_marshal mn (marshal_common_prefix (ii_b ii_default) NS_PREFIX_METRIC_NAME_TO_TSID) @ [KV_SEPARATOR_CHAR])\<rparr>)
     else ii_default)"
  define i2 where "i2 = ii_next (i1\<lparr>ii_b := mn_marshal mn
       (marshal_uint64 (marshal_common_prefix (ii_b i1) NS_PREFIX_METRIC_ID_TO_METRIC_NAME) (metric_id t))\<rparr>)"
  define i3 where "i3 = ii_next (i2\<lparr>ii_b := tsid_marshal t
       (marshal_uint64 (marshal_common_prefix (ii_b i2) NS_PREFIX_METRIC_ID_TO_TSID) (metric_id t))\<rparr>)"
  have r1: "ii_rep i1 (if disable_per_day_index db then [name_row mn t] else [])"
    using ii_rep_default ii_rep_next_eq [OF ii_rep_default, of _ "name_row mn t"]
    by (simp add: i1_def name_row_def tsid_marshal_append marshal_common_prefix_def mn_marshal_eq)
  have r2: "ii_rep i2 ((if disable_per_day_index db then [name_row mn t] else []) @ [id_name_row (metric_id t) mn])"
    unfolding i2_def by (rule ii_rep_next_eq [OF r1]) (simp add: id_name_row_def marshal_append marshal_common_prefix_def mn_marshal_eq)
  have r3: "ii_rep i3 (((if disable_per_day_index db then [name_row mn t] else []) @ [id_name_row (metric_id t) mn]) @ [id_tsid_row t])"
    unfolding i3_def by (rule ii_rep_next_eq [OF r2]) (simp add: id_tsid_row_def marshal_append marshal_common_prefix_def tsid_marshal_append)
  have "create_global_indexes db t mn
      = Some (ii_items (register_tag_indexes i3 (marshal_common_prefix [] NS_PREFIX_TAG_TO_METRIC_IDS) mn (metric_id t)))"
    using reg by (simp add: create_global_indexes_def Let_def i1_def i2_def i3_def)
  then show ?thesis
    using register_tag_indexes_rep [OF r3, of "marshal_common_prefix [] NS_PREFIX_TAG_TO_METRIC_IDS" mn "metric_id t"]
    by (simp add: ii_rep_def global_rows_def tag_row_enc)
qed

lemma create_per_day_indexes_rows:
  assumes "\<not> no_register_new_series db" "\<not> disable_per_day_index db"
  shows "create_per_day_indexes db d t mn = Some (day_rows d t mn)"
proof -
  define i1 where "i1 = ii_next (ii_default\<lparr>ii_b := marshal_uint64
       (marshal_uint64 (marshal_common_prefix (ii_b ii_default) NS_PREFIX_DATE_TO_METRIC_ID) d) (metric_id t)\<rparr>)"
  define i2 where "i2 = ii_next (i1\<lparr>ii_b := tsid_marshal t
       (mn_marshal mn (marshal_uint64 (marshal_common_prefix (ii_b i1) NS_PREFIX_DATE_METRIC_NAME_TO_TSID) d) @ [KV_SEPARATOR_CHAR])\<rparr>)"
  let ?pre = "marshal_uint64 (marshal_common_prefix [] NS_PREFIX_DATE_TAG_TO_METRIC_IDS) d"
  have r1: "ii_rep i1 [day_id_row d (metric_id t)]"
    using ii_rep_next_eq [OF ii_rep_default, of _ "day_id_row d (metric_id t)"]
    by (simp add: i1_def day_id_row_def marshal_append marshal_common_prefix_def)
  have r2: "ii_rep i2 ([day_id_row d (metric_id t)] @ [day_name_row d mn t])"
    unfolding i2_def
    by (rule ii_rep_next_eq [OF r1]) (simp add: day_name_row_def marshal_append marshal_common_prefix_def mn_marshal_eq tsid_marshal_append)
  have "create_per_day_indexes db d t mn = Some (ii_items (register_tag_indexes i2 ?pre mn (metric_id t)))"
    using assms by (simp add: create_per_day_indexes_def Let_def i1_def i2_def)
  then show ?thesis
    using register_tag_indexes_rep [OF r2, of ?pre mn "metric_id t"] by (simp add: ii_rep_def day_rows_def tag_row_enc)
qed

lemma deleted_rows_eq: "deleted_rows ids = map deleted_row ids"
proof -
  have "ii_rep (foldl (\<lambda>ii mid. ii_next (ii\<lparr>ii_b := marshal_uint64 (ii_b ii @ [NS_PREFIX_DELETED_METRIC_ID]) mid\<rparr>)) ii_default ids)
      ([] @ map deleted_row ids)"
    by (rule ii_rep_foldl [OF ii_rep_default], rule ii_rep_next_eq) (simp_all add: deleted_row_def marshal_append)
  then show ?thesis by (simp add: ii_rep_def deleted_rows_def)
qed

section \<open>What rows say\<close>

lemmas ns_defs = NS_PREFIX_TAG_TO_METRIC_IDS_def NS_PREFIX_DATE_TAG_TO_METRIC_IDS_def NS_PREFIX_METRIC_NAME_TO_TSID_def
  NS_PREFIX_METRIC_ID_TO_TSID_def NS_PREFIX_METRIC_ID_TO_METRIC_NAME_def NS_PREFIX_DELETED_METRIC_ID_def
  NS_PREFIX_DATE_TO_METRIC_ID_def NS_PREFIX_DATE_METRIC_NAME_TO_TSID_def

lemmas row_defs = name_row_def day_name_row_def id_name_row_def id_tsid_row_def day_id_row_def deleted_row_def

lemma other_rows [simp]:
  "other_row (name_row mn t)" "other_row (day_name_row d mn t)" "other_row (id_name_row m mn)"
  "other_row (id_tsid_row t)" "other_row (day_id_row d m)" "other_row (deleted_row m)"
  by (simp_all add: other_row_def starts_with_def row_defs ns_defs)

lemma posting_row [simp]: "\<not> other_row (row_enc k ids)" "ids \<noteq> [] \<Longrightarrow> index_row_ok (row_enc k ids)"
  by (cases k; simp add: other_row_def index_row_ok_def row_ok_enc)+

lemma other_row_postings: "other_row r \<Longrightarrow> postings r = {}"
  by (auto simp: postings_def)

lemma other_row_ok: "other_row r \<Longrightarrow> index_row_ok r"
  by (simp add: other_row_def index_row_ok_def row_ok_def)

lemma rows_postings_map: "rows_postings (map (\<lambda>tag. row_enc (f tag) [m]) tags) = (\<lambda>tag. (f tag, m)) ` set tags"
  by (auto simp: rows_postings_def postings_row_enc)

lemma global_rows_say:
  "list_all index_row_ok (global_rows w t mn)"
  "rows_postings (global_rows w t mn) = (\<lambda>tag. (TagRow tag, metric_id t)) ` set (index_tags mn)"
  "filter other_row (global_rows w t mn) = (if w then [name_row mn t] else []) @ [id_name_row (metric_id t) mn, id_tsid_row t]"
  by (auto simp: global_rows_def list_all_iff other_row_ok other_row_postings rows_postings_map)

lemma day_rows_say:
  "list_all index_row_ok (day_rows d t mn)"
  "rows_postings (day_rows d t mn) = (\<lambda>tag. (DateTagRow d tag, metric_id t)) ` set (index_tags mn)"
  "filter other_row (day_rows d t mn) = [day_id_row d (metric_id t), day_name_row d mn t]"
  by (auto simp: day_rows_def list_all_iff other_row_ok other_row_postings rows_postings_map)

section \<open>Properties\<close>

text \<open>
  C14: registering a series adds well-formed rows that map every tag under which it can be searched, its
  name, its tags and its tags together with its name, to its metric id and nothing else, globally and for
  the day, and exactly the rows for the lookups by name, metric id and date. With the per-day index
  disabled, the row by name is global and nothing is added for the day.\<close>

theorem created_rows_correct:
  assumes "\<not> no_register_new_series db"
  shows "\<exists>g ds. create_global_indexes db t mn = Some g \<and> create_per_day_indexes db d t mn = Some ds
    \<and> list_all index_row_ok (g @ ds)
    \<and> rows_postings g = (\<lambda>tag. (TagRow tag, metric_id t)) ` set (index_tags mn)
    \<and> filter other_row g = (if disable_per_day_index db then [name_row mn t] else []) @ [id_name_row (metric_id t) mn, id_tsid_row t]
    \<and> (if disable_per_day_index db then ds = []
       else rows_postings ds = (\<lambda>tag. (DateTagRow d tag, metric_id t)) ` set (index_tags mn)
         \<and> filter other_row ds = [day_id_row d (metric_id t), day_name_row d mn t])"
proof (cases "disable_per_day_index db")
  case True
  then have "create_per_day_indexes db d t mn = Some []" using assms by (simp add: create_per_day_indexes_def)
  with True assms show ?thesis by (simp add: create_global_indexes_rows global_rows_say)
next
  case False
  with assms show ?thesis
    by (simp add: create_global_indexes_rows create_per_day_indexes_rows global_rows_say day_rows_say)
qed

theorem created_rows_correct_witness:
  "let db = \<lparr>no_register_new_series = False, disable_per_day_index = False\<rparr>;
       t = Tsid 1 2 3 4; mn = \<lparr>metric_group = [97], mn_tags = [\<lparr>tag_key = [98], tag_value = [99]\<rparr>]\<rparr> in
   \<not> no_register_new_series db
   \<and> (\<exists>g ds. create_global_indexes db t mn = Some g \<and> create_per_day_indexes db 5 t mn = Some ds
        \<and> length g = 5 \<and> rows_postings ds = (\<lambda>tag. (DateTagRow 5 tag, 4)) ` set (index_tags mn))"
proof -
  let ?db = "\<lparr>no_register_new_series = False, disable_per_day_index = False\<rparr>"
  let ?mn = "\<lparr>metric_group = [97 :: u8], mn_tags = [\<lparr>tag_key = [98], tag_value = [99]\<rparr>]\<rparr>"
  have "map_option length (create_global_indexes ?db (Tsid 1 2 3 4) ?mn) = Some 5"
    by (simp add: create_global_indexes_rows global_rows_def index_tags_def)
  then show ?thesis
    using created_rows_correct [of ?db "Tsid 1 2 3 4" ?mn 5] unfolding Let_def by auto
qed

text \<open>
  The key under which a tag is indexed together with the name of its series is artificial, and the name
  and the key of the tag are read back from it.\<close>

theorem composite_tag_key_roundtrip:
  assumes "length name + length key < 2 ^ 64"
  shows "is_artificial_tag_key (marshal_composite_tag_key [] name key)
    \<and> unmarshal_composite_tag_key (marshal_composite_tag_key [] name key) = Inr (name, key)"
proof -
  let ?n = "of_nat (length name) :: u64" and ?m = "of_nat (length name + length key) :: u64"
  have key: "marshal_composite_tag_key [] name key = COMPOSITE_TAG_KEY_PREFIX # marshal_var_uint64 [] ?n @ name @ key"
    by (simp add: marshal_composite_tag_key_def marshal_var_uint64_def append_leb128)
  have u: "unat (of_nat k :: u64) = k" if "k < 2 ^ 64" for k using that by (simp add: unat_of_nat)
  have n: "unat ?n = length name" "\<not> ?m < ?n"
    using assms u [of "length name"] u [of "length name + length key"] by (simp_all add: word_less_nat_alt del: of_nat_add)
  then show ?thesis
    by (simp add: key is_artificial_tag_key_def unmarshal_composite_tag_key_def var_uint64_roundtrip)
qed

theorem composite_tag_key_witness:
  "length [97 :: u8] + length [98 :: u8] < 2 ^ 64
    \<and> unmarshal_composite_tag_key (marshal_composite_tag_key [] [97] [98]) = Inr ([97], [98])"
  using composite_tag_key_roundtrip [of "[97]" "[98]"] by simp

end
