(* ===== verification/Index_Search.thy ===== *)
theory Index_Search
  imports Index_Items Table_Search_Correct
begin

text \<open>
  Lookups in the index (\<open>crates/esm-storage/src/index/search.rs\<close>): the series of a name, the name and the
  series of a metric id, the registration for a day, and the deleted series.

  They run over the cursor of the table. \<open>None\<close> stands for a panic, and for a loop that needs more rounds
  than the fuel allows; the properties show that one more than the number of rows is enough. The caches in
  front of the lookups are not modelled; the set of deleted ids, which the database keeps in memory, is an
  argument.
\<close>

section \<open>Model\<close>

fun tsid_loop :: "zstd_lib \<Rightarrow> nat \<Rightarrow> uset \<Rightarrow> bytes \<Rightarrow> Tsid \<Rightarrow> table_search \<Rightarrow> (table_search \<times> Tsid \<times> bool) option" where
  "tsid_loop Z 0 dmis kb dst ts = None"
| "tsid_loop Z (Suc fuel) dmis kb dst ts =
    (case ts_next_item Z ts of
       None \<Rightarrow> None
     | Some (ts, False) \<Rightarrow> (case ts_error ts of Some e \<Rightarrow> None | None \<Rightarrow> Some (ts, dst, False))
     | Some (ts, True) \<Rightarrow>
       (case ts_item ts of
          None \<Rightarrow> None
        | Some item \<Rightarrow>
          if take (length kb) item \<noteq> kb then Some (ts, dst, False)
          else
            (case tsid_unmarshal (drop (length kb) item) of
               Inl _ \<Rightarrow> None
             | Inr (dst, tail) \<Rightarrow>
               if tail \<noteq> [] then None
               else if uset_has dmis (metric_id dst) then tsid_loop Z fuel dmis kb dst ts
               else Some (ts, dst, True))))"

definition tsid_key_prefix :: "index_db \<Rightarrow> bytes \<Rightarrow> u64 \<Rightarrow> bytes" where
  "tsid_key_prefix db metric_name date =
    (if disable_per_day_index db then marshal_common_prefix [] NS_PREFIX_METRIC_NAME_TO_TSID
     else marshal_uint64 (marshal_common_prefix [] NS_PREFIX_DATE_METRIC_NAME_TO_TSID) date)
    @ metric_name @ [KV_SEPARATOR_CHAR]"

definition get_tsid_by_metric_name ::
  "zstd_lib \<Rightarrow> nat \<Rightarrow> index_db \<Rightarrow> uset \<Rightarrow> table_search \<Rightarrow> Tsid \<Rightarrow> bytes \<Rightarrow> u64 \<Rightarrow> (table_search \<times> Tsid \<times> bool) option" where
  "get_tsid_by_metric_name Z fuel db dmis ts dst metric_name date =
    (let kb = tsid_key_prefix db metric_name date in
     case ts_seek Z ts kb of None \<Rightarrow> None | Some ts \<Rightarrow> tsid_loop Z fuel dmis kb dst ts)"

definition search_metric_name :: "zstd_lib \<Rightarrow> table_search \<Rightarrow> bytes \<Rightarrow> u64 \<Rightarrow> (table_search \<times> bytes \<times> bool) option" where
  "search_metric_name Z ts dst mid =
    (let kb = marshal_uint64 (marshal_common_prefix [] NS_PREFIX_METRIC_ID_TO_METRIC_NAME) mid in
     case ts_first_item_with_prefix Z ts kb of
       Some (ts, None) \<Rightarrow> map_option (\<lambda>item. (ts, dst @ drop (length kb) item, True)) (ts_item ts)
     | Some (ts, Some TsEof) \<Rightarrow> Some (ts, dst, False)
     | _ \<Rightarrow> None)"

definition get_tsid_by_metric_id :: "zstd_lib \<Rightarrow> table_search \<Rightarrow> Tsid \<Rightarrow> u64 \<Rightarrow> (table_search \<times> Tsid \<times> bool) option" where
  "get_tsid_by_metric_id Z ts dst mid =
    (let kb = marshal_uint64 (marshal_common_prefix [] NS_PREFIX_METRIC_ID_TO_TSID) mid in
     case ts_first_item_with_prefix Z ts kb of
       Some (ts, None) \<Rightarrow>
         (case ts_item ts of
            None \<Rightarrow> None
          | Some item \<Rightarrow>
            (case tsid_unmarshal (drop (length kb) item) of
               Inl _ \<Rightarrow> None
             | Inr (dst, tail) \<Rightarrow> if tail \<noteq> [] then None else Some (ts, dst, True)))
     | Some (ts, Some TsEof) \<Rightarrow> Some (ts, dst, False)
     | _ \<Rightarrow> None)"

definition has_metric_id_slow :: "zstd_lib \<Rightarrow> table_search \<Rightarrow> u64 \<Rightarrow> (table_search \<times> bool) option" where
  "has_metric_id_slow Z ts mid =
    (let kb = marshal_uint64 (marshal_common_prefix [] NS_PREFIX_METRIC_ID_TO_TSID) mid in
     case ts_first_item_with_prefix Z ts kb of
       Some (ts, None) \<Rightarrow> Some (ts, True)
     | Some (ts, Some TsEof) \<Rightarrow> Some (ts, False)
     | _ \<Rightarrow> None)"

definition has_date_metric_id_slow :: "zstd_lib \<Rightarrow> table_search \<Rightarrow> u64 \<Rightarrow> u64 \<Rightarrow> (table_search \<times> bool) option" where
  "has_date_metric_id_slow Z ts date mid =
    (let kb = marshal_uint64 (marshal_uint64 (marshal_common_prefix [] NS_PREFIX_DATE_TO_METRIC_ID) date) mid in
     case ts_first_item_with_prefix Z ts kb of
       Some (ts, None) \<Rightarrow> if ts_item ts \<noteq> Some kb then None else Some (ts, True)
     | Some (ts, Some TsEof) \<Rightarrow> Some (ts, False)
     | _ \<Rightarrow> None)"

datatype load_err = UnexpectedItemLen nat | TableError TsError

fun deleted_loop :: "zstd_lib \<Rightarrow> nat \<Rightarrow> bytes \<Rightarrow> uset \<Rightarrow> table_search \<Rightarrow> (load_err + uset) option" where
  "deleted_loop Z 0 kb dmis ts = None"
| "deleted_loop Z (Suc fuel) kb dmis ts =
    (case ts_next_item Z ts of
       None \<Rightarrow> None
     | Some (ts, False) \<Rightarrow> Some (case ts_error ts of Some e \<Rightarrow> Inl (TableError e) | None \<Rightarrow> Inr dmis)
     | Some (ts, True) \<Rightarrow>
       (case ts_item ts of
          None \<Rightarrow> None
        | Some item \<Rightarrow>
          if take (length kb) item \<noteq> kb
          then Some (case ts_error ts of Some e \<Rightarrow> Inl (TableError e) | None \<Rightarrow> Inr dmis)
          else
            let item = drop (length kb) item in
            if length item \<noteq> 8 then Some (Inl (UnexpectedItemLen (length item)))
            else
              (case unmarshal_uint64 item of
                 None \<Rightarrow> None
               | Some mid \<Rightarrow> deleted_loop Z fuel kb (uset_add dmis mid) ts)))"

definition load_deleted_metric_ids :: "zstd_lib \<Rightarrow> nat \<Rightarrow> table_search \<Rightarrow> (load_err + uset) option" where
  "load_deleted_metric_ids Z fuel ts =
    (let kb = [NS_PREFIX_DELETED_METRIC_ID] in
     case ts_seek Z ts kb of None \<Rightarrow> None | Some ts \<Rightarrow> deleted_loop Z fuel kb uset_default ts)"

section \<open>Specification\<close>

text \<open>
  The registered series: globally a series and its name, for a day the day as well, and the deleted
  metric ids. The table holds the rows for lookups of exactly these.
\<close>

definition lookup_rows :: "bool \<Rightarrow> (Tsid \<times> MetricName) set \<Rightarrow> (u64 \<times> Tsid \<times> MetricName) set \<Rightarrow> u64 set \<Rightarrow> bytes set" where
  "lookup_rows without_days G D X =
    (if without_days then {name_row mn t | t mn. (t, mn) \<in> G} else {})
    \<union> {id_name_row (metric_id t) mn | t mn. (t, mn) \<in> G} \<union> {id_tsid_row t | t mn. (t, mn) \<in> G}
    \<union> {day_id_row d (metric_id t) | d t mn. (d, t, mn) \<in> D} \<union> {day_name_row d mn t | d t mn. (d, t, mn) \<in> D}
    \<union> {deleted_row m | m. m \<in> X}"

definition table_has :: "bool \<Rightarrow> inmemory_block list list \<Rightarrow> (Tsid \<times> MetricName) set \<Rightarrow> (u64 \<times> Tsid \<times> MetricName) set \<Rightarrow> u64 set \<Rightarrow> bool" where
  "table_has without_days bss G D X \<longleftrightarrow> {r \<in> set (table_items bss). other_row r} = lookup_rows without_days G D X"

text \<open>The series a name stands for on a date.\<close>

definition series_of :: "bool \<Rightarrow> (Tsid \<times> MetricName) set \<Rightarrow> (u64 \<times> Tsid \<times> MetricName) set \<Rightarrow> u64 \<Rightarrow> MetricName \<Rightarrow> Tsid set" where
  "series_of without_days G D d mn = (if without_days then {t. (t, mn) \<in> G} else {t. (d, t, mn) \<in> D})"

definition unique_ids_in :: "(Tsid \<times> MetricName) set \<Rightarrow> bool" where
  "unique_ids_in G \<longleftrightarrow> (\<forall>(t, mn) \<in> G. \<forall>(t', mn') \<in> G. metric_id t = metric_id t' \<longrightarrow> t = t' \<and> mn = mn')"

text \<open>A table with every row in a part of its own.\<close>

definition row_parts :: "bytes list \<Rightarrow> inmemory_block list list" where
  "row_parts rows = map (\<lambda>r. [block_of_rows [r]]) rows"

text \<open>Two series of one name, the first of which is deleted.\<close>

definition two_series_rows :: "MetricName \<Rightarrow> bytes list" where
  "two_series_rows mn = [id_name_row 1 mn, id_name_row 2 mn, id_tsid_row (Tsid 0 0 0 1), id_tsid_row (Tsid 0 0 0 2),
    day_id_row 5 1, day_id_row 5 2, day_name_row 5 mn (Tsid 0 0 0 1), day_name_row 5 mn (Tsid 0 0 0 2), deleted_row 1]"

section \<open>Rows with a prefix\<close>

lemma has_prefix_self [simp]: "has_prefix p (p @ x)"
  by (simp add: has_prefix_def)

lemma has_prefixE: "has_prefix p x \<Longrightarrow> (\<And>y. x = p @ y \<Longrightarrow> thesis) \<Longrightarrow> thesis"
  by (metis append_take_drop_id has_prefix_def)

lemma has_prefix_Cons_Cons [simp]: "has_prefix (a # p) (b # x) \<longleftrightarrow> a = b \<and> has_prefix p x"
  by (auto simp: has_prefix_def)

lemma has_prefix_same_length: "length a = length b \<Longrightarrow> has_prefix (a @ p) (b @ x) \<longleftrightarrow> a = b \<and> has_prefix p x"
  by (auto simp: has_prefix_def)

lemma kv_not_in_name: "KV_SEPARATOR_CHAR \<notin> set (mn_marshal mn [])"
proof -
  have "KV_SEPARATOR_CHAR \<notin> set (escaped src)" for src
    by (auto simp: escaped_def escape_byte_def sep_defs split: if_splits)
  then show ?thesis by (auto simp: mn_marshal_eq marshal_tag_value_eq tag_marshal_def sep_defs)
qed

lemma split_at_kv:
  assumes "KV_SEPARATOR_CHAR \<notin> set a" "KV_SEPARATOR_CHAR \<notin> set b"
  shows "has_prefix (a @ [KV_SEPARATOR_CHAR]) (b @ KV_SEPARATOR_CHAR # x) \<longleftrightarrow> a = b"
  using assms
proof (induction a arbitrary: b)
  case Nil
  then show ?case by (cases b) (auto simp: has_prefix_def)
next
  case (Cons c a)
  then show ?case by (cases b) (auto simp: has_prefix_def)
qed

text \<open>A prefix of another kind than postings selects rows for lookups.\<close>

lemma rows_with_prefix:
  assumes "table_has w bss G D X" "ns \<noteq> NS_PREFIX_TAG_TO_METRIC_IDS" "ns \<noteq> NS_PREFIX_DATE_TAG_TO_METRIC_IDS"
  shows "{x \<in> set (table_items bss). has_prefix (ns # p) x} = {x \<in> lookup_rows w G D X. has_prefix (ns # p) x}"
proof -
  have "other_row x" if "has_prefix (ns # p) x" for x
    using that assms(2,3) by (auto simp: other_row_def starts_with_def elim!: has_prefixE)
  then show ?thesis using assms(1) by (auto simp: table_has_def)
qed

lemma in_lookup_rows:
  assumes "x \<in> lookup_rows w G D X"
  obtains (name) t mn where "w" "(t, mn) \<in> G" "x = name_row mn t"
    | (id_name) t mn where "(t, mn) \<in> G" "x = id_name_row (metric_id t) mn"
    | (id_tsid) t mn where "(t, mn) \<in> G" "x = id_tsid_row t"
    | (day_id) d t mn where "(d, t, mn) \<in> D" "x = day_id_row d (metric_id t)"
    | (day_name) d t mn where "(d, t, mn) \<in> D" "x = day_name_row d mn t"
    | (deleted) m where "m \<in> X" "x = deleted_row m"
  using assms unfolding lookup_rows_def by (auto split: if_splits)

lemma row_prefix:
  "has_prefix (ns # p) (name_row mn t) \<longleftrightarrow> ns = NS_PREFIX_METRIC_NAME_TO_TSID \<and> has_prefix p (mn_marshal mn [] @ KV_SEPARATOR_CHAR # tsid_enc t)"
  "has_prefix (ns # p) (id_name_row m mn) \<longleftrightarrow> ns = NS_PREFIX_METRIC_ID_TO_METRIC_NAME \<and> has_prefix p (to_be_bytes m @ mn_marshal mn [])"
  "has_prefix (ns # p) (id_tsid_row t) \<longleftrightarrow> ns = NS_PREFIX_METRIC_ID_TO_TSID \<and> has_prefix p (to_be_bytes (metric_id t) @ tsid_enc t)"
  "has_prefix (ns # p) (day_id_row d m) \<longleftrightarrow> ns = NS_PREFIX_DATE_TO_METRIC_ID \<and> has_prefix p (to_be_bytes d @ to_be_bytes m)"
  "has_prefix (ns # p) (day_name_row d mn t) \<longleftrightarrow> ns = NS_PREFIX_DATE_METRIC_NAME_TO_TSID
     \<and> has_prefix p (to_be_bytes d @ mn_marshal mn [] @ KV_SEPARATOR_CHAR # tsid_enc t)"
  "has_prefix (ns # p) (deleted_row m) \<longleftrightarrow> ns = NS_PREFIX_DELETED_METRIC_ID \<and> has_prefix p (to_be_bytes m)"
  by (auto simp: row_defs)

lemma name_rows:
  assumes "table_has (disable_per_day_index db) bss G D X"
  shows "{x \<in> set (table_items bss). has_prefix (tsid_key_prefix db (mn_marshal mn []) d) x}
    = (\<lambda>t. tsid_key_prefix db (mn_marshal mn []) d @ tsid_enc t) ` series_of (disable_per_day_index db) G D d mn"
proof (cases "disable_per_day_index db")
  case True
  have k: "tsid_key_prefix db (mn_marshal mn []) d = NS_PREFIX_METRIC_NAME_TO_TSID # mn_marshal mn [] @ [KV_SEPARATOR_CHAR]"
    using True by (simp add: tsid_key_prefix_def marshal_common_prefix_def)
  have row: "has_prefix (NS_PREFIX_METRIC_NAME_TO_TSID # mn_marshal mn [] @ [KV_SEPARATOR_CHAR]) (name_row mn' t) \<longleftrightarrow> mn' = mn" for mn' t
    by (auto simp: name_row_def split_at_kv [OF kv_not_in_name kv_not_in_name] mn_marshal_inj)
  have "{x \<in> lookup_rows True G D X. has_prefix (NS_PREFIX_METRIC_NAME_TO_TSID # mn_marshal mn [] @ [KV_SEPARATOR_CHAR]) x}
      = name_row mn ` {t. (t, mn) \<in> G}"
    by (auto simp: row [unfolded ns_defs] row_prefix(2-) ns_defs elim!: in_lookup_rows) (auto simp: lookup_rows_def)
  moreover have "NS_PREFIX_METRIC_NAME_TO_TSID \<noteq> NS_PREFIX_TAG_TO_METRIC_IDS" "NS_PREFIX_METRIC_NAME_TO_TSID \<noteq> NS_PREFIX_DATE_TAG_TO_METRIC_IDS"
    by (simp_all add: ns_defs)
  ultimately show ?thesis
    using rows_with_prefix [OF assms [unfolded True]] True unfolding k by (auto simp: series_of_def name_row_def)
next
  case False
  have k: "tsid_key_prefix db (mn_marshal mn []) d
      = NS_PREFIX_DATE_METRIC_NAME_TO_TSID # to_be_bytes d @ mn_marshal mn [] @ [KV_SEPARATOR_CHAR]"
    using False by (simp add: tsid_key_prefix_def marshal_common_prefix_def marshal_append)
  have row: "has_prefix (NS_PREFIX_DATE_METRIC_NAME_TO_TSID # to_be_bytes d @ mn_marshal mn [] @ [KV_SEPARATOR_CHAR]) (day_name_row d' mn' t)
      \<longleftrightarrow> d' = d \<and> mn' = mn" for d' mn' t
    by (auto simp: day_name_row_def has_prefix_same_length split_at_kv [OF kv_not_in_name kv_not_in_name] mn_marshal_inj to_be_bytes_inj)
  have "{x \<in> lookup_rows False G D X. has_prefix (NS_PREFIX_DATE_METRIC_NAME_TO_TSID # to_be_bytes d @ mn_marshal mn [] @ [KV_SEPARATOR_CHAR]) x}
      = day_name_row d mn ` {t. (d, t, mn) \<in> D}"
    by (auto simp: row [unfolded ns_defs] row_prefix(1-4,6) ns_defs elim!: in_lookup_rows) (auto simp: lookup_rows_def)
  moreover have "NS_PREFIX_DATE_METRIC_NAME_TO_TSID \<noteq> NS_PREFIX_TAG_TO_METRIC_IDS"
    "NS_PREFIX_DATE_METRIC_NAME_TO_TSID \<noteq> NS_PREFIX_DATE_TAG_TO_METRIC_IDS"
    by (simp_all add: ns_defs)
  ultimately show ?thesis
    using rows_with_prefix [OF assms [unfolded False]] False unfolding k by (auto simp: series_of_def day_name_row_def)
qed

lemma id_rows:
  assumes "table_has w bss G D X"
  shows "{x \<in> set (table_items bss). has_prefix (NS_PREFIX_METRIC_ID_TO_METRIC_NAME # to_be_bytes m) x}
      = {id_name_row m mn | t mn. (t, mn) \<in> G \<and> metric_id t = m}"
    and "{x \<in> set (table_items bss). has_prefix (NS_PREFIX_METRIC_ID_TO_TSID # to_be_bytes m) x}
      = {id_tsid_row t | t mn. (t, mn) \<in> G \<and> metric_id t = m}"
    and "{x \<in> set (table_items bss). has_prefix (NS_PREFIX_DATE_TO_METRIC_ID # to_be_bytes d @ to_be_bytes m) x}
      = {day_id_row d m | t mn. (d, t, mn) \<in> D \<and> metric_id t = m}"
    and "{x \<in> set (table_items bss). has_prefix [NS_PREFIX_DELETED_METRIC_ID] x} = deleted_row ` X"
proof -
  have p: "has_prefix (to_be_bytes (a :: u64)) (to_be_bytes b @ x) \<longleftrightarrow> a = b" for a b x
    using has_prefix_same_length [of "to_be_bytes a" "to_be_bytes b" "[]" x] by (simp add: to_be_bytes_inj has_prefix_def)
  have p0: "has_prefix (to_be_bytes (a :: u64)) (to_be_bytes b) \<longleftrightarrow> a = b" for a b
    using p [of a b "[]"] by simp
  note simps = p p0 has_prefix_same_length to_be_bytes_inj row_prefix ns_defs
  have "{x \<in> lookup_rows w G D X. has_prefix (NS_PREFIX_METRIC_ID_TO_METRIC_NAME # to_be_bytes m) x}
      = {id_name_row m mn | t mn. (t, mn) \<in> G \<and> metric_id t = m}"
    by (auto simp: simps elim!: in_lookup_rows) (auto simp: lookup_rows_def)
  then show "{x \<in> set (table_items bss). has_prefix (NS_PREFIX_METRIC_ID_TO_METRIC_NAME # to_be_bytes m) x}
      = {id_name_row m mn | t mn. (t, mn) \<in> G \<and> metric_id t = m}"
    using rows_with_prefix [OF assms, of NS_PREFIX_METRIC_ID_TO_METRIC_NAME "to_be_bytes m"] by (simp add: ns_defs)
  have "{x \<in> lookup_rows w G D X. has_prefix (NS_PREFIX_METRIC_ID_TO_TSID # to_be_bytes m) x}
      = {id_tsid_row t | t mn. (t, mn) \<in> G \<and> metric_id t = m}"
    by (auto simp: simps elim!: in_lookup_rows) (auto simp: lookup_rows_def)
  then show "{x \<in> set (table_items bss). has_prefix (NS_PREFIX_METRIC_ID_TO_TSID # to_be_bytes m) x}
      = {id_tsid_row t | t mn. (t, mn) \<in> G \<and> metric_id t = m}"
    using rows_with_prefix [OF assms, of NS_PREFIX_METRIC_ID_TO_TSID "to_be_bytes m"] by (simp add: ns_defs)
  have "{x \<in> lookup_rows w G D X. has_prefix (NS_PREFIX_DATE_TO_METRIC_ID # to_be_bytes d @ to_be_bytes m) x}
      = {day_id_row d m | t mn. (d, t, mn) \<in> D \<and> metric_id t = m}"
    by (auto simp: simps elim!: in_lookup_rows) (auto simp: lookup_rows_def)
  then show "{x \<in> set (table_items bss). has_prefix (NS_PREFIX_DATE_TO_METRIC_ID # to_be_bytes d @ to_be_bytes m) x}
      = {day_id_row d m | t mn. (d, t, mn) \<in> D \<and> metric_id t = m}"
    using rows_with_prefix [OF assms, of NS_PREFIX_DATE_TO_METRIC_ID "to_be_bytes d @ to_be_bytes m"] by (simp add: ns_defs)
  have "{x \<in> lookup_rows w G D X. has_prefix [NS_PREFIX_DELETED_METRIC_ID] x} = deleted_row ` X"
    by (auto simp: simps elim!: in_lookup_rows) (auto simp: lookup_rows_def has_prefix_def)
  then show "{x \<in> set (table_items bss). has_prefix [NS_PREFIX_DELETED_METRIC_ID] x} = deleted_row ` X"
    using rows_with_prefix [OF assms, of NS_PREFIX_DELETED_METRIC_ID "[]"] by (simp add: ns_defs)
qed

section \<open>Lookup by name\<close>

lemma tsid_loop_rep:
  assumes dmis: "uset_invar dmis" and zs: "\<forall>x \<in> set zs. \<not> has_prefix kb x"
  shows "cursor_ahead Z bss ts (map (\<lambda>t. kb @ tsid_enc t) tsids @ zs) \<Longrightarrow> length tsids < fuel \<Longrightarrow>
    \<exists>ts'. cursor_over Z bss ts' \<and> (case find (\<lambda>t. metric_id t \<notin> uset_set dmis) tsids of
       Some t \<Rightarrow> tsid_loop Z fuel dmis kb dst ts = Some (ts', t, True)
     | None \<Rightarrow> \<exists>dst'. tsid_loop Z fuel dmis kb dst ts = Some (ts', dst', False))"
proof (induction fuel arbitrary: ts tsids dst)
  case (Suc fuel)
  show ?case
  proof (cases tsids)
    case Nil
    show ?thesis
    proof (cases zs)
      case zs_Nil: Nil
      obtain ts' where "ts_next_item Z ts = Some (ts', False)" "cursor_ahead Z bss ts' []"
        using cursor_next(2) Suc.prems(1) Nil zs_Nil by fastforce
      then show ?thesis using Nil cursor_ahead_over cursor_ahead_error by (intro exI [of _ ts']) fastforce
    next
      case (Cons z zs')
      obtain ts' where "ts_next_item Z ts = Some (ts', True)" "cursor_ahead Z bss ts' zs'" "ts_item ts' = Some z"
        using cursor_next(1) Suc.prems(1) Nil Cons by fastforce
      moreover have "take (length kb) z \<noteq> kb" using zs Cons by (simp add: has_prefix_def)
      ultimately show ?thesis using Nil cursor_ahead_over by (intro exI [of _ ts']) fastforce
    qed
  next
    case (Cons t tsids')
    obtain ts1 where n: "ts_next_item Z ts = Some (ts1, True)" "cursor_ahead Z bss ts1 (map (\<lambda>t. kb @ tsid_enc t) tsids' @ zs)"
      "ts_item ts1 = Some (kb @ tsid_enc t)"
      using cursor_next(1) Suc.prems(1) Cons by fastforce
    have u: "tsid_unmarshal (tsid_enc t) = Inr (t, [])" using tsid_unmarshal_enc [of t "[]"] by simp
    show ?thesis
    proof (cases "metric_id t \<in> uset_set dmis")
      case True
      have e: "tsid_loop Z (Suc fuel) dmis kb dst ts = tsid_loop Z fuel dmis kb t ts1"
        using n(1,3) u True uset_has_iff [OF dmis] by simp
      have "length tsids' < fuel" using Suc.prems(2) Cons by simp
      then show ?thesis using Suc.IH [OF n(2), of t] True unfolding e Cons by simp
    next
      case False
      then have "tsid_loop Z (Suc fuel) dmis kb dst ts = Some (ts1, t, True)"
        using n(1,3) u uset_has_iff [OF dmis] by simp
      then show ?thesis using False Cons cursor_ahead_over [OF n(2)] by auto
    qed
  qed
qed simp

lemma sorted_tsids: "sorted (map (\<lambda>t. kb @ tsid_enc t) tsids) \<Longrightarrow> sorted tsids"
proof (induction tsids)
  case (Cons t tsids)
  have "t \<le> u" if "kb @ tsid_enc t \<le> kb @ tsid_enc u" for u
    using that tsid_enc_less [of u t] less_common_prefix [of kb "tsid_enc u" "tsid_enc t"] by (simp add: not_less [symmetric])
  with Cons show ?case by auto
qed simp

lemma find_least:
  assumes "sorted xs"
  shows "case find P xs of Some x \<Rightarrow> x \<in> set xs \<and> P x \<and> (\<forall>y \<in> set xs. P y \<longrightarrow> x \<le> y) | None \<Rightarrow> \<forall>x \<in> set xs. \<not> P x"
  using assms by (induction xs) (auto split: option.splits)

lemma tsid_by_name:
  assumes over: "cursor_over Z bss ts" and tab: "table_has (disable_per_day_index db) bss G D X" and dmis: "uset_invar dmis"
    and fuel: "length (table_items bss) < fuel"
  shows "\<exists>ts' dst' ok. get_tsid_by_metric_name Z fuel db dmis ts dst (mn_marshal mn []) d = Some (ts', dst', ok) \<and> cursor_over Z bss ts'
    \<and> (let S = {t \<in> series_of (disable_per_day_index db) G D d mn. metric_id t \<notin> uset_set dmis} in
       if S = {} then \<not> ok else ok \<and> dst' \<in> S \<and> (\<forall>t \<in> S. dst' \<le> t))"
proof -
  let ?kb = "tsid_key_prefix db (mn_marshal mn []) d" and ?S = "series_of (disable_per_day_index db) G D d mn"
  let ?f = "\<lambda>t. ?kb @ tsid_enc t"
  obtain ts1 ps zs where s: "ts_seek Z ts ?kb = Some ts1" "cursor_ahead Z bss ts1 (ps @ zs)" "sorted ps"
    "set ps = {x \<in> set (table_items bss). has_prefix ?kb x}" "\<forall>x \<in> set zs. \<not> has_prefix ?kb x"
    "length (ps @ zs) \<le> length (table_items bss)"
    using table_rows.seek_prefix [OF over] by blast
  have ps: "set ps = ?f ` ?S" using s(4) name_rows [OF tab] by simp
  then obtain tsids where t: "ps = map ?f tsids" using ex_map_conv [of ps ?f] by auto
  have f_inj: "inj ?f" using tsid_codec.enc_inj by (auto simp: inj_def)
  then have set: "set tsids = ?S" using ps unfolding t by (metis inj_image_eq_iff list.set_map)
  have sorted: "sorted tsids" using s(3) unfolding t by (rule sorted_tsids)
  have "length tsids < fuel" using s(6) fuel unfolding t by simp
  from tsid_loop_rep [OF dmis s(5) s(2) [unfolded t] this, of dst]
  have l: "\<exists>ts'. cursor_over Z bss ts' \<and> (case find (\<lambda>t. metric_id t \<notin> uset_set dmis) tsids of
       Some t \<Rightarrow> tsid_loop Z fuel dmis ?kb dst ts1 = Some (ts', t, True)
     | None \<Rightarrow> \<exists>dst'. tsid_loop Z fuel dmis ?kb dst ts1 = Some (ts', dst', False))" .
  have e: "get_tsid_by_metric_name Z fuel db dmis ts dst (mn_marshal mn []) d = tsid_loop Z fuel dmis ?kb dst ts1"
    using s(1) by (simp add: get_tsid_by_metric_name_def)
  note least = find_least [OF sorted, of "\<lambda>t. metric_id t \<notin> uset_set dmis", unfolded set]
  show ?thesis
  proof (cases "find (\<lambda>t. metric_id t \<notin> uset_set dmis) tsids")
    case None
    then obtain ts' dst' where "tsid_loop Z fuel dmis ?kb dst ts1 = Some (ts', dst', False)" "cursor_over Z bss ts'" using l by auto
    moreover have "{t \<in> ?S. metric_id t \<notin> uset_set dmis} = {}" using least None by auto
    ultimately show ?thesis unfolding e Let_def by auto
  next
    case (Some t)
    then obtain ts' where "tsid_loop Z fuel dmis ?kb dst ts1 = Some (ts', t, True)" "cursor_over Z bss ts'" using l by auto
    moreover have "t \<in> ?S" "metric_id t \<notin> uset_set dmis" "\<forall>u \<in> ?S. metric_id u \<notin> uset_set dmis \<longrightarrow> t \<le> u" using least Some by auto
    ultimately show ?thesis unfolding e Let_def by auto
  qed
qed

section \<open>Lookup by id\<close>

text \<open>A prefix lookup when all rows with the prefix are known.\<close>

lemma first_of_rows:
  assumes "cursor_over Z bss ts" "{x \<in> set (table_items bss). has_prefix pre x} = S"
  obtains ts' where "cursor_over Z bss ts'" "S = {} \<Longrightarrow> ts_first_item_with_prefix Z ts pre = Some (ts', Some TsEof)"
    "S \<noteq> {} \<Longrightarrow> \<exists>x \<in> S. ts_first_item_with_prefix Z ts pre = Some (ts', None) \<and> ts_item ts' = Some x"
proof -
  have S: "(\<forall>x \<in> set (table_items bss). \<not> has_prefix pre x) \<longleftrightarrow> S = {}" using assms(2) by auto
  obtain ts' where "cursor_over Z bss ts'" "if S = {} then ts_first_item_with_prefix Z ts pre = Some (ts', Some TsEof)
    else \<exists>x. ts_first_item_with_prefix Z ts pre = Some (ts', None) \<and> ts_item ts' = Some x \<and> x \<in> set (table_items bss)
      \<and> has_prefix pre x \<and> (\<forall>y \<in> set (table_items bss). has_prefix pre y \<longrightarrow> x \<le> y)"
    using first_with_prefix [OF assms(1), of pre] unfolding S by blast
  with assms(2) show thesis by (intro that [of ts']) auto
qed

lemma name_by_id:
  assumes over: "cursor_over Z bss ts" and tab: "table_has w bss G D X" and unique: "unique_ids_in G"
  shows "(t, mn) \<in> G \<Longrightarrow> \<exists>ts'. cursor_over Z bss ts' \<and> search_metric_name Z ts dst (metric_id t) = Some (ts', dst @ mn_marshal mn [], True)"
    and "m \<notin> metric_id ` fst ` G \<Longrightarrow> \<exists>ts'. cursor_over Z bss ts' \<and> search_metric_name Z ts dst m = Some (ts', dst, False)"
proof -
  have k: "marshal_uint64 (marshal_common_prefix [] NS_PREFIX_METRIC_ID_TO_METRIC_NAME) m = NS_PREFIX_METRIC_ID_TO_METRIC_NAME # to_be_bytes m" for m
    by (simp add: marshal_common_prefix_def marshal_append)
  note rows = id_rows(1) [OF tab]
  show "\<exists>ts'. cursor_over Z bss ts' \<and> search_metric_name Z ts dst (metric_id t) = Some (ts', dst @ mn_marshal mn [], True)" if g: "(t, mn) \<in> G"
  proof -
    have "{id_name_row (metric_id t) mn' | t' mn'. (t', mn') \<in> G \<and> metric_id t' = metric_id t} = {id_name_row (metric_id t) mn}"
      using unique g by (fastforce simp: unique_ids_in_def)
    then obtain ts' where "cursor_over Z bss ts'"
      "ts_first_item_with_prefix Z ts (NS_PREFIX_METRIC_ID_TO_METRIC_NAME # to_be_bytes (metric_id t)) = Some (ts', None)"
      "ts_item ts' = Some (id_name_row (metric_id t) mn)"
      using first_of_rows [OF over rows, of "metric_id t"] by auto
    then show ?thesis by (intro exI [of _ ts']) (simp add: search_metric_name_def k id_name_row_def)
  qed
  show "\<exists>ts'. cursor_over Z bss ts' \<and> search_metric_name Z ts dst m = Some (ts', dst, False)" if "m \<notin> metric_id ` fst ` G"
  proof -
    have none: "{id_name_row m mn' | t' mn'. (t', mn') \<in> G \<and> metric_id t' = m} = {}" using that by force
    obtain ts' where "cursor_over Z bss ts'"
      "ts_first_item_with_prefix Z ts (NS_PREFIX_METRIC_ID_TO_METRIC_NAME # to_be_bytes m) = Some (ts', Some TsEof)"
      using first_of_rows [OF over rows [of m, unfolded none]] by auto
    then show ?thesis by (intro exI [of _ ts']) (simp add: search_metric_name_def k)
  qed
qed

lemma tsid_by_id:
  assumes over: "cursor_over Z bss ts" and tab: "table_has w bss G D X" and unique: "unique_ids_in G"
  shows "(t, mn) \<in> G \<Longrightarrow> \<exists>ts'. cursor_over Z bss ts' \<and> get_tsid_by_metric_id Z ts dst (metric_id t) = Some (ts', t, True)
      \<and> has_metric_id_slow Z ts (metric_id t) = Some (ts', True)"
    and "m \<notin> metric_id ` fst ` G \<Longrightarrow> \<exists>ts'. cursor_over Z bss ts' \<and> get_tsid_by_metric_id Z ts dst m = Some (ts', dst, False)
      \<and> has_metric_id_slow Z ts m = Some (ts', False)"
proof -
  have k: "marshal_uint64 (marshal_common_prefix [] NS_PREFIX_METRIC_ID_TO_TSID) m = NS_PREFIX_METRIC_ID_TO_TSID # to_be_bytes m" for m
    by (simp add: marshal_common_prefix_def marshal_append)
  have u: "tsid_unmarshal (tsid_enc t) = Inr (t, [])" for t using tsid_unmarshal_enc [of t "[]"] by simp
  note rows = id_rows(2) [OF tab]
  show "\<exists>ts'. cursor_over Z bss ts' \<and> get_tsid_by_metric_id Z ts dst (metric_id t) = Some (ts', t, True)
      \<and> has_metric_id_slow Z ts (metric_id t) = Some (ts', True)" if g: "(t, mn) \<in> G"
  proof -
    have "{id_tsid_row t' | t' mn'. (t', mn') \<in> G \<and> metric_id t' = metric_id t} = {id_tsid_row t}"
      using unique g by (fastforce simp: unique_ids_in_def)
    then obtain ts' where "cursor_over Z bss ts'"
      "ts_first_item_with_prefix Z ts (NS_PREFIX_METRIC_ID_TO_TSID # to_be_bytes (metric_id t)) = Some (ts', None)"
      "ts_item ts' = Some (id_tsid_row t)"
      using first_of_rows [OF over rows, of "metric_id t"] by auto
    then show ?thesis by (intro exI [of _ ts']) (simp add: get_tsid_by_metric_id_def has_metric_id_slow_def k id_tsid_row_def u)
  qed
  show "\<exists>ts'. cursor_over Z bss ts' \<and> get_tsid_by_metric_id Z ts dst m = Some (ts', dst, False)
      \<and> has_metric_id_slow Z ts m = Some (ts', False)" if "m \<notin> metric_id ` fst ` G"
  proof -
    have none: "{id_tsid_row t' | t' mn'. (t', mn') \<in> G \<and> metric_id t' = m} = {}" using that by force
    obtain ts' where "cursor_over Z bss ts'"
      "ts_first_item_with_prefix Z ts (NS_PREFIX_METRIC_ID_TO_TSID # to_be_bytes m) = Some (ts', Some TsEof)"
      using first_of_rows [OF over rows [of m, unfolded none]] by auto
    then show ?thesis by (intro exI [of _ ts']) (simp add: get_tsid_by_metric_id_def has_metric_id_slow_def k)
  qed
qed

lemma day_by_id:
  assumes over: "cursor_over Z bss ts" and tab: "table_has w bss G D X"
  shows "\<exists>ts'. cursor_over Z bss ts' \<and> has_date_metric_id_slow Z ts d m = Some (ts', \<exists>t mn. (d, t, mn) \<in> D \<and> metric_id t = m)"
proof -
  have k: "marshal_uint64 (marshal_uint64 (marshal_common_prefix [] NS_PREFIX_DATE_TO_METRIC_ID) d) m
      = NS_PREFIX_DATE_TO_METRIC_ID # to_be_bytes d @ to_be_bytes m" for m
    by (simp add: marshal_common_prefix_def marshal_append)
  obtain ts' where t: "cursor_over Z bss ts'"
    "\<not> (\<exists>t mn. (d, t, mn) \<in> D \<and> metric_id t = m) \<Longrightarrow> ts_first_item_with_prefix Z ts (NS_PREFIX_DATE_TO_METRIC_ID # to_be_bytes d @ to_be_bytes m) = Some (ts', Some TsEof)"
    "\<exists>t mn. (d, t, mn) \<in> D \<and> metric_id t = m \<Longrightarrow> ts_first_item_with_prefix Z ts (NS_PREFIX_DATE_TO_METRIC_ID # to_be_bytes d @ to_be_bytes m) = Some (ts', None)
       \<and> ts_item ts' = Some (day_id_row d m)"
    using first_of_rows [OF over id_rows(3) [OF tab, of d m]] by auto
  then show ?thesis
    by (intro exI [of _ ts'], cases "\<exists>t mn. (d, t, mn) \<in> D \<and> metric_id t = m")
      (simp_all add: has_date_metric_id_slow_def k day_id_row_def del: not_ex)
qed

section \<open>Deleted series\<close>

lemma deleted_loop_rep:
  assumes zs: "\<forall>x \<in> set zs. \<not> has_prefix [NS_PREFIX_DELETED_METRIC_ID] x"
  shows "cursor_ahead Z bss ts (map deleted_row ids @ zs) \<Longrightarrow> length ids < fuel \<Longrightarrow> uset_invar s \<Longrightarrow>
    \<exists>s'. deleted_loop Z fuel [NS_PREFIX_DELETED_METRIC_ID] s ts = Some (Inr s') \<and> uset_invar s' \<and> uset_set s' = uset_set s \<union> set ids"
proof (induction fuel arbitrary: ts ids s)
  case (Suc fuel)
  show ?case
  proof (cases ids)
    case Nil
    show ?thesis
    proof (cases zs)
      case zs_Nil: Nil
      obtain ts' where "ts_next_item Z ts = Some (ts', False)" "cursor_ahead Z bss ts' []"
        using cursor_next(2) Suc.prems(1) Nil zs_Nil by fastforce
      then show ?thesis using Nil Suc.prems(3) cursor_ahead_error by fastforce
    next
      case (Cons z zs')
      obtain ts' where t: "ts_next_item Z ts = Some (ts', True)" "cursor_ahead Z bss ts' zs'" "ts_item ts' = Some z"
        using cursor_next(1) Suc.prems(1) Nil Cons by fastforce
      have "take 1 z \<noteq> [NS_PREFIX_DELETED_METRIC_ID]" using zs Cons by (simp add: has_prefix_def)
      then show ?thesis using t Nil Suc.prems(3) cursor_ahead_error [OF t(2)] by simp
    qed
  next
    case (Cons m ids')
    obtain ts1 where n: "ts_next_item Z ts = Some (ts1, True)" "cursor_ahead Z bss ts1 (map deleted_row ids' @ zs)"
      "ts_item ts1 = Some (deleted_row m)"
      using cursor_next(1) Suc.prems(1) Cons by fastforce
    have "deleted_loop Z (Suc fuel) [NS_PREFIX_DELETED_METRIC_ID] s ts = deleted_loop Z fuel [NS_PREFIX_DELETED_METRIC_ID] (uset_add s m) ts1"
      using n(1,3) by (simp add: deleted_row_def Let_def unmarshal_fixed(3) [of m "[]", simplified])
    moreover have "length ids' < fuel" using Suc.prems(2) Cons by simp
    ultimately show ?thesis using Suc.IH [OF n(2), of "uset_add s m"] uset_add_correct [OF Suc.prems(3), of m] Cons by auto
  qed
qed simp

lemma deleted_loaded:
  assumes over: "cursor_over Z bss ts" and tab: "table_has w bss G D X" and fuel: "length (table_items bss) < fuel"
  shows "\<exists>s. load_deleted_metric_ids Z fuel ts = Some (Inr s) \<and> uset_invar s \<and> uset_set s = X"
proof -
  let ?kb = "[NS_PREFIX_DELETED_METRIC_ID]"
  obtain ts1 ps zs where s: "ts_seek Z ts ?kb = Some ts1" "cursor_ahead Z bss ts1 (ps @ zs)"
    "set ps = {x \<in> set (table_items bss). has_prefix ?kb x}" "\<forall>x \<in> set zs. \<not> has_prefix ?kb x"
    "length (ps @ zs) \<le> length (table_items bss)"
    using table_rows.seek_prefix [OF over] by blast
  have ps: "set ps = deleted_row ` X" using s(3) id_rows(4) [OF tab] by simp
  then obtain ids where i: "ps = map deleted_row ids" using ex_map_conv [of ps deleted_row] by auto
  have "inj deleted_row" by (auto simp: inj_def deleted_row_def to_be_bytes_inj)
  then have set: "set ids = X" using ps unfolding i by (metis inj_image_eq_iff list.set_map)
  have "length ids < fuel" using s(5) fuel unfolding i by simp
  from deleted_loop_rep [OF s(4) s(2) [unfolded i] this uset_default_empty(1)] s(1) set show ?thesis
    by (simp add: load_deleted_metric_ids_def)
qed

section \<open>Properties\<close>

lemma row_part:
  assumes "r \<noteq> []" "length r \<le> MAX_INMEMORY_BLOCK_SIZE"
  shows "\<exists>p. table_part stored_zstd [block_of_rows [r]] p" "ib_strings (block_of_rows [r]) = [r]"
proof -
  let ?b = "block_of_rows [r]"
  let ?ph = "\<lparr>ph_items_count = 1, ph_blocks_count = 1, ph_first_item = r, ph_last_item = r\<rparr>"
  show s: "ib_strings ?b = [r]" using block_of_rows_ok [of "[r]"] assms by simp
  have b: "list_all block_ok [?b]" "length [?b] < 2 ^ 40" "sorted (concat (map ib_strings [?b]))" "ph_ok ?ph (map ib_strings [?b])"
    "list_all varied (butlast (map ib_strings [?b]))"
    using block_of_rows_ok [of "[r]"] assms by (simp_all add: s ph_ok_def)
  obtain w w' bufs p where "write_blocks stored_zstd (bsw_new_inmemory_part 1) [?b] = Some w"
    "bsw_must_close stored_zstd w = Some (w', bufs)" "mp_new_part stored_zstd 1 (mp_from_buffers ?ph bufs) = Some p"
    using part_written [OF stored_zstd_ok stored_zstd_bounded b, of 1 1] by blast
  then show "\<exists>p. table_part stored_zstd [?b] p" unfolding table_part_def using b by blast
qed

lemma rows_table:
  assumes "\<forall>r \<in> set rows. r \<noteq> [] \<and> length r \<le> MAX_INMEMORY_BLOCK_SIZE"
  shows "\<exists>parts. list_all2 (table_part stored_zstd) (row_parts rows) parts \<and> table_items (row_parts rows) = rows"
  using assms
proof (induction rows)
  case Nil
  then show ?case by (intro exI [of _ "[]"]) (simp add: row_parts_def table_items_def)
next
  case (Cons r rows)
  then obtain p parts where "list_all2 (table_part stored_zstd) (row_parts rows) parts" "table_items (row_parts rows) = rows"
    "table_part stored_zstd [block_of_rows [r]] p"
    using row_part(1) [of r] by auto
  then show ?case
    using Cons.prems row_part(2) [of r] by (intro exI [of _ "p # parts"]) (simp add: row_parts_def table_items_def)
qed

lemma lookup_rows_images:
  "lookup_rows False G D X = (\<lambda>(t, mn). id_name_row (metric_id t) mn) ` G \<union> (\<lambda>(t, mn). id_tsid_row t) ` G
    \<union> (\<lambda>(d, t, mn). day_id_row d (metric_id t)) ` D \<union> (\<lambda>(d, t, mn). day_name_row d mn t) ` D \<union> deleted_row ` X"
  unfolding lookup_rows_def by (intro arg_cong2 [where f = union]) force+

lemma two_series_table:
  assumes "length (mn_marshal mn []) \<le> 60000"
  shows "\<exists>parts. list_all2 (table_part stored_zstd) (row_parts (two_series_rows mn)) parts \<and> length (table_items (row_parts (two_series_rows mn))) < 10
    \<and> table_has False (row_parts (two_series_rows mn)) {(Tsid 0 0 0 1, mn), (Tsid 0 0 0 2, mn)} {(5, Tsid 0 0 0 1, mn), (5, Tsid 0 0 0 2, mn)} {1}"
proof -
  have "\<forall>r \<in> set (two_series_rows mn). r \<noteq> [] \<and> length r \<le> MAX_INMEMORY_BLOCK_SIZE"
    using assms by (simp add: two_series_rows_def row_defs MAX_INMEMORY_BLOCK_SIZE_def MARSHALED_TSID_SIZE_def)
  then obtain parts where p: "list_all2 (table_part stored_zstd) (row_parts (two_series_rows mn)) parts"
    "table_items (row_parts (two_series_rows mn)) = two_series_rows mn"
    using rows_table by blast
  moreover have "table_has False (row_parts (two_series_rows mn)) {(Tsid 0 0 0 1, mn), (Tsid 0 0 0 2, mn)} {(5, Tsid 0 0 0 1, mn), (5, Tsid 0 0 0 2, mn)} {1}"
    unfolding table_has_def p(2) lookup_rows_images Collect_conj_eq Collect_mem_eq
    by (simp add: two_series_rows_def insert_commute Int_insert_left)
  moreover have "length (two_series_rows mn) < 10" by (simp add: two_series_rows_def)
  ultimately show ?thesis by auto
qed

text \<open>
  C6: looking up a metric name for a date in the index returns the least registered series with that name
  which is not among the deleted ones, and false exactly when there is no such series. Globally registered
  names are consulted when the index for days is off. The lookup ends and does not panic when the table
  holds the rows that registration writes, whatever happens to the cache of blocks meanwhile; in each part
  no block but the last may consist of several equal rows.\<close>

theorem get_tsid_by_metric_name_correct:
  assumes "zstd_ok Z" "zstd_bounded Z" "list_all2 (table_part Z) bss parts" "table_has (disable_per_day_index db) bss G D X"
    "uset_invar dmis" "length (table_items bss) < fuel"
  shows "\<exists>ts dst' ok. get_tsid_by_metric_name Z fuel db dmis (ts_new env parts) dst (mn_marshal mn []) d = Some (ts, dst', ok)
    \<and> (let S = {t \<in> series_of (disable_per_day_index db) G D d mn. metric_id t \<notin> uset_set dmis} in
       if S = {} then \<not> ok else ok \<and> dst' \<in> S \<and> (\<forall>t \<in> S. dst' \<le> t))"
  using tsid_by_name [OF cursor_over_new [OF assms(1-3), of env] assms(4-6), of dst mn d] by blast

theorem get_tsid_by_metric_name_witness:
  "\<exists>mn parts ts dmis. list_all2 (table_part stored_zstd) (row_parts (two_series_rows mn)) parts \<and> uset_set dmis = {1}
    \<and> get_tsid_by_metric_name stored_zstd 10 \<lparr>no_register_new_series = False, disable_per_day_index = False\<rparr> dmis (ts_new (\<lambda>_. [[OtherPut 0 0]]) parts)
        (Tsid 0 0 0 0) (mn_marshal mn []) 5 = Some (ts, Tsid 0 0 0 2, True)"
proof -
  let ?db = "\<lparr>no_register_new_series = False, disable_per_day_index = False\<rparr>" and ?mn = "\<lparr>metric_group = [], mn_tags = []\<rparr>"
  let ?G = "{(Tsid 0 0 0 1, ?mn), (Tsid 0 0 0 2, ?mn)}" and ?D = "{(5 :: u64, Tsid 0 0 0 1, ?mn), (5, Tsid 0 0 0 2, ?mn)}"
  have "length (mn_marshal ?mn []) \<le> 60000" by (simp add: mn_marshal_eq marshal_tag_value_eq escaped_def)
  then obtain parts where p: "list_all2 (table_part stored_zstd) (row_parts (two_series_rows ?mn)) parts"
    "length (table_items (row_parts (two_series_rows ?mn))) < 10"
    "table_has (disable_per_day_index ?db) (row_parts (two_series_rows ?mn)) ?G ?D {1}"
    using two_series_table [of ?mn] by auto
  have d: "uset_invar (uset_add uset_default 1)" "uset_set (uset_add uset_default 1) = {1}"
    using uset_add_correct [OF uset_default_empty(1), of 1] uset_default_empty(2) by auto
  have S: "{t \<in> series_of (disable_per_day_index ?db) ?G ?D 5 ?mn. metric_id t \<notin> uset_set (uset_add uset_default 1)} = {Tsid 0 0 0 2}"
    by (auto simp: series_of_def d(2))
  obtain ts dst ok where "get_tsid_by_metric_name stored_zstd 10 ?db (uset_add uset_default 1) (ts_new (\<lambda>_. [[OtherPut 0 0]]) parts) (Tsid 0 0 0 0) (mn_marshal ?mn []) 5 = Some (ts, dst, ok)"
    "if {Tsid 0 0 0 2} = {} then \<not> ok else ok \<and> dst \<in> {Tsid 0 0 0 2} \<and> (\<forall>t \<in> {Tsid 0 0 0 2}. dst \<le> t)"
    using get_tsid_by_metric_name_correct [OF stored_zstd_ok stored_zstd_bounded p(1,3) d(1) p(2), of "\<lambda>_. [[OtherPut 0 0]]" "Tsid 0 0 0 0" ?mn 5, unfolded S Let_def] by blast
  with p(1) d(2) show ?thesis by auto
qed

text \<open>
  C17: the lookups by metric id return the name and the series registered under the id, and report a missing
  id as missing; the lookup of a day and an id succeeds exactly when the series is registered for the day.
  None of them panics, whatever happens to the cache of blocks meanwhile; in each part no block but the last
  may consist of several equal rows.\<close>

theorem lookups_by_metric_id_correct:
  assumes "zstd_ok Z" "zstd_bounded Z" "list_all2 (table_part Z) bss parts" "table_has w bss G D X" "unique_ids_in G"
  shows "\<exists>ts1 ts2 ts3 name tsid. let known = m \<in> metric_id ` fst ` G in
      search_metric_name Z (ts_new env parts) dst m = Some (ts1, dst @ name, known)
    \<and> get_tsid_by_metric_id Z (ts_new env parts) tsid0 m = Some (ts2, tsid, known)
    \<and> has_metric_id_slow Z (ts_new env parts) m = Some (ts2, known)
    \<and> has_date_metric_id_slow Z (ts_new env parts) d m = Some (ts3, \<exists>t mn. (d, t, mn) \<in> D \<and> metric_id t = m)
    \<and> (if known then \<exists>mn. (tsid, mn) \<in> G \<and> metric_id tsid = m \<and> name = mn_marshal mn [] else name = [] \<and> tsid = tsid0)"
proof -
  note over = cursor_over_new [OF assms(1-3), of env]
  note names = name_by_id [OF over assms(4,5)] and tsids = tsid_by_id [OF over assms(4,5)]
  obtain ts3 where day: "has_date_metric_id_slow Z (ts_new env parts) d m = Some (ts3, \<exists>t mn. (d, t, mn) \<in> D \<and> metric_id t = m)"
    using day_by_id [OF over assms(4)] by blast
  show ?thesis
  proof (cases "m \<in> metric_id ` fst ` G")
    case True
    then obtain t mn where g: "(t, mn) \<in> G" "m = metric_id t" by auto
    obtain ts1 where n: "search_metric_name Z (ts_new env parts) dst m = Some (ts1, dst @ mn_marshal mn [], True)"
      using names(1) [OF g(1)] g(2) by blast
    obtain ts2 where "get_tsid_by_metric_id Z (ts_new env parts) tsid0 m = Some (ts2, t, True)" "has_metric_id_slow Z (ts_new env parts) m = Some (ts2, True)"
      using tsids(1) [OF g(1)] g(2) by blast
    with n day True g show ?thesis unfolding Let_def by (intro exI [of _ ts1] exI [of _ ts2] exI [of _ ts3] exI [of _ "mn_marshal mn []"] exI [of _ t]) auto
  next
    case False
    obtain ts1 where n: "search_metric_name Z (ts_new env parts) dst m = Some (ts1, dst, False)" using names(2) [OF False] by blast
    obtain ts2 where "get_tsid_by_metric_id Z (ts_new env parts) tsid0 m = Some (ts2, tsid0, False)" "has_metric_id_slow Z (ts_new env parts) m = Some (ts2, False)"
      using tsids(2) [OF False] by blast
    with n day False show ?thesis unfolding Let_def
      by (intro exI [of _ ts1] exI [of _ ts2] exI [of _ ts3] exI [of _ "[]"] exI [of _ tsid0]) auto
  qed
qed

theorem lookups_by_metric_id_witness:
  "\<exists>mn parts ts1 ts2 ts3. list_all2 (table_part stored_zstd) (row_parts (two_series_rows mn)) parts
    \<and> search_metric_name stored_zstd (ts_new (\<lambda>_. [[OtherPut 0 0]]) parts) [7] 2 = Some (ts1, [7] @ mn_marshal mn [], True)
    \<and> get_tsid_by_metric_id stored_zstd (ts_new (\<lambda>_. [[OtherPut 0 0]]) parts) (Tsid 0 0 0 0) 2 = Some (ts2, Tsid 0 0 0 2, True)
    \<and> has_date_metric_id_slow stored_zstd (ts_new (\<lambda>_. [[OtherPut 0 0]]) parts) 6 2 = Some (ts3, False)"
proof -
  let ?mn = "\<lparr>metric_group = [], mn_tags = []\<rparr>"
  let ?G = "{(Tsid 0 0 0 1, ?mn), (Tsid 0 0 0 2, ?mn)}" and ?D = "{(5 :: u64, Tsid 0 0 0 1, ?mn), (5, Tsid 0 0 0 2, ?mn)}"
  have "length (mn_marshal ?mn []) \<le> 60000" by (simp add: mn_marshal_eq marshal_tag_value_eq escaped_def)
  then obtain parts where p: "list_all2 (table_part stored_zstd) (row_parts (two_series_rows ?mn)) parts"
    "table_has False (row_parts (two_series_rows ?mn)) ?G ?D {1}"
    using two_series_table [of ?mn] by auto
  have u: "unique_ids_in ?G" by (simp add: unique_ids_in_def)
  from lookups_by_metric_id_correct [OF stored_zstd_ok stored_zstd_bounded p u, where env = "\<lambda>_. [[OtherPut 0 0]]" and m = 2 and dst = "[7]" and ?tsid0.0 = "Tsid 0 0 0 0" and d = 6] p(1)
  show ?thesis by (auto simp: Let_def)
qed

text \<open>
  C10: when the index is opened again, exactly the ids that were saved as deleted are loaded, and a lookup by
  name that uses them finds the least series of the name that was not deleted, whatever happens to the
  cache of blocks meanwhile; in each part no block but the last may consist of several equal rows.\<close>

theorem deleted_series_stay_hidden:
  assumes "zstd_ok Z" "zstd_bounded Z" "list_all2 (table_part Z) bss parts" "table_has (disable_per_day_index db) bss G D X"
    "length (table_items bss) < fuel"
  shows "\<exists>dmis ts dst' ok. load_deleted_metric_ids Z fuel (ts_new env parts) = Some (Inr dmis) \<and> uset_set dmis = X
    \<and> get_tsid_by_metric_name Z fuel db dmis (ts_new env' parts) dst (mn_marshal mn []) d = Some (ts, dst', ok)
    \<and> (let S = {t \<in> series_of (disable_per_day_index db) G D d mn. metric_id t \<notin> X} in
       if S = {} then \<not> ok else ok \<and> dst' \<in> S \<and> (\<forall>t \<in> S. dst' \<le> t))"
proof -
  note over = cursor_over_new [OF assms(1-3), of env]
  obtain s where s: "load_deleted_metric_ids Z fuel (ts_new env parts) = Some (Inr s)" "uset_invar s" "uset_set s = X"
    using deleted_loaded [OF over assms(4,5)] by blast
  from tsid_by_name [OF cursor_over_new [OF assms(1-3), of env'] assms(4) s(2) assms(5), of dst mn d, unfolded s(3)] s(1,3) show ?thesis by blast
qed

theorem deleted_series_stay_hidden_witness:
  "\<exists>mn parts ts dmis. list_all2 (table_part stored_zstd) (row_parts (two_series_rows mn)) parts
    \<and> load_deleted_metric_ids stored_zstd 10 (ts_new (\<lambda>_. [[OtherPut 0 0]]) parts) = Some (Inr dmis)
    \<and> get_tsid_by_metric_name stored_zstd 10 \<lparr>no_register_new_series = False, disable_per_day_index = False\<rparr> dmis (ts_new (\<lambda>_. [[OtherPut 0 0]]) parts)
        (Tsid 0 0 0 0) (mn_marshal mn []) 5 = Some (ts, Tsid 0 0 0 2, True)"
proof -
  let ?db = "\<lparr>no_register_new_series = False, disable_per_day_index = False\<rparr>" and ?mn = "\<lparr>metric_group = [], mn_tags = []\<rparr>"
  let ?G = "{(Tsid 0 0 0 1, ?mn), (Tsid 0 0 0 2, ?mn)}" and ?D = "{(5 :: u64, Tsid 0 0 0 1, ?mn), (5, Tsid 0 0 0 2, ?mn)}"
  have "length (mn_marshal ?mn []) \<le> 60000" by (simp add: mn_marshal_eq marshal_tag_value_eq escaped_def)
  then obtain parts where p: "list_all2 (table_part stored_zstd) (row_parts (two_series_rows ?mn)) parts"
    "length (table_items (row_parts (two_series_rows ?mn))) < 10"
    "table_has (disable_per_day_index ?db) (row_parts (two_series_rows ?mn)) ?G ?D {1}"
    using two_series_table [of ?mn] by auto
  have S: "{t \<in> series_of (disable_per_day_index ?db) ?G ?D 5 ?mn. metric_id t \<notin> {1}} = {Tsid 0 0 0 2}"
    by (auto simp: series_of_def)
  obtain dmis ts dst ok where "load_deleted_metric_ids stored_zstd 10 (ts_new (\<lambda>_. [[OtherPut 0 0]]) parts) = Some (Inr dmis)"
    "get_tsid_by_metric_name stored_zstd 10 ?db dmis (ts_new (\<lambda>_. [[OtherPut 0 0]]) parts) (Tsid 0 0 0 0) (mn_marshal ?mn []) 5 = Some (ts, dst, ok)"
    "if {Tsid 0 0 0 2} = {} then \<not> ok else ok \<and> dst \<in> {Tsid 0 0 0 2} \<and> (\<forall>t \<in> {Tsid 0 0 0 2}. dst \<le> t)"
    using deleted_series_stay_hidden [OF stored_zstd_ok stored_zstd_bounded p(1,3,2), of "\<lambda>_. [[OtherPut 0 0]]" "\<lambda>_. [[OtherPut 0 0]]" "Tsid 0 0 0 0" ?mn 5, unfolded S Let_def] by blast
  with p(1) show ?thesis by auto
qed

end
