(* ===== verification/Regexp_Match.thy ===== *)
theory Regexp_Match
  imports Metric_Name
begin

text \<open>
  Matchers for the regular expressions of tag filters (\<open>crates/esm-storage/src/index/tag_filters.rs\<close>, the
  second half). They run on the escaped form of tag values, as the index has them.

  The package \<open>regex\<close> and the simplification of expressions (\<open>esm-common/src/regexutil.rs\<close>) are the record
  \<open>regex_lib\<close>. Expressions are the bytes of a \<open>str\<close>. The caches of simplified and compiled
  expressions return what is computed again otherwise, and are left out.
\<close>

section \<open>Model\<close>

definition FULL_MATCH_COST :: u64 where "FULL_MATCH_COST = 1"
definition PREFIX_MATCH_COST :: u64 where "PREFIX_MATCH_COST = 2"
definition LITERAL_MATCH_COST :: u64 where "LITERAL_MATCH_COST = 3"
definition SUFFIX_MATCH_COST :: u64 where "SUFFIX_MATCH_COST = 4"
definition MIDDLE_MATCH_COST :: u64 where "MIDDLE_MATCH_COST = 6"
definition RE_MATCH_COST :: u64 where "RE_MATCH_COST = 100"

record regex_lib =
  simplify_prom_regex :: "bytes \<Rightarrow> bytes \<times> bytes"
  get_or_values_prom_regex :: "bytes \<Rightarrow> bytes list"
  regex_new :: "bytes \<Rightarrow> (bytes \<Rightarrow> bool) option"

text \<open>\<open>strip_prefix\<close>, \<open>strip_suffix\<close>, \<open>starts_with\<close> and \<open>ends_with\<close> of \<open>str\<close> and of slices.\<close>

definition ends_with :: "bytes \<Rightarrow> bytes \<Rightarrow> bool" where
  "ends_with s p \<longleftrightarrow> length p \<le> length s \<and> drop (length s - length p) s = p"

definition strip_prefix :: "bytes \<Rightarrow> bytes \<Rightarrow> bytes option" where
  "strip_prefix s p = (if take (length p) s = p then Some (drop (length p) s) else None)"

definition strip_suffix :: "bytes \<Rightarrow> bytes \<Rightarrow> bytes option" where
  "strip_suffix s p = (if ends_with s p then Some (take (length s - length p) s) else None)"

text \<open>\<open>u8::from_str_radix\<close> on two bytes: hexadecimal digits, or a plus sign and a digit.\<close>

definition hex_digit :: "u8 \<Rightarrow> u8 option" where
  "hex_digit c =
    (if 48 \<le> c \<and> c \<le> 57 then Some (c - 48)
     else if 97 \<le> c \<and> c \<le> 102 then Some (c - 87)
     else if 65 \<le> c \<and> c \<le> 70 then Some (c - 55)
     else None)"

definition hex_u8 :: "u8 \<Rightarrow> u8 \<Rightarrow> u8 option" where
  "hex_u8 a b =
    (if a = 43 then hex_digit b
     else case (hex_digit a, hex_digit b) of (Some x, Some y) \<Rightarrow> Some (16 * x + y) | _ \<Rightarrow> None)"

definition regexp_metachars :: bytes where
  "regexp_metachars = ascii ''.+*?()|[]{}^$''"

definition regexp_escapable :: bytes where
  "regexp_escapable = regexp_metachars @ [92, 45, 47]"

fun parse_literal_loop :: "bytes \<Rightarrow> bytes \<Rightarrow> bytes option" where
  "parse_literal_loop [] out = Some out"
| "parse_literal_loop (c # src) out =
    (if c = 92 then
       (case src of
          [] \<Rightarrow> None
        | e # src \<Rightarrow>
          if e = 120 then
            (case src of
               a # b # src \<Rightarrow> (case hex_u8 a b of None \<Rightarrow> None | Some v \<Rightarrow> parse_literal_loop src (out @ [v]))
             | _ \<Rightarrow> None)
          else if e \<in> set regexp_escapable then parse_literal_loop src (out @ [e])
          else None)
     else if c \<in> set regexp_metachars then None
     else parse_literal_loop src (out @ [c]))"

definition parse_regexp_literal :: "bytes \<Rightarrow> bytes option" where
  "parse_regexp_literal s = parse_literal_loop s []"

definition contains_bytes :: "bytes \<Rightarrow> bytes \<Rightarrow> bool" where
  "contains_bytes haystack needle =
    (if needle = [] then True
     else if length needle > length haystack then False
     else list_ex (\<lambda>i. take (length needle) (drop i haystack) = needle) [0..<length haystack - length needle + 1])"

datatype Dot = DotNone | DotStar | DotPlus

definition strip_head :: "bytes \<Rightarrow> Dot \<times> bytes" where
  "strip_head expr =
    (case strip_prefix expr (ascii ''.*'') of
       Some rest \<Rightarrow> (DotStar, rest)
     | None \<Rightarrow> (case strip_prefix expr (ascii ''.+'') of Some rest \<Rightarrow> (DotPlus, rest) | None \<Rightarrow> (DotNone, expr)))"

definition strip_tail :: "bytes \<Rightarrow> Dot \<times> bytes" where
  "strip_tail rest =
    (case strip_suffix rest (ascii ''.*'') of
       Some middle \<Rightarrow> (DotStar, middle)
     | None \<Rightarrow> (case strip_suffix rest (ascii ''.+'') of Some middle \<Rightarrow> (DotPlus, middle) | None \<Rightarrow> (DotNone, rest)))"

fun literal_match_func :: "Dot \<Rightarrow> bytes \<Rightarrow> Dot \<Rightarrow> (bytes \<Rightarrow> bool) \<times> u64" where
  "literal_match_func DotNone lit DotNone = (\<lambda>b. b = lit, LITERAL_MATCH_COST)"
| "literal_match_func DotNone lit DotStar = (\<lambda>b. take (length lit) b = lit, PREFIX_MATCH_COST)"
| "literal_match_func DotNone lit DotPlus = (\<lambda>b. length b > length lit \<and> take (length lit) b = lit, PREFIX_MATCH_COST)"
| "literal_match_func DotStar lit DotNone = (\<lambda>b. ends_with b lit, SUFFIX_MATCH_COST)"
| "literal_match_func DotPlus lit DotNone = (\<lambda>b. length b > length lit \<and> ends_with (drop 1 b) lit, SUFFIX_MATCH_COST)"
| "literal_match_func DotStar lit DotStar = (\<lambda>b. contains_bytes b lit, MIDDLE_MATCH_COST)"
| "literal_match_func DotStar lit DotPlus = (\<lambda>b. length b > length lit \<and> contains_bytes (take (length b - 1) b) lit, MIDDLE_MATCH_COST)"
| "literal_match_func DotPlus lit DotStar = (\<lambda>b. length b > length lit \<and> contains_bytes (drop 1 b) lit, MIDDLE_MATCH_COST)"
| "literal_match_func DotPlus lit DotPlus =
    (\<lambda>b. length b > length lit + 1 \<and> contains_bytes (drop 1 (take (length b - 1) b)) lit, MIDDLE_MATCH_COST)"

definition get_optimized_re_match_func :: "(bytes \<Rightarrow> bool) \<Rightarrow> bytes \<Rightarrow> (bytes \<Rightarrow> bool) \<times> u64" where
  "get_optimized_re_match_func re expr =
    (let (head, rest) = strip_head expr; (tail, middle) = strip_tail rest in
     if middle = [] \<and> tail = DotNone \<and> head = DotStar then (\<lambda>_. True, FULL_MATCH_COST)
     else if middle = [] \<and> tail = DotNone \<and> head = DotPlus then (\<lambda>b. b \<noteq> [], FULL_MATCH_COST)
     else
       case parse_regexp_literal middle of
         Some lit \<Rightarrow> if lit \<noteq> [] then literal_match_func head lit tail else (re, RE_MATCH_COST)
       | None \<Rightarrow> (re, RE_MATCH_COST))"

text \<open>\<open>str::from_utf8\<close>.\<close>

definition utf8_cont :: "u8 \<Rightarrow> bool" where
  "utf8_cont c \<longleftrightarrow> 0x80 \<le> c \<and> c \<le> 0xbf"

fun valid_utf8 :: "bytes \<Rightarrow> bool" where
  "valid_utf8 [] = True"
| "valid_utf8 (b # bs) =
    (if b < 0x80 then valid_utf8 bs
     else if 0xc2 \<le> b \<and> b \<le> 0xdf then (case bs of c # bs \<Rightarrow> utf8_cont c \<and> valid_utf8 bs | _ \<Rightarrow> False)
     else if 0xe0 \<le> b \<and> b \<le> 0xef then
       (case bs of
          c # d # bs \<Rightarrow> utf8_cont c \<and> (b = 0xe0 \<longrightarrow> 0xa0 \<le> c) \<and> (b = 0xed \<longrightarrow> c \<le> 0x9f) \<and> utf8_cont d \<and> valid_utf8 bs
        | _ \<Rightarrow> False)
     else if 0xf0 \<le> b \<and> b \<le> 0xf4 then
       (case bs of
          c # d # e # bs \<Rightarrow> utf8_cont c \<and> (b = 0xf0 \<longrightarrow> 0x90 \<le> c) \<and> (b = 0xf4 \<longrightarrow> c \<le> 0x8f)
            \<and> utf8_cont d \<and> utf8_cont e \<and> valid_utf8 bs
        | _ \<Rightarrow> False)
     else False)"

fun escape_regexp_loop :: "bytes \<Rightarrow> bytes \<Rightarrow> bytes" where
  "escape_regexp_loop [] dst = dst"
| "escape_regexp_loop (c # src) dst =
    (if take 4 (c # src) = 92 # ascii ''x00'' then escape_regexp_loop (drop 3 src) (dst @ 92 # ascii ''x000'')
     else if take 4 (c # src) = 92 # ascii ''x01'' then escape_regexp_loop (drop 3 src) (dst @ 92 # ascii ''x001'')
     else if take 4 (c # src) = 92 # ascii ''x02'' then escape_regexp_loop (drop 3 src) (dst @ 92 # ascii ''x002'')
     else if c = 0 then escape_regexp_loop src (dst @ 92 # ascii ''x000'')
     else if c = 1 then escape_regexp_loop src (dst @ 92 # ascii ''x001'')
     else if c = 2 then escape_regexp_loop src (dst @ 92 # ascii ''x002'')
     else escape_regexp_loop src (dst @ [c]))"

definition tag_chars_regexp_escape :: "bytes \<Rightarrow> bytes option" where
  "tag_chars_regexp_escape expr =
    (let dst = escape_regexp_loop expr [] in if valid_utf8 dst then Some dst else None)"

definition new_match_func_for_or_suffixes :: "bytes list \<Rightarrow> (bytes \<Rightarrow> bool) \<times> u64" where
  "new_match_func_for_or_suffixes or_vals =
    (let cost = of_nat (length or_vals) * LITERAL_MATCH_COST in
     if length or_vals = 1 then (\<lambda>b. b = or_vals ! 0, cost)
     else (\<lambda>b. list_ex (\<lambda>v. b = v) or_vals, cost))"

record RegexpCacheValue =
  or_values :: "bytes list"
  re_match :: "bytes \<Rightarrow> bool"
  re_cost :: u64

datatype regexp_err = InvalidRegexp bytes

definition get_regexp_from_cache :: "regex_lib \<Rightarrow> bytes \<Rightarrow> (regexp_err, RegexpCacheValue) res" where
  "get_regexp_from_cache R expr =
    rbind (or_panic (tag_chars_regexp_escape expr)) (\<lambda>escaped_expr.
    let expr_anchored = ascii ''^(?:'' @ escaped_expr @ ascii '')$'' in
    rbind (ok_or (InvalidRegexp expr_anchored) (regex_new R expr_anchored)) (\<lambda>re.
    let or_vals = get_or_values_prom_regex R escaped_expr;
        (m, cost) = (if or_vals \<noteq> [] then new_match_func_for_or_suffixes or_vals
                     else get_optimized_re_match_func re escaped_expr)
    in Inr \<lparr>or_values = or_vals, re_match = m, re_cost = cost\<rparr>))"

section \<open>Specification\<close>

text \<open>What a leading or trailing \<open>.*\<close> or \<open>.+\<close> matches.\<close>

fun dot_bytes :: "Dot \<Rightarrow> bytes" where
  "dot_bytes DotNone = []"
| "dot_bytes DotStar = ascii ''.*''"
| "dot_bytes DotPlus = ascii ''.+''"

fun dot_matches :: "Dot \<Rightarrow> bytes \<Rightarrow> bool" where
  "dot_matches DotNone x \<longleftrightarrow> x = []"
| "dot_matches DotStar x \<longleftrightarrow> True"
| "dot_matches DotPlus x \<longleftrightarrow> x \<noteq> []"

text \<open>Bytes behind which anything is as valid as on its own.\<close>

definition utf8_whole :: "bytes \<Rightarrow> bool" where
  "utf8_whole dst \<longleftrightarrow> (\<forall>z. valid_utf8 (dst @ z) \<longleftrightarrow> valid_utf8 z)"

section \<open>Literals between dots\<close>

lemma ascii_dots [simp]: "ascii ''.*'' = [46, 42]" "ascii ''.+'' = [46, 43]"
  by (simp_all add: ascii_def)

lemma set_regexp_metachars [simp]: "set regexp_metachars = {46, 43, 42, 63, 40, 41, 124, 91, 93, 123, 125, 94, 36}"
  by (simp add: regexp_metachars_def ascii_def)

lemma ends_with_iff: "ends_with s p \<longleftrightarrow> (\<exists>x. s = x @ p)"
proof
  assume "ends_with s p"
  then show "\<exists>x. s = x @ p" by (metis append_take_drop_id ends_with_def)
qed (auto simp: ends_with_def)

lemma take_length_iff: "take (length p) s = p \<longleftrightarrow> (\<exists>y. s = p @ y)"
  by (metis append_eq_conv_conj append_take_drop_id)

lemma contains_bytes_iff: "contains_bytes s p \<longleftrightarrow> (\<exists>x y. s = x @ p @ y)"
proof
  assume c: "contains_bytes s p"
  show "\<exists>x y. s = x @ p @ y"
  proof (cases "p = []")
    case False
    with c obtain i where "take (length p) (drop i s) = p"
      unfolding contains_bytes_def list_ex_iff by (metis (no_types, lifting))
    then obtain y where "drop i s = p @ y" by (auto simp: take_length_iff)
    then show ?thesis by (metis append_take_drop_id)
  qed (auto intro: exI [of _ s])
next
  assume "\<exists>x y. s = x @ p @ y"
  then obtain x y where s: "s = x @ p @ y" by blast
  have "length x < length s - length p + 1" "take (length p) (drop (length x) s) = p" "length p \<le> length s" by (simp_all add: s)
  then show "contains_bytes s p" by (auto simp: contains_bytes_def list_ex_iff simp del: upt_Suc intro!: bexI [of _ "length x"])
qed

lemma cut_first: "(\<exists>x y. c # m = x @ lit @ y \<and> x \<noteq> [] \<and> P y) \<longleftrightarrow> (\<exists>x y. m = x @ lit @ y \<and> P y)"
  by (auto simp: Cons_eq_append_conv)

lemma cut_last: "(\<exists>x y. m @ [d] = x @ lit @ y \<and> P x \<and> y \<noteq> []) \<longleftrightarrow> (\<exists>x y. m = x @ lit @ y \<and> P x)"
proof
  assume "\<exists>x y. m @ [d] = x @ lit @ y \<and> P x \<and> y \<noteq> []"
  then obtain x y where e: "m @ [d] = x @ lit @ y" "P x" "y \<noteq> []" by blast
  from e(3) obtain y' d' where y: "y = y' @ [d']" by (metis rev_exhaust)
  from e(1) have "m = x @ lit @ y'" by (simp add: y flip: append_assoc)
  with e(2) show "\<exists>x y. m = x @ lit @ y \<and> P x" by blast
next
  assume "\<exists>x y. m = x @ lit @ y \<and> P x"
  then obtain x y where "m @ [d] = x @ lit @ y @ [d]" "P x" by auto
  then show "\<exists>x y. m @ [d] = x @ lit @ y \<and> P x \<and> y \<noteq> []" by blast
qed

lemma literal_match_func_correct:
  "fst (literal_match_func head lit tail) b \<longleftrightarrow> (\<exists>x y. b = x @ lit @ y \<and> dot_matches head x \<and> dot_matches tail y)"
proof -
  have star_plus: "length b > length lit \<and> (\<exists>x y. take (length b - 1) b = x @ lit @ y \<and> P x) \<longleftrightarrow> (\<exists>x y. b = x @ lit @ y \<and> P x \<and> y \<noteq> [])" for P b
  proof (cases b rule: rev_cases)
    case (snoc m d)
    show ?thesis unfolding snoc cut_last by auto
  qed simp
  have plus_star: "length b > length lit \<and> (\<exists>x y. drop 1 b = x @ lit @ y \<and> P y) \<longleftrightarrow> (\<exists>x y. b = x @ lit @ y \<and> x \<noteq> [] \<and> P y)" for P b
  proof (cases b)
    case (Cons c m)
    show ?thesis unfolding Cons cut_first by auto
  qed simp
  have plus_plus: "length b > length lit + 1 \<and> (\<exists>x y. drop 1 (take (length b - 1) b) = x @ lit @ y) \<longleftrightarrow> (\<exists>x y. b = x @ lit @ y \<and> x \<noteq> [] \<and> y \<noteq> [])"
  proof (cases b rule: rev_cases)
    case (snoc m d)
    show ?thesis unfolding snoc cut_last [of m d lit "\<lambda>x. x \<noteq> []"] using plus_star [of m "\<lambda>_. True"] by simp
  qed simp
  have none_plus: "length b > length lit \<and> (\<exists>y. b = lit @ y) \<longleftrightarrow> (\<exists>y. b = lit @ y \<and> y \<noteq> [])" by auto
  show ?thesis
    using none_plus star_plus [of b "\<lambda>_. True"] star_plus [of b "\<lambda>x. x = []"] plus_star [of b "\<lambda>_. True"] plus_star [of b "\<lambda>y. y = []"] plus_plus
    by (cases head; cases tail) (simp_all add: ends_with_iff take_length_iff contains_bytes_iff)
qed

text \<open>A literal neither starts nor ends with an unescaped dot pattern.\<close>

lemma literal_head: "parse_literal_loop m out = Some lit \<Longrightarrow> strip_head (m @ z) = (DotNone, m @ z) \<or> m = []"
  by (cases m) (auto simp: strip_head_def strip_prefix_def)

lemma literal_last:
  "parse_literal_loop m out = Some lit \<Longrightarrow> m \<noteq> [] \<Longrightarrow> last m = c \<Longrightarrow> c \<in> {42, 43} \<Longrightarrow> \<exists>m'. m = m' @ [92, c]"
proof (induction m out rule: parse_literal_loop.induct)
  case (2 d src out)
  note IH = "2.IH" and prems = "2.prems"
  have step: "\<exists>m'. ds @ src' = m' @ [92, c]" if "src' \<noteq> [] \<Longrightarrow> \<exists>m'. src' = m' @ [92, c]" "src' \<noteq> []" for ds src'
    using that by (metis append_assoc)
  show ?case
  proof (cases "d = 92")
    case False
    then have p: "parse_literal_loop src (out @ [d]) = Some lit" "d \<notin> set regexp_metachars" using prems(1) by (auto split: if_splits)
    then have "src \<noteq> []" using prems(3,4) by auto
    with IH(3) [OF False p(2) p(1)] prems(3,4) step [of src "[d]"] show ?thesis by simp
  next
    case True
    then obtain e src1 where s1: "src = e # src1" using prems(1) by (auto split: list.splits)
    show ?thesis
    proof (cases "e = 120")
      case hex: True
      then obtain a b src2 v where s2: "src1 = a # b # src2" "hex_u8 a b = Some v" "parse_literal_loop src2 (out @ [v]) = Some lit"
        using prems(1) True s1 by (auto split: list.splits option.splits)
      have "src2 \<noteq> []" using prems(3,4) s1 s2(1,2) by (auto simp: hex_u8_def hex_digit_def split: option.splits if_splits)
      with IH(1) [OF True s1 hex s2(1) refl s2(2) s2(3)] prems(3,4) s1 s2(1) step [of src2 "[d, e, a, b]"] show ?thesis by simp
    next
      case False
      then have p: "parse_literal_loop src1 (out @ [e]) = Some lit" "e \<in> set regexp_escapable" using prems(1) True s1 by (auto split: if_splits)
      show ?thesis
      proof (cases "src1 = []")
        case empty: True
        then show ?thesis using prems(3) True s1 by auto
      next
        case ne: False
        with IH(2) [OF True s1 False p(2) p(1)] prems(3,4) s1 step [of src1 "[d, e]"] show ?thesis by simp
      qed
    qed
  qed
qed simp

lemma literal_tail: "parse_literal_loop m out = Some lit \<Longrightarrow> strip_tail (m @ dot_bytes tail) = (tail, m)"
proof -
  assume m: "parse_literal_loop m out = Some lit"
  have no: "\<not> ends_with m [46, c]" if "c \<in> {42, 43}" for c
  proof
    assume "ends_with m [46, c]"
    then obtain x where x: "m = x @ [46, c]" by (auto simp: ends_with_iff)
    then show False using literal_last [OF m _ _ that] by auto
  qed
  show ?thesis by (cases tail) (auto simp: strip_tail_def strip_suffix_def no, auto simp: ends_with_def)
qed

lemma literal_not_empty: "parse_literal_loop m out = Some lit \<Longrightarrow> lit \<noteq> out \<Longrightarrow> m \<noteq> []"
  by auto

lemma strip_head_dots: "parse_literal_loop m [] = Some lit \<Longrightarrow> lit \<noteq> [] \<Longrightarrow> strip_head (dot_bytes head @ m @ z) = (head, m @ z)"
  by (cases head) (use literal_head [of m "[]" lit z] literal_not_empty [of m "[]" lit] in \<open>auto simp: strip_head_def strip_prefix_def\<close>)

lemma optimized_literal:
  assumes "parse_regexp_literal middle = Some lit" "lit \<noteq> []"
  shows "fst (get_optimized_re_match_func re (dot_bytes head @ middle @ dot_bytes tail)) b
    \<longleftrightarrow> (\<exists>x y. b = x @ lit @ y \<and> dot_matches head x \<and> dot_matches tail y)"
proof -
  note m = assms(1) [unfolded parse_regexp_literal_def]
  have "middle \<noteq> []" using literal_not_empty [OF m] assms(2) by simp
  then show ?thesis
    unfolding get_optimized_re_match_func_def strip_head_dots [OF m assms(2)] using assms(2)
    by (simp add: literal_tail [OF m] assms literal_match_func_correct)
qed

section \<open>Escaped expressions\<close>

lemma utf8_whole_append: "utf8_whole dst \<Longrightarrow> utf8_whole x \<Longrightarrow> utf8_whole (dst @ x)"
  by (simp add: utf8_whole_def)

lemma utf8_whole_ascii: "list_all (\<lambda>c. c < 0x80) x \<Longrightarrow> utf8_whole x"
  by (induction x) (auto simp: utf8_whole_def)

lemma escape_high:
  assumes "c \<ge> 0x80"
  shows "escape_regexp_loop (c # src) dst = escape_regexp_loop src (dst @ [c])"
proof -
  have "c \<noteq> 0" "c \<noteq> 1" "c \<noteq> 2" "c \<noteq> 92" using assms by (auto simp: word_le_nat_alt)
  then show ?thesis by (simp add: ascii_def)
qed

lemma escape_low:
  assumes "c < 0x80" "valid_utf8 (c # src)"
  obtains src' x where "escape_regexp_loop (c # src) dst = escape_regexp_loop src' (dst @ x)" "length src' < length (c # src)"
    "valid_utf8 src'" "utf8_whole x"
proof -
  have v: "valid_utf8 src" using assms by simp
  consider (esc) d where "d \<in> {48, 49, 50}" "take 4 (c # src) = [92, 120, 48, d]"
    | (plain) "\<And>d. d \<in> {48, 49, 50} \<Longrightarrow> take 4 (c # src) \<noteq> [92, 120, 48, d]" by blast
  then show thesis
  proof cases
    case esc
    then have "take 3 src = [120, 48, d]" by simp
    then have "src = [120, 48, d] @ drop 3 src" by (metis append_take_drop_id)
    moreover have "utf8_whole [120, 48, d]" using esc(1) by (intro utf8_whole_ascii) auto
    ultimately have "valid_utf8 (drop 3 src)" using v by (metis utf8_whole_def)
    moreover have "escape_regexp_loop (c # src) dst = escape_regexp_loop (drop 3 src) (dst @ [92, 120, 48, 48, d])"
      using esc by (auto simp: ascii_def)
    moreover have "utf8_whole [92, 120, 48, 48, d]" using esc(1) by (intro utf8_whole_ascii) auto
    ultimately show thesis using that [of "drop 3 src" "[92, 120, 48, 48, d]"] by simp
  next
    case plain
    have "take 4 (c # src) \<noteq> [92, 120, 48, 48]" "take 4 (c # src) \<noteq> [92, 120, 48, 49]" "take 4 (c # src) \<noteq> [92, 120, 48, 50]"
      using plain by simp_all
    then have e: "escape_regexp_loop (c # src) dst = escape_regexp_loop src (dst @ (if c \<in> {0, 1, 2} then [92, 120, 48, 48, c + 48] else [c]))"
      by (auto simp: ascii_def)
    have "utf8_whole (if c \<in> {0, 1, 2} then [92, 120, 48, 48, c + 48] else [c])" using assms(1) by (intro utf8_whole_ascii) auto
    with e v show thesis using that [of src] by simp
  qed
qed

lemma valid_utf8_cases:
  assumes "valid_utf8 src"
  obtains (nil) "src = []" | (low) c rest where "src = c # rest" "c < 0x80" "valid_utf8 (c # rest)"
    | (high) x rest where "src = x @ rest" "x \<noteq> []" "list_all (\<lambda>c. c \<ge> 0x80) x" "utf8_whole x" "valid_utf8 rest"
proof (cases src)
  case (Cons b bs)
  show thesis
  proof (cases "b < 0x80")
    case False
    note v = assms [unfolded Cons] and hi = False [unfolded not_less]
    have "\<exists>x rest. src = x @ rest \<and> x \<noteq> [] \<and> list_all (\<lambda>c. c \<ge> 0x80) x \<and> utf8_whole x \<and> valid_utf8 rest"
    proof -
      consider (two) "0xc2 \<le> b \<and> b \<le> 0xdf" | (three) "\<not> (0xc2 \<le> b \<and> b \<le> 0xdf)" "0xe0 \<le> b \<and> b \<le> 0xef"
        | (four) "\<not> (0xc2 \<le> b \<and> b \<le> 0xdf)" "\<not> (0xe0 \<le> b \<and> b \<le> 0xef)" "0xf0 \<le> b \<and> b \<le> 0xf4"
        using v False by (auto simp only: valid_utf8.simps split: if_splits)
      then show ?thesis
      proof cases
        case two
        then obtain c r where s: "bs = c # r" "utf8_cont c" "valid_utf8 r" using v False by (cases bs) auto
        from s(2) have w: "utf8_whole [b, c]" unfolding utf8_whole_def
          by (simp only: append_Cons append_Nil valid_utf8.simps(2) [of b] False two if_True if_False simp_thms list.case)
        from s(2) have "list_all (\<lambda>c. c \<ge> 0x80) [b, c]" using hi by (simp add: utf8_cont_def)
        with w s(3) show ?thesis unfolding Cons s(1) 
          by (intro exI [of _ "[b, c]"] exI [of _ r]) (simp only: append_Cons append_Nil list.distinct simp_thms)
      next
        case three
        obtain c d r where s: "bs = c # d # r" "utf8_cont c \<and> (b = 0xe0 \<longrightarrow> 0xa0 \<le> c) \<and> (b = 0xed \<longrightarrow> c \<le> 0x9f) \<and> utf8_cont d" "valid_utf8 r"
          using v by (simp only: valid_utf8.simps if_False if_True False three simp_thms split: list.splits) blast+
        from s(2) have w: "utf8_whole [b, c, d]" unfolding utf8_whole_def
          by (simp only: append_Cons append_Nil valid_utf8.simps(2) [of b] False three if_True if_False simp_thms list.case) simp
        from s(2) have "list_all (\<lambda>c. c \<ge> 0x80) [b, c, d]" using hi by (simp add: utf8_cont_def)
        with w s(3) show ?thesis unfolding Cons s(1) 
          by (intro exI [of _ "[b, c, d]"] exI [of _ r]) (simp only: append_Cons append_Nil list.distinct simp_thms)
      next
        case four
        obtain c d e r where s: "bs = c # d # e # r"
          "utf8_cont c \<and> (b = 0xf0 \<longrightarrow> 0x90 \<le> c) \<and> (b = 0xf4 \<longrightarrow> c \<le> 0x8f) \<and> utf8_cont d \<and> utf8_cont e" "valid_utf8 r"
          using v by (simp only: valid_utf8.simps if_False if_True False four simp_thms split: list.splits) blast+
        from s(2) have w: "utf8_whole [b, c, d, e]" unfolding utf8_whole_def
          by (simp only: append_Cons append_Nil valid_utf8.simps(2) [of b] False four if_True if_False simp_thms list.case) simp
        from s(2) have "list_all (\<lambda>c. c \<ge> 0x80) [b, c, d, e]" using hi by (simp add: utf8_cont_def)
        with w s(3) show ?thesis unfolding Cons s(1) 
          by (intro exI [of _ "[b, c, d, e]"] exI [of _ r]) (simp only: append_Cons append_Nil list.distinct simp_thms)
      qed
    qed
    then show thesis using high by blast
  qed (use Cons assms low in blast)
qed (rule nil)

lemma escape_valid: "valid_utf8 src \<Longrightarrow> utf8_whole dst \<Longrightarrow> valid_utf8 (escape_regexp_loop src dst)"
proof (induction "length src" arbitrary: src dst rule: less_induct)
  case less
  from less.prems(1) show ?case
  proof (cases rule: valid_utf8_cases)
    case nil
    then show ?thesis using less.prems(2) by (metis append_Nil2 escape_regexp_loop.simps(1) utf8_whole_def valid_utf8.simps(1))
  next
    case (low c rest)
    obtain src' x where "escape_regexp_loop (c # rest) dst = escape_regexp_loop src' (dst @ x)" "length src' < length (c # rest)"
      "valid_utf8 src'" "utf8_whole x" using escape_low [OF low(2,3)] by blast
    with less.hyps [of src' "dst @ x"] less.prems(2) utf8_whole_append low(1) show ?thesis by auto
  next
    case (high x rest)
    have "list_all (\<lambda>c. c \<ge> 0x80) y \<Longrightarrow> escape_regexp_loop (y @ rest) d = escape_regexp_loop rest (d @ y)" for y d
      by (induction y arbitrary: d) (simp_all add: escape_high del: escape_regexp_loop.simps)
    then have "escape_regexp_loop src dst = escape_regexp_loop rest (dst @ x)" using high(1,3) by simp
    with less.hyps [of rest "dst @ x"] less.prems(2) utf8_whole_append high show ?thesis by auto
  qed
qed

lemma tag_chars_regexp_escape_total: "valid_utf8 expr \<Longrightarrow> tag_chars_regexp_escape expr = Some (escape_regexp_loop expr [])"
  by (simp add: tag_chars_regexp_escape_def escape_valid utf8_whole_def)

section \<open>Properties\<close>

text \<open>
  C35: the matchers that replace a compiled expression of the form literal, with \<open>.*\<close> or \<open>.+\<close> in front of it
  or behind it, accept exactly the strings that consist of the literal and what the dots stand for; with
  no literal, \<open>.*\<close> accepts everything and \<open>.+\<close> everything but the empty string.\<close>

theorem optimized_re_match_correct:
  assumes "parse_regexp_literal middle = Some lit"
  shows "(lit \<noteq> [] \<longrightarrow> (fst (get_optimized_re_match_func re (dot_bytes head @ middle @ dot_bytes tail)) b
      \<longleftrightarrow> (\<exists>x y. b = x @ lit @ y \<and> dot_matches head x \<and> dot_matches tail y)))
    \<and> (head \<noteq> DotNone \<longrightarrow> (fst (get_optimized_re_match_func re (dot_bytes head)) b \<longleftrightarrow> dot_matches head b))"
proof (intro conjI impI)
  show "lit \<noteq> [] \<Longrightarrow> fst (get_optimized_re_match_func re (dot_bytes head @ middle @ dot_bytes tail)) b
      \<longleftrightarrow> (\<exists>x y. b = x @ lit @ y \<and> dot_matches head x \<and> dot_matches tail y)"
    by (rule optimized_literal [OF assms])
next
  assume "head \<noteq> DotNone"
  then show "fst (get_optimized_re_match_func re (dot_bytes head)) b \<longleftrightarrow> dot_matches head b"
    by (cases head) (simp_all add: get_optimized_re_match_func_def strip_head_def strip_tail_def strip_prefix_def strip_suffix_def ends_with_def)
qed

theorem optimized_re_match_witness:
  "parse_regexp_literal [97, 92, 46] = Some [97, 46]
    \<and> fst (get_optimized_re_match_func (\<lambda>_. False) [46, 43, 97, 92, 46, 46, 42]) [98, 97, 46]
    \<and> \<not> fst (get_optimized_re_match_func (\<lambda>_. False) [46, 43, 97, 92, 46, 46, 42]) [97, 46]"
proof -
  have p: "parse_regexp_literal [97, 92, 46] = Some [97, 46]" by (simp add: parse_regexp_literal_def regexp_escapable_def)
  have yes: "fst (get_optimized_re_match_func (\<lambda>_. False) [46, 43, 97, 92, 46, 46, 42]) [98, 97, 46]"
    using optimized_re_match_correct [OF p, of "\<lambda>_. False" DotPlus DotStar "[98, 97, 46]"]
    by (auto intro: exI [of _ "[98]"])
  have no: "\<not> fst (get_optimized_re_match_func (\<lambda>_. False) [46, 43, 97, 92, 46, 46, 42]) [97, 46]"
    using optimized_re_match_correct [OF p, of "\<lambda>_. False" DotPlus DotStar "[97, 46]"] by (simp add: Cons_eq_append_conv)
  from p yes no show ?thesis by blast
qed

text \<open>
  The matchers see the escaped form of a value: a value of one zero byte is escaped with the digit \<open>0\<close>, and
  an expression that asks for this digit matches it.\<close>

theorem regexp_matches_escape_digit:
  "fst (get_optimized_re_match_func re (ascii ''.*0.*'')) (escaped [0])"
proof -
  have "parse_regexp_literal [48] = Some [48]" by (simp add: parse_regexp_literal_def)
  from optimized_literal [OF this, of re DotStar DotStar "escaped [0]"] show ?thesis
    by (simp add: ascii_def escaped_def escape_byte_def sep_defs Cons_eq_append_conv)
qed

end
