(* ===== verification/Spec2Isabelle.thy ===== *)
theory Spec2Isabelle
  imports Block_Encoding Uint64_Set Cache_Collision Table_Search_Correct Sample_Streams_Merge_Correct Index_Search Regexp_Match
begin

text \<open>
  A verification library for the storage core of EsMetrics, a time series database written in Rust.

  \<^bold>\<open>The program.\<close> Samples arrive over the network, are grouped into blocks of one series each,
  encoded as arrays of integers (\<open>crates/esm-encoding\<close>), and kept with an index that is a sorted
  set of byte strings (\<open>crates/esm-mergeset\<close>). Both are stored as parts, immutable groups of sorted
  blocks that a background merge combines. Sets of series identifiers are \<open>u64\<close> sets
  (\<open>crates/esm-common/src/uint64set.rs\<close>). While blocks are merged or queried, samples that are
  closer than a configured interval are dropped (\<open>crates/esm-storage/src/dedup.rs\<close>). Everything
  else (HTTP, protocol parsers, query evaluation, alerting, agents) sits around this core.

  \<^bold>\<open>Conventions.\<close> \<open>Esm_Prelude\<close> fixes them: \<open>uN\<close> and \<open>iN\<close> are words of that width, so that additions
  wrap as in a release build; \<open>usize\<close> is \<open>nat\<close> where no wrap can occur and \<open>u64\<close> where it can.
  A fallible function returns \<open>('e, 'a) res\<close>, an error of the function's own datatype, a panic, or
  a value; functions that only can panic return an option. A \<open>&mut Vec\<close> argument that is appended to
  is an argument and the result. Loops are recursions on the data or on a count.

  \<^bold>\<open>Integer encodings\<close> (\<open>int.rs\<close>): \<open>Varint\<close> and \<open>Varint_Decode\<close> model fixed-width and variable-length
  integers, zig-zag, arrays, length-prefixed bytes, and the three readers the code has (byte-wise,
  and one that reads eight bytes at once). Encoders are shown equal to LEB128, fast and slow readers
  agree, and every encoder is undone by its reader. \<open>Codec\<close> states what formats built from
  consecutive fields rely on as the locale \<open>prefix_codec\<close>; the encodings and the headers below are
  interpretations of it.

  \<^bold>\<open>Blocks of integers\<close> (\<open>nearest_delta.rs\<close>, \<open>nearest_delta2.rs\<close>, \<open>encoding.rs\<close>, \<open>compress.rs\<close>):
  \<open>Nearest_Delta\<close> models the lossy first and second differences with the bound on their error,
  \<open>Block_Encoding\<close> the choice among constant, linear and difference encodings, compression when it
  pays, decoding, and the repair of unsorted timestamps. The compression library is a parameter
  \<open>zstd_lib\<close>; \<open>zstd_ok\<close> says that decompression undoes compression, \<open>zstd_bounded\<close> the documented
  bound on the size of compressed data. \<open>stored_zstd\<close> is an instance of both.

  \<^bold>\<open>Sets\<close> (\<open>uint64set.rs\<close>): \<open>Bucket16\<close>, \<open>Bucket32\<close> and \<open>Uint64_Set\<close> are the three levels, a bitmap with a
  small pool, 65536 of them with hints, and the list of high halves. \<open>Set_Contract\<close> states what one
  level asks of the level below as a locale, \<open>Keyed_List\<close> the sorted association both upper levels
  use. All operations are shown to refine mathematical sets, for whole programs of operations.

  \<^bold>\<open>Sorted blocks of byte strings\<close> (\<open>inmemory_block.rs\<close>): \<open>Inmemory_Block\<close> models building, sorting,
  the plain and the compressed format and its reader with each of its checks.

  \<^bold>\<open>Parts\<close> (\<open>block_header.rs\<close>, \<open>metaindex_row.rs\<close>, \<open>block_stream_writer.rs\<close>, \<open>block_stream_reader.rs\<close>,
  \<open>inmemory_part.rs\<close>, \<open>part_header.rs\<close>): \<open>Field_Readers\<close> and \<open>Mergeset_Headers\<close> hold the index formats,
  \<open>Block_Stream\<close> the writer and the reader of the four streams of a part, \<open>Block_Stream_Correct\<close> the
  representation invariants of both and that a part is read back as what was written. The locale
  \<open>block_source\<close> is what the merge relies on of a reader; the reader of samples is its second
  interpretation.

  \<^bold>\<open>Merge\<close> (\<open>merge.rs\<close>): \<open>Mergeset_Merge\<close> models the heap of readers and the merge loop with its copy
  of runs, its callback and its errors, a stop signal included. \<open>Mergeset_Merge_Correct\<close> shows that it ends and writes a part
  with exactly the items of its sources, sorted. What the merge asks of the callback is the locale
  \<open>block_callback\<close>, with no callback and with that of the index as interpretations. The loop carries fuel; more than the number of
  items plus the number of blocks is enough, and fewer than \<open>2 ^ 40\<close> items keep all counters and
  offsets in range. An item that is longer than a block, which the reader accepts, is the one case in
  which no fuel is enough: the inner loop then never ends.

  \<^bold>\<open>Deduplication\<close> (\<open>dedup.rs\<close>): \<open>Dedup\<close> models the in-place compaction and shows which samples remain.
  Timestamps are integers with the wrap of \<open>i64\<close> written out; the theorems are about sorted,
  non-negative timestamps away from the end of the range.

  \<^bold>\<open>Series identifiers\<close> (\<open>tsid.rs\<close>): \<open>Tsid\<close> has the identifier, its order, its encoding, which is ordered
  in the same way, and the merge of sorted lists of identifiers.

  \<^bold>\<open>Blocks of samples\<close> (\<open>esm-storage/src/block_header.rs\<close>, \<open>metaindex_row.rs\<close>, \<open>block.rs\<close>, \<open>decimal.rs\<close>):
  \<open>Storage_Headers\<close> holds the index formats with the checks of their readers, \<open>Storage_Block\<close> every
  operation of a block (packing, unpacking, the portable format, filtering by time), \<open>Decimal\<close> the
  integer side of decimal values, above all bringing two blocks to a common exponent
  (for exponents less than \<open>2 ^ 15\<close> apart; how far one block is raised is bounded as in the code).

  \<^bold>\<open>Parts of samples\<close> (\<open>block_stream/writer.rs\<close>, \<open>block_stream/reader.rs\<close>, \<open>part/header.rs\<close>,
  \<open>part/inmemory.rs\<close>): \<open>Sample_Stream\<close> models the writer and the reader of the four streams, in which
  consecutive blocks with the same packed timestamps share them; \<open>Sample_Stream_Correct\<close> shows that
  the reader returns what the writer was given.

  \<^bold>\<open>Merge of samples\<close> (\<open>block_stream/merger.rs\<close>): \<open>Sample_Merge\<close> models merging two blocks of one series,
  \<open>Sample_Streams_Merge\<close> the heap of readers and the loop with its pending block, retention, deleted
  series and stop flag. \<open>Sample_Streams_Merge_Correct\<close> shows that the merge ends and which rows the
  part holds that it writes. The loop carries fuel; more than the number of source blocks is enough.
  The heap is shown equal to the generic heap of \<open>Mergeset_Merge\<close>, ordered by series and first
  timestamp.

  \<^bold>\<open>Search\<close> (\<open>blockcache.rs\<close>, \<open>part.rs\<close>, \<open>part_search.rs\<close>, \<open>table_search.rs\<close>): \<open>Part_Search\<close> models the cursor over one part
  with the shortcuts of its seek, \<open>Table_Search\<close> the heap of cursors over the parts of a table.
  \<open>Part_Search_Correct\<close> and \<open>Table_Search_Correct\<close> show that a cursor, whatever was done with it before,
  enumerates exactly the items not below the key that was sought. The locale \<open>cursor\<close> is the contract of
  a cursor, interpreted for parts and for tables, the locale \<open>ordered_rows\<close> what the index relies on of a
  table.

  Cursors read data blocks through a cache that the process shares. \<open>Block_Cache\<close> has its map and its
  counters of misses; \<open>read_cache\<close> is what a reader relies on of it. A cursor carries an environment, the
  list of what others do to the cache between its own accesses, and the theorems hold for every
  environment. They ask that no block of a part but the last consists of several equal items, as when
  the merge gets the same row from two parts and no other row fits beside it: such a block has no
  bytes in the stream of items, so the next block has the same key in the cache. \<open>Cache_Collision\<close> shows that
  the condition is needed: readers of the next block get the block before it. Index blocks are
  compressed and never empty, their offsets differ, and their cache is left out.

  \<^bold>\<open>Metric names\<close> (\<open>metric_name.rs\<close>): \<open>Metric_Name\<close> has names, tags and both encodings; the canonical one
  is shown to be the identity of a name as far as it is one.

  \<^bold>\<open>Index\<close> (\<open>index/row_merge.rs\<close>, \<open>index/create.rs\<close>, \<open>index/search.rs\<close>, key formats of \<open>index/mod.rs\<close>):
  \<open>Row_Merge\<close> models the rows that map tags to metric ids and the callback that joins them during a
  merge, \<open>Index_Items\<close> the rows that registering a series adds, \<open>Index_Search\<close> the lookups by name, metric
  id and day and the loading of deleted series, over the cursor of the table. A merge of the index loses
  no posting, registration adds what lookups need, and lookups find exactly what is registered. Loops
  over a cursor carry fuel; more than the number of rows of the table is enough. The hash function
  \<open>xxh64\<close> is an argument; the caches in front of the lookups are left out.

  \<^bold>\<open>Expressions in tag filters\<close> (\<open>index/tag_filters.rs\<close>, second half): \<open>Regexp_Match\<close> models the matchers that
  replace compiled expressions and shows that they accept what the expression stands for, and that
  escaping an expression keeps it valid text. The package \<open>regex\<close> and the simplification of expressions
  in \<open>regexutil.rs\<close> are the record \<open>regex_lib\<close>.

  \<^bold>\<open>Not modelled.\<close> Files (a file stream behaves as the memory stream with the same content),
  background threads, locks, caches other than that of data blocks, and the \<open>size_bytes\<close> estimates of memory. Floating-point
  code, hence query evaluation and decimal conversion. Network services and their configuration.

  \<^bold>\<open>Plan.\<close> Next are tag filters and the searches by them (\<open>index/tag_filters.rs\<close>, \<open>index/planner.rs\<close>), the search in parts
  of samples, and the query language's lexer and parser.
\<close>

end
